(* ===== verification/Bson_Prelude.thy ===== *)
theory Bson_Prelude
  imports Main "HOL-Library.Word" "HOL-Library.Monad_Syntax"
begin

text \<open>
  Shared vocabulary of the development: the machine types of the C code, the reading and
  writing of bytes in a buffer, little-endian integers as \<^verbatim>\<open>memcpy\<close> stores them
  (bson-endian.h on a little-endian host), NUL-terminated strings, and the generic facts on
  lists, options and words that the component theories use.

  Conventions.
  \<^item> A buffer is a list of bytes. A read or a write that leaves the buffer, and a failed
    \<^verbatim>\<open>BSON_ASSERT\<close>, is the value \<open>None\<close>: the C code has no defined behaviour there (or
    aborts). A theorem that concludes \<open>Some\<close> therefore states memory safety as well.
  \<^item> Offsets and lengths of the C types \<^verbatim>\<open>uint32_t\<close> and \<^verbatim>\<open>unsigned\<close> are natural numbers below
    \<open>2 ^ 32\<close>, with the wrap-around of sums and differences written out
    (\<open>add32\<close>, \<open>sub32\<close>). \<^verbatim>\<open>size_t\<close> has 64 bits.
\<close>

unbundle bit_operations_syntax

type_synonym u8 = "8 word"
type_synonym u32 = "32 word"
type_synonym u64 = "64 word"
type_synonym bytes = "u8 list"

named_theorems byte_simps \<open>rewrite rules for buffers, reads and writes\<close>
named_theorems enc_simps \<open>rewrite rules for encodings and their lengths\<close>

subsection \<open>32-bit arithmetic on natural numbers\<close>

definition add32 :: "nat \<Rightarrow> nat \<Rightarrow> nat" where
  "add32 a b = (a + b) mod 2 ^ 32"

definition sub32 :: "nat \<Rightarrow> nat \<Rightarrow> nat" where
  "sub32 a b = (a + 2 ^ 32 - b) mod 2 ^ 32"

lemma add32_eq [simp]: "a + b < 2 ^ 32 \<Longrightarrow> add32 a b = a + b"
  by (simp add: add32_def)

lemma sub32_eq [simp]: "b \<le> a \<Longrightarrow> a < 2 ^ 32 \<Longrightarrow> sub32 a b = a - b"
  by (simp add: sub32_def mod_if)

lemma add32_less [simp]: "add32 a b < 2 ^ 32"
  by (simp add: add32_def)

lemma sub32_less [simp]: "sub32 a b < 2 ^ 32"
  by (simp add: sub32_def)

subsection \<open>Reading and writing a buffer\<close>

definition rd8 :: "bytes \<Rightarrow> nat \<Rightarrow> u8 option" where
  "rd8 bs i = (if i < length bs then Some (bs ! i) else None)"

definition mem_read :: "bytes \<Rightarrow> nat \<Rightarrow> nat \<Rightarrow> bytes option" where
  "mem_read bs off n =
     (if off + n \<le> length bs then Some (take n (drop off bs)) else None)"

definition mem_write :: "bytes \<Rightarrow> nat \<Rightarrow> bytes \<Rightarrow> bytes option" where
  "mem_write bs off xs =
     (if off + length xs \<le> length bs
      then Some (take off bs @ xs @ drop (off + length xs) bs) else None)"

lemma rd8_eq [byte_simps]: "i < length bs \<Longrightarrow> rd8 bs i = Some (bs ! i)"
  by (simp add: rd8_def)

lemma rd8_append: "rd8 (xs @ ys) i = (if i < length xs then rd8 xs i else rd8 ys (i - length xs))"
  by (auto simp: rd8_def nth_append)

lemma mem_read_eq [byte_simps]:
  "off + n \<le> length bs \<Longrightarrow> mem_read bs off n = Some (take n (drop off bs))"
  by (simp add: mem_read_def)

lemma mem_read_None: "mem_read bs off n = None \<longleftrightarrow> length bs < off + n"
  by (auto simp: mem_read_def)

lemma mem_read_length: "mem_read bs off n = Some xs \<Longrightarrow> length xs = n"
  by (auto simp: mem_read_def split: if_splits)

lemma mem_read_append:
  "off = length xs \<Longrightarrow> n = length ys \<Longrightarrow> mem_read (xs @ ys @ zs) off n = Some ys"
  by (simp add: mem_read_def)

lemma mem_write_append:
  "length zs = length ys \<Longrightarrow> off = length xs \<Longrightarrow> mem_write (xs @ zs @ r) off ys = Some (xs @ ys @ r)"
  by (simp add: mem_write_def)

lemma mem_write_length: "mem_write bs off xs = Some bs' \<Longrightarrow> length bs' = length bs"
  by (auto simp: mem_write_def split: if_splits)

lemma mem_write_take:
  "mem_write bs off xs = Some bs' \<Longrightarrow> n \<le> off \<Longrightarrow> take n bs' = take n bs"
  by (auto simp: mem_write_def min_absorb1 split: if_splits)

subsection \<open>Little-endian integers\<close>

text \<open>
  \<open>le_bytes k n\<close> is the \<open>k\<close>-byte little-endian image of \<open>n\<close>: what \<^verbatim>\<open>memcpy\<close> leaves in memory
  after \<^verbatim>\<open>BSON_UINT32_TO_LE\<close> (\<open>k = 4\<close>) or \<^verbatim>\<open>BSON_UINT64_TO_LE\<close> (\<open>k = 8\<close>). \<open>le_nat\<close> reads it back.
\<close>

fun le_bytes :: "nat \<Rightarrow> nat \<Rightarrow> bytes" where
  "le_bytes 0 n = []"
| "le_bytes (Suc k) n = word_of_nat n # le_bytes k (n div 256)"

fun le_nat :: "bytes \<Rightarrow> nat" where
  "le_nat [] = 0"
| "le_nat (b # bs) = unat b + 256 * le_nat bs"

lemma le_bytes_num: "le_bytes (numeral j) n = word_of_nat n # le_bytes (pred_numeral j) (n div 256)"
  using le_bytes.simps(2) [of "pred_numeral j" n] unfolding numeral_eq_Suc [of j, symmetric] .

lemma unat_of_nat_u8: "unat (word_of_nat n :: u8) = n mod 256"
  by (simp add: unat_of_nat)

lemma unat_u8_less [simp]: "unat (b :: u8) < 256"
  using unsigned_less [of b] by simp

lemma unat_u32_less: "unat (w :: u32) < 2 ^ 32"
proof -
  have "unat w < 2 ^ LENGTH(32)" by (rule unsigned_less)
  then show ?thesis by simp
qed

lemma length_le_bytes [simp, enc_simps]: "length (le_bytes k n) = k"
  by (induction k arbitrary: n) auto

lemma le_nat_le_bytes: "le_nat (le_bytes k n) = n mod 256 ^ k"
proof (induction k arbitrary: n)
  case 0
  show ?case by simp
next
  case (Suc k)
  have "n mod (256 * 256 ^ k) = 256 * (n div 256 mod 256 ^ k) + n mod 256"
    by (simp add: mod_mult2_eq)
  with Suc show ?case by (simp add: unat_of_nat_u8)
qed

lemma le_nat_less: "le_nat bs < 256 ^ length bs"
proof (induction bs)
  case Nil
  show ?case by simp
next
  case (Cons b bs)
  from Cons have "le_nat bs + 1 \<le> 256 ^ length bs" by simp
  then have "256 * (le_nat bs + 1) \<le> 256 * 256 ^ length bs" by (rule mult_le_mono2)
  then have "256 * le_nat bs + 256 \<le> 256 * 256 ^ length bs" by simp
  moreover have "unat b < 256" by (rule unat_u8_less)
  ultimately have "unat b + 256 * le_nat bs < 256 * 256 ^ length bs" by (simp only:)
  then show ?case by simp
qed

lemma le_bytes_le_nat: "length bs = k \<Longrightarrow> le_bytes k (le_nat bs) = bs"
proof (induction bs arbitrary: k)
  case Nil
  then show ?case by simp
next
  case (Cons b bs)
  have "(unat b + 256 * le_nat bs) div 256 = le_nat bs" by simp
  moreover have "word_of_nat (unat b + 256 * le_nat bs) = b"
    by (simp only: word_unat_eq_iff unat_of_nat_u8) simp
  ultimately show ?case using Cons by auto
qed

lemma le_bytes_mod: "le_bytes k (n mod 256 ^ k) = le_bytes k n"
  by (metis le_bytes_le_nat le_nat_le_bytes length_le_bytes)

definition rd32 :: "bytes \<Rightarrow> nat \<Rightarrow> nat option" where
  "rd32 bs off = map_option le_nat (mem_read bs off 4)"

definition rd64 :: "bytes \<Rightarrow> nat \<Rightarrow> nat option" where
  "rd64 bs off = map_option le_nat (mem_read bs off 8)"

lemma rd32_less: "rd32 bs off = Some n \<Longrightarrow> n < 2 ^ 32"
  using le_nat_less [of "take 4 (drop off bs)"]
  by (auto simp: rd32_def mem_read_def split: if_splits)

lemma rd32_in [byte_simps]:
  "off + 4 \<le> length bs \<Longrightarrow> rd32 bs off = Some (le_nat (take 4 (drop off bs)))"
  by (simp add: rd32_def mem_read_eq)

lemma rd32_le_bytes:
  "off = length xs \<Longrightarrow> n < 2 ^ 32 \<Longrightarrow> rd32 (xs @ le_bytes 4 n @ ys) off = Some n"
  by (simp add: rd32_def mem_read_append le_nat_le_bytes)

lemma rd64_le_bytes:
  "off = length xs \<Longrightarrow> n < 2 ^ 64 \<Longrightarrow> rd64 (xs @ le_bytes 8 n @ ys) off = Some n"
  by (simp add: rd64_def mem_read_append le_nat_le_bytes)

subsection \<open>NUL-terminated strings\<close>

text \<open>
  \<open>str_of s\<close> is a C string literal without its terminator. \<open>c_string bs off\<close> is the string a
  \<^verbatim>\<open>char *\<close> at offset \<open>off\<close> denotes: the bytes up to the first NUL, \<open>None\<close> when there is no NUL
  before the end of the buffer (\<^verbatim>\<open>strlen\<close> would run out of it).
\<close>

definition str_of :: "string \<Rightarrow> bytes" where
  "str_of s = map of_char s"

definition no_nul :: "bytes \<Rightarrow> bool" where
  "no_nul bs \<longleftrightarrow> list_all (\<lambda>b. b \<noteq> 0) bs"

definition c_string :: "bytes \<Rightarrow> nat \<Rightarrow> bytes option" where
  "c_string bs off =
     (let s = takeWhile (\<lambda>b. b \<noteq> 0) (drop off bs)
      in if off + length s < length bs then Some s else None)"

lemma no_nul_simps [simp]:
  "no_nul []"
  "no_nul (b # bs) \<longleftrightarrow> b \<noteq> 0 \<and> no_nul bs"
  "no_nul (xs @ ys) \<longleftrightarrow> no_nul xs \<and> no_nul ys"
  by (auto simp: no_nul_def)

lemma no_nul_takeWhile: "no_nul (takeWhile (\<lambda>b. b \<noteq> 0) bs)"
  by (auto simp: no_nul_def list_all_iff dest: set_takeWhileD)

lemma takeWhile_no_nul: "no_nul s \<Longrightarrow> takeWhile (\<lambda>b. b \<noteq> 0) (s @ 0 # r) = s"
  by (induction s) auto

lemma c_string_append:
  "off = length xs \<Longrightarrow> no_nul s \<Longrightarrow> c_string (xs @ s @ 0 # ys) off = Some s"
  by (simp add: c_string_def takeWhile_no_nul)

lemma c_string_no_nul: "c_string bs off = Some s \<Longrightarrow> no_nul s"
  by (auto simp: c_string_def Let_def no_nul_takeWhile split: if_splits)

lemma c_string_bound: "c_string bs off = Some s \<Longrightarrow> off + length s < length bs"
  by (auto simp: c_string_def Let_def split: if_splits)

subsection \<open>Generic facts\<close>

lemma bind_Some_iff: "Option.bind m f = Some y \<longleftrightarrow> (\<exists>x. m = Some x \<and> f x = Some y)"
  by (cases m) auto

lemma take_drop_split: "off + n \<le> length bs \<Longrightarrow> bs = take off bs @ take n (drop off bs) @ drop (off + n) bs"
  by (metis append_take_drop_id drop_drop add.commute)

lemma nat_div_eq_iff: "0 < k \<Longrightarrow> n div k = q \<longleftrightarrow> q * k \<le> n \<and> n < Suc q * k" for n :: nat
  by (metis div_less_iff_less_mult less_eq_div_iff_mult_less_eq less_Suc_eq_le le_antisym order_refl)

text \<open>
  A fact about all bytes can be checked on the 256 of them: \<open>all_u8_eval\<close> is the list of
  their numerals, so the simplifier decides each instance.
\<close>

definition all_u8 :: "bytes" where
  "all_u8 = map word_of_nat [0..<256]"

lemmas all_u8_eval = all_u8_def [simplified upt_conv_Cons, simplified]

lemma all_bytes: "list_all P all_u8 \<Longrightarrow> P b"
proof -
  assume all: "list_all P all_u8"
  have "unat b \<in> set [0..<256]" by simp
  then have "word_of_nat (unat b) \<in> word_of_nat ` set [0..<256]" by (rule imageI)
  then have "word_of_nat (unat b) \<in> set all_u8" unfolding all_u8_def by (simp only: set_map)
  with all have "P (word_of_nat (unat b))" by (auto simp: list_all_iff)
  then show ?thesis by simp
qed

lemma unat_and_mask: "mask n = m \<Longrightarrow> unat (b AND m :: 'a :: len word) = unat b mod 2 ^ n"
  by (metis take_bit_eq_mask take_bit_eq_mod unsigned_take_bit_eq)

lemma all_less_upt: "list_all P [0..<k] \<Longrightarrow> n < k \<Longrightarrow> P n"
  by (simp add: list_all_iff)

end
