(* ===== verification/Utf8.thy ===== *)
theory Utf8
  imports Bson_Prelude
begin

text \<open>
  \<^verbatim>\<open>src/bson/bson-utf8.c\<close>: the classification of a lead byte, the validator, the decoder of one
  character, the step to the next one and the encoder.

  The validator is compared with an independent description of UTF-8 text: \<open>utf8_enc\<close> is the
  encoding table of the Unicode standard, written with \<open>div\<close> and \<open>mod\<close>, and \<open>utf8_text\<close>
  is a sequence of encodings of scalar values (with the two-byte NUL that libbson accepts when
  NUL is allowed).
\<close>

unbundle bit_operations_syntax

subsection \<open>The code\<close>

definition bson_utf8_get_sequence :: "u8 \<Rightarrow> nat \<times> u8" where
  "bson_utf8_get_sequence c =
     (if c AND 0x80 = 0 then (1, 0x7F)
      else if c AND 0xE0 = 0xC0 then (2, 0x1F)
      else if c AND 0xF0 = 0xE0 then (3, 0x0F)
      else if c AND 0xF8 = 0xF0 then (4, 0x07)
      else if c AND 0xFC = 0xF8 then (5, 0x03)
      else if c AND 0xFE = 0xFC then (6, 0x01)
      else (0, 0))"

text \<open>
  One continuation byte: \<^verbatim>\<open>c = (c << 6) | (b & 0x3F)\<close>. \<open>validate_cont\<close> is the inner loop over
  \<open>j\<close> up to \<open>e\<close>: \<open>Some None\<close> is \<^verbatim>\<open>return false\<close>, and \<open>None\<close> a read outside the buffer.
\<close>

definition utf8_shift_in :: "u32 \<Rightarrow> u8 \<Rightarrow> u32" where
  "utf8_shift_in c b = push_bit 6 c OR ucast (b AND 0x3F)"

function validate_cont :: "bytes \<Rightarrow> nat \<Rightarrow> nat \<Rightarrow> u32 \<Rightarrow> u32 option option" where
  "validate_cont utf8 j e c =
     (if j < e then do {
        b \<leftarrow> rd8 utf8 j;
        (if b AND 0xC0 \<noteq> 0x80 then Some None
         else validate_cont utf8 (Suc j) e (utf8_shift_in c b)) }
      else Some (Some c))"
  by pat_completeness auto
termination
  by (relation "measure (\<lambda>(utf8, j, e, c). e - j)") auto

text \<open>The loop that rejects NUL bytes inside the sequence, for \<open>j\<close> from \<open>0\<close> to \<open>n\<close>.\<close>

function validate_no_nul :: "bytes \<Rightarrow> nat \<Rightarrow> nat \<Rightarrow> nat \<Rightarrow> nat \<Rightarrow> bool option" where
  "validate_no_nul utf8 utf8_len i j n =
     (if j < n then
        (if add32 i j > utf8_len then Some False
         else do {
           b \<leftarrow> rd8 utf8 (add32 i j);
           (if b = 0 then Some False else validate_no_nul utf8 utf8_len i (Suc j) n) })
      else Some True)"
  by pat_completeness auto
termination
  by (relation "measure (\<lambda>(utf8, l, i, j, n). n - j)") auto

text \<open>The \<^verbatim>\<open>switch\<close> on the sequence length, which refuses non-shortest forms.\<close>

definition utf8_shortest_form :: "bool \<Rightarrow> nat \<Rightarrow> u32 \<Rightarrow> bool" where
  "utf8_shortest_form allow_null seq_length c =
     (if seq_length = 1 then c \<le> 0x7F
      else if seq_length = 2 then
        (if c \<ge> 0x80 \<and> c \<le> 0x7FF then True else if c = 0 then allow_null else False)
      else if seq_length = 3 then
        (c \<ge> 0x800 \<and> c \<le> 0xFFF) \<or> (c \<ge> 0x1000 \<and> c \<le> 0xFFFF)
      else if seq_length = 4 then
        (c \<ge> 0x10000 \<and> c \<le> 0x3FFFF) \<or> (c \<ge> 0x40000 \<and> c \<le> 0xFFFFF)
        \<or> (c \<ge> 0x100000 \<and> c \<le> 0x10FFFF)
      else False)"

text \<open>
  The body of the validator's loop at index \<open>i\<close>: \<open>Some None\<close> is \<^verbatim>\<open>return false\<close>,
  \<open>Some (Some n)\<close> is \<^verbatim>\<open>continue\<close> with \<^verbatim>\<open>i += n\<close>.
\<close>

definition utf8_validate_char :: "bytes \<Rightarrow> nat \<Rightarrow> bool \<Rightarrow> nat \<Rightarrow> nat option option" where
  "utf8_validate_char utf8 utf8_len allow_null i = do {
     b \<leftarrow> rd8 utf8 i;
     (let (seq_length, first_mask) = bson_utf8_get_sequence b in
      if seq_length = 0 then Some None
      else if utf8_len - i < seq_length then Some None
      else do {
        r \<leftarrow> validate_cont utf8 (add32 i 1) (add32 i seq_length) (ucast (b AND first_mask));
        (case r of
           None \<Rightarrow> Some None
         | Some c \<Rightarrow> do {
             ok \<leftarrow> (if allow_null then Some True
                    else validate_no_nul utf8 utf8_len i 0 seq_length);
             (if \<not> ok then Some None
              else if c > 0x10FFFF then Some None
              else if c AND 0xFFFFF800 = 0xD800 then Some None
              else if utf8_shortest_form allow_null seq_length c then Some (Some seq_length)
              else Some None) }) }) }"

partial_function (option) utf8_validate_loop ::
  "bytes \<Rightarrow> nat \<Rightarrow> bool \<Rightarrow> nat \<Rightarrow> bool option" where
  "utf8_validate_loop utf8 utf8_len allow_null i =
     (if i < utf8_len then
        (case utf8_validate_char utf8 utf8_len allow_null i of
           None \<Rightarrow> None
         | Some None \<Rightarrow> Some False
         | Some (Some n) \<Rightarrow> utf8_validate_loop utf8 utf8_len allow_null (add32 i n))
      else Some True)"

definition bson_utf8_validate :: "bytes \<Rightarrow> nat \<Rightarrow> bool \<Rightarrow> bool option" where
  "bson_utf8_validate utf8 utf8_len allow_null = utf8_validate_loop utf8 utf8_len allow_null 0"

text \<open>\<^verbatim>\<open>bson_utf8_get_char\<close> and \<^verbatim>\<open>bson_utf8_next_char\<close>, on the buffer at an offset.\<close>

fun get_char_loop :: "bytes \<Rightarrow> nat \<Rightarrow> nat \<Rightarrow> u32 \<Rightarrow> u32 option" where
  "get_char_loop utf8 j 0 c = Some c"
| "get_char_loop utf8 j (Suc n) c = do {
     b \<leftarrow> rd8 utf8 j;
     get_char_loop utf8 (Suc j) n (utf8_shift_in c b) }"

definition bson_utf8_get_char :: "bytes \<Rightarrow> nat \<Rightarrow> u32 option" where
  "bson_utf8_get_char utf8 i = do {
     b \<leftarrow> rd8 utf8 i;
     (let (num, mask) = bson_utf8_get_sequence b
      in get_char_loop utf8 (i + 1) (num - 1) (ucast (b AND mask))) }"

definition bson_utf8_next_char :: "bytes \<Rightarrow> nat \<Rightarrow> nat option" where
  "bson_utf8_next_char utf8 i = do {
     b \<leftarrow> rd8 utf8 i;
     Some (i + fst (bson_utf8_get_sequence b)) }"

text \<open>The encoder, with the shifts and masks of each branch; the length is that of the list.\<close>

definition bson_utf8_from_unichar :: "u32 \<Rightarrow> bytes" where
  "bson_utf8_from_unichar u =
     (if u \<le> 0x7F then [ucast u]
      else if u \<le> 0x7FF then
        [ucast (0xC0 OR (drop_bit 6 u AND 0x3F)),
         ucast (0x80 OR (u AND 0x3F))]
      else if u \<le> 0xFFFF then
        [ucast (0xE0 OR (drop_bit 12 u AND 0xF)),
         ucast (0x80 OR (drop_bit 6 u AND 0x3F)),
         ucast (0x80 OR (u AND 0x3F))]
      else if u \<le> 0x1FFFFF then
        [ucast (0xF0 OR (drop_bit 18 u AND 0x7)),
         ucast (0x80 OR (drop_bit 12 u AND 0x3F)),
         ucast (0x80 OR (drop_bit 6 u AND 0x3F)),
         ucast (0x80 OR (u AND 0x3F))]
      else if u \<le> 0x3FFFFFF then
        [ucast (0xF8 OR (drop_bit 24 u AND 0x3)),
         ucast (0x80 OR (drop_bit 18 u AND 0x3F)),
         ucast (0x80 OR (drop_bit 12 u AND 0x3F)),
         ucast (0x80 OR (drop_bit 6 u AND 0x3F)),
         ucast (0x80 OR (u AND 0x3F))]
      else if u \<le> 0x7FFFFFFF then
        [ucast (0xFC OR (drop_bit 31 u AND 0x1)),
         ucast (0x80 OR (drop_bit 25 u AND 0x3F)),
         ucast (0x80 OR (drop_bit 19 u AND 0x3F)),
         ucast (0x80 OR (drop_bit 13 u AND 0x3F)),
         ucast (0x80 OR (drop_bit 7 u AND 0x3F)),
         ucast (0x80 OR (u AND 0x1))]
      else [])"

declare utf8_validate_loop.simps [code]
declare validate_cont.simps [simp del] validate_no_nul.simps [simp del]

subsection \<open>Bytes as numbers\<close>

lemma get_sequence_cases:
  "bson_utf8_get_sequence b =
     (if unat b < 0x80 then (1, 0x7F)
      else if unat b < 0xC0 then (0, 0)
      else if unat b < 0xE0 then (2, 0x1F)
      else if unat b < 0xF0 then (3, 0x0F)
      else if unat b < 0xF8 then (4, 0x07)
      else if unat b < 0xFC then (5, 0x03)
      else if unat b < 0xFE then (6, 0x01)
      else (0, 0))"
  by (rule all_bytes [of _ b], simp add: all_u8_eval bson_utf8_get_sequence_def)

lemma cont_byte_iff: "b AND 0xC0 = (0x80 :: u8) \<longleftrightarrow> 0x80 \<le> unat b \<and> unat b < 0xC0"
  by (rule all_bytes [of _ b], simp add: all_u8_eval bson_utf8_get_sequence_def)

lemma unat_and_masks:
  "unat (b AND 0x7F :: u8) = unat b mod 128"
  "unat (b AND 0x1F :: u8) = unat b mod 32"
  "unat (b AND 0x0F :: u8) = unat b mod 16"
  "unat (b AND 0x07 :: u8) = unat b mod 8"
  "unat (b AND 0x03 :: u8) = unat b mod 4"
  using unat_and_mask [of 7 "0x7F" b] unat_and_mask [of 5 "0x1F" b]
    unat_and_mask [of 4 "0x0F" b] unat_and_mask [of 3 "0x07" b] unat_and_mask [of 2 "0x03" b]
  by (simp_all add: mask_eq_exp_minus_1)

lemma unat_ucast_u32 [simp]: "unat (ucast (b :: u8) :: u32) = unat b"
proof -
  have "unat b < 2 ^ 32" by (rule order_less_le_trans [OF unat_u8_less]) simp
  then show ?thesis by (simp add: unsigned_ucast_eq take_bit_nat_eq_self)
qed

lemma and_3F: "b AND 0x3F = take_bit 6 (b :: u8)"
  by (simp add: take_bit_eq_mask mask_eq_exp_minus_1)

lemma unat_shift_in:
  assumes "unat c < 2 ^ 26"
  shows "unat (utf8_shift_in c b) = unat c * 64 + unat b mod 64"
proof -
  have "push_bit 6 c AND ucast (take_bit 6 b) = (0 :: u32)"
    by (rule bit_eqI) (auto simp: bit_simps)
  then have "utf8_shift_in c b = push_bit 6 c + ucast (take_bit 6 b)"
    unfolding utf8_shift_in_def and_3F by (simp add: disjunctive_add_eq_or)
  moreover have "unat (push_bit 6 c) = unat c * 64"
    using assms by (simp only: unsigned_push_bit_eq) (simp add: push_bit_eq_mult take_bit_nat_def)
  ultimately show ?thesis
    using assms by (simp add: unat_word_ariths unsigned_take_bit_eq take_bit_nat_def)
qed

lemma surrogate_iff: "c AND 0xFFFFF800 = (0xD800 :: u32) \<longleftrightarrow> 0xD800 \<le> unat c \<and> unat c < 0xE000"
proof -
  have mask: "(0xFFFFF800 :: u32) = NOT (mask 11)" by (simp add: mask_eq_exp_minus_1)
  have high: "c AND NOT (mask 11) = push_bit 11 (drop_bit 11 c)"
    by (rule bit_eqI) (auto simp: bit_simps)
  have "unat c < 2 ^ 32" using unsigned_less [of c] by simp
  then have "unat c div 2048 * 2048 < 2 ^ 32" by (rule order_le_less_trans [rotated]) simp
  then have "unat (push_bit 11 (drop_bit 11 c)) = unat c div 2048 * 2048"
    by (simp only: unsigned_push_bit_eq unsigned_drop_bit_eq)
      (simp add: push_bit_eq_mult take_bit_nat_def drop_bit_eq_div)
  then have "c AND 0xFFFFF800 = (0xD800 :: u32) \<longleftrightarrow> unat c div 2048 * 2048 = 0xD800"
    unfolding mask high word_unat_eq_iff by simp
  also have "\<dots> \<longleftrightarrow> unat c div 2048 = 27" by simp
  finally show ?thesis by (simp add: nat_div_eq_iff)
qed

subsection \<open>UTF-8 text, from the Unicode standard\<close>

definition scalar_value :: "nat \<Rightarrow> bool" where
  "scalar_value c \<longleftrightarrow> c < 0xD800 \<or> (0xE000 \<le> c \<and> c < 0x110000)"

definition utf8_enc :: "nat \<Rightarrow> bytes" where
  "utf8_enc c = map word_of_nat
     (if c < 0x80 then [c]
      else if c < 0x800 then [0xC0 + c div 0x40, 0x80 + c mod 0x40]
      else if c < 0x10000 then
        [0xE0 + c div 0x1000, 0x80 + c div 0x40 mod 0x40, 0x80 + c mod 0x40]
      else
        [0xF0 + c div 0x40000, 0x80 + c div 0x1000 mod 0x40,
         0x80 + c div 0x40 mod 0x40, 0x80 + c mod 0x40])"

definition utf8_unit :: "bool \<Rightarrow> bytes \<Rightarrow> bool" where
  "utf8_unit allow_null t \<longleftrightarrow>
     (\<exists>c. scalar_value c \<and> (c \<noteq> 0 \<or> allow_null) \<and> t = utf8_enc c) \<or> (allow_null \<and> t = [0xC0, 0x80])"

inductive utf8_text :: "bool \<Rightarrow> bytes \<Rightarrow> bool" for allow_null where
  utf8_end: "utf8_text allow_null []"
| utf8_unit: "utf8_unit allow_null t \<Longrightarrow> utf8_text allow_null r \<Longrightarrow> utf8_text allow_null (t @ r)"

subsection \<open>The loops in closed form\<close>

definition cont_byte :: "u8 \<Rightarrow> bool" where
  "cont_byte b \<longleftrightarrow> 0x80 \<le> unat b \<and> unat b < 0xC0"

lemma validate_cont_eq:
  "validate_cont (pre @ xs @ post) (length pre) (length pre + length xs) c =
     Some (if list_all cont_byte xs then Some (foldl utf8_shift_in c xs) else None)"
proof (induction xs arbitrary: pre c)
  case Nil
  then show ?case by (simp add: validate_cont.simps)
next
  case (Cons x xs)
  have "validate_cont (pre @ (x # xs) @ post) (Suc (length pre)) (length pre + length (x # xs))
        (utf8_shift_in c x) =
      Some (if list_all cont_byte xs then Some (foldl utf8_shift_in (utf8_shift_in c x) xs) else None)"
    using Cons.IH [of "pre @ [x]"] by simp
  then show ?case
    by (subst validate_cont.simps) (simp add: rd8_def nth_append cont_byte_iff cont_byte_def)
qed

lemma validate_no_nul_eq:
  assumes "length pre + n \<le> utf8_len" "utf8_len < 2 ^ 32" "n \<le> length xs"
  shows "j \<le> n \<Longrightarrow> validate_no_nul (pre @ xs) utf8_len (length pre) j n =
     Some (no_nul (drop j (take n xs)))"
proof (induction "n - j" arbitrary: j)
  case 0
  then show ?case by (simp add: validate_no_nul.simps)
next
  case (Suc k)
  then have j: "j < n" by simp
  have rec: "validate_no_nul (pre @ xs) utf8_len (length pre) (Suc j) n =
      Some (no_nul (drop (Suc j) (take n xs)))"
    using Suc.hyps j by simp
  have "add32 (length pre) j = length pre + j" using assms j by simp
  moreover have "drop j (take n xs) = xs ! j # drop (Suc j) (take n xs)"
    using j assms by (simp add: Cons_nth_drop_Suc [symmetric])
  ultimately show ?case
    using j assms rec
    by (subst validate_no_nul.simps) (simp add: rd8_def nth_append)
qed

lemma get_char_loop_eq:
  "get_char_loop (pre @ xs @ post) (length pre) (length xs) c = Some (foldl utf8_shift_in c xs)"
proof (induction xs arbitrary: pre c)
  case Nil
  then show ?case by simp
next
  case (Cons x xs)
  show ?case using Cons.IH [of "pre @ [x]"] by (simp add: rd8_def nth_append)
qed

text \<open>\<open>char_step\<close> is the loop body as a function of the bytes that are left.\<close>

definition char_step :: "bool \<Rightarrow> bytes \<Rightarrow> nat option" where
  "char_step allow_null s =
     (case s of [] \<Rightarrow> None | b # r \<Rightarrow>
      (let (n, m) = bson_utf8_get_sequence b;
           c = foldl utf8_shift_in (ucast (b AND m)) (take (n - 1) r)
       in if n = 0 \<or> length s < n \<or> \<not> list_all cont_byte (take (n - 1) r)
             \<or> (\<not> allow_null \<and> \<not> no_nul (take n s))
             \<or> c > 0x10FFFF \<or> c AND 0xFFFFF800 = 0xD800 \<or> \<not> utf8_shortest_form allow_null n c
          then None else Some n))"

lemma validate_char_eq:
  assumes "length pre + length s \<le> 2 ^ 32 - 1" "s \<noteq> []"
  shows "utf8_validate_char (pre @ s @ post) (length pre + length s) allow_null (length pre) =
    Some (char_step allow_null s)"
proof -
  obtain b r where s: "s = b # r" using assms by (cases s) auto
  obtain n m where nm: "bson_utf8_get_sequence b = (n, m)" by fastforce
  show ?thesis
  proof (cases "n = 0 \<or> length s < n")
    case True
    then show ?thesis
      using nm by (auto simp: utf8_validate_char_def char_step_def s rd8_def nth_append)
  next
    case False
    then have n: "0 < n" "n \<le> length s" by auto
    define xs where "xs = take (n - 1) r"
    have len: "length xs = n - 1" using n by (simp add: xs_def s)
    have split: "pre @ s @ post = (pre @ [b]) @ xs @ drop (n - 1) r @ post"
      by (simp add: s xs_def)
    have ends: "add32 (length pre) (Suc 0) = length (pre @ [b])"
        "add32 (length pre) n = length (pre @ [b]) + length xs"
      using assms n len by (simp_all add: s)
    have cont: "validate_cont (pre @ s @ post) (add32 (length pre) (Suc 0)) (add32 (length pre) n) c =
        Some (if list_all cont_byte xs then Some (foldl utf8_shift_in c xs) else None)" for c
      unfolding ends split by (rule validate_cont_eq)
    have nul: "validate_no_nul (pre @ s @ post) (length pre + length s) (length pre) 0 n =
        Some (no_nul (take n s))"
      using validate_no_nul_eq [of pre n "length pre + length s" "s @ post" 0] assms n by simp
    have rd: "rd8 (pre @ s @ post) (length pre) = Some b" by (simp add: rd8_def nth_append s)
    have step: "char_step allow_null s =
      (let c = foldl utf8_shift_in (ucast (b AND m)) xs
       in if \<not> list_all cont_byte xs \<or> (\<not> allow_null \<and> \<not> no_nul (take n s))
             \<or> c > 0x10FFFF \<or> c AND 0xFFFFF800 = 0xD800 \<or> \<not> utf8_shortest_form allow_null n c
          then None else Some n)"
      using False by (simp add: char_step_def s nm xs_def)
    show ?thesis
      using n unfolding utf8_validate_char_def step
      by (simp add: rd nm cont nul Let_def)
  qed
qed

subsection \<open>One character, by the length of its sequence\<close>

lemma unat_byte [simp]: "n < 256 \<Longrightarrow> unat (word_of_nat n :: u8) = n"
  by (simp add: unat_of_nat_u8)

lemma byte_ne_0: "0 < n \<Longrightarrow> n < 256 \<Longrightarrow> (word_of_nat n :: u8) \<noteq> 0"
  by (metis unat_byte unsigned_0 less_irrefl)

lemma unat_le_numeral: "(c :: u32) \<le> numeral k \<longleftrightarrow> unat c \<le> unat (numeral k :: u32)"
  "numeral k \<le> c \<longleftrightarrow> unat (numeral k :: u32) \<le> unat c"
  "numeral k < c \<longleftrightarrow> unat (numeral k :: u32) < unat c"
  by (simp_all add: word_le_nat_alt word_less_nat_alt)

definition shortest_nat :: "bool \<Rightarrow> nat \<Rightarrow> nat \<Rightarrow> bool" where
  "shortest_nat an n v \<longleftrightarrow>
     (n = 1 \<and> v \<le> 0x7F) \<or> (n = 2 \<and> (0x80 \<le> v \<and> v \<le> 0x7FF \<or> v = 0 \<and> an))
     \<or> (n = 3 \<and> 0x800 \<le> v \<and> v \<le> 0xFFFF) \<or> (n = 4 \<and> 0x10000 \<le> v \<and> v \<le> 0x10FFFF)"

lemma shortest_form_nat: "utf8_shortest_form an n c \<longleftrightarrow> shortest_nat an n (unat c)"
proof -
  have "c = 0 \<longleftrightarrow> unat c = 0" by (simp add: unat_eq_0)
  then show ?thesis unfolding utf8_shortest_form_def shortest_nat_def unat_le_numeral by auto
qed

lemma char_step_Cons:
  assumes seq: "bson_utf8_get_sequence b = (Suc (length xs), m)"
    and c: "list_all cont_byte xs \<Longrightarrow> unat (foldl utf8_shift_in (ucast (b AND m)) xs) = v"
  shows "char_step an (b # xs @ r) =
    (if list_all cont_byte xs \<and> (an \<or> no_nul (b # xs)) \<and> scalar_value v
        \<and> shortest_nat an (Suc (length xs)) v
     then Some (Suc (length xs)) else None)"
  using seq c
  by (auto simp: char_step_def shortest_form_nat surrogate_iff unat_le_numeral scalar_value_def)

lemma cont_no_nul: "list_all cont_byte xs \<Longrightarrow> no_nul xs"
  by (induction xs) (auto simp: cont_byte_def)

lemma char_step_1:
  assumes "x < 128"
  shows "char_step an (word_of_nat x # r) = (if x = 0 \<and> \<not> an then None else Some 1)"
  using assms char_step_Cons [of "word_of_nat x" "[]" "0x7F" x an r]
  by (auto simp: get_sequence_cases shortest_nat_def scalar_value_def
      unat_and_masks unat_byte byte_ne_0)

lemma lead_mods:
  "y < 64 \<Longrightarrow> (128 + y) mod 64 = y" "x < 32 \<Longrightarrow> (192 + x) mod 32 = x"
  "x < 16 \<Longrightarrow> (224 + x) mod 16 = x" "x < 8 \<Longrightarrow> (240 + x) mod 8 = x"
  "x < 4 \<Longrightarrow> (248 + x) mod 4 = x" for x y :: nat
  using mod_mult_self3 [of 2 64 y] mod_mult_self3 [of 6 32 x] mod_mult_self3 [of 14 16 x]
    mod_mult_self3 [of 30 8 x] mod_mult_self3 [of 62 4 x] by simp_all

lemma shift_in_nat:
  "unat c = v \<Longrightarrow> v < 2 ^ 26 \<Longrightarrow> unat b = 0x80 + y \<Longrightarrow> y < 64 \<Longrightarrow> unat (utf8_shift_in c b) = v * 64 + y"
  by (simp add: unat_shift_in lead_mods)

lemma nz_byte: "unat b = k + x \<Longrightarrow> 0 < k \<Longrightarrow> b \<noteq> 0"
  by auto

lemma char_step_2:
  assumes "unat b0 = 0xC0 + x" "x < 32" "unat b1 = 0x80 + y" "y < 64"
  shows "char_step an (b0 # b1 # r) =
    (if shortest_nat an 2 (x * 64 + y) then Some 2 else None)"
proof -
  have "unat (ucast (b0 AND 0x1F) :: u32) = x" using assms by (simp add: unat_and_masks lead_mods)
  then have v: "unat (foldl utf8_shift_in (ucast (b0 AND 0x1F)) [b1]) = x * 64 + y"
    using assms by (simp add: shift_in_nat)
  have seq: "bson_utf8_get_sequence b0 = (Suc (length [b1]), 0x1F)" "no_nul [b0, b1]" "list_all cont_byte [b1]"
    using assms by (auto simp: get_sequence_cases cont_byte_def nz_byte)
  then show ?thesis
    using char_step_Cons [OF seq(1) v, of an r] assms
    by (simp add: shortest_nat_def scalar_value_def numeral_2_eq_2)
qed

lemma char_step_3:
  assumes "unat b0 = 0xE0 + x" "x < 16" "unat b1 = 0x80 + y" "y < 64" "unat b2 = 0x80 + z" "z < 64"
  shows "char_step an (b0 # b1 # b2 # r) =
    (let v = (x * 64 + y) * 64 + z in if scalar_value v \<and> shortest_nat an 3 v then Some 3 else None)"
proof -
  have "unat (ucast (b0 AND 0x0F) :: u32) = x" using assms by (simp add: unat_and_masks lead_mods)
  then have v: "unat (foldl utf8_shift_in (ucast (b0 AND 0x0F)) [b1, b2]) = (x * 64 + y) * 64 + z"
    using assms by (simp add: shift_in_nat)
  have seq: "bson_utf8_get_sequence b0 = (Suc (length [b1, b2]), 0x0F)" "no_nul [b0, b1, b2]"
      "list_all cont_byte [b1, b2]"
    using assms by (auto simp: get_sequence_cases cont_byte_def nz_byte)
  then show ?thesis
    using char_step_Cons [OF seq(1) v, of an r] by (simp add: Let_def numeral_3_eq_3)
qed

lemma char_step_4:
  assumes "unat b0 = 0xF0 + x" "x < 8" "unat b1 = 0x80 + y" "y < 64" "unat b2 = 0x80 + z" "z < 64"
    "unat b3 = 0x80 + w" "w < 64"
  shows "char_step an (b0 # b1 # b2 # b3 # r) =
    (let v = ((x * 64 + y) * 64 + z) * 64 + w
     in if scalar_value v \<and> shortest_nat an 4 v then Some 4 else None)"
proof -
  have "unat (ucast (b0 AND 0x07) :: u32) = x" using assms by (simp add: unat_and_masks lead_mods)
  then have v: "unat (foldl utf8_shift_in (ucast (b0 AND 0x07)) [b1, b2, b3])
      = ((x * 64 + y) * 64 + z) * 64 + w"
    using assms by (simp add: shift_in_nat)
  have seq: "bson_utf8_get_sequence b0 = (Suc (length [b1, b2, b3]), 0x07)" "no_nul [b0, b1, b2, b3]"
      "list_all cont_byte [b1, b2, b3]"
    using assms by (auto simp: get_sequence_cases cont_byte_def nz_byte)
  have "Suc (Suc (Suc (Suc 0))) = 4" by simp
  with char_step_Cons [OF seq(1) v, of an r] seq show ?thesis
    by (simp only: Let_def length_Cons list.size append_Cons append_Nil simp_thms)
qed

lemma byte_eqI: "unat b = n \<Longrightarrow> (word_of_nat n :: u8) = b"
  by auto

lemma utf8_enc_1: "c < 0x80 \<Longrightarrow> utf8_enc c = [word_of_nat c]"
  by (simp add: utf8_enc_def)

lemma utf8_enc_2:
  "y < 64 \<Longrightarrow> c = x * 64 + y \<Longrightarrow> 0x80 \<le> c \<Longrightarrow> c < 0x800 \<Longrightarrow>
   utf8_enc c = map word_of_nat [0xC0 + x, 0x80 + y]"
  by (simp add: utf8_enc_def)

lemma div_mod_64: "c = q * 64 + r \<Longrightarrow> r < 64 \<Longrightarrow> c div 64 = q \<and> c mod 64 = r" for c :: nat
  by simp

lemma utf8_enc_3:
  "y < 64 \<Longrightarrow> z < 64 \<Longrightarrow> c = (x * 64 + y) * 64 + z \<Longrightarrow> 0x800 \<le> c \<Longrightarrow> c < 0x10000 \<Longrightarrow>
   utf8_enc c = map word_of_nat [0xE0 + x, 0x80 + y, 0x80 + z]"
proof -
  assume a: "y < 64" "z < 64" "c = (x * 64 + y) * 64 + z" "0x800 \<le> c" "c < 0x10000"
  then have "c div 64 = x * 64 + y" "c mod 64 = z" using div_mod_64 [OF a(3,2)] by blast+
  moreover from this a have "c div 64 div 64 = x" "c div 64 mod 64 = y" by simp_all
  then have "c div 4096 = x" "c div 64 mod 64 = y" by (simp_all add: div_mult2_eq [symmetric])
  ultimately show ?thesis using a by (simp add: utf8_enc_def)
qed

lemma utf8_enc_4:
  "y < 64 \<Longrightarrow> z < 64 \<Longrightarrow> w < 64 \<Longrightarrow> c = ((x * 64 + y) * 64 + z) * 64 + w \<Longrightarrow> 0x10000 \<le> c \<Longrightarrow>
   utf8_enc c = map word_of_nat [0xF0 + x, 0x80 + y, 0x80 + z, 0x80 + w]"
proof -
  assume a: "y < 64" "z < 64" "w < 64" "c = ((x * 64 + y) * 64 + z) * 64 + w" "0x10000 \<le> c"
  then have "c div 64 = (x * 64 + y) * 64 + z" "c mod 64 = w" using div_mod_64 [OF a(4,3)] by blast+
  moreover from this a have "c div 64 div 64 = x * 64 + y" "c div 64 mod 64 = z"
    using div_mod_64 [OF _ a(2)] by blast+
  ultimately have q: "c div 4096 = x * 64 + y" "c div 64 mod 64 = z" "c mod 64 = w"
    by (simp_all add: div_mult2_eq [symmetric])
  then have "c div 4096 div 64 = x" "c div 4096 mod 64 = y" using div_mod_64 [OF _ a(1)] by blast+
  then have "c div 262144 = x" "c div 4096 mod 64 = y" by (simp_all add: div_mult2_eq [symmetric])
  then show ?thesis using a q by (simp add: utf8_enc_def)
qed

lemmas utf8_encs = utf8_enc_1 utf8_enc_2 utf8_enc_3 utf8_enc_4

lemma char_step_bounds: "char_step an s = Some n \<Longrightarrow> 0 < n \<and> n \<le> length s"
  by (auto simp: char_step_def Let_def split: list.splits prod.splits if_splits)

lemma cont_byteE:
  assumes "cont_byte b"
  obtains y where "y < 64" "unat b = 0x80 + y"
proof
  show "unat b - 0x80 < 64" "unat b = 0x80 + (unat b - 0x80)" using assms by (auto simp: cont_byte_def)
qed

lemma char_step_sound:
  assumes step: "char_step an s = Some n"
  shows "utf8_unit an (take n s)"
proof -
  obtain b r where s: "s = b # r" using step by (cases s) (auto simp: char_step_def)
  let ?xs = "take (n - 1) r"
  have n: "0 < n" "n \<le> length s" using char_step_bounds [OF step] by auto
  have seq: "fst (bson_utf8_get_sequence b) = n" and cont: "list_all cont_byte ?xs"
    using step by (auto simp: char_step_def s Let_def split: prod.splits if_splits)
  have "length ?xs = n - 1" using n by (simp add: s)
  consider "n = 1" "unat b < 0x80" | "n = 2" "0xC0 \<le> unat b" "unat b < 0xE0"
    | "n = 3" "0xE0 \<le> unat b" "unat b < 0xF0" | "n = 4" "0xF0 \<le> unat b" "unat b < 0xF8"
    | "n = 5 \<or> n = 6"
    using seq n by (auto simp: get_sequence_cases split: if_splits)
  then show ?thesis
  proof cases
    case 1
    have "char_step an (word_of_nat (unat b) # r) = Some 1" using step 1 by (simp add: s)
    then have "unat b \<noteq> 0 \<or> an" using char_step_1 [of "unat b" an r] 1 by (auto split: if_splits)
    moreover have "take n s = utf8_enc (unat b)" using 1 by (simp add: s utf8_enc_1)
    moreover have "scalar_value (unat b)" using 1 by (simp add: scalar_value_def)
    ultimately show ?thesis unfolding utf8_unit_def by blast
  next
    case 2
    then obtain b1 r' where r: "r = b1 # r'" using n s by (cases r) auto
    have "cont_byte b1" using cont 2 by (simp add: r)
    then obtain y where y: "y < 64" "unat b1 = 0x80 + y" by (rule cont_byteE)
    define x where "x = unat b - 0xC0"
    have x: "unat b = 0xC0 + x" "x < 32" using 2 by (auto simp: x_def)
    have short: "shortest_nat an 2 (x * 64 + y)"
      using char_step_2 [OF x y(2) y(1), of an r'] step by (auto simp: s r 2 split: if_splits)
    have tk: "take n s = map word_of_nat [0xC0 + x, 0x80 + y]"
      using x y 2 by (simp add: s r flip: x(1) y(2))
    show ?thesis
    proof (cases "x * 64 + y = 0")
      case True
      then show ?thesis using short tk by (simp add: utf8_unit_def shortest_nat_def)
    next
      case False
      then have "0x80 \<le> x * 64 + y" "x * 64 + y < 0x800" using short by (auto simp: shortest_nat_def)
      moreover from this have "scalar_value (x * 64 + y)" by (simp add: scalar_value_def)
      ultimately show ?thesis
        unfolding utf8_unit_def tk using utf8_enc_2 [OF y(1) refl, of x] False by metis
    qed
  next
    case 3
    then obtain b1 b2 r' where r: "r = b1 # b2 # r'"
      using n s by (cases r; cases "tl r") auto
    have "cont_byte b1" "cont_byte b2" using cont 3 by (simp_all add: r numeral_2_eq_2)
    then obtain y z where yz: "y < 64" "unat b1 = 0x80 + y" "z < 64" "unat b2 = 0x80 + z"
      by (metis cont_byteE)
    define x where "x = unat b - 0xE0"
    have x: "unat b = 0xE0 + x" "x < 16" using 3 by (auto simp: x_def)
    let ?v = "(x * 64 + y) * 64 + z"
    have v: "scalar_value ?v" "shortest_nat an 3 ?v"
      using char_step_3 [OF x yz(2,1,4,3), of an r'] step by (auto simp: s r 3 Let_def split: if_splits)
    have "take n s = map word_of_nat [0xE0 + x, 0x80 + y, 0x80 + z]"
      using 3 by (simp add: s r flip: x(1) yz(2,4))
    moreover have "0x800 \<le> ?v" "?v < 0x10000" using v by (auto simp: shortest_nat_def)
    ultimately show ?thesis
      unfolding utf8_unit_def using v utf8_enc_3 [OF yz(1,3) refl, of x] by (metis not_numeral_le_zero)
  next
    case 4
    then obtain b1 b2 b3 r' where r: "r = b1 # b2 # b3 # r'"
      using n s by (cases r; cases "tl r"; cases "tl (tl r)") auto
    have "cont_byte b1" "cont_byte b2" "cont_byte b3" using cont 4 by (simp_all add: r numeral_3_eq_3)
    then obtain y z w where yzw: "y < 64" "unat b1 = 0x80 + y" "z < 64" "unat b2 = 0x80 + z"
        "w < 64" "unat b3 = 0x80 + w"
      by (metis cont_byteE)
    define x where "x = unat b - 0xF0"
    have x: "unat b = 0xF0 + x" "x < 8" using 4 by (auto simp: x_def)
    let ?v = "((x * 64 + y) * 64 + z) * 64 + w"
    have v: "scalar_value ?v" "shortest_nat an 4 ?v"
      using char_step_4 [OF x yzw(2,1,4,3,6,5), of an r'] step
      by (auto simp: s r 4 Let_def split: if_splits)
    have "take n s = map word_of_nat [0xF0 + x, 0x80 + y, 0x80 + z, 0x80 + w]"
      using 4 by (simp add: s r flip: x(1) yzw(2,4,6))
    moreover have "0x10000 \<le> ?v" using v by (auto simp: shortest_nat_def)
    ultimately show ?thesis
      unfolding utf8_unit_def using v utf8_enc_4 [OF yzw(1,3,5) refl, of x] by (metis not_numeral_le_zero)
  next
    case 5
    then show ?thesis using step seq
      by (auto simp: char_step_def s Let_def shortest_form_nat shortest_nat_def
          split: prod.splits if_splits)
  qed
qed

lemma char_step_complete:
  assumes "utf8_unit an t"
  shows "char_step an (t @ r) = Some (length t)"
proof (cases "an \<and> t = [0xC0, 0x80]")
  case True
  then show ?thesis using char_step_2 [of "0xC0" 0 "0x80" 0 an r] by (simp add: shortest_nat_def)
next
  case False
  then obtain c where c: "scalar_value c" "c \<noteq> 0 \<or> an" "t = utf8_enc c"
    using assms by (auto simp: utf8_unit_def)
  have lim: "c < 0x110000" using c(1) by (auto simp: scalar_value_def)
  consider "c < 0x80" | "0x80 \<le> c" "c < 0x800" | "0x800 \<le> c" "c < 0x10000" | "0x10000 \<le> c"
    by linarith
  then show ?thesis
  proof cases
    case 1
    then show ?thesis using c char_step_1 [of c an r] by (simp add: utf8_enc_1)
  next
    case 2
    define x y where "x = c div 64" and "y = c mod 64"
    have xy: "c = x * 64 + y" "y < 64" "x < 32" using 2 by (auto simp: x_def y_def)
    have b: "unat (word_of_nat (0xC0 + x) :: u8) = 0xC0 + x" "unat (word_of_nat (0x80 + y) :: u8) = 0x80 + y"
      using xy by (simp_all only: unat_of_nat_u8) simp_all
    then show ?thesis
      using utf8_enc_2 [OF xy(2,1) 2] char_step_2 [OF b(1) xy(3) b(2) xy(2), of an r] 2
      by (simp add: c(3) shortest_nat_def flip: xy(1))
  next
    case 3
    define x y z where "x = c div 64 div 64" and "y = c div 64 mod 64" and "z = c mod 64"
    have "c div 64 < 1024" using 3 by simp
    then have xyz: "c = (x * 64 + y) * 64 + z" "y < 64" "z < 64" "x < 16"
      by (auto simp: x_def y_def z_def)
    have b: "unat (word_of_nat (0xE0 + x) :: u8) = 0xE0 + x" "unat (word_of_nat (0x80 + y) :: u8) = 0x80 + y"
        "unat (word_of_nat (0x80 + z) :: u8) = 0x80 + z"
      using xyz by (simp_all only: unat_of_nat_u8) simp_all
    have "shortest_nat an 3 c" using 3 by (simp add: shortest_nat_def)
    then show ?thesis
      using utf8_enc_3 [OF xyz(2,3,1) 3]
        char_step_3 [OF b(1) xyz(4) b(2) xyz(2) b(3) xyz(3), of an r, folded xyz(1)] c(1)
      by (simp add: c(3) Let_def)
  next
    case 4
    define x y z w where "x = c div 64 div 64 div 64" and "y = c div 64 div 64 mod 64"
      and "z = c div 64 mod 64" and "w = c mod 64"
    have "c div 64 < 17408" using lim by simp
    then have "c div 64 div 64 < 272" by simp
    then have xyzw: "c = ((x * 64 + y) * 64 + z) * 64 + w" "y < 64" "z < 64" "w < 64" "x < 8"
      by (auto simp: x_def y_def z_def w_def)
    have b: "unat (word_of_nat (0xF0 + x) :: u8) = 0xF0 + x" "unat (word_of_nat (0x80 + y) :: u8) = 0x80 + y"
        "unat (word_of_nat (0x80 + z) :: u8) = 0x80 + z" "unat (word_of_nat (0x80 + w) :: u8) = 0x80 + w"
      using xyzw by (simp_all only: unat_of_nat_u8) simp_all
    have "shortest_nat an 4 c" using 4 lim by (simp add: shortest_nat_def)
    then show ?thesis
      using utf8_enc_4 [OF xyzw(2,3,4,1) 4]
        char_step_4 [OF b(1) xyzw(5) b(2) xyzw(2) b(3) xyzw(3) b(4) xyzw(4), of an r, folded xyzw(1)] c(1)
      by (simp add: c(3) Let_def)
  qed
qed

text \<open>Decoding is deterministic: the loop body cuts text exactly where a unit ends.\<close>

lemma utf8_text_step:
  assumes "s \<noteq> []"
  shows "utf8_text an s \<longleftrightarrow> (\<exists>n. char_step an s = Some n \<and> utf8_text an (drop n s))"
proof
  assume "utf8_text an s"
  then show "\<exists>n. char_step an s = Some n \<and> utf8_text an (drop n s)"
    using assms
  proof cases
    case (utf8_unit t r)
    then show ?thesis using char_step_complete [of an t r] by auto
  qed simp
next
  assume "\<exists>n. char_step an s = Some n \<and> utf8_text an (drop n s)"
  then obtain n where n: "char_step an s = Some n" "utf8_text an (drop n s)" by blast
  from char_step_sound [OF n(1)] n(2) have "utf8_text an (take n s @ drop n s)"
    by (rule utf8_text.utf8_unit)
  then show "utf8_text an s" by simp
qed

lemma utf8_validate_loop_eq:
  assumes "length pre + length s < 2 ^ 32"
  shows "utf8_validate_loop (pre @ s @ post) (length pre + length s) an (length pre) =
    Some (utf8_text an s)"
  using assms
proof (induction s arbitrary: pre rule: length_induct)
  case (1 s)
  show ?case
  proof (cases "s = []")
    case True
    then show ?thesis by (simp add: utf8_validate_loop.simps utf8_end)
  next
    case False
    have body: "utf8_validate_char (pre @ s @ post) (length pre + length s) an (length pre) =
        Some (char_step an s)"
      using validate_char_eq [of pre s post an] False "1.prems" by simp
    show ?thesis
    proof (cases "char_step an s")
      case None
      then show ?thesis
        using False body utf8_text_step [OF False, of an] by (simp add: utf8_validate_loop.simps)
    next
      case (Some n)
      have n: "0 < n" "n \<le> length s" using char_step_bounds [OF Some] by auto
      let ?pre = "pre @ take n s" and ?s = "drop n s"
      have len: "length ?pre = length pre + n" "length ?pre + length ?s = length pre + length s"
        using n by simp_all
      have buf: "?pre @ ?s @ post = pre @ s @ post" by simp
      have "length ?s < length s" using n by simp
      moreover have "length ?pre + length ?s < 2 ^ 32" using len "1.prems" by simp
      ultimately have "utf8_validate_loop (?pre @ ?s @ post) (length ?pre + length ?s) an (length ?pre) =
          Some (utf8_text an ?s)"
        using "1.IH" by blast
      then have rec: "utf8_validate_loop (pre @ s @ post) (length pre + length s) an (length pre + n) =
          Some (utf8_text an ?s)"
        unfolding buf len(2) unfolding len(1) .
      have "add32 (length pre) n = length pre + n" using n "1.prems" by simp
      with rec show ?thesis
        using False body Some utf8_text_step [OF False, of an]
        by (subst utf8_validate_loop.simps) (simp del: append_assoc)
    qed
  qed
qed


subsection \<open>The encoder\<close>

lemma unat_lead_or:
  assumes "mask k = m" "h AND m = 0" "unat h + 2 ^ k \<le> 256"
  shows "unat (ucast (h OR (x AND m)) :: u8) = unat h + unat (x :: u32) mod 2 ^ k"
proof -
  have "h AND (x AND m) = 0" using assms(2) by (metis and.left_commute and_zero_eq)
  then have or: "h OR (x AND m) = h + (x AND m)" by (simp add: disjunctive_add_eq_or)
  have m: "unat (x AND m) = unat x mod 2 ^ k" by (rule unat_and_mask [OF assms(1)])
  have "unat x mod 2 ^ k < 2 ^ k" by simp
  then have "unat h + unat (x AND m) < 256" using m assms(3) by linarith
  then have sum: "unat (h + (x AND m)) = unat h + unat x mod 2 ^ k" "unat h + unat x mod 2 ^ k < 256"
    using m by (simp_all add: unat_word_ariths)
  then show ?thesis by (simp only: or unsigned_ucast_eq) (simp add: take_bit_nat_def)
qed

lemma unat_drop_bit: "unat (drop_bit k (u :: u32)) = unat u div 2 ^ k"
proof -
  have "take_bit 32 (unat u) = unat u" using unat_u32_less [of u] by (simp add: take_bit_nat_eq_self)
  then show ?thesis by (simp only: unsigned_drop_bit_eq) (simp add: drop_bit_eq_div)
qed

lemma unat_ucast_small: "unat (u :: u32) < 256 \<Longrightarrow> unat (ucast u :: u8) = unat u"
  by (simp add: unsigned_ucast_eq take_bit_nat_def)

lemma recompose:
  "4096 * (x div 4096) + x div 64 mod 64 * 64 + x mod 64 = x" (is ?A)
  "262144 * (x div 262144) + 4096 * (x div 4096 mod 64) + x div 64 mod 64 * 64 + x mod 64 = x" (is ?B)
  "16777216 * (x div 16777216) + 262144 * (x div 262144 mod 64) + 4096 * (x div 4096 mod 64)
    + x div 64 mod 64 * 64 + x mod 64 = x" (is ?C) for x :: nat
proof -
  have d: "x div 4096 = x div 64 div 64" "x div 262144 = x div 64 div 64 div 64"
      "x div 16777216 = x div 64 div 64 div 64 div 64"
    by (simp_all add: div_mult2_eq [symmetric])
  note m = div_mult_mod_eq [of x 64] div_mult_mod_eq [of "x div 64" 64]
    div_mult_mod_eq [of "x div 64 div 64" 64] div_mult_mod_eq [of "x div 64 div 64 div 64" 64]
  show ?A ?B ?C unfolding d using m by linarith+
qed

lemma unat_cont: "unat (ucast (0x80 OR (x AND 0x3F)) :: u8) = 0x80 + unat (x :: u32) mod 64"
  using unat_lead_or [of 6 "0x3F" "0x80" x] by (simp add: mask_eq_exp_minus_1)

lemma unat_leads:
  "unat (ucast (0xC0 OR (x AND 0x3F)) :: u8) = 0xC0 + unat (x :: u32) mod 64"
  "unat (ucast (0xE0 OR (x AND 0xF)) :: u8) = 0xE0 + unat x mod 16"
  "unat (ucast (0xF0 OR (x AND 0x7)) :: u8) = 0xF0 + unat x mod 8"
  "unat (ucast (0xF8 OR (x AND 0x3)) :: u8) = 0xF8 + unat x mod 4"
  using unat_lead_or [of 6 "0x3F" "0xC0" x] unat_lead_or [of 4 "0xF" "0xE0" x]
    unat_lead_or [of 3 "0x7" "0xF0" x] unat_lead_or [of 2 "0x3" "0xF8" x]
  by (simp_all add: mask_eq_exp_minus_1)

lemma byte_list_eqI: "map unat (xs :: bytes) = map unat ys \<Longrightarrow> xs = ys"
  by (metis map_injective inj_def unsigned_word_eqI)

lemma map_unat_utf8_enc:
  "map unat (utf8_enc c) = map (\<lambda>n. n mod 256)
     (if c < 0x80 then [c]
      else if c < 0x800 then [0xC0 + c div 0x40, 0x80 + c mod 0x40]
      else if c < 0x10000 then
        [0xE0 + c div 0x1000, 0x80 + c div 0x40 mod 0x40, 0x80 + c mod 0x40]
      else
        [0xF0 + c div 0x40000, 0x80 + c div 0x1000 mod 0x40,
         0x80 + c div 0x40 mod 0x40, 0x80 + c mod 0x40])"
  by (simp only: utf8_enc_def map_map o_def unat_of_nat_u8)

lemma from_unichar_eq_enc:
  assumes "unat u < 0x110000"
  shows "bson_utf8_from_unichar u = utf8_enc (unat u)"
proof (rule byte_list_eqI)
  have "unat u < 0x800 \<Longrightarrow> unat u div 64 < 32" "unat u < 0x10000 \<Longrightarrow> unat u div 4096 < 16"
      "unat u div 262144 < 8" using assms by simp_all
  then show "map unat (bson_utf8_from_unichar u) = map unat (utf8_enc (unat u))"
    unfolding map_unat_utf8_enc using assms
    by (auto simp: bson_utf8_from_unichar_def unat_le_numeral unat_cont unat_leads
        unat_drop_bit unat_ucast_small)
qed

lemma get_char_Cons:
  assumes "bson_utf8_get_sequence b = (Suc (length xs), m)"
  shows "bson_utf8_get_char (pre @ b # xs @ post) (length pre) = Some (foldl utf8_shift_in (ucast (b AND m)) xs)"
    and "bson_utf8_next_char (pre @ b # xs @ post) (length pre) = Some (length pre + Suc (length xs))"
  using assms get_char_loop_eq [of "pre @ [b]" xs post]
  by (simp_all add: bson_utf8_get_char_def bson_utf8_next_char_def rd8_def nth_append)

lemma from_unichar_decodes:
  assumes "unat u \<le> 0x3FFFFFF"
  obtains b xs m where "bson_utf8_from_unichar u = b # xs"
    "bson_utf8_get_sequence b = (Suc (length xs), m)"
    "foldl utf8_shift_in (ucast (b AND m)) xs = u"
proof -
  let ?k = "\<lambda>j. drop_bit j u AND 0x3F"
  consider "unat u < 0x80" | "0x80 \<le> unat u" "unat u < 0x800" | "0x800 \<le> unat u" "unat u < 0x10000"
    | "0x10000 \<le> unat u" "unat u < 0x200000" | "0x200000 \<le> unat u"
    by linarith
  then show ?thesis
  proof cases
    case 1
    then show ?thesis
      by (intro that [of "ucast u" "[]" "0x7F"])
        (simp_all add: bson_utf8_from_unichar_def unat_le_numeral get_sequence_cases word_unat_eq_iff
          unat_and_masks unat_ucast_small)
  next
    case 2
    then have "unat u div 64 < 32" by simp
    with 2 show ?thesis
      by (intro that [of "ucast (0xC0 OR ?k 6)" "[ucast (0x80 OR (u AND 0x3F))]" "0x1F"])
        (simp_all add: bson_utf8_from_unichar_def unat_le_numeral get_sequence_cases word_unat_eq_iff
          unat_and_masks unat_leads unat_cont unat_drop_bit unat_shift_in lead_mods)
  next
    case 3
    then have "unat u div 4096 < 16" "unat u div 64 div 64 = unat u div 4096" by (simp_all add: div_mult2_eq)
    with 3 show ?thesis
      by (intro that [of "ucast (0xE0 OR (drop_bit 12 u AND 0xF))"
            "[ucast (0x80 OR ?k 6), ucast (0x80 OR (u AND 0x3F))]" "0x0F"])
        (simp_all add: bson_utf8_from_unichar_def unat_le_numeral get_sequence_cases word_unat_eq_iff
          unat_and_masks unat_leads unat_cont unat_drop_bit unat_shift_in lead_mods recompose)
  next
    case 4
    then have "unat u div 262144 < 8" by simp
    with 4 show ?thesis
      by (intro that [of "ucast (0xF0 OR (drop_bit 18 u AND 0x7))"
            "[ucast (0x80 OR ?k 12), ucast (0x80 OR ?k 6), ucast (0x80 OR (u AND 0x3F))]" "0x07"])
        (simp_all add: bson_utf8_from_unichar_def unat_le_numeral get_sequence_cases word_unat_eq_iff
          unat_and_masks unat_leads unat_cont unat_drop_bit unat_shift_in lead_mods recompose)
  next
    case 5
    then have "unat u div 16777216 < 4" using assms by simp
    with 5 assms show ?thesis
      by (intro that [of "ucast (0xF8 OR (drop_bit 24 u AND 0x3))"
            "[ucast (0x80 OR ?k 18), ucast (0x80 OR ?k 12), ucast (0x80 OR ?k 6), ucast (0x80 OR (u AND 0x3F))]" "0x03"])
        (simp_all add: bson_utf8_from_unichar_def unat_le_numeral get_sequence_cases word_unat_eq_iff
          unat_and_masks unat_leads unat_cont unat_drop_bit unat_shift_in lead_mods recompose)
  qed
qed

subsection \<open>Properties\<close>

text \<open>
  C15. On a buffer that holds \<open>utf8_len\<close> bytes (fewer than \<open>2 ^ 32\<close>, so that the 32-bit index does
  not wrap) \<^verbatim>\<open>bson_utf8_validate\<close> returns, reads nothing outside the buffer, and answers whether
  the bytes are UTF-8 text in the sense of the Unicode standard.
\<close>

theorem utf8_validate_correct:
  assumes "utf8_len \<le> length buf" "utf8_len < 2 ^ 32"
  shows "bson_utf8_validate buf utf8_len allow_null = Some (utf8_text allow_null (take utf8_len buf))"
proof -
  have "length ([] :: bytes) + length (take utf8_len buf) < 2 ^ 32" using assms by simp
  from utf8_validate_loop_eq [OF this, of "drop utf8_len buf" allow_null] show ?thesis
    using assms by (simp add: bson_utf8_validate_def)
qed

lemma utf8_validate_correct_witness:
  "bson_utf8_validate [0x61, 0xC3, 0xA9, 0] 3 False = Some (utf8_text False [0x61, 0xC3, 0xA9])"
  using utf8_validate_correct [of 3 "[0x61, 0xC3, 0xA9, 0]" False] by simp

text \<open>
  C26. Wherever it stands in a buffer, the encoding of a code point up to \<open>0x3FFFFFF\<close> (one to five
  bytes) is decoded to that code point, and the step to the next character skips exactly its
  bytes; for the code points of Unicode the encoding is that of the standard.
\<close>

theorem utf8_encode_decode:
  assumes "unat u \<le> 0x3FFFFFF"
  shows "bson_utf8_get_char (pre @ bson_utf8_from_unichar u @ post) (length pre) = Some u \<and>
    bson_utf8_next_char (pre @ bson_utf8_from_unichar u @ post) (length pre) =
      Some (length pre + length (bson_utf8_from_unichar u)) \<and>
    (unat u < 0x110000 \<longrightarrow> bson_utf8_from_unichar u = utf8_enc (unat u))"
proof -
  obtain b xs m where d: "bson_utf8_from_unichar u = b # xs"
      "bson_utf8_get_sequence b = (Suc (length xs), m)" "foldl utf8_shift_in (ucast (b AND m)) xs = u"
    using from_unichar_decodes [OF assms] .
  show ?thesis
    using get_char_Cons [OF d(2), of pre post] from_unichar_eq_enc [of u] by (simp add: d(1,3))
qed

lemma utf8_encode_decode_witness:
  "bson_utf8_get_char ([0x61] @ bson_utf8_from_unichar 0x20AC @ [0]) (length [0x61 :: u8]) = Some 0x20AC"
  by (rule utf8_encode_decode [THEN conjunct1]) simp

text \<open>
  The six-byte branch of the encoder (shifts by 31, 25, 19, 13 and 7, and one bit in the last byte)
  loses information: two code points of its range have the same encoding, so no decoder can
  read both back.
\<close>

theorem utf8_six_bytes_lossy:
  "bson_utf8_from_unichar 0x7FFFFFC1 = bson_utf8_from_unichar 0x7FFFFFC3 \<and>
   bson_utf8_get_char (bson_utf8_from_unichar 0x4000000) 0 \<noteq> Some 0x4000000"
proof
  show "bson_utf8_from_unichar 0x7FFFFFC1 = bson_utf8_from_unichar 0x7FFFFFC3"
    by (simp add: bson_utf8_from_unichar_def)
  show "bson_utf8_get_char (bson_utf8_from_unichar 0x4000000) 0 \<noteq> Some 0x4000000"
    by code_simp
qed

end
