(* ===== verification/Oid.thy ===== *)
theory Oid
  imports Bson_Prelude
begin

text \<open>
  \<^verbatim>\<open>src/bson/bson-oid.c\<close> and the inline functions of \<^verbatim>\<open>src/bson/bson-oid.h\<close>: a \<^verbatim>\<open>bson_oid_t\<close> is its
  twelve bytes. The hexadecimal printer goes through the table of character pairs of the source
  (the little-endian one), the parser through \<^verbatim>\<open>bson_oid_parse_hex_char\<close>.
\<close>

unbundle bit_operations_syntax

type_synonym bson_oid_t = bytes

subsection \<open>The code\<close>

definition gHexCharPairs :: "nat list" where
  "gHexCharPairs = [
   12336, 12592, 12848, 13104, 13360, 13616, 13872, 14128, 14384, 14640, 24880, 25136, 25392,
   25648, 25904, 26160, 12337, 12593, 12849, 13105, 13361, 13617, 13873, 14129, 14385, 14641,
   24881, 25137, 25393, 25649, 25905, 26161, 12338, 12594, 12850, 13106, 13362, 13618, 13874,
   14130, 14386, 14642, 24882, 25138, 25394, 25650, 25906, 26162, 12339, 12595, 12851, 13107,
   13363, 13619, 13875, 14131, 14387, 14643, 24883, 25139, 25395, 25651, 25907, 26163, 12340,
   12596, 12852, 13108, 13364, 13620, 13876, 14132, 14388, 14644, 24884, 25140, 25396, 25652,
   25908, 26164, 12341, 12597, 12853, 13109, 13365, 13621, 13877, 14133, 14389, 14645, 24885,
   25141, 25397, 25653, 25909, 26165, 12342, 12598, 12854, 13110, 13366, 13622, 13878, 14134,
   14390, 14646, 24886, 25142, 25398, 25654, 25910, 26166, 12343, 12599, 12855, 13111, 13367,
   13623, 13879, 14135, 14391, 14647, 24887, 25143, 25399, 25655, 25911, 26167, 12344, 12600,
   12856, 13112, 13368, 13624, 13880, 14136, 14392, 14648, 24888, 25144, 25400, 25656, 25912,
   26168, 12345, 12601, 12857, 13113, 13369, 13625, 13881, 14137, 14393, 14649, 24889, 25145,
   25401, 25657, 25913, 26169, 12385, 12641, 12897, 13153, 13409, 13665, 13921, 14177, 14433,
   14689, 24929, 25185, 25441, 25697, 25953, 26209, 12386, 12642, 12898, 13154, 13410, 13666,
   13922, 14178, 14434, 14690, 24930, 25186, 25442, 25698, 25954, 26210, 12387, 12643, 12899,
   13155, 13411, 13667, 13923, 14179, 14435, 14691, 24931, 25187, 25443, 25699, 25955, 26211,
   12388, 12644, 12900, 13156, 13412, 13668, 13924, 14180, 14436, 14692, 24932, 25188, 25444,
   25700, 25956, 26212, 12389, 12645, 12901, 13157, 13413, 13669, 13925, 14181, 14437, 14693,
   24933, 25189, 25445, 25701, 25957, 26213, 12390, 12646, 12902, 13158, 13414, 13670, 13926,
   14182, 14438, 14694, 24934, 25190, 25446, 25702, 25958, 26214]"

text \<open>Storing the \<^verbatim>\<open>uint16_t\<close> table entry writes its low byte first.\<close>

definition bson_oid_to_string :: "bson_oid_t \<Rightarrow> bytes" where
  "bson_oid_to_string oid =
     concat (map (\<lambda>b. le_bytes 2 (gHexCharPairs ! unat b)) oid) @ [0]"

definition bson_oid_parse_hex_char :: "u8 \<Rightarrow> u8" where
  "bson_oid_parse_hex_char hex =
     (if hex = 0x30 then 0 else if hex = 0x31 then 1 else if hex = 0x32 then 2
      else if hex = 0x33 then 3 else if hex = 0x34 then 4 else if hex = 0x35 then 5
      else if hex = 0x36 then 6 else if hex = 0x37 then 7 else if hex = 0x38 then 8
      else if hex = 0x39 then 9
      else if hex = 0x61 \<or> hex = 0x41 then 0xa
      else if hex = 0x62 \<or> hex = 0x42 then 0xb
      else if hex = 0x63 \<or> hex = 0x43 then 0xc
      else if hex = 0x64 \<or> hex = 0x44 then 0xd
      else if hex = 0x65 \<or> hex = 0x45 then 0xe
      else if hex = 0x66 \<or> hex = 0x46 then 0xf
      else 0)"

fun oid_parse_loop :: "bytes \<Rightarrow> nat \<Rightarrow> nat \<Rightarrow> bytes option" where
  "oid_parse_loop str i 0 = Some []"
| "oid_parse_loop str i (Suc n) = do {
     hi \<leftarrow> rd8 str (2 * i);
     lo \<leftarrow> rd8 str (2 * i + 1);
     rest \<leftarrow> oid_parse_loop str (i + 1) n;
     Some ((push_bit 4 (bson_oid_parse_hex_char hi) OR bson_oid_parse_hex_char lo) # rest) }"

definition bson_oid_init_from_string :: "bytes \<Rightarrow> bson_oid_t option" where
  "bson_oid_init_from_string str = oid_parse_loop str 0 12"

definition bson_oid_init_from_data :: "bytes \<Rightarrow> bson_oid_t option" where
  "bson_oid_init_from_data data = mem_read data 0 12"

definition is_hex_char :: "u8 \<Rightarrow> bool" where
  "is_hex_char c \<longleftrightarrow> c \<in> set (str_of ''0123456789abcdefABCDEF'')"

fun oid_valid_loop :: "bytes \<Rightarrow> nat \<Rightarrow> nat \<Rightarrow> bool option" where
  "oid_valid_loop str i 0 = Some True"
| "oid_valid_loop str i (Suc n) = do {
     c \<leftarrow> rd8 str i;
     (if is_hex_char c then oid_valid_loop str (Suc i) n else Some False) }"

definition bson_oid_is_valid :: "bytes \<Rightarrow> nat \<Rightarrow> bool option" where
  "bson_oid_is_valid str len = do {
     len' \<leftarrow> (if len = 25 then do { c \<leftarrow> rd8 str 24; Some (if c = 0 then 24 else len) }
             else Some len);
     (if len' = 24 then oid_valid_loop str 0 len' else Some False) }"

text \<open>\<^verbatim>\<open>memcmp\<close> of the C library: the sign of the first difference, bytes compared unsigned.\<close>

fun memcmp :: "bytes \<Rightarrow> bytes \<Rightarrow> int" where
  "memcmp (a # as) (b # bs) = (if a = b then memcmp as bs else if a < b then -1 else 1)"
| "memcmp _ _ = 0"

definition bson_oid_compare :: "bson_oid_t \<Rightarrow> bson_oid_t \<Rightarrow> int" where
  "bson_oid_compare oid1 oid2 = memcmp oid1 oid2"

definition bson_oid_equal :: "bson_oid_t \<Rightarrow> bson_oid_t \<Rightarrow> bool" where
  "bson_oid_equal oid1 oid2 \<longleftrightarrow> memcmp oid1 oid2 = 0"

definition bson_oid_hash :: "bson_oid_t \<Rightarrow> u32" where
  "bson_oid_hash oid = foldl (\<lambda>hash b. (push_bit 5 hash + hash) + ucast b) 5381 oid"

definition bson_oid_copy :: "bson_oid_t \<Rightarrow> bson_oid_t" where
  "bson_oid_copy src = src"

text \<open>\<^verbatim>\<open>BSON_UINT32_FROM_BE\<close> of the first four bytes.\<close>

definition bson_oid_get_time_t :: "bson_oid_t \<Rightarrow> nat" where
  "bson_oid_get_time_t oid = le_nat (rev (take 4 oid))"

definition hex_digit :: "nat \<Rightarrow> nat" where
  "hex_digit n = (if n < 10 then 0x30 + n else 0x57 + n)"

lemma hex_table: "gHexCharPairs = map (\<lambda>n. hex_digit (n div 16) + 256 * hex_digit (n mod 16)) [0..<256]"
proof -
  have "[0..<256] = 0 # [Suc 0..<256]" by (rule upt_conv_Cons) simp
  also have "[Suc 0..<256] = Suc 0 # [Suc (Suc 0)..<256]" by (rule upt_conv_Cons) simp
  finally have "[0..<256] = 0 # 1 # [2..<256]" unfolding One_nat_def numeral_2_eq_2 .
  then show ?thesis unfolding gHexCharPairs_def hex_digit_def by (simp only: list.map) (simp add: upt_rec_numeral)
qed

lemma hex_set: "set (str_of ''0123456789abcdefABCDEF'') =
  {0x30,0x31,0x32,0x33,0x34,0x35,0x36,0x37,0x38,0x39,0x61,0x62,0x63,0x64,0x65,0x66,0x41,0x42,0x43,0x44,0x45,0x46}"
  by (simp add: str_of_def of_char_def)

lemma parse_hex_digit: "n < 16 \<Longrightarrow> bson_oid_parse_hex_char (word_of_nat (hex_digit n)) = word_of_nat n"
  by (rule all_less_upt [of _ 16 n]) (simp_all add: upt_conv_Cons hex_digit_def bson_oid_parse_hex_char_def)

lemma is_hex_digit: "n < 16 \<Longrightarrow> is_hex_char (word_of_nat (hex_digit n))"
  by (rule all_less_upt [of _ 16 n]) (simp_all add: upt_conv_Cons hex_digit_def is_hex_char_def hex_set)

lemma push_or: "unat (h :: u8) < 16 \<Longrightarrow> unat l < 16 \<Longrightarrow> unat (push_bit 4 h OR l) = unat h * 16 + unat l"
proof -
  assume a: "unat h < 16" "unat l < 16"
  have "take_bit 4 l = l"
    using a(2) by (simp add: word_unat_eq_iff unsigned_take_bit_eq take_bit_nat_def)
  moreover have "push_bit 4 h AND take_bit 4 l = 0" by (rule bit_eqI) (auto simp: bit_simps)
  ultimately have "push_bit 4 h OR l = push_bit 4 h + l" by (simp add: disjunctive_add_eq_or)
  moreover have "unat (push_bit 4 h) = unat h * 16"
    using a by (simp only: unsigned_push_bit_eq) (simp add: push_bit_eq_mult take_bit_nat_def)
  ultimately show ?thesis using a by (simp add: unat_word_ariths)
qed

lemma le_bytes_2: "a < 256 \<Longrightarrow> b < 256 \<Longrightarrow> le_bytes 2 (a + 256 * b) = [word_of_nat a, word_of_nat b]"
proof -
  assume a: "a < 256" "b < 256"
  then have "(word_of_nat (a + 256 * b) :: u8) = word_of_nat a"
    by (simp only: word_unat_eq_iff unat_of_nat_u8) simp
  with a show ?thesis by (simp add: numeral_2_eq_2 del: of_nat_add of_nat_mult)
qed

lemma hex_pair:
  "le_bytes 2 (gHexCharPairs ! unat (b :: u8)) =
     [word_of_nat (hex_digit (unat b div 16)), word_of_nat (hex_digit (unat b mod 16))]"
proof -
  have "unat b div 16 < 16" using unat_u8_less [of b] by (simp add: div_less_iff_less_mult)
  moreover have "unat b mod 16 < 16" by simp
  ultimately have "hex_digit (unat b div 16) < 256" "hex_digit (unat b mod 16) < 256"
    unfolding hex_digit_def by auto
  then show ?thesis using unat_u8_less [of b] by (simp add: hex_table le_bytes_2)
qed

lemma hex_pair_parse:
  "push_bit 4 (bson_oid_parse_hex_char (word_of_nat (hex_digit (unat (b :: u8) div 16)))) OR
     bson_oid_parse_hex_char (word_of_nat (hex_digit (unat b mod 16))) = b"
proof -
  have "unat b div 16 < 16" using unat_u8_less [of b] by (simp add: div_less_iff_less_mult)
  then show ?thesis
    by (simp add: word_unat_eq_iff parse_hex_digit push_or unat_of_nat_u8)
qed

lemma hex_chars: "is_hex_char (word_of_nat (hex_digit (unat (b :: u8) div 16)))"
  "is_hex_char (word_of_nat (hex_digit (unat b mod 16)))"
  by (rule is_hex_digit, simp add: div_less_iff_less_mult)+

lemma oid_parse_loop_printed:
  "length pre = 2 * i \<Longrightarrow>
   oid_parse_loop (pre @ concat (map (\<lambda>b. le_bytes 2 (gHexCharPairs ! unat b)) oid) @ post) i (length oid)
     = Some oid"
proof (induction oid arbitrary: pre i)
  case Nil
  then show ?case by simp
next
  case (Cons b oid)
  have len: "length (pre @ le_bytes 2 (gHexCharPairs ! unat b)) = 2 * (i + 1)" using Cons.prems by simp
  from Cons.IH [OF len] show ?case
    using Cons.prems by (simp add: hex_pair hex_pair_parse rd8_def nth_append)
qed

lemma oid_valid_loop_printed:
  "oid_valid_loop (pre @ concat (map (\<lambda>b. le_bytes 2 (gHexCharPairs ! unat b)) (oid :: bytes)) @ post)
     (length pre) (2 * length oid) = Some True"
proof (induction oid arbitrary: pre)
  case Nil
  then show ?case by simp
next
  case (Cons b oid)
  have n: "2 * length (b # oid) = Suc (Suc (2 * length oid))" by simp
  from Cons.IH [of "pre @ le_bytes 2 (gHexCharPairs ! unat b)"] show ?case
    unfolding n by (simp add: hex_pair hex_chars rd8_def nth_append)
qed

lemma length_oid_printed:
  "length (concat (map (\<lambda>b. le_bytes 2 (gHexCharPairs ! unat b)) (oid :: bytes))) = 2 * length oid"
  by (induction oid) simp_all

text \<open>
  C34. Printing an object id and parsing the text gives the id back; the text has 24 characters before
  its NUL and is accepted by \<^verbatim>\<open>bson_oid_is_valid\<close>, with either of the lengths callers pass.
\<close>

theorem oid_print_parse:
  assumes "length oid = 12"
  shows "bson_oid_init_from_string (bson_oid_to_string oid) = Some oid \<and>
    length (bson_oid_to_string oid) = 25 \<and>
    bson_oid_is_valid (bson_oid_to_string oid) 24 = Some True \<and>
    bson_oid_is_valid (bson_oid_to_string oid) 25 = Some True"
proof -
  have len: "length (bson_oid_to_string oid) = 25" "rd8 (bson_oid_to_string oid) 24 = Some 0"
    using assms by (simp_all add: bson_oid_to_string_def length_oid_printed rd8_def nth_append)
  have "bson_oid_init_from_string (bson_oid_to_string oid) = Some oid"
    using oid_parse_loop_printed [of "[]" 0 oid "[0]"] assms
    by (simp add: bson_oid_init_from_string_def bson_oid_to_string_def)
  moreover have "oid_valid_loop (bson_oid_to_string oid) 0 24 = Some True"
    using oid_valid_loop_printed [of "[]" oid "[0]"] assms by (simp add: bson_oid_to_string_def)
  ultimately show ?thesis using len by (simp add: bson_oid_is_valid_def)
qed

lemma oid_print_parse_witness:
  "bson_oid_init_from_string (bson_oid_to_string (replicate 12 0xAB)) = Some (replicate 12 0xAB)"
  by (rule oid_print_parse [THEN conjunct1]) simp

lemma memcmp_be:
  "length a = length b \<Longrightarrow>
   memcmp a b = (if le_nat (rev a) < le_nat (rev b) then -1 else if a = b then 0 else 1)"
proof (induction a b rule: list_induct2)
  case Nil
  then show ?case by simp
next
  case (Cons x xs y ys)
  have app: "le_nat (us @ [v]) = le_nat us + 256 ^ length us * unat v" for us v
    by (induction us) (simp_all add: algebra_simps)
  show ?case
  proof (cases "x = y")
    case True
    then show ?thesis using Cons by (simp add: app)
  next
    case False
    have lt: "le_nat (rev us) + 256 ^ length us * unat u < le_nat (rev vs) + 256 ^ length us * unat v"
      if "u < v" "length us = length vs" for us vs :: bytes and u v :: u8
    proof -
      have "le_nat (rev us) < 256 ^ length us" using le_nat_less [of "rev us"] by simp
      moreover from that(1) have "unat u + 1 \<le> unat v" by (simp add: word_less_nat_alt)
      then have "256 ^ length us * (unat u + 1) \<le> 256 ^ length us * unat v" by (rule mult_le_mono2)
      ultimately show ?thesis by (simp add: algebra_simps)
    qed
    show ?thesis
    proof (cases "x < y")
      case True
      then show ?thesis using False Cons.hyps lt [of x y xs ys] by (simp add: app)
    next
      case F: False
      with False have "y < x" by simp
      then show ?thesis using False F Cons.hyps lt [of y x ys xs] by (simp add: app)
    qed
  qed
qed

text \<open>
  \<^verbatim>\<open>bson_oid_compare\<close> orders ids as big-endian numbers, is zero exactly on equal ids, and agrees with
  the creation time in the first four bytes: an id that compares less was not created later.
\<close>

theorem oid_compare_order:
  assumes "length a = 12" "length b = 12"
  shows "(bson_oid_compare a b < 0 \<longleftrightarrow> le_nat (rev a) < le_nat (rev b)) \<and>
    (bson_oid_equal a b \<longleftrightarrow> a = b) \<and>
    bson_oid_compare b a = - bson_oid_compare a b \<and>
    (bson_oid_compare a b < 0 \<longrightarrow> bson_oid_get_time_t a \<le> bson_oid_get_time_t b)"
proof -
  have inj: "le_nat (rev a) = le_nat (rev b) \<longleftrightarrow> a = b"
    by (metis assms le_bytes_le_nat length_rev rev_rev_ident)
  have cmp: "memcmp a b = (if le_nat (rev a) < le_nat (rev b) then -1 else if a = b then 0 else 1)"
      "memcmp b a = (if le_nat (rev b) < le_nat (rev a) then -1 else if b = a then 0 else 1)"
    using memcmp_be assms by simp_all
  have split: "le_nat (us @ vs) = le_nat us + 256 ^ length us * le_nat vs" for us vs
    by (induction us) (simp_all add: algebra_simps)
  have parts: "le_nat (rev s) = le_nat (rev (drop 4 s)) + 256 ^ 8 * bson_oid_get_time_t s"
    if "length s = 12" for s
    using split [of "rev (drop 4 s)" "rev (take 4 s)"] that
    by (simp add: bson_oid_get_time_t_def flip: rev_append)
  have low: "le_nat (rev (drop 4 a)) < 256 ^ 8" "le_nat (rev (drop 4 b)) < 256 ^ 8"
    using le_nat_less [of "rev (drop 4 a)"] le_nat_less [of "rev (drop 4 b)"] assms by simp_all
  have "le_nat (rev a) < le_nat (rev b) \<Longrightarrow> bson_oid_get_time_t a \<le> bson_oid_get_time_t b"
    using parts [OF assms(1)] parts [OF assms(2)] low by simp
  then show ?thesis using cmp inj by (auto simp: bson_oid_compare_def bson_oid_equal_def)
qed

lemma oid_compare_order_witness:
  "bson_oid_compare (replicate 12 1) (replicate 12 2) < 0 \<longleftrightarrow>
   le_nat (rev (replicate 12 1)) < le_nat (rev (replicate 12 2))"
  by (rule oid_compare_order [THEN conjunct1]) simp_all

end
