(* ===== verification/Bson_Types.thy ===== *)
theory Bson_Types
  imports Bson_Prelude
begin

text \<open>
  \<^verbatim>\<open>src/bson/bson-types.h\<close> and \<^verbatim>\<open>src/bson/bson-private.h\<close>: type codes, limits and the two
  power-of-two functions that size every growing buffer of the library, on a 64-bit
  \<^verbatim>\<open>size_t\<close>.
\<close>

unbundle bit_operations_syntax

subsection \<open>Type codes, subtypes and flags\<close>

text \<open>The enumerations of bson-types.h and bson-private.h, by their C names; flags are sets of bits.\<close>

abbreviation (input) BSON_TYPE_EOD :: u8 where "BSON_TYPE_EOD \<equiv> 0x00"
abbreviation (input) BSON_TYPE_DOUBLE :: u8 where "BSON_TYPE_DOUBLE \<equiv> 0x01"
abbreviation (input) BSON_TYPE_UTF8 :: u8 where "BSON_TYPE_UTF8 \<equiv> 0x02"
abbreviation (input) BSON_TYPE_DOCUMENT :: u8 where "BSON_TYPE_DOCUMENT \<equiv> 0x03"
abbreviation (input) BSON_TYPE_ARRAY :: u8 where "BSON_TYPE_ARRAY \<equiv> 0x04"
abbreviation (input) BSON_TYPE_BINARY :: u8 where "BSON_TYPE_BINARY \<equiv> 0x05"
abbreviation (input) BSON_TYPE_UNDEFINED :: u8 where "BSON_TYPE_UNDEFINED \<equiv> 0x06"
abbreviation (input) BSON_TYPE_OID :: u8 where "BSON_TYPE_OID \<equiv> 0x07"
abbreviation (input) BSON_TYPE_BOOL :: u8 where "BSON_TYPE_BOOL \<equiv> 0x08"
abbreviation (input) BSON_TYPE_DATE_TIME :: u8 where "BSON_TYPE_DATE_TIME \<equiv> 0x09"
abbreviation (input) BSON_TYPE_NULL :: u8 where "BSON_TYPE_NULL \<equiv> 0x0A"
abbreviation (input) BSON_TYPE_REGEX :: u8 where "BSON_TYPE_REGEX \<equiv> 0x0B"
abbreviation (input) BSON_TYPE_DBPOINTER :: u8 where "BSON_TYPE_DBPOINTER \<equiv> 0x0C"
abbreviation (input) BSON_TYPE_CODE :: u8 where "BSON_TYPE_CODE \<equiv> 0x0D"
abbreviation (input) BSON_TYPE_SYMBOL :: u8 where "BSON_TYPE_SYMBOL \<equiv> 0x0E"
abbreviation (input) BSON_TYPE_CODEWSCOPE :: u8 where "BSON_TYPE_CODEWSCOPE \<equiv> 0x0F"
abbreviation (input) BSON_TYPE_INT32 :: u8 where "BSON_TYPE_INT32 \<equiv> 0x10"
abbreviation (input) BSON_TYPE_TIMESTAMP :: u8 where "BSON_TYPE_TIMESTAMP \<equiv> 0x11"
abbreviation (input) BSON_TYPE_INT64 :: u8 where "BSON_TYPE_INT64 \<equiv> 0x12"
abbreviation (input) BSON_TYPE_DECIMAL128 :: u8 where "BSON_TYPE_DECIMAL128 \<equiv> 0x13"
abbreviation (input) BSON_TYPE_MAXKEY :: u8 where "BSON_TYPE_MAXKEY \<equiv> 0x7F"
abbreviation (input) BSON_TYPE_MINKEY :: u8 where "BSON_TYPE_MINKEY \<equiv> 0xFF"
abbreviation (input) BSON_SUBTYPE_BINARY :: u8 where "BSON_SUBTYPE_BINARY \<equiv> 0x00"
abbreviation (input) BSON_SUBTYPE_BINARY_DEPRECATED :: u8 where "BSON_SUBTYPE_BINARY_DEPRECATED \<equiv> 0x02"

abbreviation (input) INT_MAX :: nat where "INT_MAX \<equiv> 0x7FFFFFFF"
abbreviation (input) BSON_MAX_SIZE :: nat where "BSON_MAX_SIZE \<equiv> 0x7FFFFFFF"
abbreviation (input) BSON_INLINE_DATA_SIZE :: nat where "BSON_INLINE_DATA_SIZE \<equiv> 120"

subsection \<open>Powers of two\<close>

definition bson_next_power_of_two :: "u64 \<Rightarrow> u64" where
  "bson_next_power_of_two v0 =
     (let v = v0 - 1;
          v = v OR drop_bit 1 v;
          v = v OR drop_bit 2 v;
          v = v OR drop_bit 4 v;
          v = v OR drop_bit 8 v;
          v = v OR drop_bit 16 v;
          v = v OR drop_bit 32 v
      in v + 1)"

definition bson_is_power_of_two :: "u32 \<Rightarrow> bool" where
  "bson_is_power_of_two v \<longleftrightarrow> v \<noteq> 0 \<and> v AND (v - 1) = 0"

text \<open>One line of the smearing: if \<open>x\<close> has the bits of \<open>v\<close> spread over \<open>s\<close> places, the next one has them over \<open>2 * s\<close>.\<close>

lemma smear_step:
  assumes "\<And>n. bit x n \<longleftrightarrow> (\<exists>j<d. bit (v :: u64) (n + j))"
  shows "bit (x OR drop_bit d x) n \<longleftrightarrow> (\<exists>j<2 * d. bit v (n + j))"
proof -
  have "(\<exists>j<2 * d. bit v (n + j)) \<longleftrightarrow> (\<exists>j<d. bit v (n + j)) \<or> (\<exists>j<d. bit v (d + n + j))" (is "?l \<longleftrightarrow> ?r")
  proof
    assume ?l
    then obtain j where j: "j < 2 * d" "bit v (n + j)" by blast
    show ?r
    proof (cases "j < d")
      case False
      then have "j - d < d" "d + n + (j - d) = n + j" using j by simp_all
      with j show ?thesis by metis
    qed (use j in blast)
  next
    assume ?r
    then show ?l
    proof
      assume "\<exists>j<d. bit v (n + j)"
      then obtain j where "j < d" "bit v (n + j)" by blast
      then have "j < 2 * d" "bit v (n + j)" by simp_all
      then show ?l by blast
    next
      assume "\<exists>j<d. bit v (d + n + j)"
      then obtain j where "j < d" "bit v (d + n + j)" by blast
      then have "d + j < 2 * d" "bit v (n + (d + j))" by (simp_all add: ac_simps)
      then show ?l by blast
    qed
  qed
  then show ?thesis using assms by (simp add: bit_or_iff bit_drop_bit_eq)
qed

lemma smear:
  fixes v :: u64
  defines "s1 \<equiv> v OR drop_bit 1 v"
  defines "s2 \<equiv> s1 OR drop_bit 2 s1"
  defines "s4 \<equiv> s2 OR drop_bit 4 s2"
  defines "s8 \<equiv> s4 OR drop_bit 8 s4"
  defines "s16 \<equiv> s8 OR drop_bit 16 s8"
  defines "s32 \<equiv> s16 OR drop_bit 32 s16"
  shows "bit s32 n \<longleftrightarrow> (\<exists>j<64. bit v (n + j))"
proof -
  have 0: "bit v n \<longleftrightarrow> (\<exists>j<1. bit v (n + j))" for n by simp
  have 1: "bit s1 n \<longleftrightarrow> (\<exists>j<2. bit v (n + j))" for n unfolding s1_def using smear_step [of v 1 v, OF 0] by simp
  have 2: "bit s2 n \<longleftrightarrow> (\<exists>j<4. bit v (n + j))" for n unfolding s2_def using smear_step [of s1 2 v, OF 1] by simp
  have 4: "bit s4 n \<longleftrightarrow> (\<exists>j<8. bit v (n + j))" for n unfolding s4_def using smear_step [of s2 4 v, OF 2] by simp
  have 8: "bit s8 n \<longleftrightarrow> (\<exists>j<16. bit v (n + j))" for n unfolding s8_def using smear_step [of s4 8 v, OF 4] by simp
  have 16: "bit s16 n \<longleftrightarrow> (\<exists>j<32. bit v (n + j))" for n unfolding s16_def using smear_step [of s8 16 v, OF 8] by simp
  show ?thesis unfolding s32_def using smear_step [of s16 32 v, OF 16] by simp
qed

lemma bit_unat: "bit w n \<longleftrightarrow> odd (unat (w :: u64) div 2 ^ n)"
proof -
  have "bit w n \<longleftrightarrow> bit (unat w) n" by (auto simp: bit_unsigned_iff dest: bit_imp_le_length)
  then show ?thesis by (simp add: bit_iff_odd)
qed

lemma power_interval: "0 < n \<Longrightarrow> \<exists>m. 2 ^ m \<le> n \<and> n < 2 ^ Suc m" for n :: nat
proof (induction n rule: less_induct)
  case (less n)
  show ?case
  proof (cases "n = 1")
    case True
    then have "2 ^ 0 \<le> n \<and> n < 2 ^ Suc 0" by simp
    then show ?thesis by blast
  next
    case False
    then have "n div 2 < n" "0 < n div 2" using less.prems by auto
    then obtain m where "2 ^ m \<le> n div 2" "n div 2 < 2 ^ Suc m" using less.IH by blast
    then have "2 ^ Suc m \<le> n \<and> n < 2 ^ Suc (Suc m)" by auto
    then show ?thesis by blast
  qed
qed

lemma unat_two_power: "k < 64 \<Longrightarrow> unat ((2 :: u64) ^ k) = 2 ^ k"
proof -
  assume "k < 64"
  then have "(2::nat) ^ k < 2 ^ 64" by (rule power_strict_increasing) simp
  moreover have "(2 :: u64) ^ k = word_of_nat (2 ^ k)" by simp
  ultimately show ?thesis by (simp only: unat_of_nat) simp
qed

lemma next_power_of_two:
  assumes "0 < n" "n \<le> 2 ^ 63"
  shows "\<exists>k\<le>63. unat (bson_next_power_of_two (word_of_nat n)) = 2 ^ k \<and> n \<le> 2 ^ k \<and> 2 ^ k < 2 * n"
proof -
  let ?v = "word_of_nat n :: u64"
  have n: "unat ?v = n" using assms by (simp add: unat_of_nat)
  define w where "w = ?v - 1"
  have w: "unat w = n - 1"
  proof -
    have "1 \<le> ?v" using n assms by (simp add: word_le_nat_alt)
    then show ?thesis unfolding w_def using n by (simp add: unat_sub)
  qed
  show ?thesis
  proof (cases "w = 0")
    case True
    then have "n = 1" using w assms by simp
    then show ?thesis by (intro exI [of _ 0]) (simp add: bson_next_power_of_two_def)
  next
    case False
    then have "0 < unat w" by (simp add: unat_gt_0)
    then obtain m where m: "2 ^ m \<le> unat w" "unat w < 2 ^ Suc m" using power_interval by blast
    have "unat w < 2 ^ 63" using w assms by simp
    then have m63: "m < 63" using m(1) by (meson order_le_less_trans power_less_imp_less_exp one_less_numeral_iff semiring_norm(76))
    have top: "bit w m"
    proof -
      have "unat w div 2 ^ m = 1" using m by (simp add: nat_div_eq_iff)
      then show ?thesis by (simp add: bit_unat)
    qed
    have above: "\<not> bit w i" if "m < i" for i
    proof -
      have "(2::nat) ^ Suc m \<le> 2 ^ i" using that by (intro power_increasing) auto
      then have "unat w < 2 ^ i" using m(2) by simp
      then show ?thesis by (simp add: bit_unat)
    qed
    let ?s1 = "w OR drop_bit 1 w"
    let ?s2 = "?s1 OR drop_bit 2 ?s1"
    let ?s4 = "?s2 OR drop_bit 4 ?s2"
    let ?s8 = "?s4 OR drop_bit 8 ?s4"
    let ?s16 = "?s8 OR drop_bit 16 ?s8"
    let ?s32 = "?s16 OR drop_bit 32 ?s16"
    have "?s32 = mask (Suc m)"
    proof (rule bit_eqI)
      fix i
      show "bit ?s32 i = bit (mask (Suc m) :: u64) i"
      proof (cases "i \<le> m")
        case True
        then have "m - i < 64" "i + (m - i) = m" using m63 by simp_all
        then have "bit ?s32 i" unfolding smear using top by metis
        then show ?thesis using True m63 by (simp add: bit_mask_iff)
      next
        case F: False
        then have "\<not> bit ?s32 i" unfolding smear using above by auto
        then show ?thesis using F by (simp add: bit_mask_iff)
      qed
    qed
    then have "bson_next_power_of_two ?v = mask (Suc m) + 1"
      by (simp add: bson_next_power_of_two_def Let_def w_def)
    also have "\<dots> = 2 ^ Suc m" by (simp add: mask_eq_exp_minus_1)
    finally have "unat (bson_next_power_of_two ?v) = 2 ^ Suc m"
      using m63 unat_two_power [of "Suc m"] by simp
    then show ?thesis using m w assms m63 by (intro exI [of _ "Suc m"]) auto
  qed
qed

text \<open>The conversions around the calls: a \<^verbatim>\<open>size_t\<close> argument, and the cast to \<^verbatim>\<open>uint32_t\<close>.\<close>

definition next_pow2 :: "nat \<Rightarrow> nat" where
  "next_pow2 n = unat (bson_next_power_of_two (word_of_nat n))"

lemma next_pow2_cases:
  assumes "0 < n" "n \<le> 2 ^ 63"
  obtains k where "next_pow2 n = 2 ^ k" "k \<le> 63" "n \<le> 2 ^ k" "2 ^ k < 2 * n"
  using next_power_of_two [OF assms] by (auto simp: next_pow2_def)

lemma next_pow2_ge: "0 < n \<Longrightarrow> n \<le> 2 ^ 63 \<Longrightarrow> n \<le> next_pow2 n"
  by (metis next_pow2_cases)

lemma next_pow2_less: "0 < n \<Longrightarrow> n \<le> 2 ^ 63 \<Longrightarrow> next_pow2 n < 2 * n"
  by (metis next_pow2_cases)

text \<open>
  The bit-smearing \<^verbatim>\<open>bson_next_power_of_two\<close> computes, for every \<open>0 < n \<le> 2 ^ 63\<close>, the least power
  of two that is not below \<open>n\<close>.
\<close>

theorem next_power_of_two_least:
  assumes "0 < n" "n \<le> 2 ^ 63"
  shows "\<exists>k. unat (bson_next_power_of_two (word_of_nat n)) = 2 ^ k \<and> n \<le> 2 ^ k \<and>
    (\<forall>j. n \<le> 2 ^ j \<longrightarrow> (2::nat) ^ k \<le> 2 ^ j)"
proof -
  obtain k where k: "unat (bson_next_power_of_two (word_of_nat n)) = 2 ^ k" "n \<le> 2 ^ k" "2 ^ k < 2 * n"
    using next_power_of_two [OF assms] by blast
  have "(2::nat) ^ k \<le> 2 ^ j" if "n \<le> 2 ^ j" for j
  proof -
    have "(2::nat) ^ k < 2 ^ Suc j" using that k(3) by simp
    then have "k < Suc j" by (rule power_less_imp_less_exp [rotated]) simp
    then show ?thesis by simp
  qed
  with k show ?thesis by blast
qed

lemma next_power_of_two_least_witness:
  "\<exists>k. unat (bson_next_power_of_two (word_of_nat 100)) = 2 ^ k \<and> 100 \<le> (2::nat) ^ k \<and>
    (\<forall>j. (100::nat) \<le> 2 ^ j \<longrightarrow> (2::nat) ^ k \<le> 2 ^ j)"
  by (rule next_power_of_two_least) simp_all

text \<open>A power of two bounds the argument exactly when it bounds the result.\<close>

lemma next_pow2_le_iff:
  assumes "0 < n" "n \<le> 2 ^ 63"
  shows "next_pow2 n \<le> 2 ^ j \<longleftrightarrow> n \<le> 2 ^ j"
proof -
  obtain k where k: "next_pow2 n = 2 ^ k" "n \<le> 2 ^ k" "2 ^ k < 2 * n" using next_pow2_cases [OF assms] by metis
  show ?thesis
  proof
    assume "n \<le> 2 ^ j"
    then have "(2::nat) ^ k < 2 ^ Suc j" using k(3) by simp
    then have "k < Suc j" by (rule power_less_imp_less_exp [rotated]) simp
    then show "next_pow2 n \<le> 2 ^ j" by (simp add: k(1))
  next
    assume "next_pow2 n \<le> 2 ^ j"
    then show "n \<le> 2 ^ j" using k(1,2) by linarith
  qed
qed

lemma next_pow2_int_max:
  assumes "0 < n" "n \<le> 2 ^ 63"
  shows "next_pow2 n \<le> INT_MAX \<longleftrightarrow> n \<le> 2 ^ 30"
proof -
  obtain k where k: "next_pow2 n = 2 ^ k" using next_pow2_cases [OF assms] by metis
  have "next_pow2 n \<le> INT_MAX \<longleftrightarrow> next_pow2 n \<le> 2 ^ 30"
  proof
    assume "next_pow2 n \<le> INT_MAX"
    then have "(2::nat) ^ k < 2 ^ 31" using k by simp
    then have "k < 31" by (rule power_less_imp_less_exp [rotated]) simp
    then show "next_pow2 n \<le> 2 ^ 30" unfolding k by (intro power_increasing) auto
  qed simp
  then show ?thesis using next_pow2_le_iff [OF assms, of 30] by simp
qed

end
