(* ===== verification/Bson_String.thy ===== *)
theory Bson_String
  imports Bson_Types Utf8
begin

text \<open>
  \<^verbatim>\<open>src/bson/bson-string.c\<close> and the allocation functions of \<^verbatim>\<open>src/bson/bson-memory.c\<close> it uses, and
  \<^verbatim>\<open>bson_utf8_escape_for_json\<close> of \<^verbatim>\<open>src/bson/bson-utf8.c\<close>, which builds its result in a
  \<^verbatim>\<open>bson_string_t\<close>.

  The allocator is outside the repository. Fresh memory holds arbitrary bytes: \<open>junk i\<close> is what is
  found at index \<open>i\<close> of a new block, and every theorem holds for all \<open>junk\<close>. \<^verbatim>\<open>realloc\<close> keeps the
  old contents up to the smaller of the two sizes. Allocation does not fail (the library aborts).
\<close>

subsection \<open>Memory blocks\<close>

definition bson_malloc :: "(nat \<Rightarrow> u8) \<Rightarrow> nat \<Rightarrow> bytes" where
  "bson_malloc junk n = map junk [0..<n]"

definition bson_malloc0 :: "nat \<Rightarrow> bytes" where
  "bson_malloc0 n = replicate n 0"

definition bson_realloc :: "(nat \<Rightarrow> u8) \<Rightarrow> bytes \<Rightarrow> nat \<Rightarrow> bytes" where
  "bson_realloc junk mem n = take n mem @ map junk [length mem..<n]"

lemma length_malloc [simp, byte_simps]: "length (bson_malloc junk n) = n"
  by (simp add: bson_malloc_def)

lemma length_realloc [simp, byte_simps]: "length (bson_realloc junk mem n) = n"
  by (auto simp: bson_realloc_def)

lemma take_realloc: "k \<le> length mem \<Longrightarrow> k \<le> n \<Longrightarrow> take k (bson_realloc junk mem n) = take k mem"
  by (simp add: bson_realloc_def min_absorb2)

subsection \<open>The growable string\<close>

record bson_string =
  s_str :: bytes
  s_len :: nat
  s_alloc :: nat

definition pow2_size :: "nat \<Rightarrow> nat" where
  "pow2_size alloc =
     (if bson_is_power_of_two (word_of_nat alloc) then alloc else next_pow2 alloc mod 2 ^ 32)"

definition bson_string_new :: "(nat \<Rightarrow> u8) \<Rightarrow> bytes option \<Rightarrow> bson_string option" where
  "bson_string_new junk mem = do {
     str \<leftarrow> (case mem of None \<Rightarrow> Some [] | Some m \<Rightarrow> c_string m 0);
     let len = length str mod 2 ^ 32;
     let alloc = pow2_size (add32 len 1);
     (if alloc < 1 then None
      else do {
        s1 \<leftarrow> mem_write (bson_malloc junk alloc) 0 (take len str);
        s2 \<leftarrow> mem_write s1 len [0];
        Some \<lparr>s_str = s2, s_len = len, s_alloc = alloc\<rparr> }) }"

definition bson_string_append :: "(nat \<Rightarrow> u8) \<Rightarrow> bson_string \<Rightarrow> bytes \<Rightarrow> bson_string option" where
  "bson_string_append junk s mem = do {
     str \<leftarrow> c_string mem 0;
     let len = length str mod 2 ^ 32;
     let s = (if sub32 (sub32 (s_alloc s) (s_len s)) 1 < len
              then (let alloc = pow2_size (add32 (s_alloc s) len)
                    in s\<lparr>s_alloc := alloc, s_str := bson_realloc junk (s_str s) alloc\<rparr>)
              else s);
     s1 \<leftarrow> mem_write (s_str s) (s_len s) (take len str);
     let newlen = add32 (s_len s) len;
     s2 \<leftarrow> mem_write s1 newlen [0];
     Some (s\<lparr>s_str := s2, s_len := newlen\<rparr>) }"

definition bson_string_append_c :: "(nat \<Rightarrow> u8) \<Rightarrow> bson_string \<Rightarrow> u8 \<Rightarrow> bson_string option" where
  "bson_string_append_c junk s c =
     (if s_alloc s = add32 (s_len s) 1 then bson_string_append junk s [c, 0]
      else do {
        s1 \<leftarrow> mem_write (s_str s) (s_len s) [c];
        let newlen = add32 (s_len s) 1;
        s2 \<leftarrow> mem_write s1 newlen [0];
        Some (s\<lparr>s_str := s2, s_len := newlen\<rparr>) })"

definition bson_string_append_unichar :: "(nat \<Rightarrow> u8) \<Rightarrow> bson_string \<Rightarrow> u32 \<Rightarrow> bson_string option" where
  "bson_string_append_unichar junk s unichar =
     (if unichar = 0 then None
      else (let str = bson_utf8_from_unichar unichar
            in if length str \<le> 6 then bson_string_append junk s (str @ [0]) else Some s))"

text \<open>
  \<^verbatim>\<open>bson_strdupv_printf\<close> with the formatted text as argument: \<^verbatim>\<open>vsnprintf\<close> reports the length \<open>n\<close> and
  writes the text cut to the buffer; the loop starts with 32 bytes and retries with \<open>n + 1\<close>. A text
  of \<^verbatim>\<open>INT_MAX\<close> bytes or more has no \<^verbatim>\<open>int\<close> length to retry with (\<open>None\<close>: the \<^verbatim>\<open>int\<close> overflows).
\<close>

definition bson_vsnprintf :: "bytes \<Rightarrow> nat \<Rightarrow> bytes \<Rightarrow> bytes option" where
  "bson_vsnprintf buf sz msg =
     (if sz = 0 then None
      else do {
        b1 \<leftarrow> mem_write buf 0 (take (sz - 1) msg @ [0]);
        mem_write b1 (sz - 1) [0] })"

function strdupv_printf_loop :: "(nat \<Rightarrow> u8) \<Rightarrow> bytes \<Rightarrow> nat \<Rightarrow> bytes \<Rightarrow> bytes option" where
  "strdupv_printf_loop junk buf len msg = do {
     b \<leftarrow> bson_vsnprintf buf len msg;
     (if length msg < len then Some b
      else if INT_MAX \<le> length msg then None
      else strdupv_printf_loop junk (bson_realloc junk b (length msg + 1)) (length msg + 1) msg) }"
  by pat_completeness auto
termination
  by (relation "measure (\<lambda>(junk, buf, len, msg). Suc (length msg) - len)") auto

declare strdupv_printf_loop.simps [simp del]

definition bson_strdupv_printf :: "(nat \<Rightarrow> u8) \<Rightarrow> bytes \<Rightarrow> bytes option" where
  "bson_strdupv_printf junk msg = strdupv_printf_loop junk (bson_malloc0 32) 32 msg"

definition bson_string_append_printf :: "(nat \<Rightarrow> u8) \<Rightarrow> bson_string \<Rightarrow> bytes \<Rightarrow> bson_string option" where
  "bson_string_append_printf junk s msg = do {
     ret \<leftarrow> bson_strdupv_printf junk msg;
     bson_string_append junk s ret }"

definition bson_string_truncate :: "(nat \<Rightarrow> u8) \<Rightarrow> bson_string \<Rightarrow> nat \<Rightarrow> bson_string option" where
  "bson_string_truncate junk s len =
     (if \<not> len < INT_MAX then None
      else do {
        let alloc = pow2_size (if add32 len 1 < 16 then 16 else add32 len 1);
        s1 \<leftarrow> mem_write (bson_realloc junk (s_str s) alloc) len [0];
        Some \<lparr>s_str = s1, s_len = len, s_alloc = alloc\<rparr> })"

text \<open>\<^verbatim>\<open>bson_string_free\<close>: the buffer is handed over, or freed (\<^verbatim>\<open>NULL\<close>).\<close>

definition bson_string_free :: "bson_string \<Rightarrow> bool \<Rightarrow> bytes option" where
  "bson_string_free s free_segment = (if free_segment then None else Some (s_str s))"

subsection \<open>Copies and bounded lengths\<close>

fun bson_strnlen :: "bytes \<Rightarrow> nat \<Rightarrow> nat \<Rightarrow> nat option" where
  "bson_strnlen s i 0 = Some i"
| "bson_strnlen s i (Suc n) = do {
     c \<leftarrow> rd8 s i;
     (if c = 0 then Some i else bson_strnlen s (Suc i) n) }"

definition bson_strdup :: "bytes \<Rightarrow> bytes option" where
  "bson_strdup mem = do { s \<leftarrow> c_string mem 0; Some (s @ [0]) }"

text \<open>\<^verbatim>\<open>strncpy\<close> copies up to the NUL or \<open>size\<close> bytes and pads with NULs; the last byte is then cleared.\<close>

fun strncpy_src :: "bytes \<Rightarrow> nat \<Rightarrow> nat \<Rightarrow> bytes option" where
  "strncpy_src src i 0 = Some []"
| "strncpy_src src i (Suc n) = do {
     c \<leftarrow> rd8 src i;
     (if c = 0 then Some (replicate (Suc n) 0)
      else do { r \<leftarrow> strncpy_src src (Suc i) n; Some (c # r) }) }"

definition bson_strncpy :: "bytes \<Rightarrow> bytes \<Rightarrow> nat \<Rightarrow> bytes option" where
  "bson_strncpy dst src sz = do {
     t \<leftarrow> strncpy_src src 0 sz;
     d1 \<leftarrow> mem_write dst 0 t;
     (if sz = 0 then None else mem_write d1 (sz - 1) [0]) }"

definition bson_strndup :: "(nat \<Rightarrow> u8) \<Rightarrow> bytes \<Rightarrow> nat \<Rightarrow> bytes option" where
  "bson_strndup junk str n_bytes = bson_strncpy (bson_malloc junk (n_bytes + 1)) str (n_bytes + 1)"

subsection \<open>The invariant and what the operations do to the text\<close>

text \<open>
  A string is well formed when its block has the recorded size, which is at most \<open>2 ^ 31\<close>, and the
  byte behind the text is the terminator.
\<close>

definition str_ok :: "bson_string \<Rightarrow> bool" where
  "str_ok s \<longleftrightarrow> length (s_str s) = s_alloc s \<and> s_len s < s_alloc s \<and> s_alloc s \<le> 2 ^ 31 \<and>
     s_str s ! s_len s = 0"

definition str_text :: "bson_string \<Rightarrow> bytes" where
  "str_text s = take (s_len s) (s_str s)"

lemma pow2_size_bounds:
  assumes "0 < n" "n \<le> 2 ^ 31"
  shows "n \<le> pow2_size n \<and> pow2_size n \<le> 2 ^ 31"
proof (cases "bson_is_power_of_two (word_of_nat n)")
  case True
  with assms show ?thesis by (simp add: pow2_size_def)
next
  case False
  have "next_pow2 n \<le> 2 ^ 31" using next_pow2_le_iff [of n 31] assms by simp
  then have "next_pow2 n mod 2 ^ 32 = next_pow2 n" by simp
  with False \<open>next_pow2 n \<le> 2 ^ 31\<close> next_pow2_ge [of n] assms show ?thesis by (simp add: pow2_size_def)
qed

text \<open>Writing a text and its terminator into a block that has room for both.\<close>

lemma write_text:
  assumes "off + length x < length mem"
  obtains m1 m2 where "mem_write mem off x = Some m1" "mem_write m1 (off + length x) [0] = Some m2"
    "length m2 = length mem" "take (off + length x) m2 = take off mem @ x" "m2 ! (off + length x) = 0"
proof -
  let ?m1 = "take off mem @ x @ drop (off + length x) mem"
  let ?m2 = "take off mem @ x @ [0] @ drop (Suc (off + length x)) mem"
  show ?thesis
  proof (rule that [of ?m1 ?m2])
    show "mem_write mem off x = Some ?m1" using assms by (simp add: mem_write_def)
    show "mem_write ?m1 (off + length x) [0] = Some ?m2"
      using assms by (simp add: mem_write_def min_absorb2 drop_Suc tl_drop)
  qed (use assms in \<open>auto simp: min_absorb2 nth_append\<close>)
qed

lemma string_new_ok:
  assumes mem: "c_string mem 0 = Some x" and len: "length x < 2 ^ 31"
  shows "\<exists>s. bson_string_new junk (Some mem) = Some s \<and> str_ok s \<and> str_text s = x"
proof -
  have a: "length x + 1 \<le> pow2_size (length x + 1)" "pow2_size (length x + 1) \<le> 2 ^ 31"
    using pow2_size_bounds [of "length x + 1"] len by simp_all
  let ?b = "bson_malloc junk (pow2_size (length x + 1))"
  have "0 + length x < length ?b" using a by simp
  then obtain m1 m2 where m: "mem_write ?b 0 x = Some m1" "mem_write m1 (0 + length x) [0] = Some m2"
    "length m2 = length ?b" "take (0 + length x) m2 = take 0 ?b @ x" "m2 ! (0 + length x) = 0"
    by (rule write_text)
  with a len mem show ?thesis by (simp add: bson_string_new_def Let_def str_ok_def str_text_def)
qed

lemma string_new_empty: "\<exists>s. bson_string_new junk None = Some s \<and> str_ok s \<and> str_text s = []"
proof -
  have a: "pow2_size (Suc 0) = 1" by (simp add: pow2_size_def bson_is_power_of_two_def)
  show ?thesis
    by (simp add: bson_string_new_def a Let_def mem_write_def bson_malloc_def str_ok_def str_text_def)
qed

lemma string_append_ok:
  assumes ok: "str_ok s" and mem: "c_string mem 0 = Some x" and len: "s_len s + 2 * length x \<le> 2 ^ 31"
  shows "\<exists>s'. bson_string_append junk s mem = Some s' \<and> str_ok s' \<and> str_text s' = str_text s @ x"
proof -
  have s: "length (s_str s) = s_alloc s" "s_len s < s_alloc s" "s_alloc s \<le> 2 ^ 31" using ok by (simp_all add: str_ok_def)
  have free: "sub32 (sub32 (s_alloc s) (s_len s)) 1 = s_alloc s - s_len s - 1" using s by simp
  have xl: "length x mod 2 ^ 32 = length x" using len by simp
  define grow where "grow = (s_alloc s - s_len s - 1 < length x)"
  define al where "al = (if grow then pow2_size (s_alloc s + length x) else s_alloc s)"
  define blk where "blk = (if grow then bson_realloc junk (s_str s) al else s_str s)"
  have big: "s_alloc s + length x \<le> 2 ^ 31" if grow using that len s by (simp add: grow_def)
  have al: "s_len s + length x < al" "al \<le> 2 ^ 31"
    using pow2_size_bounds [of "s_alloc s + length x"] big s by (auto simp: al_def grow_def)
  have blk: "length blk = al" "take (s_len s) blk = take (s_len s) (s_str s)"
    using s al by (auto simp: blk_def al_def take_realloc)
  have "s_len s + length x < length blk" using al blk by simp
  then obtain m1 m2 where m: "mem_write blk (s_len s) x = Some m1" "mem_write m1 (s_len s + length x) [0] = Some m2"
    "length m2 = length blk" "take (s_len s + length x) m2 = take (s_len s) blk @ x" "m2 ! (s_len s + length x) = 0"
    by (rule write_text)
  have "bson_string_append junk s mem = Some (s\<lparr>s_alloc := al, s_str := m2, s_len := s_len s + length x\<rparr>)"
  proof (cases grow)
    case True
    then show ?thesis using mem free xl m(1,2) big al unfolding grow_def
      by (simp add: bson_string_append_def Let_def al_def blk_def grow_def)
  next
    case False
    then show ?thesis using mem free xl m(1,2) al unfolding grow_def
      by (simp add: bson_string_append_def Let_def al_def blk_def grow_def)
  qed
  with m al blk show ?thesis by (simp add: str_ok_def str_text_def)
qed

lemma string_append_len:
  "str_ok s \<Longrightarrow> length (str_text s) = s_len s"
  by (simp add: str_ok_def str_text_def)

lemma string_append_c_ok:
  assumes ok: "str_ok s" and c: "c \<noteq> 0" and len: "s_len s + 2 \<le> 2 ^ 31"
  shows "\<exists>s'. bson_string_append_c junk s c = Some s' \<and> str_ok s' \<and> str_text s' = str_text s @ [c]"
proof (cases "s_alloc s = add32 (s_len s) 1")
  case True
  have "c_string [c, 0] 0 = Some [c]" using c by (simp add: c_string_def)
  then show ?thesis using string_append_ok [OF ok, of "[c, 0]" "[c]" junk] len True
    by (simp add: bson_string_append_c_def)
next
  case False
  have s: "length (s_str s) = s_alloc s" "s_len s < s_alloc s" "s_alloc s \<le> 2 ^ 31"
    using ok by (simp_all add: str_ok_def)
  then have a: "add32 (s_len s) 1 = s_len s + 1" by simp
  with False s have "s_len s + length [c] < length (s_str s)" by simp
  then obtain m1 m2 where m: "mem_write (s_str s) (s_len s) [c] = Some m1"
    "mem_write m1 (s_len s + length [c]) [0] = Some m2" "length m2 = length (s_str s)"
    "take (s_len s + length [c]) m2 = take (s_len s) (s_str s) @ [c]" "m2 ! (s_len s + length [c]) = 0"
    by (rule write_text)
  with False a s show ?thesis by (simp add: bson_string_append_c_def Let_def str_ok_def str_text_def)
qed

lemma from_unichar_no_nul:
  assumes "u \<noteq> 0" "unat u < 0x110000"
  shows "no_nul (bson_utf8_from_unichar u)"
proof -
  have u: "0 < unat u" using assms(1) by (simp add: unat_gt_0)
  have *: "b \<noteq> 0" if "0x80 \<le> unat b" for b :: u8 using that by auto
  have **: "(ucast u :: u8) \<noteq> 0" if "unat u < 0x80"
  proof
    assume "(ucast u :: u8) = 0"
    then have "unat (ucast u :: u8) = 0" by simp
    then show False using unat_ucast_small [of u] that u by simp
  qed
  show ?thesis
    using assms(2) by (auto simp: bson_utf8_from_unichar_def unat_le_numeral ** intro!: * simp: unat_cont unat_leads)
qed

lemma from_unichar_length: "unat u < 0x110000 \<Longrightarrow> length (bson_utf8_from_unichar u) \<le> 4"
  by (simp add: bson_utf8_from_unichar_def unat_le_numeral)

lemma string_append_unichar_ok:
  assumes ok: "str_ok s" and u: "u \<noteq> 0" "unat u < 0x110000" and len: "s_len s + 2 * length (bson_utf8_from_unichar u) \<le> 2 ^ 31"
  shows "\<exists>s'. bson_string_append_unichar junk s u = Some s' \<and> str_ok s' \<and>
    str_text s' = str_text s @ bson_utf8_from_unichar u"
proof -
  have l: "length (bson_utf8_from_unichar u) \<le> 4" using u by (simp add: from_unichar_length)
  have "c_string (bson_utf8_from_unichar u @ [0]) 0 = Some (bson_utf8_from_unichar u)"
    using c_string_append [of 0 "[]" "bson_utf8_from_unichar u" "[]"] from_unichar_no_nul [OF u] by simp
  from string_append_ok [OF ok this, of junk] l len u(1) show ?thesis
    by (simp add: bson_string_append_unichar_def)
qed

text \<open>\<^verbatim>\<open>bson_strdupv_printf\<close> returns the text, whatever its length below \<^verbatim>\<open>INT_MAX\<close>.\<close>

lemma vsnprintf_fits:
  assumes "length msg < sz" "sz \<le> length buf"
  shows "\<exists>r. bson_vsnprintf buf sz msg = Some (msg @ 0 # r)"
proof -
  let ?m = "msg @ [0] @ drop (Suc (length msg)) buf"
  have 1: "mem_write buf 0 (take (sz - 1) msg @ [0]) = Some ?m"
    using assms by (simp add: mem_write_def)
  have "mem_write ?m (sz - 1) [0] = Some (take (sz - 1) ?m @ 0 # drop sz ?m)"
    using assms by (simp add: mem_write_def)
  moreover have "\<exists>r. take (sz - 1) ?m @ 0 # drop sz ?m = msg @ 0 # r"
  proof (cases "sz = Suc (length msg)")
    case True
    then show ?thesis by simp
  next
    case False
    then have "sz - 1 = length msg + Suc (sz - length msg - 2)" using assms by simp
    then show ?thesis by (simp add: take_Cons')
  qed
  moreover have "sz \<noteq> 0" using assms by simp
  ultimately show ?thesis unfolding bson_vsnprintf_def 1 by simp
qed

lemma mem_write_Some:
  "off + length xs \<le> length bs \<Longrightarrow> \<exists>r. mem_write bs off xs = Some r \<and> length r = length bs"
  by (simp add: mem_write_def)

lemma vsnprintf_cut:
  assumes "0 < sz" "sz \<le> length buf"
  shows "\<exists>r. bson_vsnprintf buf sz msg = Some r \<and> length r = length buf"
proof -
  have "length (take (sz - 1) msg @ [0]) \<le> length buf" using assms by auto
  then obtain m where m: "mem_write buf 0 (take (sz - 1) msg @ [0]) = Some m" "length m = length buf"
    using mem_write_Some [of 0 "take (sz - 1) msg @ [0]" buf] by auto
  obtain r where "mem_write m (sz - 1) [0] = Some r" "length r = length m"
    using mem_write_Some [of "sz - 1" "[0]" m] assms m(2) by auto
  then show ?thesis unfolding bson_vsnprintf_def m(1) using assms(1) by (simp add: m(2))
qed

lemma strdupv_printf_ok:
  assumes "length msg < INT_MAX" "no_nul msg"
  shows "\<exists>r. bson_strdupv_printf junk msg = Some r \<and> c_string r 0 = Some msg"
proof -
  have c: "c_string (msg @ 0 # r) 0 = Some msg" for r
    using c_string_append [of 0 "[]" msg r] assms(2) by simp
  show ?thesis
  proof (cases "length msg < 32")
    case True
    with vsnprintf_fits [of msg 32 "bson_malloc0 32"] c show ?thesis
      by (fastforce simp: bson_strdupv_printf_def strdupv_printf_loop.simps [of junk _ 32] bson_malloc0_def)
  next
    case False
    obtain b where b: "bson_vsnprintf (bson_malloc0 32) 32 msg = Some b"
      using vsnprintf_cut [of 32 "bson_malloc0 32"] by (auto simp: bson_malloc0_def)
    obtain r where r: "bson_vsnprintf (bson_realloc junk b (length msg + 1)) (length msg + 1) msg = Some (msg @ 0 # r)"
      using vsnprintf_fits [of msg "length msg + 1" "bson_realloc junk b (length msg + 1)"] by auto
    have "strdupv_printf_loop junk (bson_realloc junk b (length msg + 1)) (length msg + 1) msg = Some (msg @ 0 # r)"
      by (subst strdupv_printf_loop.simps) (simp add: r [simplified])
    then have "bson_strdupv_printf junk msg = Some (msg @ 0 # r)"
      using False b assms(1) by (simp add: bson_strdupv_printf_def strdupv_printf_loop.simps [of junk _ 32])
    with c show ?thesis by blast
  qed
qed

lemma string_append_printf_ok:
  assumes ok: "str_ok s" and msg: "no_nul msg" "length msg < INT_MAX" and len: "s_len s + 2 * length msg \<le> 2 ^ 31"
  shows "\<exists>s'. bson_string_append_printf junk s msg = Some s' \<and> str_ok s' \<and> str_text s' = str_text s @ msg"
proof -
  obtain r where "bson_strdupv_printf junk msg = Some r" "c_string r 0 = Some msg"
    using strdupv_printf_ok msg by blast
  with string_append_ok [OF ok _ len, of r junk] show ?thesis by (simp add: bson_string_append_printf_def)
qed

lemma string_truncate_ok:
  assumes ok: "str_ok s" and n: "n \<le> s_len s" "n < INT_MAX"
  shows "\<exists>s'. bson_string_truncate junk s n = Some s' \<and> str_ok s' \<and> str_text s' = take n (str_text s)"
proof -
  define al where "al = pow2_size (if add32 n 1 < 16 then 16 else add32 n 1)"
  have al: "n < al" "al \<le> 2 ^ 31" "0 < al"
    using pow2_size_bounds [of 16] pow2_size_bounds [of "n + 1"] n by (auto simp: al_def)
  let ?b = "bson_realloc junk (s_str s) al"
  let ?m = "take n ?b @ 0 # drop (Suc n) ?b"
  have w: "mem_write ?b n [0] = Some ?m" using al by (simp add: mem_write_def)
  have t: "take n ?b = take n (s_str s)" using ok n al by (simp add: str_ok_def take_realloc)
  have ln: "n \<le> length (s_str s)" using ok n by (simp add: str_ok_def)
  have "bson_string_truncate junk s n = Some \<lparr>s_str = ?m, s_len = n, s_alloc = al\<rparr>"
    using n w by (simp add: bson_string_truncate_def Let_def al_def)
  moreover have "length ?m = al" "take n ?m = take n (s_str s)" using al t ln by (simp_all add: min_absorb2)
  ultimately show ?thesis using al n ln
    by (simp add: str_ok_def str_text_def nth_append min_absorb1 min_absorb2)
qed

subsection \<open>Sinks: appending item after item\<close>

text \<open>
  The interface of a growing text: \<open>put\<close> appends the encoding of an admissible item as long as the
  text with twice the new part stays within the capacity. Clients append many items.
\<close>

fun put_all :: "('s \<Rightarrow> 'a \<Rightarrow> 's option) \<Rightarrow> 's \<Rightarrow> 'a list \<Rightarrow> 's option" where
  "put_all put s [] = Some s"
| "put_all put s (x # xs) = do { s' \<leftarrow> put s x; put_all put s' xs }"

locale sink =
  fixes ok :: "'s \<Rightarrow> bool" and text_of :: "'s \<Rightarrow> bytes" and put :: "'s \<Rightarrow> 'a \<Rightarrow> 's option"
    and enc :: "'a \<Rightarrow> bytes" and adm :: "'a \<Rightarrow> bool" and cap :: nat
  assumes put_ok: "ok s \<Longrightarrow> adm x \<Longrightarrow> length (text_of s) + 2 * length (enc x) \<le> cap \<Longrightarrow>
    \<exists>s'. put s x = Some s' \<and> ok s' \<and> text_of s' = text_of s @ enc x"
begin

lemma put_all_ok:
  "ok s \<Longrightarrow> list_all adm xs \<Longrightarrow> length (text_of s) + 2 * length (concat (map enc xs)) \<le> cap \<Longrightarrow>
   \<exists>s'. put_all put s xs = Some s' \<and> ok s' \<and> text_of s' = text_of s @ concat (map enc xs)"
proof (induction xs arbitrary: s)
  case Nil
  then show ?case by simp
next
  case (Cons x xs)
  have "length (text_of s) + 2 * length (enc x) \<le> cap" using Cons.prems(3) by simp
  then obtain s1 where s1: "put s x = Some s1" "ok s1" "text_of s1 = text_of s @ enc x"
    using put_ok [OF Cons.prems(1), of x] Cons.prems(2) by auto
  have "length (text_of s1) + 2 * length (concat (map enc xs)) \<le> cap"
    using Cons.prems(3) by (simp add: s1(3))
  with Cons.IH [OF s1(2)] Cons.prems(2) s1 show ?case by auto
qed

end

text \<open>Bytes of a C string, appended by \<^verbatim>\<open>bson_string_append\<close>.\<close>

definition string_put :: "(nat \<Rightarrow> u8) \<Rightarrow> bson_string \<Rightarrow> bytes \<Rightarrow> bson_string option" where
  "string_put junk s x = bson_string_append junk s (x @ [0])"

lemma string_put_ok:
  assumes "str_ok s" "no_nul x" "length (str_text s) + 2 * length x \<le> 2 ^ 31"
  shows "\<exists>s'. string_put junk s x = Some s' \<and> str_ok s' \<and> str_text s' = str_text s @ x"
proof -
  have "c_string (x @ [0]) 0 = Some x" using c_string_append [of 0 "[]" x "[]"] assms(2) by simp
  from string_append_ok [OF assms(1) this, of junk] assms(3) string_append_len [OF assms(1)] show ?thesis
    by (simp add: string_put_def)
qed

interpretation strs: sink str_ok str_text "string_put junk" id no_nul "2 ^ 31" for junk
  by unfold_locales (use string_put_ok in auto)

subsection \<open>Escaping for JSON\<close>

definition hex_lower :: "nat \<Rightarrow> u8" where
  "hex_lower n = (if n < 10 then word_of_nat (48 + n) else word_of_nat (87 + n))"

text \<open>\<^verbatim>\<open>printf ("\u%04x", c)\<close> for a control character.\<close>

definition printf_u04x :: "u32 \<Rightarrow> bytes" where
  "printf_u04x c = str_of [CHR 0x5C, CHR ''u'', CHR ''0'', CHR ''0''] @
     [hex_lower (unat c div 16), hex_lower (unat c mod 16)]"

definition escape_put :: "(nat \<Rightarrow> u8) \<Rightarrow> bson_string \<Rightarrow> u32 \<Rightarrow> bson_string option" where
  "escape_put junk str c =
     (if c = 0x5C \<or> c = 0x22 then do {
        str \<leftarrow> bson_string_append_c junk str 0x5C;
        bson_string_append_unichar junk str c }
      else if c = 0x08 then bson_string_append junk str [0x5C, 0x62, 0]
      else if c = 0x0C then bson_string_append junk str [0x5C, 0x66, 0]
      else if c = 0x0A then bson_string_append junk str [0x5C, 0x6E, 0]
      else if c = 0x0D then bson_string_append junk str [0x5C, 0x72, 0]
      else if c = 0x09 then bson_string_append junk str [0x5C, 0x74, 0]
      else if c < 0x20 then bson_string_append_printf junk str (printf_u04x c)
      else bson_string_append_unichar junk str c)"

lemma next_char_progress:
  assumes "bson_utf8_get_char mem p = Some c" "c \<noteq> 0" "bson_utf8_next_char mem p = Some q"
  shows "p < q"
proof -
  obtain b where b: "rd8 mem p = Some b"
    using assms(3) by (auto simp: bson_utf8_next_char_def bind_Some_iff)
  have q: "q = p + fst (bson_utf8_get_sequence b)" using assms(3) by (simp add: bson_utf8_next_char_def b)
  have "bson_utf8_get_sequence b \<noteq> (0, 0)"
  proof
    assume "bson_utf8_get_sequence b = (0, 0)"
    then show False using assms(1,2) by (simp add: bson_utf8_get_char_def b)
  qed
  then have "0 < fst (bson_utf8_get_sequence b)" by (auto simp: bson_utf8_get_sequence_def split: if_splits)
  with q show ?thesis by simp
qed

text \<open>
  The loop from offset \<open>p\<close> of the buffer to \<^verbatim>\<open>end\<close>: the answer is the returned block, or \<^verbatim>\<open>NULL\<close>
  (\<open>Some None\<close>) for invalid UTF-8.
\<close>

function escape_loop ::
  "(nat \<Rightarrow> u8) \<Rightarrow> bytes \<Rightarrow> nat \<Rightarrow> bool \<Rightarrow> nat \<Rightarrow> bson_string \<Rightarrow> bytes option option" where
  "escape_loop junk utf8 e length_provided p str =
     (if p < e then
        (case bson_utf8_get_char utf8 p of
           None \<Rightarrow> None
         | Some c \<Rightarrow>
             (case escape_put junk str c of
                None \<Rightarrow> None
              | Some str' \<Rightarrow>
                  (if c \<noteq> 0 then
                     (case bson_utf8_next_char utf8 p of
                        None \<Rightarrow> None
                      | Some q \<Rightarrow> escape_loop junk utf8 e length_provided q str')
                   else if length_provided \<and> rd8 utf8 p = Some 0 then
                     escape_loop junk utf8 e length_provided (p + 1) str'
                   else Some (bson_string_free str' True))))
      else Some (bson_string_free str False))"
  by pat_completeness auto
termination
proof (relation "measure (\<lambda>(junk, utf8, e, lp, p, str). e - p)")
qed (auto dest: next_char_progress)

declare escape_loop.simps [simp del]

definition bson_utf8_escape_for_json :: "(nat \<Rightarrow> u8) \<Rightarrow> bytes \<Rightarrow> int \<Rightarrow> bytes option option" where
  "bson_utf8_escape_for_json junk utf8 utf8_len = do {
     str \<leftarrow> bson_string_new junk None;
     (if utf8_len < 0 then do {
        s \<leftarrow> c_string utf8 0;
        escape_loop junk utf8 (length s) False 0 str }
      else escape_loop junk utf8 (nat utf8_len) True 0 str) }"

text \<open>What JSON asks for, character by character, and a reader of JSON string contents.\<close>

definition json_esc :: "nat \<Rightarrow> bytes" where
  "json_esc c =
     (if c = 0x5C \<or> c = 0x22 then [0x5C, word_of_nat c]
      else if c = 8 then [0x5C, 0x62] else if c = 12 then [0x5C, 0x66]
      else if c = 10 then [0x5C, 0x6E] else if c = 13 then [0x5C, 0x72]
      else if c = 9 then [0x5C, 0x74]
      else if c < 32 then [0x5C, 0x75, 0x30, 0x30, hex_lower (c div 16), hex_lower (c mod 16)]
      else utf8_enc c)"

fun hex_val :: "u8 \<Rightarrow> nat" where
  "hex_val b = (if unat b < 58 then unat b - 48 else unat b - 87)"

text \<open>
  The reader knows the eight two-character escapes and \<open>\u00xy\<close> below \<open>0x80\<close>; a raw quote, a raw
  control character or any other escape is an error.
\<close>

fun json_unescape :: "bytes \<Rightarrow> bytes option" where
  "json_unescape [] = Some []"
| "json_unescape (b # r) =
     (if b = 0x5C then
        (case r of
           [] \<Rightarrow> None
         | e # r1 \<Rightarrow>
             (if e = 0x75 then
                (case r1 of
                   z1 # z2 # h # l # r2 \<Rightarrow>
                     (if z1 = 0x30 \<and> z2 = 0x30 \<and> hex_val h * 16 + hex_val l < 128
                      then map_option ((#) (word_of_nat (hex_val h * 16 + hex_val l))) (json_unescape r2)
                      else None)
                 | _ \<Rightarrow> None)
              else if e = 0x5C \<or> e = 0x22 \<or> e = 0x2F then map_option ((#) e) (json_unescape r1)
              else if e = 0x62 then map_option ((#) 8) (json_unescape r1)
              else if e = 0x66 then map_option ((#) 12) (json_unescape r1)
              else if e = 0x6E then map_option ((#) 10) (json_unescape r1)
              else if e = 0x72 then map_option ((#) 13) (json_unescape r1)
              else if e = 0x74 then map_option ((#) 9) (json_unescape r1)
              else None))
      else if b = 0x22 \<or> unat b < 32 then None
      else map_option ((#) b) (json_unescape r))"

lemma hex_lower_u8: "n < 16 \<Longrightarrow> unat (hex_lower n) = (if n < 10 then 48 + n else 87 + n)"
  by (simp add: hex_lower_def unat_of_nat_u8 del: of_nat_add)

lemma u32_numerals:
  "(u :: u32) = 0 \<longleftrightarrow> unat u = 0" "u = numeral k \<longleftrightarrow> unat u = unat (numeral k :: u32)"
  "u < numeral k \<longleftrightarrow> unat u < unat (numeral k :: u32)"
proof -
  show "u = 0 \<longleftrightarrow> unat u = 0" by (simp only: unat_eq_0)
  show "u = numeral k \<longleftrightarrow> unat u = unat (numeral k :: u32)" by (rule word_unat_eq_iff)
  show "u < numeral k \<longleftrightarrow> unat u < unat (numeral k :: u32)" by (rule word_less_nat_alt)
qed

lemma utf8_enc_no_nul:
  assumes "0 < c" "c < 0x110000"
  shows "no_nul (utf8_enc c)"
proof -
  let ?u = "word_of_nat c :: u32"
  have c: "unat ?u = c" using assms by (simp add: unat_of_nat)
  moreover have "?u \<noteq> 0" using c assms(1) by auto
  ultimately show ?thesis using from_unichar_no_nul [of ?u] from_unichar_eq_enc [of ?u] assms(2) by simp
qed

lemma hex_lower_nz: "n < 16 \<Longrightarrow> hex_lower n \<noteq> 0"
proof
  assume n: "n < 16" "hex_lower n = 0"
  then have "unat (hex_lower n) = 0" by simp
  then show False using hex_lower_u8 [OF n(1)] by (simp split: if_splits)
qed

lemma json_esc_no_nul: "c < 0x110000 \<Longrightarrow> no_nul (json_esc c)"
  using utf8_enc_no_nul [of c] hex_lower_nz [of "c div 16"] hex_lower_nz [of "c mod 16"]
  by (auto simp: json_esc_def)

lemma str_of_u00: "printf_u04x c = [0x5C, 0x75, 0x30, 0x30, hex_lower (unat c div 16), hex_lower (unat c mod 16)]"
  by (simp add: printf_u04x_def str_of_def of_char_def horner_sum_foldr)

lemma escape_put_ok:
  assumes ok: "str_ok s" and u: "unat u < 0x110000"
    and room: "length (str_text s) + 2 * length (json_esc (unat u)) \<le> 2 ^ 31"
  shows "\<exists>s'. escape_put junk s u = Some s' \<and> str_ok s' \<and> str_text s' = str_text s @ json_esc (unat u)"
proof -
  note l = string_append_len [OF ok]
  have two: "\<exists>s'. bson_string_append junk s (x @ [0]) = Some s' \<and> str_ok s' \<and> str_text s' = str_text s @ x"
    if "no_nul x" "length x = length (json_esc (unat u))" for x
    using string_put_ok [OF ok that(1), of junk] that(2) room by (simp add: string_put_def)
  consider (q) "unat u = 0x5C \<or> unat u = 0x22"
    | (e) "unat u = 8 \<or> unat u = 12 \<or> unat u = 10 \<or> unat u = 13 \<or> unat u = 9"
    | (c) "unat u < 32" "unat u \<notin> {8, 12, 10, 13, 9}"
    | (n) "32 \<le> unat u" "unat u \<noteq> 0x5C" "unat u \<noteq> 0x22" by fastforce
  then show ?thesis
  proof cases
    case q
    have room': "s_len s + 4 \<le> 2 ^ 31" using room q l by (auto simp: json_esc_def)
    obtain s1 where s1: "bson_string_append_c junk s 0x5C = Some s1" "str_ok s1" "str_text s1 = str_text s @ [0x5C]"
      using string_append_c_ok [OF ok, of "0x5C" junk] room' by auto
    have l1: "s_len s1 = s_len s + 1" using string_append_len [OF s1(2)] l s1(3) by simp
    have e: "bson_utf8_from_unichar u = [word_of_nat (unat u)]"
      using q from_unichar_eq_enc [OF u] by (auto simp: utf8_enc_def)
    have "u \<noteq> 0" using q by auto
    then obtain s2 where "bson_string_append_unichar junk s1 u = Some s2" "str_ok s2" "str_text s2 = str_text s1 @ bson_utf8_from_unichar u"
      using string_append_unichar_ok [OF s1(2) _ u, of junk] room' l1 e by auto
    with q s1 e show ?thesis by (auto simp: escape_put_def json_esc_def u32_numerals)
  next
    case e
    then show ?thesis using two [of "[0x5C, 0x62]"] two [of "[0x5C, 0x66]"] two [of "[0x5C, 0x6E]"]
        two [of "[0x5C, 0x72]"] two [of "[0x5C, 0x74]"]
      by (auto simp: escape_put_def json_esc_def u32_numerals)
  next
    case c
    have nn: "no_nul (printf_u04x u)" using json_esc_no_nul [OF u] c by (simp add: str_of_u00 json_esc_def)
    have "length (printf_u04x u) = 6" by (simp add: str_of_u00)
    then have "\<exists>s'. bson_string_append_printf junk s (printf_u04x u) = Some s' \<and> str_ok s' \<and> str_text s' = str_text s @ printf_u04x u"
      using string_append_printf_ok [OF ok nn, of junk] room c l by (auto simp: json_esc_def)
    then show ?thesis using c by (simp add: escape_put_def json_esc_def u32_numerals str_of_u00)
  next
    case n
    have "u \<noteq> 0" using n by auto
    then show ?thesis using string_append_unichar_ok [OF ok _ u, of junk] room n l from_unichar_eq_enc [OF u]
      by (simp add: escape_put_def json_esc_def u32_numerals)
  qed
qed

interpretation esc: sink str_ok str_text "escape_put junk" "\<lambda>u. json_esc (unat u)" "\<lambda>u. unat u < 0x110000" "2 ^ 31" for junk
  by unfold_locales (rule escape_put_ok)

lemma unichar_read:
  assumes "unat u < 0x110000"
  shows "bson_utf8_get_char (pre @ bson_utf8_from_unichar u @ post) (length pre) = Some u"
    "bson_utf8_next_char (pre @ bson_utf8_from_unichar u @ post) (length pre) =
       Some (length pre + length (bson_utf8_from_unichar u))"
proof -
  have "unat u \<le> 0x3FFFFFF" using assms by simp
  then obtain b xs m where d: "bson_utf8_from_unichar u = b # xs"
      "bson_utf8_get_sequence b = (Suc (length xs), m)" "foldl utf8_shift_in (ucast (b AND m)) xs = u"
    using from_unichar_decodes by metis
  show "bson_utf8_get_char (pre @ bson_utf8_from_unichar u @ post) (length pre) = Some u"
    "bson_utf8_next_char (pre @ bson_utf8_from_unichar u @ post) (length pre) =
       Some (length pre + length (bson_utf8_from_unichar u))"
    using get_char_Cons [OF d(2), of pre post] by (simp_all add: d(1,3))
qed

lemma escape_loop_put_all:
  "list_all (\<lambda>u. unat u < 0x110000) us \<Longrightarrow> length_provided \<or> 0 \<notin> set us \<Longrightarrow>
   put_all (escape_put junk) str us = Some str' \<Longrightarrow>
   escape_loop junk (pre @ concat (map bson_utf8_from_unichar us) @ post)
     (length pre + length (concat (map bson_utf8_from_unichar us))) length_provided (length pre) str =
   Some (Some (s_str str'))"
proof (induction us arbitrary: pre str)
  case Nil
  then show ?case by (simp add: escape_loop.simps [of junk pre] escape_loop.simps bson_string_free_def)
next
  case (Cons u us)
  let ?e = "bson_utf8_from_unichar u"
  let ?rest = "concat (map bson_utf8_from_unichar us) @ post"
  obtain s1 where s1: "escape_put junk str u = Some s1" "put_all (escape_put junk) s1 us = Some str'"
    using Cons.prems(3) by (auto simp: bind_Some_iff)
  have u: "unat u < 0x110000" using Cons.prems(1) by simp
  note rd = unichar_read [OF u, of pre ?rest]
  have lp: "length_provided" "?e = [0]" "rd8 (pre @ ?e @ ?rest) (length pre) = Some 0" if "u = 0"
    using that Cons.prems(2) by (auto simp: rd8_def nth_append bson_utf8_from_unichar_def)
  have pos: "0 < length ?e" using u by (simp add: bson_utf8_from_unichar_def unat_le_numeral)
  have lp': "length_provided \<or> 0 \<notin> set us" using Cons.prems(2) by auto
  have ih: "escape_loop junk (pre @ ?e @ ?rest) (length pre + length ?e + length (concat (map bson_utf8_from_unichar us)))
      length_provided (length pre + length ?e) s1 = Some (Some (s_str str'))"
    using Cons.IH [OF _ lp', of s1 "pre @ ?e"] Cons.prems(1) s1(2) by simp
  show ?case
  proof (cases "u = 0")
    case True
    then show ?thesis using rd lp ih s1 pos
      by (subst escape_loop.simps) (simp add: add.assoc)
  next
    case False
    then show ?thesis using rd ih s1 pos
      by (subst escape_loop.simps) (simp add: add.assoc)
  qed
qed

subsection \<open>Reading the escaped text back\<close>

lemma json_unescape_plain:
  "list_all (\<lambda>b. b \<noteq> 0x5C \<and> b \<noteq> 0x22 \<and> 32 \<le> unat b) xs \<Longrightarrow>
   json_unescape (xs @ r) = map_option ((@) xs) (json_unescape r)"
  by (cases "json_unescape r") (induction xs, auto)+

lemma utf8_enc_plain:
  assumes "32 \<le> c" "c \<noteq> 0x5C" "c \<noteq> 0x22" "c < 0x110000"
  shows "list_all (\<lambda>b. b \<noteq> 0x5C \<and> b \<noteq> 0x22 \<and> 32 \<le> unat b) (utf8_enc c)"
proof -
  have *: "b \<noteq> 0x5C \<and> b \<noteq> 0x22 \<and> 32 \<le> unat b" if "0x80 \<le> unat b" for b :: u8 using that by auto
  have "list_all (\<lambda>n. 32 \<le> n \<and> n \<noteq> 0x5C \<and> n \<noteq> 0x22) (map unat (utf8_enc c))"
    unfolding map_unat_utf8_enc using assms by auto
  then show ?thesis unfolding list_all_iff by (auto simp: word_unat_eq_iff)
qed

lemma hex_val_lower: "n < 16 \<Longrightarrow> hex_val (hex_lower n) = n"
  by (simp add: hex_lower_u8)

lemma json_unescape_esc:
  assumes "c < 0x110000"
  shows "json_unescape (json_esc c @ r) = map_option ((@) (utf8_enc c)) (json_unescape r)"
proof -
  consider (q) "c = 0x5C \<or> c = 0x22" | (e) "c = 8 \<or> c = 12 \<or> c = 10 \<or> c = 13 \<or> c = 9"
    | (c) "c < 32" "c \<notin> {8, 12, 10, 13, 9}" | (n) "32 \<le> c" "c \<noteq> 0x5C" "c \<noteq> 0x22" by fastforce
  then show ?thesis
  proof cases
    case c
    have "c div 16 * 16 + c mod 16 = c" by simp
    with c show ?thesis using hex_val_lower [of "c div 16"] hex_val_lower [of "c mod 16"]
      by (cases "json_unescape r") (simp_all add: json_esc_def utf8_enc_def del: hex_val.simps)
  next
    case n
    then show ?thesis using json_unescape_plain [OF utf8_enc_plain [OF n assms]] by (simp add: json_esc_def)
  next
    case q
    then show ?thesis by (elim disjE; cases "json_unescape r"; simp add: json_esc_def utf8_enc_def)
  next
    case e
    then show ?thesis by (elim disjE; cases "json_unescape r"; simp add: json_esc_def utf8_enc_def)
  qed
qed

lemma json_unescape_escs:
  "list_all (\<lambda>u. unat u < 0x110000) us \<Longrightarrow>
   json_unescape (concat (map (\<lambda>u. json_esc (unat u)) us)) = Some (concat (map bson_utf8_from_unichar us))"
  by (induction us) (simp_all add: json_unescape_esc from_unichar_eq_enc)

lemma str_text_c_string:
  assumes "str_ok s" "no_nul (str_text s)"
  shows "c_string (s_str s) 0 = Some (str_text s)"
proof -
  have s: "s_len s < length (s_str s)" "s_str s ! s_len s = 0" using assms(1) by (auto simp: str_ok_def)
  have "s_str s = str_text s @ 0 # drop (Suc (s_len s)) (s_str s)"
    using id_take_nth_drop [OF s(1)] by (simp add: str_text_def s(2))
  then show ?thesis using c_string_append [of 0 "[]" "str_text s"] assms(2)
    by (metis append_Nil list.size(3))
qed

lemma escs_no_nul: "list_all (\<lambda>u. unat u < 0x110000) us \<Longrightarrow> no_nul (concat (map (\<lambda>u. json_esc (unat u)) us))"
  by (induction us) (auto simp: json_esc_no_nul)

lemma string_put_all_new:
  assumes "list_all no_nul xs" "length (concat xs) \<le> 2 ^ 30"
  shows "\<exists>s s'. bson_string_new junk None = Some s \<and> put_all (string_put junk) s xs = Some s' \<and>
    str_ok s' \<and> str_text s' = concat xs \<and> c_string (s_str s') 0 = Some (concat xs)"
proof -
  obtain s where s: "bson_string_new junk None = Some s" "str_ok s" "str_text s = []"
    using string_new_empty by blast
  obtain s' where s': "put_all (string_put junk) s xs = Some s'" "str_ok s'" "str_text s' = concat xs"
    using strs.put_all_ok [OF s(2), of xs junk] assms s(3) by auto
  have "no_nul (concat xs)" using assms(1) by (induction xs) auto
  with str_text_c_string [OF s'(2)] s' s(1) show ?thesis by auto
qed

text \<open>
  C27. Whatever sequence of C strings is appended to a new \<^verbatim>\<open>bson_string_t\<close>, as long as the total stays
  within 2^30 bytes no append leaves the block, the block grows when it must, and the result is
  the concatenation, terminated by a NUL.
\<close>

theorem string_append_sequence:
  assumes "list_all no_nul xs" "length (concat xs) \<le> 2 ^ 30"
  shows "\<exists>s s'. bson_string_new junk None = Some s \<and> put_all (string_put junk) s xs = Some s' \<and>
    str_ok s' \<and> str_text s' = concat xs \<and> c_string (s_str s') 0 = Some (concat xs)"
  using string_put_all_new [OF assms] .

lemma string_append_sequence_witness:
  "\<exists>s s'. bson_string_new (\<lambda>_. 0xAA) None = Some s \<and>
     put_all (string_put (\<lambda>_. 0xAA)) s [[0x61, 0x62], [], [0x63]] = Some s' \<and> str_ok s' \<and>
     str_text s' = concat [[0x61, 0x62], [], [0x63]] \<and> c_string (s_str s') 0 = Some (concat [[0x61, 0x62], [], [0x63]])"
  by (rule string_append_sequence) simp_all

text \<open>
  C21. For UTF-8 text of explicit length (NUL characters included) \<^verbatim>\<open>bson_utf8_escape_for_json\<close> stays
  inside its buffers and returns a string that a JSON reader turns back into exactly the input bytes;
  the result has no raw quote or control character.
\<close>

theorem escape_for_json_roundtrip:
  assumes us: "list_all (\<lambda>u. unat u < 0x110000) us" and len: "length us \<le> 2 ^ 27"
  shows "\<exists>blk t. bson_utf8_escape_for_json junk (concat (map bson_utf8_from_unichar us) @ post)
      (int (length (concat (map bson_utf8_from_unichar us)))) = Some (Some blk) \<and>
    c_string blk 0 = Some t \<and> json_unescape t = Some (concat (map bson_utf8_from_unichar us))"
proof -
  let ?esc = "concat (map (\<lambda>u. json_esc (unat u)) us)"
  have "length (json_esc c) \<le> 6" for c by (auto simp: json_esc_def utf8_enc_def)
  then have "length ?esc \<le> 6 * length us"
    by (induction us) (simp_all, meson add_mono)
  then have cap: "2 * length ?esc \<le> 2 ^ 31" using len by simp
  obtain s where s: "bson_string_new junk None = Some s" "str_ok s" "str_text s = []"
    using string_new_empty by blast
  obtain s' where s': "put_all (escape_put junk) s us = Some s'" "str_ok s'" "str_text s' = ?esc"
    using esc.put_all_ok [OF s(2) us, of junk] cap s(3) by auto
  have "bson_utf8_escape_for_json junk (concat (map bson_utf8_from_unichar us) @ post)
      (int (length (concat (map bson_utf8_from_unichar us)))) = Some (Some (s_str s'))"
    using escape_loop_put_all [OF us _ s'(1), of True "[]" post] by (simp add: bson_utf8_escape_for_json_def s(1))
  moreover have "c_string (s_str s') 0 = Some ?esc"
    using str_text_c_string [OF s'(2)] escs_no_nul [OF us] s'(3) by simp
  ultimately show ?thesis using json_unescape_escs [OF us] by blast
qed

lemma escape_for_json_roundtrip_witness:
  "\<exists>blk t. bson_utf8_escape_for_json (\<lambda>_. 0) (concat (map bson_utf8_from_unichar [0x22, 0, 0xE9]) @ [0x21])
      (int (length (concat (map bson_utf8_from_unichar [0x22, 0, 0xE9])))) = Some (Some blk) \<and>
    c_string blk 0 = Some t \<and> json_unescape t = Some (concat (map bson_utf8_from_unichar [0x22, 0, 0xE9]))"
  by (rule escape_for_json_roundtrip) simp_all

text \<open>
  A NUL byte inside the given length becomes the six characters \<open>\u0000\<close>, not the two-byte UTF-8
  sequence the comment announces, and that two-byte sequence in the input makes the function fail.
\<close>

theorem escape_for_json_nul:
  "(\<exists>blk. bson_utf8_escape_for_json junk [0] 1 = Some (Some blk) \<and>
     c_string blk 0 = Some (str_of (CHR 0x5C # ''u0000''))) \<and>
   bson_utf8_escape_for_json junk [0xC0, 0x80] 2 = Some None"
proof
  obtain s where s: "bson_string_new junk None = Some s" "str_ok s" "str_text s = []"
    using string_new_empty by blast
  have nul: "bson_utf8_from_unichar 0 = [0]" by (simp add: bson_utf8_from_unichar_def)
  have e0: "json_esc 0 = str_of (CHR 0x5C # ''u0000'')"
    by (simp add: json_esc_def hex_lower_def str_of_def of_char_def)
  obtain s' where s': "escape_put junk s 0 = Some s'" "str_ok s'" "str_text s' = json_esc 0"
    using escape_put_ok [OF s(2), of 0 junk] s(3) by (auto simp: e0 str_of_def)
  have "bson_utf8_escape_for_json junk [0] 1 = Some (Some (s_str s'))"
    using escape_loop_put_all [of "[0]" True junk s s' "[]" "[]"] s'(1) by (simp add: bson_utf8_escape_for_json_def s(1) nul)
  moreover have "c_string (s_str s') 0 = Some (json_esc 0)"
    using str_text_c_string [OF s'(2)] json_esc_no_nul [of 0] s'(3) by simp
  ultimately show "\<exists>blk. bson_utf8_escape_for_json junk [0] 1 = Some (Some blk) \<and>
     c_string blk 0 = Some (str_of (CHR 0x5C # ''u0000''))" by (simp add: e0)
  have "bson_utf8_get_char [0xC0, 0x80] 0 = Some 0"
    by (simp add: bson_utf8_get_char_def rd8_def bson_utf8_get_sequence_def utf8_shift_in_def)
  then show "bson_utf8_escape_for_json junk [0xC0, 0x80] 2 = Some None"
    by (simp add: bson_utf8_escape_for_json_def s(1) escape_loop.simps [of junk "[0xC0, 0x80]" 2] s'(1)
        rd8_def bson_string_free_def)
qed

end
