(* ===== verification/Strtoll.thy ===== *)
theory Strtoll
  imports Bson_Prelude "HOL-Library.Signed_Division"
begin

text \<open>
  \<^verbatim>\<open>bson_ascii_strtoll\<close> of \<^verbatim>\<open>src/bson/bson-string.c\<close>: the number parser of the ISO-8601 and JSON
  readers. Characters are those of the C locale. The result is the triple of the returned number,
  the \<^verbatim>\<open>errno\<close> left behind and the offset stored through \<^verbatim>\<open>e\<close> (\<open>None\<close>: not stored).
\<close>

datatype strtoll_errno = ENONE | EINVAL | ERANGE

definition c_isspace :: "u8 \<Rightarrow> bool" where
  "c_isspace c \<longleftrightarrow> c = 32 \<or> (9 \<le> c \<and> c \<le> 13)"

definition c_isdigit :: "u8 \<Rightarrow> bool" where
  "c_isdigit c \<longleftrightarrow> 48 \<le> c \<and> c \<le> 57"

definition c_isupper :: "u8 \<Rightarrow> bool" where
  "c_isupper c \<longleftrightarrow> 65 \<le> c \<and> c \<le> 90"

definition c_isalpha :: "u8 \<Rightarrow> bool" where
  "c_isalpha c \<longleftrightarrow> c_isupper c \<or> (97 \<le> c \<and> c \<le> 122)"

definition digit_val :: "u8 \<Rightarrow> int option" where
  "digit_val c =
     (if c_isdigit c then Some (uint c - 48)
      else if c_isalpha c then Some (uint c - (if c_isupper c then 55 else 87))
      else None)"

definition LLONG_MAX :: int where "LLONG_MAX = 2 ^ 63 - 1"
definition LLONG_MIN :: int where "LLONG_MIN = - (2 ^ 63)"

function skip_space :: "bytes \<Rightarrow> nat \<Rightarrow> nat option" where
  "skip_space s tok =
     (case rd8 s tok of
        None \<Rightarrow> None
      | Some c \<Rightarrow> if c_isspace c then skip_space s (tok + 1) else Some tok)"
  by pat_completeness auto
termination
  by (relation "measure (\<lambda>(s, tok). length s - tok)") (auto simp: rd8_def split: if_splits)

function strtoll_loop :: "bytes \<Rightarrow> bool \<Rightarrow> int \<Rightarrow> int \<Rightarrow> int \<Rightarrow> nat \<Rightarrow> int \<Rightarrow> (int \<times> strtoll_errno \<times> nat) option" where
  "strtoll_loop s neg base cutoff cutlim tok number =
     (case rd8 s tok of
        None \<Rightarrow> None
      | Some c \<Rightarrow>
          if c = 0 then Some (number, ENONE, tok)
          else
            (case digit_val c of
               None \<Rightarrow> Some (number, ENONE, tok)
             | Some d \<Rightarrow>
                 if d \<ge> base then Some (number, ENONE, tok)
                 else if neg then
                   (if number < cutoff \<or> (number = cutoff \<and> d > cutlim) then Some (LLONG_MIN, ERANGE, tok)
                    else strtoll_loop s neg base cutoff cutlim (tok + 1) (number * base - d))
                 else
                   (if number > cutoff \<or> (number = cutoff \<and> d > cutlim) then Some (LLONG_MAX, ERANGE, tok)
                    else strtoll_loop s neg base cutoff cutlim (tok + 1) (number * base + d))))"
  by pat_completeness auto
termination
  by (relation "measure (\<lambda>(s, neg, base, cutoff, cutlim, tok, number). length s - tok)")
     (auto simp: rd8_def split: if_splits)

declare skip_space.simps [simp del] strtoll_loop.simps [simp del]

definition bson_ascii_strtoll :: "bytes \<Rightarrow> int \<Rightarrow> (int \<times> strtoll_errno \<times> nat option) option" where
  "bson_ascii_strtoll s base0 = do {
     tok \<leftarrow> skip_space s 0;
     c \<leftarrow> rd8 s tok;
     (if c \<noteq> 45 \<and> c \<noteq> 43 \<and> \<not> c_isdigit c then Some (0, EINVAL, None)
      else do {
        let neg = (c = 45);
        let tok = (if c = 45 \<or> c = 43 then tok + 1 else tok);
        c \<leftarrow> rd8 s tok;
        hex \<leftarrow> (if (base0 = 0 \<or> base0 = 16) \<and> c = 48
                 then map_option (\<lambda>x. x = 0x78 \<or> x = 0x58) (rd8 s (tok + 1)) else Some False);
        let tok = (if hex then tok + 2 else tok);
        let base = (if hex then 16 else base0);
        c \<leftarrow> rd8 s tok;
        let base = (if base = 0 then (if c = 48 then 8 else 10) else base);
        let cutoff = (if neg then LLONG_MIN else LLONG_MAX);
        let cutlim = cutoff smod base;
        let cutoff = cutoff sdiv base;
        let adjust = (neg \<and> cutlim > 0);
        let cutoff = (if adjust then cutoff + 1 else cutoff);
        let cutlim = (if adjust then cutlim - base else cutlim);
        let cutlim = (if neg then - cutlim else cutlim);
        (number, err, fin) \<leftarrow> strtoll_loop s neg base cutoff cutlim tok 0;
        Some (number, err, if fin > tok then Some fin else None) }) }"

text \<open>The value a digit string denotes, and the clamping the comment of the function promises.\<close>

definition digits_num :: "int \<Rightarrow> bytes \<Rightarrow> int" where
  "digits_num base ds = foldl (\<lambda>n c. n * base + the (digit_val c)) 0 ds"

definition digit_of :: "int \<Rightarrow> u8 \<Rightarrow> bool" where
  "digit_of base c \<longleftrightarrow> c \<noteq> 0 \<and> (\<exists>d. digit_val c = Some d \<and> d < base)"

lemma digit_val_bounds: "digit_val c = Some d \<Longrightarrow> 0 \<le> d"
  by (auto simp: digit_val_def c_isdigit_def c_isalpha_def c_isupper_def word_le_def split: if_splits)

definition cut_ok :: "bool \<Rightarrow> int \<Rightarrow> int \<Rightarrow> int \<Rightarrow> bool" where
  "cut_ok neg base cutoff cutlim \<longleftrightarrow>
     (if neg then 2 ^ 63 = - cutoff * base + cutlim else 2 ^ 63 - 1 = cutoff * base + cutlim) \<and>
     0 \<le> cutlim \<and> cutlim < base"

lemma fold_digits_mono:
  assumes "0 < base" "list_all (digit_of base) ds" "0 \<le> n"
  shows "n \<le> foldl (\<lambda>n c. n * base + the (digit_val c)) n ds"
  using assms(2,3)
proof (induction ds arbitrary: n)
  case (Cons c ds)
  then obtain d where d: "digit_val c = Some d" "0 \<le> d" using digit_val_bounds by (auto simp: digit_of_def)
  have "n * 1 \<le> n * base" using Cons.prems(2) assms(1) by (intro mult_left_mono) auto
  then have "n \<le> n * base + d" using d by simp
  moreover have "n * base + d \<le> foldl (\<lambda>n c. n * base + the (digit_val c)) (n * base + d) ds"
    using Cons.IH [of "n * base + d"] Cons.prems d assms(1) by simp
  ultimately show ?case by (simp add: d(1))
qed simp

text \<open>The comparison with \<^verbatim>\<open>cutoff\<close> and \<^verbatim>\<open>cutlim\<close> decides exactly whether the next value leaves the range.\<close>

lemma cut_exact:
  fixes q :: int
  assumes "0 < base" "L = q * base + r" "0 \<le> r" "r < base" "0 \<le> d" "d < base"
  shows "n > q \<or> (n = q \<and> d > r) \<longleftrightarrow> n * base + d > L"
proof (cases n q rule: linorder_cases)
  case less
  then have "(n + 1) * base \<le> q * base" using assms(1) by (intro mult_right_mono) auto
  then show ?thesis using assms less by (simp add: algebra_simps)
next
  case greater
  then have "(q + 1) * base \<le> n * base" using assms(1) by (intro mult_right_mono) auto
  then show ?thesis using assms greater by (simp add: algebra_simps)
qed (use assms in auto)

lemma strtoll_loop_eq:
  assumes base: "0 < base" and cut: "cut_ok neg base cutoff cutlim"
  shows "list_all (digit_of base) ds \<Longrightarrow> \<not> digit_of base stop \<Longrightarrow> 0 \<le> n \<Longrightarrow> n \<le> (if neg then 2 ^ 63 else 2 ^ 63 - 1) \<Longrightarrow>
    v = foldl (\<lambda>n c. n * base + the (digit_val c)) n ds \<Longrightarrow>
    \<exists>fin. strtoll_loop (pre @ ds @ stop # post) neg base cutoff cutlim (length pre) (if neg then - n else n) =
      Some (if neg then max LLONG_MIN (- v) else min LLONG_MAX v,
            if v \<le> (if neg then 2 ^ 63 else 2 ^ 63 - 1) then ENONE else ERANGE, fin) \<and>
      (v \<le> (if neg then 2 ^ 63 else 2 ^ 63 - 1) \<longrightarrow> fin = length pre + length ds)"
proof (induction ds arbitrary: pre n)
  case Nil
  then show ?case
    by (subst strtoll_loop.simps)
      (auto simp: rd8_def digit_of_def LLONG_MIN_def LLONG_MAX_def split: option.splits)
next
  case (Cons c ds)
  let ?L = "if neg then 2 ^ 63 else 2 ^ 63 - 1 :: int"
  obtain d where d: "digit_val c = Some d" "0 \<le> d" "d < base" "c \<noteq> 0"
    using Cons.prems(1) digit_val_bounds by (auto simp: digit_of_def)
  have rd: "rd8 (pre @ (c # ds) @ stop # post) (length pre) = Some c" by (simp add: rd8_def)
  have over: "(if neg then - n < cutoff \<or> (- n = cutoff \<and> d > cutlim) else n > cutoff \<or> (n = cutoff \<and> d > cutlim))
      \<longleftrightarrow> n * base + d > ?L"
    using cut cut_exact [OF base _ _ _ d(2,3), of ?L "if neg then - cutoff else cutoff" cutlim n]
    by (auto simp: cut_ok_def split: if_splits)
  have v: "v = foldl (\<lambda>n c. n * base + the (digit_val c)) (n * base + d) ds" using Cons.prems(5) by (simp add: d(1))
  have nb: "0 \<le> n * base + d" using Cons.prems(3) base d(2) by simp
  have vge: "n * base + d \<le> v" using fold_digits_mono [OF base _ nb] Cons.prems(1) v by simp
  show ?case
  proof (cases "n * base + d > ?L")
    case True
    then show ?thesis using over vge rd d
      by (subst strtoll_loop.simps) (auto simp: LLONG_MIN_def LLONG_MAX_def split: if_splits)
  next
    case False
    have step: "strtoll_loop (pre @ (c # ds) @ stop # post) neg base cutoff cutlim (length pre) (if neg then - n else n) =
      strtoll_loop ((pre @ [c]) @ ds @ stop # post) neg base cutoff cutlim (length (pre @ [c]))
        (if neg then - (n * base + d) else n * base + d)"
      using False over rd d by (subst strtoll_loop.simps) (auto split: if_splits)
    have "n * base + d \<le> ?L" using False by simp
    from Cons.IH [OF _ Cons.prems(2) nb this v, of "pre @ [c]"] Cons.prems(1) show ?thesis
      unfolding step by auto
  qed
qed

lemma skip_space_eq:
  "list_all c_isspace ws \<Longrightarrow> \<not> c_isspace c \<Longrightarrow> skip_space (pre @ ws @ c # post) (length pre) = Some (length pre + length ws)"
proof (induction ws arbitrary: pre)
  case Nil
  then show ?case by (subst skip_space.simps) (simp add: rd8_def)
next
  case (Cons w ws)
  then show ?case using Cons.IH [of "pre @ [w]"] by (subst skip_space.simps) (simp add: rd8_def nth_append)
qed

text \<open>The cut-off values the function computes for the bases it is called with.\<close>

lemma cuts:
  assumes "base \<in> {8, 10, 16}"
  shows "cut_ok False base (LLONG_MAX sdiv base) (LLONG_MAX smod base)"
    "cut_ok True base (LLONG_MIN sdiv base) (- (LLONG_MIN smod base))" "\<not> LLONG_MIN smod base > 0"
  using assms(1)
  by (auto simp: cut_ok_def LLONG_MIN_def LLONG_MAX_def signed_divide_int_def signed_modulo_int_def)

lemma digit_of_10: "base \<le> 10 \<Longrightarrow> digit_of base c \<Longrightarrow> c_isdigit c"
  by (auto simp: digit_of_def digit_val_def c_isalpha_def c_isupper_def word_le_def split: if_splits)

lemma digit_not_sign: "c_isdigit c \<Longrightarrow> c \<noteq> 45 \<and> c \<noteq> 43 \<and> \<not> c_isspace c"
  by (auto simp: c_isdigit_def c_isspace_def word_le_def)

text \<open>
  The numbers of the documentation: with the base given as 8, 10 or 16, or as 0 for one that the text announces. \<open>sg\<close> is the
  sign, \<open>p\<close> the prefix \<^verbatim>\<open>0x\<close>, \<open>b\<close> the base of the digits \<open>ds\<close> and \<open>stop\<close> what follows them. Without sign and
  prefix a number must start with a decimal digit: hexadecimal letters come behind one.
\<close>

definition hex_start :: "bytes \<Rightarrow> bool" where
  "hex_start s \<longleftrightarrow> (\<exists>c r. s = 0x30 # c # r \<and> (c = 0x78 \<or> c = 0x58))"

definition number_text :: "int \<Rightarrow> bytes \<Rightarrow> bytes \<Rightarrow> int \<Rightarrow> bytes \<Rightarrow> u8 \<Rightarrow> bool" where
  "number_text base sg p b ds stop \<longleftrightarrow>
     (sg = [] \<or> sg = [0x2B] \<or> sg = [0x2D]) \<and> ds \<noteq> [] \<and> list_all (digit_of b) ds \<and> \<not> digit_of b stop \<and>
     (if p = [] then
        (sg \<noteq> [] \<or> c_isdigit (hd ds)) \<and>
        (if base = 0 then \<not> hex_start (ds @ [stop]) \<and> b = (if hd ds = 0x30 then 8 else 10)
         else if base = 16 then \<not> hex_start (ds @ [stop]) \<and> b = 16
         else b = base \<and> base \<in> {8, 10})
      else (p = [0x30, 0x78] \<or> p = [0x30, 0x58]) \<and> base \<in> {0, 16} \<and> b = 16)"

lemma number_text_base: "number_text base sg p b ds stop \<Longrightarrow> b \<in> {8, 10, 16}"
  by (auto simp: number_text_def split: if_splits)

lemma number_text_prefix:
  assumes "number_text base sg p b ds stop"
  defines "c0 \<equiv> hd (p @ ds)" and "c1 \<equiv> hd (tl (p @ ds @ [stop]))"
  shows "((base = 0 \<or> base = 16) \<and> c0 = 0x30 \<and> (c1 = 0x78 \<or> c1 = 0x58)) = (p \<noteq> [])"
    "(if (if p \<noteq> [] then 16 else base) = 0 then (if hd ds = 0x30 then 8 else 10) else (if p \<noteq> [] then 16 else base)) = b"
    "sg \<noteq> [] \<or> c_isdigit c0"
proof -
  obtain d r where d: "ds = d # r" using assms(1) by (cases ds) (auto simp: number_text_def)
  have tl: "\<exists>u. tl (ds @ [stop]) = c1 # u" if "p = []" using that d unfolding c1_def by (cases r) auto
  have "c_isdigit 0x30" by (simp add: c_isdigit_def)
  then show "((base = 0 \<or> base = 16) \<and> c0 = 0x30 \<and> (c1 = 0x78 \<or> c1 = 0x58)) = (p \<noteq> [])"
    "(if (if p \<noteq> [] then 16 else base) = 0 then (if hd ds = 0x30 then 8 else 10) else (if p \<noteq> [] then 16 else base)) = b"
    "sg \<noteq> [] \<or> c_isdigit c0"
    using assms(1) d tl unfolding c0_def by (auto simp: number_text_def hex_start_def c1_def split: if_splits)
qed

text \<open>What the function does before and behind the loop over the digits.\<close>

lemma strtoll_enters_loop:
  assumes ws: "list_all c_isspace ws" and t: "number_text base sg p b ds stop"
  defines "neg \<equiv> sg = [0x2D]"
  shows "bson_ascii_strtoll (ws @ sg @ p @ ds @ stop # post) base =
    map_option (\<lambda>(number, err, fin). (number, err, if fin > length (ws @ sg @ p) then Some fin else None))
      (strtoll_loop (ws @ sg @ p @ ds @ stop # post) neg b ((if neg then LLONG_MIN else LLONG_MAX) sdiv b)
        (if neg then - (LLONG_MIN smod b) else LLONG_MAX smod b) (length (ws @ sg @ p)) 0)"
proof -
  let ?c0 = "hd (p @ ds)" and ?c1 = "hd (tl (p @ ds @ [stop]))"
  have ds: "ds \<noteq> []" and sg: "sg = [] \<or> sg = [0x2B] \<or> sg = [0x2D]" using t by (simp_all add: number_text_def)
  note pre = number_text_prefix [OF t]
  obtain x xs where x: "sg @ p @ ds @ stop # post = x # xs" "\<not> c_isspace x" "x \<noteq> 45 \<and> x \<noteq> 43 \<longrightarrow> c_isdigit x" "x = 45 \<longleftrightarrow> neg"
      "x = 45 \<or> x = 43 \<longleftrightarrow> sg \<noteq> []"
  proof (cases sg)
    case Nil
    obtain xs where xs: "p @ ds @ stop # post = ?c0 # xs" using ds by (cases p; cases ds) auto
    show ?thesis by (rule that [of ?c0 xs]) (use Nil xs pre(3) digit_not_sign [of ?c0] in \<open>auto simp: neg_def\<close>)
  next
    case (Cons c r)
    then show ?thesis by (intro that [of c "p @ ds @ stop # post"]) (use sg in \<open>auto simp: neg_def c_isspace_def\<close>)
  qed
  define m where "m = ws @ sg @ p @ ds @ stop # post"
  define k where "k = length ws + length sg"
  have sk: "skip_space m 0 = Some (length ws)"
    using skip_space_eq [OF ws x(2), of "[]" xs] by (simp add: x(1) m_def)
  have r1: "rd8 m (length ws) = Some x" unfolding m_def x(1) by (simp add: rd8_def)
  have tail: "drop k m = p @ ds @ stop # post" by (simp add: m_def k_def)
  then have rd: "rd8 m (k + i) = Some ((p @ ds @ stop # post) ! i)" if "i < length (p @ ds @ stop # post)" for i
  proof -
    have "length m = k + length (p @ ds @ stop # post)" by (simp add: m_def k_def)
    then show ?thesis using that nth_drop [of k m i] tail by (simp add: rd8_def)
  qed
  have r2: "rd8 m k = Some ?c0" using rd [of 0] ds by (cases p; cases ds) auto
  have r3: "rd8 m (k + 1) = Some ?c1"
    using rd [of 1] ds by (cases p; cases ds; cases "tl p"; cases "tl ds") (auto simp: nth_append)
  have r4: "rd8 m (k + length p) = Some (hd ds)" using rd [of "length p"] ds by (cases ds) (auto simp: nth_append)
  have tok: "(if x = 45 \<or> x = 43 then length ws + 1 else length ws) = k" using sg x(5) by (auto simp: k_def)
  have hex: "(if (base = 0 \<or> base = 16) \<and> ?c0 = 48 then map_option (\<lambda>x. x = 0x78 \<or> x = 0x58) (rd8 m (k + 1)) else Some False) = Some (p \<noteq> [])"
    using pre(1) unfolding r3 by auto
  have "length p = 2" if "p \<noteq> []" using t that by (auto simp: number_text_def)
  then have tok2: "(if p \<noteq> [] then k + 2 else k) = k + length p" by auto
  have nb: "(if neg \<and> LLONG_MIN smod b > 0 then LLONG_MIN smod b - b else LLONG_MIN smod b) = LLONG_MIN smod b"
    using cuts(3) [OF number_text_base [OF t]] by simp
  have x3: "\<not> (x \<noteq> 45 \<and> x \<noteq> 43 \<and> \<not> c_isdigit x)" using x(3) by blast
  have "bson_ascii_strtoll m base =
      strtoll_loop m neg b ((if neg then LLONG_MIN else LLONG_MAX) sdiv b)
        (if neg then - (LLONG_MIN smod b) else LLONG_MAX smod b) (k + length p) 0 \<bind>
      (\<lambda>(number, err, fin). Some (number, err, if fin > k + length p then Some fin else None))"
    unfolding bson_ascii_strtoll_def sk Option.bind.bind_lunit r1 if_not_P [OF x3] Let_def tok r2
    unfolding Option.bind.bind_lunit hex tok2 r4 pre(2) x(4)
    using cuts(3) [OF number_text_base [OF t]] by (cases neg) simp_all
  moreover have "k + length p = length (ws @ sg @ p)" by (simp add: k_def)
  moreover have "q \<bind> (\<lambda>(number, err, fin). Some (number, err, g fin)) = map_option (\<lambda>(number, err, fin). (number, err, g fin)) q"
    for q :: "(int \<times> strtoll_errno \<times> nat) option" and g :: "nat \<Rightarrow> nat option" by (cases q) auto
  ultimately show ?thesis unfolding m_def by (simp only:)
qed

lemma strtoll_value:
  assumes "list_all c_isspace ws" "number_text base sg p b ds stop"
  defines "v \<equiv> (if sg = [0x2D] then - digits_num b ds else digits_num b ds)"
  shows "\<exists>fin. bson_ascii_strtoll (ws @ sg @ p @ ds @ stop # post) base =
      Some (max LLONG_MIN (min LLONG_MAX v), if LLONG_MIN \<le> v \<and> v \<le> LLONG_MAX then ENONE else ERANGE, fin) \<and>
      (LLONG_MIN \<le> v \<and> v \<le> LLONG_MAX \<longrightarrow> fin = Some (length ws + length sg + length p + length ds))"
proof -
  let ?neg = "sg = [0x2D]" and ?pre = "ws @ sg @ p"
  let ?lim = "if ?neg then 2 ^ 63 else 2 ^ 63 - 1 :: int"
  have ds: "ds \<noteq> []" "list_all (digit_of b) ds" "\<not> digit_of b stop" using assms(2) by (simp_all add: number_text_def)
  note c = cuts [OF number_text_base [OF assms(2)]]
  have b: "0 < b" using number_text_base [OF assms(2)] by auto
  have v0: "0 \<le> digits_num b ds" using fold_digits_mono [OF b ds(2), of 0] by (simp add: digits_num_def)
  obtain fin where fin: "strtoll_loop (?pre @ ds @ stop # post) ?neg b ((if ?neg then LLONG_MIN else LLONG_MAX) sdiv b)
        (if ?neg then - (LLONG_MIN smod b) else LLONG_MAX smod b) (length ?pre) 0 =
      Some (if ?neg then max LLONG_MIN (- digits_num b ds) else min LLONG_MAX (digits_num b ds),
            if digits_num b ds \<le> ?lim then ENONE else ERANGE, fin)"
      "digits_num b ds \<le> ?lim \<Longrightarrow> fin = length ?pre + length ds"
    using strtoll_loop_eq [OF b, of ?neg _ _ ds stop 0 "digits_num b ds" ?pre post] c ds
    by (cases ?neg) (auto simp: digits_num_def)
  have "bson_ascii_strtoll (ws @ sg @ p @ ds @ stop # post) base =
      Some (if ?neg then max LLONG_MIN (- digits_num b ds) else min LLONG_MAX (digits_num b ds),
            if digits_num b ds \<le> ?lim then ENONE else ERANGE, if fin > length ?pre then Some fin else None)"
    using fin(1) unfolding strtoll_enters_loop [OF assms(1,2)] append_assoc by simp
  then show ?thesis using fin(2) v0 ds(1) by (auto simp: v_def LLONG_MIN_def LLONG_MAX_def)
qed

text \<open>A hexadecimal number without sign and prefix that starts with a letter is refused, also with base 16.\<close>

lemma strtoll_letter_first:
  assumes "list_all c_isspace ws" "c_isalpha c"
  shows "bson_ascii_strtoll (ws @ c # post) base = Some (0, EINVAL, None)"
proof -
  have c: "\<not> c_isspace c" "c \<noteq> 45 \<and> c \<noteq> 43 \<and> \<not> c_isdigit c"
    using assms(2) by (auto simp: c_isalpha_def c_isupper_def c_isspace_def c_isdigit_def word_le_def)
  have "skip_space (ws @ c # post) 0 = Some (length ws)" using skip_space_eq [OF assms(1) c(1), of "[]" post] by simp
  moreover have "rd8 (ws @ c # post) (length ws) = Some c" by (simp add: rd8_def)
  ultimately show ?thesis using c(2) by (simp add: bson_ascii_strtoll_def)
qed

text \<open>
  C25. For leading white space, an optional sign and a number in one of the documented bases (8, 10 or 16, with or without
  the prefix \<^verbatim>\<open>0x\<close>, or base 0, which infers them from the text; without sign and prefix the first character must be
  a decimal digit), \<^verbatim>\<open>bson_ascii_strtoll\<close> returns the number when it fits 64 bits (and points behind the last digit),
  and otherwise the nearer limit with \<^verbatim>\<open>ERANGE\<close>; its multiplications never overflow. A text that starts with a letter
  gives 0 and \<^verbatim>\<open>EINVAL\<close> in every base, 16 included.
\<close>

theorem strtoll_exact_or_range:
  assumes "list_all c_isspace ws" "number_text base sg p b ds stop"
  defines "v \<equiv> (if sg = [0x2D] then - digits_num b ds else digits_num b ds)"
  shows "(\<exists>fin. bson_ascii_strtoll (ws @ sg @ p @ ds @ stop # post) base =
      Some (max LLONG_MIN (min LLONG_MAX v), if LLONG_MIN \<le> v \<and> v \<le> LLONG_MAX then ENONE else ERANGE, fin) \<and>
      (LLONG_MIN \<le> v \<and> v \<le> LLONG_MAX \<longrightarrow> fin = Some (length ws + length sg + length p + length ds))) \<and>
    (\<forall>base c post. c_isalpha c \<longrightarrow> bson_ascii_strtoll (ws @ c # post) base = Some (0, EINVAL, None))"
  using strtoll_value [OF assms(1,2)] strtoll_letter_first [OF assms(1)] unfolding v_def by blast

lemma strtoll_exact_or_range_witness:
  "bson_ascii_strtoll [32, 45, 49, 50, 0] 10 = Some (-12, ENONE, Some 4) \<and>
   bson_ascii_strtoll [32, 48, 120, 102, 49, 0] 0 = Some (241, ENONE, Some 5) \<and>
   bson_ascii_strtoll [32, 102, 49, 0] 16 = Some (0, EINVAL, None)"
proof -
  have d: "digit_val 49 = Some 1" "digit_val 50 = Some 2" "digit_val 102 = Some 15" "digit_val 0 = None"
    by (simp_all add: digit_val_def c_isdigit_def c_isalpha_def c_isupper_def)
  have n: "number_text 10 [45] [] 10 [49, 50] 0" "number_text 0 [] [48, 120] 16 [102, 49] 0"
    by (simp_all add: number_text_def digit_of_def d)
  have v: "digits_num 10 [49, 50] = 12" "digits_num 16 [102, 49] = 241" by (simp_all add: digits_num_def d)
  have w: "list_all c_isspace [32]" by (simp add: c_isspace_def)
  have a: "c_isalpha 102" by (simp add: c_isalpha_def)
  show ?thesis
    using strtoll_exact_or_range [OF w n(1), of "[]"] strtoll_exact_or_range [OF w n(2), of "[]"] a
    by (simp add: v LLONG_MIN_def LLONG_MAX_def)
qed

end
