(* ===== verification/Bson_Doc.thy ===== *)
theory Bson_Doc
  imports Bson_Types Bson_String
begin

text \<open>
  The document object of \<^verbatim>\<open>src/bson/bson.c\<close>: the \<^verbatim>\<open>bson_t\<close> structure with its two layouts
  (\<^verbatim>\<open>bson_impl_inline_t\<close> and \<^verbatim>\<open>bson_impl_alloc_t\<close> of bson-private.h), the growth functions and the
  append primitive that every \<^verbatim>\<open>bson_append_*\<close> function calls.

  A store maps addresses to \<^verbatim>\<open>bson_t\<close> structures. The pair of pointers \<^verbatim>\<open>buf\<close>, \<^verbatim>\<open>buflen\<close> of the
  allocated layout is a reference to a cell: \<open>Own a\<close> is the pair of fields \<^verbatim>\<open>alloc\<close>, \<^verbatim>\<open>alloclen\<close> of the
  structure at \<open>a\<close>, \<open>Ext i\<close> a variable of the caller (\<^verbatim>\<open>bson_new_from_buffer\<close>, the writer). A cell
  holds the block it points to, whose length is \<^verbatim>\<open>*buflen\<close>. A child made by
  \<^verbatim>\<open>bson_append_document_begin\<close> shares the cell of its parent. The \<^verbatim>\<open>realloc\<close> callback is a flag (it
  is \<^verbatim>\<open>NULL\<close> for read-only documents) and behaves like \<^verbatim>\<open>realloc\<close>; it does not fail.
\<close>

subsection \<open>The store\<close>

type_synonym addr = nat

datatype bufref = Own addr | Ext nat

datatype bson_flag =
    BSON_FLAG_INLINE | BSON_FLAG_STATIC | BSON_FLAG_RDONLY
  | BSON_FLAG_CHILD | BSON_FLAG_IN_CHILD | BSON_FLAG_NO_FREE

record bson_t =
  b_flags :: "bson_flag set"
  b_len :: nat
  b_data :: bytes
  b_parent :: "addr option"
  b_depth :: nat
  b_buf :: bufref
  b_offset :: nat
  b_realloc :: bool

record heap =
  h_docs :: "addr \<Rightarrow> bson_t option"
  h_cells :: "bufref \<Rightarrow> bytes option"
  h_junk :: "nat \<Rightarrow> u8"

abbreviation is_inline :: "bson_t \<Rightarrow> bool" where
  "is_inline d \<equiv> BSON_FLAG_INLINE \<in> b_flags d"

definition set_doc :: "heap \<Rightarrow> addr \<Rightarrow> bson_t \<Rightarrow> heap" where
  "set_doc H a d = H\<lparr>h_docs := (h_docs H)(a := Some d)\<rparr>"

definition set_cell :: "heap \<Rightarrow> bufref \<Rightarrow> bytes \<Rightarrow> heap" where
  "set_cell H b mem = H\<lparr>h_cells := (h_cells H)(b := Some mem)\<rparr>"

lemma set_doc_simps [simp]:
  "h_docs (set_doc H a d) = (h_docs H)(a := Some d)"
  "h_cells (set_doc H a d) = h_cells H" "h_junk (set_doc H a d) = h_junk H"
  by (simp_all add: set_doc_def)

lemma set_cell_simps [simp]:
  "h_docs (set_cell H b mem) = h_docs H"
  "h_cells (set_cell H b mem) = (h_cells H)(b := Some mem)" "h_junk (set_cell H b mem) = h_junk H"
  by (simp_all add: set_cell_def)

subsection \<open>Growing\<close>

definition bson_impl_inline_grow :: "heap \<Rightarrow> addr \<Rightarrow> bson_t \<Rightarrow> nat \<Rightarrow> (bool \<times> heap) option" where
  "bson_impl_inline_grow H a d n =
     (if b_len d + n \<le> BSON_INLINE_DATA_SIZE then Some (True, H)
      else (let req = next_pow2 (b_len d + n)
            in if req \<le> INT_MAX then do {
                 old \<leftarrow> mem_read (b_data d) 0 (b_len d);
                 data \<leftarrow> mem_write (bson_malloc (h_junk H) req) 0 old;
                 Some (True, set_cell (set_doc H a
                   (d\<lparr>b_flags := b_flags d - {BSON_FLAG_INLINE}, b_parent := None, b_depth := 0,
                      b_buf := Own a, b_offset := 0, b_realloc := True\<rparr>)) (Own a) data) }
               else Some (False, H)))"

definition bson_impl_alloc_grow :: "heap \<Rightarrow> bson_t \<Rightarrow> nat \<Rightarrow> (bool \<times> heap) option" where
  "bson_impl_alloc_grow H d n = do {
     mem \<leftarrow> h_cells H (b_buf d);
     let req = b_offset d + b_len d + n + b_depth d;
     (if req \<le> length mem then Some (True, H)
      else (let req = next_pow2 req
            in if req \<le> INT_MAX \<and> b_realloc d
               then Some (True, set_cell H (b_buf d) (bson_realloc (h_junk H) mem req))
               else Some (False, H))) }"

definition bson_grow :: "heap \<Rightarrow> addr \<Rightarrow> nat \<Rightarrow> (bool \<times> heap) option" where
  "bson_grow H a n = do {
     d \<leftarrow> h_docs H a;
     (if is_inline d then bson_impl_inline_grow H a d n else bson_impl_alloc_grow H d n) }"

subsection \<open>The bytes of a document\<close>

text \<open>\<^verbatim>\<open>_bson_data\<close>: the block that holds the document, and the place of its first byte in it.\<close>

definition doc_mem :: "heap \<Rightarrow> bson_t \<Rightarrow> bytes option" where
  "doc_mem H d = (if is_inline d then Some (b_data d) else h_cells H (b_buf d))"

definition doc_off :: "bson_t \<Rightarrow> nat" where
  "doc_off d = (if is_inline d then 0 else b_offset d)"

definition bson_data_read :: "heap \<Rightarrow> addr \<Rightarrow> nat \<Rightarrow> nat \<Rightarrow> bytes option" where
  "bson_data_read H a i n = do {
     d \<leftarrow> h_docs H a;
     mem \<leftarrow> doc_mem H d;
     mem_read mem (doc_off d + i) n }"

definition bson_data_write :: "heap \<Rightarrow> addr \<Rightarrow> nat \<Rightarrow> bytes \<Rightarrow> heap option" where
  "bson_data_write H a i xs = do {
     d \<leftarrow> h_docs H a;
     mem \<leftarrow> doc_mem H d;
     mem' \<leftarrow> mem_write mem (doc_off d + i) xs;
     Some (if is_inline d then set_doc H a (d\<lparr>b_data := mem'\<rparr>) else set_cell H (b_buf d) mem') }"

text \<open>The \<^verbatim>\<open>len\<close> bytes behind \<^verbatim>\<open>bson_get_data\<close>.\<close>

definition bson_get_data :: "heap \<Rightarrow> addr \<Rightarrow> bytes option" where
  "bson_get_data H a = do { d \<leftarrow> h_docs H a; bson_data_read H a 0 (b_len d) }"

definition bson_encode_length :: "heap \<Rightarrow> addr \<Rightarrow> heap option" where
  "bson_encode_length H a = do {
     d \<leftarrow> h_docs H a;
     bson_data_write H a 0 (le_bytes 4 (b_len d)) }"

definition bson_add_len :: "heap \<Rightarrow> addr \<Rightarrow> nat \<Rightarrow> heap option" where
  "bson_add_len H a n = do { d \<leftarrow> h_docs H a; Some (set_doc H a (d\<lparr>b_len := add32 (b_len d) n\<rparr>)) }"

subsection \<open>The append primitive\<close>

text \<open>
  The pairs of lengths and buffers are the list of the byte strings to copy. \<open>pos\<close> is the cursor
  \<^verbatim>\<open>buf\<close>, relative to the first byte of the document; a document of length 0 (one whose contents
  were stolen) would put it in front of the block.
\<close>

fun append_loop :: "heap \<Rightarrow> addr \<Rightarrow> nat \<Rightarrow> bytes list \<Rightarrow> (nat \<times> heap) option" where
  "append_loop H a pos [] = Some (pos, H)"
| "append_loop H a pos (x # xs) = do {
     H1 \<leftarrow> bson_data_write H a pos x;
     H2 \<leftarrow> bson_add_len H1 a (length x);
     append_loop H2 a (pos + length x) xs }"

definition bson_append_va :: "heap \<Rightarrow> addr \<Rightarrow> nat \<Rightarrow> bytes list \<Rightarrow> (bool \<times> heap) option" where
  "bson_append_va H a n_bytes pairs = do {
     d \<leftarrow> h_docs H a;
     (if BSON_FLAG_IN_CHILD \<in> b_flags d \<or> BSON_FLAG_RDONLY \<in> b_flags d then None
      else do {
        (ok, H1) \<leftarrow> bson_grow H a n_bytes;
        (if \<not> ok then Some (False, H1)
         else do {
           d1 \<leftarrow> h_docs H1 a;
           (if b_len d1 = 0 then None
            else do {
              (pos, H2) \<leftarrow> append_loop H1 a (b_len d1 - 1) pairs;
              H3 \<leftarrow> bson_encode_length H2 a;
              H4 \<leftarrow> bson_data_write H3 a pos [0];
              Some (True, H4) }) }) }) }"

definition bson_append_pairs :: "heap \<Rightarrow> addr \<Rightarrow> nat \<Rightarrow> bytes list \<Rightarrow> (bool \<times> heap) option" where
  "bson_append_pairs H a n_bytes pairs = do {
     d \<leftarrow> h_docs H a;
     (if pairs = [] \<or> hd pairs = [] then None
      else if n_bytes > (BSON_MAX_SIZE + 2 ^ 64 - b_len d) mod 2 ^ 64 then Some (False, H)
      else bson_append_va H a n_bytes pairs) }"

subsection \<open>What a document holds\<close>

text \<open>
  \<open>holds H a xs\<close>: the structure at \<open>a\<close> is a document whose \<^verbatim>\<open>len\<close> bytes are \<open>xs\<close>; the block has room
  for them and for the terminators the enclosing documents still need (\<^verbatim>\<open>depth\<close> bytes). The inline
  layout has its 120 bytes.
\<close>

definition holds :: "heap \<Rightarrow> addr \<Rightarrow> bytes \<Rightarrow> bool" where
  "holds H a xs \<longleftrightarrow> (\<exists>d mem. h_docs H a = Some d \<and> doc_mem H d = Some mem \<and> b_len d = length xs \<and>
     take (length xs) (drop (doc_off d) mem) = xs \<and>
     (is_inline d \<longrightarrow> length mem = BSON_INLINE_DATA_SIZE \<and> b_depth d = 0) \<and>
     doc_off d + length xs + b_depth d \<le> length mem)"

definition writable :: "heap \<Rightarrow> addr \<Rightarrow> bool" where
  "writable H a \<longleftrightarrow> (\<exists>d. h_docs H a = Some d \<and> BSON_FLAG_IN_CHILD \<notin> b_flags d \<and> BSON_FLAG_RDONLY \<notin> b_flags d)"

text \<open>
  \<open>doc_fits H a n\<close>: \<open>n\<close> more bytes are within the limits of the growth functions. A block is never
  grown beyond \<open>2 ^ 30\<close>, the greatest power of two below \<^verbatim>\<open>INT32_MAX\<close>.
\<close>

definition doc_fits :: "heap \<Rightarrow> addr \<Rightarrow> nat \<Rightarrow> bool" where
  "doc_fits H a n \<longleftrightarrow> (\<exists>d mem. h_docs H a = Some d \<and> doc_mem H d = Some mem \<and> b_len d + n \<le> BSON_MAX_SIZE \<and>
     (if is_inline d then b_len d + n \<le> 2 ^ 30
      else (let req = b_offset d + b_len d + n + b_depth d in req \<le> length mem \<or> (b_realloc d \<and> req \<le> 2 ^ 30))))"

text \<open>
  \<open>frame A H a H'\<close>: from \<open>H\<close> to \<open>H'\<close> only structures of \<open>A\<close> changed, only the block of the document
  at \<open>a\<close> changed, and in it nothing before the document; the document stays where it is, unless it was
  inline and moved to a block of its own.
\<close>

definition same_place :: "bson_t \<Rightarrow> bson_t \<Rightarrow> bool" where
  "same_place d d' \<longleftrightarrow> b_flags d' - {BSON_FLAG_INLINE} = b_flags d - {BSON_FLAG_INLINE} \<and>
     (is_inline d' \<longrightarrow> is_inline d) \<and>
     (\<not> is_inline d \<longrightarrow> b_parent d' = b_parent d \<and> b_depth d' = b_depth d \<and> b_buf d' = b_buf d \<and>
        b_offset d' = b_offset d \<and> b_realloc d' = b_realloc d)"

definition frame :: "addr set \<Rightarrow> heap \<Rightarrow> addr \<Rightarrow> heap \<Rightarrow> bool" where
  "frame A H a H' \<longleftrightarrow> (\<forall>x. x \<notin> A \<longrightarrow> h_docs H' x = h_docs H x) \<and>
     (\<exists>d d'. h_docs H a = Some d \<and> h_docs H' a = Some d' \<and> same_place d d' \<and>
        (is_inline d \<and> \<not> is_inline d' \<longrightarrow> b_buf d' = Own a \<and> b_offset d' = 0 \<and> b_depth d' = 0 \<and> b_realloc d') \<and>
        (\<forall>b. is_inline d' \<or> b \<noteq> b_buf d' \<longrightarrow> h_cells H' b = h_cells H b) \<and>
        (\<not> is_inline d \<longrightarrow> (\<exists>m m'. h_cells H (b_buf d) = Some m \<and> h_cells H' (b_buf d) = Some m' \<and>
           length m \<le> length m' \<and> take (b_offset d) m' = take (b_offset d) m)))"

subsection \<open>The primitive steps on a document and its block\<close>

definition upd :: "heap \<Rightarrow> addr \<Rightarrow> bson_t \<Rightarrow> bytes \<Rightarrow> heap" where
  "upd H a d mem =
     (if is_inline d then set_doc H a (d\<lparr>b_data := mem\<rparr>) else set_cell (set_doc H a d) (b_buf d) mem)"

definition patch :: "bytes \<Rightarrow> nat \<Rightarrow> bytes \<Rightarrow> bytes" where
  "patch mem i xs = take i mem @ xs @ drop (i + length xs) mem"

lemma mem_write_patch: "i + length xs \<le> length mem \<Longrightarrow> mem_write mem i xs = Some (patch mem i xs)"
  by (simp add: mem_write_def patch_def)

lemma length_patch [simp]: "i + length xs \<le> length mem \<Longrightarrow> length (patch mem i xs) = length mem"
  by (simp add: patch_def)

lemma patch_patch:
  "i + length xs + length ys \<le> length mem \<Longrightarrow> patch (patch mem i xs) (i + length xs) ys = patch mem i (xs @ ys)"
  by (simp add: patch_def ac_simps)

lemma patch_Nil [simp]: "patch mem i [] = mem"
  by (simp add: patch_def)

lemma take_patch: "j \<le> i \<Longrightarrow> i \<le> length mem \<Longrightarrow> take j (patch mem i xs) = take j mem"
  by (simp add: patch_def min_absorb1)

lemma upd_same: "h_docs H a = Some d \<Longrightarrow> doc_mem H d = Some mem \<Longrightarrow> upd H a d mem = H"
  by (cases H) (auto simp: upd_def doc_mem_def set_doc_def set_cell_def fun_upd_idem split: if_splits)

lemma upd_docs: "h_docs (upd H a d mem) = (h_docs H)(a := Some (if is_inline d then d\<lparr>b_data := mem\<rparr> else d))"
  by (simp add: upd_def)

lemma upd_mem [simp]: "doc_mem (upd H a d mem) (if is_inline d then d\<lparr>b_data := mem\<rparr> else d) = Some mem"
  "\<not> is_inline d \<Longrightarrow> doc_mem (upd H a d mem) d = Some mem"
  by (simp_all add: upd_def doc_mem_def)

lemma upd_write [simp]:
  "bson_data_write (upd H a d mem) a i xs = map_option (upd H a d) (mem_write mem (doc_off d + i) xs)"
  by (cases "mem_write mem (doc_off d + i) xs")
    (auto simp: bson_data_write_def upd_def doc_mem_def doc_off_def set_doc_def set_cell_def)

lemma upd_add_len [simp]:
  "bson_add_len (upd H a d mem) a n = Some (upd H a (d\<lparr>b_len := add32 (b_len d) n\<rparr>) mem)"
  by (cases d) (auto simp: bson_add_len_def upd_def set_doc_def set_cell_def)

lemma upd_encode_length [simp]:
  "bson_encode_length (upd H a d mem) a = map_option (upd H a d) (mem_write mem (doc_off d) (le_bytes 4 (b_len d)))"
  using upd_write [of H a d mem 0 "le_bytes 4 (b_len d)"] by (simp add: bson_encode_length_def upd_docs)

lemma doc_off_len [simp]: "doc_off (d\<lparr>b_len := n\<rparr>) = doc_off d"
  by (simp add: doc_off_def)

lemma append_loop_upd:
  "doc_off d + pos + length (concat pairs) \<le> length mem \<Longrightarrow> b_len d + length (concat pairs) < 2 ^ 32 \<Longrightarrow>
   append_loop (upd H a d mem) a pos pairs =
     Some (pos + length (concat pairs),
       upd H a (d\<lparr>b_len := b_len d + length (concat pairs)\<rparr>) (patch mem (doc_off d + pos) (concat pairs)))"
proof (induction pairs arbitrary: d mem pos)
  case Nil
  then show ?case by simp
next
  case (Cons x xs)
  let ?d = "d\<lparr>b_len := b_len d + length x\<rparr>" and ?m = "patch mem (doc_off d + pos) x"
  have w: "mem_write mem (doc_off d + pos) x = Some ?m" using Cons.prems(1) by (simp add: mem_write_patch)
  have l: "add32 (b_len d) (length x) = b_len d + length x" using Cons.prems(2) by simp
  have "append_loop (upd H a ?d ?m) a (pos + length x) xs =
      Some (pos + length x + length (concat xs),
        upd H a (?d\<lparr>b_len := b_len ?d + length (concat xs)\<rparr>) (patch ?m (doc_off ?d + (pos + length x)) (concat xs)))"
    using Cons.prems by (intro Cons.IH) (simp_all add: add.assoc)
  moreover have "patch ?m (doc_off d + pos + length x) (concat xs) = patch mem (doc_off d + pos) (x @ concat xs)"
    using Cons.prems(1) by (intro patch_patch) (simp add: add.assoc)
  ultimately show ?case by (simp add: w l add.assoc)
qed

text \<open>Growth: enough room, the old bytes where they were, or a refusal that leaves the store alone.\<close>

lemma holdsE:
  assumes "holds H a xs"
  obtains d mem where "h_docs H a = Some d" "doc_mem H d = Some mem" "b_len d = length xs"
    "take (length xs) (drop (doc_off d) mem) = xs"
    "is_inline d \<longrightarrow> length mem = BSON_INLINE_DATA_SIZE \<and> b_depth d = 0"
    "doc_off d + length xs + b_depth d \<le> length mem"
  using assms unfolding holds_def by blast

lemma grow_ok:
  assumes d: "h_docs H a = Some d" and mem: "doc_mem H d = Some mem"
    and inl: "is_inline d \<longrightarrow> length mem = BSON_INLINE_DATA_SIZE"
    and room: "doc_off d + b_len d + b_depth d \<le> length mem" and pos: "0 < b_len d" and fits: "doc_fits H a n"
  obtains d' mem' where "bson_grow H a n = Some (True, upd H a d' mem')"
    "same_place d d'" "b_len d' = b_len d" "length mem \<le> length mem'"
    "is_inline d \<and> \<not> is_inline d' \<Longrightarrow> b_buf d' = Own a \<and> b_offset d' = 0 \<and> b_depth d' = 0 \<and> b_realloc d'"
    "doc_off d' = doc_off d" "doc_off d' + b_len d + n + (if is_inline d then 0 else b_depth d') \<le> length mem'"
    "take (doc_off d + b_len d) mem' = take (doc_off d + b_len d) mem"
    "is_inline d' \<Longrightarrow> length mem' = BSON_INLINE_DATA_SIZE \<and> b_depth d' = b_depth d"
    "length mem < doc_off d + b_len d + n + (if is_inline d then 0 else b_depth d) \<Longrightarrow>
      length mem' = next_pow2 (doc_off d + b_len d + n + (if is_inline d then 0 else b_depth d))"
proof (cases "is_inline d")
  case True
  have mem': "mem = b_data d" "length mem = 120" "doc_off d = 0" using True mem inl by (simp_all add: doc_mem_def doc_off_def)
  show ?thesis
  proof (cases "b_len d + n \<le> 120")
    case small: True
    show ?thesis
      by (rule that [of d mem])
        (use True small mem' d upd_same [OF d mem] in \<open>simp_all add: bson_grow_def bson_impl_inline_grow_def same_place_def\<close>)
  next
    case False
    have req: "0 < b_len d + n" "b_len d + n \<le> 2 ^ 30" using fits True pos d mem by (auto simp: doc_fits_def)
    let ?r = "next_pow2 (b_len d + n)"
    have r: "b_len d + n \<le> ?r" "?r \<le> INT_MAX" using req next_pow2_ge [of "b_len d + n"] next_pow2_int_max [of "b_len d + n"] by simp_all
    let ?d = "d\<lparr>b_flags := b_flags d - {BSON_FLAG_INLINE}, b_parent := None, b_depth := 0, b_buf := Own a, b_offset := 0, b_realloc := True\<rparr>"
    let ?m = "patch (bson_malloc (h_junk H) ?r) 0 (take (b_len d) mem)"
    have "mem_read (b_data d) 0 (b_len d) = Some (take (b_len d) mem)" using room mem' by (simp add: mem_read_def)
    moreover have "mem_write (bson_malloc (h_junk H) ?r) 0 (take (b_len d) mem) = Some ?m"
      using r by (intro mem_write_patch) simp
    ultimately have g: "bson_grow H a n = Some (True, upd H a ?d ?m)"
      using True d False r by (simp add: bson_grow_def bson_impl_inline_grow_def upd_def)
    have lm: "length ?m = ?r" using r by simp
    show ?thesis
      by (rule that [OF g])
        (use True mem' r lm room False in \<open>auto simp: same_place_def doc_off_def patch_def min_absorb1 min_absorb2\<close>)
  qed
next
  case False
  have c: "h_cells H (b_buf d) = Some mem" using False mem by (simp add: doc_mem_def)
  let ?req = "b_offset d + b_len d + n + b_depth d"
  show ?thesis
  proof (cases "?req \<le> length mem")
    case True
    show ?thesis
      by (rule that [of d mem])
        (use True False c d upd_same [OF d mem] in \<open>simp_all add: bson_grow_def bson_impl_alloc_grow_def same_place_def doc_off_def\<close>)
  next
    case big: False
    have req: "0 < ?req" "?req \<le> 2 ^ 30" "b_realloc d" using fits False big pos d mem by (auto simp: doc_fits_def Let_def)
    let ?r = "next_pow2 ?req"
    have r: "?req \<le> ?r" "?r \<le> INT_MAX" using req next_pow2_ge [of ?req] next_pow2_int_max [of ?req] by simp_all
    let ?m = "bson_realloc (h_junk H) mem ?r"
    have g: "bson_grow H a n = Some (True, upd H a d ?m)"
      using False c d big req r by (simp add: bson_grow_def bson_impl_alloc_grow_def upd_def Let_def)
        (cases H, simp add: set_cell_def set_doc_def fun_upd_idem)
    show ?thesis
      by (rule that [OF g])
        (use False r room big in \<open>auto simp: same_place_def doc_off_def intro!: take_realloc\<close>)
  qed
qed

subsection \<open>Appending\<close>

text \<open>
  What an append makes of the bytes of a document: the terminator is replaced by the new bytes and a
  new terminator, and the first four bytes are the new length.
\<close>

definition set_len :: "bytes \<Rightarrow> bytes" where
  "set_len ys = le_bytes 4 (length ys) @ drop 4 ys"

definition append_bytes :: "bytes \<Rightarrow> bytes \<Rightarrow> bytes" where
  "append_bytes xs ys = set_len (butlast xs @ ys @ [0])"

lemma length_set_len [simp]: "4 \<le> length ys \<Longrightarrow> length (set_len ys) = length ys"
  by (simp add: set_len_def)

lemma length_append_bytes [simp]: "5 \<le> length xs \<Longrightarrow> length (append_bytes xs ys) = length xs + length ys"
  by (simp add: append_bytes_def)

text \<open>The writes of \<^verbatim>\<open>_bson_append_va\<close> on the block, read back.\<close>

lemma patched_append:
  assumes len: "5 \<le> length xs" and xs: "take (length xs) (drop off mem) = xs"
    and room: "off + length xs + length ys \<le> length mem"
  shows "take (length xs + length ys) (drop off
      (patch (patch (patch mem (off + (length xs - 1)) ys) off (le_bytes 4 (length xs + length ys)))
        (off + (length xs - 1) + length ys) [0])) = append_bytes xs ys"
proof -
  obtain pre post where mem: "mem = pre @ xs @ post" "length pre = off"
    using take_drop_split [of off "length xs" mem] room xs by (metis add_leD1 length_take min_absorb2)
  obtain a b where ab: "xs = a @ b" "length a = 4" using len by (metis append_take_drop_id length_take min_absorb2 numeral_le_iff order_trans semiring_norm(68,71,72))
  have "b \<noteq> []" using ab len by auto
  then obtain c z where b: "b = c @ [z]" by (metis append_butlast_last_id)
  have l: "length ys \<le> length post" using room mem by simp
  have "patch mem (off + (length xs - 1)) ys = pre @ a @ c @ ys @ drop (length ys) (z # post)"
    using mem ab b by (simp add: patch_def)
  moreover have "drop (length ys) (z # post) = (z # post) ! length ys # drop (Suc (length ys)) (z # post)"
    using l by (intro Cons_nth_drop_Suc [symmetric]) simp
  ultimately show ?thesis using mem ab b
    by (simp add: patch_def append_bytes_def set_len_def butlast_append add.assoc)
qed

lemma upd_frame:
  assumes d: "h_docs H a = Some d" "doc_mem H d = Some mem"
    and place: "same_place d d'" and len: "length mem \<le> length mem'"
    and moved: "is_inline d \<and> \<not> is_inline d' \<Longrightarrow> b_buf d' = Own a \<and> b_offset d' = 0 \<and> b_depth d' = 0 \<and> b_realloc d'"
    and pre: "take (doc_off d) mem' = take (doc_off d) mem"
  shows "frame {a} H a (upd H a d' mem')"
proof -
  let ?d = "if is_inline d' then d'\<lparr>b_data := mem'\<rparr> else d'"
  have sp: "same_place d ?d" using place by (auto simp: same_place_def)
  show ?thesis
    unfolding frame_def
    apply (intro conjI)
     apply (simp add: upd_docs)
    apply (rule exI [of _ d], rule exI [of _ ?d])
    using d sp place len moved pre
    by (auto simp: upd_docs upd_def doc_mem_def doc_off_def same_place_def)
qed

lemma sub64_mod: "k \<le> m \<Longrightarrow> m < 2 ^ 64 \<Longrightarrow> (m + 2 ^ 64 - k) mod 2 ^ 64 = m - k" for k m :: nat
  by (simp add: mod_if)

lemma holds_upd:
  assumes "b_len d = length xs" "take (length xs) (drop (doc_off d) mem) = xs"
    "is_inline d \<longrightarrow> length mem = BSON_INLINE_DATA_SIZE \<and> b_depth d = 0"
    "doc_off d + length xs + b_depth d \<le> length mem"
  shows "holds (upd H a d mem) a xs"
  unfolding holds_def
proof (intro exI conjI)
  let ?d = "if is_inline d then d\<lparr>b_data := mem\<rparr> else d"
  have off: "doc_off ?d = doc_off d" by (simp add: doc_off_def)
  show "h_docs (upd H a d mem) a = Some ?d" by (simp add: upd_docs)
  show "doc_mem (upd H a d mem) ?d = Some mem" by (rule upd_mem)
  show "b_len ?d = length xs" using assms(1) by simp
  show "take (length xs) (drop (doc_off ?d) mem) = xs" using assms(2) by (simp only: off)
  show "is_inline ?d \<longrightarrow> length mem = BSON_INLINE_DATA_SIZE \<and> b_depth ?d = 0" using assms(3) by simp
  show "doc_off ?d + length xs + b_depth ?d \<le> length mem" using assms(4) by (simp only: off) simp
qed

text \<open>The copying, for whatever \<open>n_bytes\<close> the caller announced: the block must have room for all pairs.\<close>

lemma append_pairs_grown:
  assumes xs: "5 \<le> length xs" "writable H a"
    and d: "h_docs H a = Some d" "doc_mem H d = Some mem" "b_len d = length xs"
      "take (length xs) (drop (doc_off d) mem) = xs"
      "is_inline d \<longrightarrow> length mem = BSON_INLINE_DATA_SIZE \<and> b_depth d = 0"
      "doc_off d + length xs + b_depth d \<le> length mem"
    and pairs: "pairs \<noteq> []" "hd pairs \<noteq> []"
    and small: "length xs + length (concat pairs) \<le> BSON_MAX_SIZE" "n \<le> length (concat pairs)"
    and g: "bson_grow H a n = Some (True, upd H a d' mem')" "same_place d d'" "b_len d' = b_len d"
      "length mem \<le> length mem'"
      "is_inline d \<and> \<not> is_inline d' \<Longrightarrow> b_buf d' = Own a \<and> b_offset d' = 0 \<and> b_depth d' = 0 \<and> b_realloc d'"
      "doc_off d' = doc_off d"
      "doc_off d' + b_len d + length (concat pairs) + (if is_inline d then 0 else b_depth d') \<le> length mem'"
      "take (doc_off d + b_len d) mem' = take (doc_off d + b_len d) mem"
      "is_inline d' \<Longrightarrow> length mem' = BSON_INLINE_DATA_SIZE \<and> b_depth d' = b_depth d"
  shows "\<exists>H'. bson_append_pairs H a n pairs = Some (True, H') \<and> holds H' a (append_bytes xs (concat pairs)) \<and>
    writable H' a \<and> frame {a} H a H'"
proof -
  let ?ys = "concat pairs" and ?off = "doc_off d"
  have xs': "take (length xs) (drop ?off mem') = xs"
    using g(8) d(3,4) by (metis drop_take add_diff_cancel_left' take_drop)
  have room: "?off + length xs + length ?ys \<le> length mem'" using g(6,7) d(3) by (simp split: if_splits)
  let ?m1 = "patch mem' (?off + (length xs - 1)) ?ys"
  let ?m2 = "patch ?m1 ?off (le_bytes 4 (length xs + length ?ys))"
  let ?m3 = "patch ?m2 (?off + (length xs - 1) + length ?ys) [0]"
  let ?d = "d'\<lparr>b_len := length xs + length ?ys\<rparr>"
  have l1: "length ?m1 = length mem'" using room xs(1) by simp
  have l2: "length ?m2 = length mem'" using room xs(1) l1 by simp
  have l3: "length ?m3 = length mem'" using room xs(1) l2 by simp
  have len1: "b_len d1 = length xs" if "h_docs (upd H a d' mem') a = Some d1" for d1
    using that g(3) d(3) by (auto simp: upd_docs split: if_splits)
  have "append_loop (upd H a d' mem') a (length xs - 1) pairs =
      Some (length xs - 1 + length ?ys, upd H a ?d ?m1)"
    using append_loop_upd [of d' "length xs - 1" pairs mem' H a] room g(3,6) d(3) small by simp
  moreover have "bson_encode_length (upd H a ?d ?m1) a = Some (upd H a ?d ?m2)"
    using room xs(1) l1 g(6) by (simp add: mem_write_patch)
  moreover have "bson_data_write (upd H a ?d ?m2) a (length xs - 1 + length ?ys) [0] = Some (upd H a ?d ?m3)"
    using room xs(1) l2 g(6) by (simp add: mem_write_patch add.assoc)
  moreover have "\<exists>d1. h_docs (upd H a d' mem') a = Some d1" by (simp add: upd_docs)
  moreover have "BSON_FLAG_IN_CHILD \<notin> b_flags d" "BSON_FLAG_RDONLY \<notin> b_flags d"
    using xs(2) d(1) by (auto simp: writable_def)
  ultimately have va: "bson_append_va H a n pairs = Some (True, upd H a ?d ?m3)"
    using d(1) g(1) len1 xs(1) by (auto simp: bson_append_va_def)
  have "(BSON_MAX_SIZE + 2 ^ 64 - length xs) mod 2 ^ 64 = BSON_MAX_SIZE - length xs"
    by (rule sub64_mod) (use small in simp_all)
  then have ap: "bson_append_pairs H a n pairs = Some (True, upd H a ?d ?m3)"
    using va d(1,3) pairs small by (simp add: bson_append_pairs_def)
  have "take (length xs + length ?ys) (drop ?off ?m3) = append_bytes xs ?ys"
    by (rule patched_append [OF xs(1) xs' room])
  then have "holds (upd H a ?d ?m3) a (append_bytes xs ?ys)"
  proof -
    assume t: "take (length xs + length ?ys) (drop ?off ?m3) = append_bytes xs ?ys"
    have la: "length (append_bytes xs ?ys) = length xs + length ?ys" using xs(1) by simp
    have dep: "is_inline d' \<longrightarrow> is_inline d" using g(2) by (simp add: same_place_def)
    show ?thesis
    proof (rule holds_upd)
      show "is_inline ?d \<longrightarrow> length ?m3 = BSON_INLINE_DATA_SIZE \<and> b_depth ?d = 0"
        using l3 g(9) d(5) dep by simp
      show "doc_off ?d + length (append_bytes xs ?ys) + b_depth ?d \<le> length ?m3"
      proof (cases "is_inline d")
        case True
        then have "b_depth d' = 0" using g(5,9) d(5) by (cases "is_inline d'") auto
        then show ?thesis using l3 la g(6,7) d(3) by (simp add: add.assoc)
      next
        case False
        then show ?thesis using l3 la g(6,7) d(3) by simp
      qed
    qed (use t la g(6) in simp_all)
  qed
  moreover have "writable (upd H a ?d ?m3) a"
    using xs(2) d(1) g(2) by (auto simp: writable_def upd_docs same_place_def)
  moreover have "frame {a} H a (upd H a ?d ?m3)"
  proof (rule upd_frame [OF d(1,2)])
    show "take ?off ?m3 = take ?off mem"
      using room l1 l2 g(8) d(6) by (simp add: take_patch) (metis le_add1 min.absorb1 take_take)
    show "same_place d ?d" using g(2) by (simp add: same_place_def)
    show "length mem \<le> length ?m3" using g(4) l3 by simp
    show "b_buf ?d = Own a \<and> b_offset ?d = 0 \<and> b_depth ?d = 0 \<and> b_realloc ?d" if "is_inline d \<and> \<not> is_inline ?d"
      using g(5) that by simp
  qed
  ultimately show ?thesis using ap by blast
qed

lemma append_pairs_ok:
  assumes xs: "holds H a xs" "5 \<le> length xs" "writable H a"
    and pairs: "pairs \<noteq> []" "hd pairs \<noteq> []" and n: "n = length (concat pairs)" and fits: "doc_fits H a n"
  shows "\<exists>H'. bson_append_pairs H a n pairs = Some (True, H') \<and> holds H' a (append_bytes xs (concat pairs)) \<and>
    writable H' a \<and> frame {a} H a H'"
proof -
  obtain d mem where d: "h_docs H a = Some d" "doc_mem H d = Some mem" "b_len d = length xs"
      "take (length xs) (drop (doc_off d) mem) = xs"
      "is_inline d \<longrightarrow> length mem = BSON_INLINE_DATA_SIZE \<and> b_depth d = 0"
      "doc_off d + length xs + b_depth d \<le> length mem"
    using holdsE [OF xs(1)] by metis
  have inl: "is_inline d \<longrightarrow> length mem = BSON_INLINE_DATA_SIZE" using d(5) by simp
  have small: "length xs + n \<le> BSON_MAX_SIZE" using fits d by (auto simp: doc_fits_def)
  have pos: "0 < b_len d" using xs(2) d(3) by auto
  have room: "doc_off d + b_len d + b_depth d \<le> length mem" using d(3,6) by simp
  show ?thesis unfolding n
    by (rule grow_ok [OF d(1,2) inl room pos fits [unfolded n]],
        rule append_pairs_grown [OF xs(2,3) d pairs small [unfolded n] order_refl], (assumption | simp)+)
qed

text \<open>A block that has room for all pairs is used as it is, even if fewer bytes were announced.\<close>

definition doc_room :: "heap \<Rightarrow> addr \<Rightarrow> nat \<Rightarrow> bool" where
  "doc_room H a n \<longleftrightarrow> (\<exists>d mem. h_docs H a = Some d \<and> doc_mem H d = Some mem \<and> b_len d + n \<le> BSON_MAX_SIZE \<and>
     doc_off d + b_len d + n + b_depth d \<le> length mem)"

lemma append_pairs_in_place:
  assumes xs: "holds H a xs" "5 \<le> length xs" "writable H a"
    and pairs: "pairs \<noteq> []" "hd pairs \<noteq> []" and n: "n \<le> length (concat pairs)"
    and room: "doc_room H a (length (concat pairs))"
  shows "\<exists>H'. bson_append_pairs H a n pairs = Some (True, H') \<and> holds H' a (append_bytes xs (concat pairs)) \<and>
    writable H' a \<and> frame {a} H a H'"
proof -
  obtain d mem where d: "h_docs H a = Some d" "doc_mem H d = Some mem" "b_len d = length xs"
      "take (length xs) (drop (doc_off d) mem) = xs"
      "is_inline d \<longrightarrow> length mem = BSON_INLINE_DATA_SIZE \<and> b_depth d = 0"
      "doc_off d + length xs + b_depth d \<le> length mem"
    using holdsE [OF xs(1)] by metis
  have r: "length xs + length (concat pairs) \<le> BSON_MAX_SIZE"
      "doc_off d + length xs + length (concat pairs) + b_depth d \<le> length mem"
    using room d(1-3) by (auto simp: doc_room_def)
  have g: "bson_grow H a n = Some (True, upd H a d mem)"
    using r(2) n d upd_same [OF d(1,2)]
    by (auto simp: bson_grow_def bson_impl_inline_grow_def bson_impl_alloc_grow_def doc_mem_def doc_off_def)
  show ?thesis
    by (rule append_pairs_grown [OF xs(2,3) d pairs r(1) n g]) (use r d in \<open>auto simp: same_place_def\<close>)
qed

lemma append_pairs_refused:
  assumes xs: "holds H a xs" "5 \<le> length xs" "writable H a" and pairs: "pairs \<noteq> []" "hd pairs \<noteq> []"
    and full: "\<not> doc_fits H a n" and d: "h_docs H a = Some d" "doc_off d + length xs + b_depth d + n \<le> 2 ^ 63"
    "length xs \<le> BSON_MAX_SIZE"
  shows "bson_append_pairs H a n pairs = Some (False, H)"
proof (cases "length xs + n \<le> BSON_MAX_SIZE")
  case False
  have "(BSON_MAX_SIZE + 2 ^ 64 - length xs) mod 2 ^ 64 = BSON_MAX_SIZE - length xs"
    by (rule sub64_mod) (use d(3) in simp_all)
  moreover have "b_len d = length xs" using holdsE [OF xs(1)] d(1) by (metis option.inject)
  moreover have "BSON_MAX_SIZE - length xs < n" using False d(3) by linarith
  ultimately show ?thesis using False d(1,3) pairs by (simp add: bson_append_pairs_def)
next
  case True
  obtain mem where m: "doc_mem H d = Some mem" "b_len d = length xs"
    using holdsE [OF xs(1)] d(1) by (metis option.inject)
  have "bson_grow H a n = Some (False, H)"
  proof (cases "is_inline d")
    case inl: True
    then have "2 ^ 30 < b_len d + n" using full d(1) m True by (auto simp: doc_fits_def)
    moreover have "b_len d + n \<le> 2 ^ 63" using d(2) m by simp
    moreover have "0 < b_len d + n" using \<open>2 ^ 30 < b_len d + n\<close> by linarith
    ultimately have "\<not> next_pow2 (b_len d + n) \<le> INT_MAX" using next_pow2_int_max [of "b_len d + n"] by linarith
    with \<open>2 ^ 30 < b_len d + n\<close> show ?thesis using inl d(1)
      by (auto simp: bson_grow_def bson_impl_inline_grow_def Let_def)
  next
    case False
    let ?req = "b_offset d + b_len d + n + b_depth d"
    have "length mem < ?req" "b_realloc d \<longrightarrow> 2 ^ 30 < ?req"
      using full d(1) m True False by (auto simp: doc_fits_def Let_def)
    moreover have "0 < ?req" using m xs(2) by linarith
    moreover have "?req \<le> 2 ^ 63" using d(2) m False by (simp add: doc_off_def)
    ultimately show ?thesis using False d(1) m next_pow2_int_max [of ?req]
      by (auto simp: bson_grow_def bson_impl_alloc_grow_def doc_mem_def Let_def)
  qed
  moreover have "(BSON_MAX_SIZE + 2 ^ 64 - length xs) mod 2 ^ 64 = BSON_MAX_SIZE - length xs"
    by (rule sub64_mod) (use True in simp_all)
  moreover have "BSON_FLAG_IN_CHILD \<notin> b_flags d" "BSON_FLAG_RDONLY \<notin> b_flags d"
    using xs(3) d(1) by (auto simp: writable_def)
  ultimately show ?thesis using d(1) m(2) pairs True
    by (simp add: bson_append_pairs_def bson_append_va_def)
qed

text \<open>
  When one byte less than needed is announced, the append still works unless the block is tight: it has
  room for exactly the announced bytes, or would be grown to exactly those.
\<close>

definition doc_tight :: "heap \<Rightarrow> addr \<Rightarrow> nat \<Rightarrow> bool" where
  "doc_tight H a n \<longleftrightarrow> (\<exists>d mem. h_docs H a = Some d \<and> doc_mem H d = Some mem \<and>
     (let req = doc_off d + b_len d + n + b_depth d
      in req = length mem + 1 \<or> (length mem + 1 < req \<and> next_pow2 (req - 1) < req)))"

lemma append_pairs_short:
  assumes xs: "holds H a xs" "5 \<le> length xs" "writable H a"
    and pairs: "pairs \<noteq> []" "hd pairs \<noteq> []" and n: "Suc n = length (concat pairs)"
    and fits: "doc_fits H a (Suc n)" and loose: "\<not> doc_tight H a (Suc n)"
  shows "\<exists>H'. bson_append_pairs H a n pairs = Some (True, H') \<and> holds H' a (append_bytes xs (concat pairs)) \<and>
    writable H' a \<and> frame {a} H a H'"
proof -
  obtain d mem where d: "h_docs H a = Some d" "doc_mem H d = Some mem" "b_len d = length xs"
      "take (length xs) (drop (doc_off d) mem) = xs"
      "is_inline d \<longrightarrow> length mem = BSON_INLINE_DATA_SIZE \<and> b_depth d = 0"
      "doc_off d + length xs + b_depth d \<le> length mem"
    using holdsE [OF xs(1)] by metis
  let ?req = "doc_off d + b_len d + Suc n + b_depth d"
  have small: "length xs + Suc n \<le> BSON_MAX_SIZE" using fits d by (auto simp: doc_fits_def)
  show ?thesis
  proof (cases "?req \<le> length mem")
    case True
    then have "doc_room H a (length (concat pairs))"
      unfolding doc_room_def n [symmetric] using d(1,2,3) small by auto
    from append_pairs_in_place [OF xs pairs _ this] n show ?thesis by simp
  next
    case False
    have big: "length mem < doc_off d + b_len d + n + b_depth d" "?req \<le> next_pow2 (?req - 1)"
      using False loose d(1,2) by (auto simp: doc_tight_def Let_def)
    have dep: "(if is_inline d then 0 else b_depth d) = b_depth d" using d(5) by simp
    have inl: "is_inline d \<longrightarrow> length mem = BSON_INLINE_DATA_SIZE" using d(5) by simp
    have fits': "doc_fits H a n" using fits by (auto simp: doc_fits_def Let_def split: if_splits)
    have pos: "0 < b_len d" using xs(2) d(3) by auto
    have room: "doc_off d + b_len d + b_depth d \<le> length mem" using d(3,6) by simp
    obtain d' mem' where g: "bson_grow H a n = Some (True, upd H a d' mem')" "same_place d d'" "b_len d' = b_len d"
      "length mem \<le> length mem'"
      "is_inline d \<and> \<not> is_inline d' \<Longrightarrow> b_buf d' = Own a \<and> b_offset d' = 0 \<and> b_depth d' = 0 \<and> b_realloc d'"
      "doc_off d' = doc_off d"
      "take (doc_off d + b_len d) mem' = take (doc_off d + b_len d) mem"
      "is_inline d' \<Longrightarrow> length mem' = BSON_INLINE_DATA_SIZE \<and> b_depth d' = b_depth d"
      "length mem < doc_off d + b_len d + n + b_depth d \<Longrightarrow> length mem' = next_pow2 (doc_off d + b_len d + n + b_depth d)"
      using grow_ok [OF d(1,2) inl room pos fits'] unfolding dep by metis
    have eq: "?req - 1 = doc_off d + b_len d + n + b_depth d" by simp
    have l: "length mem' = next_pow2 (?req - 1)" using g(9) [OF big(1)] unfolding eq .
    have dd: "(if is_inline d then 0 else b_depth d') = b_depth d"
    proof (cases "is_inline d")
      case False
      then show ?thesis using g(2) by (simp add: same_place_def)
    qed (use d(5) in simp)
    have r: "doc_off d' + b_len d + length (concat pairs) + (if is_inline d then 0 else b_depth d') \<le> length mem'"
      unfolding dd n [symmetric] l g(6) using big(2) by simp
    have s1: "length xs + length (concat pairs) \<le> BSON_MAX_SIZE" "n \<le> length (concat pairs)"
      using small unfolding n [symmetric] by simp_all
    show ?thesis
      by (rule append_pairs_grown [OF xs(2,3) d pairs s1 g(1-4) _ g(6) r g(7)]) (use g(5,8) in blast)+
  qed
qed

end
