(* ===== verification/Bson_Value.thy ===== *)
theory Bson_Value
  imports Bson_Types
begin

text \<open>
  The abstract documents: values and their encoding as the BSON specification lays them out. This
  theory is the contract that the code of bson.c (writing) and bson-iter.c (reading) is measured
  against; it models no code itself. A document is the list of its elements, keys with values, in
  order. Doubles, dates and decimals are their bits.
\<close>

datatype bval =
    VDouble u64
  | VUtf8 bytes
  | VDocument "(bytes \<times> bval) list"
  | VArray "(bytes \<times> bval) list"
  | VBinary u8 bytes
  | VUndefined
  | VOid bytes
  | VBool bool
  | VDateTime u64
  | VNull
  | VRegex bytes bytes
  | VDBPointer bytes bytes
  | VCode bytes
  | VSymbol bytes
  | VCodeWScope bytes "(bytes \<times> bval) list"
  | VInt32 u32
  | VTimestamp u32 u32
  | VInt64 u64
  | VDecimal128 u64 u64
  | VMaxKey
  | VMinKey

type_synonym elems = "(bytes \<times> bval) list"

fun vtype :: "bval \<Rightarrow> u8" where
  "vtype (VDouble _) = BSON_TYPE_DOUBLE"
| "vtype (VUtf8 _) = BSON_TYPE_UTF8"
| "vtype (VDocument _) = BSON_TYPE_DOCUMENT"
| "vtype (VArray _) = BSON_TYPE_ARRAY"
| "vtype (VBinary _ _) = BSON_TYPE_BINARY"
| "vtype VUndefined = BSON_TYPE_UNDEFINED"
| "vtype (VOid _) = BSON_TYPE_OID"
| "vtype (VBool _) = BSON_TYPE_BOOL"
| "vtype (VDateTime _) = BSON_TYPE_DATE_TIME"
| "vtype VNull = BSON_TYPE_NULL"
| "vtype (VRegex _ _) = BSON_TYPE_REGEX"
| "vtype (VDBPointer _ _) = BSON_TYPE_DBPOINTER"
| "vtype (VCode _) = BSON_TYPE_CODE"
| "vtype (VSymbol _) = BSON_TYPE_SYMBOL"
| "vtype (VCodeWScope _ _) = BSON_TYPE_CODEWSCOPE"
| "vtype (VInt32 _) = BSON_TYPE_INT32"
| "vtype (VTimestamp _ _) = BSON_TYPE_TIMESTAMP"
| "vtype (VInt64 _) = BSON_TYPE_INT64"
| "vtype (VDecimal128 _ _) = BSON_TYPE_DECIMAL128"
| "vtype VMaxKey = BSON_TYPE_MAXKEY"
| "vtype VMinKey = BSON_TYPE_MINKEY"

definition le32 :: "nat \<Rightarrow> bytes" where "le32 n = le_bytes 4 n"
definition le64 :: "nat \<Rightarrow> bytes" where "le64 n = le_bytes 8 n"

lemma length_le [simp, enc_simps]: "length (le32 n) = 4" "length (le64 n) = 8"
  by (simp_all add: le32_def le64_def)

definition enc_string :: "bytes \<Rightarrow> bytes" where
  "enc_string s = le32 (length s + 1) @ s @ [0]"

definition frame_doc :: "bytes \<Rightarrow> bytes" where
  "frame_doc body = le32 (length body + 5) @ body @ [0]"

lemma length_frame_doc [simp, enc_simps]: "length (frame_doc body) = length body + 5"
  by (simp add: frame_doc_def)

fun enc_val :: "bval \<Rightarrow> bytes" and enc_elems :: "elems \<Rightarrow> bytes" where
  "enc_val (VDouble x) = le64 (unat x)"
| "enc_val (VUtf8 s) = enc_string s"
| "enc_val (VDocument es) = frame_doc (enc_elems es)"
| "enc_val (VArray es) = frame_doc (enc_elems es)"
| "enc_val (VBinary st b) =
     (if st = BSON_SUBTYPE_BINARY_DEPRECATED then le32 (length b + 4) @ [st] @ le32 (length b) @ b
      else le32 (length b) @ [st] @ b)"
| "enc_val VUndefined = []"
| "enc_val (VOid i) = i"
| "enc_val (VBool b) = [if b then 1 else 0]"
| "enc_val (VDateTime x) = le64 (unat x)"
| "enc_val VNull = []"
| "enc_val (VRegex r opt) = r @ [0] @ opt @ [0]"
| "enc_val (VDBPointer c i) = enc_string c @ i"
| "enc_val (VCode c) = enc_string c"
| "enc_val (VSymbol s) = enc_string s"
| "enc_val (VCodeWScope c es) =
     (let scope = frame_doc (enc_elems es) in le32 (4 + (length c + 5) + length scope) @ enc_string c @ scope)"
| "enc_val (VInt32 x) = le32 (unat x)"
| "enc_val (VTimestamp ts inc) = le64 (unat ts * 2 ^ 32 + unat inc)"
| "enc_val (VInt64 x) = le64 (unat x)"
| "enc_val (VDecimal128 hi lo) = le64 (unat lo) @ le64 (unat hi)"
| "enc_val VMaxKey = []"
| "enc_val VMinKey = []"
| "enc_elems [] = []"
| "enc_elems ((k, v) # es) = [vtype v] @ k @ [0] @ enc_val v @ enc_elems es"

definition enc_elem :: "bytes \<Rightarrow> bval \<Rightarrow> bytes" where
  "enc_elem k v = [vtype v] @ k @ [0] @ enc_val v"

definition enc_doc :: "elems \<Rightarrow> bytes" where
  "enc_doc es = frame_doc (enc_elems es)"

lemma enc_elems_append [simp]: "enc_elems (xs @ ys) = enc_elems xs @ enc_elems ys"
  by (induction xs) auto

lemma enc_elems_Cons: "enc_elems ((k, v) # es) = enc_elem k v @ enc_elems es"
  by (simp add: enc_elem_def)

lemma enc_elems_snoc: "enc_elems (es @ [(k, v)]) = enc_elems es @ enc_elem k v"
  by (simp add: enc_elem_def)

lemma enc_val_doc: "enc_val (VDocument es) = enc_doc es" "enc_val (VArray es) = enc_doc es"
  by (simp_all add: enc_doc_def)

lemma length_enc_doc [enc_simps]: "length (enc_doc es) = length (enc_elems es) + 5"
  by (simp add: enc_doc_def)

lemma length_enc_elem [enc_simps]: "length (enc_elem k v) = length k + length (enc_val v) + 2"
  by (simp add: enc_elem_def)

text \<open>
  Well-formed values: keys and the C strings of regular expressions, code and collections have no NUL,
  object ids have 12 bytes. (Strings of type UTF-8 and symbol carry a length and may hold NULs.)
\<close>

fun wf_val :: "bval \<Rightarrow> bool" and wf_elems :: "elems \<Rightarrow> bool" where
  "wf_val (VDocument es) = wf_elems es"
| "wf_val (VArray es) = wf_elems es"
| "wf_val (VOid i) = (length i = 12)"
| "wf_val (VRegex r opt) = (no_nul r \<and> no_nul opt)"
| "wf_val (VDBPointer c i) = (no_nul c \<and> length i = 12)"
| "wf_val (VCode c) = no_nul c"
| "wf_val (VCodeWScope c es) = (no_nul c \<and> wf_elems es)"
| "wf_val (VDouble _) = True"
| "wf_val (VUtf8 _) = True"
| "wf_val (VBinary _ _) = True"
| "wf_val VUndefined = True"
| "wf_val (VBool _) = True"
| "wf_val (VDateTime _) = True"
| "wf_val VNull = True"
| "wf_val (VSymbol _) = True"
| "wf_val (VInt32 _) = True"
| "wf_val (VTimestamp _ _) = True"
| "wf_val (VInt64 _) = True"
| "wf_val (VDecimal128 _ _) = True"
| "wf_val VMaxKey = True"
| "wf_val VMinKey = True"
| "wf_elems [] = True"
| "wf_elems ((k, v) # es) = (no_nul k \<and> wf_val v \<and> wf_elems es)"

lemma wf_elems_append [simp]: "wf_elems (xs @ ys) \<longleftrightarrow> wf_elems xs \<and> wf_elems ys"
  by (induction xs) auto

lemma vtype_nz: "vtype v \<noteq> BSON_TYPE_EOD"
  by (cases v) auto

end
