(* ===== verification/Bson_Append.thy ===== *)
theory Bson_Append
  imports Bson_Doc Bson_Value
begin

text \<open>
  The \<^verbatim>\<open>bson_append_*\<close> functions of \<^verbatim>\<open>src/bson/bson.c\<close> that take their value as an argument. Each builds the
  list of pairs and the byte count of its call of \<^verbatim>\<open>_bson_append\<close>; the count is the 32-bit sum the code
  writes. A \<^verbatim>\<open>char *\<close> is the memory behind it; a \<^verbatim>\<open>NULL\<close> argument is \<open>None\<close> where the code allows it.

  \<open>rep H a es\<close> relates the store to the abstract document, and the lemma of each function says that it
  appends its element or is refused for want of space; the byte order is little endian.
\<close>

subsection \<open>The functions\<close>

text \<open>
  \<^verbatim>\<open>if (key_length < 0) key_length = (int) strlen (key)\<close>, and the key bytes that are copied. A string of
  2^31 bytes or more has no \<^verbatim>\<open>int\<close> length.
\<close>

definition int_string :: "bytes \<Rightarrow> int \<Rightarrow> bytes option" where
  "int_string s len = do {
     x \<leftarrow> (if len < 0 then c_string s 0 else mem_read s 0 (nat len));
     (if length x \<le> INT_MAX then Some x else None) }"

definition bson_append_double :: "heap \<Rightarrow> addr \<Rightarrow> bytes \<Rightarrow> int \<Rightarrow> u64 \<Rightarrow> (bool \<times> heap) option" where
  "bson_append_double H a key key_length value = do {
     k \<leftarrow> int_string key key_length;
     bson_append_pairs H a ((1 + length k + 1 + 8) mod 2 ^ 32) [[BSON_TYPE_DOUBLE], k, [0], le64 (unat value)] }"

definition bson_append_int32 :: "heap \<Rightarrow> addr \<Rightarrow> bytes \<Rightarrow> int \<Rightarrow> u32 \<Rightarrow> (bool \<times> heap) option" where
  "bson_append_int32 H a key key_length value = do {
     k \<leftarrow> int_string key key_length;
     bson_append_pairs H a ((1 + length k + 1 + 4) mod 2 ^ 32) [[BSON_TYPE_INT32], k, [0], le32 (unat value)] }"

definition bson_append_int64 :: "heap \<Rightarrow> addr \<Rightarrow> bytes \<Rightarrow> int \<Rightarrow> u64 \<Rightarrow> (bool \<times> heap) option" where
  "bson_append_int64 H a key key_length value = do {
     k \<leftarrow> int_string key key_length;
     bson_append_pairs H a ((1 + length k + 1 + 8) mod 2 ^ 32) [[BSON_TYPE_INT64], k, [0], le64 (unat value)] }"

text \<open>The decimal is passed as \<open>(high, low)\<close> and stored low word first.\<close>

definition bson_append_decimal128 :: "heap \<Rightarrow> addr \<Rightarrow> bytes \<Rightarrow> int \<Rightarrow> u64 \<times> u64 \<Rightarrow> (bool \<times> heap) option" where
  "bson_append_decimal128 H a key key_length value = do {
     k \<leftarrow> int_string key key_length;
     bson_append_pairs H a ((1 + length k + 1 + 16) mod 2 ^ 32)
       [[BSON_TYPE_DECIMAL128], k, [0], le64 (unat (snd value)) @ le64 (unat (fst value))] }"

definition bson_append_bool :: "heap \<Rightarrow> addr \<Rightarrow> bytes \<Rightarrow> int \<Rightarrow> bool \<Rightarrow> (bool \<times> heap) option" where
  "bson_append_bool H a key key_length value = do {
     k \<leftarrow> int_string key key_length;
     bson_append_pairs H a ((1 + length k + 1 + 1) mod 2 ^ 32)
       [[BSON_TYPE_BOOL], k, [0], [if value then 1 else 0]] }"

definition bson_append_empty :: "heap \<Rightarrow> addr \<Rightarrow> bytes \<Rightarrow> int \<Rightarrow> u8 \<Rightarrow> (bool \<times> heap) option" where
  "bson_append_empty H a key key_length t = do {
     k \<leftarrow> int_string key key_length;
     bson_append_pairs H a ((1 + length k + 1) mod 2 ^ 32) [[t], k, [0]] }"

definition bson_append_maxkey where "bson_append_maxkey H a key key_length = bson_append_empty H a key key_length BSON_TYPE_MAXKEY"
definition bson_append_minkey where "bson_append_minkey H a key key_length = bson_append_empty H a key key_length BSON_TYPE_MINKEY"
definition bson_append_null where "bson_append_null H a key key_length = bson_append_empty H a key key_length BSON_TYPE_NULL"
definition bson_append_undefined where
  "bson_append_undefined H a key key_length = bson_append_empty H a key key_length BSON_TYPE_UNDEFINED"

definition bson_append_binary ::
  "heap \<Rightarrow> addr \<Rightarrow> bytes \<Rightarrow> int \<Rightarrow> u8 \<Rightarrow> bytes \<Rightarrow> nat \<Rightarrow> (bool \<times> heap) option" where
  "bson_append_binary H a key key_length subtype binary len = do {
     k \<leftarrow> int_string key key_length;
     b \<leftarrow> mem_read binary 0 len;
     (if subtype = BSON_SUBTYPE_BINARY_DEPRECATED
      then bson_append_pairs H a ((1 + length k + 1 + 4 + 1 + 4 + len) mod 2 ^ 32)
        [[BSON_TYPE_BINARY], k, [0], le32 (add32 len 4), [subtype], le32 len, b]
      else bson_append_pairs H a ((1 + length k + 1 + 4 + 1 + len) mod 2 ^ 32)
        [[BSON_TYPE_BINARY], k, [0], le32 len, [subtype], b]) }"

definition bson_append_code :: "heap \<Rightarrow> addr \<Rightarrow> bytes \<Rightarrow> int \<Rightarrow> bytes \<Rightarrow> (bool \<times> heap) option" where
  "bson_append_code H a key key_length javascript = do {
     k \<leftarrow> int_string key key_length;
     js \<leftarrow> int_string javascript (-1);
     let len = length js + 1;
     bson_append_pairs H a ((1 + length k + 1 + 4 + len) mod 2 ^ 32)
       [[BSON_TYPE_CODE], k, [0], le32 len, js @ [0]] }"

definition bson_append_code_with_scope ::
  "heap \<Rightarrow> addr \<Rightarrow> bytes \<Rightarrow> int \<Rightarrow> bytes \<Rightarrow> addr option \<Rightarrow> (bool \<times> heap) option" where
  "bson_append_code_with_scope H a key key_length javascript scope =
     (case scope of
        None \<Rightarrow> bson_append_code H a key key_length javascript
      | Some sc \<Rightarrow> do {
          k \<leftarrow> int_string key key_length;
          js \<leftarrow> int_string javascript (-1);
          data \<leftarrow> bson_get_data H sc;
          let js_length = length js + 1;
          let codews_length = (4 + 4 + js_length + length data) mod 2 ^ 32;
          bson_append_pairs H a ((1 + length k + 1 + 4 + 4 + js_length + length data) mod 2 ^ 32)
            [[BSON_TYPE_CODEWSCOPE], k, [0], le32 codews_length, le32 js_length, js @ [0], data] })"

definition bson_append_dbpointer ::
  "heap \<Rightarrow> addr \<Rightarrow> bytes \<Rightarrow> int \<Rightarrow> bytes \<Rightarrow> bytes \<Rightarrow> (bool \<times> heap) option" where
  "bson_append_dbpointer H a key key_length collection oid = do {
     k \<leftarrow> int_string key key_length;
     c \<leftarrow> int_string collection (-1);
     i \<leftarrow> mem_read oid 0 12;
     let len = length c + 1;
     bson_append_pairs H a ((1 + length k + 1 + 4 + len + 12) mod 2 ^ 32)
       [[BSON_TYPE_DBPOINTER], k, [0], le32 len, c @ [0], i] }"

definition bson_append_document :: "heap \<Rightarrow> addr \<Rightarrow> bytes \<Rightarrow> int \<Rightarrow> addr \<Rightarrow> (bool \<times> heap) option" where
  "bson_append_document H a key key_length value = do {
     k \<leftarrow> int_string key key_length;
     data \<leftarrow> bson_get_data H value;
     bson_append_pairs H a ((1 + length k + 1 + length data) mod 2 ^ 32) [[BSON_TYPE_DOCUMENT], k, [0], data] }"

text \<open>\<^verbatim>\<open>bson_append_array\<close> differs in the type, and in a warning on \<^verbatim>\<open>stderr\<close> when the first key is not \<open>"0"\<close>.\<close>

definition bson_append_array :: "heap \<Rightarrow> addr \<Rightarrow> bytes \<Rightarrow> int \<Rightarrow> addr \<Rightarrow> (bool \<times> heap) option" where
  "bson_append_array H a key key_length value = do {
     k \<leftarrow> int_string key key_length;
     data \<leftarrow> bson_get_data H value;
     bson_append_pairs H a ((1 + length k + 1 + length data) mod 2 ^ 32) [[BSON_TYPE_ARRAY], k, [0], data] }"

definition bson_append_oid :: "heap \<Rightarrow> addr \<Rightarrow> bytes \<Rightarrow> int \<Rightarrow> bytes \<Rightarrow> (bool \<times> heap) option" where
  "bson_append_oid H a key key_length value = do {
     k \<leftarrow> int_string key key_length;
     i \<leftarrow> mem_read value 0 12;
     bson_append_pairs H a ((1 + length k + 1 + 12) mod 2 ^ 32) [[BSON_TYPE_OID], k, [0], i] }"

text \<open>The options of a regular expression are rewritten in the order of \<^verbatim>\<open>BSON_REGEX_OPTIONS_SORTED\<close>.\<close>

definition BSON_REGEX_OPTIONS_SORTED :: bytes where
  "BSON_REGEX_OPTIONS_SORTED = [0x69, 0x6C, 0x6D, 0x73, 0x75, 0x78]"

fun append_regex_options_sorted :: "(nat \<Rightarrow> u8) \<Rightarrow> bson_string \<Rightarrow> bytes \<Rightarrow> bytes \<Rightarrow> bson_string option" where
  "append_regex_options_sorted junk buffer options [] = Some buffer"
| "append_regex_options_sorted junk buffer options (c # cs) = do {
     buffer \<leftarrow> (if c \<in> set options then bson_string_append_c junk buffer c else Some buffer);
     append_regex_options_sorted junk buffer options cs }"

definition bson_append_regex ::
  "heap \<Rightarrow> addr \<Rightarrow> bytes \<Rightarrow> int \<Rightarrow> bytes option \<Rightarrow> bytes option \<Rightarrow> (bool \<times> heap) option" where
  "bson_append_regex H a key key_length regex options = do {
     k \<leftarrow> int_string key key_length;
     r \<leftarrow> int_string (case regex of None \<Rightarrow> [0] | Some x \<Rightarrow> x) (-1);
     opts \<leftarrow> c_string (case options of None \<Rightarrow> [0] | Some x \<Rightarrow> x) 0;
     let regex_len = length r + 1;
     buf0 \<leftarrow> bson_string_new (h_junk H) None;
     sorted \<leftarrow> append_regex_options_sorted (h_junk H) buf0 opts BSON_REGEX_OPTIONS_SORTED;
     ob \<leftarrow> mem_read (s_str sorted) 0 (s_len sorted + 1);
     bson_append_pairs H a ((1 + length k + 1 + regex_len + s_len sorted) mod 2 ^ 32)
       [[BSON_TYPE_REGEX], k, [0], r @ [0], ob] }"

definition append_string :: "u8 \<Rightarrow> heap \<Rightarrow> addr \<Rightarrow> bytes \<Rightarrow> int \<Rightarrow> bytes option \<Rightarrow> int \<Rightarrow> (bool \<times> heap) option" where
  "append_string t H a key key_length value len =
     (case value of
        None \<Rightarrow> bson_append_null H a key key_length
      | Some s \<Rightarrow> do {
          k \<leftarrow> int_string key key_length;
          x \<leftarrow> int_string s len;
          bson_append_pairs H a ((1 + length k + 1 + 4 + length x + 1) mod 2 ^ 32)
            [[t], k, [0], le32 ((length x + 1) mod 2 ^ 32), x, [0]] })"

definition bson_append_utf8 where "bson_append_utf8 = append_string BSON_TYPE_UTF8"
definition bson_append_symbol where "bson_append_symbol = append_string BSON_TYPE_SYMBOL"

definition bson_append_timestamp :: "heap \<Rightarrow> addr \<Rightarrow> bytes \<Rightarrow> int \<Rightarrow> u32 \<Rightarrow> u32 \<Rightarrow> (bool \<times> heap) option" where
  "bson_append_timestamp H a key key_length timestamp increment = do {
     k \<leftarrow> int_string key key_length;
     let value = push_bit 32 (ucast timestamp) OR (ucast increment :: u64);
     bson_append_pairs H a ((1 + length k + 1 + 8) mod 2 ^ 32) [[BSON_TYPE_TIMESTAMP], k, [0], le64 (unat value)] }"

definition bson_append_date_time :: "heap \<Rightarrow> addr \<Rightarrow> bytes \<Rightarrow> int \<Rightarrow> u64 \<Rightarrow> (bool \<times> heap) option" where
  "bson_append_date_time H a key key_length value = do {
     k \<leftarrow> int_string key key_length;
     bson_append_pairs H a ((1 + length k + 1 + 8) mod 2 ^ 32) [[BSON_TYPE_DATE_TIME], k, [0], le64 (unat value)] }"

text \<open>A \<^verbatim>\<open>struct timeval\<close> is its seconds and microseconds, as 64-bit words.\<close>

definition bson_append_timeval :: "heap \<Rightarrow> addr \<Rightarrow> bytes \<Rightarrow> int \<Rightarrow> u64 \<times> u64 \<Rightarrow> (bool \<times> heap) option" where
  "bson_append_timeval H a key key_length value =
     bson_append_date_time H a key key_length (fst value * 1000 + snd value div 1000)"

definition bson_append_time_t :: "heap \<Rightarrow> addr \<Rightarrow> bytes \<Rightarrow> int \<Rightarrow> u64 \<Rightarrow> (bool \<times> heap) option" where
  "bson_append_time_t H a key key_length value = bson_append_timeval H a key key_length (value, 0)"

text \<open>The clock is a parameter.\<close>

definition bson_append_now_utc :: "u64 \<Rightarrow> heap \<Rightarrow> addr \<Rightarrow> bytes \<Rightarrow> int \<Rightarrow> (bool \<times> heap) option" where
  "bson_append_now_utc now H a key key_length =
     (if key_length < -1 then None else bson_append_time_t H a key key_length now)"

subsection \<open>The contract\<close>

definition rep :: "heap \<Rightarrow> addr \<Rightarrow> elems \<Rightarrow> bool" where
  "rep H a es \<longleftrightarrow> holds H a (enc_doc es) \<and> writable H a"

lemma append_enc_doc: "append_bytes (enc_doc es) (enc_elem k v) = enc_doc (es @ [(k, v)])"
proof -
  have "butlast (enc_doc es) = le32 (length (enc_elems es) + 5) @ enc_elems es"
    by (simp add: enc_doc_def frame_doc_def butlast_append)
  then show ?thesis
    by (simp add: append_bytes_def set_len_def enc_doc_def frame_doc_def enc_elems_snoc le32_def del: enc_elems_append)
      (simp add: ac_simps)
qed

lemma length_enc_doc_ge: "5 \<le> length (enc_doc es)"
  by (simp add: enc_simps)

definition elem_fits :: "heap \<Rightarrow> addr \<Rightarrow> bytes \<Rightarrow> bval \<Rightarrow> bool" where
  "elem_fits H a k v \<longleftrightarrow> doc_fits H a (length (enc_elem k v))"

definition appends :: "heap \<Rightarrow> addr \<Rightarrow> elems \<Rightarrow> bytes \<Rightarrow> bval \<Rightarrow> (bool \<times> heap) option \<Rightarrow> bool" where
  "appends H a es k v r \<longleftrightarrow> (\<exists>H'. r = Some (True, H') \<and> rep H' a (es @ [(k, v)]) \<and> frame {a} H a H')"

lemma doc_fits_small: "doc_fits H a n \<Longrightarrow> n \<le> BSON_MAX_SIZE"
  by (auto simp: doc_fits_def)

lemma append_elem:
  assumes "rep H a es" "elem_fits H a k v"
    and "pairs \<noteq> []" "hd pairs \<noteq> []" "concat pairs = enc_elem k v" "n = length (enc_elem k v)"
  shows "appends H a es k v (bson_append_pairs H a (n mod 2 ^ 32) pairs)"
proof -
  have n: "n mod 2 ^ 32 = length (concat pairs)"
    using doc_fits_small assms(2,5,6) by (fastforce simp: elem_fits_def)
  have "doc_fits H a (n mod 2 ^ 32)" using assms(2) by (simp only: elem_fits_def n assms(5))
  from append_pairs_ok [OF _ length_enc_doc_ge _ assms(3,4) n this, of es] assms(1,5) show ?thesis
    by (auto simp: appends_def rep_def append_enc_doc)
qed

subsection \<open>Each function appends its element\<close>

named_theorems append_ok \<open>the functions append their element\<close>

lemma append_double [append_ok]:
  assumes "rep H a es" "int_string key kl = Some k" "elem_fits H a k (VDouble x)"
  shows "appends H a es k (VDouble x) (bson_append_double H a key kl x)"
  unfolding bson_append_double_def assms(2) Option.bind.simps
  by (rule append_elem [OF assms(1,3)]) (simp_all add: enc_elem_def)

lemma append_int32 [append_ok]:
  assumes "rep H a es" "int_string key kl = Some k" "elem_fits H a k (VInt32 x)"
  shows "appends H a es k (VInt32 x) (bson_append_int32 H a key kl x)"
  unfolding bson_append_int32_def assms(2) Option.bind.simps
  by (rule append_elem [OF assms(1,3)]) (simp_all add: enc_elem_def)

lemma append_int64 [append_ok]:
  assumes "rep H a es" "int_string key kl = Some k" "elem_fits H a k (VInt64 x)"
  shows "appends H a es k (VInt64 x) (bson_append_int64 H a key kl x)"
  unfolding bson_append_int64_def assms(2) Option.bind.simps
  by (rule append_elem [OF assms(1,3)]) (simp_all add: enc_elem_def)

lemma append_decimal128 [append_ok]:
  assumes "rep H a es" "int_string key kl = Some k" "elem_fits H a k (VDecimal128 hi lo)"
  shows "appends H a es k (VDecimal128 hi lo) (bson_append_decimal128 H a key kl (hi, lo))"
  unfolding bson_append_decimal128_def assms(2) Option.bind.simps
  by (rule append_elem [OF assms(1,3)]) (simp_all add: enc_elem_def)

lemma append_bool [append_ok]:
  assumes "rep H a es" "int_string key kl = Some k" "elem_fits H a k (VBool x)"
  shows "appends H a es k (VBool x) (bson_append_bool H a key kl x)"
  unfolding bson_append_bool_def assms(2) Option.bind.simps
  by (rule append_elem [OF assms(1,3)]) (simp_all add: enc_elem_def)

lemma append_empty:
  assumes "rep H a es" "int_string key kl = Some k" "elem_fits H a k v" "enc_val v = []" "vtype v = t"
  shows "appends H a es k v (bson_append_empty H a key kl t)"
  unfolding bson_append_empty_def assms(2) Option.bind.simps
  by (rule append_elem [OF assms(1,3)]) (use assms(4,5) in \<open>simp_all add: enc_elem_def\<close>)

lemma append_empties [append_ok]:
  assumes "rep H a es" "int_string key kl = Some k"
  shows "elem_fits H a k VMaxKey \<Longrightarrow> appends H a es k VMaxKey (bson_append_maxkey H a key kl)"
    "elem_fits H a k VMinKey \<Longrightarrow> appends H a es k VMinKey (bson_append_minkey H a key kl)"
    "elem_fits H a k VNull \<Longrightarrow> appends H a es k VNull (bson_append_null H a key kl)"
    "elem_fits H a k VUndefined \<Longrightarrow> appends H a es k VUndefined (bson_append_undefined H a key kl)"
  by (simp_all add: bson_append_maxkey_def bson_append_minkey_def bson_append_null_def bson_append_undefined_def
      append_empty [OF assms])

lemma append_binary [append_ok]:
  assumes "rep H a es" "int_string key kl = Some k" "elem_fits H a k (VBinary st b)"
    and "mem_read binary 0 len = Some b"
  shows "appends H a es k (VBinary st b) (bson_append_binary H a key kl st binary len)"
proof -
  have len: "length b = len" by (rule mem_read_length [OF assms(4)])
  have "length (enc_elem k (VBinary st b)) \<le> BSON_MAX_SIZE"
    using doc_fits_small assms(3) by (auto simp: elem_fits_def)
  then have l4: "add32 len 4 = len + 4" using len by (simp add: enc_elem_def split: if_splits)
  show ?thesis
  proof (cases "st = BSON_SUBTYPE_BINARY_DEPRECATED")
    case True
    show ?thesis
      unfolding bson_append_binary_def assms(2,4) Option.bind.simps if_P [OF True]
      by (rule append_elem [OF assms(1,3)]) (use True len l4 in \<open>simp_all add: enc_elem_def\<close>)
  next
    case False
    show ?thesis
      unfolding bson_append_binary_def assms(2,4) Option.bind.simps if_not_P [OF False]
      by (rule append_elem [OF assms(1,3)]) (use False len in \<open>simp_all add: enc_elem_def\<close>)
  qed
qed

lemma append_code [append_ok]:
  assumes "rep H a es" "int_string key kl = Some k" "elem_fits H a k (VCode js)" "int_string javascript (-1) = Some js"
  shows "appends H a es k (VCode js) (bson_append_code H a key kl javascript)"
  unfolding bson_append_code_def assms(2,4) Option.bind.simps Let_def
  by (rule append_elem [OF assms(1,3)]) (simp_all add: enc_elem_def enc_string_def)

lemma append_dbpointer [append_ok]:
  assumes "rep H a es" "int_string key kl = Some k" "elem_fits H a k (VDBPointer c i)"
    "int_string collection (-1) = Some c" "mem_read oid 0 12 = Some i"
  shows "appends H a es k (VDBPointer c i) (bson_append_dbpointer H a key kl collection oid)"
  unfolding bson_append_dbpointer_def assms(2,4,5) Option.bind.simps Let_def
  by (rule append_elem [OF assms(1,3)])
    (use mem_read_length [OF assms(5)] in \<open>simp_all add: enc_elem_def enc_string_def\<close>)

lemma append_oid [append_ok]:
  assumes "rep H a es" "int_string key kl = Some k" "elem_fits H a k (VOid i)" "mem_read oid 0 12 = Some i"
  shows "appends H a es k (VOid i) (bson_append_oid H a key kl oid)"
  unfolding bson_append_oid_def assms(2,4) Option.bind.simps
  by (rule append_elem [OF assms(1,3)]) (use mem_read_length [OF assms(4)] in \<open>simp_all add: enc_elem_def\<close>)

lemma holds_get_data: "holds H a xs \<Longrightarrow> bson_get_data H a = Some xs"
  by (auto simp: holds_def bson_get_data_def bson_data_read_def mem_read_def)

lemma append_document [append_ok]:
  assumes "rep H a es" "int_string key kl = Some k" "elem_fits H a k (VDocument sub)" "bson_get_data H d = Some (enc_doc sub)"
  shows "appends H a es k (VDocument sub) (bson_append_document H a key kl d)"
  unfolding bson_append_document_def assms(2,4) Option.bind.simps
  by (rule append_elem [OF assms(1,3)]) (simp_all add: enc_elem_def enc_doc_def)

lemma append_array [append_ok]:
  assumes "rep H a es" "int_string key kl = Some k" "elem_fits H a k (VArray sub)" "bson_get_data H d = Some (enc_doc sub)"
  shows "appends H a es k (VArray sub) (bson_append_array H a key kl d)"
  unfolding bson_append_array_def assms(2,4) Option.bind.simps
  by (rule append_elem [OF assms(1,3)]) (simp_all add: enc_elem_def enc_doc_def)

lemma append_code_with_scope [append_ok]:
  assumes "rep H a es" "int_string key kl = Some k" "elem_fits H a k (VCodeWScope js sub)"
    "int_string javascript (-1) = Some js" "bson_get_data H d = Some (enc_doc sub)"
  shows "appends H a es k (VCodeWScope js sub) (bson_append_code_with_scope H a key kl javascript (Some d))"
proof -
  have "length (enc_elem k (VCodeWScope js sub)) \<le> BSON_MAX_SIZE"
    using doc_fits_small assms(3) by (auto simp: elem_fits_def)
  then have "(4 + 4 + (length js + 1) + length (enc_doc sub)) mod 2 ^ 32 = 4 + 4 + (length js + 1) + length (enc_doc sub)"
    by (simp add: enc_elem_def enc_doc_def enc_string_def)
  then show ?thesis
    unfolding bson_append_code_with_scope_def assms(2,4,5) Option.bind.simps option.case Let_def
    by (intro append_elem [OF assms(1,3)])
      (simp_all add: enc_elem_def enc_string_def enc_doc_def add.commute)
qed

lemma append_string_ok:
  assumes "rep H a es" "int_string key kl = Some k" "elem_fits H a k v" "int_string s len = Some x"
    "enc_val v = enc_string x" "vtype v = t"
  shows "appends H a es k v (append_string t H a key kl (Some s) len)"
proof -
  have "length x \<le> INT_MAX" using assms(4) by (auto simp: int_string_def bind_Some_iff split: if_splits)
  then have "(length x + 1) mod 2 ^ 32 = length x + 1" by simp
  then show ?thesis
    unfolding append_string_def assms(2,4) Option.bind.simps option.case
    by (intro append_elem [OF assms(1,3)]) (use assms(5,6) in \<open>simp_all add: enc_elem_def enc_string_def\<close>)
qed

lemma append_strings [append_ok]:
  assumes "rep H a es" "int_string key kl = Some k" "int_string s len = Some x"
  shows "elem_fits H a k (VUtf8 x) \<Longrightarrow> appends H a es k (VUtf8 x) (bson_append_utf8 H a key kl (Some s) len)"
    "elem_fits H a k (VSymbol x) \<Longrightarrow> appends H a es k (VSymbol x) (bson_append_symbol H a key kl (Some s) len)"
  unfolding bson_append_utf8_def bson_append_symbol_def
  by (rule append_string_ok [OF assms(1,2) _ assms(3)]; simp)+

lemma unat_timestamp: "unat (push_bit 32 (ucast ts) OR (ucast inc :: u64)) = unat (ts :: u32) * 2 ^ 32 + unat (inc :: u32)"
proof -
  have d: "push_bit 32 (ucast ts) AND (ucast inc :: u64) = 0"
    by (rule bit_eqI) (auto simp: bit_simps dest: bit_imp_le_length)
  have "unat (push_bit 32 (ucast ts :: u64)) = unat ts * 2 ^ 32"
  proof -
    have "unat ts * 2 ^ 32 < 2 ^ 64" using unat_u32_less [of ts] by simp
    then show ?thesis
      by (simp only: unsigned_push_bit_eq) (simp add: push_bit_eq_mult unsigned_ucast_eq take_bit_nat_eq_self)
  qed
  moreover have "unat (ucast inc :: u64) = unat inc"
    using unat_u32_less [of inc] by (simp add: unsigned_ucast_eq take_bit_nat_eq_self)
  ultimately show ?thesis
    using word_plus_and_or [of "push_bit 32 (ucast ts)" "ucast inc :: u64"] d unat_u32_less [of ts] unat_u32_less [of inc]
    by (simp add: unat_word_ariths)
qed

lemma append_timestamp [append_ok]:
  assumes "rep H a es" "int_string key kl = Some k" "elem_fits H a k (VTimestamp ts inc)"
  shows "appends H a es k (VTimestamp ts inc) (bson_append_timestamp H a key kl ts inc)"
  unfolding bson_append_timestamp_def assms(2) Option.bind.simps Let_def
  by (rule append_elem [OF assms(1,3)]) (simp_all add: enc_elem_def unat_timestamp)

lemma append_date_time [append_ok]:
  assumes "rep H a es" "int_string key kl = Some k" "elem_fits H a k (VDateTime x)"
  shows "appends H a es k (VDateTime x) (bson_append_date_time H a key kl x)"
  unfolding bson_append_date_time_def assms(2) Option.bind.simps
  by (rule append_elem [OF assms(1,3)]) (simp_all add: enc_elem_def)

subsection \<open>Regular expressions\<close>

definition sort_opts :: "bytes \<Rightarrow> bytes" where
  "sort_opts opts = filter (\<lambda>c. c \<in> set opts) BSON_REGEX_OPTIONS_SORTED"

lemma regex_options_sorted:
  "str_ok s \<Longrightarrow> no_nul cs \<Longrightarrow> s_len s + 2 * length cs \<le> 2 ^ 31 \<Longrightarrow>
   \<exists>s'. append_regex_options_sorted junk s opts cs = Some s' \<and> str_ok s' \<and>
     str_text s' = str_text s @ filter (\<lambda>c. c \<in> set opts) cs"
proof (induction cs arbitrary: s)
  case Nil
  then show ?case by simp
next
  case (Cons c cs)
  show ?case
  proof (cases "c \<in> set opts")
    case True
    have c: "c \<noteq> 0" "s_len s + 2 \<le> 2 ^ 31" using Cons.prems by simp_all
    obtain s1 where s1: "bson_string_append_c junk s c = Some s1" "str_ok s1" "str_text s1 = str_text s @ [c]"
      using string_append_c_ok [OF Cons.prems(1) c, of junk] by blast
    have "s_len s1 = s_len s + 1" using string_append_len [OF s1(2)] string_append_len [OF Cons.prems(1)] s1(3) by simp
    then obtain s' where "append_regex_options_sorted junk s1 opts cs = Some s'" "str_ok s'"
        "str_text s' = str_text s1 @ filter (\<lambda>c. c \<in> set opts) cs"
      using Cons.IH [OF s1(2)] Cons.prems by auto
    then show ?thesis using True s1 by auto
  next
    case False
    then show ?thesis using Cons.IH [OF Cons.prems(1)] Cons.prems by auto
  qed
qed

lemma regex_options_block:
  obtains s0 s1 where "bson_string_new junk None = Some s0"
    "append_regex_options_sorted junk s0 opts BSON_REGEX_OPTIONS_SORTED = Some s1"
    "s_len s1 = length (sort_opts opts)" "mem_read (s_str s1) 0 (s_len s1 + 1) = Some (sort_opts opts @ [0])"
proof -
  obtain s0 where s0: "bson_string_new junk None = Some s0" "str_ok s0" "str_text s0 = []"
    using string_new_empty by blast
  have "s_len s0 = 0" using string_append_len [OF s0(2)] s0(3) by simp
  then obtain s1 where s1: "append_regex_options_sorted junk s0 opts BSON_REGEX_OPTIONS_SORTED = Some s1" "str_ok s1"
      "str_text s1 = sort_opts opts"
    using regex_options_sorted [OF s0(2), of BSON_REGEX_OPTIONS_SORTED junk opts] s0(3)
    by (auto simp: BSON_REGEX_OPTIONS_SORTED_def sort_opts_def)
  have l: "s_len s1 < length (s_str s1)" "s_str s1 ! s_len s1 = 0" using s1(2) by (auto simp: str_ok_def)
  have "take (s_len s1 + 1) (s_str s1) = str_text s1 @ [0]"
    using l take_Suc_conv_app_nth [OF l(1)] by (simp add: str_text_def)
  then show ?thesis using that [OF s0(1) s1(1)] s1(3) l string_append_len [OF s1(2)]
    by (simp add: mem_read_def)
qed

lemma regex_call:
  assumes "int_string key kl = Some k" "int_string regex (-1) = Some r" "c_string options 0 = Some opts"
  shows "bson_append_regex H a key kl (Some regex) (Some options) =
    bson_append_pairs H a ((length (enc_elem k (VRegex r (sort_opts opts))) - 1) mod 2 ^ 32)
      [[BSON_TYPE_REGEX], k, [0], r @ [0], sort_opts opts @ [0]]"
proof -
  obtain s0 s1 where s: "bson_string_new (h_junk H) None = Some s0"
    "append_regex_options_sorted (h_junk H) s0 opts BSON_REGEX_OPTIONS_SORTED = Some s1"
    "s_len s1 = length (sort_opts opts)" "mem_read (s_str s1) 0 (s_len s1 + 1) = Some (sort_opts opts @ [0])"
    using regex_options_block [of "h_junk H" opts] .
  have "1 + length k + 1 + (length r + 1) + s_len s1 = length (enc_elem k (VRegex r (sort_opts opts))) - 1"
    using s(3) by (simp add: enc_elem_def)
  then show ?thesis
    unfolding bson_append_regex_def assms option.case Option.bind.simps Let_def s(1,2,4) by (simp only:)
qed

lemma append_regex:
  assumes "rep H a es" "int_string key kl = Some k" "elem_fits H a k (VRegex r (sort_opts opts))"
    and "int_string regex (-1) = Some r" "c_string options 0 = Some opts"
    and loose: "\<not> doc_tight H a (length (enc_elem k (VRegex r (sort_opts opts))))"
  shows "appends H a es k (VRegex r (sort_opts opts)) (bson_append_regex H a key kl (Some regex) (Some options))"
proof -
  let ?v = "VRegex r (sort_opts opts)"
  let ?ps = "[[BSON_TYPE_REGEX], k, [0], r @ [0], sort_opts opts @ [0]]"
  obtain n where n: "Suc n = length (enc_elem k ?v)" by (simp add: enc_elem_def)
  have c: "concat ?ps = enc_elem k ?v" by (simp add: enc_elem_def)
  have "length (enc_elem k ?v) \<le> BSON_MAX_SIZE" using doc_fits_small assms(3) by (auto simp: elem_fits_def)
  then have m: "(length (enc_elem k ?v) - 1) mod 2 ^ 32 = n" using n [symmetric] by simp
  have "holds H a (enc_doc es)" "writable H a" using assms(1) by (simp_all add: rep_def)
  from append_pairs_short [OF this(1) length_enc_doc_ge this(2), of ?ps n, unfolded c n] assms(3) loose
  show ?thesis unfolding regex_call [OF assms(2,4,5)] m appends_def
    by (auto simp: rep_def append_enc_doc elem_fits_def)
qed

text \<open>The byte count of \<^verbatim>\<open>bson_append_regex\<close> omits the terminator of the options.\<close>

lemma append_pairs_overflow:
  assumes xs: "holds H a xs" "5 \<le> length xs" "writable H a" and d: "h_docs H a = Some d" "is_inline d"
    and pairs: "pairs \<noteq> []" "hd pairs \<noteq> []" and n: "Suc n = length (concat pairs)"
    and full: "length xs + n = BSON_INLINE_DATA_SIZE"
  shows "bson_append_pairs H a n pairs = None"
proof -
  obtain mem where m: "doc_mem H d = Some mem" "b_len d = length xs" "length mem = BSON_INLINE_DATA_SIZE"
    using holdsE [OF xs(1)] d by (metis option.inject)
  have g: "bson_grow H a n = Some (True, upd H a d mem)"
    using d m full upd_same [OF d(1) m(1)] by (simp add: bson_grow_def bson_impl_inline_grow_def)
  have off: "doc_off d = 0" using d(2) by (simp add: doc_off_def)
  let ?m1 = "patch mem (length xs - 1) (concat pairs)"
  let ?d = "d\<lparr>b_len := length xs + Suc n\<rparr>"
  have room: "length xs - 1 + length (concat pairs) \<le> length mem" using full m(3) xs(2) n by linarith
  have small: "b_len d + length (concat pairs) < 2 ^ 32" using full m(2) n by simp
  have loop: "append_loop (upd H a d mem) a (length xs - 1) pairs =
      Some (length xs - 1 + length (concat pairs), upd H a ?d ?m1)"
    using append_loop_upd [of d "length xs - 1" pairs mem H a] room small off m(2) n by simp
  have l1: "length ?m1 = BSON_INLINE_DATA_SIZE" using room m(3) by simp
  have enc: "bson_encode_length (upd H a ?d ?m1) a = Some (upd H a ?d (patch ?m1 0 (le_bytes 4 (length xs + Suc n))))"
    using l1 off by (simp add: mem_write_patch)
  have "length xs - 1 + length (concat pairs) = BSON_INLINE_DATA_SIZE" using full xs(2) n by linarith
  then have out: "bson_data_write (upd H a ?d (patch ?m1 0 (le_bytes 4 (length xs + Suc n)))) a
      (length xs - 1 + length (concat pairs)) [0] = None"
    using l1 off by (simp add: mem_write_def)
  have "(BSON_MAX_SIZE + 2 ^ 64 - length xs) mod 2 ^ 64 = BSON_MAX_SIZE - length xs"
    by (rule sub64_mod) (use full in simp_all)
  moreover have "n \<le> BSON_MAX_SIZE - length xs" using full by linarith
  moreover have "BSON_FLAG_IN_CHILD \<notin> b_flags d" "BSON_FLAG_RDONLY \<notin> b_flags d"
    using xs(3) d(1) by (auto simp: writable_def)
  moreover have "\<exists>d1. h_docs (upd H a d mem) a = Some d1 \<and> b_len d1 = length xs"
    using m(2) by (simp add: upd_docs)
  moreover have "xs \<noteq> []" using xs(2) by auto
  ultimately show ?thesis using d(1) pairs m(2) g loop enc out
    by (auto simp: bson_append_pairs_def bson_append_va_def)
qed

end

