(* ===== verification/Bson_Life.thy ===== *)
theory Bson_Life
  imports Bson_Doc Oid
begin

text \<open>
  How documents begin and end: the initialisers, constructors, copies, stealing and destruction of
  \<^verbatim>\<open>src/bson/bson.c\<close>, and comparison. A function that returns a new \<^verbatim>\<open>bson_t\<close> takes the fresh address the
  allocator gives it as an argument and answers whether it returned it or \<^verbatim>\<open>NULL\<close>.
\<close>

subsection \<open>Initialisation\<close>

text \<open>
  The five bytes of the empty document; the rest of the inline array is whatever was there. The fields
  of the allocated layout lie inside the inline array and have no meaning in it.
\<close>

definition inline_doc :: "(nat \<Rightarrow> u8) \<Rightarrow> addr \<Rightarrow> bson_flag set \<Rightarrow> bson_t" where
  "inline_doc junk a fl =
     \<lparr>b_flags = fl, b_len = 5, b_data = [5, 0, 0, 0, 0] @ map junk [5..<BSON_INLINE_DATA_SIZE],
      b_parent = None, b_depth = 0, b_buf = Own a, b_offset = 0, b_realloc = False\<rparr>"

definition bson_init :: "heap \<Rightarrow> addr \<Rightarrow> heap" where
  "bson_init H a = set_doc H a (inline_doc (h_junk H) a {BSON_FLAG_INLINE, BSON_FLAG_STATIC})"

definition bson_new :: "heap \<Rightarrow> addr \<Rightarrow> heap" where
  "bson_new H a = set_doc H a (inline_doc (h_junk H) a {BSON_FLAG_INLINE})"

definition bson_set_len :: "heap \<Rightarrow> addr \<Rightarrow> nat \<Rightarrow> heap option" where
  "bson_set_len H a n = do { d \<leftarrow> h_docs H a; Some (set_doc H a (d\<lparr>b_len := n\<rparr>)) }"

definition bson_reinit :: "heap \<Rightarrow> addr \<Rightarrow> heap option" where
  "bson_reinit H a = do {
     H1 \<leftarrow> bson_set_len H a 5;
     bson_data_write H1 a 0 [5, 0, 0, 0, 0] }"

text \<open>The allocated layout around a block.\<close>

definition alloc_doc :: "addr \<Rightarrow> bson_flag set \<Rightarrow> nat \<Rightarrow> bool \<Rightarrow> bson_t" where
  "alloc_doc a fl len rea =
     \<lparr>b_flags = fl, b_len = len, b_data = [], b_parent = None, b_depth = 0, b_buf = Own a, b_offset = 0,
      b_realloc = rea\<rparr>"

text \<open>
  \<^verbatim>\<open>bson_init_static\<close> points at the bytes of the caller; here they become a block of the store. The document is
  \<^verbatim>\<open>BSON_FLAG_RDONLY\<close>, no function of the library writes through it.
\<close>

definition bson_init_static :: "heap \<Rightarrow> addr \<Rightarrow> bytes \<Rightarrow> nat \<Rightarrow> (bool \<times> heap) option" where
  "bson_init_static H a data len =
     (if len < 5 \<or> len > INT_MAX then Some (False, H)
      else do {
        l \<leftarrow> rd32 data 0;
        (if l \<noteq> len then Some (False, H)
         else do {
           z \<leftarrow> rd8 data (len - 1);
           (if z \<noteq> 0 then Some (False, H)
            else Some (True, set_cell (set_doc H a
              (alloc_doc a {BSON_FLAG_STATIC, BSON_FLAG_RDONLY} len False)) (Own a) (take len data))) }) })"

definition bson_sized_new :: "heap \<Rightarrow> addr \<Rightarrow> nat \<Rightarrow> heap option" where
  "bson_sized_new H a sz =
     (if \<not> sz \<le> INT_MAX then None
      else if sz \<le> BSON_INLINE_DATA_SIZE then Some (bson_new H a)
      else do {
        mem \<leftarrow> mem_write (bson_malloc (h_junk H) (max 5 sz)) 0 [5, 0, 0, 0, 0];
        Some (set_cell (set_doc H a (alloc_doc a {} 5 True)) (Own a) mem) })"

definition bson_new_from_data :: "heap \<Rightarrow> addr \<Rightarrow> bytes \<Rightarrow> nat \<Rightarrow> (bool \<times> heap) option" where
  "bson_new_from_data H a data len =
     (if len < 5 \<or> len > INT_MAX then Some (False, H)
      else do {
        z \<leftarrow> rd8 data (len - 1);
        (if z \<noteq> 0 then Some (False, H)
         else do {
           l \<leftarrow> rd32 data 0;
           (if len \<noteq> l then Some (False, H)
            else do {
              H1 \<leftarrow> bson_sized_new H a len;
              x \<leftarrow> mem_read data 0 len;
              H2 \<leftarrow> bson_data_write H1 a 0 x;
              H3 \<leftarrow> bson_set_len H2 a len;
              Some (True, H3) }) }) })"

text \<open>
  \<^verbatim>\<open>bson_new_from_buffer\<close>: the caller's variables \<^verbatim>\<open>*buf\<close> and \<^verbatim>\<open>*buf_len\<close> are the cell \<open>Ext i\<close>; the cell is
  absent when \<^verbatim>\<open>*buf\<close> is \<^verbatim>\<open>NULL\<close>. The length comes from the first four bytes; \<^verbatim>\<open>(*buf)[length - 1]\<close> is read
  as the code has it.
\<close>

definition bson_new_from_buffer :: "heap \<Rightarrow> addr \<Rightarrow> nat \<Rightarrow> (bool \<times> heap) option" where
  "bson_new_from_buffer H a i =
     (let finish = (\<lambda>H1 buf len. do {
            z \<leftarrow> rd8 buf (sub32 len 1);
            (if z \<noteq> 0 then Some (False, H1)
             else Some (True, set_doc H1 a
               \<lparr>b_flags = {BSON_FLAG_NO_FREE}, b_len = len, b_data = [], b_parent = None, b_depth = 0,
                b_buf = Ext i, b_offset = 0, b_realloc = True\<rparr>)) })
      in case h_cells H (Ext i) of
           None \<Rightarrow> (let buf = [5, 0, 0, 0, 0] in finish (set_cell H (Ext i) buf) buf 5)
         | Some buf \<Rightarrow>
             (if length buf < 5 \<or> length buf > INT_MAX then Some (False, H)
              else do {
                len \<leftarrow> rd32 buf 0;
                finish H buf len }))"

subsection \<open>Copies\<close>

definition bson_copy :: "heap \<Rightarrow> addr \<Rightarrow> addr \<Rightarrow> (bool \<times> heap) option" where
  "bson_copy H a src = do {
     data \<leftarrow> bson_get_data H src;
     bson_new_from_data H a data (length data) }"

definition bson_copy_to :: "heap \<Rightarrow> addr \<Rightarrow> addr \<Rightarrow> heap option" where
  "bson_copy_to H src dst = do {
     s \<leftarrow> h_docs H src;
     (if is_inline s then
        Some (set_doc H dst (s\<lparr>b_flags := {BSON_FLAG_STATIC, BSON_FLAG_INLINE}\<rparr>))
      else do {
        data \<leftarrow> bson_get_data H src;
        let len = next_pow2 (b_len s);
        mem \<leftarrow> mem_write (bson_malloc (h_junk H) len) 0 data;
        Some (set_cell (set_doc H dst (alloc_doc dst {BSON_FLAG_STATIC} (b_len s) True)) (Own dst) mem) }) }"

subsection \<open>Destruction and stealing\<close>

definition del_cell :: "heap \<Rightarrow> bufref \<Rightarrow> heap" where
  "del_cell H b = H\<lparr>h_cells := (h_cells H)(b := None)\<rparr>"

definition del_doc :: "heap \<Rightarrow> addr \<Rightarrow> heap" where
  "del_doc H a = H\<lparr>h_docs := (h_docs H)(a := None)\<rparr>"

definition bson_destroy :: "heap \<Rightarrow> addr \<Rightarrow> heap option" where
  "bson_destroy H a = do {
     d \<leftarrow> h_docs H a;
     let H1 = (if b_flags d \<inter> {BSON_FLAG_RDONLY, BSON_FLAG_INLINE, BSON_FLAG_NO_FREE} = {}
               then del_cell H (b_buf d) else H);
     Some (if BSON_FLAG_STATIC \<notin> b_flags d then del_doc H1 a else H1) }"

text \<open>The block and the place in it where the caller may now write \<open>size\<close> bytes, or \<^verbatim>\<open>NULL\<close>.\<close>

definition bson_reserve_buffer :: "heap \<Rightarrow> addr \<Rightarrow> nat \<Rightarrow> (bool \<times> heap) option" where
  "bson_reserve_buffer H a sz = do {
     d \<leftarrow> h_docs H a;
     (if b_flags d \<inter> {BSON_FLAG_CHILD, BSON_FLAG_IN_CHILD, BSON_FLAG_RDONLY} \<noteq> {} then Some (False, H)
      else do {
        (ok, H1) \<leftarrow> bson_grow H a sz;
        (if \<not> ok then Some (False, H1)
         else do { H2 \<leftarrow> bson_set_len H1 a sz; Some (True, H2) }) }) }"

text \<open>
  \<^verbatim>\<open>bson_steal\<close> copies the structure, so the fields \<^verbatim>\<open>alloc\<close>, \<^verbatim>\<open>alloclen\<close> of the destination are those of the
  source (the cell \<open>Own src\<close>); the source gives its block up.
\<close>

definition bson_steal :: "heap \<Rightarrow> addr \<Rightarrow> addr \<Rightarrow> (bool \<times> heap) option" where
  "bson_steal H0 dst src = do {
     let H = bson_init H0 dst;
     s \<leftarrow> h_docs H src;
     (if b_flags s \<inter> {BSON_FLAG_CHILD, BSON_FLAG_IN_CHILD, BSON_FLAG_RDONLY} \<noteq> {} then Some (False, H)
      else do {
        d \<leftarrow> h_docs H dst;
        let H1 = (if is_inline s
                  then set_doc H dst (d\<lparr>b_len := b_len s, b_data := b_data s\<rparr>)
                  else H\<lparr>h_docs := (h_docs H)(dst := Some (s\<lparr>b_flags := insert BSON_FLAG_STATIC (b_flags s), b_buf := Own dst\<rparr>)),
                         h_cells := (h_cells H)(Own dst := h_cells H (Own src), Own src := None)\<rparr>);
        Some (True, if BSON_FLAG_STATIC \<notin> b_flags s then del_doc H1 src
                    else set_doc H1 src (s\<lparr>b_len := 0\<rparr>)) }) }"

text \<open>\<^verbatim>\<open>bson_destroy_with_steal\<close>: the stolen block (or \<^verbatim>\<open>NULL\<close>) and the length.\<close>

definition bson_destroy_with_steal :: "heap \<Rightarrow> addr \<Rightarrow> bool \<Rightarrow> (bytes option \<times> nat \<times> heap) option" where
  "bson_destroy_with_steal H a steal = do {
     d \<leftarrow> h_docs H a;
     (if \<not> steal then do { H1 \<leftarrow> bson_destroy H a; Some (None, b_len d, H1) }
      else if b_flags d \<inter> {BSON_FLAG_CHILD, BSON_FLAG_IN_CHILD, BSON_FLAG_RDONLY} \<noteq> {} then do {
        H1 \<leftarrow> bson_destroy H a; Some (None, b_len d, H1) }
      else if is_inline d then do {
        old \<leftarrow> mem_read (b_data d) 0 (b_len d);
        ret \<leftarrow> mem_write (bson_malloc (h_junk H) (b_len d)) 0 old;
        H1 \<leftarrow> bson_destroy H a;
        Some (Some ret, b_len d, H1) }
      else do {
        ret \<leftarrow> h_cells H (b_buf d);
        H1 \<leftarrow> bson_destroy (del_cell H (b_buf d)) a;
        Some (Some ret, b_len d, H1) }) }"

subsection \<open>Comparison\<close>

text \<open>
  The \<^verbatim>\<open>memcmp\<close> of the model returns -1, 0 or 1. C only fixes the sign; documents of the same length get the raw result, so that
  for them the sign of \<open>bson_compare\<close> is what the code promises.
\<close>

definition bson_compare :: "heap \<Rightarrow> addr \<Rightarrow> addr \<Rightarrow> int option" where
  "bson_compare H bson other = do {
     d1 \<leftarrow> h_docs H bson;
     d2 \<leftarrow> h_docs H other;
     let len1 = sub32 (b_len d1) 4;
     let len2 = sub32 (b_len d2) 4;
     (if len1 = len2 then do {
        data1 \<leftarrow> bson_data_read H bson 4 len1;
        data2 \<leftarrow> bson_data_read H other 4 len1;
        Some (memcmp data1 data2) }
      else do {
        data1 \<leftarrow> bson_data_read H bson 4 (min len1 len2);
        data2 \<leftarrow> bson_data_read H other 4 (min len1 len2);
        let ret = memcmp data1 data2;
        let ret = (if ret = 0 then int len1 - int len2 else ret);
        Some (if ret < 0 then -1 else if ret > 0 then 1 else 0) }) }"

definition bson_equal :: "heap \<Rightarrow> addr \<Rightarrow> addr \<Rightarrow> bool option" where
  "bson_equal H bson other = map_option (\<lambda>r. r = 0) (bson_compare H bson other)"

subsection \<open>Documents made from bytes\<close>

text \<open>The frame every constructor asks for: the first four bytes are the length, the last byte is NUL.\<close>

definition framed :: "bytes \<Rightarrow> bool" where
  "framed xs \<longleftrightarrow> 5 \<le> length xs \<and> length xs \<le> INT_MAX \<and> take 4 xs = le_bytes 4 (length xs) \<and> last xs = 0"

lemma framed_iff:
  assumes "5 \<le> length xs" "length xs \<le> INT_MAX"
  shows "framed xs \<longleftrightarrow> le_nat (take 4 xs) = length xs \<and> xs ! (length xs - 1) = 0"
proof -
  have "take 4 xs = le_bytes 4 (length xs) \<longleftrightarrow> le_nat (take 4 xs) = length xs"
  proof
    assume "take 4 xs = le_bytes 4 (length xs)"
    then show "le_nat (take 4 xs) = length xs" using assms by (simp add: le_nat_le_bytes)
  next
    assume "le_nat (take 4 xs) = length xs"
    then show "take 4 xs = le_bytes 4 (length xs)"
      using le_bytes_le_nat [of "take 4 xs" 4] assms by simp
  qed
  moreover have "xs \<noteq> []" using assms by auto
  ultimately show ?thesis using assms by (simp add: framed_def last_conv_nth)
qed

lemma inline_doc_holds:
  "BSON_FLAG_INLINE \<in> fl \<Longrightarrow> h_docs H a = Some (inline_doc junk a fl) \<Longrightarrow> holds H a [5, 0, 0, 0, 0]"
  by (auto simp: holds_def inline_doc_def doc_mem_def doc_off_def)

lemma init_holds: "holds (bson_init H a) a [5, 0, 0, 0, 0]" "writable (bson_init H a) a"
  by (rule inline_doc_holds [of "{BSON_FLAG_INLINE, BSON_FLAG_STATIC}" _ _ "h_junk H"])
    (simp_all add: bson_init_def writable_def inline_doc_def)

lemma new_holds: "holds (bson_new H a) a [5, 0, 0, 0, 0]" "writable (bson_new H a) a"
  by (rule inline_doc_holds [of "{BSON_FLAG_INLINE}" _ _ "h_junk H"])
    (simp_all add: bson_new_def writable_def inline_doc_def)

lemma rd8_last: "5 \<le> len \<Longrightarrow> len \<le> length data \<Longrightarrow> rd8 data (len - 1) = Some (take len data ! (len - 1))"
proof -
  assume "5 \<le> len" "len \<le> length data"
  then have "len - 1 < length data" "len - 1 < len" by linarith+
  then show ?thesis by (simp add: rd8_def)
qed

lemma init_static_ok:
  assumes "len \<le> length data"
  shows "bson_init_static H a data len = Some (framed (take len data),
    if framed (take len data) then set_cell (set_doc H a
      (alloc_doc a {BSON_FLAG_STATIC, BSON_FLAG_RDONLY} len False)) (Own a) (take len data) else H)"
proof (cases "len < 5 \<or> len > INT_MAX")
  case True
  then show ?thesis using assms by (auto simp: bson_init_static_def framed_def)
next
  case False
  then have l: "5 \<le> length (take len data)" "length (take len data) \<le> INT_MAX" "length (take len data) = len"
    using assms by auto
  have "rd32 data 0 = Some (le_nat (take 4 (take len data)))" using False assms by (simp add: rd32_in min_absorb1)
  moreover have "rd8 data (len - 1) = Some (take len data ! (len - 1))"  using False assms by (intro rd8_last) simp_all
  ultimately show ?thesis using False framed_iff [OF l(1,2)] l(3) by (auto simp: bson_init_static_def)
qed

lemma init_static_holds:
  assumes "len \<le> length data" "framed (take len data)" "bson_init_static H a data len = Some (b, H')"
  shows "b \<and> holds H' a (take len data) \<and> \<not> writable H' a \<and> (\<forall>x. x \<noteq> a \<longrightarrow> h_docs H' x = h_docs H x) \<and>
    (\<forall>c. c \<noteq> Own a \<longrightarrow> h_cells H' c = h_cells H c)"
proof -
  have b: "b = True" and H': "H' = set_cell (set_doc H a (alloc_doc a {BSON_FLAG_STATIC, BSON_FLAG_RDONLY} len False)) (Own a) (take len data)"
    using assms init_static_ok [OF assms(1), of H a] by auto
  have lx: "length (take len data) = len" using assms(1) by simp
  have "holds H' a (take len data)"
    using assms(1) by (simp add: holds_def H' alloc_doc_def doc_mem_def doc_off_def min_absorb2)
  with b show ?thesis by (simp add: H' writable_def alloc_doc_def)
qed

lemma sized_new_block:
  assumes "sz \<le> INT_MAX"
  obtains H1 d mem where "bson_sized_new H a sz = Some H1" "h_docs H1 a = Some d" "doc_mem H1 d = Some mem"
    "sz \<le> length mem" "5 \<le> length mem" "take 5 mem = [5, 0, 0, 0, 0]" "b_len d = 5" "b_depth d = 0" "doc_off d = 0"
    "b_flags d = (if sz \<le> BSON_INLINE_DATA_SIZE then {BSON_FLAG_INLINE} else {})"
    "is_inline d \<longrightarrow> length mem = BSON_INLINE_DATA_SIZE" "\<not> is_inline d \<longrightarrow> b_buf d = Own a"
    "\<forall>x. x \<noteq> a \<longrightarrow> h_docs H1 x = h_docs H x" "\<forall>c. c \<noteq> Own a \<longrightarrow> h_cells H1 c = h_cells H c"
proof (cases "sz \<le> BSON_INLINE_DATA_SIZE")
  case True
  let ?d = "inline_doc (h_junk H) a {BSON_FLAG_INLINE}"
  show ?thesis
    by (rule that [of "bson_new H a" ?d "b_data ?d"])
      (use True assms in \<open>simp_all add: bson_sized_new_def bson_new_def inline_doc_def doc_mem_def doc_off_def\<close>)
next
  case False
  let ?d = "alloc_doc a {} 5 True"
  let ?m = "patch (bson_malloc (h_junk H) (max 5 sz)) 0 [5, 0, 0, 0, 0]"
  have m: "mem_write (bson_malloc (h_junk H) (max 5 sz)) 0 [5, 0, 0, 0, 0] = Some ?m"
    by (rule mem_write_patch) simp
  have lm: "length ?m = max 5 sz" by simp
  show ?thesis
    by (rule that [of "set_cell (set_doc H a ?d) (Own a) ?m" ?d ?m])
      (use False assms m lm in \<open>simp_all add: bson_sized_new_def alloc_doc_def doc_mem_def doc_off_def patch_def\<close>)
qed

text \<open>The document has its block to itself: the inline array or its own allocation.\<close>

definition own_block :: "heap \<Rightarrow> addr \<Rightarrow> bool" where
  "own_block H a \<longleftrightarrow> (\<exists>e. h_docs H a = Some e \<and> (is_inline e \<or> b_buf e = Own a))"

lemma new_from_data_ok:
  assumes len: "len \<le> length data"
  shows "\<exists>H'. bson_new_from_data H a data len = Some (framed (take len data), H') \<and>
    (if framed (take len data) then holds H' a (take len data) \<and> writable H' a else H' = H) \<and>
    (\<forall>x. x \<noteq> a \<longrightarrow> h_docs H' x = h_docs H x) \<and> (\<forall>c. c \<noteq> Own a \<longrightarrow> h_cells H' c = h_cells H c) \<and>
    (framed (take len data) \<longrightarrow> own_block H' a)"
proof (cases "len < 5 \<or> len > INT_MAX")
  case True
  then show ?thesis using assms by (auto simp: bson_new_from_data_def framed_def)
next
  case False
  then have l: "5 \<le> length (take len data)" "length (take len data) \<le> INT_MAX" "length (take len data) = len"
    using assms by auto
  have r: "rd32 data 0 = Some (le_nat (take 4 (take len data)))" using False assms by (simp add: rd32_in min_absorb1)
  have z: "rd8 data (len - 1) = Some (take len data ! (len - 1))"  using False assms by (intro rd8_last) simp_all
  show ?thesis
  proof (cases "framed (take len data)")
    case no: False
    then show ?thesis using False framed_iff [OF l(1,2)] l(3) r z by (auto simp: bson_new_from_data_def)
  next
    case yes: True
    then have rz: "rd32 data 0 = Some len" "rd8 data (len - 1) = Some 0"
      using framed_iff [OF l(1,2)] l(3) r z by simp_all
    have "len \<le> INT_MAX" using False by simp
    then obtain H1 d mem where H1: "bson_sized_new H a len = Some H1" "h_docs H1 a = Some d" "doc_mem H1 d = Some mem"
      "len \<le> length mem" "5 \<le> length mem" "take 5 mem = [5, 0, 0, 0, 0]" "b_len d = 5" "b_depth d = 0" "doc_off d = 0"
      "b_flags d = (if len \<le> BSON_INLINE_DATA_SIZE then {BSON_FLAG_INLINE} else {})"
      "is_inline d \<longrightarrow> length mem = BSON_INLINE_DATA_SIZE" "\<not> is_inline d \<longrightarrow> b_buf d = Own a"
      "\<forall>x. x \<noteq> a \<longrightarrow> h_docs H1 x = h_docs H x" "\<forall>c. c \<noteq> Own a \<longrightarrow> h_cells H1 c = h_cells H c"
      by (rule sized_new_block)
    let ?x = "take len data"
    let ?m = "patch mem 0 ?x"
    let ?d = "d\<lparr>b_len := len\<rparr>"
    have w: "bson_data_write H1 a 0 ?x = Some (upd H1 a d ?m)"
      using upd_write [of H1 a d mem 0 ?x] upd_same [OF H1(2,3)] H1(4,9) l(3) by (simp add: mem_write_patch)
    have s: "bson_set_len (upd H1 a d ?m) a len = Some (upd H1 a ?d ?m)"
      by (cases d) (auto simp: bson_set_len_def upd_def set_doc_def set_cell_def)
    have x: "mem_read data 0 len = Some ?x" using len by (simp add: mem_read_def)
    have "bson_new_from_data H a data len = Some (True, upd H1 a ?d ?m)"
      using False rz H1(1) x w s by (simp add: bson_new_from_data_def)
    moreover have "holds (upd H1 a ?d ?m) a ?x"
      by (rule holds_upd) (use H1 l(3) in \<open>simp_all add: patch_def\<close>)
    moreover have "writable (upd H1 a ?d ?m) a" using H1(10) by (simp add: writable_def upd_docs)
    moreover have "\<forall>x. x \<noteq> a \<longrightarrow> h_docs (upd H1 a ?d ?m) x = h_docs H x" using H1(13) by (simp add: upd_docs)
    moreover have "\<forall>c. c \<noteq> Own a \<longrightarrow> h_cells (upd H1 a ?d ?m) c = h_cells H c"
      using H1(12,14) by (simp add: upd_def)
    moreover have "own_block (upd H1 a ?d ?m) a" using H1(12) by (simp add: own_block_def upd_docs)
    ultimately show ?thesis using yes by auto
  qed
qed

text \<open>
  C32. \<^verbatim>\<open>bson_init_static\<close> and \<^verbatim>\<open>bson_new_from_data\<close> read nothing outside the given bytes and accept exactly
  those whose first four bytes are their length and whose last byte is NUL (from 5 bytes to
  \<^verbatim>\<open>INT_MAX\<close>); the document then holds exactly the bytes, read-only in the first case, writable in the
  second, and rejected bytes leave the store unchanged.
\<close>

theorem document_from_bytes:
  assumes "len \<le> length data"
  shows "(\<exists>H'. bson_init_static H a data len = Some (framed (take len data), H') \<and>
      (if framed (take len data) then holds H' a (take len data) \<and> \<not> writable H' a else H' = H)) \<and>
    (\<exists>H'. bson_new_from_data H a data len = Some (framed (take len data), H') \<and>
      (if framed (take len data) then holds H' a (take len data) \<and> writable H' a else H' = H))"
proof (rule conjI)
  obtain H' where r: "bson_init_static H a data len = Some (framed (take len data), H')"
    using init_static_ok [OF assms] by blast
  show "\<exists>H'. bson_init_static H a data len = Some (framed (take len data), H') \<and>
      (if framed (take len data) then holds H' a (take len data) \<and> \<not> writable H' a else H' = H)"
    using init_static_holds [OF assms _ r] init_static_ok [OF assms, of H a] r by auto
  show "\<exists>H'. bson_new_from_data H a data len = Some (framed (take len data), H') \<and>
      (if framed (take len data) then holds H' a (take len data) \<and> writable H' a else H' = H)"
    using new_from_data_ok [OF assms, of H a] by blast
qed

definition empty_heap :: heap where
  "empty_heap = \<lparr>h_docs = \<lambda>_. None, h_cells = \<lambda>_. None, h_junk = \<lambda>_. 0xAA\<rparr>"

lemma document_from_bytes_witness:
  "\<exists>H'. bson_init_static empty_heap 0 [5, 0, 0, 0, 0, 7] 5 = Some (framed (take 5 [5, 0, 0, 0, 0, 7]), H') \<and>
      (if framed (take 5 [5, 0, 0, 0, 0, 7]) then holds H' 0 (take 5 [5, 0, 0, 0, 0, 7]) \<and> \<not> writable H' 0
       else H' = empty_heap)"
  by (rule document_from_bytes [THEN conjunct1]) simp

subsection \<open>Copies are independent\<close>

text \<open>What a document needs from the store: its structure and the block it lives in.\<close>

lemma holds_same:
  assumes "holds H a xs" "h_docs H a = Some d" "h_docs H' a = Some d"
    "\<not> is_inline d \<Longrightarrow> h_cells H' (b_buf d) = h_cells H (b_buf d)"
  shows "holds H' a xs"
proof -
  have "doc_mem H' d = doc_mem H d" using assms(4) by (simp add: doc_mem_def)
  then show ?thesis using assms(1-3) unfolding holds_def by auto
qed

lemma framed_holds_length: "holds H a xs \<Longrightarrow> h_docs H a = Some d \<Longrightarrow> b_len d = length xs"
  by (auto simp: holds_def)

lemma copy_ok:
  assumes xs: "holds H src xs" "framed xs" and d: "h_docs H src = Some d" "src \<noteq> dst" "b_buf d \<noteq> Own dst"
  shows "\<exists>H'. bson_copy H dst src = Some (True, H') \<and> holds H' dst xs \<and> writable H' dst \<and>
    h_docs H' src = Some d \<and> h_cells H' (b_buf d) = h_cells H (b_buf d) \<and> own_block H' dst"
proof -
  have "bson_get_data H src = Some xs" using xs(1) by (auto simp: holds_def bson_get_data_def bson_data_read_def mem_read_def)
  then show ?thesis using new_from_data_ok [of "length xs" xs H dst] xs(2) d by (auto simp: bson_copy_def)
qed

lemma copy_to_ok:
  assumes xs: "holds H src xs" "5 \<le> length xs" "length xs \<le> INT_MAX" and d: "h_docs H src = Some d" "src \<noteq> dst" "b_buf d \<noteq> Own dst"
  shows "\<exists>H'. bson_copy_to H src dst = Some H' \<and> holds H' dst xs \<and> writable H' dst \<and>
    h_docs H' src = Some d \<and> h_cells H' (b_buf d) = h_cells H (b_buf d) \<and> own_block H' dst"
proof (cases "is_inline d")
  case True
  then show ?thesis using xs(1) d
    by (auto simp: bson_copy_to_def own_block_def holds_def writable_def doc_mem_def doc_off_def)
next
  case False
  have data: "bson_get_data H src = Some xs"
    using xs(1) by (auto simp: holds_def bson_get_data_def bson_data_read_def mem_read_def)
  have l: "b_len d = length xs" by (rule framed_holds_length [OF xs(1) d(1)])
  have pos: "0 < length xs" using xs(2) by linarith
  have big: "length xs \<le> next_pow2 (length xs)" by (rule next_pow2_ge [OF pos]) (use xs(3) in simp)
  let ?m = "patch (bson_malloc (h_junk H) (next_pow2 (length xs))) 0 xs"
  have m: "mem_write (bson_malloc (h_junk H) (next_pow2 (length xs))) 0 xs = Some ?m"
    using big by (intro mem_write_patch) simp
  have "length ?m = next_pow2 (length xs)" "take (length xs) ?m = xs" using big by (simp_all add: patch_def)
  then show ?thesis using False d data l m big
    by (auto simp: bson_copy_to_def own_block_def holds_def writable_def alloc_doc_def doc_mem_def doc_off_def Let_def)
qed

lemma frame_others:
  assumes "frame {dst} H1 dst H2" "own_block H1 dst"
  shows "src \<noteq> dst \<Longrightarrow> h_docs H2 src = h_docs H1 src" "c \<noteq> Own dst \<Longrightarrow> h_cells H2 c = h_cells H1 c"
proof -
  have fr: "\<forall>x. x \<notin> {dst} \<longrightarrow> h_docs H2 x = h_docs H1 x"
    using assms(1) unfolding frame_def by (rule conjunct1)
  then show "src \<noteq> dst \<Longrightarrow> h_docs H2 src = h_docs H1 src" by simp
  obtain e e' where e: "h_docs H1 dst = Some e" "same_place e e'"
      "is_inline e \<and> \<not> is_inline e' \<longrightarrow> b_buf e' = Own dst"
      "\<forall>b. is_inline e' \<or> b \<noteq> b_buf e' \<longrightarrow> h_cells H2 b = h_cells H1 b"
    using assms(1) unfolding frame_def by (elim conjE exE) blast
  have "is_inline e \<or> b_buf e = Own dst" using assms(2) e(1) by (auto simp: own_block_def)
  then have "is_inline e' \<or> b_buf e' = Own dst" using e(2,3) unfolding same_place_def by metis
  then show "c \<noteq> Own dst \<Longrightarrow> h_cells H2 c = h_cells H1 c" using e(4) by metis
qed

lemma holds_framed:
  assumes "holds H1 src xs" "h_docs H1 src = Some d" "src \<noteq> dst" "b_buf d \<noteq> Own dst"
    "frame {dst} H1 dst H2" "own_block H1 dst"
  shows "bson_get_data H2 src = Some xs"
proof -
  have "holds H2 src xs"
    by (rule holds_same [OF assms(1,2)]) (use frame_others [OF assms(5,6)] assms(2-4) in auto)
  then show ?thesis by (auto simp: holds_def bson_get_data_def bson_data_read_def mem_read_def)
qed

text \<open>
  C33. \<^verbatim>\<open>bson_copy\<close> and \<^verbatim>\<open>bson_copy_to\<close> give a writable document with the same bytes, and the copy is
  independent: whatever is done to the copy afterwards within its frame (as every append is), the
  source still has its bytes.
\<close>

theorem copies_are_independent:
  assumes xs: "holds H src xs" "framed xs" and d: "h_docs H src = Some d" "src \<noteq> dst" "b_buf d \<noteq> Own dst"
  shows "(\<exists>H1. bson_copy H dst src = Some (True, H1) \<and> holds H1 dst xs \<and> writable H1 dst \<and>
      (\<forall>H2. frame {dst} H1 dst H2 \<longrightarrow> bson_get_data H2 src = Some xs)) \<and>
    (\<exists>H1. bson_copy_to H src dst = Some H1 \<and> holds H1 dst xs \<and> writable H1 dst \<and>
      (\<forall>H2. frame {dst} H1 dst H2 \<longrightarrow> bson_get_data H2 src = Some xs))"
proof -
  have len: "5 \<le> length xs" "length xs \<le> INT_MAX" using xs(2) by (simp_all add: framed_def)
  have keep: "bson_get_data H2 src = Some xs"
    if "h_docs H1 src = Some d" "h_cells H1 (b_buf d) = h_cells H (b_buf d)" "own_block H1 dst" "frame {dst} H1 dst H2" for H1 H2
    using holds_framed [OF holds_same [OF xs(1) d(1) that(1)] that(1) d(2,3) that(4,3)] that(2) by blast
  show ?thesis using copy_ok [OF xs d] copy_to_ok [OF xs(1) len d] keep by blast
qed

definition two_heap :: heap where
  "two_heap = bson_init empty_heap 0"

lemma copies_are_independent_witness:
  "\<exists>H1. bson_copy two_heap 1 0 = Some (True, H1) \<and> holds H1 1 [5, 0, 0, 0, 0] \<and> writable H1 1 \<and>
      (\<forall>H2. frame {1} H1 1 H2 \<longrightarrow> bson_get_data H2 0 = Some [5, 0, 0, 0, 0])"
proof -
  have "framed [5, 0, 0, 0, 0]" by (simp add: framed_iff)
  moreover have "h_docs two_heap 0 = Some (inline_doc (h_junk empty_heap) 0 {BSON_FLAG_INLINE, BSON_FLAG_STATIC})"
    by (simp add: two_heap_def bson_init_def)
  ultimately show ?thesis
    using copies_are_independent [of two_heap 0 "[5, 0, 0, 0, 0]" _ 1, THEN conjunct1] init_holds(1) [of empty_heap 0]
    by (simp add: two_heap_def inline_doc_def)
qed

subsection \<open>Stealing\<close>

text \<open>
  \<^verbatim>\<open>bson_steal\<close> moves the contents of an inline document, or of one with its own block, to the
  destination, which is writable; a read-only document, a child or a document with an open child is
  refused, and the destination is then empty.
\<close>

theorem steal_moves:
  assumes xs: "holds H src xs" "h_docs H src = Some d" "src \<noteq> dst" "own_block H src"
  shows "\<exists>H'. bson_steal H dst src = Some (b_flags d \<inter> {BSON_FLAG_CHILD, BSON_FLAG_IN_CHILD, BSON_FLAG_RDONLY} = {}, H') \<and>
    holds H' dst (if b_flags d \<inter> {BSON_FLAG_CHILD, BSON_FLAG_IN_CHILD, BSON_FLAG_RDONLY} = {} then xs else [5, 0, 0, 0, 0]) \<and>
    writable H' dst"
proof (cases "b_flags d \<inter> {BSON_FLAG_CHILD, BSON_FLAG_IN_CHILD, BSON_FLAG_RDONLY} = {}")
  case False
  then show ?thesis using xs(2,3) init_holds [of H dst] by (auto simp: bson_steal_def bson_init_def)
next
  case True
  obtain mem where mem: "doc_mem H d = Some mem" "b_len d = length xs" "take (length xs) (drop (doc_off d) mem) = xs"
      "is_inline d \<longrightarrow> length mem = BSON_INLINE_DATA_SIZE \<and> b_depth d = 0" "doc_off d + length xs + b_depth d \<le> length mem"
    using xs(1,2) by (auto simp: holds_def)
  show ?thesis
  proof (cases "is_inline d")
    case inl: True
    then show ?thesis using True xs(2,3) mem
      by (auto simp: bson_steal_def bson_init_def inline_doc_def holds_def writable_def doc_mem_def doc_off_def
          del_doc_def Let_def)
  next
    case False
    then have "b_buf d = Own src" using xs(2,4) by (auto simp: own_block_def)
    then show ?thesis using True False xs(2,3) mem
      by (auto simp: bson_steal_def bson_init_def holds_def writable_def doc_mem_def doc_off_def del_doc_def set_doc_def Let_def)
  qed
qed

lemma steal_moves_witness:
  "\<exists>H'. bson_steal two_heap 1 0 = Some (True, H') \<and> holds H' 1 [5, 0, 0, 0, 0] \<and> writable H' 1"
proof -
  have d: "h_docs two_heap 0 = Some (inline_doc (h_junk empty_heap) 0 {BSON_FLAG_INLINE, BSON_FLAG_STATIC})"
    by (simp add: two_heap_def bson_init_def)
  then have "own_block two_heap 0" by (simp add: own_block_def inline_doc_def)
  then show ?thesis
    using steal_moves [OF _ d, of "[5, 0, 0, 0, 0]" 1] init_holds(1) [of empty_heap 0]
    by (simp add: two_heap_def inline_doc_def)
qed

text \<open>
  A document on a caller's buffer (\<^verbatim>\<open>bson_new_from_buffer\<close>, flag NO_FREE) is not refused by
  \<^verbatim>\<open>bson_steal\<close>: the call reports success, but the destination points at the source's own allocation,
  which such a document never had, so the contents are lost and reading them is a null access.
\<close>

theorem steal_from_buffer_loses_data:
  assumes "h_cells H (Ext i) = Some buf" "framed buf" "h_cells H (Own a) = None" "a \<noteq> dst"
  shows "\<exists>H1 H2. bson_new_from_buffer H a i = Some (True, H1) \<and> bson_get_data H1 a = Some buf \<and>
    bson_steal H1 dst a = Some (True, H2) \<and> bson_get_data H2 dst = None"
proof -
  have f: "5 \<le> length buf" "length buf \<le> INT_MAX" "take 4 buf = le_bytes 4 (length buf)" "last buf = 0"
    using assms(2) by (simp_all add: framed_def)
  have r: "rd32 buf 0 = Some (length buf)" using f by (simp add: rd32_in le_nat_le_bytes)
  have z: "rd8 buf (sub32 (length buf) 1) = Some 0"
    using f rd8_last [of "length buf" buf] framed_iff [OF f(1,2)] assms(2) by simp
  let ?d = "\<lparr>b_flags = {BSON_FLAG_NO_FREE}, b_len = length buf, b_data = [], b_parent = None, b_depth = 0,
      b_buf = Ext i, b_offset = 0, b_realloc = True\<rparr>"
  have new: "bson_new_from_buffer H a i = Some (True, set_doc H a ?d)"
    using assms(1) f(1,2) r z by (simp add: bson_new_from_buffer_def Let_def)
  moreover have "bson_get_data (set_doc H a ?d) a = Some buf"
    using assms(1) by (simp add: bson_get_data_def bson_data_read_def doc_mem_def doc_off_def mem_read_def)
  moreover have "\<exists>H2. bson_steal (set_doc H a ?d) dst a = Some (True, H2) \<and> bson_get_data H2 dst = None"
    using assms(3,4) by (auto simp: bson_steal_def bson_init_def bson_get_data_def bson_data_read_def doc_mem_def del_doc_def Let_def)
  ultimately show ?thesis by blast
qed

definition buffer_heap :: "bytes \<Rightarrow> heap" where
  "buffer_heap buf = set_cell empty_heap (Ext 0) buf"

lemma steal_from_buffer_loses_data_witness:
  "\<exists>H1 H2. bson_new_from_buffer (buffer_heap [5, 0, 0, 0, 0]) 0 0 = Some (True, H1) \<and>
    bson_get_data H1 0 = Some [5, 0, 0, 0, 0] \<and> bson_steal H1 1 0 = Some (True, H2) \<and> bson_get_data H2 1 = None"
  by (rule steal_from_buffer_loses_data) (simp_all add: buffer_heap_def empty_heap_def framed_iff)

text \<open>
  \<^verbatim>\<open>bson_new_from_buffer\<close> never compares the length in the buffer with the size of the buffer: a
  length beyond the buffer makes it read outside (at \<open>length - 1\<close>), and a length below five, which no
  document has, is accepted when the byte there is NUL.
\<close>

theorem buffer_length_unchecked:
  assumes "h_cells H (Ext i) = Some buf" "5 \<le> length buf" "length buf \<le> INT_MAX"
  shows "(length buf < le_nat (take 4 buf) \<longrightarrow> bson_new_from_buffer H a i = None) \<and>
    (take 4 buf = [2, 0, 0, 0] \<longrightarrow>
      (\<exists>H' d. bson_new_from_buffer H a i = Some (True, H') \<and> h_docs H' a = Some d \<and> b_len d = 2))"
proof (intro conjI impI)
  have r: "rd32 buf 0 = Some (le_nat (take 4 buf))" using assms(2) by (simp add: rd32_in)
  {
    assume big: "length buf < le_nat (take 4 buf)"
    have "le_nat (take 4 buf) < 2 ^ 32" using le_nat_less [of "take 4 buf"] assms(2) by (simp add: min_absorb2)
    then have "sub32 (le_nat (take 4 buf)) 1 = le_nat (take 4 buf) - 1" using big by (intro sub32_eq) simp_all
    then have "rd8 buf (sub32 (le_nat (take 4 buf)) 1) = None" using big by (simp add: rd8_def)
    then show "bson_new_from_buffer H a i = None" using assms r by (simp add: bson_new_from_buffer_def Let_def)
  next
    assume two: "take 4 buf = [2, 0, 0, 0]"
    then have "buf ! 1 = 0" using nth_take [of 1 4 buf] by simp
    then have "rd8 buf (sub32 2 1) = Some 0" using assms(2) by (simp add: rd8_def)
    then show "\<exists>H' d. bson_new_from_buffer H a i = Some (True, H') \<and> h_docs H' a = Some d \<and> b_len d = 2"
      using assms r two by (simp add: bson_new_from_buffer_def Let_def)
  }
qed

lemma buffer_length_unchecked_witness:
  "bson_new_from_buffer (buffer_heap [255, 0, 0, 0, 0]) 0 0 = None"
  by (rule buffer_length_unchecked [where buf = "[255, 0, 0, 0, 0]", THEN conjunct1, THEN mp])
    (simp_all add: buffer_heap_def)

subsection \<open>Comparison\<close>

lemma memcmp_sym: "memcmp ys xs = - memcmp xs ys"
  by (induction xs ys rule: memcmp.induct) (auto simp: not_less_iff_gr_or_eq)

lemma memcmp_0: "length xs = length ys \<Longrightarrow> memcmp xs ys = 0 \<longleftrightarrow> xs = ys"
  by (induction xs ys rule: list_induct2) auto

lemma memcmp_range: "memcmp xs ys \<in> {-1, 0, 1}"
  by (induction xs ys rule: memcmp.induct) auto

lemma holds_read:
  assumes "holds H a xs" "i + n \<le> length xs"
  shows "bson_data_read H a i n = Some (take n (drop i xs))"
proof -
  obtain d mem where d: "h_docs H a = Some d" "doc_mem H d = Some mem"
      "take (length xs) (drop (doc_off d) mem) = xs" "doc_off d + length xs \<le> length mem"
    using assms(1) by (auto simp: holds_def)
  have "take n (drop i xs) = take n (drop i (take (length xs) (drop (doc_off d) mem)))" using d(3) by simp
  also have "\<dots> = take n (drop (doc_off d + i) mem)" using assms(2) by (simp add: drop_take min_absorb1 add.commute)
  finally show ?thesis using d assms(2) by (simp add: bson_data_read_def mem_read_def)
qed

definition cmp_docs :: "bytes \<Rightarrow> bytes \<Rightarrow> int" where
  "cmp_docs xs ys =
     (let r = memcmp (drop 4 xs) (drop 4 ys)
      in if r \<noteq> 0 then r else if length xs < length ys then -1 else if length ys < length xs then 1 else 0)"

lemma memcmp_take: "n = min (length xs) (length ys) \<Longrightarrow> memcmp (take n xs) (take n ys) = memcmp xs ys"
  by (induction xs ys arbitrary: n rule: memcmp.induct) auto

lemma compare_eq:
  assumes "holds H a xs" "holds H b ys" "framed xs" "framed ys"
  shows "bson_compare H a b = Some (cmp_docs xs ys)"
proof -
  have l: "5 \<le> length xs" "length xs \<le> INT_MAX" "5 \<le> length ys" "length ys \<le> INT_MAX"
    using assms by (simp_all add: framed_def)
  obtain d1 d2 where d: "h_docs H a = Some d1" "h_docs H b = Some d2" "b_len d1 = length xs" "b_len d2 = length ys"
    using assms(1,2) by (auto simp: holds_def)
  have s: "sub32 (length xs) 4 = length xs - 4" "sub32 (length ys) 4 = length ys - 4" using l by simp_all
  have e: "length xs - 4 = length ys - 4 \<longleftrightarrow> length xs = length ys" using l by auto
  let ?n = "min (length xs - 4) (length ys - 4)"
  have rd: "bson_data_read H a 4 ?n = Some (take ?n (drop 4 xs))" "bson_data_read H b 4 ?n = Some (take ?n (drop 4 ys))"
    using holds_read [OF assms(1), of 4 ?n] holds_read [OF assms(2), of 4 ?n] l by auto
  have m: "memcmp (take ?n (drop 4 xs)) (take ?n (drop 4 ys)) = memcmp (drop 4 xs) (drop 4 ys)"
    by (rule memcmp_take) simp
  have r: "memcmp (drop 4 xs) (drop 4 ys) \<in> {-1, 0, 1}" by (rule memcmp_range)
  show ?thesis
  proof (cases "length xs = length ys")
    case True
    then show ?thesis using d s rd m by (simp add: bson_compare_def cmp_docs_def Let_def)
  next
    case False
    then have lt: "int (length xs - 4) - int (length ys - 4) = int (length xs) - int (length ys)" using l by simp
    have ne: "length xs - 4 \<noteq> length ys - 4" using e False by simp
    have c: "bson_compare H a b = Some (let ret = memcmp (drop 4 xs) (drop 4 ys);
        ret = (if ret = 0 then int (length xs) - int (length ys) else ret)
      in if ret < 0 then -1 else if ret > 0 then 1 else 0)"
      unfolding bson_compare_def d(1,2) Option.bind.simps d(3,4) s Let_def if_not_P [OF ne] rd m lt by (rule refl)
    show ?thesis unfolding c cmp_docs_def Let_def using r False by auto
  qed
qed

text \<open>
  C36. On documents \<^verbatim>\<open>bson_compare\<close> is a comparison: zero exactly for equal bytes (which is what
  \<^verbatim>\<open>bson_equal\<close> answers), of opposite sign when the arguments are swapped, and decided by the
  first difference of the bodies, then by the length.
\<close>

theorem compare_is_order:
  assumes "holds H a xs" "holds H b ys" "framed xs" "framed ys"
  shows "bson_compare H a b = Some (cmp_docs xs ys) \<and> bson_compare H b a = Some (- cmp_docs xs ys) \<and>
    bson_equal H a b = Some (xs = ys)"
proof -
  have anti: "cmp_docs ys xs = - cmp_docs xs ys"
    using memcmp_sym [of "drop 4 ys" "drop 4 xs"] by (auto simp: cmp_docs_def Let_def)
  have "cmp_docs xs ys = 0 \<longleftrightarrow> xs = ys"
  proof
    assume z: "cmp_docs xs ys = 0"
    then have l: "length xs = length ys" by (auto simp: cmp_docs_def Let_def split: if_splits)
    then have "drop 4 xs = drop 4 ys" using z memcmp_0 [of "drop 4 xs" "drop 4 ys"] by (auto simp: cmp_docs_def Let_def split: if_splits)
    moreover have "take 4 xs = take 4 ys" using assms(3,4) l by (simp add: framed_def)
    ultimately show "xs = ys" by (metis append_take_drop_id)
  next
    assume "xs = ys"
    then show "cmp_docs xs ys = 0" using memcmp_0 [of "drop 4 xs" "drop 4 ys"] by (simp add: cmp_docs_def)
  qed
  then show ?thesis using compare_eq [OF assms] compare_eq [OF assms(2,1,4,3)] anti
    by (simp add: bson_equal_def)
qed

lemma compare_is_order_witness:
  "bson_compare two_heap 0 0 = Some (cmp_docs [5, 0, 0, 0, 0] [5, 0, 0, 0, 0])"
proof -
  have h: "holds two_heap 0 [5, 0, 0, 0, 0]" using init_holds(1) [of empty_heap 0] by (simp add: two_heap_def)
  have f: "framed [5, 0, 0, 0, 0]" by (simp add: framed_iff)
  show ?thesis by (rule compare_is_order [OF h h f f, THEN conjunct1])
qed

end
