(* ===== verification/Bson_Build.thy ===== *)
theory Bson_Build
  imports Bson_Append Bson_Life
begin

text \<open>
  Appending values of any type (\<^verbatim>\<open>bson_append_value\<close> on the tagged union of bson-types.h) and nested
  documents built in place (\<^verbatim>\<open>bson_append_document_begin\<close> and \<^verbatim>\<open>_end\<close>, which share the buffer of the
  outermost document) of \<^verbatim>\<open>src/bson/bson.c\<close>.
\<close>

subsection \<open>Tagged values\<close>

text \<open>
  \<^verbatim>\<open>bson_value_t\<close>: the tag with the member of the union it selects. Pointers are the memory behind them,
  next to the length fields the code reads.
\<close>

datatype bson_value =
    BV_EOD
  | BV_Double u64
  | BV_Utf8 bytes nat
  | BV_Document bytes nat
  | BV_Array bytes nat
  | BV_Binary u8 bytes nat
  | BV_Undefined
  | BV_Oid bytes
  | BV_Bool bool
  | BV_DateTime u64
  | BV_Null
  | BV_Regex bytes bytes
  | BV_DBPointer bytes nat bytes
  | BV_Code bytes nat
  | BV_Symbol bytes nat
  | BV_CodeWScope bytes nat bytes nat
  | BV_Int32 u32
  | BV_Timestamp u32 u32
  | BV_Int64 u64
  | BV_Decimal128 u64 u64
  | BV_MaxKey
  | BV_MinKey

text \<open>A \<^verbatim>\<open>uint32_t\<close> length passed as \<^verbatim>\<open>int\<close>.\<close>

definition to_int :: "nat \<Rightarrow> int" where
  "to_int n = (if n \<le> INT_MAX then int n else int n - 2 ^ 32)"

text \<open>The variable \<^verbatim>\<open>local\<close> lives at the address \<open>loc\<close> and leaves the store when the function returns.\<close>

definition leave_local :: "heap \<Rightarrow> addr \<Rightarrow> heap \<Rightarrow> heap" where
  "leave_local H loc H' = H'\<lparr>h_docs := (h_docs H')(loc := h_docs H loc),
     h_cells := (h_cells H')(Own loc := h_cells H (Own loc))\<rparr>"

definition with_static ::
  "heap \<Rightarrow> addr \<Rightarrow> bytes \<Rightarrow> nat \<Rightarrow> (heap \<Rightarrow> (bool \<times> heap) option) \<Rightarrow> (bool \<times> heap) option" where
  "with_static H loc data len f = do {
     (ok, H1) \<leftarrow> bson_init_static H loc data len;
     (if ok then do {
        (ret, H2) \<leftarrow> f H1;
        H3 \<leftarrow> bson_destroy H2 loc;
        Some (ret, leave_local H loc H3) }
      else Some (False, leave_local H loc H1)) }"

fun bson_append_value :: "heap \<Rightarrow> addr \<Rightarrow> bytes \<Rightarrow> int \<Rightarrow> bson_value \<Rightarrow> addr \<Rightarrow> (bool \<times> heap) option" where
  "bson_append_value H a key kl (BV_Double x) loc = bson_append_double H a key kl x"
| "bson_append_value H a key kl (BV_Utf8 s len) loc = bson_append_utf8 H a key kl (Some s) (to_int len)"
| "bson_append_value H a key kl (BV_Document data len) loc =
     with_static H loc data len (\<lambda>H1. bson_append_document H1 a key kl loc)"
| "bson_append_value H a key kl (BV_Array data len) loc =
     with_static H loc data len (\<lambda>H1. bson_append_array H1 a key kl loc)"
| "bson_append_value H a key kl (BV_Binary st data len) loc = bson_append_binary H a key kl st data len"
| "bson_append_value H a key kl BV_Undefined loc = bson_append_undefined H a key kl"
| "bson_append_value H a key kl (BV_Oid i) loc = bson_append_oid H a key kl i"
| "bson_append_value H a key kl (BV_Bool b) loc = bson_append_bool H a key kl b"
| "bson_append_value H a key kl (BV_DateTime x) loc = bson_append_date_time H a key kl x"
| "bson_append_value H a key kl BV_Null loc = bson_append_null H a key kl"
| "bson_append_value H a key kl (BV_Regex r opt) loc = bson_append_regex H a key kl (Some r) (Some opt)"
| "bson_append_value H a key kl (BV_DBPointer c len i) loc = bson_append_dbpointer H a key kl c i"
| "bson_append_value H a key kl (BV_Code c len) loc = bson_append_code H a key kl c"
| "bson_append_value H a key kl (BV_Symbol s len) loc = bson_append_symbol H a key kl (Some s) (to_int len)"
| "bson_append_value H a key kl (BV_CodeWScope c code_len data len) loc =
     with_static H loc data len (\<lambda>H1. bson_append_code_with_scope H1 a key kl c (Some loc))"
| "bson_append_value H a key kl (BV_Int32 x) loc = bson_append_int32 H a key kl x"
| "bson_append_value H a key kl (BV_Timestamp ts inc) loc = bson_append_timestamp H a key kl ts inc"
| "bson_append_value H a key kl (BV_Int64 x) loc = bson_append_int64 H a key kl x"
| "bson_append_value H a key kl (BV_Decimal128 hi lo) loc = bson_append_decimal128 H a key kl (hi, lo)"
| "bson_append_value H a key kl BV_MaxKey loc = bson_append_maxkey H a key kl"
| "bson_append_value H a key kl BV_MinKey loc = bson_append_minkey H a key kl"
| "bson_append_value H a key kl BV_EOD loc = Some (False, H)"

text \<open>The value of the code for an abstract value: nested documents are their bytes.\<close>

fun value_of :: "bval \<Rightarrow> bson_value" where
  "value_of (VDouble x) = BV_Double x"
| "value_of (VUtf8 s) = BV_Utf8 (s @ [0]) (length s)"
| "value_of (VDocument es) = BV_Document (enc_doc es) (length (enc_doc es))"
| "value_of (VArray es) = BV_Array (enc_doc es) (length (enc_doc es))"
| "value_of (VBinary st b) = BV_Binary st b (length b)"
| "value_of VUndefined = BV_Undefined"
| "value_of (VOid i) = BV_Oid i"
| "value_of (VBool b) = BV_Bool b"
| "value_of (VDateTime x) = BV_DateTime x"
| "value_of VNull = BV_Null"
| "value_of (VRegex r opt) = BV_Regex (r @ [0]) (opt @ [0])"
| "value_of (VDBPointer c i) = BV_DBPointer (c @ [0]) (length c) i"
| "value_of (VCode c) = BV_Code (c @ [0]) (length c)"
| "value_of (VSymbol s) = BV_Symbol (s @ [0]) (length s)"
| "value_of (VCodeWScope c es) = BV_CodeWScope (c @ [0]) (length c) (enc_doc es) (length (enc_doc es))"
| "value_of (VInt32 x) = BV_Int32 x"
| "value_of (VTimestamp ts inc) = BV_Timestamp ts inc"
| "value_of (VInt64 x) = BV_Int64 x"
| "value_of (VDecimal128 hi lo) = BV_Decimal128 hi lo"
| "value_of VMaxKey = BV_MaxKey"
| "value_of VMinKey = BV_MinKey"

text \<open>
  The values an append takes over as they are: the options of a regular expression are in the order the
  code writes them, and the announced length of a regular expression (one byte short) does not meet a
  tight block.
\<close>

fun value_ok :: "heap \<Rightarrow> addr \<Rightarrow> bytes \<Rightarrow> bval \<Rightarrow> bool" where
  "value_ok H a k (VRegex r opt) \<longleftrightarrow> sort_opts opt = opt \<and> \<not> doc_tight H a (length (enc_elem k (VRegex r opt)))"
| "value_ok H a k _ \<longleftrightarrow> True"

lemma c_string_whole: "no_nul s \<Longrightarrow> c_string (s @ [0]) 0 = Some s"
  using c_string_append [of 0 "[]" s "[]"] by simp

lemma int_string_c: "no_nul s \<Longrightarrow> length s \<le> INT_MAX \<Longrightarrow> int_string (s @ [0]) (-1) = Some s"
  by (simp add: int_string_def c_string_whole)

lemma int_string_n: "length s \<le> INT_MAX \<Longrightarrow> int_string (s @ [0]) (to_int (length s)) = Some s"
  by (simp add: int_string_def to_int_def mem_read_def)

lemma elem_fits_length: "elem_fits H a k v \<Longrightarrow> length (enc_val v) + 2 \<le> BSON_MAX_SIZE"
  using doc_fits_small by (fastforce simp: elem_fits_def enc_elem_def)

subsection \<open>Local documents\<close>

definition local_free :: "heap \<Rightarrow> addr \<Rightarrow> addr \<Rightarrow> bool" where
  "local_free H a loc \<longleftrightarrow> a \<noteq> loc \<and> (\<exists>d. h_docs H a = Some d \<and> (is_inline d \<or> b_buf d \<noteq> Own loc))"

lemma framed_enc_doc:
  assumes "length (enc_doc es) \<le> INT_MAX"
  shows "framed (enc_doc es)"
  using assms by (simp add: framed_def enc_doc_def frame_doc_def le32_def add.commute)

lemma local_same:
  assumes "local_free H a loc" "\<forall>x. x \<noteq> loc \<longrightarrow> h_docs H' x = h_docs H x" "\<forall>c. c \<noteq> Own loc \<longrightarrow> h_cells H' c = h_cells H c"
  shows "rep H a es \<Longrightarrow> rep H' a es" "elem_fits H a k v \<Longrightarrow> elem_fits H' a k v"
proof -
  obtain d where d: "h_docs H a = Some d" "h_docs H' a = Some d" "doc_mem H' d = doc_mem H d"
    using assms by (auto simp: local_free_def doc_mem_def)
  show "rep H a es \<Longrightarrow> rep H' a es" using d by (auto simp: rep_def holds_def writable_def)
  show "elem_fits H a k v \<Longrightarrow> elem_fits H' a k v" using d by (auto simp: elem_fits_def doc_fits_def)
qed

lemma frame_leave_local:
  assumes loc: "local_free H a loc" and d: "\<forall>x. x \<noteq> loc \<longrightarrow> h_docs H1 x = h_docs H x"
    and c: "\<forall>c. c \<noteq> Own loc \<longrightarrow> h_cells H1 c = h_cells H c"
    and fr: "frame {a} H1 a H2" and rep: "rep H2 a es"
  shows "frame {a} H a (leave_local H loc H2) \<and> rep (leave_local H loc H2) a es"
proof -
  let ?L = "leave_local H loc H2"
  have al: "a \<noteq> loc" using loc by (simp add: local_free_def)
  obtain e where e: "h_docs H a = Some e" "is_inline e \<or> b_buf e \<noteq> Own loc" using loc by (auto simp: local_free_def)
  have e1: "h_docs H1 a = Some e" using d al e(1) by simp
  obtain e' where e': "h_docs H2 a = Some e'" "same_place e e'"
      "is_inline e \<and> \<not> is_inline e' \<longrightarrow> b_buf e' = Own a \<and> b_offset e' = 0 \<and> b_depth e' = 0 \<and> b_realloc e'"
      "\<forall>b. is_inline e' \<or> b \<noteq> b_buf e' \<longrightarrow> h_cells H2 b = h_cells H1 b"
      "\<not> is_inline e \<longrightarrow> (\<exists>m m'. h_cells H1 (b_buf e) = Some m \<and> h_cells H2 (b_buf e) = Some m' \<and>
           length m \<le> length m' \<and> take (b_offset e) m' = take (b_offset e) m)"
    using fr e1 unfolding frame_def by (elim conjE exE) (metis option.inject)
  have other: "\<forall>x. x \<notin> {a} \<longrightarrow> h_docs H2 x = h_docs H1 x" using fr unfolding frame_def by (rule conjunct1)
  have buf': "is_inline e' \<or> b_buf e' \<noteq> Own loc" using e(2) e'(2,3) al unfolding same_place_def by (metis bufref.inject(1))
  have docs: "h_docs ?L a = Some e'" using al e'(1) by (simp add: leave_local_def)
  have cells: "b \<noteq> Own loc \<Longrightarrow> h_cells ?L b = h_cells H2 b" for b by (simp add: leave_local_def)
  have "\<forall>x. x \<notin> {a} \<longrightarrow> h_docs ?L x = h_docs H x" using other d by (simp add: leave_local_def)
  moreover have "\<forall>b. is_inline e' \<or> b \<noteq> b_buf e' \<longrightarrow> h_cells ?L b = h_cells H b"
    using e'(4) c by (simp add: leave_local_def)
  moreover have "\<not> is_inline e \<longrightarrow> (\<exists>m m'. h_cells H (b_buf e) = Some m \<and> h_cells ?L (b_buf e) = Some m' \<and>
           length m \<le> length m' \<and> take (b_offset e) m' = take (b_offset e) m)"
    using e'(5) e(2) c cells by auto
  ultimately have "frame {a} H a ?L" unfolding frame_def using e(1) docs e'(2,3) by blast
  moreover have "doc_mem ?L e' = doc_mem H2 e'" using buf' cells by (auto simp: doc_mem_def)
  then have "rep ?L a es" using rep docs e'(1) by (auto simp: rep_def holds_def writable_def)
  ultimately show ?thesis by blast
qed

lemma with_static_ok:
  assumes loc: "local_free H a loc" and rep: "rep H a es" and fits: "elem_fits H a k v"
    and sub: "length (enc_doc sub) \<le> INT_MAX"
    and f: "\<And>H1. rep H1 a es \<Longrightarrow> elem_fits H1 a k v \<Longrightarrow> bson_get_data H1 loc = Some (enc_doc sub) \<Longrightarrow>
      appends H1 a es k v (f H1)"
  shows "appends H a es k v (with_static H loc (enc_doc sub) (length (enc_doc sub)) f)"
proof -
  have fr: "framed (take (length (enc_doc sub)) (enc_doc sub))" using framed_enc_doc [OF sub] by simp
  obtain H1 where H1: "bson_init_static H loc (enc_doc sub) (length (enc_doc sub)) = Some (True, H1)"
    using init_static_ok [of "length (enc_doc sub)" "enc_doc sub" H loc] fr by simp
  have s: "holds H1 loc (enc_doc sub)" "\<forall>x. x \<noteq> loc \<longrightarrow> h_docs H1 x = h_docs H x"
      "\<forall>c. c \<noteq> Own loc \<longrightarrow> h_cells H1 c = h_cells H c"
    using init_static_holds [OF _ fr H1] by simp_all
  obtain dl where dl: "h_docs H1 loc = Some dl" "b_flags dl = {BSON_FLAG_STATIC, BSON_FLAG_RDONLY}"
    using H1 init_static_ok [of "length (enc_doc sub)" "enc_doc sub" H loc] fr by (auto simp: alloc_doc_def)
  obtain H2 where H2: "f H1 = Some (True, H2)" "rep H2 a (es @ [(k, v)])" "frame {a} H1 a H2"
    using f [OF local_same(1) [OF loc s(2,3) rep] local_same(2) [OF loc s(2,3) fits] holds_get_data [OF s(1)]]
    by (auto simp: appends_def)
  have "a \<noteq> loc" using loc by (simp add: local_free_def)
  then have "h_docs H2 loc = Some dl" using H2(3) dl(1) unfolding frame_def by auto
  then have "bson_destroy H2 loc = Some H2" using dl(2) by (simp add: bson_destroy_def)
  with H1 H2 frame_leave_local [OF loc s(2,3) H2(3,2)] show ?thesis
    by (simp add: with_static_def appends_def)
qed

lemma append_value_ok:
  assumes rep: "rep H a es" and key: "int_string key kl = Some k" and fits: "elem_fits H a k v"
    and v: "wf_val v" "value_ok H a k v" and loc: "local_free H a loc"
  shows "appends H a es k v (bson_append_value H a key kl (value_of v) loc)"
proof -
  note len = elem_fits_length [OF fits]
  show ?thesis
  proof (cases v)
    case (VUtf8 s)
    then show ?thesis using append_strings(1) [OF rep key int_string_n] fits len by (simp add: enc_string_def)
  next
    case (VSymbol s)
    then show ?thesis using append_strings(2) [OF rep key int_string_n] fits len by (simp add: enc_string_def)
  next
    case (VDocument sub)
    have "appends H a es k v (with_static H loc (enc_doc sub) (length (enc_doc sub)) (\<lambda>H1. bson_append_document H1 a key kl loc))"
      by (rule with_static_ok [OF loc rep fits]) (use VDocument len append_document key in \<open>auto simp: enc_doc_def\<close>)
    then show ?thesis using VDocument by simp
  next
    case (VArray sub)
    have "appends H a es k v (with_static H loc (enc_doc sub) (length (enc_doc sub)) (\<lambda>H1. bson_append_array H1 a key kl loc))"
      by (rule with_static_ok [OF loc rep fits]) (use VArray len append_array key in \<open>auto simp: enc_doc_def\<close>)
    then show ?thesis using VArray by simp
  next
    case (VCodeWScope c sub)
    then have c: "int_string (c @ [0]) (-1) = Some c"
      using v(1) len by (intro int_string_c) (simp_all add: enc_string_def Let_def)
    have "appends H a es k v (with_static H loc (enc_doc sub) (length (enc_doc sub))
        (\<lambda>H1. bson_append_code_with_scope H1 a key kl (c @ [0]) (Some loc)))"
      by (rule with_static_ok [OF loc rep fits])
        (use VCodeWScope len append_code_with_scope [OF _ key _ c] in \<open>auto simp: enc_doc_def Let_def\<close>)
    then show ?thesis using VCodeWScope by simp
  next
    case (VBinary st b)
    then show ?thesis using append_binary [OF rep key _, of st b b "length b"] fits by (simp add: mem_read_def)
  next
    case (VOid i)
    then show ?thesis using append_oid [OF rep key _, of i i] fits v(1) by (simp add: mem_read_def)
  next
    case (VRegex r opt)
    then have "int_string (r @ [0]) (-1) = Some r" "c_string (opt @ [0]) 0 = Some opt"
      using v(1) len by (auto intro!: int_string_c c_string_whole)
    from append_regex [OF rep key _ this] VRegex fits v(2) show ?thesis by simp
  next
    case (VDBPointer c i)
    then have "int_string (c @ [0]) (-1) = Some c" "mem_read i 0 12 = Some i"
      using v(1) len by (auto intro!: int_string_c simp: mem_read_def enc_string_def)
    from append_dbpointer [OF rep key _ this] VDBPointer fits show ?thesis by simp
  next
    case (VCode c)
    then have "int_string (c @ [0]) (-1) = Some c" using v(1) len by (auto intro!: int_string_c simp: enc_string_def)
    from append_code [OF rep key _ this] VCode fits show ?thesis by simp
  qed (use fits append_ok [OF rep key] in auto)
qed

text \<open>
  C10. \<^verbatim>\<open>bson_append_value\<close> implements the abstract append for every type of value: if the element fits
  (and, for a regular expression, its options are sorted and the document is not one byte short, see
  \<open>regex_writes_past_inline\<close>), the call succeeds and the document then holds the old elements followed by the new one, encoded as the
  specification of the format says; nothing else in the store changes.
\<close>

theorem append_value_refines:
  assumes "rep H a es" "int_string key kl = Some k" "elem_fits H a k v" "wf_val v" "value_ok H a k v" "local_free H a loc"
  shows "\<exists>H'. bson_append_value H a key kl (value_of v) loc = Some (True, H') \<and> rep H' a (es @ [(k, v)]) \<and> frame {a} H a H'"
  using append_value_ok [OF assms] by (simp add: appends_def)

lemma two_heap_rep: "rep two_heap 0 []"
proof -
  have "enc_doc [] = [5, 0, 0, 0, 0]" by (simp add: enc_doc_def frame_doc_def le32_def le_bytes_num)
  then show ?thesis using init_holds [of empty_heap 0] by (simp add: rep_def two_heap_def)
qed

lemma append_value_refines_witness:
  "\<exists>H'. bson_append_value two_heap 0 [0x61, 0] (-1) (value_of (VUtf8 [0x62, 0x63])) 1 = Some (True, H') \<and>
     rep H' 0 ([] @ [([0x61], VUtf8 [0x62, 0x63])]) \<and> frame {0} two_heap 0 H'"
proof (rule append_value_refines)
  have d: "h_docs two_heap 0 = Some (inline_doc (h_junk empty_heap) 0 {BSON_FLAG_INLINE, BSON_FLAG_STATIC})"
    by (simp add: two_heap_def bson_init_def)
  show "int_string [0x61, 0] (-1) = Some [0x61 :: u8]" by (simp add: int_string_def c_string_def)
  show "elem_fits two_heap 0 [0x61] (VUtf8 [0x62, 0x63])"
    using d by (simp add: elem_fits_def doc_fits_def inline_doc_def doc_mem_def enc_elem_def enc_string_def)
  show "local_free two_heap 0 1" using d by (simp add: local_free_def inline_doc_def)
qed (simp_all add: two_heap_rep)

text \<open>
  C19. An append happens completely or not at all. For any pairs whose total is announced correctly, if the
  bytes fit (32-bit length, and the block has room or may grow, which it does up to 2^30 bytes) the
  call succeeds and the document holds its old bytes with the new ones in front of the terminator and
  the new length; otherwise it returns false and the store is unchanged.
\<close>

theorem append_all_or_nothing:
  assumes "holds H a xs" "5 \<le> length xs" "length xs \<le> INT_MAX" "writable H a" "h_docs H a = Some d"
    and "pairs \<noteq> []" "hd pairs \<noteq> []"
    and "doc_off d + length xs + b_depth d + length (concat pairs) \<le> 2 ^ 63"
  shows "if doc_fits H a (length (concat pairs))
    then (\<exists>H'. bson_append_pairs H a (length (concat pairs)) pairs = Some (True, H') \<and>
      holds H' a (append_bytes xs (concat pairs)) \<and> frame {a} H a H')
    else bson_append_pairs H a (length (concat pairs)) pairs = Some (False, H)"
  using append_pairs_ok [OF assms(1,2,4,6,7) refl]
    append_pairs_refused [OF assms(1,2,4,6,7) _ assms(5,8) assms(3)] by auto

lemma append_all_or_nothing_witness:
  "if doc_fits two_heap 0 (length (concat [[0x0A], [0x61], [0 :: u8]]))
    then (\<exists>H'. bson_append_pairs two_heap 0 (length (concat [[0x0A], [0x61], [0 :: u8]])) [[0x0A], [0x61], [0]] = Some (True, H') \<and>
      holds H' 0 (append_bytes [5, 0, 0, 0, 0] (concat [[0x0A], [0x61], [0]])) \<and> frame {0} two_heap 0 H')
    else bson_append_pairs two_heap 0 (length (concat [[0x0A], [0x61], [0 :: u8]])) [[0x0A], [0x61], [0]] = Some (False, two_heap)"
proof (rule append_all_or_nothing)
  show "h_docs two_heap 0 = Some (inline_doc (h_junk empty_heap) 0 {BSON_FLAG_INLINE, BSON_FLAG_STATIC})"
    by (simp add: two_heap_def bson_init_def)
qed (use init_holds [of empty_heap 0] in \<open>simp_all add: two_heap_def inline_doc_def doc_off_def\<close>)

text \<open>
  \<^verbatim>\<open>bson_append_regex\<close> announces one byte less than it writes (the terminator of the options is not
  counted). When the announced bytes exactly fill the 120 inline bytes, the document is not moved to the
  heap and the call writes one byte behind the structure.
\<close>

theorem regex_writes_past_inline:
  assumes "rep H a es" "h_docs H a = Some d" "BSON_FLAG_INLINE \<in> b_flags d"
    and "int_string key kl = Some k" "int_string regex (-1) = Some r" "c_string options 0 = Some opts"
    and "length (enc_doc es) + length (enc_elem k (VRegex r (sort_opts opts))) = 121"
  shows "bson_append_regex H a key kl (Some regex) (Some options) = None"
proof -
  let ?v = "VRegex r (sort_opts opts)"
  obtain n where n: "Suc n = length (enc_elem k ?v)" by (simp add: enc_elem_def)
  have c: "length (concat [[BSON_TYPE_REGEX], k, [0], r @ [0], sort_opts opts @ [0]]) = Suc n"
    unfolding n by (simp add: enc_elem_def)
  have full: "length (enc_doc es) + n = BSON_INLINE_DATA_SIZE" using assms(7) n by simp
  have m: "(length (enc_elem k ?v) - 1) mod 2 ^ 32 = n" using full n by simp
  have "holds H a (enc_doc es)" "writable H a" using assms(1) by (simp_all add: rep_def)
  from append_pairs_overflow [OF this(1) length_enc_doc_ge this(2) assms(2,3) _ _ c [symmetric] full]
  show ?thesis unfolding regex_call [OF assms(4-6)] m by simp
qed

lemma regex_writes_past_inline_witness:
  "bson_append_regex two_heap 0 (replicate 100 0x61 @ [0]) (-1) (Some (replicate 12 0x62 @ [0])) (Some [0]) = None"
proof (rule regex_writes_past_inline [OF two_heap_rep])
  show "h_docs two_heap 0 = Some (inline_doc (h_junk empty_heap) 0 {BSON_FLAG_INLINE, BSON_FLAG_STATIC})"
    by (simp add: two_heap_def bson_init_def)
  show "int_string (replicate 100 0x61 @ [0]) (-1) = Some (replicate 100 (0x61 :: u8))"
    "int_string (replicate 12 0x62 @ [0]) (-1) = Some (replicate 12 (0x62 :: u8))"
    by (rule int_string_c; simp add: no_nul_def list_all_iff)+
  show "c_string [0] 0 = Some []" by (simp add: c_string_def)
  show "length (enc_doc []) + length (enc_elem (replicate 100 0x61) (VRegex (replicate 12 0x62) (sort_opts []))) = 121"
    by (simp add: enc_simps sort_opts_def)
qed (simp add: inline_doc_def)

subsection \<open>Open children\<close>

definition bson_append_bson_begin ::
  "heap \<Rightarrow> addr \<Rightarrow> bytes \<Rightarrow> int \<Rightarrow> u8 \<Rightarrow> addr \<Rightarrow> (bool \<times> heap) option" where
  "bson_append_bson_begin H a key key_length child_type child = do {
     d \<leftarrow> h_docs H a;
     (if BSON_FLAG_RDONLY \<in> b_flags d \<or> BSON_FLAG_IN_CHILD \<in> b_flags d \<or>
         (child_type \<noteq> BSON_TYPE_DOCUMENT \<and> child_type \<noteq> BSON_TYPE_ARRAY) then None
      else do {
        k \<leftarrow> int_string key key_length;
        (ok, H1) \<leftarrow> (if is_inline d
                     then (if \<not> b_len d \<le> 120 then None else bson_grow H a (128 - b_len d))
                     else Some (True, H));
        (if \<not> ok then Some (False, H1)
         else do {
           d1 \<leftarrow> h_docs H1 a;
           (if is_inline d1 then None
            else do {
              (ok, H2) \<leftarrow> bson_append_pairs H1 a ((1 + length k + 1 + 5) mod 2 ^ 32)
                           [[child_type], k, [0], [5, 0, 0, 0, 0]];
              (if \<not> ok then Some (False, H2)
               else do {
                 p \<leftarrow> h_docs H2 a;
                 let H3 = set_doc H2 a (p\<lparr>b_flags := insert BSON_FLAG_IN_CHILD (b_flags p)\<rparr>);
                 Some (True, set_doc H3 child
                   \<lparr>b_flags = {BSON_FLAG_CHILD, BSON_FLAG_NO_FREE, BSON_FLAG_STATIC}, b_len = 5, b_data = [],
                    b_parent = Some a,
                    b_depth = (if BSON_FLAG_CHILD \<in> b_flags p then b_depth p + 1 else 1),
                    b_buf = b_buf p, b_offset = b_offset p + b_len p - 1 - 5, b_realloc = b_realloc p\<rparr>) }) }) }) }) }"

definition bson_append_bson_end :: "heap \<Rightarrow> addr \<Rightarrow> addr \<Rightarrow> (bool \<times> heap) option" where
  "bson_append_bson_end H a child = do {
     p \<leftarrow> h_docs H a;
     c \<leftarrow> h_docs H child;
     (if BSON_FLAG_IN_CHILD \<notin> b_flags p \<or> BSON_FLAG_IN_CHILD \<in> b_flags c then None
      else do {
        let len = sub32 (add32 (b_len p) (b_len c)) 5;
        let H1 = set_doc H a (p\<lparr>b_flags := b_flags p - {BSON_FLAG_IN_CHILD}, b_len := len\<rparr>);
        H2 \<leftarrow> bson_data_write H1 a (len - 1) [0];
        H3 \<leftarrow> bson_encode_length H2 a;
        Some (True, H3) }) }"

definition bson_append_document_begin where
  "bson_append_document_begin H a key key_length child = bson_append_bson_begin H a key key_length BSON_TYPE_DOCUMENT child"

definition bson_append_array_begin where
  "bson_append_array_begin H a key key_length child = bson_append_bson_begin H a key key_length BSON_TYPE_ARRAY child"

definition bson_append_document_end where "bson_append_document_end = bson_append_bson_end"
definition bson_append_array_end where "bson_append_array_end = bson_append_bson_end"

text \<open>
  \<open>room H a n\<close>: the document may grow to \<open>n\<close> bytes. \<open>depth_ok\<close>: only children have a depth.
\<close>

definition room :: "heap \<Rightarrow> addr \<Rightarrow> nat \<Rightarrow> bool" where
  "room H a n \<longleftrightarrow> (\<exists>d. h_docs H a = Some d \<and> (is_inline d \<or> b_realloc d) \<and> doc_off d + n + b_depth d \<le> 2 ^ 30 \<and>
     (BSON_FLAG_CHILD \<notin> b_flags d \<longrightarrow> b_depth d = 0))"

lemma room_fits: "room H a n \<Longrightarrow> rep H a es \<Longrightarrow> length (enc_doc (es @ [(k, v)])) \<le> n \<Longrightarrow> elem_fits H a k v"
proof -
  assume a: "room H a n" "rep H a es" "length (enc_doc (es @ [(k, v)])) \<le> n"
  obtain d where d: "h_docs H a = Some d" "is_inline d \<or> b_realloc d" "doc_off d + n + b_depth d \<le> 2 ^ 30"
    using a(1) by (auto simp: room_def)
  obtain mem where m: "doc_mem H d = Some mem" "b_len d = length (enc_doc es)"
    using a(2) d(1) by (auto simp: rep_def holds_def)
  have l: "b_len d + length (enc_elem k v) \<le> n" using a(3) m(2) by (simp add: enc_simps)
  show ?thesis unfolding elem_fits_def doc_fits_def
    by (intro exI conjI, rule d(1), rule m(1)) (use l d(2,3) in \<open>auto simp: doc_off_def Let_def split: if_splits\<close>)
qed

text \<open>
  The parent of an open child: everything in front of the child is in place, and the child starts where
  the parent's empty subdocument does.
\<close>

definition suspended :: "heap \<Rightarrow> addr \<Rightarrow> elems \<Rightarrow> bytes \<Rightarrow> u8 \<Rightarrow> addr \<Rightarrow> bool" where
  "suspended H a es k t c \<longleftrightarrow> (\<exists>p ch mem. h_docs H a = Some p \<and> h_docs H c = Some ch \<and> a \<noteq> c \<and>
     BSON_FLAG_IN_CHILD \<in> b_flags p \<and> BSON_FLAG_RDONLY \<notin> b_flags p \<and> \<not> is_inline p \<and>
     \<not> is_inline ch \<and> b_buf ch = b_buf p \<and> b_depth ch = b_depth p + 1 \<and> b_realloc ch = b_realloc p \<and>
     BSON_FLAG_CHILD \<in> b_flags ch \<and>
     b_len p = length (enc_elems es) + length k + 12 \<and> b_offset ch = b_offset p + b_len p - 6 \<and>
     h_cells H (b_buf p) = Some mem \<and>
     take (length (enc_elems es) + length k + 2) (drop (b_offset p + 4) mem) = enc_elems es @ [t] @ k @ [0])"

text \<open>
  \<open>local_change A H a H'\<close>: like \<open>frame\<close>, for changes on whose way the document at \<open>a\<close> had open children
  (at addresses in \<open>A\<close>).
\<close>

definition stays :: "addr \<Rightarrow> bson_t \<Rightarrow> bson_t \<Rightarrow> bool" where
  "stays a d d' \<longleftrightarrow> b_flags d' - {BSON_FLAG_INLINE, BSON_FLAG_IN_CHILD} = b_flags d - {BSON_FLAG_INLINE, BSON_FLAG_IN_CHILD} \<and>
     (is_inline d' \<longrightarrow> is_inline d) \<and>
     (\<not> is_inline d' \<longrightarrow>
        (if is_inline d then b_buf d' = Own a \<and> b_offset d' = 0 \<and> b_depth d' = 0 \<and> b_realloc d'
         else b_depth d' = b_depth d \<and> b_buf d' = b_buf d \<and> b_offset d' = b_offset d \<and> b_realloc d' = b_realloc d))"

definition same_prefix :: "heap \<Rightarrow> bson_t \<Rightarrow> heap \<Rightarrow> bool" where
  "same_prefix H d H' \<longleftrightarrow> (\<exists>m m'. h_cells H (b_buf d) = Some m \<and> h_cells H' (b_buf d) = Some m' \<and>
     length m \<le> length m' \<and> take (b_offset d) m' = take (b_offset d) m)"

definition local_change :: "addr set \<Rightarrow> heap \<Rightarrow> addr \<Rightarrow> heap \<Rightarrow> bool" where
  "local_change A H a H' \<longleftrightarrow> (\<forall>x. x \<notin> A \<longrightarrow> h_docs H' x = h_docs H x) \<and>
     (\<exists>d d'. h_docs H a = Some d \<and> h_docs H' a = Some d' \<and> stays a d d' \<and>
        (\<forall>b. is_inline d' \<or> b \<noteq> b_buf d' \<longrightarrow> h_cells H' b = h_cells H b) \<and>
        (\<not> is_inline d \<longrightarrow> same_prefix H d H'))"

lemma frame_local_change:
  assumes "frame {a} H a H'" "a \<in> A"
  shows "local_change A H a H'"
proof -
  obtain d d' where d: "h_docs H a = Some d" "h_docs H' a = Some d'" "same_place d d'"
      "is_inline d \<and> \<not> is_inline d' \<longrightarrow> b_buf d' = Own a \<and> b_offset d' = 0 \<and> b_depth d' = 0 \<and> b_realloc d'"
      "\<forall>b. is_inline d' \<or> b \<noteq> b_buf d' \<longrightarrow> h_cells H' b = h_cells H b"
      "\<not> is_inline d \<longrightarrow> same_prefix H d H'"
    using assms(1) unfolding frame_def same_prefix_def by (elim conjE exE) blast
  have "stays a d d'" using d(3,4) unfolding stays_def same_place_def by auto
  moreover have "\<forall>x. x \<notin> A \<longrightarrow> h_docs H' x = h_docs H x" using assms unfolding frame_def by auto
  ultimately show ?thesis using d unfolding local_change_def by blast
qed

lemma local_change_mono: "local_change A H a H' \<Longrightarrow> A \<subseteq> B \<Longrightarrow> local_change B H a H'"
  unfolding local_change_def by blast

lemma local_change_trans:
  assumes "local_change A H a H1" "local_change A H1 a H2"
  shows "local_change A H a H2"
proof -
  obtain d d1 where 1: "h_docs H a = Some d" "h_docs H1 a = Some d1" "stays a d d1"
      "\<forall>b. is_inline d1 \<or> b \<noteq> b_buf d1 \<longrightarrow> h_cells H1 b = h_cells H b" "\<not> is_inline d \<longrightarrow> same_prefix H d H1"
    using assms(1) unfolding local_change_def by (elim conjE exE) blast
  obtain d2 where 2: "h_docs H2 a = Some d2" "stays a d1 d2"
      "\<forall>b. is_inline d2 \<or> b \<noteq> b_buf d2 \<longrightarrow> h_cells H2 b = h_cells H1 b" "\<not> is_inline d1 \<longrightarrow> same_prefix H1 d1 H2"
    using assms(2) 1(2) unfolding local_change_def by (elim conjE exE) (metis option.inject)
  have docs: "\<forall>x. x \<notin> A \<longrightarrow> h_docs H2 x = h_docs H x" using assms unfolding local_change_def by simp
  have "stays a d d2" using 1(3) 2(2) unfolding stays_def by (auto split: if_splits)
  moreover have "\<forall>b. is_inline d2 \<or> b \<noteq> b_buf d2 \<longrightarrow> h_cells H2 b = h_cells H b"
  proof (cases "is_inline d1")
    case False
    then have "\<not> is_inline d2" "b_buf d2 = b_buf d1" using 2(2) unfolding stays_def by auto
    then show ?thesis using 1(4) 2(3) by simp
  qed (use 1(4) 2(3) in simp)
  moreover have "\<not> is_inline d \<longrightarrow> same_prefix H d H2"
  proof
    assume "\<not> is_inline d"
    then have p: "\<not> is_inline d1" "b_buf d1 = b_buf d" "b_offset d1 = b_offset d" "same_prefix H d H1"
      using 1(3,5) unfolding stays_def by auto
    with 2(4) show "same_prefix H d H2" unfolding same_prefix_def by (auto intro: order_trans)
  qed
  ultimately show ?thesis using docs 1(1) 2(1) unfolding local_change_def by blast
qed

lemma room_change:
  assumes "room H a n" "local_change A H a H'" "rep H' a es"
  shows "room H' a n"
proof -
  obtain d d' where d: "h_docs H a = Some d" "h_docs H' a = Some d'" "stays a d d'"
    using assms(2) unfolding local_change_def by (elim conjE exE)
  have inl: "is_inline d' \<longrightarrow> b_depth d' = 0" using assms(3) d(2) by (auto simp: rep_def holds_def)
  have fl: "BSON_FLAG_CHILD \<in> b_flags d' \<longleftrightarrow> BSON_FLAG_CHILD \<in> b_flags d" using d(3) unfolding stays_def by auto
  show ?thesis using assms(1) d inl fl unfolding room_def stays_def doc_off_def by (auto split: if_splits)
qed

lemma local_change_set:
  assumes "local_change {a} H a H2" "h_docs H2 a = Some p" "a \<noteq> c"
    and p': "b_flags p' - {BSON_FLAG_INLINE, BSON_FLAG_IN_CHILD} = b_flags p - {BSON_FLAG_INLINE, BSON_FLAG_IN_CHILD}"
      "is_inline p' = is_inline p" "b_depth p' = b_depth p" "b_buf p' = b_buf p" "b_offset p' = b_offset p" "b_realloc p' = b_realloc p"
  shows "local_change {a, c} H a (set_doc (set_doc H2 a p') c ch)"
proof -
  obtain d where d: "h_docs H a = Some d" "stays a d p"
      "\<forall>b. is_inline p \<or> b \<noteq> b_buf p \<longrightarrow> h_cells H2 b = h_cells H b" "\<not> is_inline d \<longrightarrow> same_prefix H d H2"
    using assms(1,2) unfolding local_change_def by (elim conjE exE) (metis option.inject)
  have o: "\<forall>x. x \<notin> {a} \<longrightarrow> h_docs H2 x = h_docs H x" using assms(1) unfolding local_change_def by (rule conjunct1)
  have "stays a d p'" using d(2) p' unfolding stays_def by simp
  moreover have "\<not> is_inline d \<longrightarrow> same_prefix H d (set_doc (set_doc H2 a p') c ch)"
    using d(4) by (simp add: same_prefix_def)
  moreover have "\<forall>x. x \<notin> {a, c} \<longrightarrow> h_docs (set_doc (set_doc H2 a p') c ch) x = h_docs H x" using o by simp
  moreover have "h_docs (set_doc (set_doc H2 a p') c ch) a = Some p'" using assms(3) by simp
  moreover have "\<forall>b. is_inline p' \<or> b \<noteq> b_buf p' \<longrightarrow> h_cells (set_doc (set_doc H2 a p') c ch) b = h_cells H b"
    unfolding p'(2,4) set_doc_simps by (rule d(3))
  ultimately show ?thesis unfolding local_change_def using d(1) by blast
qed

text \<open>Opening a child.\<close>

lemma grow_rep:
  assumes rep: "rep H a es" and d: "h_docs H a = Some d" and fits: "doc_fits H a n"
  shows "\<exists>H1 d1. bson_grow H a n = Some (True, H1) \<and> rep H1 a es \<and> frame {a} H a H1 \<and> h_docs H1 a = Some d1 \<and>
    (is_inline d \<and> BSON_INLINE_DATA_SIZE < b_len d + n \<longrightarrow> \<not> is_inline d1)"
proof -
  obtain mem where m: "doc_mem H d = Some mem" "b_len d = length (enc_doc es)"
      "take (length (enc_doc es)) (drop (doc_off d) mem) = enc_doc es"
      "is_inline d \<longrightarrow> length mem = BSON_INLINE_DATA_SIZE \<and> b_depth d = 0"
      "doc_off d + length (enc_doc es) + b_depth d \<le> length mem"
    using rep d unfolding rep_def by (metis holdsE option.inject)
  have inl: "is_inline d \<longrightarrow> length mem = BSON_INLINE_DATA_SIZE" using m(4) by simp
  have r: "doc_off d + b_len d + b_depth d \<le> length mem" using m(2,5) by simp
  have pos: "0 < b_len d" using m(2) length_enc_doc_ge [of es] by linarith
  obtain d' mem' where g: "bson_grow H a n = Some (True, upd H a d' mem')"
    "same_place d d'" "b_len d' = b_len d" "length mem \<le> length mem'"
    "is_inline d \<and> \<not> is_inline d' \<Longrightarrow> b_buf d' = Own a \<and> b_offset d' = 0 \<and> b_depth d' = 0 \<and> b_realloc d'"
    "doc_off d' = doc_off d" "doc_off d' + b_len d + n + (if is_inline d then 0 else b_depth d') \<le> length mem'"
    "take (doc_off d + b_len d) mem' = take (doc_off d + b_len d) mem"
    "is_inline d' \<Longrightarrow> length mem' = BSON_INLINE_DATA_SIZE \<and> b_depth d' = b_depth d"
    using grow_ok [OF d m(1) inl r pos fits] by metis
  have xs': "take (length (enc_doc es)) (drop (doc_off d) mem') = enc_doc es"
    using g(8) m(2,3) by (metis drop_take add_diff_cancel_left' take_drop)
  have ii: "is_inline d' \<longrightarrow> is_inline d" using g(2) by (simp add: same_place_def)
  have dep: "doc_off d' + length (enc_doc es) + b_depth d' \<le> length mem'"
  proof (cases "is_inline d")
    case True
    then have "b_depth d' = 0" using g(5,9) m(4) by (cases "is_inline d'") auto
    then show ?thesis using g(7) m(2) by simp
  qed (use g(7) m(2) in simp)
  have "holds (upd H a d' mem') a (enc_doc es)"
    by (rule holds_upd) (use g(3,6,9) m(2,4) xs' ii dep in auto)
  moreover have "writable (upd H a d' mem') a"
    using rep d g(2) by (auto simp: rep_def writable_def upd_docs same_place_def)
  moreover have "frame {a} H a (upd H a d' mem')"
  proof (rule upd_frame [OF d m(1) g(2,4)])
    show "take (doc_off d) mem' = take (doc_off d) mem"
      using g(8) by (metis le_add1 min.absorb1 take_take)
  qed (use g(5) in simp)
  moreover have "h_docs (upd H a d' mem') a = Some (if is_inline d' then d'\<lparr>b_data := mem'\<rparr> else d')"
    by (simp add: upd_docs)
  moreover have "is_inline d \<and> BSON_INLINE_DATA_SIZE < b_len d + n \<longrightarrow> \<not> is_inline d'"
    using g(6,7,9) by (auto simp: doc_off_def)
  ultimately show ?thesis using g(1) by (intro exI [of _ "upd H a d' mem'"] exI) (auto simp: rep_def)
qed

definition sub_val :: "u8 \<Rightarrow> elems \<Rightarrow> bval" where
  "sub_val t es = (if t = BSON_TYPE_ARRAY then VArray es else VDocument es)"

lemma enc_sub_val: "enc_val (sub_val t sub) = enc_doc sub"
  by (simp add: sub_val_def enc_doc_def)

lemma vtype_sub_val: "t = BSON_TYPE_DOCUMENT \<or> t = BSON_TYPE_ARRAY \<Longrightarrow> vtype (sub_val t sub) = t"
  by (auto simp: sub_val_def)

lemma enc_doc_sub:
  assumes "t = BSON_TYPE_DOCUMENT \<or> t = BSON_TYPE_ARRAY"
  shows "enc_doc (es @ [(k, sub_val t sub)]) =
    le32 (length (enc_elems es) + length k + 7 + length (enc_doc sub)) @ (enc_elems es @ [t] @ k @ [0]) @ enc_doc sub @ [0]"
proof -
  have e: "enc_elems (es @ [(k, sub_val t sub)]) = (enc_elems es @ [t] @ k @ [0]) @ enc_doc sub"
    using vtype_sub_val [OF assms] by (simp add: enc_elem_def enc_sub_val)
  have l: "length ((enc_elems es @ [t] @ k @ [0]) @ enc_doc sub) + 5 = length (enc_elems es) + length k + 7 + length (enc_doc sub)"
    by simp
  show ?thesis unfolding enc_doc_def [of "es @ _"] frame_doc_def e l by simp
qed

lemma enc_doc_Nil: "enc_doc [] = [5, 0, 0, 0, 0]"
  by (simp add: enc_doc_def frame_doc_def le32_def le_bytes_num)

lemma begin_ok:
  assumes rep: "rep H a es" and room: "room H a n" and key: "int_string key kl = Some k"
    and t: "t = BSON_TYPE_DOCUMENT \<or> t = BSON_TYPE_ARRAY"
    and small: "length (enc_doc (es @ [(k, sub_val t [])])) \<le> n" and ac: "a \<noteq> c"
  shows "\<exists>H'. bson_append_bson_begin H a key kl t c = Some (True, H') \<and> suspended H' a es k t c \<and> rep H' c [] \<and>
    room H' c (n - length (enc_doc (es @ [(k, sub_val t [])])) + 5) \<and> local_change {a, c} H a H'"
proof -
  obtain d where d: "h_docs H a = Some d" using rep by (auto simp: rep_def writable_def)
  have wr: "BSON_FLAG_IN_CHILD \<notin> b_flags d" "BSON_FLAG_RDONLY \<notin> b_flags d" using rep d by (auto simp: rep_def writable_def)
  have len: "b_len d = length (enc_doc es)" using rep d by (auto simp: rep_def holds_def)
  obtain H1 d1 where H1: "(if is_inline d then (if \<not> b_len d \<le> 120 then None else bson_grow H a (128 - b_len d)) else Some (True, H)) = Some (True, H1)"
      "rep H1 a es" "local_change {a} H a H1" "h_docs H1 a = Some d1" "\<not> is_inline d1"
  proof (cases "is_inline d")
    case True
    have l: "b_len d \<le> 120" using rep d True by (auto simp: rep_def holds_def doc_off_def)
    have "doc_fits H a (128 - b_len d)"
      using rep d True l by (auto simp: doc_fits_def rep_def holds_def)
    from grow_rep [OF rep d this] l True that show ?thesis
      using frame_local_change [of a H _ "{a}"] by fastforce
  next
    case False
    have "local_change {a} H a H"
    proof -
      obtain mem where "h_cells H (b_buf d) = Some mem" using rep d False by (auto simp: rep_def holds_def doc_mem_def)
      then show ?thesis using d False by (auto simp: local_change_def stays_def same_prefix_def)
    qed
    with False rep d that show ?thesis by simp
  qed
  have fits: "elem_fits H1 a k (sub_val t [])"
    using room_fits [OF room_change [OF room H1(3,2)] H1(2) small] .
  let ?ps = "[[t], k, [0], [5, 0, 0, 0, 0]]"
  have ce: "concat ?ps = enc_elem k (sub_val t [])"
    using vtype_sub_val [OF t] by (simp add: enc_elem_def enc_sub_val enc_doc_Nil)
  have ne: "1 + length k + 1 + 5 = length (enc_elem k (sub_val t []))" by (simp add: enc_elem_def enc_sub_val enc_doc_Nil)
  obtain H2 where H2: "bson_append_pairs H1 a ((1 + length k + 1 + 5) mod 2 ^ 32) ?ps = Some (True, H2)"
      "rep H2 a (es @ [(k, sub_val t [])])" "frame {a} H1 a H2"
    using append_elem [OF H1(2) fits _ _ ce ne] by (auto simp: appends_def)
  have ch2: "local_change {a} H a H2"
    using local_change_trans [OF H1(3) frame_local_change [OF H2(3)]] by simp
  obtain p mem where p: "h_docs H2 a = Some p" "doc_mem H2 p = Some mem" "b_len p = length (enc_doc (es @ [(k, sub_val t [])]))"
      "take (length (enc_doc (es @ [(k, sub_val t [])]))) (drop (doc_off p) mem) = enc_doc (es @ [(k, sub_val t [])])"
      "doc_off p + length (enc_doc (es @ [(k, sub_val t [])])) + b_depth p \<le> length mem"
      "BSON_FLAG_IN_CHILD \<notin> b_flags p" "BSON_FLAG_RDONLY \<notin> b_flags p"
    using H2(2) unfolding rep_def writable_def by (elim conjE holdsE) (metis option.inject)
  have pi: "\<not> is_inline p"
    using H2(3) H1(4,5) p(1) unfolding frame_def same_place_def by (elim conjE exE) (metis option.inject)
  have off: "doc_off p = b_offset p" using pi by (simp add: doc_off_def)
  have cell: "h_cells H2 (b_buf p) = Some mem" using p(2) pi by (simp add: doc_mem_def)
  let ?L = "length (enc_elems es) + length k + 12"
  have L: "b_len p = ?L" "length (enc_doc (es @ [(k, sub_val t [])])) = ?L"
    using p(3) by (simp_all add: enc_simps enc_sub_val enc_elem_def)
  have rm: "room H2 a n" by (rule room_change [OF room ch2 H2(2)])
  then have rp: "b_realloc p" "b_offset p + n + b_depth p \<le> 2 ^ 30" "BSON_FLAG_CHILD \<notin> b_flags p \<longrightarrow> b_depth p = 0"
    using p(1) pi off by (auto simp: room_def)
  have bytes: "take ?L (drop (b_offset p) mem) = le32 ?L @ (enc_elems es @ [t] @ k @ [0]) @ [5, 0, 0, 0, 0] @ [0]"
    using p(4) enc_doc_sub [OF t, of es k "[]"] unfolding L(2) off by (simp add: enc_doc_Nil ac_simps)
  let ?p = "p\<lparr>b_flags := insert BSON_FLAG_IN_CHILD (b_flags p)\<rparr>"
  let ?c = "\<lparr>b_flags = {BSON_FLAG_CHILD, BSON_FLAG_NO_FREE, BSON_FLAG_STATIC}, b_len = 5, b_data = [],
      b_parent = Some a, b_depth = (if BSON_FLAG_CHILD \<in> b_flags p then b_depth p + 1 else 1),
      b_buf = b_buf p, b_offset = b_offset p + b_len p - 1 - 5, b_realloc = b_realloc p\<rparr>"
  let ?H = "set_doc (set_doc H2 a ?p) c ?c"
  have call: "bson_append_bson_begin H a key kl t c = Some (True, ?H)"
    using wr t key H1(1,4,5) H2(1) p(1) d by (simp add: bson_append_bson_begin_def Let_def)
  have dep: "b_depth ?c = b_depth p + 1" using rp(3) by simp
  have pre: "take (length (enc_elems es) + length k + 2) (drop (b_offset p + 4) mem) = enc_elems es @ [t] @ k @ [0]"
  proof -
    have "take (length (enc_elems es) + length k + 2) (drop (b_offset p + 4) mem) =
        take (length (enc_elems es) + length k + 2) (drop 4 (take ?L (drop (b_offset p) mem)))"
      by (simp add: drop_take min_absorb1 ac_simps)
    then show ?thesis unfolding bytes by simp
  qed
  have five: "take 5 (drop (b_offset p + ?L - 6) mem) = [5, 0, 0, 0, 0]"
  proof -
    have "take 5 (drop (b_offset p + ?L - 6) mem) = take 5 (drop (?L - 6) (take ?L (drop (b_offset p) mem)))"
      by (simp add: drop_take min_absorb1 ac_simps)
    then show ?thesis unfolding bytes by simp
  qed
  have "suspended ?H a es k t c" unfolding suspended_def
    using ac p(7) pi dep cell pre L(1)
    by (intro exI [of _ ?p] exI [of _ ?c] exI [of _ mem]) simp
  moreover have "length (enc_doc []) = 5" by (simp add: enc_doc_Nil)
  then have "rep ?H c []"
    using five [folded enc_doc_Nil] p(5) L cell dep off
    by (auto simp: rep_def holds_def writable_def doc_mem_def doc_off_def ac)
  moreover have "room ?H c (n - ?L + 5)"
    using rp dep L(1) small unfolding L(2) by (auto simp: room_def doc_off_def)
  moreover have "local_change {a, c} H a ?H"
    by (rule local_change_mono [OF local_change_set [OF ch2 p(1) ac]]) (auto simp: insert_Diff_if)
  ultimately show ?thesis using call unfolding L(2) by blast
qed

text \<open>While the child grows, the parent's part stays as it is.\<close>

lemma suspendedE:
  assumes "suspended H a es k t c"
  obtains p ch mem where "h_docs H a = Some p" "h_docs H c = Some ch" "a \<noteq> c"
     "BSON_FLAG_IN_CHILD \<in> b_flags p" "BSON_FLAG_RDONLY \<notin> b_flags p" "\<not> is_inline p"
     "\<not> is_inline ch" "b_buf ch = b_buf p" "b_depth ch = b_depth p + 1" "b_realloc ch = b_realloc p"
     "BSON_FLAG_CHILD \<in> b_flags ch"
     "b_len p = length (enc_elems es) + length k + 12" "b_offset ch = b_offset p + b_len p - 6"
     "h_cells H (b_buf p) = Some mem"
     "take (length (enc_elems es) + length k + 2) (drop (b_offset p + 4) mem) = enc_elems es @ [t] @ k @ [0]"
  using assms unfolding suspended_def by (elim exE conjE) (rule that)

lemma child_place:
  assumes "suspended H a es k t c" "local_change A H c H'" "h_docs H c = Some ch"
  obtains ch' where "h_docs H' c = Some ch'" "\<not> is_inline ch'" "b_buf ch' = b_buf ch" "b_depth ch' = b_depth ch"
    "b_offset ch' = b_offset ch" "b_realloc ch' = b_realloc ch" "BSON_FLAG_CHILD \<in> b_flags ch'"
    "\<forall>b. b \<noteq> b_buf ch \<longrightarrow> h_cells H' b = h_cells H b" "same_prefix H ch H'"
proof -
  obtain ch1 where c: "h_docs H c = Some ch1" "\<not> is_inline ch1" "BSON_FLAG_CHILD \<in> b_flags ch1"
    using assms(1) by (rule suspendedE)
  then have ch1: "ch1 = ch" using assms(3) by simp
  obtain d' where d': "h_docs H' c = Some d'" "stays c ch d'" "\<forall>b. is_inline d' \<or> b \<noteq> b_buf d' \<longrightarrow> h_cells H' b = h_cells H b"
      "\<not> is_inline ch \<longrightarrow> same_prefix H ch H'"
    using assms(2,3) unfolding local_change_def by (elim conjE exE) (metis option.inject)
  have st: "\<not> is_inline d'" "b_buf d' = b_buf ch" "b_depth d' = b_depth ch" "b_offset d' = b_offset ch" "b_realloc d' = b_realloc ch"
    using d'(2) c(2) ch1 unfolding stays_def by auto
  have "BSON_FLAG_CHILD \<in> b_flags d'" using d'(2) c(3) ch1 unfolding stays_def by blast
  then show ?thesis using that [OF d'(1) st] d'(3,4) st c(2) ch1 by simp
qed

lemma suspended_change:
  assumes s: "suspended H a es k t c" and ch: "local_change A H c H'" "a \<notin> A"
  shows "suspended H' a es k t c"
  using s
proof (rule suspendedE)
  fix p ch mem
  assume p: "h_docs H a = Some p" "h_docs H c = Some ch" "a \<noteq> c"
     "BSON_FLAG_IN_CHILD \<in> b_flags p" "BSON_FLAG_RDONLY \<notin> b_flags p" "\<not> is_inline p"
     "\<not> is_inline ch" "b_buf ch = b_buf p" "b_depth ch = b_depth p + 1" "b_realloc ch = b_realloc p"
     "BSON_FLAG_CHILD \<in> b_flags ch"
     "b_len p = length (enc_elems es) + length k + 12" "b_offset ch = b_offset p + b_len p - 6"
     "h_cells H (b_buf p) = Some mem"
     "take (length (enc_elems es) + length k + 2) (drop (b_offset p + 4) mem) = enc_elems es @ [t] @ k @ [0]"
  let ?n = "length (enc_elems es) + length k + 2"
  obtain ch' where ch': "h_docs H' c = Some ch'" "\<not> is_inline ch'" "b_buf ch' = b_buf ch" "b_depth ch' = b_depth ch"
    "b_offset ch' = b_offset ch" "b_realloc ch' = b_realloc ch" "BSON_FLAG_CHILD \<in> b_flags ch'" "same_prefix H ch H'"
    using child_place [OF s ch(1) p(2)] by metis
  obtain m' where m': "h_cells H' (b_buf p) = Some m'" "take (b_offset ch) m' = take (b_offset ch) mem"
    using ch'(8) p(8,14) by (auto simp: same_prefix_def)
  have off: "b_offset ch = b_offset p + 4 + ?n" using p(12,13) by simp
  have "take ?n (drop (b_offset p + 4) m') = drop (b_offset p + 4) (take (b_offset ch) m')" for m' :: bytes
    unfolding off by (simp add: drop_take)
  then have "take ?n (drop (b_offset p + 4) m') = enc_elems es @ [t] @ k @ [0]" using m'(2) p(15) by metis
  moreover have "h_docs H' a = Some p" using ch p(1) unfolding local_change_def by simp
  ultimately show ?thesis unfolding suspended_def
    using p m'(1) ch' by (intro exI [of _ p] exI [of _ ch'] exI [of _ m']) simp
qed

lemma patch_at: "i = length u \<Longrightarrow> length l = length x \<Longrightarrow> patch (u @ l @ r) i x = u @ x @ r"
  by (simp add: patch_def)

lemma take_exact: "n = length x \<Longrightarrow> take n (x @ r) = x"
  by simp

lemma split2: "drop i w = take j (drop i w) @ drop (i + j) w"
  by (metis append_take_drop_id drop_drop add.commute)

lemma split4: "w = take i w @ take j (drop i w) @ take l (drop (i + j) w) @ drop (i + j + l) w"
  using split2 [of 0 w i] split2 [of i w j] split2 [of "i + j" w l] by simp

text \<open>Closing the child.\<close>

lemma end_ok:
  assumes s: "suspended H a es k t c" and ch: "local_change A H c H2" "a \<notin> A" and sub: "rep H2 c sub"
    and t: "t = BSON_TYPE_DOCUMENT \<or> t = BSON_TYPE_ARRAY"
    and small: "length (enc_doc (es @ [(k, sub_val t sub)])) \<le> INT_MAX"
  shows "\<exists>H3. bson_append_bson_end H2 a c = Some (True, H3) \<and> rep H3 a (es @ [(k, sub_val t sub)]) \<and>
    local_change (insert a A) H a H3"
  using s
proof (rule suspendedE)
  fix p ch mem
  assume p: "h_docs H a = Some p" "h_docs H c = Some ch" "a \<noteq> c"
     "BSON_FLAG_IN_CHILD \<in> b_flags p" "BSON_FLAG_RDONLY \<notin> b_flags p" "\<not> is_inline p"
     "\<not> is_inline ch" "b_buf ch = b_buf p" "b_depth ch = b_depth p + 1" "b_realloc ch = b_realloc p"
     "BSON_FLAG_CHILD \<in> b_flags ch"
     "b_len p = length (enc_elems es) + length k + 12" "b_offset ch = b_offset p + b_len p - 6"
     "h_cells H (b_buf p) = Some mem"
  let ?xs = "enc_doc sub" and ?pre = "enc_elems es @ [t] @ k @ [0]"
  let ?n = "length ?pre"
  obtain ch' where ch': "h_docs H2 c = Some ch'" "\<not> is_inline ch'" "b_buf ch' = b_buf ch" "b_depth ch' = b_depth ch"
    "b_offset ch' = b_offset ch" "\<forall>b. b \<noteq> b_buf ch \<longrightarrow> h_cells H2 b = h_cells H b" "same_prefix H ch H2"
    using child_place [OF s ch(1) p(2)] by metis
  obtain m2 where m2: "h_cells H2 (b_buf p) = Some m2" "length mem \<le> length m2" "take (b_offset ch) m2 = take (b_offset ch) mem"
    using ch'(7) p(8,14) by (auto simp: same_prefix_def)
  have sub': "b_len ch' = length ?xs" "take (length ?xs) (drop (b_offset ch) m2) = ?xs"
      "b_offset ch + length ?xs + b_depth ch \<le> length m2" "BSON_FLAG_IN_CHILD \<notin> b_flags ch'"
    using sub ch'(1-5) p(8) m2(1) by (auto simp: rep_def holds_def writable_def doc_mem_def doc_off_def)
  have p2: "h_docs H2 a = Some p" using ch p(1) unfolding local_change_def by simp
  have off: "b_offset ch = b_offset p + 4 + ?n" using p(12,13) by simp
  have pre2: "take ?n (drop (b_offset p + 4) m2) = ?pre"
  proof -
    have "suspended H2 a es k t c" by (rule suspended_change [OF s ch])
    then show ?thesis using p2 m2(1) by (auto elim!: suspendedE)
  qed
  let ?L = "?n + 5 + length ?xs"
  have L: "length (enc_doc (es @ [(k, sub_val t sub)])) = ?L" unfolding enc_doc_sub [OF t] by simp
  have small': "?L \<le> INT_MAX" using small unfolding L .
  have len: "sub32 (add32 (b_len p) (length ?xs)) 5 = ?L"
  proof -
    have "b_len p + length ?xs = ?L + 5" using p(12) by simp
    then show ?thesis using small' by simp
  qed
  let ?p = "p\<lparr>b_flags := b_flags p - {BSON_FLAG_IN_CHILD}, b_len := ?L\<rparr>"
  let ?m3 = "patch m2 (b_offset p + (?L - 1)) [0]"
  let ?m4 = "patch ?m3 (b_offset p) (le_bytes 4 ?L)"
  have in3: "b_offset p + (?L - 1) + length [0 :: u8] \<le> length m2" using sub'(3) off p(9) by simp
  have l3: "length ?m3 = length m2" by (rule length_patch [OF in3])
  have in4: "b_offset p + length (le_bytes 4 ?L) \<le> length ?m3" unfolding l3 using in3 by simp
  have l4: "length ?m4 = length m2" using length_patch [OF in4] l3 by simp
  have offp: "doc_off ?p = b_offset p" using p(6) by (simp add: doc_off_def)
  have H1: "set_doc H2 a ?p = upd H2 a ?p m2" using p(6) m2(1)
    by (cases H2) (simp add: upd_def set_doc_def set_cell_def fun_upd_idem)
  have w: "bson_data_write (upd H2 a ?p m2) a (?L - 1) [0] = Some (upd H2 a ?p ?m3)"
    unfolding upd_write offp mem_write_patch [OF in3] by simp
  have e: "bson_encode_length (upd H2 a ?p ?m3) a = Some (upd H2 a ?p ?m4)"
    unfolding upd_encode_length offp using mem_write_patch [OF in4] by simp
  have call: "bson_append_bson_end H2 a c = Some (True, upd H2 a ?p ?m4)"
    unfolding bson_append_bson_end_def p2 ch'(1) Option.bind.simps sub'(1) Let_def len H1 w e
    using p(4) sub'(4) by (simp only: not_not if_False simp_thms)
  have parts: "\<exists>u w. m2 = u @ w \<and> length u = b_offset p \<and> (\<exists>l4 z r. w = l4 @ ?pre @ ?xs @ z # r \<and> length l4 = 4)"
  proof -
    have a: "b_offset p + 4 + ?n + length ?xs < length m2" using sub'(3) off p(9) by simp
    let ?w = "drop (b_offset p) m2"
    have "m2 = take (b_offset p) m2 @ ?w" by simp
    moreover have "length (take (b_offset p) m2) = b_offset p" using a by simp
    moreover have "?w = take 4 ?w @ take ?n (drop 4 ?w) @ take (length ?xs) (drop (4 + ?n) ?w) @ drop (4 + ?n + length ?xs) ?w"
      by (rule split4)
    moreover have "take ?n (drop 4 ?w) = ?pre" using pre2 by (simp add: add.commute)
    moreover have "take (length ?xs) (drop (4 + ?n) ?w) = ?xs" using sub'(2) off by (simp add: ac_simps)
    moreover have "drop (4 + ?n + length ?xs) ?w \<noteq> []" using a by simp
    then have "\<exists>z r. drop (4 + ?n + length ?xs) ?w = z # r" by (cases "drop (4 + ?n + length ?xs) ?w") auto
    moreover have "length (take 4 ?w) = 4" using a by simp
    ultimately show ?thesis by metis
  qed
  then obtain u l z r where m2': "m2 = u @ l @ ?pre @ ?xs @ z # r" "length u = b_offset p" "length l = 4" by blast
  have "b_offset p + (?L - 1) = length (u @ l @ ?pre @ ?xs)" using m2'(2,3) by simp
  from patch_at [OF this, of "[z]" "[0]" r] have "?m3 = u @ l @ ?pre @ ?xs @ 0 # r" unfolding m2'(1) by simp
  then have m4: "?m4 = u @ le_bytes 4 ?L @ ?pre @ ?xs @ 0 # r"
    using patch_at [of "b_offset p" u l "le_bytes 4 ?L"] m2'(2,3) by simp
  have bytes: "take ?L (drop (b_offset p) ?m4) = enc_doc (es @ [(k, sub_val t sub)])"
  proof -
    have "le32 (length (enc_elems es) + length k + 7 + length ?xs) = le_bytes 4 ?L" by (simp add: le32_def ac_simps)
    moreover have "drop (b_offset p) ?m4 = (le_bytes 4 ?L @ ?pre @ ?xs @ [0]) @ r" unfolding m4 using m2'(2) by simp
    moreover have "?L = length (le_bytes 4 ?L @ ?pre @ ?xs @ [0])" by simp
    ultimately show ?thesis using take_exact [of ?L "le_bytes 4 ?L @ ?pre @ ?xs @ [0]" r]
      unfolding enc_doc_sub [OF t] by (simp only: append_assoc)
  qed
  have "holds (upd H2 a ?p ?m4) a (enc_doc (es @ [(k, sub_val t sub)]))"
  proof (rule holds_upd)
    show "b_len ?p = length (enc_doc (es @ [(k, sub_val t sub)]))" unfolding L by simp
    show "take (length (enc_doc (es @ [(k, sub_val t sub)]))) (drop (doc_off ?p) ?m4) = enc_doc (es @ [(k, sub_val t sub)])"
      unfolding L offp by (rule bytes)
    show "doc_off ?p + length (enc_doc (es @ [(k, sub_val t sub)])) + b_depth ?p \<le> length ?m4"
      unfolding L offp l4 using sub'(3) off p(9) by simp
  qed (use p(6) in simp)
  moreover have "writable (upd H2 a ?p ?m4) a" using p(5) by (simp add: writable_def upd_docs)
  moreover have "local_change (insert a A) H a (upd H2 a ?p ?m4)"
  proof -
    have "stays a p ?p" using p(6) unfolding stays_def by auto
    moreover have "same_prefix H p (upd H2 a ?p ?m4)"
    proof -
      have "take (b_offset p) ?m4 = take (b_offset p) m2" unfolding m4 using m2'(1,2) by simp
      also have "\<dots> = take (b_offset p) mem" using m2(3) off by (metis le_add1 add.assoc min.absorb1 take_take)
      finally show ?thesis using p(6,14) m2(2) l4 by (simp add: same_prefix_def upd_def)
    qed
    moreover have "\<forall>b. b \<noteq> b_buf p \<longrightarrow> h_cells (upd H2 a ?p ?m4) b = h_cells H b"
      using ch'(6) p(6,8) by (simp add: upd_def)
    moreover have "\<forall>x. x \<notin> insert a A \<longrightarrow> h_docs (upd H2 a ?p ?m4) x = h_docs H x"
      using ch(1) unfolding local_change_def by (simp add: upd_docs)
    ultimately show ?thesis unfolding local_change_def using p(1,6) by (simp add: upd_docs)
  qed
  ultimately show ?thesis using call by (auto simp: rep_def)
qed

subsection \<open>Building a tree in place\<close>

text \<open>
  A client that writes any nested document with the functions above: subdocuments and arrays between
  \<open>begin\<close> and \<open>end\<close>, every other value with \<^verbatim>\<open>bson_append_value\<close>; the child of the document at \<open>a\<close> is the
  local variable at \<open>a + 1\<close>.
\<close>

fun nested_of :: "bval \<Rightarrow> (u8 \<times> elems) option" where
  "nested_of (VDocument es) = Some (BSON_TYPE_DOCUMENT, es)"
| "nested_of (VArray es) = Some (BSON_TYPE_ARRAY, es)"
| "nested_of _ = None"

lemma nested_size: "nested_of v = Some (t, sub) \<Longrightarrow> size_list (size_prod (\<lambda>x. 0) size) sub < size v"
  by (cases v) auto

lemma nested_ofD:
  "nested_of v = Some (t, sub) \<Longrightarrow> v = sub_val t sub \<and> (t = BSON_TYPE_DOCUMENT \<or> t = BSON_TYPE_ARRAY)"
  by (cases v) (auto simp: sub_val_def)

definition must :: "(bool \<times> heap) option \<Rightarrow> heap option" where
  "must r = (case r of Some (True, H) \<Rightarrow> Some H | _ \<Rightarrow> None)"

function build :: "heap \<Rightarrow> addr \<Rightarrow> elems \<Rightarrow> heap option"
  and build_elem :: "heap \<Rightarrow> addr \<Rightarrow> bytes \<Rightarrow> bval \<Rightarrow> heap option" where
  "build H a [] = Some H"
| "build H a ((k, v) # es) = (case build_elem H a k v of None \<Rightarrow> None | Some H3 \<Rightarrow> build H3 a es)"
| "build_elem H a k v =
     (case nested_of v of
        None \<Rightarrow> must (bson_append_value H a (k @ [0]) (-1) (value_of v) (a + 1))
      | Some ts \<Rightarrow>
          (case must (bson_append_bson_begin H a (k @ [0]) (-1) (fst ts) (a + 1)) of
             None \<Rightarrow> None
           | Some H1 \<Rightarrow>
               (case build H1 (a + 1) (snd ts) of
                  None \<Rightarrow> None
                | Some H2 \<Rightarrow> must (bson_append_bson_end H2 a (a + 1)))))"
  by pat_completeness auto
termination
  by (relation "measure (\<lambda>x. case x of Inl (H, a, es) \<Rightarrow> size_list (size_prod (\<lambda>x. 0) size) es | Inr (H, a, k, v) \<Rightarrow> size v)")
    (auto dest!: nested_size)

declare build_elem.simps [simp del]

fun no_regex :: "bval \<Rightarrow> bool" and no_regexes :: "elems \<Rightarrow> bool" where
  "no_regex (VDocument es) = no_regexes es"
| "no_regex (VArray es) = no_regexes es"
| "no_regex (VRegex _ _) = False"
| "no_regex _ = True"
| "no_regexes [] = True"
| "no_regexes ((k, v) # es) = (no_regex v \<and> no_regexes es)"

definition buf_below :: "heap \<Rightarrow> addr \<Rightarrow> bool" where
  "buf_below H a \<longleftrightarrow> (\<exists>d. h_docs H a = Some d \<and> (is_inline d \<or> (\<forall>x. b_buf d = Own x \<longrightarrow> x \<le> a)))"

lemma buf_below_local: "buf_below H a \<Longrightarrow> local_free H a (a + 1)"
  by (auto simp: buf_below_def local_free_def)

lemma buf_below_change: "buf_below H a \<Longrightarrow> local_change A H a H' \<Longrightarrow> buf_below H' a"
  unfolding buf_below_def local_change_def stays_def by (auto split: if_splits)

lemma nested_wf: "nested_of v = Some (t, sub) \<Longrightarrow> wf_val v = wf_elems sub \<and> no_regex v = no_regexes sub"
  by (cases v) auto

lemma value_ok_no_regex: "no_regex v \<Longrightarrow> value_ok H a k v"
  by (cases v) auto

lemma build_ok:
  "rep H a es0 \<Longrightarrow> room H a n \<Longrightarrow> buf_below H a \<Longrightarrow> wf_elems es \<Longrightarrow> no_regexes es \<Longrightarrow>
   length (enc_doc (es0 @ es)) \<le> n \<Longrightarrow>
   \<exists>H'. build H a es = Some H' \<and> rep H' a (es0 @ es) \<and> local_change {x. a \<le> x} H a H'"
  "rep H a es0 \<Longrightarrow> room H a n \<Longrightarrow> buf_below H a \<Longrightarrow> no_nul k \<Longrightarrow> wf_val v \<Longrightarrow> no_regex v \<Longrightarrow>
   length (enc_doc (es0 @ [(k, v)])) \<le> n \<Longrightarrow>
   \<exists>H'. build_elem H a k v = Some H' \<and> rep H' a (es0 @ [(k, v)]) \<and> local_change {x. a \<le> x} H a H'"
proof (induction H a es and H a k v arbitrary: es0 n and es0 n rule: build_build_elem.induct)
  case (1 H a)
  obtain d mem where d: "h_docs H a = Some d" "doc_mem H d = Some mem"
    using 1(1) by (auto simp: rep_def holds_def)
  then have "local_change {x. a \<le> x} H a H"
    by (auto simp: local_change_def stays_def same_prefix_def doc_mem_def split: if_splits)
  with 1(1) show ?case by simp
next
  case (2 H a k v es)
  have kv: "no_nul k" "wf_val v" "wf_elems es" "no_regex v" "no_regexes es" using 2(6,7) by simp_all
  have one: "length (enc_doc (es0 @ [(k, v)])) \<le> n" using 2(8) by (simp add: enc_simps)
  obtain H3 where H3: "build_elem H a k v = Some H3" "rep H3 a (es0 @ [(k, v)])" "local_change {x. a \<le> x} H a H3"
    using 2(1) [OF 2(3-5) kv(1,2,4) one] by blast
  have rm: "room H3 a n" by (rule room_change [OF 2(4) H3(3,2)])
  have bb: "buf_below H3 a" by (rule buf_below_change [OF 2(5) H3(3)])
  have "length (enc_doc ((es0 @ [(k, v)]) @ es)) \<le> n" using 2(8) by simp
  from 2(2) [OF H3(1,2) rm bb kv(3,5) this] obtain H' where "build H3 a es = Some H'" "rep H' a (es0 @ (k, v) # es)"
      "local_change {x. a \<le> x} H3 a H'" by auto
  with H3 local_change_trans [OF H3(3)] show ?case by auto
next
  case (3 H a k v)
  have n30: "n \<le> 2 ^ 30" using 3(3) by (auto simp: room_def)
  have tot: "length (enc_elems es0) + length k + length (enc_val v) + 2 + 5 \<le> n"
    using 3(8) by (simp add: enc_simps)
  have key: "int_string (k @ [0]) (-1) = Some k" using 3(5) tot n30 by (intro int_string_c) simp_all
  show ?case
  proof (cases "nested_of v")
    case None
    have "elem_fits H a k v" by (rule room_fits [OF 3(3,2,8)])
    from append_value_ok [OF 3(2) key this 3(6) value_ok_no_regex [OF 3(7)] buf_below_local [OF 3(4)]]
    obtain H1 where "bson_append_value H a (k @ [0]) (-1) (value_of v) (a + 1) = Some (True, H1)"
        "rep H1 a (es0 @ [(k, v)])" "frame {a} H a H1" by (auto simp: appends_def)
    with None frame_local_change [of a H H1 "{x. a \<le> x}"] show ?thesis
      by (simp add: must_def build_elem.simps [of H a k v])
  next
    case (Some ts)
    define t sub where "t = fst ts" and "sub = snd ts"
    have ts: "nested_of v = Some (t, sub)" using Some by (simp add: t_def sub_def)
    have v: "v = sub_val t sub" and t: "t = BSON_TYPE_DOCUMENT \<or> t = BSON_TYPE_ARRAY" using nested_ofD [OF ts] by auto
    have ev: "length (enc_val v) = length (enc_doc sub)" by (simp add: v enc_sub_val)
    have l0: "length (enc_doc (es0 @ [(k, sub_val t [])])) = length (enc_elems es0) + length k + 12"
      by (simp add: enc_simps enc_elem_def enc_sub_val)
    have s0: "length (enc_doc (es0 @ [(k, sub_val t [])])) \<le> n"
      unfolding l0 using tot ev by (simp add: enc_simps)
    obtain H1 where H1: "bson_append_bson_begin H a (k @ [0]) (-1) t (a + 1) = Some (True, H1)"
        "suspended H1 a es0 k t (a + 1)" "rep H1 (a + 1) []"
        "room H1 (a + 1) (n - length (enc_doc (es0 @ [(k, sub_val t [])])) + 5)" "local_change {a, a + 1} H a H1"
      using begin_ok [OF 3(2,3) key t s0, of "a + 1"] by auto
    have m1: "must (bson_append_bson_begin H a (k @ [0]) (-1) (fst ts) (a + 1)) = Some H1"
      using H1(1) by (simp add: must_def t_def)
    have bb: "buf_below H1 (a + 1)"
    proof -
      have "buf_below H1 a" by (rule buf_below_change [OF 3(4) H1(5)])
      with H1(2) show ?thesis by (auto simp: buf_below_def elim!: suspendedE)
    qed
    have ls: "length (enc_doc ([] @ sub)) \<le> n - length (enc_doc (es0 @ [(k, sub_val t [])])) + 5"
      unfolding l0 using tot ev by (simp add: enc_simps)
    have wfs: "wf_elems sub" "no_regexes sub" using nested_wf [OF ts] 3(6,7) by simp_all
    obtain H2 where H2: "build H1 (a + 1) sub = Some H2" "rep H2 (a + 1) sub" "local_change {x. a + 1 \<le> x} H1 (a + 1) H2"
      using 3(1) [OF Some m1 H1(3,4) bb wfs [unfolded sub_def] ls [unfolded sub_def]] by (auto simp: sub_def)
    have na: "a \<notin> {x. a + 1 \<le> x}" by simp
    have sm: "length (enc_doc (es0 @ [(k, sub_val t sub)])) \<le> INT_MAX" using 3(8) n30 unfolding v by simp
    obtain H3 where H3: "bson_append_bson_end H2 a (a + 1) = Some (True, H3)" "rep H3 a (es0 @ [(k, sub_val t sub)])"
        "local_change (insert a {x. a + 1 \<le> x}) H1 a H3"
      using end_ok [OF H1(2) H2(3) na H2(2) t sm] by auto
    have "local_change {x. a \<le> x} H a H3"
      by (rule local_change_trans [OF local_change_mono [OF H1(5)] local_change_mono [OF H3(3)]]) auto
    moreover have "build_elem H a k v = Some H3"
      using Some m1 H2(1) H3(1) by (simp add: build_elem.simps [of H a k v] sub_def must_def)
    ultimately show ?thesis using H3(2) by (auto simp: v)
  qed
qed

text \<open>
  C1. Nested building is correct: starting from \<^verbatim>\<open>bson_init\<close>, writing any well-formed tree of at most
  2^30 bytes that holds no regular expression (its options would be sorted, its last byte may miss the buffer, see
  \<open>regex_writes_past_inline\<close>) with \<^verbatim>\<open>bson_append_document_begin\<close>/\<^verbatim>\<open>_end\<close> and the append functions
  (all levels in the one buffer, which moves whenever it grows) succeeds at every call and leaves exactly the encoding of
  the tree.
\<close>

theorem build_encodes:
  assumes "wf_elems es" "no_regexes es" "length (enc_doc es) \<le> 2 ^ 30"
  shows "\<exists>H'. build (bson_init H a) a es = Some H' \<and> bson_get_data H' a = Some (enc_doc es)"
proof -
  have r: "rep (bson_init H a) a []" using init_holds [of H a] by (simp add: rep_def enc_doc_Nil)
  have "room (bson_init H a) a (2 ^ 30)" by (simp add: room_def bson_init_def inline_doc_def doc_off_def)
  moreover have "buf_below (bson_init H a) a" by (simp add: buf_below_def bson_init_def inline_doc_def)
  ultimately obtain H' where H': "build (bson_init H a) a es = Some H'" "rep H' a es"
    using build_ok(1) [OF r, of "2 ^ 30" es] assms by auto
  have "holds H' a (enc_doc es)" using H'(2) by (simp add: rep_def)
  from holds_get_data [OF this] H'(1) show ?thesis by blast
qed

lemma build_encodes_witness:
  "\<exists>H'. build (bson_init empty_heap 0) 0 [([0x61], VDocument [([0x62], VArray [([0x30], VInt32 7)])]), ([0x63], VNull)] = Some H' \<and>
    bson_get_data H' 0 = Some (enc_doc [([0x61], VDocument [([0x62], VArray [([0x30], VInt32 7)])]), ([0x63], VNull)])"
  by (rule build_encodes) (simp_all add: enc_doc_def frame_doc_def)

end
