(* ===== verification/Iter.thy ===== *)
theory Iter
  imports Bson_Build "HOL-Library.Signed_Division"
begin

text \<open>
  \<^verbatim>\<open>src/bson/bson-iter.c\<close> and the inline functions of \<^verbatim>\<open>bson-iter.h\<close>: the cursor over the elements of a document.

  The pointer \<^verbatim>\<open>raw\<close> is the memory from where it points to the end of the block it points into (\<open>None\<close> for
  \<^verbatim>\<open>NULL\<close>), next to the length \<^verbatim>\<open>len\<close> the iterator was given; every read is checked against the memory, so a
  read that the code fails to check is \<open>None\<close>. A pointer an accessor returns is the memory behind it.
\<close>

subsection \<open>The iterator\<close>

record bson_iter =
  i_raw :: "bytes option"
  i_len :: nat
  i_off :: nat
  i_type :: nat
  i_key :: nat
  i_d1 :: nat
  i_d2 :: nat
  i_d3 :: nat
  i_d4 :: nat
  i_next_off :: nat
  i_err_off :: nat

definition start_iter :: "bytes \<Rightarrow> nat \<Rightarrow> bson_iter" where
  "start_iter raw len =
     \<lparr>i_raw = Some raw, i_len = len, i_off = 0, i_type = 0, i_key = 0, i_d1 = 0, i_d2 = 0, i_d3 = 0, i_d4 = 0,
      i_next_off = 4, i_err_off = 0\<rparr>"

definition zero_iter :: bson_iter where
  "zero_iter =
     \<lparr>i_raw = None, i_len = 0, i_off = 0, i_type = 0, i_key = 0, i_d1 = 0, i_d2 = 0, i_d3 = 0, i_d4 = 0,
      i_next_off = 0, i_err_off = 0\<rparr>"

definition bson_iter_init :: "heap \<Rightarrow> addr \<Rightarrow> (bool \<times> bson_iter) option" where
  "bson_iter_init H a = do {
     d \<leftarrow> h_docs H a;
     (if b_len d < 5 then Some (False, zero_iter)
      else do {
        mem \<leftarrow> doc_mem H d;
        Some (True, start_iter (drop (doc_off d) mem) (b_len d)) }) }"

definition bson_iter_init_from_data :: "bytes \<Rightarrow> nat \<Rightarrow> (bool \<times> bson_iter) option" where
  "bson_iter_init_from_data data len =
     (if len < 5 \<or> len > INT_MAX then Some (False, zero_iter)
      else do {
        l \<leftarrow> rd32 data 0;
        (if l \<noteq> len then Some (False, zero_iter)
         else do {
           z \<leftarrow> rd8 data (len - 1);
           (if z \<noteq> 0 then Some (False, zero_iter) else Some (True, start_iter data len)) }) })"

subsection \<open>Moving on\<close>

definition mark_invalid :: "bson_iter \<Rightarrow> bson_iter" where
  "mark_invalid it = it\<lparr>i_raw := None, i_len := 0, i_next_off := 0\<rparr>"

text \<open>The answer of a branch: go on with the fields filled in, or \<^verbatim>\<open>mark_invalid\<close> with an error offset.\<close>

definition invalid :: "bson_iter \<Rightarrow> nat \<Rightarrow> (bool \<times> bson_iter) option" where
  "invalid it e = Some (False, mark_invalid (it\<lparr>i_err_off := e\<rparr>))"

text \<open>The final check of a branch: the next element starts before the end; \<open>o'\<close> is the cursor \<^verbatim>\<open>o\<close>.\<close>

definition finish :: "nat \<Rightarrow> nat \<Rightarrow> bson_iter \<Rightarrow> (bool \<times> bson_iter) option" where
  "finish len o' it = (if i_next_off it \<ge> len then invalid it o' else Some (True, it\<lparr>i_err_off := 0\<rparr>))"

text \<open>The first NUL at an index from \<open>j\<close> below \<open>len\<close>.\<close>

function scan_nul :: "bytes \<Rightarrow> nat \<Rightarrow> nat \<Rightarrow> nat option option" where
  "scan_nul raw len j =
     (if j < len then
        (case rd8 raw j of
           None \<Rightarrow> None
         | Some c \<Rightarrow> if c = 0 then Some (Some j) else scan_nul raw len (j + 1))
      else Some None)"
  by pat_completeness auto
termination
  by (relation "measure (\<lambda>(raw, len, j). len - j)") auto

declare scan_nul.simps [simp del]

definition next_fixed :: "nat \<Rightarrow> nat \<Rightarrow> bson_iter \<Rightarrow> nat \<Rightarrow> (bool \<times> bson_iter) option" where
  "next_fixed len p it n = finish len p (it\<lparr>i_next_off := add32 p n\<rparr>)"

definition next_string :: "bytes \<Rightarrow> nat \<Rightarrow> nat \<Rightarrow> bson_iter \<Rightarrow> (bool \<times> bson_iter) option" where
  "next_string raw len p it =
     (if add32 p 4 \<ge> len then invalid it p
      else do {
        let it = it\<lparr>i_d2 := add32 p 4\<rparr>;
        l \<leftarrow> rd32 raw (i_d1 it);
        (if l > sub32 len (add32 p 4) then invalid it p
         else do {
           let it = it\<lparr>i_next_off := add32 (add32 p 4) l\<rparr>;
           (if l = 0 \<or> i_next_off it \<ge> len then invalid it p
            else do {
              c \<leftarrow> rd8 raw (i_d2 it + (l - 1));
              (if c \<noteq> 0 then invalid it (sub32 (add32 (add32 p 4) l) 1) else finish len p it) }) }) })"

definition next_binary :: "bytes \<Rightarrow> nat \<Rightarrow> nat \<Rightarrow> bson_iter \<Rightarrow> (bool \<times> bson_iter) option" where
  "next_binary raw len p it =
     (if p \<ge> sub32 len 4 then invalid it p
      else do {
        let it = it\<lparr>i_d2 := add32 p 4, i_d3 := add32 p 5\<rparr>;
        l \<leftarrow> rd32 raw (i_d1 it);
        (if l \<ge> sub32 len p then invalid it p
         else do {
           subtype \<leftarrow> rd8 raw (i_d2 it);
           (if subtype = BSON_SUBTYPE_BINARY_DEPRECATED then
              (if l < 4 then invalid it p
               else do {
                 binary_len \<leftarrow> rd32 raw (i_d3 it);
                 (if add32 binary_len 4 \<noteq> l then invalid it (i_d3 it)
                  else finish len p (it\<lparr>i_next_off := add32 (add32 p 5) l\<rparr>)) })
            else finish len p (it\<lparr>i_next_off := add32 (add32 p 5) l\<rparr>)) }) })"

definition next_document :: "bytes \<Rightarrow> nat \<Rightarrow> nat \<Rightarrow> bson_iter \<Rightarrow> (bool \<times> bson_iter) option" where
  "next_document raw len p it =
     (if p \<ge> sub32 len 4 then invalid it p
      else do {
        l \<leftarrow> rd32 raw (i_d1 it);
        (if l > len \<or> l > sub32 len p then invalid it p
         else finish len p (it\<lparr>i_next_off := add32 p l\<rparr>)) })"

definition next_bool :: "bytes \<Rightarrow> nat \<Rightarrow> nat \<Rightarrow> bson_iter \<Rightarrow> (bool \<times> bson_iter) option" where
  "next_bool raw len p it =
     (if i_d1 it \<ge> len then invalid it p
      else do {
        val \<leftarrow> rd8 raw (i_d1 it);
        (if val \<noteq> 0 \<and> val \<noteq> 1 then invalid it p
         else finish len p (it\<lparr>i_next_off := add32 p 1\<rparr>)) })"

definition next_regex :: "bytes \<Rightarrow> nat \<Rightarrow> nat \<Rightarrow> bson_iter \<Rightarrow> (bool \<times> bson_iter) option" where
  "next_regex raw len p it = do {
     eor \<leftarrow> scan_nul raw len p;
     (case eor of
        None \<Rightarrow> invalid it (i_next_off it)
      | Some j \<Rightarrow> do {
          let it = it\<lparr>i_d2 := add32 j 1\<rparr>;
          eoo \<leftarrow> scan_nul raw len (add32 j 1);
          (case eoo of
             None \<Rightarrow> invalid it (i_next_off it)
           | Some j2 \<Rightarrow> finish len j2 (it\<lparr>i_next_off := add32 j2 1\<rparr>)) }) }"

definition next_dbpointer :: "bytes \<Rightarrow> nat \<Rightarrow> nat \<Rightarrow> bson_iter \<Rightarrow> (bool \<times> bson_iter) option" where
  "next_dbpointer raw len p it =
     (if p \<ge> sub32 len 4 then invalid it p
      else do {
        let it = it\<lparr>i_d2 := add32 p 4\<rparr>;
        l \<leftarrow> rd32 raw (i_d1 it);
        (if l = 0 \<or> l > sub32 (sub32 len p) 4 then invalid it p
         else do {
           c \<leftarrow> rd8 raw (p + l + 3);
           (if c \<noteq> 0 then invalid it (add32 (add32 p l) 3)
            else finish len p (it\<lparr>i_d3 := add32 (add32 p 4) l, i_next_off := add32 (add32 (add32 p 4) l) 12\<rparr>)) }) })"

definition next_codewscope :: "bytes \<Rightarrow> nat \<Rightarrow> nat \<Rightarrow> bson_iter \<Rightarrow> (bool \<times> bson_iter) option" where
  "next_codewscope raw len p it =
     (if len < 19 \<or> p \<ge> sub32 len 14 then invalid it p
      else do {
        let it = it\<lparr>i_d2 := add32 p 4, i_d3 := add32 p 8\<rparr>;
        l \<leftarrow> rd32 raw (i_d1 it);
        (if l < 14 \<or> l \<ge> sub32 len p then invalid it p
         else do {
           let it = it\<lparr>i_next_off := add32 p l\<rparr>;
           (if i_next_off it \<ge> len then invalid it p
            else do {
              l \<leftarrow> rd32 raw (i_d2 it);
              (if l = 0 \<or> l \<ge> sub32 (sub32 (sub32 len p) 4) 4 then invalid it p
               else if add32 (add32 (add32 p 8) l) 4 \<ge> i_next_off it then invalid it (add32 p 4)
               else do {
                 let it = it\<lparr>i_d4 := add32 (add32 p 8) l\<rparr>;
                 doclen \<leftarrow> rd32 raw (i_d4 it);
                 (if add32 (add32 (add32 p 8) l) doclen \<noteq> i_next_off it then invalid it (add32 (add32 p 8) l)
                  else finish len p it) }) }) }) })"

text \<open>The switch over the type of the element; the second component says that the type is unknown.\<close>

definition next_switch :: "bytes \<Rightarrow> nat \<Rightarrow> nat \<Rightarrow> bson_iter \<Rightarrow> u8 \<Rightarrow> (bool \<times> bson_iter) option \<times> bool" where
  "next_switch raw len p it t =
     (if t = BSON_TYPE_DATE_TIME \<or> t = BSON_TYPE_DOUBLE \<or> t = BSON_TYPE_INT64 \<or> t = BSON_TYPE_TIMESTAMP
      then (next_fixed len p it 8, False)
      else if t = BSON_TYPE_CODE \<or> t = BSON_TYPE_SYMBOL \<or> t = BSON_TYPE_UTF8 then (next_string raw len p it, False)
      else if t = BSON_TYPE_BINARY then (next_binary raw len p it, False)
      else if t = BSON_TYPE_ARRAY \<or> t = BSON_TYPE_DOCUMENT then (next_document raw len p it, False)
      else if t = BSON_TYPE_OID then (next_fixed len p it 12, False)
      else if t = BSON_TYPE_BOOL then (next_bool raw len p it, False)
      else if t = BSON_TYPE_REGEX then (next_regex raw len p it, False)
      else if t = BSON_TYPE_DBPOINTER then (next_dbpointer raw len p it, False)
      else if t = BSON_TYPE_CODEWSCOPE then (next_codewscope raw len p it, False)
      else if t = BSON_TYPE_INT32 then (next_fixed len p it 4, False)
      else if t = BSON_TYPE_DECIMAL128 then (next_fixed len p it 16, False)
      else if t = BSON_TYPE_MAXKEY \<or> t = BSON_TYPE_MINKEY \<or> t = BSON_TYPE_NULL \<or> t = BSON_TYPE_UNDEFINED
      then (next_fixed len p (it\<lparr>i_d1 := 2 ^ 32 - 1\<rparr>) 0, False)
      else (invalid it p, t \<noteq> BSON_TYPE_EOD))"

text \<open>
  \<^verbatim>\<open>_bson_iter_next_internal\<close>: whether there is a next element, its type, whether an unknown type was met, and
  the iterator. The key is at offset \<^verbatim>\<open>key\<close> of the iterator.
\<close>

definition bson_iter_next_internal :: "bson_iter \<Rightarrow> (bool \<times> u8 \<times> bool \<times> bson_iter) option" where
  "bson_iter_next_internal it =
     (case i_raw it of
        None \<Rightarrow> Some (False, BSON_TYPE_EOD, False, it)
      | Some raw \<Rightarrow> do {
          let len = i_len it;
          let off = i_next_off it;
          let it = it\<lparr>i_off := off, i_type := off, i_key := add32 off 1, i_d1 := 0, i_d2 := 0, i_d3 := 0, i_d4 := 0\<rparr>;
          r \<leftarrow> scan_nul raw len (add32 off 1);
          (case r of
             None \<Rightarrow> Some (False, BSON_TYPE_EOD, False, mark_invalid it)
           | Some j \<Rightarrow> do {
               let p = add32 j 1;
               let it = it\<lparr>i_d1 := p\<rparr>;
               t \<leftarrow> rd8 raw (i_type it);
               let sw = next_switch raw len p it t;
               (ok, it) \<leftarrow> fst sw;
               Some (ok, t, snd sw, it) }) })"

definition bson_iter_next :: "bson_iter \<Rightarrow> (bool \<times> bson_iter) option" where
  "bson_iter_next it = map_option (\<lambda>(ok, _, _, it). (ok, it)) (bson_iter_next_internal it)"

subsection \<open>Reading the element\<close>

definition iter_rd8 :: "bson_iter \<Rightarrow> nat \<Rightarrow> u8 option" where
  "iter_rd8 it i = do { raw \<leftarrow> i_raw it; rd8 raw i }"

definition iter_rd32 :: "bson_iter \<Rightarrow> nat \<Rightarrow> nat option" where
  "iter_rd32 it i = do { raw \<leftarrow> i_raw it; rd32 raw i }"

definition iter_rd64 :: "bson_iter \<Rightarrow> nat \<Rightarrow> nat option" where
  "iter_rd64 it i = do { raw \<leftarrow> i_raw it; rd64 raw i }"

text \<open>The pointer \<^verbatim>\<open>raw + i\<close>.\<close>

definition iter_ptr :: "bson_iter \<Rightarrow> nat \<Rightarrow> bytes option" where
  "iter_ptr it i = do { raw \<leftarrow> i_raw it; if i \<le> length raw then Some (drop i raw) else None }"

definition ITER_TYPE :: "bson_iter \<Rightarrow> u8 option" where
  "ITER_TYPE it = iter_rd8 it (i_type it)"

definition bson_iter_type :: "bson_iter \<Rightarrow> u8 option" where
  "bson_iter_type it = (if i_raw it = None \<or> i_len it = 0 then None else ITER_TYPE it)"

definition bson_iter_key :: "bson_iter \<Rightarrow> bytes option" where
  "bson_iter_key it = iter_ptr it (i_key it)"

definition bson_iter_double :: "bson_iter \<Rightarrow> u64 option" where
  "bson_iter_double it = do {
     t \<leftarrow> ITER_TYPE it;
     (if t = BSON_TYPE_DOUBLE then map_option word_of_nat (iter_rd64 it (i_d1 it)) else Some 0) }"

definition bson_iter_int32 :: "bson_iter \<Rightarrow> u32 option" where
  "bson_iter_int32 it = do {
     t \<leftarrow> ITER_TYPE it;
     (if t = BSON_TYPE_INT32 then map_option word_of_nat (iter_rd32 it (i_d1 it)) else Some 0) }"

definition bson_iter_int64 :: "bson_iter \<Rightarrow> u64 option" where
  "bson_iter_int64 it = do {
     t \<leftarrow> ITER_TYPE it;
     (if t = BSON_TYPE_INT64 then map_option word_of_nat (iter_rd64 it (i_d1 it)) else Some 0) }"

definition bson_iter_bool :: "bson_iter \<Rightarrow> bool option" where
  "bson_iter_bool it = do {
     t \<leftarrow> ITER_TYPE it;
     (if t = BSON_TYPE_BOOL then map_option (\<lambda>c. c \<noteq> 0) (iter_rd8 it (i_d1 it)) else Some False) }"

definition bson_iter_decimal128 :: "bson_iter \<Rightarrow> (u64 \<times> u64) option option" where
  "bson_iter_decimal128 it = do {
     t \<leftarrow> ITER_TYPE it;
     (if t = BSON_TYPE_DECIMAL128 then do {
        low \<leftarrow> iter_rd64 it (i_d1 it);
        high \<leftarrow> iter_rd64 it (i_d1 it + 8);
        Some (Some (word_of_nat high, word_of_nat low)) }
      else Some None) }"

text \<open>Accessors that return a pointer answer \<open>Some None\<close> for \<^verbatim>\<open>NULL\<close> (another type).\<close>

definition bson_iter_oid :: "bson_iter \<Rightarrow> bytes option option" where
  "bson_iter_oid it = do {
     t \<leftarrow> ITER_TYPE it;
     (if t = BSON_TYPE_OID then map_option Some (iter_ptr it (i_d1 it)) else Some None) }"

definition bson_iter_regex :: "bson_iter \<Rightarrow> (bytes \<times> bytes) option option" where
  "bson_iter_regex it = do {
     t \<leftarrow> ITER_TYPE it;
     (if t = BSON_TYPE_REGEX then do {
        r \<leftarrow> iter_ptr it (i_d1 it);
        opts \<leftarrow> iter_ptr it (i_d2 it);
        Some (Some (r, opts)) }
      else Some None) }"

text \<open>\<^verbatim>\<open>BSON_MAX (0, val - 1)\<close> on \<^verbatim>\<open>int32_t\<close>: zero for negative lengths.\<close>

definition bson_iter_utf8_len_unsafe :: "bson_iter \<Rightarrow> nat option" where
  "bson_iter_utf8_len_unsafe it = do {
     val \<leftarrow> iter_rd32 it (i_d1 it);
     Some (if val < 2 ^ 31 then val - 1 else 0) }"

definition iter_string :: "u8 \<Rightarrow> bson_iter \<Rightarrow> (bytes \<times> nat) option option" where
  "iter_string ty it = do {
     t \<leftarrow> ITER_TYPE it;
     (if t = ty then do {
        len \<leftarrow> bson_iter_utf8_len_unsafe it;
        x \<leftarrow> iter_ptr it (i_d2 it);
        Some (Some (x, len)) }
      else Some None) }"

definition bson_iter_utf8 where "bson_iter_utf8 = iter_string BSON_TYPE_UTF8"
definition bson_iter_code where "bson_iter_code = iter_string BSON_TYPE_CODE"
definition bson_iter_symbol where "bson_iter_symbol = iter_string BSON_TYPE_SYMBOL"

definition bson_iter_dup_utf8 :: "bson_iter \<Rightarrow> (bytes \<times> nat) option option" where
  "bson_iter_dup_utf8 it = do {
     r \<leftarrow> bson_iter_utf8 it;
     (case r of
        None \<Rightarrow> Some None
      | Some (str, len) \<Rightarrow> do {
          x \<leftarrow> mem_read str 0 len;
          ret \<leftarrow> mem_write (bson_malloc0 (add32 len 1)) 0 x;
          ret \<leftarrow> mem_write ret len [0];
          Some (Some (ret, len)) }) }"

definition bson_iter_binary :: "bson_iter \<Rightarrow> (u8 \<times> bytes option \<times> nat) option" where
  "bson_iter_binary it = do {
     t \<leftarrow> ITER_TYPE it;
     (if t = BSON_TYPE_BINARY then do {
        subtype \<leftarrow> iter_rd8 it (i_d2 it);
        len \<leftarrow> iter_rd32 it (i_d1 it);
        (if subtype = BSON_SUBTYPE_BINARY_DEPRECATED then do {
           b \<leftarrow> iter_ptr it (i_d3 it + 4);
           Some (subtype, Some b, sub32 len 4) }
         else do {
           b \<leftarrow> iter_ptr it (i_d3 it);
           Some (subtype, Some b, len) }) }
      else Some (BSON_SUBTYPE_BINARY, None, 0)) }"

definition bson_iter_codewscope :: "bson_iter \<Rightarrow> (bytes \<times> nat \<times> bytes \<times> nat) option option" where
  "bson_iter_codewscope it = do {
     t \<leftarrow> ITER_TYPE it;
     (if t = BSON_TYPE_CODEWSCOPE then do {
        len \<leftarrow> iter_rd32 it (i_d2 it);
        (if len = 0 then None
         else do {
           scope_len \<leftarrow> iter_rd32 it (i_d4 it);
           scope \<leftarrow> iter_ptr it (i_d4 it);
           code \<leftarrow> iter_ptr it (i_d3 it);
           Some (Some (code, len - 1, scope, scope_len)) }) }
      else Some None) }"

definition bson_iter_dbpointer :: "bson_iter \<Rightarrow> (bytes \<times> nat \<times> bytes) option option" where
  "bson_iter_dbpointer it = do {
     t \<leftarrow> ITER_TYPE it;
     (if t = BSON_TYPE_DBPOINTER then do {
        len \<leftarrow> iter_rd32 it (i_d1 it);
        c \<leftarrow> iter_ptr it (i_d2 it);
        i \<leftarrow> iter_ptr it (i_d3 it);
        Some (Some (c, len - 1, i)) }
      else Some None) }"

definition bson_iter_date_time :: "bson_iter \<Rightarrow> u64 option" where
  "bson_iter_date_time it = do {
     t \<leftarrow> ITER_TYPE it;
     (if t = BSON_TYPE_DATE_TIME then map_option word_of_nat (iter_rd64 it (i_d1 it)) else Some 0) }"

text \<open>
  \<^verbatim>\<open>bson_iter_int64_unsafe (iter) / 1000UL\<close>: the divisor is unsigned, so the division is. \<^verbatim>\<open>bson_iter_timeval\<close>
  divides by the signed \<^verbatim>\<open>1000\<close>.
\<close>

definition bson_iter_time_t :: "bson_iter \<Rightarrow> u64 option" where
  "bson_iter_time_t it = do {
     t \<leftarrow> ITER_TYPE it;
     (if t = BSON_TYPE_DATE_TIME then map_option (\<lambda>n. word_of_nat n div 1000) (iter_rd64 it (i_d1 it)) else Some 0) }"

definition bson_iter_timeval :: "bson_iter \<Rightarrow> (u64 \<times> u64) option" where
  "bson_iter_timeval it = do {
     t \<leftarrow> ITER_TYPE it;
     (if t = BSON_TYPE_DATE_TIME
      then map_option (\<lambda>n. let value = sint (word_of_nat n :: u64)
             in (word_of_int (value sdiv 1000), word_of_int ((value smod 1000) * 1000))) (iter_rd64 it (i_d1 it))
      else Some (0, 0)) }"

definition bson_iter_timestamp :: "bson_iter \<Rightarrow> (u32 \<times> u32) option" where
  "bson_iter_timestamp it = do {
     t \<leftarrow> ITER_TYPE it;
     (if t = BSON_TYPE_TIMESTAMP then do {
        encoded \<leftarrow> iter_rd64 it (i_d1 it);
        Some (word_of_nat (encoded div 2 ^ 32), word_of_nat (encoded mod 2 ^ 32)) }
      else Some (0, 0)) }"

definition bson_iter_document :: "bson_iter \<Rightarrow> (nat \<times> bytes option) option" where
  "bson_iter_document it = do {
     t \<leftarrow> ITER_TYPE it;
     (if t = BSON_TYPE_DOCUMENT then do {
        len \<leftarrow> iter_rd32 it (i_d1 it);
        x \<leftarrow> iter_ptr it (i_d1 it);
        Some (len, Some x) }
      else Some (0, None)) }"

definition bson_iter_array :: "bson_iter \<Rightarrow> (nat \<times> bytes option) option" where
  "bson_iter_array it = do {
     t \<leftarrow> ITER_TYPE it;
     (if t = BSON_TYPE_ARRAY then do {
        len \<leftarrow> iter_rd32 it (i_d1 it);
        x \<leftarrow> iter_ptr it (i_d1 it);
        Some (len, Some x) }
      else Some (0, None)) }"

definition bson_iter_recurse :: "bson_iter \<Rightarrow> bson_iter option option" where
  "bson_iter_recurse it = do {
     t \<leftarrow> ITER_TYPE it;
     (if t = BSON_TYPE_DOCUMENT \<or> t = BSON_TYPE_ARRAY then do {
        (len, data) \<leftarrow> (if t = BSON_TYPE_DOCUMENT then bson_iter_document it else bson_iter_array it);
        Some (Some ((start_iter [] len)\<lparr>i_raw := data\<rparr>)) }
      else Some None) }"

definition bson_iter_as_int64 :: "bson_iter \<Rightarrow> (u64 \<Rightarrow> u64) \<Rightarrow> u64 option" where
  "bson_iter_as_int64 it double_to_int = do {
     t \<leftarrow> ITER_TYPE it;
     (if t = BSON_TYPE_BOOL then map_option (\<lambda>b. if b then 1 else 0) (bson_iter_bool it)
      else if t = BSON_TYPE_DOUBLE then map_option double_to_int (bson_iter_double it)
      else if t = BSON_TYPE_INT64 then bson_iter_int64 it
      else if t = BSON_TYPE_INT32 then map_option scast (bson_iter_int32 it)
      else Some 0) }"

text \<open>The conversion of an integer to a double (its bits) is the argument \<open>to_double\<close>.\<close>

definition bson_iter_as_double :: "bson_iter \<Rightarrow> (int \<Rightarrow> u64) \<Rightarrow> u64 option" where
  "bson_iter_as_double it to_double = do {
     t \<leftarrow> ITER_TYPE it;
     (if t = BSON_TYPE_BOOL then map_option (\<lambda>b. to_double (if b then 1 else 0)) (bson_iter_bool it)
      else if t = BSON_TYPE_DOUBLE then bson_iter_double it
      else if t = BSON_TYPE_INT32 then map_option (\<lambda>x. to_double (sint x)) (bson_iter_int32 it)
      else if t = BSON_TYPE_INT64 then map_option (\<lambda>x. to_double (sint x)) (bson_iter_int64 it)
      else Some 0) }"

text \<open>\<^verbatim>\<open>d == 0.0\<close> holds for the two zeroes.\<close>

definition bson_iter_as_bool :: "bson_iter \<Rightarrow> bool option" where
  "bson_iter_as_bool it = do {
     t \<leftarrow> ITER_TYPE it;
     (if t = BSON_TYPE_BOOL then bson_iter_bool it
      else if t = BSON_TYPE_DOUBLE then map_option (\<lambda>x. x \<noteq> 0 \<and> x \<noteq> 0x8000000000000000) (bson_iter_double it)
      else if t = BSON_TYPE_INT64 then map_option (\<lambda>x. x \<noteq> 0) (bson_iter_int64 it)
      else if t = BSON_TYPE_INT32 then map_option (\<lambda>x. x \<noteq> 0) (bson_iter_int32 it)
      else if t = BSON_TYPE_UTF8 then Some True
      else if t = BSON_TYPE_NULL \<or> t = BSON_TYPE_UNDEFINED then Some False
      else Some True) }"

text \<open>\<^verbatim>\<open>bson_iter_value\<close>: the tagged value, or \<^verbatim>\<open>NULL\<close> for an unknown type.\<close>

definition bson_iter_value :: "bson_iter \<Rightarrow> bson_value option option" where
  "bson_iter_value it = do {
     t \<leftarrow> ITER_TYPE it;
     (if t = BSON_TYPE_DOUBLE then map_option (\<lambda>x. Some (BV_Double x)) (bson_iter_double it)
      else if t = BSON_TYPE_UTF8 then do {
        r \<leftarrow> bson_iter_utf8 it; (x, n) \<leftarrow> r; Some (Some (BV_Utf8 x n)) }
      else if t = BSON_TYPE_DOCUMENT then do {
        (n, r) \<leftarrow> bson_iter_document it; x \<leftarrow> r; Some (Some (BV_Document x n)) }
      else if t = BSON_TYPE_ARRAY then do {
        (n, r) \<leftarrow> bson_iter_array it; x \<leftarrow> r; Some (Some (BV_Array x n)) }
      else if t = BSON_TYPE_BINARY then do {
        (st, r, n) \<leftarrow> bson_iter_binary it; x \<leftarrow> r; Some (Some (BV_Binary st x n)) }
      else if t = BSON_TYPE_OID then do {
        r \<leftarrow> bson_iter_oid it; x \<leftarrow> r; i \<leftarrow> mem_read x 0 12; Some (Some (BV_Oid i)) }
      else if t = BSON_TYPE_BOOL then map_option (\<lambda>b. Some (BV_Bool b)) (bson_iter_bool it)
      else if t = BSON_TYPE_DATE_TIME then map_option (\<lambda>x. Some (BV_DateTime x)) (bson_iter_date_time it)
      else if t = BSON_TYPE_REGEX then do {
        r \<leftarrow> bson_iter_regex it; (x, opt) \<leftarrow> r; Some (Some (BV_Regex x opt)) }
      else if t = BSON_TYPE_DBPOINTER then do {
        r \<leftarrow> bson_iter_dbpointer it; (c, n, x) \<leftarrow> r; i \<leftarrow> mem_read x 0 12; Some (Some (BV_DBPointer c n i)) }
      else if t = BSON_TYPE_CODE then do {
        r \<leftarrow> bson_iter_code it; (x, n) \<leftarrow> r; Some (Some (BV_Code x n)) }
      else if t = BSON_TYPE_SYMBOL then do {
        r \<leftarrow> bson_iter_symbol it; (x, n) \<leftarrow> r; Some (Some (BV_Symbol x n)) }
      else if t = BSON_TYPE_CODEWSCOPE then do {
        r \<leftarrow> bson_iter_codewscope it; (c, n, x, m) \<leftarrow> r; Some (Some (BV_CodeWScope c n x m)) }
      else if t = BSON_TYPE_INT32 then map_option (\<lambda>x. Some (BV_Int32 x)) (bson_iter_int32 it)
      else if t = BSON_TYPE_TIMESTAMP then map_option (\<lambda>(ts, inc). Some (BV_Timestamp ts inc)) (bson_iter_timestamp it)
      else if t = BSON_TYPE_INT64 then map_option (\<lambda>x. Some (BV_Int64 x)) (bson_iter_int64 it)
      else if t = BSON_TYPE_DECIMAL128 then do {
        r \<leftarrow> bson_iter_decimal128 it; (hi, lo) \<leftarrow> r; Some (Some (BV_Decimal128 hi lo)) }
      else if t = BSON_TYPE_NULL then Some (Some BV_Null)
      else if t = BSON_TYPE_UNDEFINED then Some (Some BV_Undefined)
      else if t = BSON_TYPE_MAXKEY then Some (Some BV_MaxKey)
      else if t = BSON_TYPE_MINKEY then Some (Some BV_MinKey)
      else Some None) }"

text \<open>The branch of each type.\<close>

lemma iter_value_simps:
  "ITER_TYPE it = Some BSON_TYPE_DOUBLE \<Longrightarrow>
     bson_iter_value it = map_option (\<lambda>x. Some (BV_Double x)) (bson_iter_double it)"
  "ITER_TYPE it = Some BSON_TYPE_UTF8 \<Longrightarrow>
     bson_iter_value it = (do { r \<leftarrow> bson_iter_utf8 it; (x, n) \<leftarrow> r; Some (Some (BV_Utf8 x n)) })"
  "ITER_TYPE it = Some BSON_TYPE_DOCUMENT \<Longrightarrow>
     bson_iter_value it = (do { (n, r) \<leftarrow> bson_iter_document it; x \<leftarrow> r; Some (Some (BV_Document x n)) })"
  "ITER_TYPE it = Some BSON_TYPE_ARRAY \<Longrightarrow>
     bson_iter_value it = (do { (n, r) \<leftarrow> bson_iter_array it; x \<leftarrow> r; Some (Some (BV_Array x n)) })"
  "ITER_TYPE it = Some BSON_TYPE_BINARY \<Longrightarrow>
     bson_iter_value it = (do { (st, r, n) \<leftarrow> bson_iter_binary it; x \<leftarrow> r; Some (Some (BV_Binary st x n)) })"
  "ITER_TYPE it = Some BSON_TYPE_OID \<Longrightarrow>
     bson_iter_value it = (do { r \<leftarrow> bson_iter_oid it; x \<leftarrow> r; i \<leftarrow> mem_read x 0 12; Some (Some (BV_Oid i)) })"
  "ITER_TYPE it = Some BSON_TYPE_BOOL \<Longrightarrow>
     bson_iter_value it = map_option (\<lambda>b. Some (BV_Bool b)) (bson_iter_bool it)"
  "ITER_TYPE it = Some BSON_TYPE_DATE_TIME \<Longrightarrow>
     bson_iter_value it = map_option (\<lambda>x. Some (BV_DateTime x)) (bson_iter_date_time it)"
  "ITER_TYPE it = Some BSON_TYPE_REGEX \<Longrightarrow>
     bson_iter_value it = (do { r \<leftarrow> bson_iter_regex it; (x, opt) \<leftarrow> r; Some (Some (BV_Regex x opt)) })"
  "ITER_TYPE it = Some BSON_TYPE_DBPOINTER \<Longrightarrow>
     bson_iter_value it = (do { r \<leftarrow> bson_iter_dbpointer it; (c, n, x) \<leftarrow> r; i \<leftarrow> mem_read x 0 12; Some (Some (BV_DBPointer c n i)) })"
  "ITER_TYPE it = Some BSON_TYPE_CODE \<Longrightarrow>
     bson_iter_value it = (do { r \<leftarrow> bson_iter_code it; (x, n) \<leftarrow> r; Some (Some (BV_Code x n)) })"
  "ITER_TYPE it = Some BSON_TYPE_SYMBOL \<Longrightarrow>
     bson_iter_value it = (do { r \<leftarrow> bson_iter_symbol it; (x, n) \<leftarrow> r; Some (Some (BV_Symbol x n)) })"
  "ITER_TYPE it = Some BSON_TYPE_CODEWSCOPE \<Longrightarrow>
     bson_iter_value it = (do { r \<leftarrow> bson_iter_codewscope it; (c, n, x, m) \<leftarrow> r; Some (Some (BV_CodeWScope c n x m)) })"
  "ITER_TYPE it = Some BSON_TYPE_INT32 \<Longrightarrow>
     bson_iter_value it = map_option (\<lambda>x. Some (BV_Int32 x)) (bson_iter_int32 it)"
  "ITER_TYPE it = Some BSON_TYPE_TIMESTAMP \<Longrightarrow>
     bson_iter_value it = map_option (\<lambda>(ts, inc). Some (BV_Timestamp ts inc)) (bson_iter_timestamp it)"
  "ITER_TYPE it = Some BSON_TYPE_INT64 \<Longrightarrow>
     bson_iter_value it = map_option (\<lambda>x. Some (BV_Int64 x)) (bson_iter_int64 it)"
  "ITER_TYPE it = Some BSON_TYPE_DECIMAL128 \<Longrightarrow>
     bson_iter_value it = (do { r \<leftarrow> bson_iter_decimal128 it; (hi, lo) \<leftarrow> r; Some (Some (BV_Decimal128 hi lo)) })"
  "ITER_TYPE it = Some BSON_TYPE_NULL \<Longrightarrow>
     bson_iter_value it = Some (Some BV_Null)"
  "ITER_TYPE it = Some BSON_TYPE_UNDEFINED \<Longrightarrow>
     bson_iter_value it = Some (Some BV_Undefined)"
  "ITER_TYPE it = Some BSON_TYPE_MAXKEY \<Longrightarrow>
     bson_iter_value it = Some (Some BV_MaxKey)"
  "ITER_TYPE it = Some BSON_TYPE_MINKEY \<Longrightarrow>
     bson_iter_value it = Some (Some BV_MinKey)"
  by (simp_all only: bson_iter_value_def Option.bind.simps) simp_all

subsection \<open>Looking for a key\<close>

text \<open>\<^verbatim>\<open>strncmp (key, ikey, n) == 0\<close> on C strings, and \<^verbatim>\<open>ikey[n] == '\0'\<close>.\<close>

definition key_matches :: "bytes \<Rightarrow> nat \<Rightarrow> bson_iter \<Rightarrow> bool option" where
  "key_matches k n it = do {
     raw \<leftarrow> i_raw it;
     ikey \<leftarrow> c_string raw (i_key it);
     (if take n k = take n ikey then do { c \<leftarrow> rd8 raw (i_key it + n); Some (c = 0) } else Some False) }"

partial_function (option) find_loop :: "(bson_iter \<Rightarrow> bool option) \<Rightarrow> bson_iter \<Rightarrow> (bool \<times> bson_iter) option" where
  "find_loop test it =
     (case bson_iter_next it of
        None \<Rightarrow> None
      | Some (ok, it1) \<Rightarrow>
          if \<not> ok then Some (False, it1)
          else (case test it1 of
                  None \<Rightarrow> None
                | Some b \<Rightarrow> if b then Some (True, it1) else find_loop test it1))"

text \<open>
  The length of a key passes through an \<^verbatim>\<open>int\<close> here and in \<^verbatim>\<open>bson_iter_find_descendant\<close>; the model leaves the
  conversion out, which is the identity for keys below 2^31 bytes.
\<close>

definition bson_iter_find_with_len :: "bson_iter \<Rightarrow> bytes \<Rightarrow> int \<Rightarrow> (bool \<times> bson_iter) option" where
  "bson_iter_find_with_len it key keylen =
     (if keylen = 0 then Some (False, it)
      else do {
        k \<leftarrow> c_string key 0;
        find_loop (key_matches k (if keylen < 0 then length k else nat keylen)) it })"

definition bson_iter_find :: "bson_iter \<Rightarrow> bytes \<Rightarrow> (bool \<times> bson_iter) option" where
  "bson_iter_find it key = bson_iter_find_with_len it key (-1)"

text \<open>\<^verbatim>\<open>strcasecmp\<close> in the C locale.\<close>

definition c_tolower :: "u8 \<Rightarrow> u8" where
  "c_tolower c = (if 65 \<le> c \<and> c \<le> 90 then c + 32 else c)"

definition bson_iter_find_case :: "bson_iter \<Rightarrow> bytes \<Rightarrow> (bool \<times> bson_iter) option" where
  "bson_iter_find_case it key = do {
     k \<leftarrow> c_string key 0;
     find_loop (\<lambda>it1. do { raw \<leftarrow> i_raw it1; ik \<leftarrow> c_string raw (i_key it1);
       Some (map c_tolower k = map c_tolower ik) }) it }"

definition bson_iter_init_find :: "heap \<Rightarrow> addr \<Rightarrow> bytes \<Rightarrow> (bool \<times> bson_iter) option" where
  "bson_iter_init_find H a key = do {
     (ok, it) \<leftarrow> bson_iter_init H a;
     (if ok then bson_iter_find it key else Some (False, it)) }"

definition bson_iter_init_find_case :: "heap \<Rightarrow> addr \<Rightarrow> bytes \<Rightarrow> (bool \<times> bson_iter) option" where
  "bson_iter_init_find_case H a key = do {
     (ok, it) \<leftarrow> bson_iter_init H a;
     (if ok then bson_iter_find_case it key else Some (False, it)) }"

text \<open>
  \<^verbatim>\<open>bson_iter_find_descendant\<close> on a key given as its C string: the answer is the iterator of the
  descendant.
\<close>

function bson_iter_find_descendant :: "bson_iter \<Rightarrow> bytes \<Rightarrow> bson_iter option option" where
  "bson_iter_find_descendant it dotkey =
     (let sub = takeWhile (\<lambda>c. c \<noteq> 0x2E) dotkey;
          dot = (length sub < length dotkey)
      in case bson_iter_find_with_len it (dotkey @ [0]) (int (length sub)) of
           None \<Rightarrow> None
         | Some (found, it1) \<Rightarrow>
             if \<not> found then Some None
             else if \<not> dot then Some (Some it1)
             else (case bson_iter_recurse it1 of
                     None \<Rightarrow> None
                   | Some None \<Rightarrow> Some None
                   | Some (Some tmp) \<Rightarrow> bson_iter_find_descendant tmp (drop (length sub + 1) dotkey)))"
  by pat_completeness auto
termination
  by (relation "measure (\<lambda>(it, dotkey). length dotkey)") auto

declare bson_iter_find_descendant.simps [simp del]

subsection \<open>Overwriting in place\<close>

definition iter_write :: "bson_iter \<Rightarrow> bytes \<Rightarrow> bson_iter option" where
  "iter_write it xs = do {
     raw \<leftarrow> i_raw it;
     raw' \<leftarrow> mem_write raw (i_d1 it) xs;
     Some (it\<lparr>i_raw := Some raw'\<rparr>) }"

definition bson_iter_overwrite_bool :: "bson_iter \<Rightarrow> bool \<Rightarrow> bson_iter option" where
  "bson_iter_overwrite_bool it value = do {
     t \<leftarrow> ITER_TYPE it;
     (if t = BSON_TYPE_BOOL then iter_write it [if value then 1 else 0] else Some it) }"

definition bson_iter_overwrite_int32 :: "bson_iter \<Rightarrow> u32 \<Rightarrow> bson_iter option" where
  "bson_iter_overwrite_int32 it value = do {
     t \<leftarrow> ITER_TYPE it;
     (if t = BSON_TYPE_INT32 then iter_write it (le32 (unat value)) else Some it) }"

definition bson_iter_overwrite_int64 :: "bson_iter \<Rightarrow> u64 \<Rightarrow> bson_iter option" where
  "bson_iter_overwrite_int64 it value = do {
     t \<leftarrow> ITER_TYPE it;
     (if t = BSON_TYPE_INT64 then iter_write it (le64 (unat value)) else Some it) }"

definition bson_iter_overwrite_double :: "bson_iter \<Rightarrow> u64 \<Rightarrow> bson_iter option" where
  "bson_iter_overwrite_double it value = do {
     t \<leftarrow> ITER_TYPE it;
     (if t = BSON_TYPE_DOUBLE then iter_write it (le64 (unat value)) else Some it) }"

definition bson_iter_overwrite_decimal128 :: "bson_iter \<Rightarrow> u64 \<times> u64 \<Rightarrow> bson_iter option" where
  "bson_iter_overwrite_decimal128 it value = do {
     t \<leftarrow> ITER_TYPE it;
     (if t = BSON_TYPE_DECIMAL128 then iter_write it (le64 (unat (snd value)) @ le64 (unat (fst value))) else Some it) }"

declare find_loop.simps [code]

end

