(* ===== verification/Iter_Next.thy ===== *)
theory Iter_Next
  imports Iter
begin

text \<open>
  One step of the iterator (\<^verbatim>\<open>_bson_iter_next_internal\<close>), branch by branch: the 32-bit sums resolved
  (\<open>next_*_eq\<close>), and what an accepted element guarantees to the accessors (\<open>fields_ok\<close>, \<open>step_result\<close>).
\<close>

subsection \<open>What one step accepts\<close>

text \<open>The cursor \<open>p\<close> behind the key, in a document of \<open>len\<close> bytes in the memory \<open>raw\<close>.\<close>

definition cursor :: "bytes \<Rightarrow> nat \<Rightarrow> nat \<Rightarrow> bson_iter \<Rightarrow> bool" where
  "cursor raw len p it \<longleftrightarrow> len \<le> length raw \<and> len \<le> INT_MAX \<and> 6 \<le> p \<and> p \<le> len \<and> i_d1 it = p"

lemma scan_nul_total:
  "len \<le> length raw \<Longrightarrow> scan_nul raw len j = Some None \<or>
     (\<exists>i. scan_nul raw len j = Some (Some i) \<and> j \<le> i \<and> i < len \<and> raw ! i = 0 \<and> (\<forall>m. j \<le> m \<and> m < i \<longrightarrow> raw ! m \<noteq> 0))"
proof (induction raw len j rule: scan_nul.induct)
  case (1 raw len j)
  show ?case
  proof (cases "j < len \<and> raw ! j \<noteq> 0")
    case True
    then have eq: "scan_nul raw len j = scan_nul raw len (j + 1)"
      using 1(2) by (simp add: scan_nul.simps [of raw len j] rd8_eq)
    have "scan_nul raw len (j + 1) = Some None \<or> (\<exists>i. scan_nul raw len (j + 1) = Some (Some i) \<and> j + 1 \<le> i \<and> i < len \<and>
        raw ! i = 0 \<and> (\<forall>m. j + 1 \<le> m \<and> m < i \<longrightarrow> raw ! m \<noteq> 0))"
      using True 1(2) by (intro 1(1) [of "raw ! j"]) (auto simp: rd8_eq)
    then show ?thesis
    proof
      assume "scan_nul raw len (j + 1) = Some None"
      then show ?thesis using eq by simp
    next
      assume "\<exists>i. scan_nul raw len (j + 1) = Some (Some i) \<and> j + 1 \<le> i \<and> i < len \<and>
        raw ! i = 0 \<and> (\<forall>m. j + 1 \<le> m \<and> m < i \<longrightarrow> raw ! m \<noteq> 0)"
      then obtain i where i: "scan_nul raw len (j + 1) = Some (Some i)" "j + 1 \<le> i" "i < len" "raw ! i = 0"
          "\<forall>m. j + 1 \<le> m \<and> m < i \<longrightarrow> raw ! m \<noteq> 0" by blast
      have "\<forall>m. j \<le> m \<and> m < i \<longrightarrow> raw ! m \<noteq> 0"
        using i(5) True by (metis le_neq_implies_less less_eq_Suc_le Suc_eq_plus1)
      then show ?thesis using eq i by (intro disjI2 exI [of _ i]) simp
    qed
  next
    case False
    then show ?thesis using 1(2) by (auto simp: scan_nul.simps [of raw len j] rd8_eq)
  qed
qed

lemma scan_nul_exact:
  assumes "len \<le> length raw" "j \<le> i" "i < len" "raw ! i = 0" "\<forall>m. j \<le> m \<and> m < i \<longrightarrow> raw ! m \<noteq> 0"
  shows "scan_nul raw len j = Some (Some i)"
  using scan_nul_total [OF assms(1), of j]
proof
  assume "scan_nul raw len j = Some None"
  moreover have "scan_nul raw len j \<noteq> Some None"
    using assms
  proof (induction raw len j rule: scan_nul.induct)
    case (1 raw len j)
    show ?case
    proof (cases "j = i")
      case True
      then have "raw ! j = 0" "j < len" using 1(4,5) by auto
      then show ?thesis using 1(2) by (simp add: scan_nul.simps [of raw len j] rd8_eq)
    next
      case False
      then have "raw ! j \<noteq> 0" "j < len" using 1(3,4,6) by auto
      moreover from this have "scan_nul raw len (j + 1) \<noteq> Some None"
        using False 1(2-6) by (intro 1(1) [of "raw ! j"]) (auto simp: rd8_eq)
      ultimately show ?thesis using 1(2) by (simp add: scan_nul.simps [of raw len j] rd8_eq)
    qed
  qed
  ultimately show ?thesis by simp
next
  assume "\<exists>i. scan_nul raw len j = Some (Some i) \<and> j \<le> i \<and> i < len \<and> raw ! i = 0 \<and> (\<forall>m. j \<le> m \<and> m < i \<longrightarrow> raw ! m \<noteq> 0)"
  then obtain i' where i': "scan_nul raw len j = Some (Some i')" "j \<le> i'" "i' < len" "raw ! i' = 0" "\<forall>m. j \<le> m \<and> m < i' \<longrightarrow> raw ! m \<noteq> 0"
    by blast
  then have "i' = i" using assms by (metis linorder_neqE_nat)
  with i' show ?thesis by simp
qed

text \<open>Each branch of the switch, with the 32-bit sums resolved.\<close>

lemma sub32_diff: "b + c \<le> a \<Longrightarrow> a \<le> INT_MAX \<Longrightarrow> sub32 (a - b) c = a - b - c"
  by (rule sub32_eq) auto

lemma le_nat_4: "le_nat (take 4 xs) < 2 ^ 32"
proof -
  have "le_nat (take 4 xs) < 256 ^ length (take 4 xs)" by (rule le_nat_less)
  also have "(256 :: nat) ^ length (take 4 xs) \<le> 256 ^ 4" by (rule power_increasing) simp_all
  finally show ?thesis by simp
qed

lemma add32_cancel: "add32 a n = b \<Longrightarrow> a \<le> b \<Longrightarrow> b < 2 ^ 32 \<Longrightarrow> n < 2 ^ 32 \<Longrightarrow> a + n = b"
proof -
  assume b: "add32 a n = b" "a \<le> b" "b < 2 ^ 32" "n < 2 ^ 32"
  show "a + n = b"
  proof (cases "a + n < 2 ^ 32")
    case False
    then have "add32 a n = (a + n - 2 ^ 32) mod 2 ^ 32" unfolding add32_def by (intro le_mod_geq) simp
    also have "\<dots> = a + n - 2 ^ 32" using b by (intro mod_less) linarith
    finally show ?thesis using b False by linarith
  qed (use b in simp)
qed

lemma next_fixed_eq:
  assumes "cursor raw len p it" "n \<le> 16"
  shows "next_fixed len p it n = (if p + n < len then Some (True, it\<lparr>i_next_off := p + n, i_err_off := 0\<rparr>)
     else invalid (it\<lparr>i_next_off := p + n\<rparr>) p)"
  using assms by (simp add: next_fixed_def finish_def cursor_def)

lemma next_string_eq:
  assumes "cursor raw len p it"
  shows "next_string raw len p it =
    (if len \<le> p + 4 then invalid it p
     else let l = le_nat (take 4 (drop p raw)); it2 = it\<lparr>i_d2 := p + 4\<rparr>; it3 = it2\<lparr>i_next_off := p + 4 + l\<rparr>
       in if len < p + 4 + l then invalid it2 p
          else if l = 0 \<or> p + 4 + l = len then invalid it3 p
          else if raw ! (p + 4 + (l - 1)) \<noteq> 0 then invalid it3 (p + 4 + (l - 1))
          else Some (True, it3\<lparr>i_err_off := 0\<rparr>))"
proof -
  let ?l = "le_nat (take 4 (drop p raw))"
  note c = assms [unfolded cursor_def]
  show ?thesis
  proof (cases "len \<le> p + 4")
    case True
    then show ?thesis using c by (simp add: next_string_def)
  next
    case False
    then have rd: "rd32 raw p = Some ?l" using c by (intro rd32_in) simp
    have a: "add32 p 4 = p + 4" "sub32 len (p + 4) = len - (p + 4)" using c False by simp_all
    show ?thesis
    proof (cases "?l > len - (p + 4)")
      case True
      then show ?thesis using c False rd a by (simp add: next_string_def Let_def) linarith
    next
      case l: False
      then have le: "p + 4 + ?l \<le> len" using False by linarith
      then have b: "add32 (p + 4) ?l = p + 4 + ?l" using c by (intro add32_eq) simp
      show ?thesis
      proof (cases "?l = 0 \<or> p + 4 + ?l = len")
        case True
        then show ?thesis using c False rd a le b by (auto simp: next_string_def Let_def)
      next
        case n: False
        then have "p + 4 + (?l - 1) < length raw" using le c by linarith
        then have r8: "rd8 raw (p + 4 + (?l - 1)) = Some (raw ! (p + 4 + (?l - 1)))" by (rule rd8_eq)
        have s: "sub32 (p + 4 + ?l) 1 = p + 4 + (?l - 1)" using n le c by simp
        show ?thesis using c False rd a le l b n r8 s by (simp add: next_string_def Let_def finish_def del: One_nat_def)
      qed
    qed
  qed
qed


lemma next_document_eq:
  assumes "cursor raw len p it"
  shows "next_document raw len p it =
    (if len \<le> p + 4 then invalid it p
     else let l = le_nat (take 4 (drop p raw)) in
       if len < p + l then invalid it p
       else if len = p + l then invalid (it\<lparr>i_next_off := p + l\<rparr>) p
       else Some (True, it\<lparr>i_next_off := p + l, i_err_off := 0\<rparr>))"
proof -
  let ?l = "le_nat (take 4 (drop p raw))"
  note c = assms [unfolded cursor_def]
  show ?thesis
  proof (cases "len \<le> p + 4")
    case True
    moreover have "len - 4 \<le> p" using True by linarith
    ultimately show ?thesis using c by (simp add: next_document_def)
  next
    case False
    then have rd: "rd32 raw p = Some ?l" using c by (intro rd32_in) simp
    have a: "sub32 len 4 = len - 4" "sub32 len p = len - p" using c by simp_all
    show ?thesis
    proof (cases "len < p + ?l")
      case True
      then show ?thesis using c False rd a by (simp add: next_document_def Let_def) linarith
    next
      case l: False
      then have "add32 p ?l = p + ?l" using c by (intro add32_eq) simp
      moreover have "\<not> len - 4 \<le> p" "\<not> len < ?l" "\<not> len - p < ?l" using False l by linarith+
      ultimately show ?thesis using c False rd a l by (simp add: next_document_def finish_def Let_def)
    qed
  qed
qed

lemma next_bool_eq:
  assumes "cursor raw len p it"
  shows "next_bool raw len p it =
    (if len \<le> p then invalid it p
     else if raw ! p \<noteq> 0 \<and> raw ! p \<noteq> 1 then invalid it p
     else if len = p + 1 then invalid (it\<lparr>i_next_off := p + 1\<rparr>) p
     else Some (True, it\<lparr>i_next_off := p + 1, i_err_off := 0\<rparr>))"
proof -
  note c = assms [unfolded cursor_def]
  show ?thesis
  proof (cases "len \<le> p")
    case True
    then show ?thesis using c by (simp add: next_bool_def)
  next
    case False
    then show ?thesis using c by (simp add: next_bool_def finish_def rd8_eq)
  qed
qed


definition binary_step :: "bytes \<Rightarrow> nat \<Rightarrow> nat \<Rightarrow> nat \<Rightarrow> bson_iter \<Rightarrow> (bool \<times> bson_iter) option" where
  "binary_step raw len p l it =
     (if p + 5 + l < len then Some (True, it\<lparr>i_next_off := p + 5 + l, i_err_off := 0\<rparr>)
      else invalid (it\<lparr>i_next_off := p + 5 + l\<rparr>) p)"

lemma next_binary_eq:
  assumes "cursor raw len p it"
  shows "next_binary raw len p it =
    (if len \<le> p + 4 then invalid it p
     else let l = le_nat (take 4 (drop p raw)); it2 = it\<lparr>i_d2 := p + 4, i_d3 := p + 5\<rparr> in
       if len \<le> p + l then invalid it2 p
       else if raw ! (p + 4) = BSON_SUBTYPE_BINARY_DEPRECATED then
         if l < 4 then invalid it2 p
         else (case rd32 raw (p + 5) of
                 None \<Rightarrow> None
               | Some n \<Rightarrow> if add32 n 4 \<noteq> l then invalid it2 (p + 5) else binary_step raw len p l it2)
       else binary_step raw len p l it2)"
proof -
  let ?l = "le_nat (take 4 (drop p raw))"
  note c = assms [unfolded cursor_def]
  have a: "sub32 len 4 = len - 4" "sub32 len p = len - p" using c by simp_all
  show ?thesis
  proof (cases "len \<le> p + 4")
    case True
    moreover have "len - 4 \<le> p" using True by linarith
    ultimately show ?thesis using c by (simp add: next_binary_def)
  next
    case False
    then have rd: "rd32 raw p = Some ?l" "rd8 raw (p + 4) = Some (raw ! (p + 4))"
      using c by (auto intro: rd32_in rd8_eq)
    have b: "add32 p 4 = p + 4" "add32 p 5 = p + 5" "\<not> len - 4 \<le> p" using c False by simp_all
    show ?thesis
    proof (cases "len \<le> p + ?l")
      case True
      then have "len - p \<le> ?l" by linarith
      then show ?thesis using c False True rd a b by (simp add: next_binary_def Let_def)
    next
      case l: False
      then have "add32 (p + 5) ?l = p + 5 + ?l" using c by (intro add32_eq) simp
      moreover have "\<not> len - p \<le> ?l" using l by linarith
      ultimately show ?thesis using c False rd a b l
        by (simp add: next_binary_def finish_def binary_step_def Let_def split: option.split)
    qed
  qed
qed

lemma next_dbpointer_eq:
  assumes "cursor raw len p it"
  shows "next_dbpointer raw len p it =
    (if len \<le> p + 4 then invalid it p
     else let l = le_nat (take 4 (drop p raw)); it2 = it\<lparr>i_d2 := p + 4\<rparr> in
       if l = 0 \<or> len < p + 4 + l then invalid it2 p
       else if raw ! (p + l + 3) \<noteq> 0 then invalid it2 (p + l + 3)
       else let it3 = it2\<lparr>i_d3 := p + 4 + l, i_next_off := p + 4 + l + 12\<rparr> in
         if p + 4 + l + 12 < len then Some (True, it3\<lparr>i_err_off := 0\<rparr>) else invalid it3 p)"
proof -
  let ?l = "le_nat (take 4 (drop p raw))"
  note c = assms [unfolded cursor_def]
  have a: "sub32 len 4 = len - 4" "sub32 len p = len - p" using c by simp_all
  show ?thesis
  proof (cases "len \<le> p + 4")
    case True
    moreover have "len - 4 \<le> p" using True by linarith
    ultimately show ?thesis using c by (simp add: next_dbpointer_def)
  next
    case False
    then have rd: "rd32 raw p = Some ?l" using c by (intro rd32_in) simp
    have b: "add32 p 4 = p + 4" "\<not> len - 4 \<le> p" using c False by simp_all
    have b4: "sub32 (len - p) 4 = len - p - 4" by (rule sub32_diff) (use c False in linarith)+
    show ?thesis
    proof (cases "?l = 0 \<or> len < p + 4 + ?l")
      case True
      then have "?l = 0 \<or> len - p - 4 < ?l" using False by linarith
      then show ?thesis using c False True rd a b b4 by (simp add: next_dbpointer_def Let_def)
    next
      case l: False
      then have "rd8 raw (p + ?l + 3) = Some (raw ! (p + ?l + 3))" using c by (intro rd8_eq) simp
      moreover have "add32 p ?l = p + ?l" "add32 (p + ?l) 3 = p + ?l + 3" "add32 (p + 4) ?l = p + 4 + ?l"
          "add32 (p + 4 + ?l) 12 = p + 4 + ?l + 12"
        by (intro add32_eq, use c l in simp)+
      moreover have "\<not> (?l = 0 \<or> len - p - 4 < ?l)" using l False by linarith
      ultimately show ?thesis using c False rd a b b4 l
        by (simp add: next_dbpointer_def finish_def Let_def)
    qed
  qed
qed


lemma next_codewscope_eq:
  assumes "cursor raw len p it"
  shows "next_codewscope raw len p it =
    (if len < 19 \<or> len \<le> p + 14 then invalid it p
     else let n = le_nat (take 4 (drop p raw)); l = le_nat (take 4 (drop (p + 4) raw));
            it2 = it\<lparr>i_d2 := p + 4, i_d3 := p + 8\<rparr>; it3 = it2\<lparr>i_next_off := p + n\<rparr>;
            it4 = it3\<lparr>i_d4 := p + 8 + l\<rparr> in
       if n < 14 \<or> len \<le> p + n then invalid it2 p
       else if l = 0 \<or> len \<le> p + 8 + l then invalid it3 p
       else if n \<le> l + 12 then invalid it3 (p + 4)
       else if add32 (p + 8 + l) (le_nat (take 4 (drop (p + 8 + l) raw))) \<noteq> p + n then invalid it4 (p + 8 + l)
       else Some (True, it4\<lparr>i_err_off := 0\<rparr>))"
proof -
  let ?n = "le_nat (take 4 (drop p raw))"
  let ?l = "le_nat (take 4 (drop (p + 4) raw))"
  note c = assms [unfolded cursor_def]
  then have d1: "i_d1 it = p" by simp
  show ?thesis
  proof (cases "len < 19 \<or> len \<le> p + 14")
    case True
    moreover have "19 \<le> len \<Longrightarrow> sub32 len 14 = len - 14" using c by simp
    then have "len < 19 \<or> sub32 len 14 \<le> p" using True by linarith
    ultimately show ?thesis by (simp add: next_codewscope_def)
  next
    case F1: False
    have rd: "rd32 raw p = Some ?n" "rd32 raw (p + 4) = Some ?l" by (intro rd32_in, use c F1 in simp)+
    have a: "sub32 len 14 = len - 14" "sub32 len p = len - p" "add32 p 4 = p + 4" "add32 p 8 = p + 8"
      using c F1 by simp_all
    have a2: "sub32 (len - p) 4 = len - p - 4" by (rule sub32_diff) (use c F1 in linarith)+
    have a3: "sub32 (len - p - 4) 4 = len - p - 4 - 4"
      using sub32_diff [of "p + 4" 4 len] c F1 by simp
    have F1': "\<not> (len < 19 \<or> len - 14 \<le> p)" using F1 by linarith
    show ?thesis
    proof (cases "?n < 14 \<or> len \<le> p + ?n")
      case True
      then have "?n < 14 \<or> len - p \<le> ?n" by linarith
      then show ?thesis unfolding next_codewscope_def Let_def a if_not_P [OF F1] if_not_P [OF F1'] if_P [OF True]
        by (simp add: d1 rd)
    next
      case F2: False
      then have "add32 p ?n = p + ?n" by (intro add32_eq) (use c in simp)
      note a = a a2 a3 this
      have F2': "\<not> (?n < 14 \<or> len - p \<le> ?n)" "\<not> len \<le> p + ?n" using F2 by linarith+
      show ?thesis
      proof (cases "?l = 0 \<or> len \<le> p + 8 + ?l")
        case True
        then have "?l = 0 \<or> len - p - 4 - 4 \<le> ?l" by linarith
        then show ?thesis unfolding next_codewscope_def Let_def a if_not_P [OF F1] if_not_P [OF F1'] if_not_P [OF F2] if_P [OF True]
          by (simp add: d1 rd a F2')
      next
        case F3: False
        have "add32 (p + 8) ?l = p + 8 + ?l" "add32 (p + 8 + ?l) 4 = p + 8 + ?l + 4"
          by (intro add32_eq, use c F3 in simp)+
        note a = a this
        have F3': "?l \<noteq> 0" "\<not> len - (8 + p) \<le> ?l" using F3 F1 by linarith+
        show ?thesis
        proof (cases "?n \<le> ?l + 12")
          case True
          then have "p + ?n \<le> p + 8 + ?l + 4" by linarith
          then show ?thesis
            unfolding next_codewscope_def Let_def a if_not_P [OF F1] if_not_P [OF F1'] if_not_P [OF F2] if_not_P [OF F3] if_P [OF True]
            by (simp add: d1 rd a F2' F3')
        next
          case F4: False
          then have "\<not> p + ?n \<le> p + 8 + ?l + 4" by linarith
          moreover have "rd32 raw (p + 8 + ?l) = Some (le_nat (take 4 (drop (p + 8 + ?l) raw)))"
            by (intro rd32_in) (use c F2 F4 in linarith)
          ultimately show ?thesis
            unfolding next_codewscope_def Let_def a if_not_P [OF F1] if_not_P [OF F1'] if_not_P [OF F2] if_not_P [OF F3] if_not_P [OF F4]
            by (simp add: d1 rd a F2' F3' finish_def)
        qed
      qed
    qed
  qed
qed

lemma next_regex_eq:
  assumes "cursor raw len p it"
  shows "next_regex raw len p it =
    (case scan_nul raw len p of
       None \<Rightarrow> None
     | Some None \<Rightarrow> invalid it (i_next_off it)
     | Some (Some j) \<Rightarrow> (case scan_nul raw len (j + 1) of
         None \<Rightarrow> None
       | Some None \<Rightarrow> invalid (it\<lparr>i_d2 := j + 1\<rparr>) (i_next_off it)
       | Some (Some j2) \<Rightarrow> let it3 = it\<lparr>i_d2 := j + 1, i_next_off := j2 + 1\<rparr> in
           if j2 + 1 < len then Some (True, it3\<lparr>i_err_off := 0\<rparr>) else invalid it3 j2))"
proof -
  note c = assms [unfolded cursor_def]
  have "add32 j 1 = j + 1" if "j < len" for j by (rule add32_eq) (use c that in simp)
  moreover have "j < len" if "scan_nul raw len i = Some (Some j)" for i j
    using scan_nul_total [of len raw i] c that by auto
  ultimately show ?thesis
    by (auto simp: next_regex_def finish_def Let_def bind_eq_None_conv split: option.split)
qed


subsection \<open>What a step guarantees\<close>

text \<open>The fields of an accepted element, by its type: the places the accessors read are inside the document.\<close>

definition str_at :: "bytes \<Rightarrow> nat \<Rightarrow> nat \<Rightarrow> bson_iter \<Rightarrow> bool" where
  "str_at raw len p it \<longleftrightarrow> (let l = le_nat (take 4 (drop p raw)) in
     i_d2 it = p + 4 \<and> 0 < l \<and> p + 4 + l < len \<and> raw ! (p + 4 + (l - 1)) = 0)"

definition fields_ok :: "bytes \<Rightarrow> nat \<Rightarrow> u8 \<Rightarrow> bson_iter \<Rightarrow> bool" where
  "fields_ok raw len t it \<longleftrightarrow>
     (t = BSON_TYPE_DATE_TIME \<or> t = BSON_TYPE_DOUBLE \<or> t = BSON_TYPE_INT64 \<or> t = BSON_TYPE_TIMESTAMP \<longrightarrow> i_d1 it + 8 < len) \<and>
     (t = BSON_TYPE_CODE \<or> t = BSON_TYPE_SYMBOL \<or> t = BSON_TYPE_UTF8 \<longrightarrow> str_at raw len (i_d1 it) it) \<and>
     (t = BSON_TYPE_BINARY \<longrightarrow> i_d2 it = i_d1 it + 4 \<and> i_d3 it = i_d1 it + 5 \<and>
        i_d1 it + 5 + le_nat (take 4 (drop (i_d1 it) raw)) < len \<and>
        (raw ! i_d2 it = BSON_SUBTYPE_BINARY_DEPRECATED \<longrightarrow> 4 \<le> le_nat (take 4 (drop (i_d1 it) raw)))) \<and>
     (t = BSON_TYPE_ARRAY \<or> t = BSON_TYPE_DOCUMENT \<longrightarrow>
        i_d1 it + 4 < len \<and> i_d1 it + le_nat (take 4 (drop (i_d1 it) raw)) < len) \<and>
     (t = BSON_TYPE_OID \<longrightarrow> i_d1 it + 12 < len) \<and>
     (t = BSON_TYPE_BOOL \<longrightarrow> i_d1 it < len \<and> raw ! i_d1 it \<in> {0, 1}) \<and>
     (t = BSON_TYPE_REGEX \<longrightarrow> i_d1 it < i_d2 it \<and> raw ! (i_d2 it - 1) = 0 \<and>
        (\<forall>m. i_d1 it \<le> m \<and> m < i_d2 it - 1 \<longrightarrow> raw ! m \<noteq> 0) \<and>
        (\<exists>e. i_d2 it \<le> e \<and> e < len \<and> raw ! e = 0)) \<and>
     (t = BSON_TYPE_DBPOINTER \<longrightarrow> str_at raw len (i_d1 it) it \<and>
        i_d3 it = i_d1 it + 4 + le_nat (take 4 (drop (i_d1 it) raw)) \<and> i_d3 it + 12 < len) \<and>
     (t = BSON_TYPE_CODEWSCOPE \<longrightarrow> i_d2 it = i_d1 it + 4 \<and> i_d3 it = i_d1 it + 8 \<and>
        i_d4 it = i_d3 it + le_nat (take 4 (drop (i_d2 it) raw)) \<and> i_d3 it < i_d4 it \<and> i_d4 it + 4 < len \<and>
        i_d4 it + le_nat (take 4 (drop (i_d4 it) raw)) < len) \<and>
     (t = BSON_TYPE_INT32 \<longrightarrow> i_d1 it + 4 < len) \<and>
     (t = BSON_TYPE_DECIMAL128 \<longrightarrow> i_d1 it + 16 < len)"

lemma fields_okD:
  assumes "fields_ok raw len t it"
  shows "t = BSON_TYPE_DATE_TIME \<or> t = BSON_TYPE_DOUBLE \<or> t = BSON_TYPE_INT64 \<or> t = BSON_TYPE_TIMESTAMP \<Longrightarrow> i_d1 it + 8 < len"
    "t = BSON_TYPE_CODE \<or> t = BSON_TYPE_SYMBOL \<or> t = BSON_TYPE_UTF8 \<Longrightarrow> str_at raw len (i_d1 it) it"
    "t = BSON_TYPE_BINARY \<Longrightarrow> i_d2 it = i_d1 it + 4 \<and> i_d3 it = i_d1 it + 5 \<and>
        i_d1 it + 5 + le_nat (take 4 (drop (i_d1 it) raw)) < len \<and>
        (raw ! i_d2 it = BSON_SUBTYPE_BINARY_DEPRECATED \<longrightarrow> 4 \<le> le_nat (take 4 (drop (i_d1 it) raw)))"
    "t = BSON_TYPE_DOCUMENT \<or> t = BSON_TYPE_ARRAY \<Longrightarrow>
        i_d1 it + 4 < len \<and> i_d1 it + le_nat (take 4 (drop (i_d1 it) raw)) < len"
    "t = BSON_TYPE_OID \<Longrightarrow> i_d1 it + 12 < len"
    "t = BSON_TYPE_BOOL \<Longrightarrow> i_d1 it < len \<and> raw ! i_d1 it \<in> {0, 1}"
    "t = BSON_TYPE_REGEX \<Longrightarrow> i_d1 it < i_d2 it \<and> raw ! (i_d2 it - 1) = 0 \<and>
        (\<forall>m. i_d1 it \<le> m \<and> m < i_d2 it - 1 \<longrightarrow> raw ! m \<noteq> 0) \<and> (\<exists>e. i_d2 it \<le> e \<and> e < len \<and> raw ! e = 0)"
    "t = BSON_TYPE_DBPOINTER \<Longrightarrow> str_at raw len (i_d1 it) it \<and>
        i_d3 it = i_d1 it + 4 + le_nat (take 4 (drop (i_d1 it) raw)) \<and> i_d3 it + 12 < len"
    "t = BSON_TYPE_CODEWSCOPE \<Longrightarrow> i_d2 it = i_d1 it + 4 \<and> i_d3 it = i_d1 it + 8 \<and>
        i_d4 it = i_d3 it + le_nat (take 4 (drop (i_d2 it) raw)) \<and> i_d3 it < i_d4 it \<and> i_d4 it + 4 < len \<and>
        i_d4 it + le_nat (take 4 (drop (i_d4 it) raw)) < len"
    "t = BSON_TYPE_INT32 \<Longrightarrow> i_d1 it + 4 < len"
    "t = BSON_TYPE_DECIMAL128 \<Longrightarrow> i_d1 it + 16 < len"
  using assms unfolding fields_ok_def by blast+

text \<open>The answer of a branch: an accepted element or an iterator that is finished.\<close>

definition no_data :: "u8 \<Rightarrow> bool" where
  "no_data t \<longleftrightarrow> t = BSON_TYPE_MAXKEY \<or> t = BSON_TYPE_MINKEY \<or> t = BSON_TYPE_NULL \<or> t = BSON_TYPE_UNDEFINED"

definition step_result :: "bytes \<Rightarrow> nat \<Rightarrow> nat \<Rightarrow> u8 \<Rightarrow> bson_iter \<Rightarrow> bool \<Rightarrow> bson_iter \<Rightarrow> bool" where
  "step_result raw len p t it ok it' \<longleftrightarrow>
     (if ok then i_raw it' = i_raw it \<and> i_len it' = i_len it \<and> i_type it' = i_type it \<and> i_key it' = i_key it \<and>
        i_off it' = i_off it \<and> i_err_off it' = 0 \<and> p \<le> i_next_off it' \<and> i_next_off it' < len \<and> fields_ok raw len t it' \<and>
        (\<not> no_data t \<longrightarrow> i_d1 it' = p)
      else i_raw it' = None \<and> i_len it' = 0 \<and> i_next_off it' = 0)"

lemma invalid_result: "invalid it e = Some (ok, it') \<Longrightarrow> step_result raw len p t it0 ok it'"
  by (auto simp: invalid_def mark_invalid_def step_result_def)

text \<open>The one read that is not checked: the inner length of a binary of the old subtype.\<close>

definition binary_overread :: "bytes \<Rightarrow> nat \<Rightarrow> nat \<Rightarrow> bool" where
  "binary_overread raw len p \<longleftrightarrow> p + 4 < len \<and> p + le_nat (take 4 (drop p raw)) < len \<and>
     raw ! (p + 4) = BSON_SUBTYPE_BINARY_DEPRECATED \<and> 4 \<le> le_nat (take 4 (drop p raw)) \<and> length raw < p + 9"

definition stepped :: "bytes \<Rightarrow> nat \<Rightarrow> nat \<Rightarrow> u8 \<Rightarrow> bson_iter \<Rightarrow> (bool \<times> bson_iter) option \<Rightarrow> bool" where
  "stepped raw len p t it r \<longleftrightarrow> (\<exists>ok it'. r = Some (ok, it') \<and> step_result raw len p t it ok it')"

lemma stepped_invalid: "stepped raw len p t it0 (invalid it e)"
  by (simp add: stepped_def invalid_def mark_invalid_def step_result_def exI [of _ False])

lemma stepped_ok:
  "i_raw it' = i_raw it \<Longrightarrow> i_len it' = i_len it \<Longrightarrow> i_type it' = i_type it \<Longrightarrow> i_key it' = i_key it \<Longrightarrow>
   i_off it' = i_off it \<Longrightarrow> i_err_off it' = 0 \<Longrightarrow> p \<le> i_next_off it' \<Longrightarrow> i_next_off it' < len \<Longrightarrow> fields_ok raw len t it' \<Longrightarrow>
   no_data t \<or> i_d1 it' = p \<Longrightarrow>
   stepped raw len p t it (Some (True, it'))"
  by (auto simp: stepped_def step_result_def intro!: exI [of _ True])

lemma next_fixed_stepped:
  assumes c: "cursor raw len p it" and n: "n \<le> 16"
    and f: "p + n < len \<Longrightarrow> fields_ok raw len t (it\<lparr>i_next_off := p + n, i_err_off := 0\<rparr>)"
  shows "stepped raw len p t it (next_fixed len p it n)"
  unfolding next_fixed_eq [OF c n] using f c unfolding cursor_def by (auto intro!: stepped_invalid stepped_ok)

lemma next_string_stepped:
  assumes c: "cursor raw len p it" and t: "t = BSON_TYPE_CODE \<or> t = BSON_TYPE_SYMBOL \<or> t = BSON_TYPE_UTF8"
  shows "stepped raw len p t it (next_string raw len p it)"
  using t c unfolding next_string_eq [OF c] cursor_def Let_def
  by (auto intro!: stepped_invalid stepped_ok simp: fields_ok_def str_at_def)

lemma next_document_stepped:
  assumes c: "cursor raw len p it" and t: "t = BSON_TYPE_ARRAY \<or> t = BSON_TYPE_DOCUMENT"
  shows "stepped raw len p t it (next_document raw len p it)"
  using t c unfolding next_document_eq [OF c] cursor_def Let_def
  by (auto intro!: stepped_invalid stepped_ok simp: fields_ok_def)

lemma next_bool_stepped:
  assumes c: "cursor raw len p it" and t: "t = BSON_TYPE_BOOL"
  shows "stepped raw len p t it (next_bool raw len p it)"
  using t c unfolding next_bool_eq [OF c] cursor_def
  by (auto intro!: stepped_invalid stepped_ok simp: fields_ok_def)

lemma next_dbpointer_stepped:
  assumes c: "cursor raw len p it" and t: "t = BSON_TYPE_DBPOINTER"
  shows "stepped raw len p t it (next_dbpointer raw len p it)"
  using t c unfolding next_dbpointer_eq [OF c] cursor_def Let_def
  by (auto intro!: stepped_invalid stepped_ok simp: fields_ok_def str_at_def add.assoc add.commute [of _ "3 :: nat"] add.left_commute [of _ "3 :: nat"])

lemma codewscope_fields:
  assumes "i_d1 it' = p" "i_d2 it' = p + 4" "i_d3 it' = p + 8" "i_d4 it' = q" "q = p + 8 + le_nat (take 4 (drop (p + 4) raw))"
    "p + 8 < q" "q + 4 < len" "q + le_nat (take 4 (drop q raw)) < len"
  shows "fields_ok raw len BSON_TYPE_CODEWSCOPE it'"
  using assms by (simp add: fields_ok_def)

lemma next_codewscope_stepped:
  assumes c: "cursor raw len p it" and t: "t = BSON_TYPE_CODEWSCOPE"
  shows "stepped raw len p t it (next_codewscope raw len p it)"
proof -
  define n where "n = le_nat (take 4 (drop p raw))"
  define q where "q = p + 8 + le_nat (take 4 (drop (p + 4) raw))"
  define m where "m = le_nat (take 4 (drop q raw))"
  have d: "i_d1 it = p" "len \<le> INT_MAX" using c by (simp_all add: cursor_def)
  have "stepped raw len p t it (Some (True, it\<lparr>i_d2 := p + 4, i_d3 := p + 8, i_next_off := p + n, i_d4 := q, i_err_off := 0\<rparr>))"
    if "add32 q m = p + n" "q + 4 < p + n" "p + n < len" "p + 8 < q"
  proof -
    have "p + n < 2 ^ 32" using that(3) d(2) by simp
    moreover have "q \<le> p + n" using that(2) by (rule order_trans [OF le_add1 less_imp_le])
    ultimately have "q + m = p + n" using add32_cancel [OF that(1)] le_nat_4 unfolding m_def by blast
    then have e: "q + m < len" "q + 4 < len" using that(2,3) by simp_all
    have "fields_ok raw len t (it\<lparr>i_d2 := p + 4, i_d3 := p + 8, i_next_off := p + n, i_d4 := q, i_err_off := 0\<rparr>)"
      unfolding t by (rule codewscope_fields [OF _ _ _ _ q_def that(4) e(2) e(1) [unfolded m_def]]) (simp_all add: d(1))
    then show ?thesis by (intro stepped_ok) (simp_all add: that(3) d(1))
  qed
  then show ?thesis
    unfolding next_codewscope_eq [OF c] Let_def n_def [symmetric] q_def [symmetric] m_def [symmetric]
    by (simp add: stepped_invalid q_def)
qed

lemma next_regex_stepped:
  assumes c: "cursor raw len p it" and t: "t = BSON_TYPE_REGEX"
  shows "stepped raw len p t it (next_regex raw len p it)"
proof -
  have len: "len \<le> length raw" using c by (simp add: cursor_def)
  consider "scan_nul raw len p = Some None"
    | j where "scan_nul raw len p = Some (Some j)" "scan_nul raw len (j + 1) = Some None"
    | j e where "scan_nul raw len p = Some (Some j)" "p \<le> j" "j < len" "raw ! j = 0" "\<forall>m. p \<le> m \<and> m < j \<longrightarrow> raw ! m \<noteq> 0"
        "scan_nul raw len (j + 1) = Some (Some e)" "j + 1 \<le> e" "e < len" "raw ! e = 0"
    using scan_nul_total [OF len] by metis
  then show ?thesis
  proof cases
    case 3
    have "fields_ok raw len t (it\<lparr>i_d2 := j + 1, i_next_off := e + 1, i_err_off := 0\<rparr>)"
      using 3 t c by (auto simp: fields_ok_def cursor_def)
    with 3 c [unfolded cursor_def] show ?thesis unfolding next_regex_eq [OF c] Let_def
      by (auto intro!: stepped_invalid stepped_ok)
  qed (simp_all add: next_regex_eq [OF c] stepped_invalid)
qed

lemma next_binary_stepped:
  assumes c: "cursor raw len p it" and t: "t = BSON_TYPE_BINARY"
  shows "if binary_overread raw len p then next_binary raw len p it = None
     else stepped raw len p t it (next_binary raw len p it)"
proof -
  define l where "l = le_nat (take 4 (drop p raw))"
  have d: "i_d1 it = p" using c by (simp add: cursor_def)
  let ?it = "it\<lparr>i_d2 := p + 4, i_d3 := p + 5\<rparr>"
  have s0: "stepped raw len p t it (binary_step raw len p l ?it)" if "raw ! (p + 4) = BSON_SUBTYPE_BINARY_DEPRECATED \<longrightarrow> 4 \<le> l"
  proof (cases "p + 5 + l < len")
    case True
    have "fields_ok raw len t (?it\<lparr>i_next_off := p + 5 + l, i_err_off := 0\<rparr>)"
      using that True d by (simp add: fields_ok_def l_def t)
    then show ?thesis using True d by (simp add: binary_step_def stepped_ok)
  qed (simp add: binary_step_def stepped_invalid)
  have r: "rd32 raw (p + 5) = None \<longleftrightarrow> length raw < p + 9" by (auto simp: rd32_def mem_read_def)
  show ?thesis
  proof (cases "len \<le> p + 4 \<or> len \<le> p + l \<or> (raw ! (p + 4) = BSON_SUBTYPE_BINARY_DEPRECATED \<and> l < 4)")
    case True
    then show ?thesis unfolding next_binary_eq [OF c] binary_overread_def l_def [symmetric] Let_def by (auto simp: stepped_invalid)
  next
    case False
    then have s: "stepped raw len p t it (binary_step raw len p l ?it)" by (intro s0) auto
    show ?thesis
    proof (cases "raw ! (p + 4) = BSON_SUBTYPE_BINARY_DEPRECATED")
      case old: True
      then show ?thesis using False s r unfolding next_binary_eq [OF c] binary_overread_def l_def [symmetric] Let_def
        by (cases "rd32 raw (p + 5)") (simp_all add: stepped_invalid)
    next
      case new: False
      then show ?thesis using False s unfolding next_binary_eq [OF c] binary_overread_def l_def [symmetric] Let_def by simp
    qed
  qed
qed

lemma next_switch_cases:
  assumes c: "cursor raw len p it"
  shows "if t = BSON_TYPE_BINARY \<and> binary_overread raw len p then fst (next_switch raw len p it t) = None
     else stepped raw len p t it (fst (next_switch raw len p it t))"
proof -
  have d1: "i_d1 it = p" using c by (simp add: cursor_def)
  have empty: "stepped raw len p t it (next_fixed len p (it\<lparr>i_d1 := 2 ^ 32 - 1\<rparr>) 0)"
    if "t = BSON_TYPE_MAXKEY \<or> t = BSON_TYPE_MINKEY \<or> t = BSON_TYPE_NULL \<or> t = BSON_TYPE_UNDEFINED"
    using that c by (auto simp: next_fixed_def finish_def cursor_def fields_ok_def no_data_def intro!: stepped_invalid stepped_ok)
  show ?thesis
    using next_binary_stepped [OF c] empty
    by (auto simp: next_switch_def fields_ok_def d1
        intro!: stepped_invalid next_fixed_stepped [OF c] next_string_stepped [OF c] next_document_stepped [OF c]
          next_bool_stepped [OF c] next_dbpointer_stepped [OF c] next_codewscope_stepped [OF c] next_regex_stepped [OF c])
qed

end
