(* ===== verification/Iter_Safe.thy ===== *)
theory Iter_Safe
  imports Iter_Next
begin

text \<open>
  Memory safety of the iterator: an iterator over memory of at least \<open>i_len\<close> bytes moves strictly forward
  and what its accessors read is inside the memory, for every content of the memory. There is one
  exception (\<open>element_overread\<close>), which four more bytes of memory cover.
\<close>

definition iter_in :: "bson_iter \<Rightarrow> bool" where
  "iter_in it \<longleftrightarrow> (\<forall>raw. i_raw it = Some raw \<longrightarrow>
     i_len it \<le> length raw \<and> i_len it \<le> INT_MAX \<and> 4 \<le> i_next_off it \<and> i_next_off it \<le> INT_MAX)"

definition element_overread :: "bson_iter \<Rightarrow> bool" where
  "element_overread it \<longleftrightarrow> (\<exists>raw j. i_raw it = Some raw \<and> scan_nul raw (i_len it) (i_next_off it + 1) = Some (Some j) \<and>
     raw ! i_next_off it = BSON_TYPE_BINARY \<and> binary_overread raw (i_len it) (j + 1))"

text \<open>The values an accessor may hand out: every length is covered by the memory behind the pointer.\<close>

fun value_in :: "bson_value \<Rightarrow> bool" where
  "value_in (BV_Utf8 x n) \<longleftrightarrow> n < length x \<and> x ! n = 0"
| "value_in (BV_Symbol x n) \<longleftrightarrow> n < length x \<and> x ! n = 0"
| "value_in (BV_Code x n) \<longleftrightarrow> n < length x \<and> x ! n = 0"
| "value_in (BV_Document x n) \<longleftrightarrow> n \<le> length x"
| "value_in (BV_Array x n) \<longleftrightarrow> n \<le> length x"
| "value_in (BV_Binary st x n) \<longleftrightarrow> n \<le> length x"
| "value_in (BV_Oid i) \<longleftrightarrow> length i = 12"
| "value_in (BV_Regex r opt) \<longleftrightarrow> c_string r 0 \<noteq> None \<and> c_string opt 0 \<noteq> None"
| "value_in (BV_DBPointer c n i) \<longleftrightarrow> n < length c \<and> c ! n = 0 \<and> length i = 12"
| "value_in (BV_CodeWScope c m x n) \<longleftrightarrow> m < length c \<and> n \<le> length x"
| "value_in _ \<longleftrightarrow> True"

definition known_type :: "u8 \<Rightarrow> bool" where
  "known_type t \<longleftrightarrow> t \<in> {BSON_TYPE_DOUBLE, BSON_TYPE_UTF8, BSON_TYPE_DOCUMENT, BSON_TYPE_ARRAY, BSON_TYPE_BINARY,
     BSON_TYPE_UNDEFINED, BSON_TYPE_OID, BSON_TYPE_BOOL, BSON_TYPE_DATE_TIME, BSON_TYPE_NULL, BSON_TYPE_REGEX,
     BSON_TYPE_DBPOINTER, BSON_TYPE_CODE, BSON_TYPE_SYMBOL, BSON_TYPE_CODEWSCOPE, BSON_TYPE_INT32, BSON_TYPE_TIMESTAMP,
     BSON_TYPE_INT64, BSON_TYPE_DECIMAL128, BSON_TYPE_MAXKEY, BSON_TYPE_MINKEY}"

lemma next_switch_known: "fst (next_switch raw len p it t) = Some (True, it') \<Longrightarrow> known_type t"
  by (auto simp: next_switch_def known_type_def invalid_def split: if_splits)

lemma c_string_nul: "j < length x \<Longrightarrow> i \<le> j \<Longrightarrow> x ! j = 0 \<Longrightarrow> c_string x i \<noteq> None"
proof -
  assume j: "j < length x" "i \<le> j" "x ! j = 0"
  have "drop i x ! (j - i) = 0" using j by simp
  moreover have "j - i < length (drop i x)" using j by simp
  ultimately have "0 \<in> set (drop i x)" by (metis nth_mem)
  then have "length (takeWhile (\<lambda>b. b \<noteq> 0) (drop i x)) < length (drop i x)"
    by (metis (mono_tags, lifting) length_takeWhile_le order_le_imp_less_or_eq set_takeWhileD take_all_iff takeWhile_eq_take order_refl)
  then show ?thesis using j by (simp add: c_string_def Let_def)
qed

text \<open>An element under the iterator.\<close>

definition on_element :: "bytes \<Rightarrow> nat \<Rightarrow> u8 \<Rightarrow> bson_iter \<Rightarrow> bool" where
  "on_element raw len t it \<longleftrightarrow> i_raw it = Some raw \<and> i_len it = len \<and> len \<le> length raw \<and> len \<le> INT_MAX \<and>
     i_type it < length raw \<and> raw ! i_type it = t \<and> known_type t \<and> fields_ok raw len t it"

lemma on_element_type: "on_element raw len t it \<Longrightarrow> ITER_TYPE it = Some t"
  by (simp add: on_element_def ITER_TYPE_def iter_rd8_def rd8_eq)

lemma iter_reads:
  assumes "i_raw it = Some raw"
  shows "i + 4 \<le> length raw \<Longrightarrow> iter_rd32 it i = Some (le_nat (take 4 (drop i raw)))"
    "i + 8 \<le> length raw \<Longrightarrow> iter_rd64 it i = Some (le_nat (take 8 (drop i raw)))"
    "i < length raw \<Longrightarrow> iter_rd8 it i = Some (raw ! i)"
    "i \<le> length raw \<Longrightarrow> iter_ptr it i = Some (drop i raw)"
  using assms by (simp_all add: iter_rd32_def iter_rd64_def iter_rd8_def iter_ptr_def rd32_in rd64_def mem_read_eq rd8_eq)

lemma string_in:
  assumes "on_element raw len t it" "str_at raw len (i_d1 it) it"
  obtains n where "iter_rd32 it (i_d1 it) = Some n" "0 < n" "n \<le> INT_MAX" "iter_ptr it (i_d2 it) = Some (drop (i_d2 it) raw)"
    "n - 1 < length (drop (i_d2 it) raw)" "drop (i_d2 it) raw ! (n - 1) = 0"
    "bson_iter_utf8_len_unsafe it = Some (n - 1)" "i_d2 it + n < len"
proof -
  let ?n = "le_nat (take 4 (drop (i_d1 it) raw))"
  have f: "i_raw it = Some raw" "len \<le> length raw" "len \<le> INT_MAX" "i_d2 it = i_d1 it + 4" "0 < ?n" "i_d1 it + 4 + ?n < len"
      "raw ! (i_d1 it + 4 + (?n - 1)) = 0"
    using assms unfolding on_element_def str_at_def Let_def by blast+
  have rd: "iter_rd32 it (i_d1 it) = Some ?n" using f by (intro iter_reads) linarith+
  show ?thesis
  proof (rule that)
    show "bson_iter_utf8_len_unsafe it = Some (?n - 1)"
      using rd f by (simp add: bson_iter_utf8_len_unsafe_def)
    show "drop (i_d2 it) raw ! (?n - 1) = 0" using f by (subst nth_drop) simp_all
    show "?n - 1 < length (drop (i_d2 it) raw)" using f by simp
    show "iter_ptr it (i_d2 it) = Some (drop (i_d2 it) raw)" using f by (intro iter_reads) linarith+
  qed (use rd f in linarith)+
qed

lemma string_values:
  assumes el: "on_element raw len t it" and t: "t = BSON_TYPE_UTF8 \<or> t = BSON_TYPE_CODE \<or> t = BSON_TYPE_SYMBOL"
  shows "\<exists>bv. bson_iter_value it = Some (Some bv) \<and> value_in bv"
proof -
  have "str_at raw len (i_d1 it) it" using el t fields_okD(2) by (metis on_element_def)
  from string_in [OF el this] obtain n where n: "iter_ptr it (i_d2 it) = Some (drop (i_d2 it) raw)"
    "n - 1 < length (drop (i_d2 it) raw)" "drop (i_d2 it) raw ! (n - 1) = 0"
    "bson_iter_utf8_len_unsafe it = Some (n - 1)" by metis
  have v: "iter_string t it = Some (Some (drop (i_d2 it) raw, n - 1))"
    using n by (simp add: iter_string_def on_element_type [OF el])
  show ?thesis using t v n(2,3)
    by (auto simp: iter_value_simps on_element_type [OF el] bson_iter_utf8_def bson_iter_code_def bson_iter_symbol_def)
qed


lemma fixed_values:
  assumes el: "on_element raw len t it"
    and t: "t \<in> {BSON_TYPE_DOUBLE, BSON_TYPE_DATE_TIME, BSON_TYPE_INT64, BSON_TYPE_TIMESTAMP, BSON_TYPE_INT32, BSON_TYPE_BOOL,
      BSON_TYPE_DECIMAL128, BSON_TYPE_OID, BSON_TYPE_MAXKEY, BSON_TYPE_MINKEY, BSON_TYPE_NULL, BSON_TYPE_UNDEFINED}"
  shows "\<exists>bv. bson_iter_value it = Some (Some bv) \<and> value_in bv"
proof -
  have raw: "i_raw it = Some raw" and f: "len \<le> length raw" "fields_ok raw len t it" using el by (simp_all add: on_element_def)
  note ty = on_element_type [OF el]
  note rd = iter_reads [OF raw]
  consider (eight) "t = BSON_TYPE_DOUBLE \<or> t = BSON_TYPE_DATE_TIME \<or> t = BSON_TYPE_INT64 \<or> t = BSON_TYPE_TIMESTAMP"
    | (four) "t = BSON_TYPE_INT32" | (one) "t = BSON_TYPE_BOOL" | (dec) "t = BSON_TYPE_DECIMAL128" | (oid) "t = BSON_TYPE_OID"
    | (none) "t \<in> {BSON_TYPE_MAXKEY, BSON_TYPE_MINKEY, BSON_TYPE_NULL, BSON_TYPE_UNDEFINED}"
    using t by blast
  then show ?thesis
  proof cases
    case eight
    then have "i_d1 it + 8 \<le> length raw" using f(1) fields_okD(1) [OF f(2)] by linarith
    then show ?thesis using eight ty rd
      by (auto simp: iter_value_simps bson_iter_double_def bson_iter_date_time_def bson_iter_int64_def bson_iter_timestamp_def)
  next
    case four
    then have "i_d1 it + 4 \<le> length raw" using f(1) fields_okD(10) [OF f(2)] by linarith
    then show ?thesis using four ty rd by (simp add: iter_value_simps bson_iter_int32_def)
  next
    case one
    then have "i_d1 it < length raw" using f(1) fields_okD(6) [OF f(2)] by linarith
    then show ?thesis using one ty rd by (simp add: iter_value_simps bson_iter_bool_def)
  next
    case dec
    then have "i_d1 it + 16 \<le> length raw" using f(1) fields_okD(11) [OF f(2)] by linarith
    then show ?thesis using dec ty rd by (simp add: iter_value_simps bson_iter_decimal128_def)
  next
    case oid
    then have "i_d1 it + 12 \<le> length raw" using f(1) fields_okD(5) [OF f(2)] by linarith
    then show ?thesis using oid ty rd by (simp add: iter_value_simps bson_iter_oid_def mem_read_def)
  next
    case none
    then show ?thesis using ty by (auto simp: iter_value_simps)
  qed
qed

lemma container_values:
  assumes el: "on_element raw len t it" and t: "t \<in> {BSON_TYPE_DOCUMENT, BSON_TYPE_ARRAY, BSON_TYPE_BINARY}"
  shows "\<exists>bv. bson_iter_value it = Some (Some bv) \<and> value_in bv"
proof -
  have raw: "i_raw it = Some raw" and f: "len \<le> length raw" "len \<le> INT_MAX" "fields_ok raw len t it"
    using el by (simp_all add: on_element_def)
  note ty = on_element_type [OF el]
  note rd = iter_reads [OF raw]
  let ?l = "le_nat (take 4 (drop (i_d1 it) raw))"
  consider (doc) "t = BSON_TYPE_DOCUMENT \<or> t = BSON_TYPE_ARRAY" | (bin) "t = BSON_TYPE_BINARY" using t by blast
  then show ?thesis
  proof cases
    case doc
    then have "i_d1 it + 4 \<le> length raw" "i_d1 it + ?l \<le> length raw" using f(1) fields_okD(4) [OF f(3)] by linarith+
    then show ?thesis using doc ty rd by (auto simp: iter_value_simps bson_iter_document_def bson_iter_array_def)
  next
    case bin
    then have b: "i_d2 it = i_d1 it + 4" "i_d3 it = i_d1 it + 5" "i_d1 it + 5 + ?l < len"
        "raw ! i_d2 it = BSON_SUBTYPE_BINARY_DEPRECATED \<longrightarrow> 4 \<le> ?l"
      using fields_okD(3) [OF f(3)] by blast+
    have b': "iter_rd8 it (i_d2 it) = Some (raw ! i_d2 it)" "iter_rd32 it (i_d1 it) = Some ?l"
        "iter_ptr it (i_d3 it) = Some (drop (i_d3 it) raw)"
      by (intro rd, use b f in linarith)+
    show ?thesis
    proof (cases "raw ! i_d2 it = BSON_SUBTYPE_BINARY_DEPRECATED")
      case True
      then have l: "4 \<le> ?l" using b by blast
      have "iter_ptr it (i_d3 it + 4) = Some (drop (i_d3 it + 4) raw)" by (intro rd) (use b f l in linarith)
      moreover have "sub32 ?l 4 = ?l - 4" by (rule sub32_eq [OF l le_nat_4])
      ultimately show ?thesis using bin ty b' b f l True
        by (simp add: iter_value_simps bson_iter_binary_def)
    next
      case False
      then show ?thesis using bin ty b' b f by (simp add: iter_value_simps bson_iter_binary_def)
    qed
  qed
qed

lemma text_values:
  assumes el: "on_element raw len t it" and t: "t \<in> {BSON_TYPE_REGEX, BSON_TYPE_DBPOINTER, BSON_TYPE_CODEWSCOPE}"
  shows "\<exists>bv. bson_iter_value it = Some (Some bv) \<and> value_in bv"
proof -
  have raw: "i_raw it = Some raw" and f: "len \<le> length raw" "len \<le> INT_MAX" "fields_ok raw len t it"
    using el by (simp_all add: on_element_def)
  note ty = on_element_type [OF el]
  note rd = iter_reads [OF raw]
  consider (regex) "t = BSON_TYPE_REGEX" | (dbp) "t = BSON_TYPE_DBPOINTER" | (cws) "t = BSON_TYPE_CODEWSCOPE" using t by blast
  then show ?thesis
  proof cases
    case regex
    then obtain e where e: "i_d1 it < i_d2 it" "raw ! (i_d2 it - 1) = 0" "i_d2 it \<le> e" "e < len" "raw ! e = 0"
      using fields_okD(7) [OF f(3)] by blast
    have "c_string (drop (i_d1 it) raw) 0 \<noteq> None"
      by (rule c_string_nul [of "i_d2 it - 1 - i_d1 it"]) (use e f in \<open>auto simp: less_diff_conv\<close>)
    moreover have "c_string (drop (i_d2 it) raw) 0 \<noteq> None"
      by (rule c_string_nul [of "e - i_d2 it"]) (use e f in auto)
    moreover have "iter_ptr it (i_d1 it) = Some (drop (i_d1 it) raw)" "iter_ptr it (i_d2 it) = Some (drop (i_d2 it) raw)"
      by (intro rd, use e f in linarith)+
    ultimately show ?thesis using regex ty by (simp add: iter_value_simps bson_iter_regex_def)
  next
    case dbp
    then have "str_at raw len (i_d1 it) it" and d: "i_d3 it + 12 < len" using fields_okD(8) [OF f(3)] by blast+
    from string_in [OF el this(1)] obtain n where n: "iter_rd32 it (i_d1 it) = Some n"
      "iter_ptr it (i_d2 it) = Some (drop (i_d2 it) raw)" "n - 1 < length (drop (i_d2 it) raw)" "drop (i_d2 it) raw ! (n - 1) = 0"
      by metis
    have "iter_ptr it (i_d3 it) = Some (drop (i_d3 it) raw)" by (intro rd) (use d f in linarith)
    moreover have "mem_read (drop (i_d3 it) raw) 0 12 = Some (take 12 (drop (i_d3 it) raw))"
      using mem_read_eq [of 0 12 "drop (i_d3 it) raw"] d f by simp
    ultimately show ?thesis using dbp ty n d f by (auto simp: iter_value_simps bson_iter_dbpointer_def)
  next
    case cws
    let ?l = "le_nat (take 4 (drop (i_d2 it) raw))"
    let ?n = "le_nat (take 4 (drop (i_d4 it) raw))"
    have c: "i_d2 it = i_d1 it + 4" "i_d3 it = i_d1 it + 8" "i_d4 it = i_d3 it + ?l" "i_d3 it < i_d4 it" "i_d4 it + 4 < len"
        "i_d4 it + ?n < len"
      using fields_okD(9) [OF f(3) cws] by blast+
    have "iter_rd32 it (i_d2 it) = Some ?l" "iter_rd32 it (i_d4 it) = Some ?n"
      "iter_ptr it (i_d4 it) = Some (drop (i_d4 it) raw)" "iter_ptr it (i_d3 it) = Some (drop (i_d3 it) raw)"
      by (intro rd, use c f in linarith)+
    moreover have "?l \<noteq> 0" "?n \<le> length (drop (i_d4 it) raw)" "?l - 1 < length (drop (i_d3 it) raw)" using c f by auto
    ultimately show ?thesis using cws ty by (simp add: iter_value_simps bson_iter_codewscope_def)
  qed
qed


lemma element_value:
  assumes "on_element raw len t it"
  shows "\<exists>bv. bson_iter_value it = Some (Some bv) \<and> value_in bv"
proof -
  have "known_type t" using assms by (simp add: on_element_def)
  then show ?thesis
    using string_values [OF assms] fixed_values [OF assms] container_values [OF assms] text_values [OF assms]
    unfolding known_type_def insert_iff empty_iff by blast
qed

subsection \<open>One step\<close>

text \<open>The state of the step when the key has been skipped, and the three answers.\<close>

definition keyed :: "bson_iter \<Rightarrow> nat \<Rightarrow> bson_iter" where
  "keyed it p = it\<lparr>i_off := i_next_off it, i_type := i_next_off it, i_key := i_next_off it + 1,
     i_d1 := p, i_d2 := 0, i_d3 := 0, i_d4 := 0\<rparr>"

lemma next_internal_none:
  assumes "i_raw it = Some raw" "i_next_off it \<le> INT_MAX" "scan_nul raw (i_len it) (i_next_off it + 1) = Some None"
  shows "bson_iter_next_internal it = Some (False, BSON_TYPE_EOD, False, mark_invalid (keyed it 0))"
  using assms by (simp add: bson_iter_next_internal_def keyed_def Let_def)

lemma keyed_alt: "keyed it p = it\<lparr>i_off := i_next_off it, i_type := i_next_off it, i_key := i_next_off it + 1,
     i_d2 := 0, i_d3 := 0, i_d4 := 0, i_d1 := p\<rparr>"
  by (cases it) (simp add: keyed_def)

lemma next_internal_some:
  assumes "i_raw it = Some raw" "i_next_off it \<le> INT_MAX" "i_len it \<le> INT_MAX" "i_len it \<le> length raw"
    and j: "scan_nul raw (i_len it) (i_next_off it + 1) = Some (Some j)"
  shows "bson_iter_next_internal it = map_option
     (\<lambda>(ok, it'). (ok, raw ! i_next_off it, snd (next_switch raw (i_len it) (j + 1) (keyed it (j + 1)) (raw ! i_next_off it)), it'))
     (fst (next_switch raw (i_len it) (j + 1) (keyed it (j + 1)) (raw ! i_next_off it)))"
proof -
  have b: "i_next_off it + 1 \<le> j" "j < i_len it" using scan_nul_total [OF assms(4), of "i_next_off it + 1"] j by auto
  then have "add32 (i_next_off it) 1 = i_next_off it + 1" "add32 j 1 = j + 1" "rd8 raw (i_next_off it) = Some (raw ! i_next_off it)"
    using assms(2-4) by (auto intro!: rd8_eq)
  then show ?thesis using assms(1) j
    by (simp add: bson_iter_next_internal_def keyed_alt Let_def map_option_case split: option.split)
qed

lemma next_cursor:
  assumes "i_raw it = Some raw" "iter_in it" "scan_nul raw (i_len it) (i_next_off it + 1) = Some (Some j)"
  shows "cursor raw (i_len it) (j + 1) (keyed it (j + 1))" "i_next_off it < j"
proof -
  have i: "i_len it \<le> length raw" "i_len it \<le> INT_MAX" "4 \<le> i_next_off it" using assms(1,2) by (auto simp: iter_in_def)
  have "i_next_off it + 1 \<le> j" "j < i_len it" using scan_nul_total [OF i(1), of "i_next_off it + 1"] assms(3) by auto
  with i show "cursor raw (i_len it) (j + 1) (keyed it (j + 1))" "i_next_off it < j" by (auto simp: cursor_def keyed_def)
qed

text \<open>What the caller may rely on after a step.\<close>

definition stepped_to :: "bson_iter \<Rightarrow> bool \<Rightarrow> u8 \<Rightarrow> bson_iter \<Rightarrow> bool" where
  "stepped_to it ok t it' \<longleftrightarrow> iter_in it' \<and>
     (if ok then i_raw it' = i_raw it \<and> i_len it' = i_len it \<and> i_off it' = i_next_off it \<and> i_next_off it < i_next_off it' \<and>
        i_next_off it' < i_len it' \<and> bson_iter_type it' = Some t \<and> (\<exists>raw. on_element raw (i_len it') t it') \<and>
        (\<exists>k. bson_iter_key it' = Some k \<and> c_string k 0 \<noteq> None) \<and>
        (\<exists>bv. bson_iter_value it' = Some (Some bv) \<and> value_in bv)
      else i_raw it' = None)"

lemma keyed_simps [simp]:
  "i_raw (keyed it p) = i_raw it" "i_len (keyed it p) = i_len it" "i_next_off (keyed it p) = i_next_off it"
  "i_type (keyed it p) = i_next_off it" "i_off (keyed it p) = i_next_off it" "i_key (keyed it p) = i_next_off it + 1"
  "i_d1 (keyed it p) = p" "i_d2 (keyed it p) = 0" "i_d3 (keyed it p) = 0" "i_d4 (keyed it p) = 0"
  by (simp_all add: keyed_def)

lemma next_stepped:
  assumes it: "iter_in it"
  shows "if element_overread it then bson_iter_next_internal it = None
     else \<exists>ok t u it'. bson_iter_next_internal it = Some (ok, t, u, it') \<and> stepped_to it ok t it'"
proof (cases "i_raw it")
  case None
  then show ?thesis
    by (auto simp: bson_iter_next_internal_def element_overread_def stepped_to_def iter_in_def intro!: exI [of _ False])
next
  case (Some raw)
  have i: "i_len it \<le> length raw" "i_len it \<le> INT_MAX" "4 \<le> i_next_off it" "i_next_off it \<le> INT_MAX"
    using Some it by (auto simp: iter_in_def)
  let ?t = "raw ! i_next_off it"
  from scan_nul_total [OF i(1), of "i_next_off it + 1"] show ?thesis
  proof (elim disjE exE conjE)
    assume n: "scan_nul raw (i_len it) (i_next_off it + 1) = Some None"
    have "\<not> element_overread it" using n Some by (auto simp: element_overread_def)
    then show ?thesis using next_internal_none [OF Some i(4) n]
      by (auto simp: stepped_to_def iter_in_def mark_invalid_def)
  next
    fix j
    assume n: "scan_nul raw (i_len it) (i_next_off it + 1) = Some (Some j)"
      and j: "i_next_off it + 1 \<le> j" "j < i_len it" "raw ! j = 0"
    note c = next_cursor [OF Some it n]
    note eq = next_internal_some [OF Some i(4,2,1) n]
    let ?sw = "next_switch raw (i_len it) (j + 1) (keyed it (j + 1)) ?t"
    have ov: "element_overread it \<longleftrightarrow> ?t = BSON_TYPE_BINARY \<and> binary_overread raw (i_len it) (j + 1)"
      using n Some by (auto simp: element_overread_def)
    note sw = next_switch_cases [OF c(1), of ?t]
    show ?thesis
    proof (cases "element_overread it")
      case True
      then show ?thesis using sw ov eq by simp
    next
      case False
      then have "\<not> (?t = BSON_TYPE_BINARY \<and> binary_overread raw (i_len it) (j + 1))" by (simp only: ov simp_thms)
      from sw [unfolded if_not_P [OF this]] have "stepped raw (i_len it) (j + 1) ?t (keyed it (j + 1)) (fst ?sw)" .
      then obtain ok it' where r: "fst ?sw = Some (ok, it')" "step_result raw (i_len it) (j + 1) ?t (keyed it (j + 1)) ok it'"
        by (auto simp: stepped_def)
      have e: "bson_iter_next_internal it = Some (ok, ?t, snd ?sw, it')" using eq r(1) by simp
      have "stepped_to it ok ?t it'"
      proof (cases ok)
        case True
        have f: "i_raw it' = Some raw" "i_len it' = i_len it" "i_type it' = i_next_off it" "i_key it' = i_next_off it + 1"
            "i_off it' = i_next_off it" "j + 1 \<le> i_next_off it'" "i_next_off it' < i_len it" "fields_ok raw (i_len it) ?t it'"
          using r(2) True Some by (auto simp: step_result_def)
        have el: "on_element raw (i_len it) ?t it'"
          using f i j next_switch_known r(1) True by (auto simp: on_element_def)
        note v = element_value [OF el] on_element_type [OF el]
        have "c_string (drop (i_next_off it + 1) raw) 0 \<noteq> None"
          by (rule c_string_nul [of "j - (i_next_off it + 1)"]) (use j i in auto)
        moreover have "bson_iter_key it' = Some (drop (i_next_off it + 1) raw)"
          unfolding bson_iter_key_def f(4) by (rule iter_reads [OF f(1)]) (use j i in linarith)
        moreover have "bson_iter_type it' = Some ?t" using v(2) f(1,2) j by (simp add: bson_iter_type_def)
        moreover have "\<exists>raw. on_element raw (i_len it') ?t it'" using el f(2) by auto
        ultimately show ?thesis using True f v(1) i j Some by (simp add: stepped_to_def iter_in_def)
      next
        case f: False
        then show ?thesis using r(2) by (simp add: stepped_to_def step_result_def iter_in_def)
      qed
      with e False show ?thesis by auto
    qed
  qed
qed


subsection \<open>Four bytes of slack\<close>

definition slack :: "bson_iter \<Rightarrow> bool" where
  "slack it \<longleftrightarrow> (\<forall>raw. i_raw it = Some raw \<longrightarrow> i_len it + 4 \<le> length raw)"

lemma slack_no_overread: "slack it \<Longrightarrow> \<not> element_overread it"
  by (auto simp: slack_def element_overread_def binary_overread_def)

lemma next_ok:
  assumes "iter_in it" "slack it"
  obtains ok t it' where "bson_iter_next it = Some (ok, it')" "stepped_to it ok t it'" "slack it'"
proof -
  obtain ok t u it' where n: "bson_iter_next_internal it = Some (ok, t, u, it')" "stepped_to it ok t it'"
    using next_stepped [OF assms(1)] slack_no_overread [OF assms(2)] by auto
  moreover have "slack it'" using n(2) assms(2) by (cases ok) (auto simp: stepped_to_def slack_def)
  ultimately show ?thesis by (intro that [of ok it' t]) (simp_all add: bson_iter_next_def)
qed

text \<open>The loops over the elements end: an invariant of the tests is all they need.\<close>

lemma find_loop_total:
  assumes test: "\<And>it2 it1 t. stepped_to it2 True t it1 \<Longrightarrow> test it1 \<noteq> None"
  shows "iter_in it \<Longrightarrow> slack it \<Longrightarrow> \<exists>b it'. find_loop test it = Some (b, it') \<and> iter_in it' \<and> slack it'"
proof (induction "i_len it - i_next_off it" arbitrary: it rule: less_induct)
  case less
  obtain ok t it1 where n: "bson_iter_next it = Some (ok, it1)" "stepped_to it ok t it1" "slack it1"
    using next_ok less.prems by metis
  have in1: "iter_in it1" using n(2) by (simp add: stepped_to_def)
  show ?case
  proof (cases ok)
    case True
    then have "stepped_to it True t it1" using n(2) by simp
    from test [OF this] obtain b where b: "test it1 = Some b" by blast
    have "i_len it1 - i_next_off it1 < i_len it - i_next_off it"
      using n(2) True unfolding stepped_to_def if_P [OF True] by linarith
    from less.hyps [OF this in1 n(3)] b n True in1 show ?thesis
      by (cases b) (auto simp: find_loop.simps [of test it])
  next
    case False
    with n in1 show ?thesis by (simp add: find_loop.simps [of test it] ex_bool_eq)
  qed
qed


text \<open>
  C11. Moving on is memory safe and makes progress, whatever the bytes are. From an iterator whose length is
  covered by the memory, \<^verbatim>\<open>bson_iter_next\<close> returns unless it meets a binary of the old subtype with too few
  bytes behind it. If it returns true, it stands on the element at the old \<^verbatim>\<open>next_off\<close>, the new \<^verbatim>\<open>next_off\<close> is
  larger and below the length, the key is a terminated string, and the value accessors return a value
  whose lengths are covered by the memory; if it returns false, the iterator is finished.
\<close>

theorem iter_next_safe:
  assumes "iter_in it"
  shows "if element_overread it then bson_iter_next it = None
    else \<exists>ok t it'. bson_iter_next it = Some (ok, it') \<and> iter_in it' \<and>
      (if ok then i_raw it' = i_raw it \<and> i_len it' = i_len it \<and> i_off it' = i_next_off it \<and>
         i_next_off it < i_next_off it' \<and> i_next_off it' < i_len it' \<and> bson_iter_type it' = Some t \<and>
         (\<exists>k. bson_iter_key it' = Some k \<and> c_string k 0 \<noteq> None) \<and>
         (\<exists>bv. bson_iter_value it' = Some (Some bv) \<and> value_in bv)
       else i_raw it' = None)"
  using next_stepped [OF assms] unfolding stepped_to_def bson_iter_next_def by (auto split: if_split_asm)

definition sample_bytes :: bytes where
  "sample_bytes = [8, 0, 0, 0, 0x0A, 0x61, 0, 0]"

lemma sample_iter_in: "iter_in (start_iter sample_bytes 8)"
  by (simp add: iter_in_def start_iter_def sample_bytes_def)

lemma sample_overread: "\<not> element_overread (start_iter sample_bytes 8)"
  by (simp add: element_overread_def start_iter_def sample_bytes_def)

lemma iter_next_safe_witness:
  "\<exists>ok it'. bson_iter_next (start_iter sample_bytes 8) = Some (ok, it')"
  using iter_next_safe [OF sample_iter_in] unfolding if_not_P [OF sample_overread] by blast

definition overread_bytes :: bytes where
  "overread_bytes = [13, 0, 0, 0, 5, 0x61, 0, 4, 0, 0, 0, 2, 0]"

text \<open>
  The read that is not checked. A document that \<^verbatim>\<open>bson_iter_init_from_data\<close> accepts, whose last element is
  a binary of the old subtype, makes \<^verbatim>\<open>bson_iter_next\<close> read the inner length behind the end of the data
  (four bytes from the last byte on); with four more bytes of memory it returns.
\<close>

theorem binary_reads_past_end:
  "\<exists>it. bson_iter_init_from_data overread_bytes 13 = Some (True, it) \<and> bson_iter_next it = None \<and>
     bson_iter_next (it\<lparr>i_raw := Some (overread_bytes @ [0, 0, 0, 0])\<rparr>) \<noteq> None"
proof (intro exI [of _ "start_iter overread_bytes 13"] conjI)
  show "bson_iter_init_from_data overread_bytes 13 = Some (True, start_iter overread_bytes 13)"
    by (simp add: bson_iter_init_from_data_def overread_bytes_def rd32_def mem_read_def rd8_def)
  show "bson_iter_next (start_iter overread_bytes 13) = None"
    by (simp add: bson_iter_next_def bson_iter_next_internal_def start_iter_def overread_bytes_def rd8_def rd32_def mem_read_def
        scan_nul.simps next_switch_def next_binary_def Let_def)
  have it: "iter_in ((start_iter overread_bytes 13)\<lparr>i_raw := Some (overread_bytes @ [0, 0, 0, 0])\<rparr>)"
      "slack ((start_iter overread_bytes 13)\<lparr>i_raw := Some (overread_bytes @ [0, 0, 0, 0])\<rparr>)"
    by (simp_all add: iter_in_def slack_def start_iter_def overread_bytes_def)
  show "bson_iter_next ((start_iter overread_bytes 13)\<lparr>i_raw := Some (overread_bytes @ [0, 0, 0, 0])\<rparr>) \<noteq> None"
    using next_ok [OF it] by (metis option.distinct(1))
qed

lemma key_string:
  assumes "stepped_to it0 True t it"
  obtains raw ik where "i_raw it = Some raw" "c_string raw (i_key it) = Some ik"
proof -
  obtain k where k: "bson_iter_key it = Some k" "c_string k 0 \<noteq> None" using assms by (auto simp: stepped_to_def)
  then obtain raw where r: "i_raw it = Some raw" "i_key it \<le> length raw" "k = drop (i_key it) raw"
    by (auto simp: bson_iter_key_def iter_ptr_def bind_Some_iff split: if_splits)
  then have "c_string raw (i_key it) \<noteq> None" using k(2) by (auto simp: c_string_def Let_def split: if_splits)
  with r(1) that show ?thesis by auto
qed

lemma key_matches_total:
  assumes "stepped_to it0 True t it" "n \<le> length k"
  shows "key_matches k n it \<noteq> None"
proof -
  obtain raw ik where r: "i_raw it = Some raw" "c_string raw (i_key it) = Some ik" using key_string [OF assms(1)] .
  have "n \<le> length ik" if "take n k = take n ik" using arg_cong [OF that, of length] assms(2) by simp
  then show ?thesis using r c_string_bound [OF r(2)] by (auto simp: key_matches_def rd8_eq)
qed

text \<open>
  The search loops end on every input with four more bytes of memory: \<^verbatim>\<open>bson_iter_find_case\<close>,
  and \<^verbatim>\<open>bson_iter_find_with_len\<close> when the key has at least the given length, return, and leave an iterator
  on an element or a finished one.
\<close>

theorem iter_find_returns:
  assumes "iter_in it" "slack it" "c_string key 0 = Some k" "keylen \<le> int (length k)"
  shows "(\<exists>b it'. bson_iter_find_with_len it key keylen = Some (b, it') \<and> iter_in it') \<and>
    (\<exists>b it'. bson_iter_find_case it key = Some (b, it') \<and> iter_in it')"
proof
  let ?n = "if keylen < 0 then length k else nat keylen"
  have n: "?n \<le> length k" using assms(4) by (auto simp: nat_le_iff)
  show "\<exists>b it'. bson_iter_find_with_len it key keylen = Some (b, it') \<and> iter_in it'"
  proof (cases "keylen = 0")
    case True
    then show ?thesis using assms(1) by (simp add: bson_iter_find_with_len_def ex_bool_eq)
  next
    case False
    have t: "key_matches k ?n it1 \<noteq> None" if "stepped_to it2 True t it1" for it2 it1 t
      using key_matches_total [OF that n] .
    obtain b it' where "find_loop (key_matches k ?n) it = Some (b, it')" "iter_in it'"
      using find_loop_total [of "key_matches k ?n" it] t assms(1,2) by blast
    with False show ?thesis using assms(3) by (simp add: bson_iter_find_with_len_def)
  qed
  let ?t = "\<lambda>it1. do { raw \<leftarrow> i_raw it1; ik \<leftarrow> c_string raw (i_key it1); Some (map c_tolower k = map c_tolower ik) }"
  have t: "?t it1 \<noteq> None" if st: "stepped_to it2 True t it1" for it2 it1 t
  proof -
    obtain raw ik where "i_raw it1 = Some raw" "c_string raw (i_key it1) = Some ik" using key_string [OF st] .
    then show ?thesis by simp
  qed
  obtain b it' where "find_loop ?t it = Some (b, it')" "iter_in it'"
    using find_loop_total [of ?t it] t assms(1,2) by blast
  then show "\<exists>b it'. bson_iter_find_case it key = Some (b, it') \<and> iter_in it'"
    using assms(3) by (simp add: bson_iter_find_case_def)
qed

lemma iter_find_returns_witness:
  "\<exists>b it'. bson_iter_find_with_len (start_iter (sample_bytes @ [0, 0, 0, 0]) 8) [0x61, 0] 1 = Some (b, it') \<and> iter_in it'"
  by (rule iter_find_returns [where k = "[0x61]", THEN conjunct1])
    (simp_all add: iter_in_def slack_def start_iter_def sample_bytes_def c_string_def)

end
