(* ===== verification/Iter_Read.thy ===== *)
theory Iter_Read
  imports Iter_Safe
begin

text \<open>
  Reading back what the encoding of an abstract document holds: every element is accepted, its accessors
  give its key and its value, and the loop over the document meets its elements in order and nothing else.
\<close>

subsection \<open>Values read\<close>

text \<open>\<open>denotes v bv\<close>: the value \<open>bv\<close> of the code stands for the abstract value \<open>v\<close>.\<close>

fun denotes :: "bval \<Rightarrow> bson_value \<Rightarrow> bool" where
  "denotes (VDouble x) bv \<longleftrightarrow> bv = BV_Double x"
| "denotes (VUtf8 s) bv \<longleftrightarrow> (case bv of BV_Utf8 x n \<Rightarrow> n = length s \<and> take (n + 1) x = s @ [0] | _ \<Rightarrow> False)"
| "denotes (VDocument es) bv \<longleftrightarrow>
     (case bv of BV_Document x n \<Rightarrow> n = length (enc_doc es) \<and> take n x = enc_doc es | _ \<Rightarrow> False)"
| "denotes (VArray es) bv \<longleftrightarrow>
     (case bv of BV_Array x n \<Rightarrow> n = length (enc_doc es) \<and> take n x = enc_doc es | _ \<Rightarrow> False)"
| "denotes (VBinary st b) bv \<longleftrightarrow>
     (case bv of BV_Binary st' x n \<Rightarrow> st' = st \<and> n = length b \<and> take n x = b | _ \<Rightarrow> False)"
| "denotes VUndefined bv \<longleftrightarrow> bv = BV_Undefined"
| "denotes (VOid i) bv \<longleftrightarrow> bv = BV_Oid i"
| "denotes (VBool b) bv \<longleftrightarrow> bv = BV_Bool b"
| "denotes (VDateTime x) bv \<longleftrightarrow> bv = BV_DateTime x"
| "denotes VNull bv \<longleftrightarrow> bv = BV_Null"
| "denotes (VRegex r opt) bv \<longleftrightarrow>
     (case bv of BV_Regex x y \<Rightarrow> c_string x 0 = Some r \<and> c_string y 0 = Some opt | _ \<Rightarrow> False)"
| "denotes (VDBPointer c i) bv \<longleftrightarrow> (case bv of BV_DBPointer x n j \<Rightarrow> c_string x 0 = Some c \<and> n = length c \<and> j = i | _ \<Rightarrow> False)"
| "denotes (VCode c) bv \<longleftrightarrow> (case bv of BV_Code x n \<Rightarrow> c_string x 0 = Some c \<and> n = length c | _ \<Rightarrow> False)"
| "denotes (VSymbol s) bv \<longleftrightarrow> (case bv of BV_Symbol x n \<Rightarrow> n = length s \<and> take (n + 1) x = s @ [0] | _ \<Rightarrow> False)"
| "denotes (VCodeWScope c es) bv \<longleftrightarrow> (case bv of BV_CodeWScope x m y n \<Rightarrow>
     c_string x 0 = Some c \<and> m = length c \<and> n = length (enc_doc es) \<and> take n y = enc_doc es | _ \<Rightarrow> False)"
| "denotes (VInt32 x) bv \<longleftrightarrow> bv = BV_Int32 x"
| "denotes (VTimestamp t i) bv \<longleftrightarrow> bv = BV_Timestamp t i"
| "denotes (VInt64 x) bv \<longleftrightarrow> bv = BV_Int64 x"
| "denotes (VDecimal128 h l) bv \<longleftrightarrow> bv = BV_Decimal128 h l"
| "denotes VMaxKey bv \<longleftrightarrow> bv = BV_MaxKey"
| "denotes VMinKey bv \<longleftrightarrow> bv = BV_MinKey"

lemma denotes_value_of: "wf_val v \<Longrightarrow> denotes v (value_of v)"
  by (cases v) (auto simp: c_string_whole)

subsection \<open>Reading a prefix\<close>

text \<open>\<open>at raw i xs\<close>: the bytes \<open>xs\<close> are in the memory at offset \<open>i\<close>.\<close>

definition at :: "bytes \<Rightarrow> nat \<Rightarrow> bytes \<Rightarrow> bool" where
  "at raw i xs \<longleftrightarrow> i + length xs \<le> length raw \<and> take (length xs) (drop i raw) = xs"

lemma at_append [simp]: "at raw i (xs @ ys) \<longleftrightarrow> at raw i xs \<and> at raw (i + length xs) ys"
proof -
  have "take (length xs + length ys) (drop i raw) = take (length xs) (drop i raw) @ take (length ys) (drop (i + length xs) raw)"
    by (simp add: take_add ac_simps)
  then show ?thesis by (auto simp: at_def ac_simps append_eq_append_conv)
qed

lemma at_whole: "at (pre @ xs @ rest) (length pre) xs"
  by (simp add: at_def)

lemma at_nth: "at raw i xs \<Longrightarrow> j < length xs \<Longrightarrow> raw ! (i + j) = xs ! j"
  unfolding at_def by (metis add_leD1 nth_drop nth_take)

lemma at_Cons [simp]: "at raw i (b # xs) \<longleftrightarrow> i < length raw \<and> raw ! i = b \<and> at raw (i + 1) xs"
proof -
  have "at raw i ([b] @ xs) \<longleftrightarrow> at raw i [b] \<and> at raw (i + length [b]) xs" by (rule at_append)
  moreover have "at raw i [b] \<longleftrightarrow> i < length raw \<and> raw ! i = b"
    by (auto simp: at_def hd_drop_conv_nth take_Suc)
  ultimately show ?thesis by simp
qed

lemma at_Nil [simp]: "at raw i [] \<longleftrightarrow> i \<le> length raw"
  by (simp add: at_def)

lemma at_le32: "at raw i (le32 n) \<Longrightarrow> n < 2 ^ 32 \<Longrightarrow> le_nat (take 4 (drop i raw)) = n"
  by (simp add: at_def le32_def le_nat_le_bytes)

lemma at_le64: "at raw i (le64 n) \<Longrightarrow> n < 2 ^ 64 \<Longrightarrow> le_nat (take 8 (drop i raw)) = n"
  by (simp add: at_def le64_def le_nat_le_bytes)

lemma at_le32_rd: "at raw i (le32 n) \<Longrightarrow> n < 2 ^ 32 \<Longrightarrow> rd32 raw i = Some n"
  using at_le32 by (simp add: at_def rd32_in)

lemma at_length: "at raw i xs \<Longrightarrow> i + length xs \<le> length raw"
  by (simp add: at_def)

lemma at_no_nul: "at raw i s \<Longrightarrow> no_nul s \<Longrightarrow> i \<le> m \<Longrightarrow> m < i + length s \<Longrightarrow> raw ! m \<noteq> 0"
  using at_nth [of raw i s "m - i"] by (auto simp: no_nul_def list_all_length)

lemma at_scan:
  assumes "at raw i (s @ [0])" "no_nul s" "i + length s < len" "len \<le> length raw"
  shows "scan_nul raw len i = Some (Some (i + length s))"
proof (rule scan_nul_exact)
  show "\<forall>m. i \<le> m \<and> m < i + length s \<longrightarrow> raw ! m \<noteq> 0" using at_no_nul [of raw i s] assms by simp
qed (use assms in auto)

lemma at_c_string:
  assumes "at raw i (s @ [0])" "no_nul s"
  shows "c_string (drop i raw) 0 = Some s"
proof -
  have l: "i + (length s + 1) \<le> length raw" using at_length [OF assms(1)] by simp
  have "take (length (s @ [0])) (drop i raw) = s @ [0]" using assms(1) unfolding at_def by blast
  then have "drop i raw = s @ 0 # drop (length (s @ [0])) (drop i raw)"
    by (metis append_Cons append_Nil append_assoc append_take_drop_id)
  with c_string_append [of 0 "[]" s] assms(2) show ?thesis by (metis append_Nil list.size(3))
qed


subsection \<open>Encoded elements are accepted\<close>

lemma at_last: "at raw i (xs @ [b]) \<Longrightarrow> raw ! (i + length xs) = b"
  by simp

definition accepts :: "bytes \<Rightarrow> nat \<Rightarrow> nat \<Rightarrow> bson_iter \<Rightarrow> bval \<Rightarrow> bool" where
  "accepts raw len p it v \<longleftrightarrow> snd (next_switch raw len p it (vtype v)) = False \<and>
     (\<exists>it'. fst (next_switch raw len p it (vtype v)) = Some (True, it') \<and> i_next_off it' = p + length (enc_val v))"

lemma accepts_fixed:
  assumes "cursor raw len p it" "p + length (enc_val v) < len"
    "vtype v \<in> {BSON_TYPE_DOUBLE, BSON_TYPE_DATE_TIME, BSON_TYPE_INT64, BSON_TYPE_TIMESTAMP, BSON_TYPE_INT32, BSON_TYPE_DECIMAL128,
      BSON_TYPE_OID, BSON_TYPE_MAXKEY, BSON_TYPE_MINKEY, BSON_TYPE_NULL, BSON_TYPE_UNDEFINED}" "wf_val v"
  shows "accepts raw len p it v"
proof -
  have p: "p < 2 ^ 32" using assms(1) by (simp add: cursor_def)
  show ?thesis
    using assms(2-4) p by (cases v) (simp_all add: accepts_def next_switch_def next_fixed_eq [OF assms(1)], simp_all add: next_fixed_def finish_def)
qed

lemma accepts_string:
  assumes c: "cursor raw len p it" and f: "p + length (enc_val v) < len" and a: "at raw p (enc_val v)"
    and v: "v = VUtf8 s \<or> v = VCode s \<or> v = VSymbol s"
  shows "accepts raw len p it v"
proof -
  have e: "enc_val v = le32 (length s + 1) @ s @ [0]" using v by (auto simp: enc_string_def)
  have len: "p + 5 + length s < len" "len \<le> INT_MAX" using f c unfolding e by (simp_all add: cursor_def)
  have l: "le_nat (take 4 (drop p raw)) = length s + 1" by (rule at_le32) (use a e len in simp_all)
  have z: "raw ! (p + 4 + length s) = 0" using a unfolding e by simp
  have "next_string raw len p it = Some (True, it\<lparr>i_d2 := p + 4, i_next_off := p + 4 + (length s + 1), i_err_off := 0\<rparr>)"
    unfolding next_string_eq [OF c] Let_def l using len z by simp
  then show ?thesis using v by (auto simp: accepts_def next_switch_def enc_string_def)
qed

lemma accepts_document:
  assumes c: "cursor raw len p it" and f: "p + length (enc_val v) < len" and a: "at raw p (enc_val v)"
    and v: "v = VDocument es \<or> v = VArray es"
  shows "accepts raw len p it v"
proof -
  have e: "enc_val v = le32 (length (enc_elems es) + 5) @ enc_elems es @ [0]" using v by (auto simp: frame_doc_def)
  have len: "p + 5 + length (enc_elems es) < len" "len \<le> INT_MAX" using f c unfolding e by (simp_all add: cursor_def)
  have l: "le_nat (take 4 (drop p raw)) = length (enc_elems es) + 5" by (rule at_le32) (use a e len in simp_all)
  have "next_document raw len p it = Some (True, it\<lparr>i_next_off := p + (length (enc_elems es) + 5), i_err_off := 0\<rparr>)"
    unfolding next_document_eq [OF c] Let_def l using len by simp
  then show ?thesis using v by (auto simp: accepts_def next_switch_def frame_doc_def)
qed

lemma accepts_bool:
  assumes c: "cursor raw len p it" and f: "p + 1 < len" and a: "at raw p (enc_val (VBool b))"
  shows "accepts raw len p it (VBool b)"
  using a f by (simp add: accepts_def next_switch_def next_bool_eq [OF c])

lemma accepts_regex:
  assumes c: "cursor raw len p it" and f: "p + length (enc_val (VRegex r opt)) < len" and a: "at raw p (enc_val (VRegex r opt))"
    and w: "no_nul r" "no_nul opt"
  shows "accepts raw len p it (VRegex r opt)"
proof -
  have len: "p + length r + length opt + 2 < len" "len \<le> length raw" using f c by (simp_all add: cursor_def)
  have "scan_nul raw len p = Some (Some (p + length r))" by (rule at_scan) (use a len w in simp_all)
  moreover have "scan_nul raw len (p + length r + 1) = Some (Some (p + length r + 1 + length opt))"
    by (rule at_scan) (use a len w in simp_all)
  ultimately show ?thesis using len by (simp add: accepts_def next_switch_def next_regex_eq [OF c])
qed

lemma accepts_dbpointer:
  assumes c: "cursor raw len p it" and f: "p + length (enc_val (VDBPointer d i)) < len" and a: "at raw p (enc_val (VDBPointer d i))"
    and w: "length i = 12"
  shows "accepts raw len p it (VDBPointer d i)"
proof -
  have len: "p + 17 + length d < len" "len \<le> INT_MAX" using f c w by (simp_all add: cursor_def enc_string_def)
  have l: "le_nat (take 4 (drop p raw)) = length d + 1" by (rule at_le32) (use a len in \<open>simp_all add: enc_string_def\<close>)
  have z: "raw ! (p + (length d + 1) + 3) = 0" using a by (simp add: enc_string_def ac_simps)
  have "next_dbpointer raw len p it = Some (True, it\<lparr>i_d2 := p + 4, i_d3 := p + 4 + (length d + 1),
      i_next_off := p + 4 + (length d + 1) + 12, i_err_off := 0\<rparr>)"
    unfolding next_dbpointer_eq [OF c] Let_def l using len z by simp
  then show ?thesis using w by (simp add: accepts_def next_switch_def enc_string_def)
qed

lemma accepts_binary:
  assumes c: "cursor raw len p it" and f: "p + length (enc_val (VBinary st b)) < len" and a: "at raw p (enc_val (VBinary st b))"
  shows "accepts raw len p it (VBinary st b)"
proof (cases "st = BSON_SUBTYPE_BINARY_DEPRECATED")
  case True
  have len: "p + 9 + length b < len" "len \<le> INT_MAX" using f c True by (simp_all add: cursor_def)
  have l: "le_nat (take 4 (drop p raw)) = length b + 4" by (rule at_le32) (use a len True in simp_all)
  have n: "rd32 raw (p + 5) = Some (length b)" by (rule at_le32_rd) (use a len True in \<open>simp_all add: add.commute\<close>)
  have "add32 (length b) 4 = length b + 4" using len by simp
  moreover have "raw ! (p + 4) = BSON_SUBTYPE_BINARY_DEPRECATED" using a True by simp
  ultimately have "next_binary raw len p it = Some (True, it\<lparr>i_d2 := p + 4, i_d3 := p + 5, i_next_off := p + 5 + (length b + 4), i_err_off := 0\<rparr>)"
    unfolding next_binary_eq [OF c] Let_def l n using len by (simp add: binary_step_def)
  then show ?thesis using True by (simp add: accepts_def next_switch_def)
next
  case False
  have len: "p + 5 + length b < len" "len \<le> INT_MAX" using f c False by (simp_all add: cursor_def)
  have l: "le_nat (take 4 (drop p raw)) = length b" by (rule at_le32) (use a len False in simp_all)
  have "raw ! (p + 4) = st" using a False by simp
  then have "next_binary raw len p it = Some (True, it\<lparr>i_d2 := p + 4, i_d3 := p + 5, i_next_off := p + 5 + length b, i_err_off := 0\<rparr>)"
    unfolding next_binary_eq [OF c] Let_def l using len False by (simp add: binary_step_def)
  then show ?thesis using False by (simp add: accepts_def next_switch_def)
qed

lemma accepts_codewscope:
  assumes c: "cursor raw len p it" and f: "p + length (enc_val (VCodeWScope d es)) < len"
    and a: "at raw p (enc_val (VCodeWScope d es))"
  shows "accepts raw len p it (VCodeWScope d es)"
proof -
  let ?m = "length (enc_elems es) + 5"
  let ?n = "4 + (length d + 5) + ?m"
  have len: "p + ?n < len" "len \<le> INT_MAX" "6 \<le> p" using f c by (simp_all add: cursor_def enc_string_def Let_def)
  have l: "le_nat (take 4 (drop p raw)) = ?n" by (rule at_le32) (use a len in \<open>simp_all add: enc_string_def Let_def\<close>)
  have l2: "le_nat (take 4 (drop (p + 4) raw)) = length d + 1" by (rule at_le32) (use a len in \<open>simp_all add: enc_string_def Let_def\<close>)
  have l3: "le_nat (take 4 (drop (p + 8 + (length d + 1)) raw)) = ?m"
    by (rule at_le32) (use a len in \<open>simp_all add: enc_string_def frame_doc_def Let_def ac_simps\<close>)
  have s: "add32 (p + 8 + (length d + 1)) ?m = p + ?n" using len by (subst add32_eq) simp_all
  have "next_codewscope raw len p it = Some (True, it\<lparr>i_d2 := p + 4, i_d3 := p + 8, i_next_off := p + ?n,
      i_d4 := p + 8 + (length d + 1), i_err_off := 0\<rparr>)"
    unfolding next_codewscope_eq [OF c] Let_def l l2 l3 s using len by simp
  then show ?thesis by (simp add: accepts_def next_switch_def enc_string_def Let_def)
qed

lemma element_accepted:
  assumes "cursor raw len p it" "p + length (enc_val v) < len" "at raw p (enc_val v)" "wf_val v"
  shows "accepts raw len p it v"
proof (cases v)
qed (use assms in \<open>auto intro: accepts_fixed accepts_string accepts_document accepts_bool accepts_regex accepts_dbpointer
      accepts_binary accepts_codewscope\<close>)


subsection \<open>Encoded values are read back\<close>

lemma at_take: "at raw i xs \<Longrightarrow> n = length xs \<Longrightarrow> take n (drop i raw) = xs"
  by (simp add: at_def)

lemma at_u64: "at raw i (le64 (unat (x :: u64))) \<Longrightarrow> le_nat (take 8 (drop i raw)) = unat x"
proof (rule at_le64)
  have "unat x < 2 ^ LENGTH(64)" by (rule unsigned_less)
  then show "unat x < 2 ^ 64" by simp
qed

lemma at_u32: "at raw i (le32 (unat (x :: u32))) \<Longrightarrow> le_nat (take 4 (drop i raw)) = unat x"
  by (rule at_le32 [OF _ unat_u32_less])

lemma length_enc_string: "length (enc_string s) = length s + 5"
  by (simp add: enc_string_def)

lemma at_str:
  assumes "at raw i (enc_string s)" "length s + 1 < 2 ^ 32"
  shows "le_nat (take 4 (drop i raw)) = length s + 1" "take (length s + 1) (drop (i + 4) raw) = s @ [0]"
    "no_nul s \<Longrightarrow> c_string (drop (i + 4) raw) 0 = Some s"
proof -
  have a: "at raw i (le32 (length s + 1))" "at raw (i + 4) (s @ [0])" using assms(1) by (simp_all add: enc_string_def)
  show "le_nat (take 4 (drop i raw)) = length s + 1" using at_le32 [OF a(1) assms(2)] .
  show "take (length s + 1) (drop (i + 4) raw) = s @ [0]" by (rule at_take [OF a(2)]) simp
  show "no_nul s \<Longrightarrow> c_string (drop (i + 4) raw) 0 = Some s" by (rule at_c_string [OF a(2)])
qed

lemma element_read:
  assumes el: "on_element raw len (vtype v) it" and p: "no_data (vtype v) \<or> i_d1 it = p"
    and a: "at raw p (enc_val v)" and w: "wf_val v" and l: "p + length (enc_val v) < len"
  shows "\<exists>bv. bson_iter_value it = Some (Some bv) \<and> denotes v bv"
proof -
  have raw: "i_raw it = Some raw" and f: "len \<le> length raw" "len \<le> INT_MAX" "fields_ok raw len (vtype v) it"
    using el by (simp_all add: on_element_def)
  note ty = on_element_type [OF el]
  note rd = iter_reads [OF raw]
  have al: "p + length (enc_val v) \<le> length raw" using a by (rule at_length)
  show ?thesis
  proof (cases v)
    case (VDouble x)
    then show ?thesis using p ty rd(2) [of p] al at_u64 [of raw p x] a
      by (simp add: iter_value_simps bson_iter_double_def no_data_def)
  next
    case (VDateTime x)
    then show ?thesis using p ty rd(2) [of p] al at_u64 [of raw p x] a
      by (simp add: iter_value_simps bson_iter_date_time_def no_data_def)
  next
    case (VInt64 x)
    then show ?thesis using p ty rd(2) [of p] al at_u64 [of raw p x] a
      by (simp add: iter_value_simps bson_iter_int64_def no_data_def)
  next
    case (VInt32 x)
    then show ?thesis using p ty rd(1) [of p] al at_u32 [of raw p x] a
      by (simp add: iter_value_simps bson_iter_int32_def no_data_def)
  next
    case (VBool b)
    then show ?thesis using p ty rd(3) [of p] al a
      by (auto simp: iter_value_simps bson_iter_bool_def no_data_def)
  next
    case (VOid i)
    then show ?thesis using p ty rd(4) [of p] al a w at_take [of raw p i 12]
      by (simp add: iter_value_simps bson_iter_oid_def no_data_def mem_read_def)
  next
    case (VDecimal128 hi lo)
    then show ?thesis
      using p ty rd(2) [of p] rd(2) [of "p + 8"] al a at_u64 [of raw p lo] at_u64 [of raw "p + 8" hi]
      by (simp add: iter_value_simps bson_iter_decimal128_def no_data_def)
  next
    case (VTimestamp t i)
    have u: "unat t < 2 ^ 32" "unat i < 2 ^ 32" by (rule unat_u32_less)+
    then have "unat t * 2 ^ 32 + unat i < 2 ^ 64" by simp
    from at_le64 [OF _ this, of raw p] VTimestamp a
    have n: "le_nat (take 8 (drop p raw)) = unat t * 2 ^ 32 + unat i" by simp
    have "word_of_nat ((unat t * 2 ^ 32 + unat i) div 2 ^ 32) = t" "word_of_nat ((unat t * 2 ^ 32 + unat i) mod 2 ^ 32) = i"
      using u by simp_all
    then show ?thesis using VTimestamp p ty rd(2) [of p] al n
      by (simp add: iter_value_simps bson_iter_timestamp_def no_data_def)
  next
    case (VUtf8 s)
    then have s: "at raw p (enc_string s)" "length s + 1 < 2 ^ 31" using a l f by (simp_all add: enc_string_def)
    have "str_at raw len p it" using fields_okD(2) [OF f(3)] VUtf8 p by (simp add: no_data_def)
    then have "i_d2 it = p + 4" by (simp add: str_at_def Let_def)
    then show ?thesis using VUtf8 p ty rd(1) [of p] rd(4) [of "p + 4"] al at_str [OF s(1)] s(2)
      by (simp add: iter_value_simps bson_iter_utf8_def iter_string_def bson_iter_utf8_len_unsafe_def enc_string_def no_data_def)
  next
    case (VSymbol s)
    then have s: "at raw p (enc_string s)" "length s + 1 < 2 ^ 31" using a l f by (simp_all add: enc_string_def)
    have "str_at raw len p it" using fields_okD(2) [OF f(3)] VSymbol p by (simp add: no_data_def)
    then have "i_d2 it = p + 4" by (simp add: str_at_def Let_def)
    then show ?thesis using VSymbol p ty rd(1) [of p] rd(4) [of "p + 4"] al at_str [OF s(1)] s(2)
      by (simp add: iter_value_simps bson_iter_symbol_def iter_string_def bson_iter_utf8_len_unsafe_def enc_string_def no_data_def)
  next
    case (VCode s)
    then have s: "at raw p (enc_string s)" "length s + 1 < 2 ^ 31" "no_nul s" using a l f w by (simp_all add: enc_string_def)
    have "str_at raw len p it" using fields_okD(2) [OF f(3)] VCode p by (simp add: no_data_def)
    then have "i_d2 it = p + 4" by (simp add: str_at_def Let_def)
    then show ?thesis using VCode p ty rd(1) [of p] rd(4) [of "p + 4"] al at_str [OF s(1)] s(2,3)
      by (simp add: iter_value_simps bson_iter_code_def iter_string_def bson_iter_utf8_len_unsafe_def enc_string_def no_data_def)
  next
    case (VDocument es)
    have "at raw p (enc_doc es)" using a VDocument by (simp add: enc_doc_def)
    moreover have "le_nat (take 4 (drop p raw)) = length (enc_doc es)"
      by (rule at_le32) (use a l f VDocument in \<open>simp_all add: frame_doc_def enc_doc_def add.commute\<close>)
    ultimately show ?thesis using VDocument p ty rd(1) [of p] rd(4) [of p] al at_take
      by (simp add: iter_value_simps bson_iter_document_def no_data_def)
  next
    case (VArray es)
    have "at raw p (enc_doc es)" using a VArray by (simp add: enc_doc_def)
    moreover have "le_nat (take 4 (drop p raw)) = length (enc_doc es)"
      by (rule at_le32) (use a l f VArray in \<open>simp_all add: frame_doc_def enc_doc_def add.commute\<close>)
    ultimately show ?thesis using VArray p ty rd(1) [of p] rd(4) [of p] al at_take
      by (simp add: iter_value_simps bson_iter_array_def no_data_def)
  next
    case (VRegex r opt)
    have d: "i_d1 it = p" using p VRegex by (simp add: no_data_def)
    have e: "i_d1 it < i_d2 it" "raw ! (i_d2 it - 1) = 0" "\<forall>m. p \<le> m \<and> m < i_d2 it - 1 \<longrightarrow> raw ! m \<noteq> 0"
      using fields_okD(7) [OF f(3)] VRegex d by auto
    have r: "at raw p (r @ [0])" "at raw (p + length r + 1) (opt @ [0])" "no_nul r" "no_nul opt" using a w VRegex by simp_all
    have "raw ! (p + length r) = 0" using r(1) by simp
    moreover have "\<forall>m. p \<le> m \<and> m < p + length r \<longrightarrow> raw ! m \<noteq> 0" using at_no_nul [of raw p r] r by simp
    ultimately have "i_d2 it - 1 = p + length r" using e d
      by (metis le_add1 linorder_neqE_nat Suc_leI Suc_pred' less_nat_zero_code not_less_iff_gr_or_eq diff_Suc_1 gr0_conv_Suc less_Suc_eq_le)
    then have d2: "i_d2 it = p + length r + 1" using e by simp
    then show ?thesis using VRegex d ty rd(4) [of p] rd(4) [of "p + length r + 1"] al at_c_string [OF r(1,3)] at_c_string [OF r(2,4)]
      by (simp add: iter_value_simps bson_iter_regex_def)
  next
    case (VDBPointer c i)
    have d: "i_d1 it = p" using p VDBPointer by (simp add: no_data_def)
    have s: "at raw p (enc_string c)" "length c + 1 < 2 ^ 32" "no_nul c" "length i = 12" "at raw (p + (length c + 5)) i"
      using a l f w VDBPointer by (simp_all add: length_enc_string)
    note n = at_str(1) [OF s(1,2)] at_str(3) [OF s(1-3)]
    have "i_d2 it = p + 4" "i_d3 it = p + (length c + 5)"
      using fields_okD(8) [OF f(3)] VDBPointer d n by (simp_all add: str_at_def Let_def)
    then show ?thesis using VDBPointer d ty rd(1) [of p] rd(4) [of "p + 4"] rd(4) [of "p + (length c + 5)"] al n s(4) at_take [OF s(5)]
      by (simp add: iter_value_simps bson_iter_dbpointer_def mem_read_def length_enc_string)
  next
    case (VBinary st b)
    have d: "i_d1 it = p" using p VBinary by (simp add: no_data_def)
    have e: "i_d2 it = p + 4" "i_d3 it = p + 5" using fields_okD(3) [OF f(3)] VBinary d by simp_all
    show ?thesis
    proof (cases "st = BSON_SUBTYPE_BINARY_DEPRECATED")
      case True
      have b: "at raw p (le32 (length b + 4))" "raw ! (p + 4) = st" "at raw (p + 9) b" "length b + 4 < 2 ^ 32"
        using a l f VBinary True by (simp_all add: add.commute)
      then show ?thesis using VBinary True d e ty rd(1) [of p] rd(3) [of "p + 4"] rd(4) [of "p + 9"] al at_le32 [OF b(1,4)] at_take [OF b(3)]
        by (simp add: iter_value_simps bson_iter_binary_def add.commute)
    next
      case False
      have b: "at raw p (le32 (length b))" "raw ! (p + 4) = st" "at raw (p + 5) b" "length b < 2 ^ 32"
        using a l f VBinary False by (simp_all add: add.commute)
      then show ?thesis using VBinary False d e ty rd(1) [of p] rd(3) [of "p + 4"] rd(4) [of "p + 5"] al at_le32 [OF b(1,4)] at_take [OF b(3)]
        by (simp add: iter_value_simps bson_iter_binary_def)
    qed
  next
    case (VCodeWScope c es)
    have d: "i_d1 it = p" using p VCodeWScope by (simp add: no_data_def)
    let ?q = "p + (4 + (length c + 5))"
    have s: "at raw (p + 4) (enc_string c)" "no_nul c" "at raw ?q (enc_doc es)" "length c + 1 < 2 ^ 32" "length (enc_doc es) < 2 ^ 32"
      "p + 13 + length c \<le> length raw"
      using a l f w al VCodeWScope by (simp_all add: Let_def length_enc_string enc_doc_def add.assoc)
    have "enc_doc es = le32 (length (enc_doc es)) @ enc_elems es @ [0]"
      by (simp add: enc_doc_def frame_doc_def add.commute)
    then have "at raw ?q (le32 (length (enc_doc es)))" using s(3) by (metis at_append)
    note n = at_str(1) [OF s(1,4)] at_str(3) [OF s(1,4,2)] at_le32 [OF this s(5)] at_length [OF s(3)]
    have e: "i_d2 it = p + 4" "i_d3 it = p + 8" "i_d4 it = ?q" using fields_okD(9) [OF f(3)] VCodeWScope d n by simp_all
    have "iter_rd32 it (p + 4) = Some (length c + 1)" "iter_rd32 it ?q = Some (length (enc_doc es))"
      "iter_ptr it (p + 8) = Some (drop (p + 8) raw)" "iter_ptr it ?q = Some (drop ?q raw)"
      using rd(1) [of "p + 4"] rd(1) [of ?q] rd(4) [of "p + 8"] rd(4) [of ?q] n s(6) length_enc_doc_ge [of es] by simp_all
    then show ?thesis using VCodeWScope d e ty n at_take [OF s(3) refl]
      by (simp add: iter_value_simps bson_iter_codewscope_def add.commute)
  qed (use ty in \<open>simp_all add: iter_value_simps\<close>)
qed


subsection \<open>The loop over a document\<close>

text \<open>The iterator stands on an element.\<close>

definition elem_at :: "bson_iter \<Rightarrow> bytes \<Rightarrow> bval \<Rightarrow> bool" where
  "elem_at it k v \<longleftrightarrow> (\<exists>raw p. i_raw it = Some raw \<and> on_element raw (i_len it) (vtype v) it \<and>
     (no_data (vtype v) \<or> i_d1 it = p) \<and> at raw p (enc_val v) \<and> p + length (enc_val v) < i_len it \<and> wf_val v \<and>
     at raw (i_key it) (k @ [0]) \<and> no_nul k \<and> p = i_key it + length k + 1 \<and> i_key it = i_off it + 1)"

text \<open>The iterator stands in front of the elements \<open>es\<close>, the last of a document.\<close>

definition reads_at :: "bson_iter \<Rightarrow> elems \<Rightarrow> bool" where
  "reads_at it es \<longleftrightarrow> (\<exists>raw. i_raw it = Some raw \<and> at raw (i_next_off it) (enc_elems es @ [0]) \<and>
     i_len it = i_next_off it + length (enc_elems es) + 1 \<and> i_len it \<le> INT_MAX \<and> 4 \<le> i_next_off it \<and>
     wf_elems es \<and> i_err_off it = 0)"

lemma elem_at_value: "elem_at it k v \<Longrightarrow> \<exists>bv. bson_iter_value it = Some (Some bv) \<and> denotes v bv"
  unfolding elem_at_def using element_read by blast

lemma elem_at_key:
  assumes "elem_at it k v"
  shows "\<exists>x. bson_iter_key it = Some x \<and> c_string x 0 = Some k" "\<exists>raw. i_raw it = Some raw \<and> c_string raw (i_key it) = Some k"
    "bson_iter_type it = Some (vtype v)"
proof -
  obtain raw p where e: "i_raw it = Some raw" "on_element raw (i_len it) (vtype v) it" "at raw (i_key it) (k @ [0])" "no_nul k"
      "p + length (enc_val v) < i_len it"
    using assms unfolding elem_at_def by blast
  have c: "c_string (drop (i_key it) raw) 0 = Some k" by (rule at_c_string [OF e(3,4)])
  have l: "i_key it + length (k @ [0]) \<le> length raw" by (rule at_length [OF e(3)])
  then show "\<exists>x. bson_iter_key it = Some x \<and> c_string x 0 = Some k"
    using c iter_reads(4) [OF e(1), of "i_key it"] by (simp add: bson_iter_key_def)
  have "c_string raw (i_key it) = Some k" using c l unfolding c_string_def Let_def by (auto split: if_splits)
  with e(1) show "\<exists>raw. i_raw it = Some raw \<and> c_string raw (i_key it) = Some k" by blast
  show "bson_iter_type it = Some (vtype v)" using on_element_type [OF e(2)] e(1,5) by (simp add: bson_iter_type_def)
qed

lemma next_elem:
  assumes "reads_at it ((k, v) # es)"
  obtains it1 where "bson_iter_next_internal it = Some (True, vtype v, False, it1)" "elem_at it1 k v" "reads_at it1 es"
    "i_raw it1 = i_raw it" "i_off it1 = i_next_off it" "i_next_off it1 = i_next_off it + length (enc_elem k v)"
proof -
  obtain raw where r: "i_raw it = Some raw" "at raw (i_next_off it) (enc_elem k v @ enc_elems es @ [0])"
      "i_len it = i_next_off it + length (enc_elem k v) + length (enc_elems es) + 1" "i_len it \<le> INT_MAX" "4 \<le> i_next_off it"
      "no_nul k" "wf_val v" "wf_elems es"
    using assms by (auto simp: reads_at_def enc_elem_def)
  let ?o = "i_next_off it" and ?p = "i_next_off it + length k + 2"
  have l: "length (enc_elem k v) = length k + length (enc_val v) + 2" by (rule length_enc_elem)
  have a: "raw ! ?o = vtype v" "at raw (?o + 1) (k @ [0])" "at raw ?p (enc_val v)" "at raw (?o + length (enc_elem k v)) (enc_elems es @ [0])"
    using r(2) unfolding at_append by (simp_all add: enc_elem_def add.assoc)
  have len: "i_len it \<le> length raw" using at_length [OF r(2)] r(3) by simp
  have n: "scan_nul raw (i_len it) (?o + 1) = Some (Some (?o + 1 + length k))"
    by (rule at_scan [OF a(2) r(6) _ len]) (use r(3) l in simp)
  have it_in: "iter_in it" using r len by (simp add: iter_in_def)
  have pe: "?o + 1 + length k + 1 = ?p" by simp
  note c = next_cursor [OF r(1) it_in n, unfolded pe]
  have acc: "accepts raw (i_len it) ?p (keyed it ?p) v"
    by (rule element_accepted [OF c(1) _ a(3) r(7)]) (use r(3) l in simp)
  then obtain it1 where it1: "fst (next_switch raw (i_len it) ?p (keyed it ?p) (vtype v)) = Some (True, it1)"
      "i_next_off it1 = ?p + length (enc_val v)" "snd (next_switch raw (i_len it) ?p (keyed it ?p) (vtype v)) = False"
    by (auto simp: accepts_def)
  have eq: "bson_iter_next_internal it = Some (True, vtype v, False, it1)"
    using next_internal_some [OF r(1) _ r(4) len n] r(3,4) a(1) it1 unfolding pe by simp
  have "stepped raw (i_len it) ?p (vtype v) (keyed it ?p) (fst (next_switch raw (i_len it) ?p (keyed it ?p) (vtype v)))"
    using next_switch_cases [OF c(1), of "vtype v"] it1(1) by (auto split: if_splits)
  then have st: "step_result raw (i_len it) ?p (vtype v) (keyed it ?p) True it1" using it1(1) by (simp add: stepped_def ex_bool_eq)
  have f: "i_raw it1 = Some raw" "i_len it1 = i_len it" "i_type it1 = ?o" "i_key it1 = ?o + 1" "i_off it1 = ?o" "i_err_off it1 = 0"
      "no_data (vtype v) \<or> i_d1 it1 = ?p" "fields_ok raw (i_len it) (vtype v) it1"
    using st r(1) by (auto simp: step_result_def)
  have "on_element raw (i_len it) (vtype v) it1"
    using f a(1) len r(3,4) next_switch_known [OF it1(1)] by (simp add: on_element_def)
  then have "elem_at it1 k v"
    unfolding elem_at_def using f a(2,3) r(3,6,7) l by (intro exI [of _ raw] exI [of _ ?p]) simp
  moreover have "reads_at it1 es"
    unfolding reads_at_def using f it1(2) r(3,4,5,8) a(4) l by (intro exI [of _ raw]) (simp add: add.assoc)
  moreover have "i_raw it1 = i_raw it" "i_next_off it1 = ?o + length (enc_elem k v)" using f(1) r(1) it1(2) l by simp_all
  ultimately show ?thesis using that eq f(5) by blast
qed

lemma next_end:
  assumes "reads_at it []"
  obtains it1 where "bson_iter_next_internal it = Some (False, BSON_TYPE_EOD, False, it1)" "i_raw it1 = None" "i_err_off it1 = 0"
proof -
  obtain raw where r: "i_raw it = Some raw" "i_len it = i_next_off it + 1" "i_len it \<le> INT_MAX" "i_err_off it = 0"
    using assms by (auto simp: reads_at_def)
  have "scan_nul raw (i_len it) (i_next_off it + 1) = Some None" using r(2) by (simp add: scan_nul.simps)
  with next_internal_none [OF r(1)] r that show ?thesis by (simp add: mark_invalid_def keyed_def)
qed

subsection \<open>Starting\<close>

lemma start_reads:
  assumes "wf_elems es" "length (enc_doc es) \<le> INT_MAX" "at raw 0 (enc_doc es)"
  shows "reads_at (start_iter raw (length (enc_doc es))) es"
  using assms by (auto simp: reads_at_def start_iter_def enc_doc_def frame_doc_def)

lemma init_reads_holds:
  assumes "holds H a (enc_doc es)" "wf_elems es" "length (enc_doc es) \<le> INT_MAX"
  shows "\<exists>it. bson_iter_init H a = Some (True, it) \<and> reads_at it es"
proof -
  obtain d mem where d: "h_docs H a = Some d" "doc_mem H d = Some mem" "b_len d = length (enc_doc es)"
      "doc_off d + length (enc_doc es) \<le> length mem" "take (length (enc_doc es)) (drop (doc_off d) mem) = enc_doc es"
    using assms(1) by (auto elim!: holdsE)
  then have "at (drop (doc_off d) mem) 0 (enc_doc es)" by (simp add: at_def)
  from start_reads [OF assms(2,3) this] d show ?thesis using length_enc_doc_ge [of es] by (simp add: bson_iter_init_def)
qed

lemma init_reads:
  "rep H a es \<Longrightarrow> wf_elems es \<Longrightarrow> length (enc_doc es) \<le> INT_MAX \<Longrightarrow> \<exists>it. bson_iter_init H a = Some (True, it) \<and> reads_at it es"
  by (rule init_reads_holds) (simp_all add: rep_def)

lemma elem_at_recurse:
  assumes "elem_at it k v" "v = VDocument es \<or> v = VArray es"
  shows "\<exists>it1. bson_iter_recurse it = Some (Some it1) \<and> reads_at it1 es"
proof -
  obtain raw p where e: "i_raw it = Some raw" "on_element raw (i_len it) (vtype v) it" "i_d1 it = p" "at raw p (enc_val v)"
      "p + length (enc_val v) < i_len it" "wf_val v"
    using assms unfolding elem_at_def no_data_def by auto
  have len: "i_len it \<le> INT_MAX" using e(2) by (simp add: on_element_def)
  have v: "enc_val v = enc_doc es" "wf_elems es" using assms(2) e(6) by (auto simp: enc_doc_def)
  have "enc_doc es = le32 (length (enc_doc es)) @ enc_elems es @ [0]" by (simp add: enc_doc_def frame_doc_def add.commute)
  then have "at raw p (le32 (length (enc_doc es)))" using e(4) unfolding v by (metis at_append)
  then have l: "le_nat (take 4 (drop p raw)) = length (enc_doc es)" by (rule at_le32) (use e(5) len v in simp)
  have al: "p + length (enc_doc es) \<le> length raw" using at_length [OF e(4)] v by simp
  have rd: "iter_rd32 it p = Some (length (enc_doc es))" "iter_ptr it p = Some (drop p raw)"
    using iter_reads [OF e(1), of p] al l length_enc_doc_ge [of es] by simp_all
  have "bson_iter_recurse it = Some (Some (start_iter (drop p raw) (length (enc_doc es))))"
    using assms(2) on_element_type [OF e(2)] e(3) rd
    by (auto simp: bson_iter_recurse_def bson_iter_document_def bson_iter_array_def start_iter_def)
  moreover have "at (drop p raw) 0 (enc_doc es)" using e(4) al unfolding v by (simp add: at_def)
  then have "reads_at (start_iter (drop p raw) (length (enc_doc es))) es"
    by (rule start_reads [rotated 2]) (use v e(5) len in simp_all)
  ultimately show ?thesis by blast
qed


lemma elem_at_scope:
  assumes "elem_at it k (VCodeWScope c es)" "bson_iter_value it = Some (Some (BV_CodeWScope x m y n))"
  shows "\<exists>it1. bson_iter_init_from_data y n = Some (True, it1) \<and> reads_at it1 es"
proof -
  have d: "n = length (enc_doc es)" "take n y = enc_doc es" using elem_at_value [OF assms(1)] assms(2) by auto
  have len: "length (enc_doc es) \<le> INT_MAX" and w: "wf_elems es"
    using assms(1) by (auto simp: elem_at_def on_element_def Let_def enc_doc_def)
  have ly: "n \<le> length y" using arg_cong [OF d(2), of length] d(1) by simp
  have a: "at y 0 (enc_doc es)" using d ly by (simp add: at_def)
  have e: "enc_doc es = le32 n @ enc_elems es @ [0]" by (simp add: d(1) enc_doc_def frame_doc_def add.commute)
  have "at y 0 (le32 n)" using a unfolding e by simp
  then have l: "rd32 y 0 = Some n" by (rule at_le32_rd) (use d len in simp)
  have n5: "5 \<le> n" unfolding d(1) by (rule length_enc_doc_ge)
  have "y ! (0 + (n - 1)) = enc_doc es ! (n - 1)" by (rule at_nth [OF a]) (use n5 d in simp)
  moreover have "enc_doc es ! (n - 1) = 0" unfolding e using d(1) by (simp add: nth_append enc_doc_def)
  ultimately have "rd8 y (n - 1) = Some 0" using n5 ly by (simp add: rd8_eq)
  then have "bson_iter_init_from_data y n = Some (True, start_iter y n)"
    using l n5 d(1) len by (simp add: bson_iter_init_from_data_def)
  with start_reads [OF w len a] d(1) show ?thesis by blast
qed

subsection \<open>The loop over a document\<close>

text \<open>
  What a caller sees that loops with \<^verbatim>\<open>bson_iter_next\<close>, reads key, type and value of each element, and enters
  nested documents with \<^verbatim>\<open>bson_iter_recurse\<close> and the scope of code with \<^verbatim>\<open>bson_iter_init_from_data\<close>.
\<close>

inductive yields :: "bson_iter \<Rightarrow> elems \<Rightarrow> bool" where
  finished: "bson_iter_next it = Some (False, it1) \<Longrightarrow> i_err_off it1 = 0 \<Longrightarrow> yields it []"
| element: "bson_iter_next it = Some (True, it1) \<Longrightarrow> bson_iter_key it1 = Some x \<Longrightarrow> c_string x 0 = Some k \<Longrightarrow>
    bson_iter_type it1 = Some (vtype v) \<Longrightarrow> bson_iter_value it1 = Some (Some bv) \<Longrightarrow> denotes v bv \<Longrightarrow>
    \<forall>sub. v = VDocument sub \<or> v = VArray sub \<longrightarrow> (\<exists>it2. bson_iter_recurse it1 = Some (Some it2) \<and> yields it2 sub) \<Longrightarrow>
    \<forall>c sub y m z n. v = VCodeWScope c sub \<and> bv = BV_CodeWScope y m z n \<longrightarrow>
      (\<exists>it2. bson_iter_init_from_data z n = Some (True, it2) \<and> yields it2 sub) \<Longrightarrow>
    yields it1 es \<Longrightarrow> yields it ((k, v) # es)"

inductive_cases yields_NilE: "yields it []"
inductive_cases yields_ConsE: "yields it ((k, v) # es)"

definition elems_size :: "elems \<Rightarrow> nat" where
  "elems_size = size_list (size_prod (\<lambda>x. 0) size)"

lemma elems_size_simps:
  "elems_size es < elems_size ((k, v) # es)"
  "elems_size sub < elems_size ((k, VDocument sub) # es)"
  "elems_size sub < elems_size ((k, VArray sub) # es)"
  "elems_size sub < elems_size ((k, VCodeWScope c sub) # es)"
  by (simp_all add: elems_size_def)

lemma reads_yields: "reads_at it es \<Longrightarrow> yields it es"
proof (induction es arbitrary: it rule: measure_induct_rule [of elems_size])
  case (less es)
  show ?case
  proof (cases es)
    case Nil
    obtain it1 where n: "bson_iter_next_internal it = Some (False, BSON_TYPE_EOD, False, it1)" "i_err_off it1 = 0"
      using next_end less.prems unfolding Nil by blast
    then have "bson_iter_next it = Some (False, it1)" by (simp add: bson_iter_next_def)
    then show ?thesis unfolding Nil using n(2) by (rule finished)
  next
    case (Cons kv es')
    obtain k v where kv: "kv = (k, v)" by (cases kv)
    note es = Cons [unfolded kv]
    obtain it1 where n: "bson_iter_next_internal it = Some (True, vtype v, False, it1)" "elem_at it1 k v" "reads_at it1 es'"
      using next_elem less.prems unfolding es by blast
    have nx: "bson_iter_next it = Some (True, it1)" using n(1) by (simp add: bson_iter_next_def)
    obtain x where x: "bson_iter_key it1 = Some x" "c_string x 0 = Some k" using elem_at_key(1) [OF n(2)] by blast
    obtain bv where bv: "bson_iter_value it1 = Some (Some bv)" "denotes v bv" using elem_at_value [OF n(2)] by blast
    have sub: "\<exists>it2. bson_iter_recurse it1 = Some (Some it2) \<and> yields it2 sub" if v: "v = VDocument sub \<or> v = VArray sub" for sub
    proof -
      obtain it2 where it2: "bson_iter_recurse it1 = Some (Some it2)" "reads_at it2 sub" using elem_at_recurse [OF n(2) v] by blast
      have "elems_size sub < elems_size es" using v elems_size_simps(2,3) [of sub k es'] unfolding es by blast
      from less.IH [OF this it2(2)] it2(1) show ?thesis by blast
    qed
    have scope: "\<exists>it2. bson_iter_init_from_data z m = Some (True, it2) \<and> yields it2 sub"
      if v: "v = VCodeWScope c sub" "bv = BV_CodeWScope y i z m" for c sub y i z m
    proof -
      obtain it2 where it2: "bson_iter_init_from_data z m = Some (True, it2)" "reads_at it2 sub"
        using elem_at_scope [of it1 k c sub y i z m] n(2) bv(1) unfolding v by blast
      have "elems_size sub < elems_size es" unfolding es v by (rule elems_size_simps)
      from less.IH [OF this it2(2)] it2(1) show ?thesis by blast
    qed
    have "yields it1 es'" using less.IH [OF _ n(3)] elems_size_simps(1) [of es' k v] unfolding es by blast
    show ?thesis unfolding es
    proof (rule element [OF nx x elem_at_key(3) [OF n(2)] bv _ _ \<open>yields it1 es'\<close>])
      show "\<forall>sub. v = VDocument sub \<or> v = VArray sub \<longrightarrow> (\<exists>it2. bson_iter_recurse it1 = Some (Some it2) \<and> yields it2 sub)"
        by (intro allI impI) (rule sub)
      show "\<forall>c sub y m z n. v = VCodeWScope c sub \<and> bv = BV_CodeWScope y m z n \<longrightarrow>
          (\<exists>it2. bson_iter_init_from_data z n = Some (True, it2) \<and> yields it2 sub)"
        by (intro allI impI, elim conjE) (rule scope)
    qed
  qed
qed

text \<open>What is met is determined by the memory: two abstract documents that an iterator yields are equal.\<close>

lemma vtype_iff:
  "vtype v = BSON_TYPE_DOUBLE \<longleftrightarrow> (\<exists>x. v = VDouble x)"
  "vtype v = BSON_TYPE_UTF8 \<longleftrightarrow> (\<exists>s. v = VUtf8 s)"
  "vtype v = BSON_TYPE_DOCUMENT \<longleftrightarrow> (\<exists>es. v = VDocument es)"
  "vtype v = BSON_TYPE_ARRAY \<longleftrightarrow> (\<exists>es. v = VArray es)"
  "vtype v = BSON_TYPE_BINARY \<longleftrightarrow> (\<exists>st b. v = VBinary st b)"
  "vtype v = BSON_TYPE_UNDEFINED \<longleftrightarrow> v = VUndefined"
  "vtype v = BSON_TYPE_OID \<longleftrightarrow> (\<exists>i. v = VOid i)"
  "vtype v = BSON_TYPE_BOOL \<longleftrightarrow> (\<exists>b. v = VBool b)"
  "vtype v = BSON_TYPE_DATE_TIME \<longleftrightarrow> (\<exists>x. v = VDateTime x)"
  "vtype v = BSON_TYPE_NULL \<longleftrightarrow> v = VNull"
  "vtype v = BSON_TYPE_REGEX \<longleftrightarrow> (\<exists>r opt. v = VRegex r opt)"
  "vtype v = BSON_TYPE_DBPOINTER \<longleftrightarrow> (\<exists>c i. v = VDBPointer c i)"
  "vtype v = BSON_TYPE_CODE \<longleftrightarrow> (\<exists>c. v = VCode c)"
  "vtype v = BSON_TYPE_SYMBOL \<longleftrightarrow> (\<exists>s. v = VSymbol s)"
  "vtype v = BSON_TYPE_CODEWSCOPE \<longleftrightarrow> (\<exists>c es. v = VCodeWScope c es)"
  "vtype v = BSON_TYPE_INT32 \<longleftrightarrow> (\<exists>x. v = VInt32 x)"
  "vtype v = BSON_TYPE_TIMESTAMP \<longleftrightarrow> (\<exists>t i. v = VTimestamp t i)"
  "vtype v = BSON_TYPE_INT64 \<longleftrightarrow> (\<exists>x. v = VInt64 x)"
  "vtype v = BSON_TYPE_DECIMAL128 \<longleftrightarrow> (\<exists>h l. v = VDecimal128 h l)"
  "vtype v = BSON_TYPE_MAXKEY \<longleftrightarrow> v = VMaxKey"
  "vtype v = BSON_TYPE_MINKEY \<longleftrightarrow> v = VMinKey"
  by (cases v; simp)+

lemma denotes_utf8: "denotes (VUtf8 s) bv \<Longrightarrow> \<exists>x. bv = BV_Utf8 x (length s) \<and> take (length s + 1) x = s @ [0]"
  by (cases bv) simp_all

lemma denotes_symbol: "denotes (VSymbol s) bv \<Longrightarrow> \<exists>x. bv = BV_Symbol x (length s) \<and> take (length s + 1) x = s @ [0]"
  by (cases bv) simp_all

lemma denotes_document: "denotes (VDocument es) bv \<Longrightarrow> \<exists>x. bv = BV_Document x (length (enc_doc es)) \<and> take (length (enc_doc es)) x = enc_doc es"
  by (cases bv) simp_all

lemma denotes_array: "denotes (VArray es) bv \<Longrightarrow> \<exists>x. bv = BV_Array x (length (enc_doc es)) \<and> take (length (enc_doc es)) x = enc_doc es"
  by (cases bv) simp_all

lemma denotes_binary: "denotes (VBinary st b) bv \<Longrightarrow> \<exists>x. bv = BV_Binary st x (length b) \<and> take (length b) x = b"
  by (cases bv) simp_all

lemma denotes_regex: "denotes (VRegex r opt) bv \<Longrightarrow> \<exists>x y. bv = BV_Regex x y \<and> c_string x 0 = Some r \<and> c_string y 0 = Some opt"
  by (cases bv) simp_all

lemma denotes_dbpointer: "denotes (VDBPointer c i) bv \<Longrightarrow> \<exists>x. bv = BV_DBPointer x (length c) i \<and> c_string x 0 = Some c"
  by (cases bv) simp_all

lemma denotes_code: "denotes (VCode c) bv \<Longrightarrow> \<exists>x. bv = BV_Code x (length c) \<and> c_string x 0 = Some c"
  by (cases bv) simp_all

lemma denotes_codewscope: "denotes (VCodeWScope c es) bv \<Longrightarrow> \<exists>x y. bv = BV_CodeWScope x (length c) y (length (enc_doc es)) \<and> c_string x 0 = Some c \<and>
     take (length (enc_doc es)) y = enc_doc es"
  by (cases bv) simp_all

lemmas denotesD = denotes_utf8 denotes_symbol denotes_document denotes_array denotes_binary denotes_regex denotes_dbpointer denotes_code denotes_codewscope

lemma take_text_unique: "take (length s + 1) x = s @ [b] \<Longrightarrow> take (length s' + 1) x = s' @ [b] \<Longrightarrow> length s = length s' \<Longrightarrow> s = s'"
  by (metis append1_eq_conv)

lemma denotes_unique:
  assumes "denotes v bv" "denotes v' bv" "vtype v' = vtype v"
    and "\<And>sub sub'. v = VDocument sub \<and> v' = VDocument sub' \<or> v = VArray sub \<and> v' = VArray sub' \<or>
      (\<exists>c c' y m z n. v = VCodeWScope c sub \<and> v' = VCodeWScope c' sub' \<and> bv = BV_CodeWScope y m z n) \<Longrightarrow> sub = sub'"
  shows "v = v'"
proof (cases v)
  case (VDocument es)
  then obtain es' where "v' = VDocument es'" using assms(3) vtype_iff(3) [of v'] by auto
  with VDocument assms(4) [of es es'] show ?thesis by blast
next
  case (VArray es)
  then obtain es' where "v' = VArray es'" using assms(3) vtype_iff(4) [of v'] by auto
  with VArray assms(4) [of es es'] show ?thesis by blast
next
  case (VCodeWScope c es)
  then obtain y m z n where bv: "bv = BV_CodeWScope y m z n" "c_string y 0 = Some c"
    using assms(1) by (cases bv) auto
  obtain c' es' where v': "v' = VCodeWScope c' es'" using VCodeWScope assms(3) vtype_iff(15) [of v'] by auto
  then have "c' = c" using assms(2) bv by simp
  moreover have "es = es'" using assms(4) [of es es'] VCodeWScope v' bv(1) by blast
  ultimately show ?thesis using VCodeWScope v' by simp
next
  case (VBinary st b)
  then obtain st' b' where v': "v' = VBinary st' b'" using assms(3) vtype_iff(5) [of v'] by auto
  show ?thesis using denotesD(5) [OF assms(1) [unfolded VBinary]] denotesD(5) [OF assms(2) [unfolded v']] unfolding VBinary v' bval.inject
    by (metis bson_value.inject option.inject)
next
  case (VUtf8 s)
  then obtain s' where v': "v' = VUtf8 s'" using assms(3) vtype_iff(2) [of v'] by auto
  show ?thesis using denotesD(1) [OF assms(1) [unfolded VUtf8]] denotesD(1) [OF assms(2) [unfolded v']] unfolding VUtf8 v' bval.inject
    by (elim exE conjE) (rule take_text_unique, assumption, simp_all)
next
  case (VSymbol s)
  then obtain s' where v': "v' = VSymbol s'" using assms(3) vtype_iff(14) [of v'] by auto
  show ?thesis using denotesD(2) [OF assms(1) [unfolded VSymbol]] denotesD(2) [OF assms(2) [unfolded v']] unfolding VSymbol v' bval.inject
    by (elim exE conjE) (rule take_text_unique, assumption, simp_all)
next
  case (VRegex r opt)
  then obtain r' opt' where v': "v' = VRegex r' opt'" using assms(3) vtype_iff(11) [of v'] by auto
  show ?thesis using denotesD(6) [OF assms(1) [unfolded VRegex]] denotesD(6) [OF assms(2) [unfolded v']] unfolding VRegex v' bval.inject
    by (metis bson_value.inject option.inject)
next
  case (VDBPointer c i)
  then obtain c' i' where v': "v' = VDBPointer c' i'" using assms(3) vtype_iff(12) [of v'] by auto
  show ?thesis using denotesD(7) [OF assms(1) [unfolded VDBPointer]] denotesD(7) [OF assms(2) [unfolded v']] unfolding VDBPointer v' bval.inject
    by (metis bson_value.inject option.inject)
next
  case (VCode c)
  then obtain c' where v': "v' = VCode c'" using assms(3) vtype_iff(13) [of v'] by auto
  show ?thesis using denotesD(8) [OF assms(1) [unfolded VCode]] denotesD(8) [OF assms(2) [unfolded v']] unfolding VCode v' bval.inject
    by (metis bson_value.inject option.inject)
qed (use assms(1-3) in \<open>auto simp: vtype_iff\<close>)

lemma yields_unique: "yields it es \<Longrightarrow> yields it es' \<Longrightarrow> es = es'"
proof (induction arbitrary: es' rule: yields.induct)
  case (finished it it1)
  from finished(3) show ?case
  proof cases
    case (element it1' x k v bv es)
    then show ?thesis using finished(1) by simp
  qed simp
next
  case (element it it1 x k v bv es)
  note nx = element.hyps(1) and key = element.hyps(2,3) and ty = element.hyps(4) and val = element.hyps(5,6)
  note sub = element.IH(1) and scope = element.IH(2) and rest = element.IH(3)
  from element.prems show ?case
  proof cases
    case (finished it1')
    then show ?thesis using nx by simp
  next
    case e: (element it1' x' k' v' bv' es2)
    have same: "it1' = it1" using e(2) nx by simp
    have same2: "x' = x" "bv' = bv" "vtype v' = vtype v" using e(3,5,6) key val ty unfolding same by simp_all
    have k: "k' = k" using e(4) key(2) unfolding same2 by simp
    have d: "denotes v' bv" using e(7) unfolding same2 .
    have u: "sub = sub'" if "v = VDocument sub \<and> v' = VDocument sub' \<or> v = VArray sub \<and> v' = VArray sub'" for sub sub'
    proof -
      have v: "v = VDocument sub \<or> v = VArray sub" "v' = VDocument sub' \<or> v' = VArray sub'" using that by blast+
      obtain it2 where 1: "bson_iter_recurse it1 = Some (Some it2)" "\<forall>es'. yields it2 es' \<longrightarrow> sub = es'"
        using sub [THEN spec, THEN mp, OF v(1)] by blast
      obtain it3 where 2: "bson_iter_recurse it1 = Some (Some it3)" "yields it3 sub'"
        using e(8) [THEN spec, THEN mp, OF v(2)] unfolding same by blast
      from 1(1) 2(1) have "it3 = it2" by simp
      with 1(2) 2(2) show ?thesis by simp
    qed
    have u2: "sub = sub'" if v: "v = VCodeWScope c sub" "v' = VCodeWScope c' sub'" "bv = BV_CodeWScope y m z n" for sub sub' c c' y m z n
    proof -
      obtain it2 where 1: "bson_iter_init_from_data z n = Some (True, it2)" "\<forall>es'. yields it2 es' \<longrightarrow> sub = es'"
        using scope v(1,3) by blast
      obtain it3 where 2: "bson_iter_init_from_data z n = Some (True, it3)" "yields it3 sub'"
        using e(9) v(2,3) unfolding same2 by blast
      from 1(1) 2(1) have "it3 = it2" by simp
      with 1(2) 2(2) show ?thesis by simp
    qed
    have "v = v'" by (rule denotes_unique [OF val(2) d same2(3)]) (use u u2 in blast)
    moreover have "es = es2" by (rule rest) (use e(10) same in simp)
    ultimately show ?thesis using e(1) k by simp
  qed
qed

end
