(* ===== verification/Iter_Find.thy ===== *)
theory Iter_Find
  imports Iter_Read
begin

text \<open>
  The loops over a document: a complete pass, the search for a key and for a dotted path, and overwriting a
  value in place.
\<close>

subsection \<open>A complete pass\<close>

text \<open>
  C2. A document that holds the encoding of the elements \<open>es\<close> is read back exactly: \<^verbatim>\<open>bson_iter_init\<close> succeeds,
  the loop with \<^verbatim>\<open>bson_iter_next\<close> meets the elements of \<open>es\<close> in order (keys, types, values, and the same
  for nested documents with \<^verbatim>\<open>bson_iter_recurse\<close> and for scopes), it ends without an error, and no other list of
  elements could be met.
\<close>

theorem iterate_reads_document:
  assumes "rep H a es" "wf_elems es" "length (enc_doc es) \<le> INT_MAX"
  shows "\<exists>it. bson_iter_init H a = Some (True, it) \<and> (\<forall>es'. yields it es' \<longleftrightarrow> es' = es)"
  using init_reads [OF assms] reads_yields yields_unique by blast

lemma iterate_reads_document_witness:
  "\<exists>it. bson_iter_init two_heap 0 = Some (True, it) \<and> (\<forall>es'. yields it es' \<longleftrightarrow> es' = [])"
  by (rule iterate_reads_document [OF two_heap_rep]) (simp_all add: enc_doc_Nil)

subsection \<open>Searching\<close>

lemma elem_at_matches:
  assumes "elem_at it k v" "n \<le> length key" "no_nul key"
  shows "key_matches key n it = Some (k = take n key)"
proof -
  obtain raw where r: "i_raw it = Some raw" "c_string raw (i_key it) = Some k" using elem_at_key(2) [OF assms(1)] by blast
  have nz: "i_key it + length k < length raw" by (rule c_string_bound [OF r(2)])
  have e: "at raw (i_key it) (k @ [0])" "no_nul k" using assms(1) r(1) by (auto simp: elem_at_def)
  show ?thesis
  proof (cases "take n key = take n k")
    case True
    then have n: "n \<le> length k" using assms(2) by (metis length_take min.absorb2 min.cobounded1)
    have "raw ! (i_key it + n) = 0 \<longleftrightarrow> n = length k"
    proof
      assume z: "raw ! (i_key it + n) = 0"
      show "n = length k"
      proof (rule ccontr)
        assume "n \<noteq> length k"
        then have "raw ! (i_key it + n) \<noteq> 0" using at_no_nul [of raw "i_key it" k "i_key it + n"] e n by simp
        with z show False by simp
      qed
    qed (use e(1) in simp)
    moreover have "rd8 raw (i_key it + n) = Some (raw ! (i_key it + n))" using n nz by (intro rd8_eq) linarith
    moreover have "n = length k \<longleftrightarrow> k = take n key" using True n assms(2) by (metis length_take min.absorb2 take_all_iff)
    ultimately show ?thesis using r True by (simp add: key_matches_def)
  next
    case False
    then have "k \<noteq> take n key" by (metis take_take min.idem)
    then show ?thesis using r False by (simp add: key_matches_def)
  qed
qed

text \<open>A search with a test that depends on the key alone finds the first element that passes it.\<close>

lemma find_loop_first:
  assumes "\<And>it k v. elem_at it k v \<Longrightarrow> test it = Some (f k)"
  shows "reads_at it es \<Longrightarrow> (case find (\<lambda>(k, v). f k) es of
       None \<Rightarrow> \<exists>it1. find_loop test it = Some (False, it1) \<and> i_raw it1 = None
     | Some (k, v) \<Rightarrow> \<exists>it1. find_loop test it = Some (True, it1) \<and> elem_at it1 k v)"
proof (induction es arbitrary: it)
  case Nil
  obtain it1 where "bson_iter_next_internal it = Some (False, BSON_TYPE_EOD, False, it1)" "i_raw it1 = None"
    using next_end [OF Nil] by blast
  then show ?case by (simp add: find_loop.simps [of test it] bson_iter_next_def)
next
  case (Cons kv es)
  obtain k v where kv: "kv = (k, v)" by (cases kv)
  obtain it1 where n: "bson_iter_next_internal it = Some (True, vtype v, False, it1)" "elem_at it1 k v" "reads_at it1 es"
    using next_elem Cons.prems unfolding kv by blast
  have l: "find_loop test it = (if f k then Some (True, it1) else find_loop test it1)"
    using n(1) assms [OF n(2)] by (simp add: find_loop.simps [of test it] bson_iter_next_def)
  show ?case
  proof (cases "f k")
    case True
    then show ?thesis using l n(2) kv by auto
  next
    case False
    then have eq: "find_loop test it = find_loop test it1" "find (\<lambda>(k, v). f k) (kv # es) = find (\<lambda>(k, v). f k) es"
      using l kv by simp_all
    show ?thesis using Cons.IH [OF n(3)] unfolding eq .
  qed
qed

lemma find_map_of: "find (\<lambda>(k, v). k = key) es = map_option (Pair key) (map_of es key)"
  by (induction es) auto

lemma find_first:
  assumes "reads_at it es" "c_string kp 0 = Some key" "n \<le> length key" "0 < n"
  shows "case map_of es (take n key) of
      None \<Rightarrow> \<exists>it1. bson_iter_find_with_len it kp (int n) = Some (False, it1) \<and> i_raw it1 = None
    | Some v \<Rightarrow> \<exists>it1. bson_iter_find_with_len it kp (int n) = Some (True, it1) \<and> elem_at it1 (take n key) v"
proof -
  have f: "bson_iter_find_with_len it kp (int n) = find_loop (key_matches key n) it"
    using assms(2,4) by (simp add: bson_iter_find_with_len_def)
  have "no_nul key" using assms(2) by (rule c_string_no_nul)
  then have t: "elem_at it1 k v \<Longrightarrow> key_matches key n it1 = Some (k = take n key)" for it1 k v
    using elem_at_matches assms(3) by blast
  have "case find (\<lambda>(k, v). k = take n key) es of
       None \<Rightarrow> \<exists>it1. find_loop (key_matches key n) it = Some (False, it1) \<and> i_raw it1 = None
     | Some (k, v) \<Rightarrow> \<exists>it1. find_loop (key_matches key n) it = Some (True, it1) \<and> elem_at it1 k v"
    by (rule find_loop_first [OF _ assms(1)]) (rule t)
  then show ?thesis unfolding f find_map_of by (cases "map_of es (take n key)") simp_all
qed


definition stands_on :: "bson_iter \<Rightarrow> bytes \<Rightarrow> bval \<Rightarrow> bool" where
  "stands_on it k v \<longleftrightarrow> bson_iter_type it = Some (vtype v) \<and> (\<exists>x. bson_iter_key it = Some x \<and> c_string x 0 = Some k) \<and>
     (\<exists>bv. bson_iter_value it = Some (Some bv) \<and> denotes v bv)"

lemma elem_at_stands: "elem_at it k v \<Longrightarrow> stands_on it k v"
  using elem_at_key elem_at_value by (simp add: stands_on_def)

lemma find_minus:
  assumes "c_string kp 0 = Some key"
  shows "bson_iter_find it kp = find_loop (key_matches key (length key)) it"
  using assms by (simp add: bson_iter_find_def bson_iter_find_with_len_def)

lemma find_any:
  assumes "reads_at it es" "c_string kp 0 = Some key"
  shows "case map_of es key of
      None \<Rightarrow> \<exists>it1. bson_iter_find it kp = Some (False, it1) \<and> i_raw it1 = None
    | Some v \<Rightarrow> \<exists>it1. bson_iter_find it kp = Some (True, it1) \<and> elem_at it1 key v"
proof -
  have "no_nul key" using assms(2) by (rule c_string_no_nul)
  then have t: "elem_at it1 k v \<Longrightarrow> key_matches key (length key) it1 = Some (k = key)" for it1 k v
    using elem_at_matches [of it1 k v "length key" key] by simp
  have "case find (\<lambda>(k, v). k = key) es of
       None \<Rightarrow> \<exists>it1. find_loop (key_matches key (length key)) it = Some (False, it1) \<and> i_raw it1 = None
     | Some (k, v) \<Rightarrow> \<exists>it1. find_loop (key_matches key (length key)) it = Some (True, it1) \<and> elem_at it1 k v"
    by (rule find_loop_first [OF _ assms(1)]) (rule t)
  then show ?thesis unfolding find_minus [OF assms(2)] find_map_of by (cases "map_of es key") simp_all
qed

lemma find_case_any:
  assumes "reads_at it es" "c_string kp 0 = Some key"
  shows "case find (\<lambda>(k, v). map c_tolower key = map c_tolower k) es of
      None \<Rightarrow> \<exists>it1. bson_iter_find_case it kp = Some (False, it1) \<and> i_raw it1 = None
    | Some (k, v) \<Rightarrow> \<exists>it1. bson_iter_find_case it kp = Some (True, it1) \<and> elem_at it1 k v"
proof -
  let ?t = "\<lambda>it1. do { raw \<leftarrow> i_raw it1; ik \<leftarrow> c_string raw (i_key it1); Some (map c_tolower key = map c_tolower ik) }"
  have t: "?t it1 = Some (map c_tolower key = map c_tolower k)" if "elem_at it1 k v" for it1 k v
    using elem_at_key(2) [OF that] by auto
  have f: "bson_iter_find_case it kp = find_loop ?t it" using assms(2) by (simp add: bson_iter_find_case_def)
  show ?thesis unfolding f by (rule find_loop_first [OF _ assms(1)]) (rule t)
qed

text \<open>
  C29. \<^verbatim>\<open>bson_iter_find\<close> returns true exactly if the document has an element with the key, and
  the iterator then stands on the first such element (its key and its value are read there); otherwise
  the iterator is finished. \<^verbatim>\<open>bson_iter_find_case\<close> finds the first key equal up to ASCII case.
\<close>

theorem find_first_match:
  assumes "reads_at it es" "c_string kp 0 = Some key"
  shows "(case map_of es key of
      None \<Rightarrow> \<exists>it1. bson_iter_find it kp = Some (False, it1) \<and> i_raw it1 = None
    | Some v \<Rightarrow> \<exists>it1. bson_iter_find it kp = Some (True, it1) \<and> stands_on it1 key v) \<and>
   (case find (\<lambda>(k, v). map c_tolower key = map c_tolower k) es of
      None \<Rightarrow> \<exists>it1. bson_iter_find_case it kp = Some (False, it1) \<and> i_raw it1 = None
    | Some (k, v) \<Rightarrow> \<exists>it1. bson_iter_find_case it kp = Some (True, it1) \<and> stands_on it1 k v)"
  using find_any [OF assms] find_case_any [OF assms] elem_at_stands by (auto split: option.splits)

lemma empty_reads: "reads_at (start_iter (enc_doc []) (length (enc_doc []))) []"
  by (rule start_reads) (simp_all add: at_def enc_doc_Nil)

lemma find_first_match_witness:
  "\<exists>it1. bson_iter_find (start_iter (enc_doc []) (length (enc_doc []))) [0x61, 0] = Some (False, it1)"
  using find_first_match [OF empty_reads, of "[0x61, 0]" "[0x61]"] by (auto simp: c_string_def)

subsection \<open>Dotted paths\<close>

text \<open>The value at a path of keys: every key but the last must name a document or an array.\<close>

fun lookup_path :: "elems \<Rightarrow> bytes list \<Rightarrow> (bytes \<times> bval) option" where
  "lookup_path es [] = None"
| "lookup_path es [k] = (if k = [] then None else map_option (Pair k) (map_of es k))"
| "lookup_path es (k # k2 # ks) = (if k = [] then None else
     (case map_of es k of
        Some (VDocument sub) \<Rightarrow> lookup_path sub (k2 # ks)
      | Some (VArray sub) \<Rightarrow> lookup_path sub (k2 # ks)
      | _ \<Rightarrow> None))"

fun dotted :: "bytes list \<Rightarrow> bytes" where
  "dotted [] = []"
| "dotted [k] = k"
| "dotted (k # k2 # ks) = k @ [0x2E] @ dotted (k2 # ks)"

lemma takeWhile_dot: "0x2E \<notin> set k \<Longrightarrow> takeWhile (\<lambda>c. c \<noteq> 0x2E) (k @ 0x2E # r) = k"
  by (induction k) auto

lemma no_nul_dotted: "\<forall>k \<in> set ks. no_nul k \<Longrightarrow> no_nul (dotted ks)"
  by (induction ks rule: dotted.induct) auto

lemma recurse_other:
  assumes "elem_at it k v" "\<forall>es. v \<noteq> VDocument es \<and> v \<noteq> VArray es"
  shows "bson_iter_recurse it = Some None"
proof -
  have "ITER_TYPE it = Some (vtype v)" using assms(1) on_element_type unfolding elem_at_def by blast
  moreover have "vtype v \<noteq> BSON_TYPE_DOCUMENT" "vtype v \<noteq> BSON_TYPE_ARRAY" using assms(2) vtype_iff(3,4) [of v] by blast+
  ultimately show ?thesis by (simp add: bson_iter_recurse_def)
qed

lemma find_descendant_ok:
  assumes "\<forall>k \<in> set ks. no_nul k \<and> 0x2E \<notin> set k" "ks \<noteq> []"
  shows "reads_at it es \<Longrightarrow> (case lookup_path es ks of
      None \<Rightarrow> bson_iter_find_descendant it (dotted ks) = Some None
    | Some (k, v) \<Rightarrow> \<exists>it1. bson_iter_find_descendant it (dotted ks) = Some (Some it1) \<and> elem_at it1 k v)"
  using assms
proof (induction ks arbitrary: it es rule: dotted.induct)
  case (2 k)
  have sub: "takeWhile (\<lambda>c. c \<noteq> 0x2E) k = k" using 2 by (auto simp: takeWhile_eq_all_conv)
  show ?case
  proof (cases "k = []")
    case True
    then show ?thesis by (simp add: bson_iter_find_descendant.simps [of it] bson_iter_find_with_len_def)
  next
    case False
    have "no_nul k" using 2 by simp
    then have c: "c_string (k @ [0]) 0 = Some k" by (rule c_string_whole)
    note f = find_first [OF 2(1) c order_refl] False
    have eq: "bson_iter_find_descendant it k =
      (case bson_iter_find_with_len it (k @ [0]) (int (length k)) of
           None \<Rightarrow> None
         | Some (found, it1) \<Rightarrow> if \<not> found then Some None else Some (Some it1))"
      unfolding bson_iter_find_descendant.simps [of it] Let_def sub by (simp split: option.split)
    show ?thesis
    proof (cases "map_of es k")
      case None
      then show ?thesis using f unfolding dotted.simps eq by auto
    next
      case (Some v)
      then show ?thesis using f unfolding dotted.simps eq by auto
    qed
  qed
next
  case (3 k k2 ks)
  let ?d = "dotted (k # k2 # ks)"
  have sub: "takeWhile (\<lambda>c. c \<noteq> 0x2E) ?d = k" using 3(3) by (simp add: takeWhile_dot)
  have rest: "drop (length k + 1) ?d = dotted (k2 # ks)" "length k < length ?d" by simp_all
  show ?case
  proof (cases "k = []")
    case True
    then show ?thesis using sub by (simp add: bson_iter_find_descendant.simps [of it] bson_iter_find_with_len_def)
  next
    case False
    have "no_nul ?d" using no_nul_dotted [of "k # k2 # ks"] 3(3) by auto
    then have c: "c_string (?d @ [0]) 0 = Some ?d" by (rule c_string_whole)
    have n: "length k \<le> length ?d" "0 < length k" using False by simp_all
    have tk: "take (length k) ?d = k" by simp
    note f = find_first [OF 3(2) c n, unfolded tk]
    have eq: "bson_iter_find_descendant it ?d =
      (case bson_iter_find_with_len it (?d @ [0]) (int (length k)) of
           None \<Rightarrow> None
         | Some (found, it1) \<Rightarrow>
             if \<not> found then Some None
             else (case bson_iter_recurse it1 of
                     None \<Rightarrow> None
                   | Some None \<Rightarrow> Some None
                   | Some (Some tmp) \<Rightarrow> bson_iter_find_descendant tmp (dotted (k2 # ks))))"
      unfolding bson_iter_find_descendant.simps [of it] Let_def sub rest(1)
      by (simp only: rest(2) not_True_eq_False if_False)
    show ?thesis
    proof (cases "map_of es k")
      case None
      then show ?thesis using f False unfolding eq by auto
    next
      case (Some v)
      then obtain it1 where it1: "bson_iter_find_with_len it (?d @ [0]) (int (length k)) = Some (True, it1)" "elem_at it1 k v"
        using f by auto
      show ?thesis
      proof (cases "\<exists>sub. v = VDocument sub \<or> v = VArray sub")
        case True
        then obtain sub where v: "v = VDocument sub \<or> v = VArray sub" by blast
        then obtain it2 where it2: "bson_iter_recurse it1 = Some (Some it2)" "reads_at it2 sub"
          using elem_at_recurse [OF it1(2) v] by blast
        have l: "lookup_path es (k # k2 # ks) = lookup_path sub (k2 # ks)" using Some v False by auto
        have d: "bson_iter_find_descendant it ?d = bson_iter_find_descendant it2 (dotted (k2 # ks))"
          unfolding eq it1(1) by (simp add: it2(1))
        have "case lookup_path sub (k2 # ks) of
            None \<Rightarrow> bson_iter_find_descendant it2 (dotted (k2 # ks)) = Some None
          | Some (k, v) \<Rightarrow> \<exists>it1. bson_iter_find_descendant it2 (dotted (k2 # ks)) = Some (Some it1) \<and> elem_at it1 k v"
          by (rule "3.IH" [OF it2(2)]) (use 3(3) in auto)
        then show ?thesis unfolding d l .
      next
        case other: False
        then have "bson_iter_recurse it1 = Some None" by (intro recurse_other [OF it1(2)]) blast
        moreover have "lookup_path es (k # k2 # ks) = None" using Some other False by (cases v) auto
        ultimately show ?thesis unfolding eq it1(1) by simp
      qed
    qed
  qed
qed simp


text \<open>
  C20. \<^verbatim>\<open>bson_iter_find_descendant\<close> follows a dotted path: it finds a value exactly if every key but the last names a
  document or an array (the first element with that key), no key of the path is empty, and the last key
  is there; the iterator it returns stands on that element.
\<close>

theorem find_descendant_path:
  assumes "reads_at it es" "ks \<noteq> []" "\<forall>k \<in> set ks. no_nul k \<and> 0x2E \<notin> set k"
  shows "case lookup_path es ks of
      None \<Rightarrow> bson_iter_find_descendant it (dotted ks) = Some None
    | Some (k, v) \<Rightarrow> \<exists>it1. bson_iter_find_descendant it (dotted ks) = Some (Some it1) \<and> stands_on it1 k v"
  using find_descendant_ok [OF assms(3,2,1)] elem_at_stands by (auto split: option.splits)

definition nested_sample :: elems where
  "nested_sample = [([0x61], VDocument [([0x62], VInt32 7)])]"

lemma nested_sample_reads: "reads_at (start_iter (enc_doc nested_sample) (length (enc_doc nested_sample))) nested_sample"
  by (rule start_reads) (simp_all add: nested_sample_def at_def enc_simps)

lemma find_descendant_path_witness:
  "\<exists>it1. bson_iter_find_descendant (start_iter (enc_doc nested_sample) (length (enc_doc nested_sample))) [0x61, 0x2E, 0x62] =
       Some (Some it1) \<and> stands_on it1 [0x62] (VInt32 7)"
  using find_descendant_path [OF nested_sample_reads, of "[[0x61], [0x62]]"] by (simp add: nested_sample_def)


subsection \<open>Overwriting a value\<close>

text \<open>Where the search stops.\<close>

lemma find_position:
  assumes "\<And>it k v. elem_at it k v \<Longrightarrow> test it = Some (f k)" "f k"
  shows "reads_at it (es1 @ (k, v) # es2) \<Longrightarrow> \<forall>(k', v') \<in> set es1. \<not> f k' \<Longrightarrow>
    \<exists>it1. find_loop test it = Some (True, it1) \<and> elem_at it1 k v \<and> i_raw it1 = i_raw it \<and>
      i_off it1 = i_next_off it + length (enc_elems es1)"
proof (induction es1 arbitrary: it)
  case Nil
  obtain it1 where n: "bson_iter_next_internal it = Some (True, vtype v, False, it1)" "elem_at it1 k v" "i_raw it1 = i_raw it"
      "i_off it1 = i_next_off it"
    using next_elem [of it k v es2] Nil(1) by auto
  have "find_loop test it = Some (True, it1)"
    using n(1) assms(1) [OF n(2)] assms(2) by (simp add: find_loop.simps [of test it] bson_iter_next_def)
  with n show ?case by simp
next
  case (Cons kv es1)
  obtain k' v' where kv: "kv = (k', v')" by (cases kv)
  have f: "\<not> f k'" "\<forall>(k', v') \<in> set es1. \<not> f k'" using Cons.prems(2) unfolding kv by auto
  obtain it1 where n: "bson_iter_next_internal it = Some (True, vtype v', False, it1)" "elem_at it1 k' v'"
      "reads_at it1 (es1 @ (k, v) # es2)" "i_raw it1 = i_raw it" "i_next_off it1 = i_next_off it + length (enc_elem k' v')"
    using next_elem [of it k' v' "es1 @ (k, v) # es2"] Cons.prems(1) unfolding kv by auto
  have "find_loop test it = find_loop test it1"
    using n(1) assms(1) [OF n(2)] f(1) by (simp add: find_loop.simps [of test it] bson_iter_next_def)
  moreover have "length (enc_elems (kv # es1)) = length (enc_elem k' v') + length (enc_elems es1)"
    unfolding kv enc_elems_Cons by (rule length_append)
  ultimately show ?case using Cons.IH [OF n(3) f(2)] n(4,5) by auto
qed

lemma at_patch:
  assumes "at raw i xs" "length ys = length xs"
  shows "mem_write raw i ys = Some (take i raw @ ys @ drop (i + length xs) raw)"
  using at_length [OF assms(1)] assms(2) by (simp add: mem_write_def)

text \<open>Writing another value of the same type and length at the place of the value.\<close>

lemma write_element:
  assumes el: "elem_at it k v" and raw: "i_raw it = Some (pre @ enc_elem k v @ post)" and off: "i_off it = length pre"
    and len: "length (enc_val v') = length (enc_val v)" "enc_val v \<noteq> []" and ty: "vtype v' = vtype v" and nd: "\<not> no_data (vtype v)"
  shows "\<exists>it1. iter_write it (enc_val v') = Some it1 \<and> i_raw it1 = Some (pre @ enc_elem k v' @ post)"
proof -
  have d: "i_d1 it = length (pre @ [vtype v] @ k @ [0])" using el nd off unfolding elem_at_def by auto
  have r: "pre @ enc_elem k v @ post = (pre @ [vtype v] @ k @ [0]) @ enc_val v @ post" by (simp add: enc_elem_def)
  have "mem_write ((pre @ [vtype v] @ k @ [0]) @ enc_val v @ post) (length (pre @ [vtype v] @ k @ [0])) (enc_val v') =
      Some ((pre @ [vtype v] @ k @ [0]) @ enc_val v' @ post)"
    by (rule mem_write_append) (simp_all add: len)
  then have "iter_write it (enc_val v') = Some (it\<lparr>i_raw := Some ((pre @ [vtype v] @ k @ [0]) @ enc_val v' @ post)\<rparr>)"
    unfolding iter_write_def raw Option.bind.simps r d by simp
  then show ?thesis using ty by (simp add: enc_elem_def)
qed

text \<open>The overwriting functions write the encoding of the new value if the type is theirs.\<close>

lemma overwrite_calls:
  assumes "elem_at it k v"
  shows "v = VInt32 x \<Longrightarrow> bson_iter_overwrite_int32 it y = iter_write it (enc_val (VInt32 y))"
    "v = VInt64 x2 \<Longrightarrow> bson_iter_overwrite_int64 it y2 = iter_write it (enc_val (VInt64 y2))"
    "v = VDouble x2 \<Longrightarrow> bson_iter_overwrite_double it y2 = iter_write it (enc_val (VDouble y2))"
    "v = VBool b \<Longrightarrow> bson_iter_overwrite_bool it c = iter_write it (enc_val (VBool c))"
    "v = VDecimal128 h l \<Longrightarrow> bson_iter_overwrite_decimal128 it (h2, l2) = iter_write it (enc_val (VDecimal128 h2 l2))"
    "vtype v \<noteq> BSON_TYPE_INT32 \<Longrightarrow> bson_iter_overwrite_int32 it y = Some it"
proof -
  have "ITER_TYPE it = Some (vtype v)" using assms on_element_type unfolding elem_at_def by blast
  then show "v = VInt32 x \<Longrightarrow> bson_iter_overwrite_int32 it y = iter_write it (enc_val (VInt32 y))"
    "v = VInt64 x2 \<Longrightarrow> bson_iter_overwrite_int64 it y2 = iter_write it (enc_val (VInt64 y2))"
    "v = VDouble x2 \<Longrightarrow> bson_iter_overwrite_double it y2 = iter_write it (enc_val (VDouble y2))"
    "v = VBool b \<Longrightarrow> bson_iter_overwrite_bool it c = iter_write it (enc_val (VBool c))"
    "v = VDecimal128 h l \<Longrightarrow> bson_iter_overwrite_decimal128 it (h2, l2) = iter_write it (enc_val (VDecimal128 h2 l2))"
    "vtype v \<noteq> BSON_TYPE_INT32 \<Longrightarrow> bson_iter_overwrite_int32 it y = Some it"
    by (simp_all add: bson_iter_overwrite_int32_def bson_iter_overwrite_int64_def bson_iter_overwrite_double_def
        bson_iter_overwrite_bool_def bson_iter_overwrite_decimal128_def)
qed

text \<open>
  The value a search has found, overwritten. \<open>overwrite it v\<close> is the function for the type of the new value.
\<close>

fun overwrite :: "bson_iter \<Rightarrow> bval \<Rightarrow> bson_iter option" where
  "overwrite it (VInt32 x) = bson_iter_overwrite_int32 it x"
| "overwrite it (VInt64 x) = bson_iter_overwrite_int64 it x"
| "overwrite it (VDouble x) = bson_iter_overwrite_double it x"
| "overwrite it (VBool b) = bson_iter_overwrite_bool it b"
| "overwrite it (VDecimal128 h l) = bson_iter_overwrite_decimal128 it (h, l)"
| "overwrite it _ = None"

definition fixed_size :: "bval \<Rightarrow> bool" where
  "fixed_size v \<longleftrightarrow> vtype v \<in> {BSON_TYPE_INT32, BSON_TYPE_INT64, BSON_TYPE_DOUBLE, BSON_TYPE_BOOL, BSON_TYPE_DECIMAL128}"

lemma le_not_Nil: "le32 n \<noteq> []" "le64 n \<noteq> []"
  by (simp_all only: length_greater_0_conv [symmetric] length_le zero_less_numeral)

lemma fixed_size_length:
  assumes "fixed_size v" "vtype v' = vtype v"
  shows "length (enc_val v') = length (enc_val v)"
proof -
  have "vtype v' \<in> {BSON_TYPE_INT32, BSON_TYPE_INT64, BSON_TYPE_DOUBLE, BSON_TYPE_BOOL, BSON_TYPE_DECIMAL128}"
    using assms by (simp add: fixed_size_def)
  moreover have "length (enc_val w) = (if vtype w = BSON_TYPE_INT32 then 4 else if vtype w = BSON_TYPE_BOOL then 1
      else if vtype w = BSON_TYPE_DECIMAL128 then 16 else 8)" if "fixed_size w" for w
    using that by (cases w) (simp_all add: fixed_size_def)
  ultimately show ?thesis using assms by (simp add: fixed_size_def)
qed

lemma overwrite_ok:
  assumes el: "elem_at it k v" and raw: "i_raw it = Some (pre @ enc_elem k v @ post)" and off: "i_off it = length pre"
    and v: "fixed_size v" "vtype v' = vtype v"
  shows "\<exists>it1. overwrite it v' = Some it1 \<and> i_raw it1 = Some (pre @ enc_elem k v' @ post)"
proof -
  have pair: "vtype v' = t \<Longrightarrow> vtype v = t \<Longrightarrow> t \<in> {BSON_TYPE_INT32, BSON_TYPE_INT64, BSON_TYPE_DOUBLE, BSON_TYPE_BOOL, BSON_TYPE_DECIMAL128} \<Longrightarrow>
     overwrite it v' = iter_write it (enc_val v') \<and> length (enc_val v') = length (enc_val v) \<and> enc_val v \<noteq> [] \<and> \<not> no_data (vtype v)" for t
    unfolding insert_iff empty_iff
  proof (elim disjE)
    assume t: "vtype v' = t" "vtype v = t" "t = BSON_TYPE_INT32"
    then obtain x y where "v = VInt32 x" "v' = VInt32 y" using vtype_iff(16) by metis
    then show ?thesis using overwrite_calls(1) [OF el] by (simp add: no_data_def le_not_Nil)
  next
    assume t: "vtype v' = t" "vtype v = t" "t = BSON_TYPE_INT64"
    then obtain x y where "v = VInt64 x" "v' = VInt64 y" using vtype_iff(18) by metis
    then show ?thesis using overwrite_calls(2) [OF el] by (simp add: no_data_def le_not_Nil)
  next
    assume t: "vtype v' = t" "vtype v = t" "t = BSON_TYPE_DOUBLE"
    then obtain x y where "v = VDouble x" "v' = VDouble y" using vtype_iff(1) by metis
    then show ?thesis using overwrite_calls(3) [OF el] by (simp add: no_data_def le_not_Nil)
  next
    assume t: "vtype v' = t" "vtype v = t" "t = BSON_TYPE_BOOL"
    then obtain x y where "v = VBool x" "v' = VBool y" using vtype_iff(8) by metis
    then show ?thesis using overwrite_calls(4) [OF el] by (auto simp: no_data_def)
  next
    assume t: "vtype v' = t" "vtype v = t" "t = BSON_TYPE_DECIMAL128"
    then obtain h l h2 l2 where "v = VDecimal128 h l" "v' = VDecimal128 h2 l2" using vtype_iff(19) by metis
    then show ?thesis using overwrite_calls(5) [OF el] by (simp add: no_data_def le_not_Nil)
  qed simp
  note p = pair [OF refl v(2) [symmetric]]
  have "overwrite it v' = iter_write it (enc_val v') \<and> length (enc_val v') = length (enc_val v) \<and> enc_val v \<noteq> [] \<and> \<not> no_data (vtype v)"
    by (rule p) (use v in \<open>simp add: fixed_size_def\<close>)
  then show ?thesis using write_element [OF el raw off _ _ v(2)] by simp
qed

text \<open>
  C30. Overwriting in place: after a search has found the first element with a key, the overwriting function
  of its type (32-bit and 64-bit integers, doubles, booleans, decimals) replaces the value and nothing
  else: the buffer then holds the encoding of the same elements with the new value at that place.
\<close>

theorem overwrite_replaces_value:
  assumes "wf_elems (es1 @ (k, v) # es2)" "length (enc_doc (es1 @ (k, v) # es2)) \<le> INT_MAX"
    and "k \<notin> fst ` set es1" "fixed_size v" "vtype v' = vtype v"
  shows "\<exists>it it'. bson_iter_find (start_iter (enc_doc (es1 @ (k, v) # es2)) (length (enc_doc (es1 @ (k, v) # es2)))) (k @ [0]) =
      Some (True, it) \<and> overwrite it v' = Some it' \<and> i_raw it' = Some (enc_doc (es1 @ (k, v') # es2))"
proof -
  let ?es = "es1 @ (k, v) # es2"
  let ?it = "start_iter (enc_doc ?es) (length (enc_doc ?es))"
  have k: "no_nul k" using assms(1) by simp
  have at: "at (enc_doc ?es) 0 (enc_doc ?es)" by (simp add: at_def)
  have t: "key_matches k (length k) it1 = Some (k' = k)" if "elem_at it1 k' v1" for it1 k' v1
    using elem_at_matches [OF that order_refl k] by simp
  have pos: "\<exists>it1. find_loop (key_matches k (length k)) ?it = Some (True, it1) \<and> elem_at it1 k v \<and> i_raw it1 = i_raw ?it \<and>
      i_off it1 = i_next_off ?it + length (enc_elems es1)"
    by (rule find_position [OF _ refl start_reads [OF assms(1,2) at]], rule t, assumption) (use assms(3) in force)
  obtain it where it: "find_loop (key_matches k (length k)) ?it = Some (True, it)" "elem_at it k v" "i_raw it = i_raw ?it"
      "i_off it = i_next_off ?it + length (enc_elems es1)"
    using pos by blast
  define n where "n = length (enc_elems ?es) + 5"
  define pre post where "pre = le32 n @ enc_elems es1" and "post = enc_elems es2 @ [0 :: u8]"
  have doc: "enc_doc ?es = pre @ enc_elem k v @ post"
    by (simp add: enc_doc_def frame_doc_def n_def pre_def post_def enc_elem_def)
  have raw: "i_raw it = Some (pre @ enc_elem k v @ post)" "i_off it = length pre"
    using it(3,4) unfolding doc by (simp_all add: start_iter_def pre_def)
  obtain it' where w: "overwrite it v' = Some it'" "i_raw it' = Some (pre @ enc_elem k v' @ post)"
    using overwrite_ok [OF it(2) raw assms(4,5)] by blast
  have "length (enc_elem k v') = length (enc_elem k v)"
    using fixed_size_length [OF assms(4,5)] by (simp add: length_enc_elem)
  then have "enc_doc (es1 @ (k, v') # es2) = pre @ enc_elem k v' @ post"
    by (simp add: enc_doc_def frame_doc_def n_def pre_def post_def enc_elem_def)
  with w it(1) show ?thesis using find_minus [OF c_string_whole [OF k]] by metis
qed

lemma overwrite_replaces_value_witness:
  "\<exists>it it'. bson_iter_find (start_iter (enc_doc ([] @ ([0x61], VInt32 1) # [])) (length (enc_doc ([] @ ([0x61], VInt32 1) # [])))) ([0x61] @ [0]) =
      Some (True, it) \<and> overwrite it (VInt32 2) = Some it' \<and> i_raw it' = Some (enc_doc ([] @ ([0x61], VInt32 2) # []))"
  by (rule overwrite_replaces_value) (simp_all add: fixed_size_def enc_simps)

subsection \<open>Dates before 1970\<close>

text \<open>
  C37. \<^verbatim>\<open>bson_append_time_t\<close> stores seconds as milliseconds, and \<^verbatim>\<open>bson_iter_time_t\<close> reads them back for dates from
  1970 on; for every earlier date (a negative number of milliseconds) it answers a positive number, since
  the divisor \<^verbatim>\<open>1000UL\<close> makes the division unsigned, while \<^verbatim>\<open>bson_iter_timeval\<close> divides by the signed \<^verbatim>\<open>1000\<close>.
\<close>

theorem time_t_before_1970:
  assumes "elem_at it k (VDateTime x)"
  shows "(0 \<le> sint x \<longrightarrow> bson_iter_time_t it = Some (word_of_int (sint x div 1000))) \<and>
    (sint x < 0 \<longrightarrow> (\<exists>y. bson_iter_time_t it = Some y \<and> 0 < sint y)) \<and>
    bson_iter_timeval it = Some (word_of_int (sint x sdiv 1000), word_of_int (sint x smod 1000 * 1000))"
proof -
  obtain raw p where e: "i_raw it = Some raw" "on_element raw (i_len it) BSON_TYPE_DATE_TIME it" "i_d1 it = p"
      "at raw p (le64 (unat x))" "p + 8 < i_len it"
    using assms unfolding elem_at_def by (auto simp: no_data_def)
  have ty: "ITER_TYPE it = Some BSON_TYPE_DATE_TIME" using on_element_type [OF e(2)] .
  have rd: "iter_rd64 it (i_d1 it) = Some (unat x)"
    using iter_reads(2) [OF e(1), of p] at_length [OF e(4)] at_u64 [OF e(4)] e(3) by simp
  have t: "bson_iter_time_t it = Some (x div 1000)" using ty rd by (simp add: bson_iter_time_t_def)
  have v: "bson_iter_timeval it = Some (word_of_int (sint x sdiv 1000), word_of_int (sint x smod 1000 * 1000))"
    using ty rd by (simp add: bson_iter_timeval_def Let_def)
  have s: "sint y = uint y - (if sint y < 0 then 2 ^ 64 else 0)" "- (2 ^ 63) \<le> sint y" for y :: u64
  proof -
    have b: "- (2 ^ 63) \<le> sint y" "sint y < 2 ^ 63" using sint_ge [of y] sint_lt [of y] by simp_all
    have "uint y = sint y mod 2 ^ 64" by (simp add: uint_sint take_bit_eq_mod)
    also have "\<dots> = (if sint y < 0 then sint y + 2 ^ 64 else sint y)"
    proof (cases "sint y < 0")
      case True
      have "sint y mod 2 ^ 64 = (sint y + 2 ^ 64) mod 2 ^ 64" by (rule mod_add_self2 [symmetric])
      also have "\<dots> = sint y + 2 ^ 64" using b True by (intro mod_pos_pos_trivial) simp_all
      finally show ?thesis using True by simp
    next
      case False
      then show ?thesis using b by (simp add: mod_pos_pos_trivial)
    qed
    finally show "sint y = uint y - (if sint y < 0 then 2 ^ 64 else 0)" by simp
    show "- (2 ^ 63) \<le> sint y" by (rule b)
  qed
  have d: "uint (x div 1000) = uint x div 1000" by (simp add: uint_div)
  show ?thesis
  proof (intro conjI impI)
    assume "0 \<le> sint x"
    then have "uint x = sint x" using s(1) [of x] by simp
    then show "bson_iter_time_t it = Some (word_of_int (sint x div 1000))" unfolding t by (simp add: word_div_def)
  next
    assume "sint x < 0"
    then have "2 ^ 63 \<le> uint x" using s [of x] by simp
    moreover have "uint x < 2 ^ 64" using uint_lt2p [of x] by simp
    ultimately have "0 < uint (x div 1000)" "uint (x div 1000) < 2 ^ 63" unfolding d by simp_all
    then have "0 < sint (x div 1000)" using s [of "x div 1000"] by (auto split: if_splits)
    then show "\<exists>y. bson_iter_time_t it = Some y \<and> 0 < sint y" using t by blast
  qed (rule v)
qed

definition day_before :: elems where
  "day_before = [([0x61], VDateTime (- 86400000))]"

lemma day_before_reads: "reads_at (start_iter (enc_doc day_before) (length (enc_doc day_before))) day_before"
  by (rule start_reads) (simp_all add: day_before_def at_def enc_simps)

lemma time_t_before_1970_witness:
  "\<exists>it y. bson_iter_next (start_iter (enc_doc day_before) (length (enc_doc day_before))) = Some (True, it) \<and>
     bson_iter_time_t it = Some y \<and> 0 < sint y"
proof -
  obtain it where n: "bson_iter_next_internal (start_iter (enc_doc day_before) (length (enc_doc day_before))) =
      Some (True, BSON_TYPE_DATE_TIME, False, it)" "elem_at it [0x61] (VDateTime (- 86400000))"
    using next_elem [OF day_before_reads [unfolded day_before_def]] unfolding day_before_def by (metis vtype.simps(9))
  have "\<exists>y. bson_iter_time_t it = Some y \<and> 0 < sint y"
    by (rule time_t_before_1970 [OF n(2), THEN conjunct2, THEN conjunct1, THEN mp]) simp
  with n(1) show ?thesis by (simp add: bson_iter_next_def)
qed

end
