(* ===== verification/Visit.thy ===== *)
theory Visit
  imports Iter_Find
begin

text \<open>
  \<^verbatim>\<open>bson_iter_visit_all\<close> of \<^verbatim>\<open>src/bson/bson-iter.c\<close>, with the visitor as a record of optional callbacks over a state
  \<open>'d\<close> (the \<^verbatim>\<open>void *data\<close>), and its client \<^verbatim>\<open>bson_validate\<close> of \<^verbatim>\<open>src/bson/bson.c\<close>.

  A callback gets the iterator, the key and its arguments, and answers whether the visit stops together
  with the new state; a \<^verbatim>\<open>NULL\<close> callback is \<open>None\<close>. The \<^verbatim>\<open>bson_t\<close> on the stack that a visitor of a nested
  document gets is the pair of the memory behind its pointer and its length.
\<close>

subsection \<open>The visitor\<close>

type_synonym doc_view = "bytes \<times> nat"
type_synonym ('a, 'd) visit = "(bson_iter \<Rightarrow> bytes \<Rightarrow> 'a \<Rightarrow> 'd \<Rightarrow> (bool \<times> 'd) option) option"

record 'd bson_visitor =
  visit_before :: "(unit, 'd) visit"
  visit_after :: "(unit, 'd) visit"
  visit_corrupt :: "(bson_iter \<Rightarrow> 'd \<Rightarrow> 'd option) option"
  visit_double :: "(u64, 'd) visit"
  visit_utf8 :: "(bytes \<times> nat, 'd) visit"
  visit_document :: "(doc_view, 'd) visit"
  visit_array :: "(doc_view, 'd) visit"
  visit_binary :: "(u8 \<times> bytes \<times> nat, 'd) visit"
  visit_undefined :: "(unit, 'd) visit"
  visit_oid :: "(bytes, 'd) visit"
  visit_bool :: "(bool, 'd) visit"
  visit_date_time :: "(u64, 'd) visit"
  visit_null :: "(unit, 'd) visit"
  visit_regex :: "(bytes \<times> bytes, 'd) visit"
  visit_dbpointer :: "(bytes \<times> nat \<times> bytes, 'd) visit"
  visit_code :: "(bytes \<times> nat, 'd) visit"
  visit_symbol :: "(bytes \<times> nat, 'd) visit"
  visit_codewscope :: "(bytes \<times> nat \<times> doc_view, 'd) visit"
  visit_int32 :: "(u32, 'd) visit"
  visit_timestamp :: "(u32 \<times> u32, 'd) visit"
  visit_int64 :: "(u64, 'd) visit"
  visit_maxkey :: "(unit, 'd) visit"
  visit_minkey :: "(unit, 'd) visit"
  visit_unsupported_type :: "(bson_iter \<Rightarrow> bytes \<Rightarrow> u8 \<Rightarrow> 'd \<Rightarrow> 'd option) option"
  visit_decimal128 :: "(u64 \<times> u64, 'd) visit"

text \<open>
  \<^verbatim>\<open>visitor->visit_x && visitor->visit_x (iter, key, arg, data)\<close>: the argument is evaluated only for a callback
  that is there. The answer of a field: whether the loop returns true, the iterator, the state.
\<close>

definition call_visit ::
  "('a, 'd) visit \<Rightarrow> bson_iter \<Rightarrow> bytes \<Rightarrow> 'a option \<Rightarrow> 'd \<Rightarrow> (bool \<times> bson_iter \<times> 'd) option" where
  "call_visit cb it key arg d =
     (case cb of
        None \<Rightarrow> Some (False, it, d)
      | Some f \<Rightarrow> do { x \<leftarrow> arg; (b, d') \<leftarrow> f it key x d; Some (b, it, d') })"

text \<open>The text fields are checked first; invalid text ends the visit with \<^verbatim>\<open>iter->err_off = iter->off\<close>.\<close>

definition visit_text ::
  "bytes \<Rightarrow> nat \<Rightarrow> ('a, 'd) visit \<Rightarrow> bson_iter \<Rightarrow> bytes \<Rightarrow> 'a option \<Rightarrow> 'd \<Rightarrow> (bool \<times> bson_iter \<times> 'd) option" where
  "visit_text s n cb it key arg d = do {
     ok \<leftarrow> bson_utf8_validate s n True;
     (if ok then call_visit cb it key arg d else Some (True, it\<lparr>i_err_off := i_off it\<rparr>, d)) }"

text \<open>\<^verbatim>\<open>bson_init_static\<close> on the stack variable: whether the bytes are accepted (the checks of \<open>Bson_Life.bson_init_static\<close>).\<close>

definition static_view :: "bytes \<Rightarrow> nat \<Rightarrow> bool option" where
  "static_view data len =
     (if len < 5 \<or> len > INT_MAX then Some False
      else do {
        l \<leftarrow> rd32 data 0;
        (if l \<noteq> len then Some False
         else do { z \<leftarrow> rd8 data (len - 1); Some (z = 0) }) })"

definition visit_nested ::
  "bytes \<Rightarrow> nat \<Rightarrow> ('a, 'd) visit \<Rightarrow> bson_iter \<Rightarrow> bytes \<Rightarrow> 'a \<Rightarrow> 'd \<Rightarrow> (bool \<times> bson_iter \<times> 'd) option" where
  "visit_nested docbuf doclen cb it key arg d = do {
     ok \<leftarrow> static_view docbuf doclen;
     (if ok then call_visit cb it key (Some arg) d else Some (False, it, d)) }"

text \<open>The switch over the type.\<close>

definition visit_field ::
  "'d bson_visitor \<Rightarrow> bson_iter \<Rightarrow> bytes \<Rightarrow> u8 \<Rightarrow> 'd \<Rightarrow> (bool \<times> bson_iter \<times> 'd) option" where
  "visit_field V it key t d =
     (if t = BSON_TYPE_DOUBLE then call_visit (visit_double V) it key (bson_iter_double it) d
      else if t = BSON_TYPE_UTF8 then do {
        r \<leftarrow> bson_iter_utf8 it; (s, n) \<leftarrow> r; visit_text s n (visit_utf8 V) it key (Some (s, n)) d }
      else if t = BSON_TYPE_DOCUMENT then do {
        (n, r) \<leftarrow> bson_iter_document it; x \<leftarrow> r; visit_nested x n (visit_document V) it key (x, n) d }
      else if t = BSON_TYPE_ARRAY then do {
        (n, r) \<leftarrow> bson_iter_array it; x \<leftarrow> r; visit_nested x n (visit_array V) it key (x, n) d }
      else if t = BSON_TYPE_BINARY then do {
        (st, r, n) \<leftarrow> bson_iter_binary it; x \<leftarrow> r; call_visit (visit_binary V) it key (Some (st, x, n)) d }
      else if t = BSON_TYPE_UNDEFINED then call_visit (visit_undefined V) it key (Some ()) d
      else if t = BSON_TYPE_OID then
        call_visit (visit_oid V) it key (do { r \<leftarrow> bson_iter_oid it; r }) d
      else if t = BSON_TYPE_BOOL then call_visit (visit_bool V) it key (bson_iter_bool it) d
      else if t = BSON_TYPE_DATE_TIME then call_visit (visit_date_time V) it key (bson_iter_date_time it) d
      else if t = BSON_TYPE_NULL then call_visit (visit_null V) it key (Some ()) d
      else if t = BSON_TYPE_REGEX then do {
        r \<leftarrow> bson_iter_regex it; (x, opt) \<leftarrow> r; s \<leftarrow> c_string x 0;
        visit_text x (length s) (visit_regex V) it key (Some (x, opt)) d }
      else if t = BSON_TYPE_DBPOINTER then do {
        r \<leftarrow> bson_iter_dbpointer it; (c, n, i) \<leftarrow> r; visit_text c n (visit_dbpointer V) it key (Some (c, n, i)) d }
      else if t = BSON_TYPE_CODE then do {
        r \<leftarrow> bson_iter_code it; (s, n) \<leftarrow> r; visit_text s n (visit_code V) it key (Some (s, n)) d }
      else if t = BSON_TYPE_SYMBOL then do {
        r \<leftarrow> bson_iter_symbol it; (s, n) \<leftarrow> r; visit_text s n (visit_symbol V) it key (Some (s, n)) d }
      else if t = BSON_TYPE_CODEWSCOPE then do {
        r \<leftarrow> bson_iter_codewscope it; (c, n, x, m) \<leftarrow> r;
        ok \<leftarrow> bson_utf8_validate c n True;
        (if ok then visit_nested x m (visit_codewscope V) it key (c, n, x, m) d
         else Some (True, it\<lparr>i_err_off := i_off it\<rparr>, d)) }
      else if t = BSON_TYPE_INT32 then call_visit (visit_int32 V) it key (bson_iter_int32 it) d
      else if t = BSON_TYPE_TIMESTAMP then call_visit (visit_timestamp V) it key (bson_iter_timestamp it) d
      else if t = BSON_TYPE_INT64 then call_visit (visit_int64 V) it key (bson_iter_int64 it) d
      else if t = BSON_TYPE_DECIMAL128 then
        call_visit (visit_decimal128 V) it key (do { r \<leftarrow> bson_iter_decimal128 it; r }) d
      else if t = BSON_TYPE_MAXKEY then call_visit (visit_maxkey V) it key (Some ()) d
      else if t = BSON_TYPE_MINKEY then call_visit (visit_minkey V) it key (Some ()) d
      else Some (False, it, d))"

text \<open>\<^verbatim>\<open>*key && !bson_utf8_validate (key, strlen (key), false)\<close>.\<close>

definition key_invalid :: "bytes \<Rightarrow> bool option" where
  "key_invalid key = do {
     c \<leftarrow> rd8 key 0;
     (if c = 0 then Some False
      else do { k \<leftarrow> c_string key 0; ok \<leftarrow> bson_utf8_validate key (length k) False; Some (\<not> ok) }) }"

text \<open>What follows the loop; \<open>key\<close> is the key of the last element that was decoded.\<close>

definition visit_end ::
  "'d bson_visitor \<Rightarrow> bson_iter \<Rightarrow> bytes option \<Rightarrow> u8 \<Rightarrow> bool \<Rightarrow> 'd \<Rightarrow> (bool \<times> bson_iter \<times> 'd) option" where
  "visit_end V it key t unsupported d =
     (if i_err_off it = 0 then Some (False, it, d)
      else do {
        un \<leftarrow> (if unsupported \<and> visit_unsupported_type V \<noteq> None
                then do { k \<leftarrow> key; s \<leftarrow> c_string k 0; bson_utf8_validate k (length s) False }
                else Some False);
        (if un then do { f \<leftarrow> visit_unsupported_type V; k \<leftarrow> key; d' \<leftarrow> f it k t d; Some (False, it, d') }
         else (case visit_corrupt V of
                 None \<Rightarrow> Some (False, it, d)
               | Some f \<Rightarrow> do { d' \<leftarrow> f it d; Some (False, it, d') })) })"

text \<open>The loop; the bytes behind the key are those the iterator pointed into before a failed step cleared \<^verbatim>\<open>raw\<close>.\<close>

partial_function (option) bson_iter_visit_all ::
  "'d bson_visitor \<Rightarrow> bson_iter \<Rightarrow> 'd \<Rightarrow> (bool \<times> bson_iter \<times> 'd) option" where
  "bson_iter_visit_all V it d =
     (case bson_iter_next_internal it of
        None \<Rightarrow> None
      | Some (ok, t, unsupported, it1) \<Rightarrow>
          (let key = map_option (drop (i_key it1)) (i_raw it) in
           if \<not> ok then visit_end V it1 key t unsupported d
           else (case do { k \<leftarrow> key; key_invalid k } of
                   None \<Rightarrow> None
                 | Some bad \<Rightarrow>
                     if bad then visit_end V (it1\<lparr>i_err_off := i_off it1\<rparr>) key t unsupported d
                     else (case call_visit (visit_before V) it1 (the key) (Some ()) d of
                             None \<Rightarrow> None
                           | Some (stop, it2, d2) \<Rightarrow>
                               if stop then Some (True, it2, d2)
                               else (case visit_field V it2 (the key) t d2 of
                                       None \<Rightarrow> None
                                     | Some (stop, it3, d3) \<Rightarrow>
                                         if stop then Some (True, it3, d3)
                                         else (case call_visit (visit_after V) it3 (the key) (Some ()) d3 of
                                                 None \<Rightarrow> None
                                               | Some (stop, it4, d4) \<Rightarrow>
                                                   if stop then Some (True, it4, d4)
                                                   else bson_iter_visit_all V it4 d4))))))"

declare bson_iter_visit_all.simps [code]

end
