(* ===== verification/Visit_Safe.thy ===== *)
theory Visit_Safe
  imports Visit
begin

text \<open>
  A visit returns for every content of the memory (four bytes of slack as for the iterator), if the callbacks
  of the visitor return for the arguments they get: terminated keys, texts and documents inside the memory.
\<close>

lemma utf8_validate_in:
  assumes "n \<le> length s" "n < 2 ^ 32"
  shows "bson_utf8_validate s n an = Some (utf8_text an (take n s))"
  using utf8_validate_loop_eq [where pre = "[]" and s = "take n s" and post = "drop n s" and an = an] assms by (simp add: bson_utf8_validate_def min_absorb2)

definition total_on :: "('a, 'd) visit \<Rightarrow> ('a \<Rightarrow> bool) \<Rightarrow> bool" where
  "total_on cb P \<longleftrightarrow> (\<forall>f it key x d. cb = Some f \<and> c_string key 0 \<noteq> None \<and> P x \<longrightarrow> f it key x d \<noteq> None)"

lemma total_on_None [simp]: "total_on None P"
  by (simp add: total_on_def)

definition text_arg :: "bytes \<times> nat \<Rightarrow> bool" where
  "text_arg sn \<longleftrightarrow> snd sn < length (fst sn) \<and> snd sn < 2 ^ 32"

definition doc_arg :: "nat \<Rightarrow> doc_view \<Rightarrow> bool" where
  "doc_arg len doc \<longleftrightarrow> snd doc < len \<and> snd doc + 4 \<le> length (fst doc)"

text \<open>The callbacks of \<open>V\<close> return on the fields of a document of length \<open>len\<close>.\<close>

definition visitor_total :: "'d bson_visitor \<Rightarrow> nat \<Rightarrow> bool" where
  "visitor_total V len \<longleftrightarrow>
     total_on (visit_before V) (\<lambda>_. True) \<and> total_on (visit_after V) (\<lambda>_. True) \<and>
     (\<forall>f it d. visit_corrupt V = Some f \<longrightarrow> f it d \<noteq> None) \<and>
     (\<forall>f it k t d. visit_unsupported_type V = Some f \<and> c_string k 0 \<noteq> None \<longrightarrow> f it k t d \<noteq> None) \<and>
     total_on (visit_double V) (\<lambda>_. True) \<and> total_on (visit_utf8 V) text_arg \<and>
     total_on (visit_document V) (doc_arg len) \<and> total_on (visit_array V) (doc_arg len) \<and>
     total_on (visit_binary V) (\<lambda>(st, x, n). n \<le> length x) \<and> total_on (visit_undefined V) (\<lambda>_. True) \<and>
     total_on (visit_oid V) (\<lambda>x. 12 \<le> length x) \<and> total_on (visit_bool V) (\<lambda>_. True) \<and>
     total_on (visit_date_time V) (\<lambda>_. True) \<and> total_on (visit_null V) (\<lambda>_. True) \<and>
     total_on (visit_regex V) (\<lambda>(x, y). c_string x 0 \<noteq> None \<and> c_string y 0 \<noteq> None) \<and>
     total_on (visit_dbpointer V) (\<lambda>(c, n, i). text_arg (c, n) \<and> 12 \<le> length i) \<and>
     total_on (visit_code V) text_arg \<and> total_on (visit_symbol V) text_arg \<and>
     total_on (visit_codewscope V) (\<lambda>(c, n, doc). text_arg (c, n) \<and> doc_arg len doc) \<and>
     total_on (visit_int32 V) (\<lambda>_. True) \<and> total_on (visit_timestamp V) (\<lambda>_. True) \<and> total_on (visit_int64 V) (\<lambda>_. True) \<and>
     total_on (visit_maxkey V) (\<lambda>_. True) \<and> total_on (visit_minkey V) (\<lambda>_. True) \<and> total_on (visit_decimal128 V) (\<lambda>_. True)"

lemma call_visit_total:
  assumes "total_on cb P" "c_string key 0 \<noteq> None" "\<And>f. cb = Some f \<Longrightarrow> \<exists>x. arg = Some x \<and> P x"
  shows "\<exists>b d'. call_visit cb it key arg d = Some (b, it, d')"
proof (cases cb)
  case None
  then show ?thesis by (simp add: call_visit_def ex_bool_eq)
next
  case (Some f)
  then obtain x where x: "arg = Some x" "P x" using assms(3) by blast
  then have "f it key x d \<noteq> None" using assms(1,2) Some unfolding total_on_def by blast
  then show ?thesis using Some x by (auto simp: call_visit_def)
qed

text \<open>The answer of a field: the iterator is as before, or has an error offset when the visit stops.\<close>

definition field_result :: "bson_iter \<Rightarrow> (bool \<times> bson_iter \<times> 'd) option \<Rightarrow> bool" where
  "field_result it r \<longleftrightarrow> (\<exists>b it' d'. r = Some (b, it', d') \<and> (b \<or> it' = it))"

lemma call_field:
  "total_on cb P \<Longrightarrow> c_string key 0 \<noteq> None \<Longrightarrow> (\<And>f. cb = Some f \<Longrightarrow> \<exists>x. arg = Some x \<and> P x) \<Longrightarrow>
   field_result it (call_visit cb it key arg d)"
  using call_visit_total [of cb P key arg it d] by (auto simp: field_result_def)

lemma text_field:
  assumes "n < length s" "n < 2 ^ 32" "total_on cb P" "c_string key 0 \<noteq> None" "\<And>f. cb = Some f \<Longrightarrow> \<exists>x. arg = Some x \<and> P x"
  shows "field_result it (visit_text s n cb it key arg d)"
  using call_field [OF assms(3,4,5)] utf8_validate_in [of n s True] assms(1,2)
  by (auto simp: visit_text_def field_result_def)

lemma static_view_total: "n \<le> length x \<Longrightarrow> static_view x n \<noteq> None"
proof -
  assume n: "n \<le> length x"
  show ?thesis
  proof (cases "n < 5 \<or> n > INT_MAX")
    case False
    then have "n - 1 < length x" using n by linarith
    then show ?thesis using False n by (auto simp: static_view_def rd32_in rd8_eq)
  qed (simp add: static_view_def)
qed

lemma nested_field:
  assumes "n \<le> length x" "total_on cb P" "c_string key 0 \<noteq> None" "P arg"
  shows "field_result it (visit_nested x n cb it key arg d)"
proof -
  obtain b where b: "static_view x n = Some b" using static_view_total [OF assms(1)] by auto
  have "field_result it (call_visit cb it key (Some arg) d)" by (rule call_field [OF assms(2,3)]) (use assms(4) in blast)
  then show ?thesis using b by (auto simp: visit_nested_def field_result_def)
qed


text \<open>What the accessors return on an element, in the shape the switch uses.\<close>

lemma doc_fields:
  assumes el: "on_element raw len t it" and t: "t = BSON_TYPE_DOCUMENT \<or> t = BSON_TYPE_ARRAY" and s: "len + 4 \<le> length raw"
  shows "\<exists>x n. (if t = BSON_TYPE_DOCUMENT then bson_iter_document it else bson_iter_array it) = Some (n, Some x) \<and> doc_arg len (x, n)"
proof -
  have raw: "i_raw it = Some raw" and f: "fields_ok raw len t it" using el by (simp_all add: on_element_def)
  let ?l = "le_nat (take 4 (drop (i_d1 it) raw))"
  have d: "i_d1 it + 4 < len" "i_d1 it + ?l < len" using fields_okD(4) [OF f t [THEN disj_commute [THEN iffD1], THEN disj_commute [THEN iffD1]]] by simp_all
  have "iter_rd32 it (i_d1 it) = Some ?l" "iter_ptr it (i_d1 it) = Some (drop (i_d1 it) raw)"
    by (intro iter_reads [OF raw], use d s in linarith)+
  moreover have "doc_arg len (drop (i_d1 it) raw, ?l)" using d s by (simp add: doc_arg_def)
  ultimately show ?thesis using t on_element_type [OF el] by (auto simp: bson_iter_document_def bson_iter_array_def)
qed

lemma scope_fields:
  assumes el: "on_element raw len BSON_TYPE_CODEWSCOPE it" and s: "len + 4 \<le> length raw"
  shows "\<exists>c n x m. bson_iter_codewscope it = Some (Some (c, n, x, m)) \<and> text_arg (c, n) \<and> doc_arg len (x, m)"
proof -
  have raw: "i_raw it = Some raw" and f: "len \<le> INT_MAX" "fields_ok raw len BSON_TYPE_CODEWSCOPE it"
    using el by (simp_all add: on_element_def)
  let ?l = "le_nat (take 4 (drop (i_d2 it) raw))"
  let ?n = "le_nat (take 4 (drop (i_d4 it) raw))"
  have c: "i_d2 it = i_d1 it + 4" "i_d3 it = i_d1 it + 8" "i_d4 it = i_d3 it + ?l" "i_d3 it < i_d4 it" "i_d4 it + 4 < len"
      "i_d4 it + ?n < len"
    using fields_okD(9) [OF f(2) refl] by blast+
  have "iter_rd32 it (i_d2 it) = Some ?l" "iter_rd32 it (i_d4 it) = Some ?n"
    "iter_ptr it (i_d4 it) = Some (drop (i_d4 it) raw)" "iter_ptr it (i_d3 it) = Some (drop (i_d3 it) raw)"
    by (intro iter_reads [OF raw], use c s in linarith)+
  moreover have "?l \<noteq> 0" using c by linarith
  moreover have "text_arg (drop (i_d3 it) raw, ?l - 1)" "doc_arg len (drop (i_d4 it) raw, ?n)"
    using c s f(1) by (auto simp: text_arg_def doc_arg_def)
  ultimately show ?thesis using on_element_type [OF el] by (simp add: bson_iter_codewscope_def)
qed

lemma string_fields:
  assumes el: "on_element raw len t it" and t: "t = BSON_TYPE_UTF8 \<or> t = BSON_TYPE_CODE \<or> t = BSON_TYPE_SYMBOL"
  shows "\<exists>x n. iter_string t it = Some (Some (x, n)) \<and> text_arg (x, n)"
proof -
  have "str_at raw len (i_d1 it) it" using el t fields_okD(2) by (metis on_element_def)
  from string_in [OF el this] obtain n where n: "iter_ptr it (i_d2 it) = Some (drop (i_d2 it) raw)" "n \<le> INT_MAX"
    "n - 1 < length (drop (i_d2 it) raw)" "bson_iter_utf8_len_unsafe it = Some (n - 1)" by metis
  then show ?thesis by (simp add: iter_string_def on_element_type [OF el] text_arg_def)
qed

lemma c_string_le:
  assumes "c_string x 0 = Some s" "j < length x" "x ! j = 0"
  shows "length s \<le> j"
proof (rule ccontr)
  assume "\<not> length s \<le> j"
  moreover have s: "s = takeWhile (\<lambda>b. b \<noteq> 0) x" using assms(1) by (auto simp: c_string_def Let_def split: if_splits)
  ultimately have "j < length (takeWhile (\<lambda>b. b \<noteq> 0) x)" by simp
  then have "takeWhile (\<lambda>b. b \<noteq> 0) x ! j \<noteq> 0" "takeWhile (\<lambda>b. b \<noteq> 0) x ! j = x ! j"
    using set_takeWhileD [OF nth_mem, of j "\<lambda>b. b \<noteq> 0" x] takeWhile_nth [of j "\<lambda>b. b \<noteq> 0" x] by auto
  with assms(3) show False by simp
qed

lemma regex_fields:
  assumes el: "on_element raw len BSON_TYPE_REGEX it"
  shows "\<exists>x y s. bson_iter_regex it = Some (Some (x, y)) \<and> c_string x 0 = Some s \<and> c_string y 0 \<noteq> None \<and>
    length s < length x \<and> length s < 2 ^ 32"
proof -
  have raw: "i_raw it = Some raw" and f: "len \<le> length raw" "len \<le> INT_MAX" "fields_ok raw len BSON_TYPE_REGEX it"
    using el by (simp_all add: on_element_def)
  obtain e where e: "i_d1 it < i_d2 it" "raw ! (i_d2 it - 1) = 0" "i_d2 it \<le> e" "e < len" "raw ! e = 0"
    using fields_okD(7) [OF f(3) refl] by blast
  let ?x = "drop (i_d1 it) raw" and ?j = "i_d2 it - 1 - i_d1 it"
  have j: "?j < length ?x" "?x ! ?j = 0" using e f(1) by auto
  have "c_string ?x 0 \<noteq> None" by (rule c_string_nul [OF j(1) _ j(2)]) simp
  then obtain s where s: "c_string ?x 0 = Some s" by blast
  have l: "length s \<le> ?j" by (rule c_string_le [OF s j])
  have "c_string (drop (i_d2 it) raw) 0 \<noteq> None" by (rule c_string_nul [of "e - i_d2 it"]) (use e f in auto)
  moreover have "iter_ptr it (i_d1 it) = Some ?x" "iter_ptr it (i_d2 it) = Some (drop (i_d2 it) raw)"
    by (intro iter_reads [OF raw], use e f in linarith)+
  moreover have "length s < length ?x" "length s < 2 ^ 32" using l j(1) e f(2) by auto
  ultimately show ?thesis using s by (simp add: bson_iter_regex_def on_element_type [OF el])
qed

lemma dbpointer_fields:
  assumes el: "on_element raw len BSON_TYPE_DBPOINTER it"
  shows "\<exists>c n i. bson_iter_dbpointer it = Some (Some (c, n, i)) \<and> text_arg (c, n) \<and> 12 \<le> length i"
proof -
  have raw: "i_raw it = Some raw" and f: "len \<le> length raw" "fields_ok raw len BSON_TYPE_DBPOINTER it"
    using el by (simp_all add: on_element_def)
  have "str_at raw len (i_d1 it) it" and d: "i_d3 it + 12 < len" using fields_okD(8) [OF f(2)] by blast+
  from string_in [OF el this(1)] obtain n where n: "iter_rd32 it (i_d1 it) = Some n" "n \<le> INT_MAX"
    "iter_ptr it (i_d2 it) = Some (drop (i_d2 it) raw)" "n - 1 < length (drop (i_d2 it) raw)" by metis
  have "iter_ptr it (i_d3 it) = Some (drop (i_d3 it) raw)" by (intro iter_reads [OF raw]) (use d f in linarith)
  moreover have "n - 1 < 2 ^ 32" "12 \<le> length (drop (i_d3 it) raw)" using n(2) d f(1) by auto
  ultimately show ?thesis using n(1,3,4) unfolding bson_iter_dbpointer_def on_element_type [OF el] text_arg_def by auto
qed


lemma scalar_fields:
  assumes el: "on_element raw len t it"
  shows "t = BSON_TYPE_DOUBLE \<Longrightarrow> bson_iter_double it \<noteq> None" "t = BSON_TYPE_BOOL \<Longrightarrow> bson_iter_bool it \<noteq> None"
    "t = BSON_TYPE_DATE_TIME \<Longrightarrow> bson_iter_date_time it \<noteq> None" "t = BSON_TYPE_INT32 \<Longrightarrow> bson_iter_int32 it \<noteq> None"
    "t = BSON_TYPE_TIMESTAMP \<Longrightarrow> bson_iter_timestamp it \<noteq> None" "t = BSON_TYPE_INT64 \<Longrightarrow> bson_iter_int64 it \<noteq> None"
    "t = BSON_TYPE_OID \<Longrightarrow> \<exists>x. bson_iter_oid it = Some (Some x) \<and> 12 \<le> length x"
    "t = BSON_TYPE_DECIMAL128 \<Longrightarrow> \<exists>x. bson_iter_decimal128 it = Some (Some x)"
    "t = BSON_TYPE_BINARY \<Longrightarrow> \<exists>st x n. bson_iter_binary it = Some (st, Some x, n) \<and> n \<le> length x"
proof -
  obtain bv where v: "bson_iter_value it = Some (Some bv)" "value_in bv" using element_value [OF el] by blast
  note ty = on_element_type [OF el]
  show "t = BSON_TYPE_DOUBLE \<Longrightarrow> bson_iter_double it \<noteq> None" "t = BSON_TYPE_BOOL \<Longrightarrow> bson_iter_bool it \<noteq> None"
    "t = BSON_TYPE_DATE_TIME \<Longrightarrow> bson_iter_date_time it \<noteq> None" "t = BSON_TYPE_INT32 \<Longrightarrow> bson_iter_int32 it \<noteq> None"
    "t = BSON_TYPE_TIMESTAMP \<Longrightarrow> bson_iter_timestamp it \<noteq> None" "t = BSON_TYPE_INT64 \<Longrightarrow> bson_iter_int64 it \<noteq> None"
    using v(1) ty by (auto simp: iter_value_simps)
  show "t = BSON_TYPE_OID \<Longrightarrow> \<exists>x. bson_iter_oid it = Some (Some x) \<and> 12 \<le> length x"
    using v(1) ty by (auto simp: iter_value_simps bind_Some_iff mem_read_def split: if_splits)
  show "t = BSON_TYPE_DECIMAL128 \<Longrightarrow> \<exists>x. bson_iter_decimal128 it = Some (Some x)"
    using v(1) ty by (auto simp: iter_value_simps bind_Some_iff)
  show "t = BSON_TYPE_BINARY \<Longrightarrow> \<exists>st x n. bson_iter_binary it = Some (st, Some x, n) \<and> n \<le> length x"
    using v ty by (auto simp: iter_value_simps bind_Some_iff)
qed

lemma visit_field_total:
  assumes el: "on_element raw len t it" and s: "len + 4 \<le> length raw" and V: "visitor_total V len" and k: "c_string key 0 \<noteq> None"
  shows "field_result it (visit_field V it key t d)"
proof -
  note c = call_field [OF _ k] and tx = text_field [OF _ _ _ k] and nt = nested_field [OF _ _ k]
  note sc = scalar_fields [OF el]
  have "known_type t" using el by (simp add: on_element_def)
  then consider (str) "t = BSON_TYPE_UTF8 \<or> t = BSON_TYPE_CODE \<or> t = BSON_TYPE_SYMBOL" | (doc) "t = BSON_TYPE_DOCUMENT \<or> t = BSON_TYPE_ARRAY"
    | (bin) "t = BSON_TYPE_BINARY" | (oid) "t = BSON_TYPE_OID" | (regex) "t = BSON_TYPE_REGEX" | (dbp) "t = BSON_TYPE_DBPOINTER"
    | (cws) "t = BSON_TYPE_CODEWSCOPE" | (dec) "t = BSON_TYPE_DECIMAL128" | (dbl) "t = BSON_TYPE_DOUBLE" | (bool) "t = BSON_TYPE_BOOL"
    | (date) "t = BSON_TYPE_DATE_TIME" | (i32) "t = BSON_TYPE_INT32" | (ts) "t = BSON_TYPE_TIMESTAMP" | (i64) "t = BSON_TYPE_INT64"
    | (none) "t = BSON_TYPE_UNDEFINED \<or> t = BSON_TYPE_NULL \<or> t = BSON_TYPE_MAXKEY \<or> t = BSON_TYPE_MINKEY"
    unfolding known_type_def insert_iff empty_iff by blast
  then show ?thesis
  proof cases
    case str
    obtain x n where x: "iter_string t it = Some (Some (x, n))" "n < length x" "n < 2 ^ 32"
      using string_fields [OF el str] by (auto simp: text_arg_def)
    have "field_result it (visit_text x n (visit_utf8 V) it key (Some (x, n)) d)"
      "field_result it (visit_text x n (visit_code V) it key (Some (x, n)) d)"
      "field_result it (visit_text x n (visit_symbol V) it key (Some (x, n)) d)"
      by (rule tx [OF x(2,3), where P = text_arg], use V x in \<open>simp_all add: visitor_total_def text_arg_def\<close>)+
    then show ?thesis using x(1) str
      by (auto simp: visit_field_def bson_iter_utf8_def bson_iter_code_def bson_iter_symbol_def)
  next
    case doc
    obtain x n where x: "(if t = BSON_TYPE_DOCUMENT then bson_iter_document it else bson_iter_array it) = Some (n, Some x)" "doc_arg len (x, n)"
      using doc_fields [OF el doc s] by blast
    have n: "n \<le> length x" using x(2) by (simp add: doc_arg_def)
    have "field_result it (visit_nested x n (visit_document V) it key (x, n) d)"
      "field_result it (visit_nested x n (visit_array V) it key (x, n) d)"
      by (rule nt [where P = "doc_arg len", OF n], use V x in \<open>simp_all add: visitor_total_def\<close>)+
    then show ?thesis using x(1) doc by (auto simp: visit_field_def)
  next
    case bin
    obtain st x n where "bson_iter_binary it = Some (st, Some x, n)" "n \<le> length x" using sc(9) [OF bin] by blast
    moreover have "field_result it (call_visit (visit_binary V) it key (Some (st, x, n)) d)"
      by (rule c [where P = "\<lambda>(st, x, n). n \<le> length x"]) (use V \<open>n \<le> length x\<close> in \<open>simp_all add: visitor_total_def\<close>)
    ultimately show ?thesis using bin by (simp add: visit_field_def)
  next
    case oid
    obtain x where "bson_iter_oid it = Some (Some x)" "12 \<le> length x" using sc(7) [OF oid] by blast
    moreover have "field_result it (call_visit (visit_oid V) it key (Some x) d)"
      by (rule c [where P = "\<lambda>x. 12 \<le> length x"]) (use V \<open>12 \<le> length x\<close> in \<open>simp_all add: visitor_total_def\<close>)
    ultimately show ?thesis using oid by (simp add: visit_field_def)
  next
    case regex
    obtain x y r where x: "bson_iter_regex it = Some (Some (x, y))" "c_string x 0 = Some r" "c_string y 0 \<noteq> None"
        "length r < length x" "length r < 2 ^ 32"
      using regex_fields el regex by blast
    have "field_result it (visit_text x (length r) (visit_regex V) it key (Some (x, y)) d)"
      by (rule tx [OF x(4,5), where P = "\<lambda>(x, y). c_string x 0 \<noteq> None \<and> c_string y 0 \<noteq> None"])
        (use V x(2,3) in \<open>auto simp: visitor_total_def\<close>)
    then show ?thesis using x(1,2) regex by (simp add: visit_field_def)
  next
    case dbp
    obtain x n i where x: "bson_iter_dbpointer it = Some (Some (x, n, i))" "text_arg (x, n)" "12 \<le> length i"
      using dbpointer_fields el dbp by blast
    have "field_result it (visit_text x n (visit_dbpointer V) it key (Some (x, n, i)) d)"
      by (rule tx [where P = "\<lambda>(c, n, i). text_arg (c, n) \<and> 12 \<le> length i"])
        (use V x in \<open>auto simp: visitor_total_def text_arg_def\<close>)
    then show ?thesis using x(1) dbp by (simp add: visit_field_def)
  next
    case cws
    obtain x n y m where x: "bson_iter_codewscope it = Some (Some (x, n, y, m))" "text_arg (x, n)" "doc_arg len (y, m)"
      using scope_fields el cws s by blast
    have u: "bson_utf8_validate x n True = Some (utf8_text True (take n x))"
      by (rule utf8_validate_in) (use x(2) in \<open>simp_all add: text_arg_def\<close>)
    have "m \<le> length y" using x(3) by (simp add: doc_arg_def)
    then have "field_result it (visit_nested y m (visit_codewscope V) it key (x, n, y, m) d)"
      by (rule nt [where P = "\<lambda>(c, n, doc). text_arg (c, n) \<and> doc_arg len doc"]) (use V x in \<open>auto simp: visitor_total_def\<close>)
    then show ?thesis using x(1) u cws by (auto simp: visit_field_def field_result_def)
  next
    case dec
    then obtain x where "bson_iter_decimal128 it = Some (Some x)" using sc(8) by blast
    then show ?thesis using c [where P = "\<lambda>_. True" and cb = "visit_decimal128 V"] V dec by (simp add: visit_field_def visitor_total_def)
  next
    case dbl
    then show ?thesis using c [where P = "\<lambda>_. True" and cb = "visit_double V"] V sc(1) by (auto simp: visit_field_def visitor_total_def)
  next
    case bool
    then show ?thesis using c [where P = "\<lambda>_. True" and cb = "visit_bool V"] V sc(2) by (auto simp: visit_field_def visitor_total_def)
  next
    case date
    then show ?thesis using c [where P = "\<lambda>_. True" and cb = "visit_date_time V"] V sc(3) by (auto simp: visit_field_def visitor_total_def)
  next
    case i32
    then show ?thesis using c [where P = "\<lambda>_. True" and cb = "visit_int32 V"] V sc(4) by (auto simp: visit_field_def visitor_total_def)
  next
    case ts
    then show ?thesis using c [where P = "\<lambda>_. True" and cb = "visit_timestamp V"] V sc(5) by (auto simp: visit_field_def visitor_total_def)
  next
    case i64
    then show ?thesis using c [where P = "\<lambda>_. True" and cb = "visit_int64 V"] V sc(6) by (auto simp: visit_field_def visitor_total_def)
  next
    case none
    then show ?thesis using c [where P = "\<lambda>_. True" and cb = "visit_undefined V"] c [where P = "\<lambda>_. True" and cb = "visit_null V"]
        c [where P = "\<lambda>_. True" and cb = "visit_maxkey V"] c [where P = "\<lambda>_. True" and cb = "visit_minkey V"] V
      by (auto simp: visit_field_def visitor_total_def)
  qed
qed

end
