(* ===== verification/Visit_Loop.thy ===== *)
theory Visit_Loop
  imports Visit_Safe
begin

text \<open>The loop of a visit: it ends, and on an encoded document it meets the elements in order.\<close>

subsection \<open>The loop ends\<close>

definition key_ok :: "bytes option \<Rightarrow> bool" where
  "key_ok key \<longleftrightarrow> (\<exists>k s. key = Some k \<and> c_string k 0 = Some s \<and> length s < 2 ^ 32)"

lemma key_text:
  assumes "c_string k 0 = Some s" "length s < 2 ^ 32"
  shows "bson_utf8_validate k (length s) an = Some (utf8_text an s)"
proof -
  have l: "length s < length k" using c_string_bound [OF assms(1)] by simp
  have "s = takeWhile (\<lambda>b. b \<noteq> 0) k" using assms(1) by (auto simp: c_string_def Let_def split: if_splits)
  then have "take (length s) k = s" by (metis takeWhile_eq_take)
  then show ?thesis using utf8_validate_in [of "length s" k an] l assms(2) by simp
qed

lemma key_invalid_eq:
  assumes "c_string k 0 = Some s" "length s < 2 ^ 32"
  shows "key_invalid k = Some (\<not> utf8_text False s)"
proof -
  have l: "0 < length k" using c_string_bound [OF assms(1)] by linarith
  have "s = []" if "k ! 0 = 0" using c_string_le [OF assms(1) l that] by simp
  then have z: "k ! 0 = 0 \<Longrightarrow> utf8_text False s" by (simp add: utf8_end)
  show ?thesis using key_text [OF assms, of False] assms(1) l z by (auto simp: key_invalid_def rd8_eq)
qed

lemma visit_end_total:
  assumes V: "visitor_total V len" and k: "unsupported \<Longrightarrow> key_ok key"
  shows "\<exists>it' d'. visit_end V it key t unsupported d = Some (False, it', d')"
proof (cases "i_err_off it = 0")
  case True
  then show ?thesis by (simp add: visit_end_def)
next
  case False
  have c: "\<exists>it' d'. (case visit_corrupt V of None \<Rightarrow> Some (False, it, d) | Some f \<Rightarrow> do { d' \<leftarrow> f it d; Some (False, it, d') }) = Some (False, it', d')"
  proof (cases "visit_corrupt V")
    case (Some f)
    have "f it d \<noteq> None" using V Some unfolding visitor_total_def by blast
    then show ?thesis using Some by auto
  qed simp
  show ?thesis
  proof (cases "unsupported \<and> visit_unsupported_type V \<noteq> None")
    case True
    then obtain f where f: "visit_unsupported_type V = Some f" by blast
    obtain k s where ks: "key = Some k" "c_string k 0 = Some s" "length s < 2 ^ 32" using k True by (auto simp: key_ok_def)
    have "f it k t d \<noteq> None" using V f ks(2) unfolding visitor_total_def by blast
    then show ?thesis using False True f ks key_text [OF ks(2,3), of False] c
      by (cases "utf8_text False s") (auto simp: visit_end_def)
  next
    case un: False
    have e: "visit_end V it key t unsupported d = (case visit_corrupt V of None \<Rightarrow> Some (False, it, d)
        | Some f \<Rightarrow> do { d' \<leftarrow> f it d; Some (False, it, d') })"
      unfolding visit_end_def if_not_P [OF False] if_not_P [OF un] by simp
    show ?thesis unfolding e by (rule c)
  qed
qed

lemma next_switch_unsupported:
  "snd (next_switch raw len p it t) \<Longrightarrow> fst (next_switch raw len p it t) = invalid it p"
  by (simp add: next_switch_def split: if_split_asm)

lemma next_key:
  assumes it: "iter_in it" and n: "bson_iter_next_internal it = Some (ok, t, u, it1)" and d: "ok \<or> u"
  shows "(u \<longrightarrow> \<not> ok) \<and> key_ok (map_option (drop (i_key it1)) (i_raw it))"
proof (cases "i_raw it")
  case None
  then show ?thesis using n d by (simp add: bson_iter_next_internal_def)
next
  case (Some raw)
  have i: "i_len it \<le> length raw" "i_len it \<le> INT_MAX" "4 \<le> i_next_off it" "i_next_off it \<le> INT_MAX"
    using Some it by (auto simp: iter_in_def)
  from scan_nul_total [OF i(1), of "i_next_off it + 1"] show ?thesis
  proof (elim disjE exE conjE)
    assume "scan_nul raw (i_len it) (i_next_off it + 1) = Some None"
    from next_internal_none [OF Some i(4) this] n d show ?thesis by simp
  next
    fix j
    assume j: "scan_nul raw (i_len it) (i_next_off it + 1) = Some (Some j)" "i_next_off it + 1 \<le> j" "j < i_len it" "raw ! j = 0"
    note c = next_cursor [OF Some it j(1)]
    let ?t = "raw ! i_next_off it"
    let ?sw = "next_switch raw (i_len it) (j + 1) (keyed it (j + 1)) ?t"
    have sw: "fst ?sw = Some (ok, it1)" "snd ?sw = u"
      using n next_internal_some [OF Some i(4,2,1) j(1)] by auto
    have "(u \<longrightarrow> \<not> ok) \<and> i_key it1 = i_next_off it + 1"
    proof (cases u)
      case True
      then have "invalid (keyed it (j + 1)) (j + 1) = Some (ok, it1)" using next_switch_unsupported sw by metis
      then show ?thesis by (auto simp: invalid_def mark_invalid_def)
    next
      case False
      have "stepped raw (i_len it) (j + 1) ?t (keyed it (j + 1)) (fst ?sw)"
        using next_switch_cases [OF c(1), of ?t] sw(1) by (auto split: if_split_asm)
      then show ?thesis using sw(1) d False by (auto simp: stepped_def step_result_def)
    qed
    moreover
    let ?k = "drop (i_next_off it + 1) raw" and ?m = "j - (i_next_off it + 1)"
    have m: "?m < length ?k" "?k ! ?m = 0" using j i by auto
    obtain s where s: "c_string ?k 0 = Some s" using c_string_nul [OF m(1) _ m(2), of 0] by auto
    have "length s \<le> ?m" by (rule c_string_le [OF s m])
    then have "length s < 2 ^ 32" using j(3) i(2) by simp
    ultimately show ?thesis using s Some by (auto simp: key_ok_def)
  qed
qed

lemma visit_all_total:
  assumes V: "visitor_total V len"
  shows "iter_in it \<Longrightarrow> slack it \<Longrightarrow> i_len it = len \<Longrightarrow> bson_iter_visit_all V it d \<noteq> None"
proof (induction "i_len it - i_next_off it" arbitrary: it d rule: less_induct)
  case less
  obtain ok t u it1 where n: "bson_iter_next_internal it = Some (ok, t, u, it1)" "stepped_to it ok t it1"
    using next_stepped [OF less.prems(1)] slack_no_overread [OF less.prems(2)] by auto
  let ?key = "map_option (drop (i_key it1)) (i_raw it)"
  show ?case
  proof (cases ok)
    case False
    have "\<exists>it' d'. visit_end V it1 ?key t u d = Some (False, it', d')"
      by (rule visit_end_total [OF V]) (use next_key [OF less.prems(1) n(1)] in simp)
    then show ?thesis using n(1) False by (auto simp: bson_iter_visit_all.simps [of V it] Let_def)
  next
    case True
    have ku: "\<not> u" "key_ok ?key" using next_key [OF less.prems(1) n(1)] True by blast+
    note u = ku(1)
    obtain raw k s where k: "i_raw it = Some raw" "k = drop (i_key it1) raw" "c_string k 0 = Some s" "length s < 2 ^ 32"
      using ku(2) by (auto simp: key_ok_def)
    have st: "iter_in it1" "i_raw it1 = Some raw" "i_len it1 = len" "i_next_off it < i_next_off it1" "i_next_off it1 < len"
        "\<exists>raw. on_element raw (i_len it1) t it1"
      using n(2) True less.prems(3) k(1) unfolding stepped_to_def by auto
    have el: "on_element raw len t it1" using st(2,3,6) by (auto simp: on_element_def)
    have sl: "slack it1" "len + 4 \<le> length raw" using less.prems(2,3) k(1) st(2,3) by (auto simp: slack_def)
    have kn: "c_string k 0 \<noteq> None" using k(3) by simp
    have bad: "key_invalid k = Some (\<not> utf8_text False s)" by (rule key_invalid_eq [OF k(3,4)])
    obtain b d2 where b: "call_visit (visit_before V) it1 k (Some ()) d = Some (b, it1, d2)"
      using call_visit_total [of "visit_before V" "\<lambda>_. True" k "Some ()" it1 d] V kn by (auto simp: visitor_total_def)
    obtain f it3 d3 where f: "visit_field V it1 k t d2 = Some (f, it3, d3)" "f \<or> it3 = it1"
      using visit_field_total [OF el sl(2) V kn, of d2] by (auto simp: field_result_def)
    obtain a d4 where a: "call_visit (visit_after V) it1 k (Some ()) d3 = Some (a, it1, d4)"
      using call_visit_total [of "visit_after V" "\<lambda>_. True" k "Some ()" it1 d3] V kn by (auto simp: visitor_total_def)
    have r: "bson_iter_visit_all V it1 d4 \<noteq> None"
      using less.hyps [OF _ st(1) sl(1) st(3), of d4] st less.prems(3) by (metis diff_less_mono2 less_trans)
    obtain it' d' where e: "visit_end V (it1\<lparr>i_err_off := i_off it1\<rparr>) (Some k) t u d = Some (False, it', d')"
      using visit_end_total [OF V, of u "Some k"] u by blast
    show ?thesis
      unfolding bson_iter_visit_all.simps [of V it] n(1) using True k bad b f a r e
      by (cases "utf8_text False s"; cases b; cases f; cases a) (simp_all add: Let_def)
  qed
qed


subsection \<open>A visit of an encoded document\<close>

text \<open>What happens at one element, as a function of the rest of the visit.\<close>

definition visit_one ::
  "'d bson_visitor \<Rightarrow> bson_iter \<Rightarrow> bytes \<Rightarrow> bytes \<Rightarrow> u8 \<Rightarrow> 'd \<Rightarrow> (bool \<times> bson_iter \<times> 'd) option \<Rightarrow> ('d \<Rightarrow> (bool \<times> bson_iter \<times> 'd) option) \<Rightarrow>
   (bool \<times> bson_iter \<times> 'd) option" where
  "visit_one V it kp k t d bad rest =
     (if \<not> utf8_text False k then bad
      else do {
        (stop, it2, d2) \<leftarrow> call_visit (visit_before V) it kp (Some ()) d;
        (if stop then Some (True, it2, d2)
         else do {
           (stop, it3, d3) \<leftarrow> visit_field V it2 kp t d2;
           (if stop then Some (True, it3, d3)
            else do {
              (stop, it4, d4) \<leftarrow> call_visit (visit_after V) it3 kp (Some ()) d3;
              (if stop then Some (True, it4, d4) else rest d4) }) }) })"

lemma call_visit_iter: "call_visit cb it key arg d = Some (b, it', d') \<Longrightarrow> it' = it"
  by (auto simp: call_visit_def bind_Some_iff split: option.splits)

lemma visit_field_iter: "visit_field V it key t d = Some (False, it', d') \<Longrightarrow> it' = it"
  by (auto simp: visit_field_def visit_text_def visit_nested_def bind_Some_iff dest: call_visit_iter split: if_split_asm)

lemma visit_all_Nil: "reads_at it [] \<Longrightarrow> \<exists>it'. bson_iter_visit_all V it d = Some (False, it', d)"
proof -
  assume "reads_at it []"
  then obtain it1 where n: "bson_iter_next_internal it = Some (False, BSON_TYPE_EOD, False, it1)" "i_err_off it1 = 0"
    using next_end by blast
  then show ?thesis by (simp add: bson_iter_visit_all.simps [of V it] Let_def visit_end_def)
qed

lemma visit_all_Cons:
  assumes "reads_at it ((k, v) # es)"
  obtains it1 kp where "elem_at it1 k v" "reads_at it1 es" "i_len it1 = i_len it" "c_string kp 0 = Some k" "4 \<le> i_off it1"
    "\<And>d. bson_iter_visit_all V it d = visit_one V it1 kp k (vtype v) d
       (visit_end V (it1\<lparr>i_err_off := i_off it1\<rparr>) (Some kp) (vtype v) False d) (bson_iter_visit_all V it1)"
proof -
  obtain it1 where n: "bson_iter_next_internal it = Some (True, vtype v, False, it1)" "elem_at it1 k v" "reads_at it1 es"
      "i_raw it1 = i_raw it" "i_off it1 = i_next_off it" "i_next_off it1 = i_next_off it + length (enc_elem k v)"
    using next_elem [OF assms] by blast
  obtain raw where raw: "i_raw it = Some raw" "i_len it = i_next_off it + length (enc_elems ((k, v) # es)) + 1" "i_len it \<le> INT_MAX" "4 \<le> i_next_off it"
    using assms by (auto simp: reads_at_def)
  have at1: "at raw (i_key it1) (k @ [0])" "no_nul k" using n(2,4) raw(1) by (auto simp: elem_at_def)
  let ?kp = "drop (i_key it1) raw"
  have k: "c_string ?kp 0 = Some k" by (rule at_c_string [OF at1])
  have kl: "length k < 2 ^ 32" using raw(2,3) unfolding enc_elems_Cons length_append length_enc_elem by simp
  have len: "i_len it1 = i_len it" using n(3,6) raw(2) unfolding reads_at_def enc_elems_Cons length_append by auto
  show ?thesis
  proof (rule that [OF n(2,3) len k])
    show "4 \<le> i_off it1" using n(5) raw(4) by simp
    fix d
    have field: "visit_field V it1 ?kp (vtype v) d2 = Some (False, it3, d3) \<Longrightarrow> it3 = it1" for d2 it3 d3
      by (rule visit_field_iter)
    show "bson_iter_visit_all V it d = visit_one V it1 ?kp k (vtype v) d
       (visit_end V (it1\<lparr>i_err_off := i_off it1\<rparr>) (Some ?kp) (vtype v) False d) (bson_iter_visit_all V it1)"
      unfolding bson_iter_visit_all.simps [of V it] n(1)
      using key_invalid_eq [OF k kl] raw(1)
      by (auto simp: visit_one_def Let_def dest: call_visit_iter field split: option.split)
  qed
qed

end
