(* ===== verification/Visit_Elem.thy ===== *)
theory Visit_Elem
  imports Visit_Loop
begin

text \<open>What the fields of an encoded element hand to the callbacks of a visitor.\<close>

lemma elem_string:
  assumes "elem_at it k v" "v = VUtf8 s \<or> v = VCode s \<or> v = VSymbol s"
  shows "\<exists>x. iter_string (vtype v) it = Some (Some (x, length s)) \<and> take (length s + 1) x = s @ [0] \<and> length s < 2 ^ 32"
proof -
  obtain raw p where e: "i_raw it = Some raw" "on_element raw (i_len it) (vtype v) it" "i_d1 it = p" "at raw p (enc_string s)"
      "p + length (enc_val v) < i_len it"
    using assms unfolding elem_at_def no_data_def by auto
  have f: "i_len it \<le> INT_MAX" "fields_ok raw (i_len it) (vtype v) it" using e(2) by (simp_all add: on_element_def)
  have l: "length s + 1 < 2 ^ 31" using assms(2) e(5) f(1) by (auto simp: enc_string_def)
  have "str_at raw (i_len it) p it" using fields_okD(2) [OF f(2)] assms(2) e(3) by auto
  then have "i_d2 it = p + 4" by (simp add: str_at_def Let_def)
  moreover have al: "p + (length s + 5) \<le> length raw" using at_length [OF e(4)] by (simp add: enc_string_def)
  moreover note at_str(1,2) [OF e(4)]
  ultimately show ?thesis using l iter_reads(1) [OF e(1), of p] iter_reads(4) [OF e(1), of "p + 4"] e(3)
    by (simp add: iter_string_def on_element_type [OF e(2)] bson_iter_utf8_len_unsafe_def)
qed

lemma elem_dbpointer:
  assumes "elem_at it k (VDBPointer c i)"
  shows "\<exists>x y. bson_iter_dbpointer it = Some (Some (x, length c, y)) \<and> take (length c + 1) x = c @ [0] \<and> take 12 y = i \<and> length c < 2 ^ 32"
proof -
  let ?v = "VDBPointer c i"
  obtain raw p where e: "i_raw it = Some raw" "on_element raw (i_len it) (vtype ?v) it" "i_d1 it = p" "at raw p (enc_val ?v)"
      "p + length (enc_val ?v) < i_len it" "wf_val ?v"
    using assms unfolding elem_at_def no_data_def by auto
  have f: "i_len it \<le> INT_MAX" "fields_ok raw (i_len it) (vtype ?v) it" using e(2) by (simp_all add: on_element_def)
  have s: "at raw p (enc_string c)" "length c + 1 < 2 ^ 32" "length i = 12" "at raw (p + (length c + 5)) i"
    using e(4,5,6) f by (simp_all add: length_enc_string)
  note n = at_str(1,2) [OF s(1,2)]
  have "i_d2 it = p + 4" "i_d3 it = p + (length c + 5)" using fields_okD(8) [OF f(2)] e(3) n by (simp_all add: str_at_def Let_def)
  then show ?thesis
    using iter_reads(1) [OF e(1), of p] iter_reads(4) [OF e(1), of "p + 4"] iter_reads(4) [OF e(1), of "p + (length c + 5)"]
      at_length [OF e(4)] n s e(3) on_element_type [OF e(2)] at_take [OF s(4)]
    by (simp add: bson_iter_dbpointer_def length_enc_string)
qed

lemma elem_codewscope:
  assumes "elem_at it k (VCodeWScope c es)"
  shows "\<exists>x y. bson_iter_codewscope it = Some (Some (x, length c, y, length (enc_doc es))) \<and> take (length c + 1) x = c @ [0] \<and>
    take (length (enc_doc es)) y = enc_doc es \<and> length c < 2 ^ 32"
proof -
  let ?v = "VCodeWScope c es"
  obtain raw p where e: "i_raw it = Some raw" "on_element raw (i_len it) (vtype ?v) it" "i_d1 it = p" "at raw p (enc_val ?v)"
      "p + length (enc_val ?v) < i_len it" "wf_val ?v"
    using assms unfolding elem_at_def no_data_def by auto
  have f: "i_len it \<le> INT_MAX" "fields_ok raw (i_len it) (vtype ?v) it" using e(2) by (simp_all add: on_element_def)
  let ?q = "p + (4 + (length c + 5))"
  have s: "at raw (p + 4) (enc_string c)" "at raw ?q (enc_doc es)" "length c + 1 < 2 ^ 32" "length (enc_doc es) < 2 ^ 32"
    "p + 13 + length c \<le> length raw"
    using e(4,5) f(1) at_length [OF e(4)] by (simp_all add: Let_def length_enc_string enc_doc_def add.assoc)
  have "enc_doc es = le32 (length (enc_doc es)) @ enc_elems es @ [0]" by (simp add: enc_doc_def frame_doc_def add.commute)
  then have "at raw ?q (le32 (length (enc_doc es)))" using s(2) by (metis at_append)
  note n = at_str(1,2) [OF s(1,3)] at_le32 [OF this s(4)] at_length [OF s(2)]
  have d: "i_d2 it = p + 4" "i_d3 it = p + 8" "i_d4 it = ?q" using fields_okD(9) [OF f(2)] e(3) n by simp_all
  have "iter_rd32 it (p + 4) = Some (length c + 1)" "iter_rd32 it ?q = Some (length (enc_doc es))"
    "iter_ptr it (p + 8) = Some (drop (p + 8) raw)" "iter_ptr it ?q = Some (drop ?q raw)"
    using iter_reads(1) [OF e(1), of "p + 4"] iter_reads(1) [OF e(1), of ?q] iter_reads(4) [OF e(1), of "p + 8"] iter_reads(4) [OF e(1), of ?q]
      n s(5) length_enc_doc_ge [of es] by simp_all
  then show ?thesis using d on_element_type [OF e(2)] n s(3) at_take [OF s(2) refl]
    by (simp add: bson_iter_codewscope_def add.commute)
qed

text \<open>The document of a field, which the visit takes with \<^verbatim>\<open>bson_init_static\<close>.\<close>

lemma static_view_doc:
  assumes "take (length (enc_doc es)) x = enc_doc es" "length (enc_doc es) \<le> INT_MAX"
  shows "static_view x (length (enc_doc es)) = Some True" "at x 0 (enc_doc es)"
proof -
  let ?n = "length (enc_doc es)"
  have ly: "?n \<le> length x" using arg_cong [OF assms(1), of length] by simp
  show a: "at x 0 (enc_doc es)" using assms(1) ly by (simp add: at_def)
  have e: "enc_doc es = le32 ?n @ enc_elems es @ [0]" by (simp add: enc_doc_def frame_doc_def add.commute)
  have "at x 0 (le32 ?n)" using a e by (metis at_append)
  then have l: "rd32 x 0 = Some ?n" by (rule at_le32_rd) (use assms(2) in simp)
  have n5: "5 \<le> ?n" by (rule length_enc_doc_ge)
  have "x ! (0 + (?n - 1)) = enc_doc es ! (?n - 1)" by (rule at_nth [OF a]) (use n5 in simp)
  moreover have "enc_doc es ! (?n - 1) = 0" by (subst e) (simp add: nth_append enc_doc_def)
  ultimately have "rd8 x (?n - 1) = Some 0" using n5 ly by (simp add: rd8_eq)
  then show "static_view x ?n = Some True" using l n5 assms(2) by (simp add: static_view_def)
qed

lemma elem_document:
  assumes "elem_at it k v" "v = VDocument es \<or> v = VArray es"
  obtains x where "(if vtype v = BSON_TYPE_DOCUMENT then bson_iter_document it else bson_iter_array it) = Some (length (enc_doc es), Some x)"
    "static_view x (length (enc_doc es)) = Some True" "at x 0 (enc_doc es)" "length (enc_doc es) \<le> INT_MAX" "wf_elems es"
proof -
  have e: "ITER_TYPE it = Some (vtype v)" "length (enc_doc es) \<le> INT_MAX" "wf_elems es"
  proof -
    obtain raw p where r: "on_element raw (i_len it) (vtype v) it" "p + length (enc_val v) < i_len it" "wf_val v"
      using assms(1) unfolding elem_at_def by blast
    show "ITER_TYPE it = Some (vtype v)" by (rule on_element_type [OF r(1)])
    have "i_len it \<le> INT_MAX" using r(1) by (simp add: on_element_def)
    then show "length (enc_doc es) \<le> INT_MAX" "wf_elems es" using assms(2) r(2,3) by (auto simp: enc_doc_def)
  qed
  obtain bv where bv: "bson_iter_value it = Some (Some bv)" "denotes v bv" using elem_at_value [OF assms(1)] by blast
  have "\<exists>x. (if vtype v = BSON_TYPE_DOCUMENT then bson_iter_document it else bson_iter_array it) = Some (length (enc_doc es), Some x) \<and>
      take (length (enc_doc es)) x = enc_doc es"
    using assms(2)
  proof
    assume v: "v = VDocument es"
    obtain x where x: "bv = BV_Document x (length (enc_doc es))" "take (length (enc_doc es)) x = enc_doc es" using denotes_document bv(2) v by blast
    then show ?thesis using bv(1) e(1) v by (auto simp: iter_value_simps bind_Some_iff)
  next
    assume v: "v = VArray es"
    obtain x where x: "bv = BV_Array x (length (enc_doc es))" "take (length (enc_doc es)) x = enc_doc es" using denotes_array bv(2) v by blast
    then show ?thesis using bv(1) e(1) v by (auto simp: iter_value_simps bind_Some_iff)
  qed
  then obtain x where x: "(if vtype v = BSON_TYPE_DOCUMENT then bson_iter_document it else bson_iter_array it) = Some (length (enc_doc es), Some x)"
      "take (length (enc_doc es)) x = enc_doc es" by blast
  show ?thesis by (rule that [OF x(1) static_view_doc [OF x(2) e(2)] e(2,3)])
qed

subsection \<open>A visit of the fields\<close>

lemma visit_text_ok:
  assumes "take (n + 1) x = s @ [0]" "n = length s" "n < 2 ^ 32" "utf8_text True s"
  shows "visit_text x n cb it key arg d = call_visit cb it key arg d"
proof -
  have "take n x = s" "n \<le> length x" using arg_cong [OF assms(1), of "take n"] arg_cong [OF assms(1), of length] assms(2) by auto
  then show ?thesis using utf8_validate_in [of n x True] assms(3,4) by (simp add: visit_text_def)
qed

lemma visit_field_string:
  assumes "elem_at it k v" "v = VUtf8 s \<or> v = VCode s \<or> v = VSymbol s" "utf8_text True s"
  obtains x where "take (length s + 1) x = s @ [0]" "length s < 2 ^ 32"
    "visit_field V it key (vtype v) d = call_visit (if vtype v = BSON_TYPE_UTF8 then visit_utf8 V else if vtype v = BSON_TYPE_CODE
       then visit_code V else visit_symbol V) it key (Some (x, length s)) d"
proof -
  obtain x where x: "iter_string (vtype v) it = Some (Some (x, length s))" "take (length s + 1) x = s @ [0]" "length s < 2 ^ 32"
    using elem_string [OF assms(1,2)] by blast
  show ?thesis
    by (rule that [OF x(2,3)]) (use assms(2) x(1) visit_text_ok [OF x(2) refl x(3) assms(3)] in
      \<open>auto simp: visit_field_def bson_iter_utf8_def bson_iter_code_def bson_iter_symbol_def\<close>)
qed

lemma visit_field_document:
  assumes "elem_at it k v" "v = VDocument es \<or> v = VArray es"
  obtains x where "at x 0 (enc_doc es)" "length (enc_doc es) \<le> INT_MAX" "wf_elems es"
    "visit_field V it key (vtype v) d = call_visit (if vtype v = BSON_TYPE_DOCUMENT then visit_document V else visit_array V) it key
      (Some (x, length (enc_doc es))) d"
proof -
  from elem_document [OF assms] obtain x where
    x: "(if vtype v = BSON_TYPE_DOCUMENT then bson_iter_document it else bson_iter_array it) = Some (length (enc_doc es), Some x)"
    "static_view x (length (enc_doc es)) = Some True" "at x 0 (enc_doc es)" "length (enc_doc es) \<le> INT_MAX" "wf_elems es" .
  show ?thesis
    by (rule that [OF x(3-5)]) (use assms(2) x(1,2) in \<open>auto simp: visit_field_def visit_nested_def\<close>)
qed

lemma c_string_text:
  assumes "c_string x 0 = Some r"
  shows "take (length r + 1) x = r @ [0]"
proof -
  let ?P = "\<lambda>b. b \<noteq> (0 :: u8)"
  have r: "r = takeWhile ?P x" "length (takeWhile ?P x) < length x" using assms by (auto simp: c_string_def Let_def split: if_splits)
  have "\<not> ?P (x ! length (takeWhile ?P x))" by (rule nth_length_takeWhile [OF r(2)])
  moreover have "take (length (takeWhile ?P x)) x = takeWhile ?P x" by (rule takeWhile_eq_take [symmetric])
  ultimately show ?thesis unfolding r(1) using r(2) by (simp only: take_Suc_conv_app_nth Suc_eq_plus1 [symmetric] not_not)
qed

end
