(* ===== verification/Value_Copy.thy ===== *)
theory Value_Copy
  imports Visit_Elem
begin

text \<open>
  \<^verbatim>\<open>bson_value_copy\<close> of \<^verbatim>\<open>src/bson/bson-value.c\<close>: a value that an iterator hands out points into the document; its copy has
  blocks of its own, of exactly the length the fields of \<^verbatim>\<open>bson_value_t\<close> announce, and stands for the same abstract value.
\<close>

subsection \<open>The code\<close>

text \<open>A text with its length gets a block of one byte more, ended by a NUL (the sum is a \<^verbatim>\<open>uint32_t\<close>); data its exact length.\<close>

definition copy_text :: "(nat \<Rightarrow> u8) \<Rightarrow> bytes \<Rightarrow> nat \<Rightarrow> bytes option" where
  "copy_text junk str len = do {
     x \<leftarrow> mem_read str 0 len;
     dst \<leftarrow> mem_write (bson_malloc junk (add32 len 1)) 0 x;
     mem_write dst len [0] }"

definition copy_data :: "(nat \<Rightarrow> u8) \<Rightarrow> bytes \<Rightarrow> nat \<Rightarrow> bytes option" where
  "copy_data junk data len = do { x \<leftarrow> mem_read data 0 len; mem_write (bson_malloc junk len) 0 x }"

fun bson_value_copy :: "(nat \<Rightarrow> u8) \<Rightarrow> bson_value \<Rightarrow> bson_value option" where
  "bson_value_copy junk (BV_Double x) = Some (BV_Double x)"
| "bson_value_copy junk (BV_Utf8 str len) = do { s \<leftarrow> copy_text junk str len; Some (BV_Utf8 s len) }"
| "bson_value_copy junk (BV_Document data len) = do { x \<leftarrow> copy_data junk data len; Some (BV_Document x len) }"
| "bson_value_copy junk (BV_Array data len) = do { x \<leftarrow> copy_data junk data len; Some (BV_Array x len) }"
| "bson_value_copy junk (BV_Binary subtype data len) = do { x \<leftarrow> copy_data junk data len; Some (BV_Binary subtype x len) }"
| "bson_value_copy junk (BV_Oid i) = Some (BV_Oid (bson_oid_copy i))"
| "bson_value_copy junk (BV_Bool b) = Some (BV_Bool b)"
| "bson_value_copy junk (BV_DateTime x) = Some (BV_DateTime x)"
| "bson_value_copy junk (BV_Regex regex options) = do {
     r \<leftarrow> bson_strdup regex; opt \<leftarrow> bson_strdup options; Some (BV_Regex r opt) }"
| "bson_value_copy junk (BV_DBPointer collection len i) = do {
     s \<leftarrow> copy_text junk collection len; Some (BV_DBPointer s len (bson_oid_copy i)) }"
| "bson_value_copy junk (BV_Code code len) = do { s \<leftarrow> copy_text junk code len; Some (BV_Code s len) }"
| "bson_value_copy junk (BV_Symbol str len) = do { s \<leftarrow> copy_text junk str len; Some (BV_Symbol s len) }"
| "bson_value_copy junk (BV_CodeWScope code code_len scope scope_len) = do {
     s \<leftarrow> copy_text junk code code_len; x \<leftarrow> copy_data junk scope scope_len; Some (BV_CodeWScope s code_len x scope_len) }"
| "bson_value_copy junk (BV_Int32 x) = Some (BV_Int32 x)"
| "bson_value_copy junk (BV_Timestamp ts inc) = Some (BV_Timestamp ts inc)"
| "bson_value_copy junk (BV_Int64 x) = Some (BV_Int64 x)"
| "bson_value_copy junk (BV_Decimal128 hi lo) = Some (BV_Decimal128 hi lo)"
| "bson_value_copy junk BV_Undefined = Some BV_Undefined"
| "bson_value_copy junk BV_Null = Some BV_Null"
| "bson_value_copy junk BV_MaxKey = Some BV_MaxKey"
| "bson_value_copy junk BV_MinKey = Some BV_MinKey"
| "bson_value_copy junk BV_EOD = None"

subsection \<open>What is copied\<close>

lemma copy_text_prefix:
  assumes "take (length s) x = s" "length s \<le> INT_MAX"
  shows "copy_text junk x (length s) = Some (s @ [0])"
proof -
  have "length s \<le> length x" using assms(1) by (metis length_take min.cobounded1)
  then show ?thesis using assms by (simp add: copy_text_def mem_read_def mem_write_def add32_def)
qed

lemma copy_data_prefix: "take (length s) x = s \<Longrightarrow> copy_data junk x (length s) = Some s"
proof -
  assume a: "take (length s) x = s"
  then have "length s \<le> length x" by (metis length_take min.cobounded1)
  with a show ?thesis by (simp add: copy_data_def mem_read_def mem_write_def)
qed

lemma take_less:
  assumes "take (length s + 1) x = s @ r"
  shows "take (length s) x = s"
  using arg_cong [OF assms, of "take (length s)"] by simp

text \<open>The copy of a value of a document stands for what the original stands for, and is exactly \<open>value_of\<close> it.\<close>

lemma copy_denotes:
  assumes "denotes v bv" "length (enc_val v) \<le> INT_MAX"
  shows "bson_value_copy junk bv = Some (value_of v)"
proof (cases v)
  case (VUtf8 s)
  then show ?thesis using assms denotes_utf8 [of s bv] copy_text_prefix [OF take_less, of s] by (auto simp: length_enc_string)
next
  case (VSymbol s)
  then show ?thesis using assms denotes_symbol [of s bv] copy_text_prefix [OF take_less, of s] by (auto simp: length_enc_string)
next
  case (VCode c)
  then show ?thesis using assms denotes_code [of c bv] copy_text_prefix [OF take_less [OF c_string_text]] by (auto simp: length_enc_string)
next
  case (VDBPointer c i)
  then show ?thesis using assms denotes_dbpointer [of c i bv] copy_text_prefix [OF take_less [OF c_string_text]]
    by (auto simp: length_enc_string bson_oid_copy_def)
next
  case (VCodeWScope c es)
  then show ?thesis
    using assms denotes_codewscope [of c es bv] copy_text_prefix [OF take_less [OF c_string_text]] copy_data_prefix [of "enc_doc es"]
    by (auto simp: length_enc_string Let_def)
next
  case (VDocument es)
  then show ?thesis using assms(1) denotes_document [of es bv] copy_data_prefix by auto
next
  case (VArray es)
  then show ?thesis using assms(1) denotes_array [of es bv] copy_data_prefix by auto
next
  case (VBinary st b)
  then show ?thesis using assms(1) denotes_binary [of st b bv] copy_data_prefix by auto
next
  case (VRegex r opt)
  then show ?thesis using assms(1) denotes_regex [of r opt bv] by (auto simp: bson_strdup_def)
qed (use assms(1) in \<open>auto simp: bson_oid_copy_def\<close>)

end
