(* ===== verification/Validate.thy ===== *)
theory Validate
  imports Visit_Loop
begin

text \<open>
  \<^verbatim>\<open>bson_validate\<close> of \<^verbatim>\<open>src/bson/bson.c\<close>: the callbacks over \<^verbatim>\<open>bson_validate_state_t\<close>, the nested validation of documents
  and scopes, and what an accepted document satisfies.
\<close>

subsection \<open>State and callbacks\<close>

datatype validate_flag =
    BSON_VALIDATE_UTF8
  | BSON_VALIDATE_DOLLAR_KEYS
  | BSON_VALIDATE_DOT_KEYS
  | BSON_VALIDATE_UTF8_ALLOW_NULL
  | BSON_VALIDATE_EMPTY_KEYS

datatype validate_phase =
    PHASE_START
  | PHASE_TOP
  | PHASE_LF_REF_KEY
  | PHASE_LF_REF_UTF8
  | PHASE_LF_ID_KEY
  | PHASE_LF_DB_KEY
  | PHASE_LF_DB_UTF8
  | PHASE_NOT_DBREF

text \<open>The error is its code (\<open>None\<close> for \<^verbatim>\<open>BSON_VALIDATE_NONE\<close>) and its message, cut to the buffer of \<^verbatim>\<open>bson_error_t\<close>.\<close>

record validate_state =
  vs_flags :: "validate_flag set"
  vs_err_offset :: int
  vs_phase :: validate_phase
  vs_error :: "(validate_flag option \<times> bytes) option"

definition validation_err :: "validate_flag option \<Rightarrow> bytes \<Rightarrow> validate_state \<Rightarrow> validate_state" where
  "validation_err code msg st = st\<lparr>vs_error := Some (code, take 503 msg)\<rparr>"

definition quoted :: "string \<Rightarrow> bytes \<Rightarrow> bytes" where
  "quoted msg k = str_of msg @ [0x22] @ k @ [0x22]"

definition validate_utf8 ::
  "bson_iter \<Rightarrow> bytes \<Rightarrow> bytes \<times> nat \<Rightarrow> validate_state \<Rightarrow> (bool \<times> validate_state) option" where
  "validate_utf8 it key arg st = do {
     ok \<leftarrow> (if BSON_VALIDATE_UTF8 \<in> vs_flags st
             then bson_utf8_validate (fst arg) (snd arg) (BSON_VALIDATE_UTF8_ALLOW_NULL \<in> vs_flags st)
             else Some True);
     (if \<not> ok then do {
        k \<leftarrow> c_string key 0;
        Some (True, validation_err (Some BSON_VALIDATE_UTF8) (quoted ''invalid utf8 string for key '' k)
          (st\<lparr>vs_err_offset := int (i_off it)\<rparr>)) }
      else if BSON_VALIDATE_DOLLAR_KEYS \<in> vs_flags st then
        (if vs_phase st = PHASE_LF_REF_UTF8 then Some (False, st\<lparr>vs_phase := PHASE_LF_ID_KEY\<rparr>)
         else if vs_phase st = PHASE_LF_DB_UTF8 then Some (False, st\<lparr>vs_phase := PHASE_NOT_DBREF\<rparr>)
         else Some (False, st))
      else Some (False, st)) }"

definition validate_corrupt :: "bson_iter \<Rightarrow> validate_state \<Rightarrow> validate_state option" where
  "validate_corrupt it st =
     Some (validation_err None (str_of ''corrupt BSON'') (st\<lparr>vs_err_offset := int (i_err_off it)\<rparr>))"

text \<open>The check of a key that starts with a dollar and of one that does not, on the key as a string.\<close>

definition before_dollar :: "bson_iter \<Rightarrow> bytes \<Rightarrow> validate_state \<Rightarrow> bool \<times> validate_state" where
  "before_dollar it k st =
     (if k \<noteq> [] \<and> hd k = 0x24 then
        (if vs_phase st = PHASE_LF_REF_KEY \<and> k = str_of ''$ref'' then (False, st\<lparr>vs_phase := PHASE_LF_REF_UTF8\<rparr>)
         else if vs_phase st = PHASE_LF_ID_KEY \<and> k = str_of ''$id'' then (False, st\<lparr>vs_phase := PHASE_LF_DB_KEY\<rparr>)
         else if vs_phase st = PHASE_LF_DB_KEY \<and> k = str_of ''$db'' then (False, st\<lparr>vs_phase := PHASE_LF_DB_UTF8\<rparr>)
         else (True, validation_err (Some BSON_VALIDATE_DOLLAR_KEYS)
                (str_of ''keys cannot begin with '' @ [0x22, 0x24, 0x22] @ str_of '': '' @ [0x22] @ k @ [0x22])
                (st\<lparr>vs_err_offset := int (i_off it)\<rparr>)))
      else if vs_phase st = PHASE_LF_ID_KEY \<or> vs_phase st = PHASE_LF_REF_UTF8 \<or> vs_phase st = PHASE_LF_DB_UTF8 then
        (True, validation_err (Some BSON_VALIDATE_DOLLAR_KEYS) (quoted ''invalid key within DBRef subdocument: '' k)
           (st\<lparr>vs_err_offset := int (i_off it)\<rparr>))
      else (False, st\<lparr>vs_phase := PHASE_NOT_DBREF\<rparr>))"

definition validate_before :: "bson_iter \<Rightarrow> bytes \<Rightarrow> unit \<Rightarrow> validate_state \<Rightarrow> (bool \<times> validate_state) option" where
  "validate_before it key arg st = do {
     k \<leftarrow> c_string key 0;
     (if BSON_VALIDATE_EMPTY_KEYS \<in> vs_flags st \<and> k = [] then
        Some (True, validation_err (Some BSON_VALIDATE_EMPTY_KEYS) (str_of ''empty key'') (st\<lparr>vs_err_offset := int (i_off it)\<rparr>))
      else do {
        let (stop, st) = (if BSON_VALIDATE_DOLLAR_KEYS \<in> vs_flags st then before_dollar it k st else (False, st));
        (if stop then Some (True, st)
         else if BSON_VALIDATE_DOT_KEYS \<in> vs_flags st \<and> 0x2E \<in> set k then
           Some (True, validation_err (Some BSON_VALIDATE_DOT_KEYS)
             (str_of ''keys cannot contain '' @ [0x22, 0x2E, 0x22] @ str_of '': '' @ [0x22] @ k @ [0x22])
             (st\<lparr>vs_err_offset := int (i_off it)\<rparr>))
         else Some (False, st)) }) }"

text \<open>
  \<^verbatim>\<open>_bson_iter_validate_document\<close>, with the visitor that the child is visited with (\<^verbatim>\<open>bson_validate_funcs\<close>) as an
  argument.
\<close>

definition validate_document ::
  "validate_state bson_visitor \<Rightarrow> bson_iter \<Rightarrow> doc_view \<Rightarrow> validate_state \<Rightarrow> (bool \<times> validate_state) option" where
  "validate_document V it doc st =
     (if snd doc < 5 then Some (True, st\<lparr>vs_err_offset := int (i_off it)\<rparr>)
      else do {
        let phase = vs_phase st;
        (_, _, st) \<leftarrow> bson_iter_visit_all V (start_iter (fst doc) (snd doc))
          (st\<lparr>vs_phase := (if phase = PHASE_START then PHASE_TOP else PHASE_LF_REF_KEY)\<rparr>);
        (if vs_phase st = PHASE_LF_ID_KEY \<or> vs_phase st = PHASE_LF_REF_UTF8 \<or> vs_phase st = PHASE_LF_DB_UTF8
         then Some (True, if vs_err_offset st \<le> 0 then st\<lparr>vs_err_offset := int (i_off it)\<rparr> else st)
         else Some (False, st\<lparr>vs_phase := phase\<rparr>)) })"

text \<open>\<^verbatim>\<open>_bson_validate_internal\<close>.\<close>

definition validate_internal ::
  "validate_state bson_visitor \<Rightarrow> doc_view \<Rightarrow> validate_flag set \<Rightarrow> validate_state option" where
  "validate_internal V doc flags =
     (let st = \<lparr>vs_flags = flags, vs_err_offset = -1, vs_phase = PHASE_START, vs_error = None\<rparr> in
      if snd doc < 5 then Some (validation_err None (str_of ''corrupt BSON'') (st\<lparr>vs_err_offset := 0\<rparr>))
      else map_option snd (validate_document V (start_iter (fst doc) (snd doc)) doc st))"

definition validate_codewscope ::
  "validate_state bson_visitor \<Rightarrow> bson_iter \<Rightarrow> doc_view \<Rightarrow> validate_state \<Rightarrow> (bool \<times> validate_state) option" where
  "validate_codewscope V it scope st = do {
     st' \<leftarrow> validate_internal V scope (vs_flags st);
     (if \<not> vs_err_offset st' < 0 then
        Some (False, validation_err None (str_of ''corrupt code-with-scope'')
          (st\<lparr>vs_err_offset := int (i_off it) + (if vs_err_offset st' > 0 then vs_err_offset st' else 0)\<rparr>))
      else Some (True, st)) }"

text \<open>
  The visitor \<^verbatim>\<open>bson_validate_funcs\<close>, whose callbacks for nested documents visit them with the visitor itself: the
  number bounds the nesting.
\<close>

definition validate_visitor ::
  "(bson_iter \<Rightarrow> doc_view \<Rightarrow> validate_state \<Rightarrow> (bool \<times> validate_state) option) \<Rightarrow>
   (bson_iter \<Rightarrow> doc_view \<Rightarrow> validate_state \<Rightarrow> (bool \<times> validate_state) option) \<Rightarrow> validate_state bson_visitor" where
  "validate_visitor document codewscope =
     \<lparr>visit_before = Some validate_before, visit_after = None, visit_corrupt = Some validate_corrupt, visit_double = None,
      visit_utf8 = Some validate_utf8, visit_document = Some (\<lambda>it key. document it), visit_array = Some (\<lambda>it key. document it),
      visit_binary = None, visit_undefined = None, visit_oid = None, visit_bool = None, visit_date_time = None,
      visit_null = None, visit_regex = None, visit_dbpointer = None, visit_code = None, visit_symbol = None,
      visit_codewscope = Some (\<lambda>it key arg. codewscope it (snd (snd arg))), visit_int32 = None, visit_timestamp = None,
      visit_int64 = None, visit_maxkey = None, visit_minkey = None, visit_unsupported_type = None, visit_decimal128 = None\<rparr>"

primrec bson_validate_funcs :: "nat \<Rightarrow> validate_state bson_visitor" where
  "bson_validate_funcs 0 = validate_visitor (\<lambda>it doc st. None) (\<lambda>it doc st. None)"
| "bson_validate_funcs (Suc n) =
     validate_visitor (validate_document (bson_validate_funcs n)) (validate_codewscope (bson_validate_funcs n))"

text \<open>
  \<^verbatim>\<open>bson_validate\<close>: the answer and \<^verbatim>\<open>*offset\<close> if it is set. Nested documents are shorter than the document, so its length
  bounds the nesting.
\<close>

definition bson_validate_view :: "doc_view \<Rightarrow> validate_flag set \<Rightarrow> (bool \<times> int option) option" where
  "bson_validate_view doc flags = do {
     st \<leftarrow> validate_internal (bson_validate_funcs (snd doc)) doc flags;
     Some (vs_err_offset st < 0, if vs_err_offset st > 0 then Some (vs_err_offset st) else None) }"

definition bson_validate :: "heap \<Rightarrow> addr \<Rightarrow> validate_flag set \<Rightarrow> (bool \<times> int option) option" where
  "bson_validate H a flags = do {
     d \<leftarrow> h_docs H a;
     mem \<leftarrow> doc_mem H d;
     bson_validate_view (drop (doc_off d) mem, b_len d) flags }"

definition bson_validate_with_error ::
  "heap \<Rightarrow> addr \<Rightarrow> validate_flag set \<Rightarrow> (bool \<times> (validate_flag option \<times> bytes) option) option" where
  "bson_validate_with_error H a flags = do {
     d \<leftarrow> h_docs H a;
     mem \<leftarrow> doc_mem H d;
     st \<leftarrow> validate_internal (bson_validate_funcs (b_len d)) (drop (doc_off d) mem, b_len d) flags;
     Some (vs_err_offset st < 0, if vs_err_offset st > 0 then vs_error st else None) }"

end
