(* ===== verification/Validate_Safe.thy ===== *)
theory Validate_Safe
  imports Validate
begin

text \<open>Validation returns on every content of the memory, and answers what the documents it meets are.\<close>

subsection \<open>Validation returns\<close>

lemma validate_visitor_total:
  assumes D: "\<And>it doc st. doc_arg len doc \<Longrightarrow> D it doc st \<noteq> None"
    and C: "\<And>it doc st. doc_arg len doc \<Longrightarrow> C it doc st \<noteq> None"
  shows "visitor_total (validate_visitor D C) len"
proof -
  have b: "total_on (Some validate_before) (\<lambda>_. True)"
    by (auto simp: total_on_def validate_before_def split: prod.split)
  have u: "total_on (Some validate_utf8) text_arg"
    by (auto simp: total_on_def validate_utf8_def text_arg_def utf8_validate_in)
  have d: "total_on (Some (\<lambda>it key. D it)) (doc_arg len)" using D by (auto simp: total_on_def)
  have c: "total_on (Some (\<lambda>it key arg. C it (snd (snd arg)))) (\<lambda>(c, n, doc). text_arg (c, n) \<and> doc_arg len doc)"
    using C by (auto simp: total_on_def)
  show ?thesis using b u d c by (simp add: visitor_total_def validate_visitor_def validate_corrupt_def)
qed

lemma start_iter_in: "n \<le> INT_MAX \<Longrightarrow> n \<le> length raw \<Longrightarrow> iter_in (start_iter raw n)"
  by (simp add: iter_in_def start_iter_def)

lemma validate_document_total:
  assumes V: "5 \<le> snd doc \<Longrightarrow> visitor_total V (snd doc)" and doc: "snd doc + 4 \<le> length (fst doc)" "snd doc \<le> INT_MAX"
  shows "validate_document V it doc st \<noteq> None"
proof (cases "snd doc < 5")
  case False
  have v: "visitor_total V (snd doc)" using V False by simp
  have "iter_in (start_iter (fst doc) (snd doc))" by (rule start_iter_in) (use doc in simp_all)
  moreover have "slack (start_iter (fst doc) (snd doc))" using doc by (simp add: slack_def start_iter_def)
  ultimately have t: "bson_iter_visit_all V (start_iter (fst doc) (snd doc)) d \<noteq> None" for d
    by (rule visit_all_total [OF v]) (simp add: start_iter_def)
  obtain b it' d where "bson_iter_visit_all V (start_iter (fst doc) (snd doc))
      (st\<lparr>vs_phase := (if vs_phase st = PHASE_START then PHASE_TOP else PHASE_LF_REF_KEY)\<rparr>) = Some (b, it', d)"
    using t by (metis not_None_eq prod_cases3)
  then show ?thesis using False by (simp add: validate_document_def Let_def del: not_None_eq)
qed (simp add: validate_document_def)

lemma validate_internal_total:
  "(\<And>it st. validate_document V it doc st \<noteq> None) \<Longrightarrow> validate_internal V doc flags \<noteq> None"
  by (simp add: validate_internal_def Let_def del: not_None_eq)

lemma validate_codewscope_total:
  assumes "\<And>it st. validate_document V it doc st \<noteq> None"
  shows "validate_codewscope V it doc st \<noteq> None"
proof -
  obtain st' where "validate_internal V doc (vs_flags st) = Some st'" using validate_internal_total [OF assms] by fast
  then show ?thesis by (simp add: validate_codewscope_def del: not_None_eq)
qed

lemma validate_funcs_total:
  "len \<le> Suc n \<Longrightarrow> len \<le> INT_MAX \<Longrightarrow> visitor_total (bson_validate_funcs (Suc n)) len"
proof (induction n arbitrary: len)
  case 0
  have "validate_document (bson_validate_funcs 0) it doc st \<noteq> None" if "doc_arg len doc" for it doc st
    by (rule validate_document_total) (use that 0 in \<open>auto simp: doc_arg_def\<close>)
  then show ?case using validate_visitor_total [of len] validate_codewscope_total by simp
next
  case (Suc n)
  have "validate_document (bson_validate_funcs (Suc n)) it doc st \<noteq> None" if "doc_arg len doc" for it doc st
    by (rule validate_document_total) (use that Suc.prems Suc.IH [of "snd doc"] in \<open>auto simp: doc_arg_def\<close>)
  then show ?case
    unfolding bson_validate_funcs.simps(2) [of "Suc n"] using validate_visitor_total [of len] validate_codewscope_total by blast
qed

lemma validate_view_total:
  assumes "n + 4 \<le> length raw" "n \<le> INT_MAX"
  shows "validate_internal (bson_validate_funcs n) (raw, n) flags \<noteq> None"
proof (rule validate_internal_total, rule validate_document_total)
  show "visitor_total (bson_validate_funcs n) (snd (raw, n))" if "5 \<le> snd (raw, n)"
    using that validate_funcs_total [of n "n - 1"] assms(2) by (cases n) simp_all
qed (use assms in simp_all)

text \<open>
  C22. \<open>bson_validate\<close> returns for every content of the document's bytes (with four more bytes of memory behind the
  document), every set of flags and every nesting: it never reads outside the memory and never recurses for ever.
\<close>
theorem validate_returns:
  assumes "h_docs H a = Some d" "doc_mem H d = Some mem" "doc_off d + b_len d + 4 \<le> length mem" "b_len d \<le> INT_MAX"
  shows "bson_validate H a flags \<noteq> None \<and> bson_validate_with_error H a flags \<noteq> None"
proof -
  have "b_len d + 4 \<le> length (drop (doc_off d) mem)" using assms(3) by simp
  from validate_view_total [OF this assms(4)] obtain st where
    "validate_internal (bson_validate_funcs (b_len d)) (drop (doc_off d) mem, b_len d) flags = Some st" by blast
  then show ?thesis using assms(1,2) by (simp add: bson_validate_def bson_validate_view_def bson_validate_with_error_def)
qed

lemma inline_length: "length (b_data (inline_doc j a fl)) = BSON_INLINE_DATA_SIZE"
  unfolding inline_doc_def bson_t.simps length_append length_map length_upt by simp

lemma validate_returns_witness:
  "bson_validate two_heap 0 {BSON_VALIDATE_UTF8} \<noteq> None \<and> bson_validate_with_error two_heap 0 {BSON_VALIDATE_UTF8} \<noteq> None"
proof (rule validate_returns)
  let ?d = "inline_doc (h_junk empty_heap) 0 {BSON_FLAG_INLINE, BSON_FLAG_STATIC}"
  have d: "b_flags ?d = {BSON_FLAG_INLINE, BSON_FLAG_STATIC}" "b_len ?d = 5" by (simp_all add: inline_doc_def)
  show "h_docs two_heap 0 = Some ?d" by (simp add: two_heap_def bson_init_def)
  show "doc_mem two_heap ?d = Some (b_data ?d)" by (simp add: doc_mem_def d)
  show "doc_off ?d + b_len ?d + 4 \<le> length (b_data ?d)" "b_len ?d \<le> INT_MAX"
    unfolding doc_off_def d inline_length by simp_all
qed

end
