(* ===== verification/Validate_Exact.thy ===== *)
theory Validate_Exact
  imports Validate_Safe Visit_Elem
begin

text \<open>
  What an accepted document is: for documents whose texts are UTF-8 and that hold no code with scope the answer of
  \<^verbatim>\<open>bson_validate\<close> is a predicate on the abstract document.
\<close>

subsection \<open>The predicate\<close>

definition key_valid :: "validate_flag set \<Rightarrow> bytes \<Rightarrow> bool" where
  "key_valid F k \<longleftrightarrow> utf8_text False k \<and> (BSON_VALIDATE_EMPTY_KEYS \<in> F \<longrightarrow> k \<noteq> []) \<and> (BSON_VALIDATE_DOT_KEYS \<in> F \<longrightarrow> 0x2E \<notin> set k)"

definition dollar_key :: "bytes \<Rightarrow> bool" where
  "dollar_key k \<longleftrightarrow> k \<noteq> [] \<and> hd k = 0x24"

definition no_dollar :: "elems \<Rightarrow> bool" where
  "no_dollar es \<longleftrightarrow> (\<forall>(k, v) \<in> set es. \<not> dollar_key k)"

text \<open>A subdocument may be a database reference: \<open>$ref\<close> (text), \<open>$id\<close>, optionally \<open>$db\<close> (text), then plain keys.\<close>

definition dbref :: "elems \<Rightarrow> bool" where
  "dbref es \<longleftrightarrow> (\<exists>r i rest. es = (str_of ''$ref'', VUtf8 r) # (str_of ''$id'', i) # rest \<and>
     (no_dollar rest \<or> (\<exists>db rest'. rest = (str_of ''$db'', VUtf8 db) # rest' \<and> no_dollar rest')))"

fun val_valid :: "validate_flag set \<Rightarrow> bval \<Rightarrow> bool" and elems_valid :: "validate_flag set \<Rightarrow> elems \<Rightarrow> bool" where
  "val_valid F (VUtf8 s) \<longleftrightarrow> (BSON_VALIDATE_UTF8 \<in> F \<longrightarrow> utf8_text (BSON_VALIDATE_UTF8_ALLOW_NULL \<in> F) s)"
| "val_valid F (VDocument es) \<longleftrightarrow> elems_valid F es \<and> (BSON_VALIDATE_DOLLAR_KEYS \<in> F \<longrightarrow> no_dollar es \<or> dbref es)"
| "val_valid F (VArray es) \<longleftrightarrow> elems_valid F es \<and> (BSON_VALIDATE_DOLLAR_KEYS \<in> F \<longrightarrow> no_dollar es \<or> dbref es)"
| "val_valid F _ \<longleftrightarrow> True"
| "elems_valid F [] \<longleftrightarrow> True"
| "elems_valid F ((k, v) # es) \<longleftrightarrow> key_valid F k \<and> val_valid F v \<and> elems_valid F es"

fun texts_val :: "bval \<Rightarrow> bool" and texts_elems :: "elems \<Rightarrow> bool" where
  "texts_val (VUtf8 s) \<longleftrightarrow> utf8_text True s"
| "texts_val (VSymbol s) \<longleftrightarrow> utf8_text True s"
| "texts_val (VCode s) \<longleftrightarrow> utf8_text True s"
| "texts_val (VRegex r opt) \<longleftrightarrow> utf8_text True r"
| "texts_val (VDBPointer c i) \<longleftrightarrow> utf8_text True c"
| "texts_val (VCodeWScope c es) \<longleftrightarrow> False"
| "texts_val (VDocument es) \<longleftrightarrow> texts_elems es"
| "texts_val (VArray es) \<longleftrightarrow> texts_elems es"
| "texts_val _ \<longleftrightarrow> True"
| "texts_elems [] \<longleftrightarrow> True"
| "texts_elems ((k, v) # es) \<longleftrightarrow> texts_val v \<and> texts_elems es"


subsection \<open>The phases\<close>

definition key_phase :: "bytes \<Rightarrow> validate_phase \<Rightarrow> validate_phase option" where
  "key_phase k p =
     (if dollar_key k then
        (if p = PHASE_LF_REF_KEY \<and> k = str_of ''$ref'' then Some PHASE_LF_REF_UTF8
         else if p = PHASE_LF_ID_KEY \<and> k = str_of ''$id'' then Some PHASE_LF_DB_KEY
         else if p = PHASE_LF_DB_KEY \<and> k = str_of ''$db'' then Some PHASE_LF_DB_UTF8
         else None)
      else if p \<in> {PHASE_LF_ID_KEY, PHASE_LF_REF_UTF8, PHASE_LF_DB_UTF8} then None
      else Some PHASE_NOT_DBREF)"

definition val_phase :: "bval \<Rightarrow> validate_phase \<Rightarrow> validate_phase" where
  "val_phase v p = (case v of VUtf8 s \<Rightarrow>
     (if p = PHASE_LF_REF_UTF8 then PHASE_LF_ID_KEY else if p = PHASE_LF_DB_UTF8 then PHASE_NOT_DBREF else p) | _ \<Rightarrow> p)"

fun phases :: "elems \<Rightarrow> validate_phase \<Rightarrow> validate_phase option" where
  "phases [] p = Some p"
| "phases ((k, v) # es) p = (case key_phase k p of None \<Rightarrow> None | Some p' \<Rightarrow> phases es (val_phase v p'))"

definition open_dbref :: "validate_phase \<Rightarrow> bool" where
  "open_dbref p \<longleftrightarrow> p \<in> {PHASE_LF_ID_KEY, PHASE_LF_REF_UTF8, PHASE_LF_DB_UTF8}"

lemma no_dollar_simps [simp]: "no_dollar []" "no_dollar ((k, v) # es) \<longleftrightarrow> \<not> dollar_key k \<and> no_dollar es"
  by (simp_all add: no_dollar_def)

lemma phases_closed: "p \<in> {PHASE_TOP, PHASE_NOT_DBREF} \<Longrightarrow>
    phases es p = (if no_dollar es then Some (if es = [] then p else PHASE_NOT_DBREF) else None)"
proof (induction es arbitrary: p)
  case (Cons e es)
  obtain k v where e: "e = (k, v)" by fastforce
  show ?case using Cons.prems Cons.IH [of PHASE_NOT_DBREF] e by (auto simp: key_phase_def val_phase_def split: bval.split)
qed simp

lemma dollar_keys: "dollar_key (str_of ''$ref'')" "dollar_key (str_of ''$id'')" "dollar_key (str_of ''$db'')"
  by (simp_all add: dollar_key_def str_of_def)

lemma phases_db: "phases es PHASE_LF_DB_KEY \<noteq> None \<and> \<not> open_dbref (the (phases es PHASE_LF_DB_KEY)) \<longleftrightarrow>
   no_dollar es \<or> (\<exists>db rest. es = (str_of ''$db'', VUtf8 db) # rest \<and> no_dollar rest)"
proof (cases es)
  case (Cons e es')
  obtain k v where e: "e = (k, v)" by fastforce
  have closed: "phases es' PHASE_NOT_DBREF = (if no_dollar es' then Some PHASE_NOT_DBREF else None)"
    using phases_closed [of PHASE_NOT_DBREF es'] by simp
  have stuck: "phases es' PHASE_LF_DB_UTF8 \<noteq> None \<Longrightarrow> es' = []"
    by (cases es') (auto simp: key_phase_def split: if_splits)
  have v: "val_phase v PHASE_LF_DB_UTF8 = (if \<exists>s. v = VUtf8 s then PHASE_NOT_DBREF else PHASE_LF_DB_UTF8)"
    "val_phase v PHASE_NOT_DBREF = PHASE_NOT_DBREF"
    by (auto simp: val_phase_def split: bval.split)
  show ?thesis
  proof (cases "dollar_key k")
    case True
    show ?thesis using True e Cons closed stuck v by (auto simp: key_phase_def open_dbref_def)
  next
    case False
    then have "k \<noteq> str_of ''$db''" using dollar_keys by metis
    then show ?thesis using False e Cons closed v by (auto simp: key_phase_def open_dbref_def)
  qed
qed (simp add: open_dbref_def)

lemma phases_sub: "phases es PHASE_LF_REF_KEY \<noteq> None \<and> \<not> open_dbref (the (phases es PHASE_LF_REF_KEY)) \<longleftrightarrow> no_dollar es \<or> dbref es"
proof (cases es)
  case (Cons e es')
  obtain k v where e: "e = (k, v)" by fastforce
  have closed: "phases es' PHASE_NOT_DBREF = (if no_dollar es' then Some PHASE_NOT_DBREF else None)"
    using phases_closed [of PHASE_NOT_DBREF es'] by simp
  have stuck: "phases es' PHASE_LF_REF_UTF8 \<noteq> None \<Longrightarrow> es' = []"
    by (cases es') (auto simp: key_phase_def split: if_splits)
  have v: "val_phase v PHASE_LF_REF_UTF8 = (if \<exists>s. v = VUtf8 s then PHASE_LF_ID_KEY else PHASE_LF_REF_UTF8)"
    "val_phase v PHASE_NOT_DBREF = PHASE_NOT_DBREF" "val_phase v' PHASE_LF_DB_KEY = PHASE_LF_DB_KEY" for v'
    by (auto simp: val_phase_def split: bval.split)
  show ?thesis
  proof (cases "dollar_key k")
    case False
    then have "k \<noteq> str_of ''$ref''" using dollar_keys by metis
    then show ?thesis using False e Cons closed v by (auto simp: key_phase_def open_dbref_def dbref_def)
  next
    case True
    have id: "phases es' PHASE_LF_ID_KEY \<noteq> None \<and> \<not> open_dbref (the (phases es' PHASE_LF_ID_KEY)) \<longleftrightarrow>
        (\<exists>i rest. es' = (str_of ''$id'', i) # rest \<and> (no_dollar rest \<or> (\<exists>db rest'. rest = (str_of ''$db'', VUtf8 db) # rest' \<and> no_dollar rest')))"
    proof (cases es')
      case (Cons f es2)
      obtain k2 v2 where f: "f = (k2, v2)" by fastforce
      show ?thesis
      proof (cases "k2 = str_of ''$id''")
        case True
        then show ?thesis using Cons f phases_db [of es2] v(3) dollar_keys(2) by (simp add: key_phase_def)
      qed (use Cons f in \<open>auto simp: key_phase_def\<close>)
    qed (simp add: open_dbref_def)
    show ?thesis
    proof (cases "k = str_of ''$ref'' \<and> (\<exists>s. v = VUtf8 s)")
      case True
      then show ?thesis using Cons e id v(1) dollar_keys(1) by (auto simp: key_phase_def dbref_def)
    next
      case False
      then show ?thesis using \<open>dollar_key k\<close> Cons e stuck v(1) by (auto simp: key_phase_def dbref_def open_dbref_def)
    qed
  qed
qed (simp add: open_dbref_def)


subsection \<open>One element\<close>

text \<open>The phase after a key, after a value and after elements, when the dollar keys are checked at all.\<close>

definition step_phase :: "validate_flag set \<Rightarrow> (validate_phase \<Rightarrow> validate_phase option) \<Rightarrow> validate_phase \<Rightarrow> validate_phase option" where
  "step_phase F f p = (if BSON_VALIDATE_DOLLAR_KEYS \<in> F then f p else Some p)"

text \<open>
  The state after something whose verdict is \<open>ok\<close> and whose phase is \<open>r\<close>: an error stays, and there is a new one exactly
  if the verdict is negative.
\<close>

definition outcome :: "validate_state \<Rightarrow> bool \<Rightarrow> validate_phase option \<Rightarrow> validate_state \<Rightarrow> bool" where
  "outcome st ok r st' \<longleftrightarrow> (vs_phase st \<noteq> PHASE_START \<longrightarrow> vs_phase st' \<noteq> PHASE_START) \<and> vs_flags st' = vs_flags st \<and> (0 \<le> vs_err_offset st \<longrightarrow> 0 \<le> vs_err_offset st') \<and>
     (vs_err_offset st < 0 \<longrightarrow> (if ok \<and> r \<noteq> None then vs_err_offset st' < 0 \<and> r = Some (vs_phase st') else 0 \<le> vs_err_offset st'))"

definition continues :: "validate_state \<Rightarrow> bool \<Rightarrow> validate_phase option \<Rightarrow> validate_state \<Rightarrow> bool" where
  "continues st ok r st' \<longleftrightarrow> (vs_phase st \<noteq> PHASE_START \<longrightarrow> vs_phase st' \<noteq> PHASE_START) \<and> vs_flags st' = vs_flags st \<and> vs_err_offset st' = vs_err_offset st \<and> ok \<and> r = Some (vs_phase st')"

definition stops :: "validate_state \<Rightarrow> bool \<Rightarrow> validate_phase option \<Rightarrow> validate_state \<Rightarrow> bool" where
  "stops st ok r st' \<longleftrightarrow> (vs_phase st \<noteq> PHASE_START \<longrightarrow> vs_phase st' \<noteq> PHASE_START) \<and> vs_flags st' = vs_flags st \<and> 0 \<le> vs_err_offset st' \<and> (vs_err_offset st < 0 \<longrightarrow> \<not> (ok \<and> r \<noteq> None))"

lemma phase_not_start:
  "key_phase k p = Some p' \<Longrightarrow> p' \<noteq> PHASE_START"
  "p \<noteq> PHASE_START \<Longrightarrow> val_phase v p \<noteq> PHASE_START"
  by (auto simp: key_phase_def val_phase_def split: if_splits bval.splits)

lemma before_dollar_result:
  "before_dollar it k st = (case key_phase k (vs_phase st) of
     None \<Rightarrow> (True, snd (before_dollar it k st)) | Some p \<Rightarrow> (False, st\<lparr>vs_phase := p\<rparr>))"
  "key_phase k (vs_phase st) = None \<Longrightarrow> vs_flags (snd (before_dollar it k st)) = vs_flags st \<and>
     vs_err_offset (snd (before_dollar it k st)) = int (i_off it) \<and>
     vs_phase (snd (before_dollar it k st)) = vs_phase st"
  by (auto simp: before_dollar_def key_phase_def dollar_key_def [symmetric] validation_err_def split: if_split_asm)

lemma before_result:
  assumes "c_string kp 0 = Some k" "utf8_text False k"
  obtains st' where "validate_before it kp () st = Some (True, st')" "stops st (key_valid (vs_flags st) k) (step_phase (vs_flags st) (key_phase k) (vs_phase st)) st'"
  | st' where "validate_before it kp () st = Some (False, st')" "continues st (key_valid (vs_flags st) k) (step_phase (vs_flags st) (key_phase k) (vs_phase st)) st'"
proof (cases "BSON_VALIDATE_EMPTY_KEYS \<in> vs_flags st \<and> k = []")
  case True
  then show ?thesis using assms that(1) by (simp add: validate_before_def stops_def key_valid_def validation_err_def)
next
  case False
  note ne = False
  show ?thesis
  proof (cases "step_phase (vs_flags st) (key_phase k) (vs_phase st)")
    case None
    then have d: "BSON_VALIDATE_DOLLAR_KEYS \<in> vs_flags st" "key_phase k (vs_phase st) = None" by (auto simp: step_phase_def split: if_splits)
    note b = before_dollar_result(1) [of it k st, unfolded d(2) option.case]
    have "validate_before it kp () st = Some (True, snd (before_dollar it k st))"
      unfolding validate_before_def assms(1) Option.bind.simps Let_def if_P [OF d(1)] by (subst b) (use ne in auto)
    with before_dollar_result(2) [OF d(2), of it] None show ?thesis by (intro that(1)) (auto simp: stops_def)
  next
    case (Some p)
    have ps: "vs_phase st \<noteq> PHASE_START \<longrightarrow> p \<noteq> PHASE_START"
      using Some phase_not_start(1) by (auto simp: step_phase_def split: if_split_asm)
    have b: "(if BSON_VALIDATE_DOLLAR_KEYS \<in> vs_flags st then before_dollar it k st else (False, st)) = (False, st\<lparr>vs_phase := p\<rparr>)"
      using Some before_dollar_result(1) [of it k st] by (auto simp: step_phase_def split: if_splits)
    show ?thesis
    proof (cases "BSON_VALIDATE_DOT_KEYS \<in> vs_flags st \<and> 0x2E \<in> set k")
      case True
      then show ?thesis using assms ne b ps by (intro that(1)) (auto simp: validate_before_def stops_def key_valid_def validation_err_def)
    next
      case dot: False
      then show ?thesis using assms ne b Some ps by (intro that(2)) (auto simp: validate_before_def continues_def key_valid_def)
    qed
  qed
qed

lemma utf8_result:
  assumes "take (length s + 1) x = s @ [0]" "length s < 2 ^ 32" "c_string kp 0 = Some k"
  obtains st' where "validate_utf8 it kp (x, length s) st = Some (True, st')"
      "stops st (val_valid (vs_flags st) (VUtf8 s)) r st'"
  | st' where "validate_utf8 it kp (x, length s) st = Some (False, st')"
      "continues st (val_valid (vs_flags st) (VUtf8 s)) (step_phase (vs_flags st) (Some \<circ> val_phase (VUtf8 s)) (vs_phase st)) st'"
proof -
  let ?an = "BSON_VALIDATE_UTF8_ALLOW_NULL \<in> vs_flags st"
  have "take (length s) x = s" "length s \<le> length x"
    using arg_cong [OF assms(1), of "take (length s)"] arg_cong [OF assms(1), of length] by auto
  then have u: "bson_utf8_validate x (length s) ?an = Some (utf8_text ?an s)" using utf8_validate_in [of "length s" x ?an] assms(2) by simp
  show ?thesis
  proof (cases "val_valid (vs_flags st) (VUtf8 s)")
    case False
    then show ?thesis using u assms(3) by (intro that(1)) (auto simp: validate_utf8_def validation_err_def stops_def)
  next
    case True
    then have ok: "(if BSON_VALIDATE_UTF8 \<in> vs_flags st then bson_utf8_validate x (length s) ?an else Some True) = Some True"
      using u by auto
    let ?st = "if BSON_VALIDATE_DOLLAR_KEYS \<in> vs_flags st then st\<lparr>vs_phase := val_phase (VUtf8 s) (vs_phase st)\<rparr> else st"
    have "validate_utf8 it kp (x, length s) st = Some (False, ?st)"
      unfolding validate_utf8_def fst_conv snd_conv ok by (simp add: val_phase_def)
    then show ?thesis by (rule that(2)) (use True phase_not_start(2) in \<open>simp add: continues_def step_phase_def\<close>)
  qed
qed

lemma visit_field_types:
  "visit_field V it key BSON_TYPE_DOUBLE d = call_visit (visit_double V) it key (bson_iter_double it) d"
  "visit_field V it key BSON_TYPE_BINARY d =
     (do { (st, r, n) \<leftarrow> bson_iter_binary it; x \<leftarrow> r; call_visit (visit_binary V) it key (Some (st, x, n)) d })"
  "visit_field V it key BSON_TYPE_UNDEFINED d = call_visit (visit_undefined V) it key (Some ()) d"
  "visit_field V it key BSON_TYPE_OID d = call_visit (visit_oid V) it key (do { r \<leftarrow> bson_iter_oid it; r }) d"
  "visit_field V it key BSON_TYPE_BOOL d = call_visit (visit_bool V) it key (bson_iter_bool it) d"
  "visit_field V it key BSON_TYPE_DATE_TIME d = call_visit (visit_date_time V) it key (bson_iter_date_time it) d"
  "visit_field V it key BSON_TYPE_NULL d = call_visit (visit_null V) it key (Some ()) d"
  "visit_field V it key BSON_TYPE_REGEX d = (do {
     r \<leftarrow> bson_iter_regex it; (x, opt) \<leftarrow> r; s \<leftarrow> c_string x 0;
     visit_text x (length s) (visit_regex V) it key (Some (x, opt)) d })"
  "visit_field V it key BSON_TYPE_DBPOINTER d = (do {
     r \<leftarrow> bson_iter_dbpointer it; (c, n, i) \<leftarrow> r; visit_text c n (visit_dbpointer V) it key (Some (c, n, i)) d })"
  "visit_field V it key BSON_TYPE_CODEWSCOPE d = (do {
     r \<leftarrow> bson_iter_codewscope it; (c, n, x, m) \<leftarrow> r;
     ok \<leftarrow> bson_utf8_validate c n True;
     (if ok then visit_nested x m (visit_codewscope V) it key (c, n, x, m) d
      else Some (True, it\<lparr>i_err_off := i_off it\<rparr>, d)) })"
  "visit_field V it key BSON_TYPE_INT32 d = call_visit (visit_int32 V) it key (bson_iter_int32 it) d"
  "visit_field V it key BSON_TYPE_TIMESTAMP d = call_visit (visit_timestamp V) it key (bson_iter_timestamp it) d"
  "visit_field V it key BSON_TYPE_INT64 d = call_visit (visit_int64 V) it key (bson_iter_int64 it) d"
  "visit_field V it key BSON_TYPE_DECIMAL128 d = call_visit (visit_decimal128 V) it key (do { r \<leftarrow> bson_iter_decimal128 it; r }) d"
  "visit_field V it key BSON_TYPE_MAXKEY d = call_visit (visit_maxkey V) it key (Some ()) d"
  "visit_field V it key BSON_TYPE_MINKEY d = call_visit (visit_minkey V) it key (Some ()) d"
  by (simp_all only: visit_field_def) simp_all

lemma validate_visitor_none:
  "visit_double (validate_visitor D C) = None" "visit_binary (validate_visitor D C) = None"
  "visit_undefined (validate_visitor D C) = None" "visit_oid (validate_visitor D C) = None"
  "visit_bool (validate_visitor D C) = None" "visit_date_time (validate_visitor D C) = None"
  "visit_null (validate_visitor D C) = None" "visit_regex (validate_visitor D C) = None"
  "visit_dbpointer (validate_visitor D C) = None" "visit_code (validate_visitor D C) = None"
  "visit_symbol (validate_visitor D C) = None" "visit_int32 (validate_visitor D C) = None"
  "visit_timestamp (validate_visitor D C) = None" "visit_int64 (validate_visitor D C) = None"
  "visit_maxkey (validate_visitor D C) = None" "visit_minkey (validate_visitor D C) = None"
  "visit_decimal128 (validate_visitor D C) = None" "visit_after (validate_visitor D C) = None"
  "visit_unsupported_type (validate_visitor D C) = None" "visit_before (validate_visitor D C) = Some validate_before"
  "visit_utf8 (validate_visitor D C) = Some validate_utf8" "visit_corrupt (validate_visitor D C) = Some validate_corrupt"
  "visit_document (validate_visitor D C) = Some (\<lambda>it key. D it)" "visit_array (validate_visitor D C) = Some (\<lambda>it key. D it)"
  by (simp_all add: validate_visitor_def)

lemma elem_at_type: "elem_at it k v \<Longrightarrow> ITER_TYPE it = Some (vtype v)"
  using on_element_type unfolding elem_at_def by blast

lemma visit_field_skipped:
  assumes "elem_at it k v" "texts_val v" "vtype v \<notin> {BSON_TYPE_UTF8, BSON_TYPE_DOCUMENT, BSON_TYPE_ARRAY, BSON_TYPE_CODEWSCOPE}"
  shows "visit_field (validate_visitor D C) it kp (vtype v) st = Some (False, it, st)"
proof -
  let ?V = "validate_visitor D C"
  have none: "call_visit None it kp a st = Some (False, it, st)" for a :: "'x option" by (simp add: call_visit_def)
  note skip = visit_field_types [of ?V it kp st, unfolded validate_visitor_none none]
  show ?thesis
  proof (cases v)
    case (VCode s)
    then show ?thesis using visit_field_string [OF assms(1), of s ?V kp st] assms(2)
      unfolding validate_visitor_none by (simp add: none)
  next
    case (VSymbol s)
    then show ?thesis using visit_field_string [OF assms(1), of s ?V kp st] assms(2)
      unfolding validate_visitor_none by (simp add: none)
  next
    case (VDBPointer c i)
    then obtain x y where x: "bson_iter_dbpointer it = Some (Some (x, length c, y))" "take (length c + 1) x = c @ [0]" "length c < 2 ^ 32"
      using elem_dbpointer assms(1) by blast
    have "utf8_text True c" using assms(2) VDBPointer by simp
    then show ?thesis unfolding VDBPointer vtype.simps skip x(1) by (simp add: visit_text_ok [OF x(2) refl x(3)] call_visit_def)
  next
    case (VRegex r opt)
    obtain bv where bv: "bson_iter_value it = Some (Some bv)" "denotes v bv" using elem_at_value [OF assms(1)] by blast
    then obtain x y where x: "bv = BV_Regex x y" "c_string x 0 = Some r" using denotes_regex VRegex by blast
    obtain raw p where e: "on_element raw (i_len it) (vtype v) it" "p + length (enc_val v) < i_len it"
      using assms(1) unfolding elem_at_def by blast
    have t: "ITER_TYPE it = Some BSON_TYPE_REGEX" using elem_at_type [OF assms(1)] VRegex by simp
    have r: "bson_iter_regex it = Some (Some (x, y))"
      using bv(1) x(1) unfolding iter_value_simps(9) [OF t] by (auto simp: bind_Some_iff)
    have l: "length r < 2 ^ 32" using e VRegex by (simp add: on_element_def)
    have "utf8_text True r" using assms(2) VRegex by simp
    then show ?thesis unfolding VRegex vtype.simps skip r
      by (simp add: x(2) visit_text_ok [OF c_string_text [OF x(2)] refl l] call_visit_def)
  next
    case (VBinary bt b)
    obtain bv where bv: "bson_iter_value it = Some (Some bv)" using elem_at_value [OF assms(1)] by blast
    have t: "ITER_TYPE it = Some BSON_TYPE_BINARY" using elem_at_type [OF assms(1)] VBinary by simp
    show ?thesis using bv unfolding VBinary vtype.simps skip iter_value_simps(5) [OF t]
      by (auto simp: bind_Some_iff)
  qed (use assms(2,3) skip in \<open>simp_all only: vtype.simps, simp_all\<close>)
qed


subsection \<open>The whole document\<close>

lemma continues_stops:
  "continues st ok r st' \<Longrightarrow> vs_flags st' = vs_flags st"
  "stops st ok r st' \<Longrightarrow> vs_flags st' = vs_flags st"
  by (auto simp: continues_def stops_def)

definition valid_view :: "validate_state bson_visitor \<Rightarrow> elems \<Rightarrow> bool" where
  "valid_view V es \<longleftrightarrow> (\<forall>it st. reads_at it es \<and> vs_phase st \<noteq> PHASE_START \<longrightarrow> (\<exists>b it' st'. bson_iter_visit_all V it st = Some (b, it', st') \<and>
     outcome st (elems_valid (vs_flags st) es) (step_phase (vs_flags st) (phases es) (vs_phase st)) st'))"

lemma visit_document_result:
  assumes V: "valid_view V es" and x: "at x 0 (enc_doc es)" "length (enc_doc es) \<le> INT_MAX" "wf_elems es" and i: "4 \<le> i_off it"
    and p: "vs_phase st \<noteq> PHASE_START"
  shows "\<exists>b st'. validate_document V it (x, length (enc_doc es)) st = Some (b, st') \<and>
    outcome st (val_valid (vs_flags st) (VDocument es)) (Some (vs_phase st)) st' \<and> (b \<longrightarrow> 0 \<le> vs_err_offset st')"
proof -
  have n5: "\<not> length (enc_doc es) < 5" using length_enc_doc_ge [of es] by simp
  have "reads_at (start_iter x (length (enc_doc es))) es" by (rule start_reads [OF x(3,2,1)])
  then obtain b it1 st1 where 1: "bson_iter_visit_all V (start_iter x (length (enc_doc es))) (st\<lparr>vs_phase := PHASE_LF_REF_KEY\<rparr>) = Some (b, it1, st1)"
      "outcome (st\<lparr>vs_phase := PHASE_LF_REF_KEY\<rparr>) (elems_valid (vs_flags st) es)
        (step_phase (vs_flags st) (phases es) PHASE_LF_REF_KEY) st1"
    using V [unfolded valid_view_def, THEN spec, THEN spec, of "start_iter x (length (enc_doc es))" "st\<lparr>vs_phase := PHASE_LF_REF_KEY\<rparr>"] by auto
  let ?open = "vs_phase st1 = PHASE_LF_ID_KEY \<or> vs_phase st1 = PHASE_LF_REF_UTF8 \<or> vs_phase st1 = PHASE_LF_DB_UTF8"
  have d: "validate_document V it (x, length (enc_doc es)) st =
      (if ?open then Some (True, if vs_err_offset st1 \<le> 0 then st1\<lparr>vs_err_offset := int (i_off it)\<rparr> else st1)
       else Some (False, st1\<lparr>vs_phase := vs_phase st\<rparr>))"
    unfolding validate_document_def fst_conv snd_conv if_not_P [OF n5] Let_def if_not_P [OF p] 1(1) by simp
  have o: "?open \<longleftrightarrow> open_dbref (vs_phase st1)" by (auto simp: open_dbref_def)
  define R where "R = step_phase (vs_flags st) (phases es) PHASE_LF_REF_KEY"
  have r: "val_valid (vs_flags st) (VDocument es) \<longleftrightarrow> elems_valid (vs_flags st) es \<and> R \<noteq> None \<and> \<not> open_dbref (the R)"
    using phases_sub [of es] by (auto simp: R_def step_phase_def open_dbref_def)
  note res = 1(2) [folded R_def, unfolded outcome_def]
  show ?thesis
  proof (cases "open_dbref (vs_phase st1)")
    case True
    let ?st = "if vs_err_offset st1 \<le> 0 then st1\<lparr>vs_err_offset := int (i_off it)\<rparr> else st1"
    have e: "0 \<le> vs_err_offset ?st" "vs_flags ?st = vs_flags st" using i res by simp_all
    have "\<not> val_valid (vs_flags st) (VDocument es)" if "vs_err_offset st < 0"
      using that res True unfolding r by (cases R) (auto split: if_split_asm)
    then have "outcome st (val_valid (vs_flags st) (VDocument es)) (Some (vs_phase st)) ?st"
      unfolding outcome_def using e True by (auto simp: open_dbref_def simp del: val_valid.simps)
    with d True e show ?thesis unfolding o by (auto simp del: val_valid.simps)
  next
    case False
    let ?st = "st1\<lparr>vs_phase := vs_phase st\<rparr>"
    have "outcome st (val_valid (vs_flags st) (VDocument es)) (Some (vs_phase st)) ?st"
      using res False unfolding outcome_def r by (cases R) (auto split: if_split_asm)
    with d False show ?thesis unfolding o by (auto simp del: val_valid.simps)
  qed
qed

lemma outcome_seq:
  assumes "outcome st ok (step_phase (vs_flags st) f (vs_phase st)) st1" "outcome st1 ok' (step_phase (vs_flags st1) g (vs_phase st1)) st2"
  shows "outcome st (ok \<and> ok') (step_phase (vs_flags st) (\<lambda>p. case f p of None \<Rightarrow> None | Some p' \<Rightarrow> g p') (vs_phase st)) st2"
  using assms by (auto simp: outcome_def step_phase_def split: if_splits)

lemma stops_seq:
  assumes "stops st ok (step_phase (vs_flags st) f (vs_phase st)) st1"
  shows "outcome st (ok \<and> ok') (step_phase (vs_flags st) (\<lambda>p. case f p of None \<Rightarrow> None | Some p' \<Rightarrow> g p') (vs_phase st)) st1"
  using assms by (auto simp: outcome_def stops_def step_phase_def split: if_splits)

lemma continues_outcome: "continues st ok r st' \<Longrightarrow> outcome st ok r st'"
  by (auto simp: continues_def outcome_def)

lemma stops_outcome: "stops st ok r st' \<Longrightarrow> outcome st ok r st'"
  by (auto simp: stops_def outcome_def)


lemma visit_value_result:
  assumes e: "elem_at it k v" "4 \<le> i_off it" "texts_val v" and kp: "c_string kp 0 = Some k"
    and D: "\<forall>sub. v = VDocument sub \<or> v = VArray sub \<longrightarrow> D = validate_document W \<and> valid_view W sub"
    and p: "vs_phase st \<noteq> PHASE_START"
  shows "(\<exists>st'. visit_field (validate_visitor D C) it kp (vtype v) st = Some (True, it, st') \<and>
        stops st (val_valid (vs_flags st) v) (step_phase (vs_flags st) (Some \<circ> val_phase v) (vs_phase st)) st')
    \<or> (\<exists>st'. visit_field (validate_visitor D C) it kp (vtype v) st = Some (False, it, st') \<and>
         outcome st (val_valid (vs_flags st) v) (step_phase (vs_flags st) (Some \<circ> val_phase v) (vs_phase st)) st')"
    (is "?stop \<or> ?go")
proof -
  let ?V = "validate_visitor D C"
  consider (str) s where "v = VUtf8 s" | (doc) es where "v = VDocument es \<or> v = VArray es"
    | (other) "vtype v \<notin> {BSON_TYPE_UTF8, BSON_TYPE_DOCUMENT, BSON_TYPE_ARRAY, BSON_TYPE_CODEWSCOPE}"
    using e(3) by (cases v) simp_all
  then show ?thesis
  proof cases
    case str
    obtain x where x: "take (length s + 1) x = s @ [0]" "length s < 2 ^ 32"
        "visit_field ?V it kp (vtype v) st = call_visit (Some validate_utf8) it kp (Some (x, length s)) st"
      using visit_field_string [OF e(1), of s ?V kp st] str e(3) unfolding validate_visitor_none by auto
    from utf8_result [OF x(1,2) kp, of it st "step_phase (vs_flags st) (Some \<circ> val_phase v) (vs_phase st)"] show ?thesis
    proof cases
      case (1 st')
      then show ?thesis using x(3) str by (auto simp: call_visit_def simp del: val_valid.simps)
    next
      case (2 st')
      then show ?thesis using x(3) str continues_outcome [OF 2(2)] by (auto simp: call_visit_def simp del: val_valid.simps)
    qed
  next
    case doc
    note W = D [THEN spec, THEN mp, OF doc]
    obtain x where x: "at x 0 (enc_doc es)" "length (enc_doc es) \<le> INT_MAX" "wf_elems es"
        "visit_field ?V it kp (vtype v) st = call_visit (Some (\<lambda>it key. D it)) it kp (Some (x, length (enc_doc es))) st"
      using visit_field_document [OF e(1) doc, of ?V kp st] unfolding validate_visitor_none by auto
    obtain b st' where b: "D it (x, length (enc_doc es)) st = Some (b, st')"
        "outcome st (val_valid (vs_flags st) (VDocument es)) (Some (vs_phase st)) st'" "b \<longrightarrow> 0 \<le> vs_err_offset st'"
      using visit_document_result [OF _ x(1-3) e(2) p] W by blast
    have v: "val_valid (vs_flags st) v = val_valid (vs_flags st) (VDocument es)"
      "step_phase (vs_flags st) (Some \<circ> val_phase v) (vs_phase st) = Some (vs_phase st)"
      using doc by (auto simp: step_phase_def val_phase_def)
    have "visit_field ?V it kp (vtype v) st = Some (b, it, st')" using x(4) b(1) by (simp add: call_visit_def)
    moreover have "stops st (val_valid (vs_flags st) v) (Some (vs_phase st)) st'" if b
      using b(2,3) that unfolding stops_def outcome_def v by (auto simp del: val_valid.simps)
    ultimately show ?thesis using b(2) unfolding v by (cases b) (auto simp del: val_valid.simps)
  next
    case other
    have "visit_field ?V it kp (vtype v) st = Some (False, it, st)" by (rule visit_field_skipped [OF e(1,3) other])
    moreover have "outcome st (val_valid (vs_flags st) v) (step_phase (vs_flags st) (Some \<circ> val_phase v) (vs_phase st)) st"
      using other by (cases v) (simp_all add: outcome_def step_phase_def val_phase_def)
    ultimately show ?thesis by blast
  qed
qed


lemma valid_view_Nil: "valid_view V []"
  unfolding valid_view_def using visit_all_Nil by (fastforce simp: outcome_def step_phase_def)

lemma valid_view_Cons:
  assumes V: "V = validate_visitor D C" and rest: "valid_view V es" and v: "texts_val v"
    and D: "\<forall>sub. v = VDocument sub \<or> v = VArray sub \<longrightarrow> D = validate_document W \<and> valid_view W sub"
  shows "valid_view V ((k, v) # es)"
  unfolding valid_view_def
proof (intro allI impI, elim conjE)
  fix it and st :: validate_state
  assume "reads_at it ((k, v) # es)" and p: "vs_phase st \<noteq> PHASE_START"
  from visit_all_Cons [OF this(1), of V] obtain it1 kp where it1: "elem_at it1 k v" "reads_at it1 es" "c_string kp 0 = Some k" "4 \<le> i_off it1"
    "\<And>d. bson_iter_visit_all V it d = visit_one V it1 kp k (vtype v) d
       (visit_end V (it1\<lparr>i_err_off := i_off it1\<rparr>) (Some kp) (vtype v) False d) (bson_iter_visit_all V it1)" by metis
  let ?F = "vs_flags st" and ?ok = "elems_valid (vs_flags st) ((k, v) # es)"
  let ?r = "step_phase (vs_flags st) (phases ((k, v) # es)) (vs_phase st)"
  have ph: "phases ((k, v) # es) = (\<lambda>p. case key_phase k p of None \<Rightarrow> None | Some p' \<Rightarrow>
      (case (Some \<circ> val_phase v) p' of None \<Rightarrow> None | Some p'' \<Rightarrow> phases es p''))" by (intro ext) (simp split: option.split)
  show "\<exists>b it' st'. bson_iter_visit_all V it st = Some (b, it', st') \<and> outcome st ?ok ?r st'"
  proof (cases "utf8_text False k")
    case False
    have "\<exists>st'. visit_end V (it1\<lparr>i_err_off := i_off it1\<rparr>) (Some kp) (vtype v) False st = Some (False, it1\<lparr>i_err_off := i_off it1\<rparr>, st') \<and>
        outcome st ?ok ?r st'"
      using it1(4) False V p by (simp add: visit_end_def validate_visitor_def validate_corrupt_def validation_err_def outcome_def key_valid_def)
    then show ?thesis using it1(5) False by (auto simp: visit_one_def)
  next
    case True
    note vis = it1(5) [of st, unfolded visit_one_def V validate_visitor_none, folded V]
    from before_result [OF it1(3) True, of it1 st] show ?thesis
    proof cases
      case (1 st1)
      have "outcome st (key_valid ?F k \<and> (val_valid ?F v \<and> elems_valid ?F es)) ?r st1" unfolding ph by (rule stops_seq [OF 1(2)])
      then show ?thesis using vis 1(1) True by (simp add: call_visit_def ex_bool_eq)
    next
      case (2 st1)
      note o1 = continues_outcome [OF 2(2)]
      have f1: "vs_flags st1 = ?F" "vs_phase st1 \<noteq> PHASE_START" using 2(2) p by (auto simp: continues_def)
      from visit_value_result [OF it1(1,4) v it1(3) D f1(2), of C] show ?thesis
      proof (elim disjE exE conjE)
        fix st2
        assume s: "visit_field (validate_visitor D C) it1 kp (vtype v) st1 = Some (True, it1, st2)"
          "stops st1 (val_valid (vs_flags st1) v) (step_phase (vs_flags st1) (Some \<circ> val_phase v) (vs_phase st1)) st2"
        have "outcome st (key_valid ?F k \<and> (val_valid (vs_flags st1) v \<and> elems_valid ?F es)) ?r st2"
          unfolding ph by (rule outcome_seq [OF o1], rule stops_seq [OF s(2)])
        then show ?thesis using vis 2(1) s(1) True f1 V by (simp add: call_visit_def ex_bool_eq)
      next
        fix st2
        assume s: "visit_field (validate_visitor D C) it1 kp (vtype v) st1 = Some (False, it1, st2)"
          "outcome st1 (val_valid (vs_flags st1) v) (step_phase (vs_flags st1) (Some \<circ> val_phase v) (vs_phase st1)) st2"
        have f2: "vs_flags st2 = ?F" "vs_phase st2 \<noteq> PHASE_START" using s(2) f1 by (auto simp: outcome_def)
        obtain b it3 st3 where 3: "bson_iter_visit_all V it1 st2 = Some (b, it3, st3)"
            "outcome st2 (elems_valid (vs_flags st2) es) (step_phase (vs_flags st2) (phases es) (vs_phase st2)) st3"
          using rest it1(2) f2(2) unfolding valid_view_def by blast
        have "outcome st (key_valid ?F k \<and> (val_valid (vs_flags st1) v \<and> elems_valid (vs_flags st2) es)) ?r st3"
          unfolding ph by (rule outcome_seq [OF o1], rule outcome_seq [OF s(2) 3(2)])
        then show ?thesis using vis 2(1) s(1) 3(1) True f1 f2 V by (simp add: call_visit_def)
      qed
    qed
  qed
qed

lemma funcs_valid_view: "texts_elems es \<Longrightarrow> length (enc_elems es) \<le> n \<Longrightarrow> valid_view (bson_validate_funcs n) es"
proof (induction n arbitrary: es)
  case 0
  then have "es = []" by (cases es) auto
  then show ?case using valid_view_Nil by simp
next
  case (Suc n)
  note fuel = Suc.IH
  from Suc.prems show ?case
  proof (induction es)
    case (Cons e es)
    obtain k v where e: "e = (k, v)" by fastforce
    show ?case unfolding e
    proof (rule valid_view_Cons)
      show "bson_validate_funcs (Suc n) = validate_visitor (validate_document (bson_validate_funcs n)) (validate_codewscope (bson_validate_funcs n))"
        by simp
      show "valid_view (bson_validate_funcs (Suc n)) es" using Cons e by simp
      show "texts_val v" using Cons.prems(1) e by simp
      have "texts_elems sub \<and> length (enc_elems sub) \<le> n" if "v = VDocument sub \<or> v = VArray sub" for sub
        using that Cons.prems e by (auto simp: frame_doc_def)
      then show "\<forall>sub. v = VDocument sub \<or> v = VArray sub \<longrightarrow>
          validate_document (bson_validate_funcs n) = validate_document (bson_validate_funcs n) \<and> valid_view (bson_validate_funcs n) sub"
        using fuel by blast
    qed
  qed (rule valid_view_Nil)
qed


lemma validate_top:
  assumes V: "valid_view V es" and x: "at x 0 (enc_doc es)" "length (enc_doc es) \<le> INT_MAX" "wf_elems es"
  shows "\<exists>st'. validate_internal V (x, length (enc_doc es)) F = Some st' \<and>
    (vs_err_offset st' < 0 \<longleftrightarrow> elems_valid F es \<and> (BSON_VALIDATE_DOLLAR_KEYS \<in> F \<longrightarrow> no_dollar es))"
proof -
  let ?n = "length (enc_doc es)"
  let ?st = "\<lparr>vs_flags = F, vs_err_offset = -1, vs_phase = PHASE_TOP, vs_error = None\<rparr>"
  have n5: "\<not> ?n < 5" using length_enc_doc_ge [of es] by simp
  have "reads_at (start_iter x ?n) es" by (rule start_reads [OF x(3,2,1)])
  then obtain b it1 st1 where 1: "bson_iter_visit_all V (start_iter x ?n) ?st = Some (b, it1, st1)"
      "outcome ?st (elems_valid F es) (step_phase F (phases es) PHASE_TOP) st1"
    using V [unfolded valid_view_def, THEN spec, THEN spec, of "start_iter x ?n" ?st] by auto
  have r: "step_phase F (phases es) PHASE_TOP = (if BSON_VALIDATE_DOLLAR_KEYS \<in> F \<longrightarrow> no_dollar es
      then Some (if BSON_VALIDATE_DOLLAR_KEYS \<in> F \<and> es \<noteq> [] then PHASE_NOT_DBREF else PHASE_TOP) else None)"
    using phases_closed [of PHASE_TOP es] by (auto simp: step_phase_def)
  have ok: "vs_err_offset st1 < 0 \<longleftrightarrow> elems_valid F es \<and> (BSON_VALIDATE_DOLLAR_KEYS \<in> F \<longrightarrow> no_dollar es)"
    and ph: "vs_err_offset st1 < 0 \<Longrightarrow> vs_phase st1 \<in> {PHASE_TOP, PHASE_NOT_DBREF}"
    using 1(2) unfolding outcome_def r by (auto split: if_split_asm)
  show ?thesis
  proof (cases "vs_err_offset st1 < 0")
    case True
    then show ?thesis using ok ph [OF True] 1(1) n5 by (auto simp: validate_internal_def validate_document_def Let_def)
  next
    case False
    then show ?thesis using ok 1(1) n5 by (auto simp: validate_internal_def validate_document_def Let_def start_iter_def)
  qed
qed

text \<open>
  C3. On a document whose texts are UTF-8 and that holds no code with scope, \<open>bson_validate\<close> accepts exactly the
  documents that satisfy the flags at every depth: no empty key, no dot in a key, no NUL (or any text) that the UTF-8
  flags refuse, valid UTF-8 in the keys, and dollar keys only in the order of a database reference and only in a
  subdocument.
\<close>
theorem validate_exact:
  assumes "rep H a es" "wf_elems es" "length (enc_doc es) \<le> INT_MAX" "texts_elems es"
  shows "\<exists>off. bson_validate H a F = Some (elems_valid F es \<and> (BSON_VALIDATE_DOLLAR_KEYS \<in> F \<longrightarrow> no_dollar es), off)"
proof -
  have "holds H a (enc_doc es)" using assms(1) by (simp add: rep_def)
  then obtain d mem where d: "h_docs H a = Some d" "doc_mem H d = Some mem" "b_len d = length (enc_doc es)"
      "doc_off d + length (enc_doc es) \<le> length mem" "take (length (enc_doc es)) (drop (doc_off d) mem) = enc_doc es"
    by (auto elim!: holdsE)
  then have a: "at (drop (doc_off d) mem) 0 (enc_doc es)" by (simp add: at_def)
  have v: "valid_view (bson_validate_funcs (length (enc_doc es))) es"
    by (rule funcs_valid_view [OF assms(4)]) (simp add: length_enc_doc)
  obtain st' where "validate_internal (bson_validate_funcs (b_len d)) (drop (doc_off d) mem, b_len d) F = Some st'"
      "vs_err_offset st' < 0 \<longleftrightarrow> elems_valid F es \<and> (BSON_VALIDATE_DOLLAR_KEYS \<in> F \<longrightarrow> no_dollar es)"
    unfolding d(3) using validate_top [OF v a assms(3,2)] by blast
  then show ?thesis using d(1,2) by (simp add: bson_validate_def bson_validate_view_def)
qed


subsection \<open>Fields that end the validation\<close>

text \<open>The state of the validation of a document up to its first element.\<close>

lemma validate_first:
  assumes V: "V = validate_visitor D C" and x: "at x 0 (enc_doc ((k, v) # es))" "length (enc_doc ((k, v) # es)) \<le> INT_MAX" "wf_elems ((k, v) # es)"
    and k: "key_valid F k" "\<not> dollar_key k"
    and stop: "\<And>it kp st. elem_at it k v \<Longrightarrow> c_string kp 0 = Some k \<Longrightarrow> vs_flags st = F \<Longrightarrow> \<exists>it'. visit_field V it kp (vtype v) st = Some (True, it', st)"
  shows "\<exists>st. validate_internal V (x, length (enc_doc ((k, v) # es))) F = Some st \<and> vs_err_offset st = -1"
proof -
  let ?n = "length (enc_doc ((k, v) # es))"
  let ?st = "\<lparr>vs_flags = F, vs_err_offset = -1, vs_phase = PHASE_TOP, vs_error = None\<rparr>"
  have n5: "\<not> ?n < 5" using length_enc_doc_ge [of "(k, v) # es"] by linarith
  have r: "reads_at (start_iter x ?n) ((k, v) # es)" by (rule start_reads [OF x(3,2,1)])
  have u: "utf8_text False k" using k(1) by (simp add: key_valid_def)
  have kp: "key_phase k PHASE_TOP = Some PHASE_NOT_DBREF" using k(2) by (simp add: key_phase_def)
  from visit_all_Cons [OF r, of V] obtain it1 p where it1: "elem_at it1 k v" "c_string p 0 = Some k"
    "\<And>d. bson_iter_visit_all V (start_iter x ?n) d = visit_one V it1 p k (vtype v) d
       (visit_end V (it1\<lparr>i_err_off := i_off it1\<rparr>) (Some p) (vtype v) False d) (bson_iter_visit_all V it1)" by metis
  obtain st1 where st1: "validate_before it1 p () ?st = Some (False, st1)" "vs_flags st1 = F" "vs_err_offset st1 = -1"
      "vs_phase st1 \<in> {PHASE_TOP, PHASE_NOT_DBREF}"
  proof -
    have r: "step_phase F (key_phase k) PHASE_TOP \<noteq> None" using kp by (simp add: step_phase_def)
    from before_result [OF it1(2) u, of it1 ?st] show ?thesis
    proof cases
      case (1 st1)
      then show ?thesis using k(1) r by (simp add: stops_def)
    next
      case (2 st1)
      then have "Some (vs_phase st1) \<in> {Some PHASE_TOP, Some PHASE_NOT_DBREF}" using kp by (auto simp: continues_def step_phase_def split: if_split_asm)
      with 2 show ?thesis by (intro that [of st1]) (simp_all add: continues_def)
    qed
  qed
  obtain it2 where f: "visit_field V it1 p (vtype v) st1 = Some (True, it2, st1)" using stop [OF it1(1,2) st1(2)] by blast
  have "bson_iter_visit_all V (start_iter x ?n) ?st = Some (True, it2, st1)"
    unfolding it1(3) visit_one_def using u st1(1) f by (simp add: V validate_visitor_none call_visit_def)
  then show ?thesis using n5 st1(3,4) by (auto simp: validate_internal_def validate_document_def Let_def)
qed

lemma bad_text_stops:
  assumes "elem_at it k (VUtf8 s)" "\<not> utf8_text True s"
  shows "\<exists>it'. visit_field V it kp BSON_TYPE_UTF8 st = Some (True, it', st)"
proof -
  obtain x where x: "iter_string BSON_TYPE_UTF8 it = Some (Some (x, length s))" "take (length s + 1) x = s @ [0]" "length s < 2 ^ 32"
    using elem_string [OF assms(1)] by auto
  have "take (length s) x = s" "length s \<le> length x"
    using arg_cong [OF x(2), of "take (length s)"] arg_cong [OF x(2), of length] by auto
  then have "bson_utf8_validate x (length s) True = Some False" using utf8_validate_in [of "length s" x True] x(3) assms(2) by simp
  then show ?thesis using x(1) by (simp add: visit_field_def bson_iter_utf8_def visit_text_def)
qed

lemma good_scope_stops:
  assumes "elem_at it k (VCodeWScope c sub)" "utf8_text True c" "valid_view W sub" "wf_elems sub"
    and ok: "elems_valid (vs_flags st) sub" "BSON_VALIDATE_DOLLAR_KEYS \<in> vs_flags st \<longrightarrow> no_dollar sub"
  shows "\<exists>it'. visit_field (validate_visitor D (validate_codewscope W)) it kp BSON_TYPE_CODEWSCOPE st = Some (True, it', st)"
proof -
  obtain x y where x: "bson_iter_codewscope it = Some (Some (x, length c, y, length (enc_doc sub)))" "take (length c + 1) x = c @ [0]"
      "take (length (enc_doc sub)) y = enc_doc sub" "length c < 2 ^ 32"
    using elem_codewscope [OF assms(1)] by blast
  obtain raw p where "on_element raw (i_len it) BSON_TYPE_CODEWSCOPE it" "p + length (enc_val (VCodeWScope c sub)) < i_len it"
    using assms(1) unfolding elem_at_def vtype.simps by blast
  then have len: "length (enc_doc sub) \<le> INT_MAX" by (simp add: on_element_def Let_def enc_doc_def)
  have "take (length c) x = c" "length c \<le> length x"
    using arg_cong [OF x(2), of "take (length c)"] arg_cong [OF x(2), of length] by auto
  then have u: "bson_utf8_validate x (length c) True = Some True" using utf8_validate_in [of "length c" x True] x(4) assms(2) by simp
  note s = static_view_doc [OF x(3) len]
  obtain st' where "validate_internal W (y, length (enc_doc sub)) (vs_flags st) = Some st'" "vs_err_offset st' < 0"
    using validate_top [OF assms(3) s(2) len assms(4), of "vs_flags st"] ok by blast
  then have "validate_codewscope W it (y, length (enc_doc sub)) st = Some (True, st)" by (simp add: validate_codewscope_def)
  then show ?thesis unfolding visit_field_types(10) x(1)
    using u s(1) by (simp add: visit_nested_def call_visit_def validate_visitor_def)
qed

text \<open>
  C39. What \<open>bson_validate\<close> does not see: a string that is not UTF-8, under every set of flags (\<open>BSON_VALIDATE_UTF8\<close>
  included), and code with a valid scope both end the visit with \<^verbatim>\<open>true\<close> and without an error, so the document is
  accepted whatever that string is and whatever elements follow.
\<close>
theorem validate_stops_early:
  assumes "rep H a ((k, v) # es)" "wf_elems ((k, v) # es)" "length (enc_doc ((k, v) # es)) \<le> INT_MAX"
    and "key_valid F k" "\<not> dollar_key k"
    and "(\<exists>s. v = VUtf8 s \<and> \<not> utf8_text True s) \<or>
      (\<exists>c sub. v = VCodeWScope c sub \<and> utf8_text True c \<and> texts_elems sub \<and> elems_valid F sub \<and> no_dollar sub)"
  shows "bson_validate H a F = Some (True, None)"
proof -
  have "holds H a (enc_doc ((k, v) # es))" using assms(1) by (simp add: rep_def)
  then obtain d mem where d: "h_docs H a = Some d" "doc_mem H d = Some mem" "b_len d = length (enc_doc ((k, v) # es))"
      "doc_off d + length (enc_doc ((k, v) # es)) \<le> length mem"
      "take (length (enc_doc ((k, v) # es))) (drop (doc_off d) mem) = enc_doc ((k, v) # es)"
    by (auto elim!: holdsE)
  then have a: "at (drop (doc_off d) mem) 0 (enc_doc ((k, v) # es))" by (simp add: at_def)
  obtain n where n: "length (enc_doc ((k, v) # es)) = Suc n" "length (enc_val v) \<le> n" by (simp add: enc_doc_def)
  let ?V = "bson_validate_funcs (Suc n)" and ?W = "bson_validate_funcs n"
  have stop: "\<exists>it'. visit_field ?V it kp (vtype v) st = Some (True, it', st)"
    if "elem_at it k v" "c_string kp 0 = Some k" "vs_flags st = F" for it kp and st :: validate_state
    using assms(6)
  proof (elim disjE exE conjE)
    fix s
    assume "v = VUtf8 s" "\<not> utf8_text True s"
    then show ?thesis using bad_text_stops [of it k s ?V kp st] that(1) by simp
  next
    fix c sub
    assume v: "v = VCodeWScope c sub" "utf8_text True c" "texts_elems sub" "elems_valid F sub" "no_dollar sub"
    have "valid_view ?W sub" by (rule funcs_valid_view [OF v(3)]) (use n(2) v(1) in \<open>simp add: Let_def\<close>)
    moreover have "wf_elems sub" using assms(2) v(1) by simp
    ultimately show ?thesis using good_scope_stops [of it k c sub ?W st _ kp] that v by simp
  qed
  obtain st where "validate_internal ?V (drop (doc_off d) mem, Suc n) F = Some st" "vs_err_offset st = -1"
    using validate_first [OF bson_validate_funcs.simps(2) a assms(3,2,4,5) stop] n(1) by (metis (full_types))
  then show ?thesis using d(1-3) n(1) by (simp add: bson_validate_def bson_validate_view_def del: bson_validate_funcs.simps)
qed


subsection \<open>Sample documents\<close>

lemma utf8_ascii: "list_all (\<lambda>b. 0 < unat b \<and> unat b < 128) xs \<Longrightarrow> utf8_text an xs"
proof (induction xs)
  case (Cons b r)
  have "utf8_unit an [b]" using Cons.prems by (auto simp: utf8_unit_def scalar_value_def utf8_enc_def intro!: exI [of _ "unat b"])
  from utf8_text.utf8_unit [OF this Cons.IH] Cons.prems show ?case by simp
qed (rule utf8_end)

lemma utf8_bad_byte: "\<not> utf8_text an [0xFF]"
  by (subst utf8_text_step) (simp_all add: char_step_def bson_utf8_get_sequence_def)

definition inline_sample :: "elems \<Rightarrow> bson_t" where
  "inline_sample es = (inline_doc (\<lambda>_. 0) 0 {BSON_FLAG_INLINE, BSON_FLAG_STATIC})
     \<lparr>b_len := length (enc_doc es), b_data := enc_doc es @ replicate (120 - length (enc_doc es)) 0\<rparr>"

lemma inline_sample_rep:
  "length (enc_doc es) \<le> 120 \<Longrightarrow> rep (set_doc empty_heap 0 (inline_sample es)) 0 es"
  by (simp add: rep_def holds_def writable_def set_doc_def inline_sample_def inline_doc_def doc_mem_def doc_off_def)

definition dbref_sample :: elems where
  "dbref_sample = [([0x72], VDocument [(str_of ''$ref'', VUtf8 [0x63]), (str_of ''$id'', VInt32 7)]), ([0x62], VBool True)]"

lemma validate_exact_witness:
  "\<exists>off. bson_validate (set_doc empty_heap 0 (inline_sample dbref_sample)) 0
     {BSON_VALIDATE_UTF8, BSON_VALIDATE_DOLLAR_KEYS, BSON_VALIDATE_EMPTY_KEYS} = Some (True, off)"
proof -
  let ?F = "{BSON_VALIDATE_UTF8, BSON_VALIDATE_DOLLAR_KEYS, BSON_VALIDATE_EMPTY_KEYS}"
  have "elems_valid ?F dbref_sample" "no_dollar dbref_sample"
    by (simp_all add: dbref_sample_def dbref_def key_valid_def str_of_def dollar_key_def utf8_ascii)
  moreover have len: "length (enc_doc dbref_sample) \<le> 120"
    by (simp add: dbref_sample_def enc_simps str_of_def enc_string_def frame_doc_def)
  moreover have "wf_elems dbref_sample" "texts_elems dbref_sample"
    by (simp_all add: dbref_sample_def str_of_def utf8_ascii)
  ultimately show ?thesis using validate_exact [OF inline_sample_rep [OF len], of ?F] by simp
qed

definition bad_text_sample :: elems where
  "bad_text_sample = [([0x61], VUtf8 [0xFF]), (str_of ''$x.'', VNull)]"

lemma validate_stops_early_witness:
  "bson_validate (set_doc empty_heap 0 (inline_sample bad_text_sample)) 0
     {BSON_VALIDATE_UTF8, BSON_VALIDATE_DOLLAR_KEYS, BSON_VALIDATE_DOT_KEYS} = Some (True, None)"
proof (rule validate_stops_early)
  show "rep (set_doc empty_heap 0 (inline_sample bad_text_sample)) 0 (([0x61], VUtf8 [0xFF]) # [(str_of ''$x.'', VNull)])"
    unfolding bad_text_sample_def by (rule inline_sample_rep) (simp add: enc_simps str_of_def enc_string_def)
qed (auto simp: key_valid_def dollar_key_def utf8_ascii utf8_bad_byte enc_simps str_of_def enc_string_def)

end
