(* ===== verification/Keys.thy ===== *)
theory Keys
  imports Bson_String Strtoll
begin

text \<open>
  \<^verbatim>\<open>src/bson/bson-keys.c\<close>: the keys of array elements. Small numbers are looked up in a table of literals, larger ones
  are printed into the caller's buffer.
\<close>

text \<open>The C library's \<^verbatim>\<open>%u\<close>.\<close>

fun decimal :: "nat \<Rightarrow> bytes" where
  "decimal n = (if n < 10 then [word_of_nat (48 + n)] else decimal (n div 10) @ [word_of_nat (48 + n mod 10)])"

declare decimal.simps [simp del]

definition gUint32Strs :: "string list" where
  "gUint32Strs =
    [''0'', ''1'', ''2'', ''3'', ''4'', ''5'', ''6'', ''7'', ''8'', ''9'', ''10'', ''11'', ''12'', ''13'', ''14'', ''15'', ''16'', ''17'', ''18'', ''19'', ''20'', ''21'', ''22'', ''23'', ''24'',
     ''25'', ''26'', ''27'', ''28'', ''29'', ''30'', ''31'', ''32'', ''33'', ''34'', ''35'', ''36'', ''37'', ''38'', ''39'', ''40'', ''41'', ''42'', ''43'', ''44'', ''45'', ''46'', ''47'', ''48'', ''49'',
     ''50'', ''51'', ''52'', ''53'', ''54'', ''55'', ''56'', ''57'', ''58'', ''59'', ''60'', ''61'', ''62'', ''63'', ''64'', ''65'', ''66'', ''67'', ''68'', ''69'', ''70'', ''71'', ''72'', ''73'', ''74'',
     ''75'', ''76'', ''77'', ''78'', ''79'', ''80'', ''81'', ''82'', ''83'', ''84'', ''85'', ''86'', ''87'', ''88'', ''89'', ''90'', ''91'', ''92'', ''93'', ''94'', ''95'', ''96'', ''97'', ''98'', ''99''] @
    [''100'', ''101'', ''102'', ''103'', ''104'', ''105'', ''106'', ''107'', ''108'', ''109'', ''110'', ''111'', ''112'', ''113'', ''114'', ''115'', ''116'', ''117'', ''118'', ''119'', ''120'', ''121'', ''122'', ''123'', ''124'',
     ''125'', ''126'', ''127'', ''128'', ''129'', ''130'', ''131'', ''132'', ''133'', ''134'', ''135'', ''136'', ''137'', ''138'', ''139'', ''140'', ''141'', ''142'', ''143'', ''144'', ''145'', ''146'', ''147'', ''148'', ''149'',
     ''150'', ''151'', ''152'', ''153'', ''154'', ''155'', ''156'', ''157'', ''158'', ''159'', ''160'', ''161'', ''162'', ''163'', ''164'', ''165'', ''166'', ''167'', ''168'', ''169'', ''170'', ''171'', ''172'', ''173'', ''174'',
     ''175'', ''176'', ''177'', ''178'', ''179'', ''180'', ''181'', ''182'', ''183'', ''184'', ''185'', ''186'', ''187'', ''188'', ''189'', ''190'', ''191'', ''192'', ''193'', ''194'', ''195'', ''196'', ''197'', ''198'', ''199''] @
    [''200'', ''201'', ''202'', ''203'', ''204'', ''205'', ''206'', ''207'', ''208'', ''209'', ''210'', ''211'', ''212'', ''213'', ''214'', ''215'', ''216'', ''217'', ''218'', ''219'', ''220'', ''221'', ''222'', ''223'', ''224'',
     ''225'', ''226'', ''227'', ''228'', ''229'', ''230'', ''231'', ''232'', ''233'', ''234'', ''235'', ''236'', ''237'', ''238'', ''239'', ''240'', ''241'', ''242'', ''243'', ''244'', ''245'', ''246'', ''247'', ''248'', ''249'',
     ''250'', ''251'', ''252'', ''253'', ''254'', ''255'', ''256'', ''257'', ''258'', ''259'', ''260'', ''261'', ''262'', ''263'', ''264'', ''265'', ''266'', ''267'', ''268'', ''269'', ''270'', ''271'', ''272'', ''273'', ''274'',
     ''275'', ''276'', ''277'', ''278'', ''279'', ''280'', ''281'', ''282'', ''283'', ''284'', ''285'', ''286'', ''287'', ''288'', ''289'', ''290'', ''291'', ''292'', ''293'', ''294'', ''295'', ''296'', ''297'', ''298'', ''299''] @
    [''300'', ''301'', ''302'', ''303'', ''304'', ''305'', ''306'', ''307'', ''308'', ''309'', ''310'', ''311'', ''312'', ''313'', ''314'', ''315'', ''316'', ''317'', ''318'', ''319'', ''320'', ''321'', ''322'', ''323'', ''324'',
     ''325'', ''326'', ''327'', ''328'', ''329'', ''330'', ''331'', ''332'', ''333'', ''334'', ''335'', ''336'', ''337'', ''338'', ''339'', ''340'', ''341'', ''342'', ''343'', ''344'', ''345'', ''346'', ''347'', ''348'', ''349'',
     ''350'', ''351'', ''352'', ''353'', ''354'', ''355'', ''356'', ''357'', ''358'', ''359'', ''360'', ''361'', ''362'', ''363'', ''364'', ''365'', ''366'', ''367'', ''368'', ''369'', ''370'', ''371'', ''372'', ''373'', ''374'',
     ''375'', ''376'', ''377'', ''378'', ''379'', ''380'', ''381'', ''382'', ''383'', ''384'', ''385'', ''386'', ''387'', ''388'', ''389'', ''390'', ''391'', ''392'', ''393'', ''394'', ''395'', ''396'', ''397'', ''398'', ''399''] @
    [''400'', ''401'', ''402'', ''403'', ''404'', ''405'', ''406'', ''407'', ''408'', ''409'', ''410'', ''411'', ''412'', ''413'', ''414'', ''415'', ''416'', ''417'', ''418'', ''419'', ''420'', ''421'', ''422'', ''423'', ''424'',
     ''425'', ''426'', ''427'', ''428'', ''429'', ''430'', ''431'', ''432'', ''433'', ''434'', ''435'', ''436'', ''437'', ''438'', ''439'', ''440'', ''441'', ''442'', ''443'', ''444'', ''445'', ''446'', ''447'', ''448'', ''449'',
     ''450'', ''451'', ''452'', ''453'', ''454'', ''455'', ''456'', ''457'', ''458'', ''459'', ''460'', ''461'', ''462'', ''463'', ''464'', ''465'', ''466'', ''467'', ''468'', ''469'', ''470'', ''471'', ''472'', ''473'', ''474'',
     ''475'', ''476'', ''477'', ''478'', ''479'', ''480'', ''481'', ''482'', ''483'', ''484'', ''485'', ''486'', ''487'', ''488'', ''489'', ''490'', ''491'', ''492'', ''493'', ''494'', ''495'', ''496'', ''497'', ''498'', ''499''] @
    [''500'', ''501'', ''502'', ''503'', ''504'', ''505'', ''506'', ''507'', ''508'', ''509'', ''510'', ''511'', ''512'', ''513'', ''514'', ''515'', ''516'', ''517'', ''518'', ''519'', ''520'', ''521'', ''522'', ''523'', ''524'',
     ''525'', ''526'', ''527'', ''528'', ''529'', ''530'', ''531'', ''532'', ''533'', ''534'', ''535'', ''536'', ''537'', ''538'', ''539'', ''540'', ''541'', ''542'', ''543'', ''544'', ''545'', ''546'', ''547'', ''548'', ''549'',
     ''550'', ''551'', ''552'', ''553'', ''554'', ''555'', ''556'', ''557'', ''558'', ''559'', ''560'', ''561'', ''562'', ''563'', ''564'', ''565'', ''566'', ''567'', ''568'', ''569'', ''570'', ''571'', ''572'', ''573'', ''574'',
     ''575'', ''576'', ''577'', ''578'', ''579'', ''580'', ''581'', ''582'', ''583'', ''584'', ''585'', ''586'', ''587'', ''588'', ''589'', ''590'', ''591'', ''592'', ''593'', ''594'', ''595'', ''596'', ''597'', ''598'', ''599''] @
    [''600'', ''601'', ''602'', ''603'', ''604'', ''605'', ''606'', ''607'', ''608'', ''609'', ''610'', ''611'', ''612'', ''613'', ''614'', ''615'', ''616'', ''617'', ''618'', ''619'', ''620'', ''621'', ''622'', ''623'', ''624'',
     ''625'', ''626'', ''627'', ''628'', ''629'', ''630'', ''631'', ''632'', ''633'', ''634'', ''635'', ''636'', ''637'', ''638'', ''639'', ''640'', ''641'', ''642'', ''643'', ''644'', ''645'', ''646'', ''647'', ''648'', ''649'',
     ''650'', ''651'', ''652'', ''653'', ''654'', ''655'', ''656'', ''657'', ''658'', ''659'', ''660'', ''661'', ''662'', ''663'', ''664'', ''665'', ''666'', ''667'', ''668'', ''669'', ''670'', ''671'', ''672'', ''673'', ''674'',
     ''675'', ''676'', ''677'', ''678'', ''679'', ''680'', ''681'', ''682'', ''683'', ''684'', ''685'', ''686'', ''687'', ''688'', ''689'', ''690'', ''691'', ''692'', ''693'', ''694'', ''695'', ''696'', ''697'', ''698'', ''699''] @
    [''700'', ''701'', ''702'', ''703'', ''704'', ''705'', ''706'', ''707'', ''708'', ''709'', ''710'', ''711'', ''712'', ''713'', ''714'', ''715'', ''716'', ''717'', ''718'', ''719'', ''720'', ''721'', ''722'', ''723'', ''724'',
     ''725'', ''726'', ''727'', ''728'', ''729'', ''730'', ''731'', ''732'', ''733'', ''734'', ''735'', ''736'', ''737'', ''738'', ''739'', ''740'', ''741'', ''742'', ''743'', ''744'', ''745'', ''746'', ''747'', ''748'', ''749'',
     ''750'', ''751'', ''752'', ''753'', ''754'', ''755'', ''756'', ''757'', ''758'', ''759'', ''760'', ''761'', ''762'', ''763'', ''764'', ''765'', ''766'', ''767'', ''768'', ''769'', ''770'', ''771'', ''772'', ''773'', ''774'',
     ''775'', ''776'', ''777'', ''778'', ''779'', ''780'', ''781'', ''782'', ''783'', ''784'', ''785'', ''786'', ''787'', ''788'', ''789'', ''790'', ''791'', ''792'', ''793'', ''794'', ''795'', ''796'', ''797'', ''798'', ''799''] @
    [''800'', ''801'', ''802'', ''803'', ''804'', ''805'', ''806'', ''807'', ''808'', ''809'', ''810'', ''811'', ''812'', ''813'', ''814'', ''815'', ''816'', ''817'', ''818'', ''819'', ''820'', ''821'', ''822'', ''823'', ''824'',
     ''825'', ''826'', ''827'', ''828'', ''829'', ''830'', ''831'', ''832'', ''833'', ''834'', ''835'', ''836'', ''837'', ''838'', ''839'', ''840'', ''841'', ''842'', ''843'', ''844'', ''845'', ''846'', ''847'', ''848'', ''849'',
     ''850'', ''851'', ''852'', ''853'', ''854'', ''855'', ''856'', ''857'', ''858'', ''859'', ''860'', ''861'', ''862'', ''863'', ''864'', ''865'', ''866'', ''867'', ''868'', ''869'', ''870'', ''871'', ''872'', ''873'', ''874'',
     ''875'', ''876'', ''877'', ''878'', ''879'', ''880'', ''881'', ''882'', ''883'', ''884'', ''885'', ''886'', ''887'', ''888'', ''889'', ''890'', ''891'', ''892'', ''893'', ''894'', ''895'', ''896'', ''897'', ''898'', ''899''] @
    [''900'', ''901'', ''902'', ''903'', ''904'', ''905'', ''906'', ''907'', ''908'', ''909'', ''910'', ''911'', ''912'', ''913'', ''914'', ''915'', ''916'', ''917'', ''918'', ''919'', ''920'', ''921'', ''922'', ''923'', ''924'',
     ''925'', ''926'', ''927'', ''928'', ''929'', ''930'', ''931'', ''932'', ''933'', ''934'', ''935'', ''936'', ''937'', ''938'', ''939'', ''940'', ''941'', ''942'', ''943'', ''944'', ''945'', ''946'', ''947'', ''948'', ''949'',
     ''950'', ''951'', ''952'', ''953'', ''954'', ''955'', ''956'', ''957'', ''958'', ''959'', ''960'', ''961'', ''962'', ''963'', ''964'', ''965'', ''966'', ''967'', ''968'', ''969'', ''970'', ''971'', ''972'', ''973'', ''974'',
     ''975'', ''976'', ''977'', ''978'', ''979'', ''980'', ''981'', ''982'', ''983'', ''984'', ''985'', ''986'', ''987'', ''988'', ''989'', ''990'', ''991'', ''992'', ''993'', ''994'', ''995'', ''996'', ''997'', ''998'', ''999'']"

text \<open>
  \<^verbatim>\<open>bson_snprintf\<close> with the formatted text as argument: the buffer and the length of the whole text.
\<close>

definition bson_snprintf :: "bytes \<Rightarrow> nat \<Rightarrow> bytes \<Rightarrow> (nat \<times> bytes) option" where
  "bson_snprintf str sz msg = do { r \<leftarrow> bson_vsnprintf str sz msg; Some (length msg, r) }"

text \<open>
  The answer: the length, the memory behind \<^verbatim>\<open>*strptr\<close> and whether it is the caller's buffer, and that buffer
  afterwards.
\<close>

definition bson_uint32_to_string :: "u32 \<Rightarrow> bytes \<Rightarrow> nat \<Rightarrow> (nat \<times> bytes \<times> bool \<times> bytes) option" where
  "bson_uint32_to_string value str sz =
     (if value < 1000 then
        Some (if value < 10 then 1 else if value < 100 then 2 else 3, str_of (gUint32Strs ! unat value) @ [0], False, str)
      else do {
        (n, str') \<leftarrow> bson_snprintf str sz (decimal (unat value));
        Some (n, str', True, str') })"


subsection \<open>Decimal numbers\<close>

lemma decimal_digits: "list_all c_isdigit (decimal n)"
proof (induction n rule: decimal.induct)
  case (1 n)
  have d: "c_isdigit (word_of_nat (48 + m))" if "m < 10" for m
  proof -
    have "unat (of_nat (48 + m) :: u8) = 48 + m" using that by (simp add: unat_of_nat_u8 del: of_nat_add of_nat_numeral)
    then show ?thesis using that by (simp add: c_isdigit_def word_le_nat_alt del: of_nat_add of_nat_numeral)
  qed
  show ?case using 1 d [of "n mod 10"] d [of n] by (subst decimal.simps) auto
qed

lemma decimal_not_Nil [simp]: "decimal n \<noteq> []"
  by (subst decimal.simps) simp

lemma decimal_length: "n < 10 ^ k \<Longrightarrow> 0 < k \<Longrightarrow> length (decimal n) \<le> k"
proof (induction k arbitrary: n)
  case (Suc k)
  show ?case
  proof (cases "n < 10")
    case False
    then have k: "0 < k" using Suc.prems(1) by (cases k) auto
    have "n div 10 < 10 ^ k" using Suc.prems(1) by (simp add: less_mult_imp_div_less mult.commute)
    then show ?thesis using Suc.IH [OF _ k] False by (subst decimal.simps) simp
  qed (subst decimal.simps, simp)
qed simp

lemma decimal_length_ge: "10 ^ k \<le> n \<Longrightarrow> k < length (decimal n)"
proof (induction k arbitrary: n)
  case (Suc k)
  have "10 * 1 \<le> 10 * (10 :: nat) ^ k" by (intro mult_left_mono) simp_all
  then have "10 ^ k \<le> n div 10" "\<not> n < 10" using Suc.prems unfolding power_Suc by (simp add: less_eq_div_iff_mult_less_eq mult.commute, linarith)
  then show ?case using Suc.IH [of "n div 10"] by (subst decimal.simps) simp
qed simp

lemma digit_val_10: "m < 10 \<Longrightarrow> digit_val (word_of_nat (48 + m)) = Some (int m)"
proof -
  assume m: "m < 10"
  have u: "unat (word_of_nat (48 + m) :: u8) = 48 + m" using m by (simp add: unat_of_nat_u8 del: of_nat_add of_nat_numeral)
  then have "uint (word_of_nat (48 + m) :: u8) = 48 + int m" by (metis int_plus of_nat_numeral uint_nat)
  moreover have "c_isdigit (word_of_nat (48 + m))" using u m by (simp add: c_isdigit_def word_le_nat_alt del: of_nat_add of_nat_numeral)
  ultimately show ?thesis by (simp add: digit_val_def del: of_nat_add of_nat_numeral)
qed

lemma decimal_num: "digits_num 10 (decimal n) = int n"
proof (induction n rule: decimal.induct)
  case (1 n)
  show ?case
  proof (cases "n < 10")
    case True
    then show ?thesis using digit_val_10 [of n] by (subst decimal.simps) (simp add: digits_num_def del: of_nat_add of_nat_numeral)
  next
    case False
    then show ?thesis using 1 digit_val_10 [of "n mod 10"]
      by (subst decimal.simps) (simp add: digits_num_def del: of_nat_add of_nat_numeral, simp add: zdiv_int zmod_int)
  qed
qed

text \<open>The table, digit by digit: one more digit behind each entry.\<close>

definition more_digits :: "'a list \<Rightarrow> 'a list list \<Rightarrow> 'a list list" where
  "more_digits ds xs = concat (map (\<lambda>x. map (\<lambda>d. x @ [d]) ds) xs)"

lemma map_more_digits: "map (map f) (more_digits ds xs) = more_digits (map f ds) (map (map f) xs)"
  by (induction xs) (simp_all add: more_digits_def)

lemma table_digits:
  "gUint32Strs = map (\<lambda>c. [c]) ''0123456789'' @ more_digits ''0123456789'' (map (\<lambda>c. [c]) ''123456789'') @
     more_digits ''0123456789'' (more_digits ''0123456789'' (map (\<lambda>c. [c]) ''123456789''))"
  unfolding gUint32Strs_def more_digits_def by simp

lemma upt_tens: "a \<le> b \<Longrightarrow> [10 * a..<10 * b] = concat (map (\<lambda>i. map (\<lambda>j. 10 * i + j) [0..<10]) [a..<b])"
proof (induction b)
  case (Suc b)
  show ?case
  proof (cases "a = Suc b")
    case False
    have "[10 * a..<10 * Suc b] = [10 * a..<10 * b] @ [10 * b..<10 * b + 10]"
      unfolding mult_Suc_right add.commute [of 10] by (rule upt_add_eq_append) (use Suc.prems False in simp)
    moreover have "[10 * b..<10 * b + 10] = map (\<lambda>j. 10 * b + j) [0..<10]"
      unfolding add.commute [of "10 * b"] by (rule map_add_upt [symmetric])
    ultimately show ?thesis using Suc False by (simp add: le_Suc_eq del: upt_rec_numeral mult_Suc_right)
  qed simp
qed simp

lemma decimal_tens:
  assumes "1 \<le> a" "a \<le> b"
  shows "map decimal [10 * a..<10 * b] = more_digits (map (\<lambda>j. word_of_nat (48 + j)) [0..<10]) (map decimal [a..<b])"
proof -
  have "decimal (10 * i + j) = decimal i @ [word_of_nat (48 + j)]" if "1 \<le> i" "j < 10" for i j
    using that by (subst decimal.simps) simp
  then have "map (\<lambda>j. decimal (10 * i + j)) [0..<10] = map (\<lambda>j. decimal i @ [word_of_nat (48 + j)]) [0..<10]" if "1 \<le> i" for i
    using that by simp
  then have "map (\<lambda>i. map (\<lambda>j. decimal (10 * i + j)) [0..<10]) [a..<b] =
      map (\<lambda>i. map (\<lambda>j. decimal i @ [word_of_nat (48 + j)]) [0..<10]) [a..<b]"
    using assms(1) by (intro map_cong refl) simp
  then show ?thesis unfolding upt_tens [OF assms(2)] more_digits_def map_concat map_map comp_def by (rule arg_cong)
qed

lemma table_decimal: "map str_of gUint32Strs = map decimal [0..<1000]"
proof -
  let ?D = "map (\<lambda>j. word_of_nat (48 + j)) [0..<10] :: bytes"
  let ?M = "map decimal [1..<10]"
  have d: "map of_char ''0123456789'' = ?D" "map (map of_char) (map (\<lambda>c. [c]) ''123456789'') = ?M"
      "map (map of_char) (map (\<lambda>c. [c]) ''0123456789'') = map decimal [0..<10]"
    by (simp_all add: of_char_def upt_rec decimal.simps)
  have upt: "[0..<1000] = [0..<10] @ [10..<100] @ [100..<1000 :: nat]"
    using upt_add_eq_append [of 0 10 990] upt_add_eq_append [of 10 100 900] by (simp del: upt_rec_numeral)
  have t: "map decimal [10..<100] = more_digits ?D ?M" "map decimal [100..<1000] = more_digits ?D (more_digits ?D ?M)"
    using decimal_tens [of 1 10] decimal_tens [of 10 100] by (simp_all only: mult_1_right num_double order_refl) simp_all
  have c: "str_of = map of_char" by (simp add: str_of_def fun_eq_iff)
  show ?thesis unfolding table_digits c upt map_append map_more_digits d t ..
qed


subsection \<open>The key of a number\<close>

lemma decimal_no_nul: "no_nul (decimal n)"
  using decimal_digits [of n] by (auto simp: no_nul_def list_all_iff c_isdigit_def)

lemma table_entry: "n < 1000 \<Longrightarrow> str_of (gUint32Strs ! n) = decimal n"
  using arg_cong [OF table_decimal, of "\<lambda>xs. xs ! n"] arg_cong [OF table_decimal, of length] by simp

lemma decimal_length_small: "n < 1000 \<Longrightarrow> length (decimal n) = (if n < 10 then 1 else if n < 100 then 2 else 3)"
  using decimal_length [of n 1] decimal_length [of n 2] decimal_length [of n 3] decimal_length_ge [of 1 n] decimal_length_ge [of 2 n]
    decimal_length_ge [of 0 n] by (cases "n = 0") (auto simp: decimal.simps [of 0] intro!: le_antisym Suc_leI)

lemma decimal_u32: "length (decimal (unat (v :: u32))) \<le> 10"
  using decimal_length [of "unat v" 10] unat_u32_less [of v] by simp

lemma strtoll_decimal:
  assumes "n < 2 ^ 63"
  shows "\<exists>fin. bson_ascii_strtoll (decimal n @ 0 # r) 10 = Some (int n, ENONE, fin)"
proof -
  have d: "list_all (digit_of 10) (decimal n)"
    using decimal_digits [of n] by (auto simp: list_all_iff digit_of_def digit_val_def c_isdigit_def word_le_def)
  moreover have "decimal n \<noteq> []" by (subst decimal.simps) simp
  moreover have "c_isdigit (hd (decimal n))" using decimal_digits [of n] calculation(2) by (cases "decimal n") auto
  moreover have "\<not> digit_of 10 0" by (simp add: digit_of_def)
  ultimately have t: "number_text 10 [] [] 10 (decimal n) 0" by (simp add: number_text_def)
  have "LLONG_MIN \<le> int n" "int n \<le> LLONG_MAX" using assms by (simp_all add: LLONG_MAX_def LLONG_MIN_def)
  with strtoll_value [OF _ t, of "[]" r] show ?thesis by (simp add: decimal_num max_def min_def)
qed

text \<open>
  C24. \<open>bson_uint32_to_string\<close> is the decimal key of its argument for every 32-bit number: it returns the number of
  digits, leaves the caller's buffer alone below 1000, and in a buffer of at least eleven bytes never writes outside and
  always yields the whole text, which \<open>bson_ascii_strtoll\<close> reads back as the number; different numbers have different keys.
\<close>
theorem uint32_to_string_decimal:
  assumes "length str = sz" "11 \<le> sz"
  shows "\<exists>p own str'. bson_uint32_to_string value str sz = Some (length (decimal (unat value)), p, own, str') \<and>
    c_string p 0 = Some (decimal (unat value)) \<and> (own \<longleftrightarrow> 1000 \<le> value) \<and> (\<not> own \<longrightarrow> str' = str) \<and>
    (\<exists>fin. bson_ascii_strtoll p 10 = Some (int (unat value), ENONE, fin)) \<and>
    (\<forall>value'. decimal (unat value') = decimal (unat value) \<longleftrightarrow> value' = value)"
proof -
  let ?d = "decimal (unat value)"
  have key: "c_string (?d @ 0 # r) 0 = Some ?d \<and> (\<exists>fin. bson_ascii_strtoll (?d @ 0 # r) 10 = Some (int (unat value), ENONE, fin))" for r
  proof
    show "c_string (?d @ 0 # r) 0 = Some ?d" using c_string_append [of 0 "[]" "?d" r] decimal_no_nul by simp
    show "\<exists>fin. bson_ascii_strtoll (?d @ 0 # r) 10 = Some (int (unat value), ENONE, fin)"
      by (rule strtoll_decimal) (use unat_u32_less [of "value"] in simp)
  qed
  have inj: "decimal (unat value') = ?d \<longleftrightarrow> value' = value" for value' :: u32
    using decimal_num by (metis of_nat_eq_iff word_unat_eq_iff)
  show ?thesis
  proof (cases "value < 1000")
    case True
    then have "unat value < 1000" by (simp add: word_less_nat_alt)
    moreover have "value < 10 \<longleftrightarrow> unat value < 10" "value < 100 \<longleftrightarrow> unat value < 100" by (simp_all add: word_less_nat_alt)
    ultimately have "bson_uint32_to_string value str sz = Some (length ?d, ?d @ [0], False, str)"
      using True table_entry decimal_length_small by (simp add: bson_uint32_to_string_def)
    then show ?thesis using key [of "[]"] inj True by auto
  next
    case False
    obtain r where "bson_vsnprintf str sz ?d = Some (?d @ 0 # r)"
      using vsnprintf_fits [of "?d" sz str] decimal_u32 [of "value"] assms by fastforce
    then have "bson_uint32_to_string value str sz = Some (length ?d, ?d @ 0 # r, True, ?d @ 0 # r)"
      using False by (simp add: bson_uint32_to_string_def bson_snprintf_def)
    then show ?thesis using key [of r] inj False by (auto simp: not_less)
  qed
qed

lemma uint32_to_string_decimal_witness:
  "\<exists>p own str'. bson_uint32_to_string 4294967295 (replicate 16 0) 16 = Some (length (decimal 4294967295), p, own, str') \<and>
    c_string p 0 = Some (decimal 4294967295) \<and> own"
  using uint32_to_string_decimal [of "replicate 16 0" 16 4294967295] by auto

end
