(* ===== verification/Reader.thy ===== *)
theory Reader
  imports Validate_Exact
begin

text \<open>
  \<^verbatim>\<open>src/bson/bson-reader.c\<close>: a reader hands out the documents of a stream one by one, from memory or through a read
  function that fills a buffer.

  The read function is an argument over the state \<open>'s\<close> of its handle: it gets the number of bytes wanted and answers the
  bytes read, empty at the end of the stream and \<open>None\<close> for an error.
\<close>

subsection \<open>The readers\<close>

type_synonym 's read_func = "'s \<Rightarrow> nat \<Rightarrow> bytes option \<times> 's"

record 's bson_reader_handle =
  rh_handle :: 's
  rh_done :: bool
  rh_failed :: bool
  rh_end :: nat
  rh_len :: nat
  rh_offset :: nat
  rh_bytes_read :: nat
  rh_data :: bytes

record bson_reader_data =
  rd_data :: bytes
  rd_length :: nat
  rd_offset :: nat

datatype 's bson_reader = BSON_READER_HANDLE "'s bson_reader_handle" | BSON_READER_DATA bson_reader_data

text \<open>The conversion to \<^verbatim>\<open>int32_t\<close>.\<close>

definition to_int32 :: "nat \<Rightarrow> int" where
  "to_int32 n = sint (word_of_nat n :: u32)"

definition fill_buffer :: "'s read_func \<Rightarrow> 's bson_reader_handle \<Rightarrow> 's bson_reader_handle option" where
  "fill_buffer rf r =
     (if \<not> rh_done r \<and> rh_offset r = 0 \<and> rh_end r = 0 then
        (case rf (rh_handle r) (rh_len r) of
           (Some (c # cs), h) \<Rightarrow> do {
             data \<leftarrow> mem_write (rh_data r) 0 (c # cs);
             Some (r\<lparr>rh_handle := h, rh_data := data, rh_bytes_read := rh_bytes_read r + length (c # cs), rh_end := length (c # cs)\<rparr>) }
         | (_, h) \<Rightarrow> Some (r\<lparr>rh_handle := h, rh_done := True\<rparr>))
      else do {
        let n = rh_end r - rh_offset r;
        valid \<leftarrow> mem_read (rh_data r) (rh_offset r) n;
        data \<leftarrow> mem_write (rh_data r) 0 valid;
        let r = r\<lparr>rh_data := data, rh_end := n, rh_offset := 0\<rparr>;
        r \<leftarrow> (case rf (rh_handle r) (rh_len r - n) of
           (Some (c # cs), h) \<Rightarrow> do {
             data \<leftarrow> mem_write data n (c # cs);
             Some (r\<lparr>rh_handle := h, rh_data := data, rh_bytes_read := rh_bytes_read r + length (c # cs), rh_end := n + length (c # cs)\<rparr>) }
         | (x, h) \<Rightarrow> Some (r\<lparr>rh_handle := h, rh_done := True, rh_failed := (x = None)\<rparr>));
        (if rh_end r \<le> rh_len r then Some r else None) })"

definition bson_reader_new_from_handle :: "'s read_func \<Rightarrow> 's \<Rightarrow> 's bson_reader option" where
  "bson_reader_new_from_handle rf h =
     map_option BSON_READER_HANDLE (fill_buffer rf
       \<lparr>rh_handle = h, rh_done = False, rh_failed = False, rh_end = 0, rh_len = 1024, rh_offset = 0, rh_bytes_read = 0,
        rh_data = bson_malloc0 1024\<rparr>)"

definition grow_buffer :: "(nat \<Rightarrow> u8) \<Rightarrow> 's bson_reader_handle \<Rightarrow> 's bson_reader_handle" where
  "grow_buffer junk r = r\<lparr>rh_data := bson_realloc junk (rh_data r) (rh_len r * 2), rh_len := rh_len r * 2\<rparr>"

definition handle_tell :: "'s bson_reader_handle \<Rightarrow> int" where
  "handle_tell r = int (rh_bytes_read r) - int (rh_end r) + int (rh_offset r)"

text \<open>
  The answer of a read: the document handed out (the memory behind its pointer and its length), \<^verbatim>\<open>*reached_eof\<close>, and the
  reader. The document points into the buffer and is gone with the next read.
\<close>

partial_function (option) handle_read ::
  "(nat \<Rightarrow> u8) \<Rightarrow> 's read_func \<Rightarrow> 's bson_reader_handle \<Rightarrow> (doc_view option \<times> bool \<times> 's bson_reader_handle) option" where
  "handle_read junk rf r =
     (if rh_done r then Some (None, \<not> rh_failed r, r)
      else if rh_end r - rh_offset r < 4 then
        (case fill_buffer rf r of None \<Rightarrow> None | Some r1 \<Rightarrow> handle_read junk rf r1)
      else
        (case rd32 (rh_data r) (rh_offset r) of
           None \<Rightarrow> None
         | Some u \<Rightarrow>
             let blen = to_int32 u in
             if blen < 5 then Some (None, False, r)
             else if blen > to_int32 (rh_end r - rh_offset r) then
               (case fill_buffer rf (if blen > to_int32 (rh_len r) then grow_buffer junk r else r) of
                  None \<Rightarrow> None | Some r1 \<Rightarrow> handle_read junk rf r1)
             else
               (case static_view (drop (rh_offset r) (rh_data r)) (nat blen) of
                  None \<Rightarrow> None
                | Some ok \<Rightarrow>
                    if \<not> ok then Some (None, False, r)
                    else Some (Some (drop (rh_offset r) (rh_data r), nat blen), False, r\<lparr>rh_offset := rh_offset r + nat blen\<rparr>))))"

declare handle_read.simps [code]

definition bson_reader_new_from_data :: "bytes \<Rightarrow> nat \<Rightarrow> 's bson_reader" where
  "bson_reader_new_from_data data n = BSON_READER_DATA \<lparr>rd_data = data, rd_length = n, rd_offset = 0\<rparr>"

definition data_read :: "bson_reader_data \<Rightarrow> (doc_view option \<times> bool \<times> bson_reader_data) option" where
  "data_read r =
     (if rd_offset r + 4 < rd_length r then do {
        u \<leftarrow> rd32 (rd_data r) (rd_offset r);
        let blen = to_int32 u;
        (if blen < 5 then Some (None, False, r)
         else if blen > to_int32 (rd_length r - rd_offset r) then Some (None, False, r)
         else do {
           ok \<leftarrow> static_view (drop (rd_offset r) (rd_data r)) (nat blen);
           (if \<not> ok then Some (None, False, r)
            else Some (Some (drop (rd_offset r) (rd_data r), nat blen), False, r\<lparr>rd_offset := rd_offset r + nat blen\<rparr>)) }) }
      else Some (None, rd_offset r = rd_length r, r))"

definition bson_reader_read ::
  "(nat \<Rightarrow> u8) \<Rightarrow> 's read_func \<Rightarrow> 's bson_reader \<Rightarrow> (doc_view option \<times> bool \<times> 's bson_reader) option" where
  "bson_reader_read junk rf rd =
     (case rd of
        BSON_READER_HANDLE r \<Rightarrow> map_option (\<lambda>(x, eof, r). (x, eof, BSON_READER_HANDLE r)) (handle_read junk rf r)
      | BSON_READER_DATA r \<Rightarrow> map_option (\<lambda>(x, eof, r). (x, eof, BSON_READER_DATA r)) (data_read r))"

definition bson_reader_tell :: "'s bson_reader \<Rightarrow> int" where
  "bson_reader_tell rd = (case rd of BSON_READER_HANDLE r \<Rightarrow> handle_tell r | BSON_READER_DATA r \<Rightarrow> int (rd_offset r))"

definition bson_reader_reset :: "'s bson_reader \<Rightarrow> 's bson_reader" where
  "bson_reader_reset rd = (case rd of BSON_READER_HANDLE r \<Rightarrow> rd | BSON_READER_DATA r \<Rightarrow> BSON_READER_DATA (r\<lparr>rd_offset := 0\<rparr>))"

text \<open>
  The read function over a file descriptor. The system call \<^verbatim>\<open>read\<close> is the environment: the file has its bytes left and
  the answers to come. An answer is \<^verbatim>\<open>EAGAIN\<close>, another error, or at most \<open>n + 1\<close> bytes; all bytes that are wanted come
  when there are no more answers.
\<close>

datatype read_answer = TRY_AGAIN | FAILED | GIVES nat

record open_file =
  f_rest :: bytes
  f_answers :: "read_answer list"

record handle_fd =
  fd_fd :: int
  fd_close :: bool
  fd_file :: open_file

function handle_fd_read :: "handle_fd \<Rightarrow> nat \<Rightarrow> bytes option \<times> handle_fd" where
  "handle_fd_read fd n =
     (if fd_fd fd = -1 then (None, fd)
      else case f_answers (fd_file fd) of
        [] \<Rightarrow> (Some (take n (f_rest (fd_file fd))), fd\<lparr>fd_file := (fd_file fd)\<lparr>f_rest := drop n (f_rest (fd_file fd))\<rparr>\<rparr>)
      | TRY_AGAIN # as \<Rightarrow> handle_fd_read (fd\<lparr>fd_file := (fd_file fd)\<lparr>f_answers := as\<rparr>\<rparr>) n
      | FAILED # as \<Rightarrow> (None, fd\<lparr>fd_file := (fd_file fd)\<lparr>f_answers := as\<rparr>\<rparr>)
      | GIVES a # as \<Rightarrow> (Some (take (min (Suc a) n) (f_rest (fd_file fd))),
          fd\<lparr>fd_file := (fd_file fd)\<lparr>f_answers := as, f_rest := drop (min (Suc a) n) (f_rest (fd_file fd))\<rparr>\<rparr>))"
  by pat_completeness auto
termination
  by (relation "measure (\<lambda>(fd, n). length (f_answers (fd_file fd)))") auto

declare handle_fd_read.simps [simp del]

definition bson_reader_new_from_fd :: "int \<Rightarrow> bool \<Rightarrow> open_file \<Rightarrow> handle_fd bson_reader option" where
  "bson_reader_new_from_fd fd close f =
     (if fd = -1 then None
      else bson_reader_new_from_handle handle_fd_read \<lparr>fd_fd = fd, fd_close = close, fd_file = f\<rparr>)"

end
