(* ===== verification/Reader_Stream.thy ===== *)
theory Reader_Stream
  imports Reader
begin

text \<open>A reader hands out exactly the documents of its stream, however the read function cuts it.\<close>

subsection \<open>The interface of read functions\<close>

text \<open>
  \<open>rest h\<close> are the bytes still to come. A read function delivers a non-empty prefix of them, and nothing only at the
  end.
\<close>

locale byte_source =
  fixes rf :: "'s read_func" and rest :: "'s \<Rightarrow> bytes" and ok :: "'s \<Rightarrow> bool"
  assumes source_read: "ok h \<Longrightarrow> 0 < n \<Longrightarrow> \<exists>c h'. rf h n = (Some c, h') \<and> ok h' \<and> length c \<le> n \<and> rest h = c @ rest h' \<and>
    (c = [] \<longrightarrow> rest h = [])"

text \<open>What a reader has still to hand out, and its invariant.\<close>

definition buffered :: "'s bson_reader_handle \<Rightarrow> bytes" where
  "buffered r = take (rh_end r - rh_offset r) (drop (rh_offset r) (rh_data r))"

definition handle_ok :: "('s \<Rightarrow> bytes) \<Rightarrow> ('s \<Rightarrow> bool) \<Rightarrow> 's bson_reader_handle \<Rightarrow> bool" where
  "handle_ok rest ok r \<longleftrightarrow> ok (rh_handle r) \<and> \<not> rh_failed r \<and> rh_offset r \<le> rh_end r \<and> rh_end r \<le> rh_len r \<and>
     rh_len r = length (rh_data r) \<and> 1024 \<le> rh_len r \<and> rh_len r < 2 ^ 31"

definition streams :: "('s \<Rightarrow> bytes) \<Rightarrow> ('s \<Rightarrow> bool) \<Rightarrow> 's bson_reader \<Rightarrow> bytes \<Rightarrow> bool" where
  "streams rest ok rd xs \<longleftrightarrow>
     (case rd of
        BSON_READER_HANDLE r \<Rightarrow> handle_ok rest ok r \<and> xs = buffered r @ rest (rh_handle r) \<and> (rh_done r \<longrightarrow> xs = [])
      | BSON_READER_DATA r \<Rightarrow> rd_offset r \<le> rd_length r \<and> rd_length r \<le> length (rd_data r) \<and> rd_length r \<le> INT_MAX \<and>
          xs = take (rd_length r - rd_offset r) (drop (rd_offset r) (rd_data r)))"

lemma to_int32_small: "n < 2 ^ 31 \<Longrightarrow> to_int32 n = int n"
  by (simp add: to_int32_def signed_of_nat signed_take_bit_int_eq_self)

lemma length_buffered: "rh_end r \<le> length (rh_data r) \<Longrightarrow> length (buffered r) = rh_end r - rh_offset r"
  by (simp add: buffered_def)

text \<open>The bytes that are left: a prefix of a document, or the whole document.\<close>

lemma prefix_document:
  assumes "take n x @ r = enc_doc es @ later" "n \<le> length x" "length (enc_doc es) \<le> INT_MAX"
  shows "4 \<le> n \<Longrightarrow> rd32 x 0 = Some (length (enc_doc es))" "length (enc_doc es) \<le> n \<Longrightarrow> take (length (enc_doc es)) x = enc_doc es"
proof -
  let ?n = "length (enc_doc es)"
  have e: "enc_doc es = le32 ?n @ enc_elems es @ [0]" by (simp add: enc_doc_def frame_doc_def add.commute)
  show "rd32 x 0 = Some ?n" if "4 \<le> n"
  proof (rule at_le32_rd)
    have "take 4 (take n x @ r) = take 4 (enc_doc es @ later)" using assms(1) by simp
    also have "take 4 (enc_doc es @ later) = le32 ?n" by (subst e) simp
    finally have "take 4 x = le32 ?n" using that assms(2) by (simp add: min_absorb1)
    then show "at x 0 (le32 ?n)" using that assms(2) by (simp add: at_def)
  qed (use assms(3) in simp)
  show "take ?n x = enc_doc es" if "?n \<le> n"
    using arg_cong [OF assms(1), of "take ?n"] that assms(2) by (simp add: min_absorb1)
qed

lemma handle_read_done: "rh_done r \<Longrightarrow> handle_read junk rf r = Some (None, \<not> rh_failed r, r)"
  by (simp add: handle_read.simps)

context byte_source
begin

text \<open>A fill either appends some bytes of the source or finds it empty.\<close>

lemma fill_ok:
  assumes r: "handle_ok rest ok r" and n: "\<not> rh_done r" and room: "rh_end r - rh_offset r < rh_len r"
  shows "\<exists>r1. fill_buffer rf r = Some r1 \<and> handle_ok rest ok r1 \<and> rh_len r1 = rh_len r \<and> handle_tell r1 = handle_tell r \<and>
    buffered r1 @ rest (rh_handle r1) = buffered r @ rest (rh_handle r) \<and>
    (if rest (rh_handle r) = [] then rh_done r1 else \<not> rh_done r1 \<and> length (rest (rh_handle r1)) < length (rest (rh_handle r)))"
proof -
  have k: "ok (rh_handle r)" "\<not> rh_failed r" "rh_offset r \<le> rh_end r" "rh_end r \<le> rh_len r" "rh_len r = length (rh_data r)"
    "1024 \<le> rh_len r" "rh_len r < 2 ^ 31"
    using r by (simp_all add: handle_ok_def)
  let ?n = "rh_end r - rh_offset r"
  show ?thesis
  proof (cases "rh_offset r = 0 \<and> rh_end r = 0")
    case True
    obtain c h where c: "rf (rh_handle r) (rh_len r) = (Some c, h)" "ok h" "length c \<le> rh_len r" "rest (rh_handle r) = c @ rest h"
        "c = [] \<longrightarrow> rest (rh_handle r) = []"
      using source_read [OF k(1), of "rh_len r"] k(6) by auto
    show ?thesis
    proof (cases c)
      case Nil
      then show ?thesis using c k n True by (auto simp: fill_buffer_def handle_ok_def buffered_def handle_tell_def)
    next
      case (Cons b cs)
      let ?r = "r\<lparr>rh_handle := h, rh_data := c @ drop (length c) (rh_data r), rh_bytes_read := rh_bytes_read r + length c, rh_end := length c\<rparr>"
      have "fill_buffer rf r = Some ?r" using c(1,3) k(5) n True Cons by (simp add: fill_buffer_def mem_write_def)
      moreover have "handle_ok rest ok ?r" using c(2,3) k True by (simp add: handle_ok_def)
      moreover have "buffered ?r @ rest h = rest (rh_handle r)" "buffered r = []" using c(4) True by (simp_all add: buffered_def)
      ultimately show ?thesis using c(4) Cons True n by (auto simp: handle_tell_def)
    qed
  next
    case False
    let ?v = "buffered r"
    have cond: "\<not> (\<not> rh_done r \<and> rh_offset r = 0 \<and> rh_end r = 0)" using False by blast
    have v: "mem_read (rh_data r) (rh_offset r) ?n = Some ?v" "length ?v = ?n"
      using k by (simp_all add: mem_read_def buffered_def)
    have w: "mem_write (rh_data r) 0 ?v = Some (?v @ drop ?n (rh_data r))" using v(2) k by (simp add: mem_write_def)
    obtain c h where c: "rf (rh_handle r) (rh_len r - ?n) = (Some c, h)" "ok h" "length c \<le> rh_len r - ?n" "rest (rh_handle r) = c @ rest h"
        "c = [] \<longrightarrow> rest (rh_handle r) = []"
      using source_read [OF k(1), of "rh_len r - ?n"] room by auto
    show ?thesis
    proof (cases c)
      case Nil
      let ?r = "r\<lparr>rh_data := ?v @ drop ?n (rh_data r), rh_end := ?n, rh_offset := 0, rh_handle := h, rh_done := True, rh_failed := False\<rparr>"
      have "fill_buffer rf r = Some ?r" 
        unfolding fill_buffer_def if_not_P [OF cond] Let_def v(1) w Option.bind.simps using c(1) Nil room by simp
      moreover have "handle_ok rest ok ?r" using c(2) k v(2) by (simp add: handle_ok_def)
      moreover have "buffered ?r = ?v" using v(2) by (simp add: buffered_def)
      ultimately show ?thesis using c Nil k(3) by (auto simp: handle_tell_def)
    next
      case (Cons b cs)
      let ?d = "?v @ c @ drop (?n + length c) (rh_data r)"
      let ?r = "r\<lparr>rh_data := ?d, rh_end := ?n + length c, rh_offset := 0, rh_handle := h, rh_bytes_read := rh_bytes_read r + length c\<rparr>"
      have w2: "mem_write (?v @ drop ?n (rh_data r)) ?n c = Some ?d" using c(3) k v(2) by (simp add: mem_write_def add.commute)
      have "fill_buffer rf r = Some ?r" 
        unfolding fill_buffer_def if_not_P [OF cond] Let_def v(1) w Option.bind.simps using c(1,3) w2 Cons room by simp
      moreover have "handle_ok rest ok ?r" using c(2,3) k v(2) by (simp add: handle_ok_def)
      moreover have "buffered ?r = ?v @ c" using v(2) by (simp add: buffered_def)
      ultimately show ?thesis using c(4) Cons n k(3) by (auto simp: handle_tell_def)
    qed
  qed
qed

lemma handle_read_end:
  assumes "handle_ok rest ok r" "buffered r = []" "rest (rh_handle r) = []"
  shows "\<exists>r'. handle_read junk rf r = Some (None, True, r') \<and> handle_ok rest ok r' \<and> buffered r' = [] \<and> rest (rh_handle r') = [] \<and>
    handle_tell r' = handle_tell r"
proof (cases "rh_done r")
  case True
  then show ?thesis using assms handle_read_done [of r junk rf] by (auto simp: handle_ok_def)
next
  case False
  have n: "rh_end r - rh_offset r = 0" "0 < rh_len r"
    using assms(1,2) length_buffered [of r] by (auto simp: handle_ok_def)
  obtain r1 where r1: "fill_buffer rf r = Some r1" "handle_ok rest ok r1" "buffered r1 @ rest (rh_handle r1) = []" "rh_done r1"
      "handle_tell r1 = handle_tell r"
    using fill_ok [OF assms(1) False] n assms(2,3) by auto
  then have "handle_read junk rf r = Some (None, True, r1)"
    using n(1) False handle_read_done [OF r1(4)] by (simp add: handle_read.simps [of junk rf r] handle_ok_def)
  then show ?thesis using r1 by auto
qed

lemma handle_read_doc:
  assumes len: "length (enc_doc es) \<le> 2 ^ 30"
  shows "handle_ok rest ok r \<Longrightarrow> \<not> rh_done r \<Longrightarrow> buffered r @ rest (rh_handle r) = enc_doc es @ later \<Longrightarrow>
    \<exists>x r'. handle_read junk rf r = Some (Some (x, length (enc_doc es)), False, r') \<and> take (length (enc_doc es)) x = enc_doc es \<and>
      handle_ok rest ok r' \<and> \<not> rh_done r' \<and> buffered r' @ rest (rh_handle r') = later \<and>
      handle_tell r' = handle_tell r + int (length (enc_doc es))"
proof (induction "length (rest (rh_handle r))" arbitrary: r rule: less_induct)
  case less
  let ?n = "length (enc_doc es)" and ?a = "rh_end r - rh_offset r"
  let ?x = "drop (rh_offset r) (rh_data r)"
  have k: "rh_offset r \<le> rh_end r" "rh_end r \<le> rh_len r" "rh_len r = length (rh_data r)" "1024 \<le> rh_len r" "rh_len r < 2 ^ 31"
    using less.prems(1) by (simp_all add: handle_ok_def)
  have a: "?a \<le> length ?x" using k by simp
  have i32: "to_int32 ?n = int ?n" "to_int32 ?a = int ?a" "to_int32 (rh_len r) = int (rh_len r)"
    using to_int32_small [of "?n"] to_int32_small [of "?a"] to_int32_small [of "rh_len r"] len k by simp_all
  have lim: "?n \<le> INT_MAX" using len by simp
  note doc = prefix_document [OF less.prems(3) [unfolded buffered_def] a lim]
  have short: "rest (rh_handle r) \<noteq> []" if "?a < ?n"
    using arg_cong [OF less.prems(3), of length] length_buffered [of r] k that by auto
  have step: "\<exists>x r'. handle_read junk rf r = Some (Some (x, ?n), False, r') \<and> take ?n x = enc_doc es \<and>
      handle_ok rest ok r' \<and> \<not> rh_done r' \<and> buffered r' @ rest (rh_handle r') = later \<and> handle_tell r' = handle_tell r + int ?n"
    if g: "handle_ok rest ok g" "\<not> rh_done g" "rh_end g - rh_offset g < rh_len g" "handle_tell g = handle_tell r"
      "buffered g = buffered r" "rh_handle g = rh_handle r" "?a < ?n"
      and e: "handle_read junk rf r = (case fill_buffer rf g of None \<Rightarrow> None | Some r1 \<Rightarrow> handle_read junk rf r1)" for g
  proof -
    obtain r1 where r1: "fill_buffer rf g = Some r1" "handle_ok rest ok r1" "\<not> rh_done r1" "handle_tell r1 = handle_tell r"
        "buffered r1 @ rest (rh_handle r1) = enc_doc es @ later" "length (rest (rh_handle r1)) < length (rest (rh_handle r))"
      using fill_ok [OF g(1,2,3)] g(4-6) short [OF g(7)] less.prems(3) by auto
    show ?thesis using less.hyps [OF r1(6,2,3,5)] e r1(1,4) by simp
  qed
  show ?case
  proof (cases "?a < 4")
    case True
    show ?thesis
      by (rule step [of r]) (use less.prems True k length_enc_doc_ge [of es] in \<open>simp_all add: handle_read.simps [of junk rf r]\<close>)
  next
    case False
    have rd: "rd32 (rh_data r) (rh_offset r) = Some ?n"
      using doc(1) False a k by (auto simp: rd32_def mem_read_def split: if_splits)
    have n5: "\<not> to_int32 ?n < 5" using i32(1) length_enc_doc_ge [of es] by simp
    note unf = handle_read.simps [of junk rf r, unfolded if_not_P [OF less.prems(2)] if_not_P [OF False] rd option.case Let_def if_not_P [OF n5]]
    show ?thesis
    proof (cases "?a < ?n")
      case True
      let ?g = "if ?n > rh_len r then grow_buffer junk r else r"
      have "handle_ok rest ok ?g" "buffered ?g = buffered r"
        using less.prems(1) len k by (auto simp: handle_ok_def grow_buffer_def buffered_def bson_realloc_def)
      moreover have "handle_tell ?g = handle_tell r" "rh_handle ?g = rh_handle r" "\<not> rh_done ?g" "rh_end ?g - rh_offset ?g < rh_len ?g"
        using less.prems(2) k True by (auto simp: grow_buffer_def handle_tell_def)
      ultimately show ?thesis using True unf i32 by (intro step [of ?g]) simp_all
    next
      case False
      then have t: "take ?n ?x = enc_doc es" using doc(2) by simp
      let ?r = "r\<lparr>rh_offset := rh_offset r + ?n\<rparr>"
      have "handle_read junk rf r = Some (Some (?x, ?n), False, ?r)"
        using unf i32 False static_view_doc(1) [OF t lim] by simp
      moreover have "handle_ok rest ok ?r" using less.prems(1) False k by (auto simp: handle_ok_def)
      moreover have "?n + (?a - ?n) = ?a" using False by linarith
      then have "buffered r = take (?n + (?a - ?n)) ?x" by (simp only: buffered_def)
      then have "buffered r = enc_doc es @ buffered ?r" unfolding take_add t by (simp add: buffered_def add.commute)
      then have "buffered ?r @ rest (rh_handle r) = later" using less.prems(3) by simp
      moreover have "handle_tell ?r = handle_tell r + int ?n" by (simp add: handle_tell_def)
      ultimately show ?thesis using t less.prems(2) by auto
    qed
  qed
qed

end

lemma data_read_doc:
  assumes r: "rd_offset r \<le> rd_length r" "rd_length r \<le> length (rd_data r)" "rd_length r \<le> INT_MAX"
    "take (rd_length r - rd_offset r) (drop (rd_offset r) (rd_data r)) = enc_doc es @ later"
  shows "\<exists>x r'. data_read r = Some (Some (x, length (enc_doc es)), False, r') \<and> take (length (enc_doc es)) x = enc_doc es \<and>
    rd_offset r' = rd_offset r + length (enc_doc es) \<and> rd_length r' = rd_length r \<and> rd_data r' = rd_data r \<and>
    rd_offset r' \<le> rd_length r \<and> take (rd_length r - rd_offset r') (drop (rd_offset r') (rd_data r)) = later"
proof -
  let ?n = "length (enc_doc es)" and ?a = "rd_length r - rd_offset r"
  let ?x = "drop (rd_offset r) (rd_data r)"
  have "length (take ?a ?x) = ?a" unfolding length_take length_drop using r(1-3) by linarith
  then have a: "?n \<le> ?a" unfolding r(4) by simp
  have lim: "?n \<le> INT_MAX" using a r by simp
  have "take ?a ?x @ [] = enc_doc es @ later" using r(4) by simp
  note doc = prefix_document [OF this _ lim]
  have i: "to_int32 ?n = int ?n" "to_int32 ?a = int ?a" using to_int32_small [of "?n"] to_int32_small [of "?a"] lim r by simp_all
  have n5: "5 \<le> ?n" by (rule length_enc_doc_ge)
  have rd: "rd32 (rd_data r) (rd_offset r) = Some ?n"
    using doc(1) a n5 r by (auto simp: rd32_def mem_read_def split: if_splits)
  have t: "take ?n ?x = enc_doc es" using doc(2) a r by simp
  let ?r = "r\<lparr>rd_offset := rd_offset r + ?n\<rparr>"
  have "data_read r = Some (Some (?x, ?n), False, ?r)"
    using rd i a n5 static_view_doc(1) [OF t lim] by (simp add: data_read_def Let_def)
  moreover have "take ?a ?x = enc_doc es @ take (?a - ?n) (drop ?n ?x)"
    using t a by (metis le_add_diff_inverse take_add)
  then have "take (?a - ?n) (drop ?n ?x) = later" using r(4) by simp
  moreover have "rd_offset r + ?n \<le> rd_length r" using a r(1) n5 by linarith
  ultimately show ?thesis using t by (auto simp: add.commute)
qed


subsection \<open>Reading a whole stream\<close>

text \<open>The results of so many reads: the bytes of the document that was handed out, and \<^verbatim>\<open>*reached_eof\<close>.\<close>

fun read_docs :: "(nat \<Rightarrow> u8) \<Rightarrow> 's read_func \<Rightarrow> nat \<Rightarrow> 's bson_reader \<Rightarrow> ((bytes option \<times> bool) list \<times> 's bson_reader) option" where
  "read_docs junk rf 0 rd = Some ([], rd)"
| "read_docs junk rf (Suc n) rd = do {
     (x, eof, rd) \<leftarrow> bson_reader_read junk rf rd;
     (xs, rd) \<leftarrow> read_docs junk rf n rd;
     Some ((map_option (\<lambda>(mem, n). take n mem) x, eof) # xs, rd) }"

definition stream_results :: "elems list \<Rightarrow> (bytes option \<times> bool) list" where
  "stream_results ds = map (\<lambda>es. (Some (enc_doc es), False)) ds @ [(None, True)]"

definition reads_handle :: "'s bson_reader \<Rightarrow> bool" where
  "reads_handle rd \<longleftrightarrow> (case rd of BSON_READER_HANDLE _ \<Rightarrow> True | BSON_READER_DATA _ \<Rightarrow> False)"

lemma read_keeps_kind: "bson_reader_read junk rf rd = Some (x, eof, rd') \<Longrightarrow> reads_handle rd' = reads_handle rd"
  by (auto simp: bson_reader_read_def reads_handle_def split: bson_reader.splits)

context byte_source
begin

lemma read_doc:
  assumes "streams rest ok rd (enc_doc es @ later)" "length (enc_doc es) \<le> 2 ^ 30"
  obtains x rd' where "bson_reader_read junk rf rd = Some (Some (x, length (enc_doc es)), False, rd')" "take (length (enc_doc es)) x = enc_doc es"
    "streams rest ok rd' later" "bson_reader_tell rd' = bson_reader_tell rd + int (length (enc_doc es))"
proof (cases rd)
  case (BSON_READER_HANDLE r)
  have "\<not> rh_done r" "handle_ok rest ok r" "buffered r @ rest (rh_handle r) = enc_doc es @ later"
    using assms(1) BSON_READER_HANDLE length_enc_doc_ge [of es] by (auto simp: streams_def)
  from handle_read_doc [OF assms(2) this(2,1,3), of junk] obtain x r' where
    r': "handle_read junk rf r = Some (Some (x, length (enc_doc es)), False, r')" "take (length (enc_doc es)) x = enc_doc es"
    "handle_ok rest ok r'" "\<not> rh_done r'" "buffered r' @ rest (rh_handle r') = later"
    "handle_tell r' = handle_tell r + int (length (enc_doc es))" by blast
  show ?thesis
    by (rule that [of x "BSON_READER_HANDLE r'"])
      (use r' BSON_READER_HANDLE in \<open>simp_all add: streams_def bson_reader_read_def bson_reader_tell_def\<close>)
next
  case (BSON_READER_DATA r)
  have "rd_offset r \<le> rd_length r" "rd_length r \<le> length (rd_data r)" "rd_length r \<le> INT_MAX"
    "take (rd_length r - rd_offset r) (drop (rd_offset r) (rd_data r)) = enc_doc es @ later"
    using assms(1) BSON_READER_DATA by (simp_all add: streams_def)
  from data_read_doc [OF this] obtain x r' where r': "data_read r = Some (Some (x, length (enc_doc es)), False, r')"
    "take (length (enc_doc es)) x = enc_doc es" "rd_offset r' = rd_offset r + length (enc_doc es)" "rd_length r' = rd_length r"
    "rd_data r' = rd_data r" "rd_offset r' \<le> rd_length r" "take (rd_length r - rd_offset r') (drop (rd_offset r') (rd_data r)) = later" by blast
  show ?thesis
    by (rule that [of x "BSON_READER_DATA r'"])
      (use r' assms(1) BSON_READER_DATA in \<open>simp_all add: streams_def bson_reader_read_def bson_reader_tell_def\<close>)
qed

lemma read_end:
  assumes "streams rest ok rd []"
  obtains rd' where "bson_reader_read junk rf rd = Some (None, True, rd')" "streams rest ok rd' []" "bson_reader_tell rd' = bson_reader_tell rd"
proof (cases rd)
  case (BSON_READER_HANDLE r)
  then have "handle_ok rest ok r" "buffered r = []" "rest (rh_handle r) = []" using assms by (auto simp: streams_def)
  from handle_read_end [OF this, of junk] obtain r' where
    r': "handle_read junk rf r = Some (None, True, r')" "handle_ok rest ok r'" "buffered r' = []" "rest (rh_handle r') = []"
    "handle_tell r' = handle_tell r" by blast
  show ?thesis
    by (rule that [of "BSON_READER_HANDLE r'"])
      (use r' BSON_READER_HANDLE in \<open>simp_all add: streams_def bson_reader_read_def bson_reader_tell_def\<close>)
next
  case (BSON_READER_DATA r)
  then have "rd_offset r = rd_length r" using assms by (auto simp: streams_def)
  with BSON_READER_DATA that [of rd] assms show ?thesis by (simp add: bson_reader_read_def data_read_def)
qed

lemma read_stream:
  assumes "streams rest ok rd (concat (map enc_doc ds))" "\<forall>es \<in> set ds. length (enc_doc es) \<le> 2 ^ 30"
  shows "\<exists>rd'. read_docs junk rf (Suc (length ds)) rd = Some (stream_results ds, rd') \<and>
    bson_reader_tell rd' = bson_reader_tell rd + int (length (concat (map enc_doc ds)))"
  using assms
proof (induction ds arbitrary: rd)
  case Nil
  then have "streams rest ok rd []" by simp
  then obtain rd' where "bson_reader_read junk rf rd = Some (None, True, rd')" "bson_reader_tell rd' = bson_reader_tell rd" by (rule read_end)
  then show ?case by (simp add: stream_results_def)
next
  case (Cons es ds)
  have "streams rest ok rd (enc_doc es @ concat (map enc_doc ds))" "length (enc_doc es) \<le> 2 ^ 30" using Cons.prems by simp_all
  then obtain x rd1 where 1: "bson_reader_read junk rf rd = Some (Some (x, length (enc_doc es)), False, rd1)" "take (length (enc_doc es)) x = enc_doc es"
    "streams rest ok rd1 (concat (map enc_doc ds))" "bson_reader_tell rd1 = bson_reader_tell rd + int (length (enc_doc es))"
    by (rule read_doc)
  obtain rd2 where 2: "read_docs junk rf (Suc (length ds)) rd1 = Some (stream_results ds, rd2)"
    "bson_reader_tell rd2 = bson_reader_tell rd1 + int (length (concat (map enc_doc ds)))"
    using Cons.IH [OF 1(3)] Cons.prems(2) by auto
  have "read_docs junk rf (Suc (Suc (length ds))) rd = Some ((Some (enc_doc es), False) # stream_results ds, rd2)"
    by (subst read_docs.simps) (simp add: 1(1,2) 2(1) del: read_docs.simps)
  then show ?case using 1(4) 2(2) by (simp add: stream_results_def del: read_docs.simps)
qed

text \<open>One to three bytes that are left, the head of a document that was cut off: the two kinds of reader answer differently.\<close>

lemma handle_read_short:
  "handle_ok rest ok r \<Longrightarrow> \<not> rh_done r \<Longrightarrow> length (buffered r @ rest (rh_handle r)) < 4 \<Longrightarrow>
    \<exists>r'. handle_read junk rf r = Some (None, True, r')"
proof (induction "length (rest (rh_handle r))" arbitrary: r rule: less_induct)
  case less
  have l: "rh_end r - rh_offset r < 4" "rh_end r - rh_offset r < rh_len r"
    using less.prems(1,3) length_buffered [of r] by (auto simp: handle_ok_def)
  obtain r1 where r1: "fill_buffer rf r = Some r1" "handle_ok rest ok r1" "buffered r1 @ rest (rh_handle r1) = buffered r @ rest (rh_handle r)"
      "rh_done r1 \<or> (\<not> rh_done r1 \<and> length (rest (rh_handle r1)) < length (rest (rh_handle r)))"
    using fill_ok [OF less.prems(1,2) l(2)] by (auto split: if_splits)
  have e: "handle_read junk rf r = handle_read junk rf r1"
    using less.prems(2) l(1) r1(1) by (simp add: handle_read.simps [of junk rf r])
  from r1(4) show ?case
  proof
    assume "rh_done r1"
    then show ?thesis using r1(2) by (simp add: e handle_read_done handle_ok_def)
  next
    assume "\<not> rh_done r1 \<and> length (rest (rh_handle r1)) < length (rest (rh_handle r))"
    then show ?thesis using less.hyps [of r1] less.prems(3) r1(2,3) by (simp add: e)
  qed
qed

lemma read_short:
  assumes "streams rest ok rd xs" "0 < length xs" "length xs < 4"
  shows "\<exists>rd'. bson_reader_read junk rf rd = Some (None, reads_handle rd, rd')"
proof (cases rd)
  case (BSON_READER_HANDLE r)
  have "handle_ok rest ok r" "\<not> rh_done r" "length (buffered r @ rest (rh_handle r)) < 4"
    using assms BSON_READER_HANDLE by (auto simp: streams_def)
  from handle_read_short [OF this, of junk] show ?thesis using BSON_READER_HANDLE by (auto simp: bson_reader_read_def reads_handle_def)
next
  case (BSON_READER_DATA r)
  then have "rd_offset r < rd_length r" "\<not> rd_offset r + 4 < rd_length r" using assms by (auto simp: streams_def)
  then show ?thesis using BSON_READER_DATA by (simp add: bson_reader_read_def data_read_def reads_handle_def)
qed

lemma read_cut_stream:
  assumes "streams rest ok rd (concat (map enc_doc ds) @ xs)" "\<forall>es \<in> set ds. length (enc_doc es) \<le> 2 ^ 30" "0 < length xs" "length xs < 4"
  shows "\<exists>rd'. read_docs junk rf (Suc (length ds)) rd = Some (map (\<lambda>es. (Some (enc_doc es), False)) ds @ [(None, reads_handle rd)], rd')"
  using assms(1,2)
proof (induction ds arbitrary: rd)
  case Nil
  then have "streams rest ok rd xs" by simp
  from read_short [OF this assms(3,4), of junk] show ?case by auto
next
  case (Cons es ds)
  have "streams rest ok rd (enc_doc es @ (concat (map enc_doc ds) @ xs))" "length (enc_doc es) \<le> 2 ^ 30" using Cons.prems by simp_all
  then obtain x rd1 where 1: "bson_reader_read junk rf rd = Some (Some (x, length (enc_doc es)), False, rd1)" "take (length (enc_doc es)) x = enc_doc es"
    "streams rest ok rd1 (concat (map enc_doc ds) @ xs)" by (rule read_doc)
  have "reads_handle rd1 = reads_handle rd" by (rule read_keeps_kind [OF 1(1)])
  then obtain rd2 where "read_docs junk rf (Suc (length ds)) rd1 = Some (map (\<lambda>es. (Some (enc_doc es), False)) ds @ [(None, reads_handle rd)], rd2)"
    using Cons.IH [OF 1(3)] Cons.prems(2) by auto
  then show ?case by (subst list.size(4), subst add_Suc_right, subst read_docs.simps) (simp add: 1(1,2) del: read_docs.simps)
qed

text \<open>A new reader: the first fill happens at once; at the end of an empty stream it sets \<^verbatim>\<open>done\<close>.\<close>

lemma new_handle_streams:
  assumes "ok h"
  obtains rd where "bson_reader_new_from_handle rf h = Some rd" "streams rest ok rd (rest h)" "bson_reader_tell rd = 0"
proof -
  let ?r = "\<lparr>rh_handle = h, rh_done = False, rh_failed = False, rh_end = 0, rh_len = 1024, rh_offset = 0, rh_bytes_read = 0,
        rh_data = bson_malloc0 1024\<rparr>"
  have "handle_ok rest ok ?r" using assms by (simp add: handle_ok_def bson_malloc0_def)
  from fill_ok [OF this] obtain r1 where r1: "fill_buffer rf ?r = Some r1" "handle_ok rest ok r1" "handle_tell r1 = 0"
      "buffered r1 @ rest (rh_handle r1) = rest h" "rest h \<noteq> [] \<Longrightarrow> \<not> rh_done r1"
    by (auto simp: handle_tell_def buffered_def split: if_splits)
  show ?thesis
    by (rule that [of "BSON_READER_HANDLE r1"]) (use r1 in \<open>auto simp: bson_reader_new_from_handle_def streams_def bson_reader_tell_def\<close>)
qed

end

text \<open>The read function over file descriptors is such a source, whatever the answers of the system, as long as no read fails.\<close>

definition fd_works :: "handle_fd \<Rightarrow> bool" where
  "fd_works h \<longleftrightarrow> fd_fd h \<noteq> -1 \<and> FAILED \<notin> set (f_answers (fd_file h))"

interpretation fd: byte_source handle_fd_read "\<lambda>h. f_rest (fd_file h)" fd_works
proof
  show "\<exists>c h'. handle_fd_read h n = (Some c, h') \<and> fd_works h' \<and> length c \<le> n \<and> f_rest (fd_file h) = c @ f_rest (fd_file h') \<and>
      (c = [] \<longrightarrow> f_rest (fd_file h) = [])" if "fd_works h" "0 < n" for h n
    using that
  proof (induction h n rule: handle_fd_read.induct)
    case (1 h n)
    then have h: "fd_fd h \<noteq> -1" by (simp add: fd_works_def)
    show ?case
    proof (cases "f_answers (fd_file h)")
      case Nil
      then show ?thesis using 1(2,3) by (subst handle_fd_read.simps) (auto simp: fd_works_def)
    next
      case (Cons a as)
      show ?thesis
      proof (cases a)
        case TRY_AGAIN
        have "fd_works (h\<lparr>fd_file := (fd_file h)\<lparr>f_answers := as\<rparr>\<rparr>)" using 1(2) Cons by (simp add: fd_works_def)
        then show ?thesis using 1(1) [OF h Cons TRY_AGAIN _ 1(3)] h Cons TRY_AGAIN by (subst handle_fd_read.simps) simp
      next
        case FAILED
        then show ?thesis using 1(2) Cons by (simp add: fd_works_def)
      next
        case (GIVES b)
        then show ?thesis using 1(2,3) Cons by (subst handle_fd_read.simps) (auto simp: fd_works_def)
      qed
    qed
  qed
qed


subsection \<open>Properties\<close>

text \<open>
  C12. A reader over any read function that delivers the bytes of its stream in order hands out every document of the stream,
  in order and with its exact bytes, however the reads cut the stream, and then reports the end; its position is then the
  length of the stream.
\<close>
theorem reader_hands_out_stream:
  assumes "byte_source rf rest ok" "ok h" "rest h = concat (map enc_doc ds)" "\<forall>es \<in> set ds. length (enc_doc es) \<le> 2 ^ 30"
  shows "\<exists>rd rd'. bson_reader_new_from_handle rf h = Some rd \<and>
    read_docs junk rf (Suc (length ds)) rd = Some (stream_results ds, rd') \<and> bson_reader_tell rd' = int (length (rest h))"
proof -
  obtain rd where rd: "bson_reader_new_from_handle rf h = Some rd" "streams rest ok rd (rest h)" "bson_reader_tell rd = 0"
    by (rule byte_source.new_handle_streams [OF assms(1,2)])
  from byte_source.read_stream [OF assms(1) rd(2) [unfolded assms(3)] assms(4), of junk] rd(1,3) show ?thesis
    unfolding assms(3) by auto
qed

lemma sample_source: "byte_source handle_fd_read (\<lambda>h. f_rest (fd_file h)) fd_works"
  by (rule fd.byte_source_axioms)

lemma reader_hands_out_stream_witness:
  "\<exists>rd rd'. bson_reader_new_from_handle handle_fd_read
       \<lparr>fd_fd = 3, fd_close = True, fd_file = \<lparr>f_rest = enc_doc [([0x61], VNull)] @ enc_doc [], f_answers = [TRY_AGAIN, GIVES 1, TRY_AGAIN, GIVES 4]\<rparr>\<rparr> = Some rd \<and>
     read_docs (\<lambda>_. 0) handle_fd_read (Suc (length [[([0x61], VNull)], []])) rd = Some (stream_results [[([0x61], VNull)], []], rd') \<and>
     bson_reader_tell rd' = int (length (enc_doc [([0x61], VNull)] @ enc_doc []))"
  using reader_hands_out_stream [OF sample_source, of
      "\<lparr>fd_fd = 3, fd_close = True, fd_file = \<lparr>f_rest = enc_doc [([0x61], VNull)] @ enc_doc [], f_answers = [TRY_AGAIN, GIVES 1, TRY_AGAIN, GIVES 4]\<rparr>\<rparr>"
      "[[([0x61], VNull)], []]" "\<lambda>_. 0"]
  by (simp add: fd_works_def enc_simps del: read_docs.simps)

text \<open>
  C16. Reading a file that is a sequence of whole documents through a descriptor, whatever chunks and \<^verbatim>\<open>EAGAIN\<close> answers
  the system gives as long as no read fails, and reading the same bytes from memory give the same results, documents and
  end of file, and end at the same position.
\<close>
theorem file_and_memory_agree:
  assumes "fd \<noteq> -1" "FAILED \<notin> set (f_answers f)" "f_rest f = concat (map enc_doc ds)" "\<forall>es \<in> set ds. length (enc_doc es) \<le> 2 ^ 30"
    "length (f_rest f) \<le> INT_MAX"
  shows "\<exists>rd rd1 rd2. bson_reader_new_from_fd fd close f = Some rd \<and>
    read_docs junk handle_fd_read (Suc (length ds)) rd = Some (stream_results ds, rd1) \<and>
    read_docs junk handle_fd_read (Suc (length ds)) (bson_reader_new_from_data (f_rest f) (length (f_rest f))) = Some (stream_results ds, rd2) \<and>
    bson_reader_tell rd1 = bson_reader_tell rd2"
proof -
  let ?h = "\<lparr>fd_fd = fd, fd_close = close, fd_file = f\<rparr>"
  let ?m = "bson_reader_new_from_data (f_rest f) (length (f_rest f))"
  have h: "fd_works ?h" using assms(1,2) by (simp add: fd_works_def)
  obtain rd where rd: "bson_reader_new_from_handle handle_fd_read ?h = Some rd"
      "streams (\<lambda>h. f_rest (fd_file h)) fd_works rd (f_rest f)" "bson_reader_tell rd = 0"
    by (rule fd.new_handle_streams [OF h]) simp
  have m: "streams (\<lambda>h. f_rest (fd_file h)) fd_works ?m (f_rest f)" "bson_reader_tell ?m = 0"
    using assms(5) by (simp_all add: streams_def bson_reader_new_from_data_def bson_reader_tell_def)
  show ?thesis
    using fd.read_stream [OF rd(2) [unfolded assms(3)] assms(4), of junk] fd.read_stream [OF m(1) [unfolded assms(3)] assms(4), of junk]
      rd(1,3) m(2) assms(1,3) by (auto simp: bson_reader_new_from_fd_def simp del: read_docs.simps)
qed

lemma file_and_memory_agree_witness:
  "\<exists>rd rd1 rd2. bson_reader_new_from_fd 3 True \<lparr>f_rest = enc_doc [], f_answers = [TRY_AGAIN, GIVES 1]\<rparr> = Some rd \<and>
    read_docs (\<lambda>_. 0) handle_fd_read (Suc (length [[] :: elems])) rd = Some (stream_results [[]], rd1) \<and>
    read_docs (\<lambda>_. 0) handle_fd_read (Suc (length [[] :: elems])) (bson_reader_new_from_data (enc_doc []) (length (enc_doc []))) =
      Some (stream_results [[]], rd2) \<and>
    bson_reader_tell rd1 = bson_reader_tell rd2"
  using file_and_memory_agree [of 3 "\<lparr>f_rest = enc_doc [], f_answers = [TRY_AGAIN, GIVES 1]\<rparr>" "[[]]" True "\<lambda>_. 0"]
  by (simp add: enc_simps del: read_docs.simps)

subsection \<open>Where the readers differ\<close>

text \<open>A read that fails at once, however often it is tried again before.\<close>

lemma fd_read_fails:
  "fd_fd h \<noteq> -1 \<Longrightarrow> f_answers (fd_file h) = replicate k TRY_AGAIN @ FAILED # as \<Longrightarrow> \<exists>h'. handle_fd_read h n = (None, h')"
proof (induction k arbitrary: h)
  case 0
  then show ?case by (subst handle_fd_read.simps) simp
next
  case (Suc k)
  then show ?case by (subst handle_fd_read.simps) simp
qed

lemma first_error_is_eof:
  assumes "rf h 1024 = (None, h')"
  shows "\<exists>rd. bson_reader_new_from_handle rf h = Some rd \<and> bson_reader_read junk rf rd = Some (None, True, rd)"
  using assms by (auto simp: bson_reader_new_from_handle_def fill_buffer_def bson_reader_read_def handle_read.simps)

text \<open>
  C28. Where \<open>*reached_eof\<close> misleads. A file whose first read fails is reported as an empty one: no document, end of file. A
  file that breaks off in the first three bytes of a document, behind whole ones, is reported as ended when it is read through a
  descriptor without a failing read, while the same bytes in memory are reported as an error.
\<close>
theorem eof_misreported:
  assumes "fd \<noteq> -1"
  shows "(f_answers f = replicate k TRY_AGAIN @ FAILED # as \<longrightarrow>
      (\<exists>rd. bson_reader_new_from_fd fd close f = Some rd \<and> bson_reader_read junk handle_fd_read rd = Some (None, True, rd))) \<and>
    (FAILED \<notin> set (f_answers f) \<and> f_rest f = concat (map enc_doc ds) @ xs \<and> 0 < length xs \<and> length xs < 4 \<and>
       (\<forall>es \<in> set ds. length (enc_doc es) \<le> 2 ^ 30) \<and> length (f_rest f) \<le> INT_MAX \<longrightarrow>
      (\<exists>rd rd1 rd2. bson_reader_new_from_fd fd close f = Some rd \<and>
        read_docs junk handle_fd_read (Suc (length ds)) rd = Some (map (\<lambda>es. (Some (enc_doc es), False)) ds @ [(None, True)], rd1) \<and>
        read_docs junk handle_fd_read (Suc (length ds)) (bson_reader_new_from_data (f_rest f) (length (f_rest f))) =
          Some (map (\<lambda>es. (Some (enc_doc es), False)) ds @ [(None, False)], rd2)))"
proof (intro conjI impI)
  let ?h = "\<lparr>fd_fd = fd, fd_close = close, fd_file = f\<rparr>"
  assume "f_answers f = replicate k TRY_AGAIN @ FAILED # as"
  then obtain h' where r: "handle_fd_read ?h 1024 = (None, h')" using fd_read_fails [of ?h k as 1024] assms by auto
  from first_error_is_eof [of handle_fd_read ?h h' junk, OF r]
  show "\<exists>rd. bson_reader_new_from_fd fd close f = Some rd \<and> bson_reader_read junk handle_fd_read rd = Some (None, True, rd)"
    using assms by (simp add: bson_reader_new_from_fd_def)
next
  let ?h = "\<lparr>fd_fd = fd, fd_close = close, fd_file = f\<rparr>"
  let ?m = "bson_reader_new_from_data (f_rest f) (length (f_rest f))"
  assume a: "FAILED \<notin> set (f_answers f) \<and> f_rest f = concat (map enc_doc ds) @ xs \<and> 0 < length xs \<and> length xs < 4 \<and>
       (\<forall>es \<in> set ds. length (enc_doc es) \<le> 2 ^ 30) \<and> length (f_rest f) \<le> INT_MAX"
  then have f: "FAILED \<notin> set (f_answers f)" "f_rest f = concat (map enc_doc ds) @ xs" and xs: "0 < length xs" "length xs < 4"
    and l: "\<forall>es \<in> set ds. length (enc_doc es) \<le> 2 ^ 30" "length (f_rest f) \<le> INT_MAX" by blast+
  have h: "fd_works ?h" using assms f(1) by (simp add: fd_works_def)
  obtain rd where rd: "bson_reader_new_from_handle handle_fd_read ?h = Some rd" "streams (\<lambda>h. f_rest (fd_file h)) fd_works rd (f_rest f)"
    by (rule fd.new_handle_streams [OF h]) simp
  have m: "streams (\<lambda>h. f_rest (fd_file h)) fd_works ?m (f_rest f)" using l(2) by (simp add: streams_def bson_reader_new_from_data_def)
  have k: "reads_handle rd" "\<not> reads_handle ?m"
    using rd(1) by (auto simp: bson_reader_new_from_handle_def reads_handle_def bson_reader_new_from_data_def)
  have m': "streams (\<lambda>h. f_rest (fd_file h)) fd_works ?m (concat (map enc_doc ds) @ xs)" using m unfolding f(2) .
  have 1: "\<exists>rd1. read_docs junk handle_fd_read (Suc (length ds)) rd = Some (map (\<lambda>es. (Some (enc_doc es), False)) ds @ [(None, True)], rd1)"
    using fd.read_cut_stream [OF rd(2) [unfolded f(2)] l(1) xs, of junk] by (simp add: k(1) del: read_docs.simps)
  have 2: "\<exists>rd2. read_docs junk handle_fd_read (Suc (length ds)) ?m = Some (map (\<lambda>es. (Some (enc_doc es), False)) ds @ [(None, False)], rd2)"
    using fd.read_cut_stream [OF m' l(1) xs, of junk] by (simp add: k(2) del: read_docs.simps)
  have 3: "bson_reader_new_from_fd fd close f = Some rd" using rd(1) assms by (simp add: bson_reader_new_from_fd_def)
  show "\<exists>rd rd1 rd2. bson_reader_new_from_fd fd close f = Some rd \<and>
        read_docs junk handle_fd_read (Suc (length ds)) rd = Some (map (\<lambda>es. (Some (enc_doc es), False)) ds @ [(None, True)], rd1) \<and>
        read_docs junk handle_fd_read (Suc (length ds)) ?m = Some (map (\<lambda>es. (Some (enc_doc es), False)) ds @ [(None, False)], rd2)"
    using 1 2 3 by blast
qed

lemma eof_misreported_witness:
  "(\<exists>rd. bson_reader_new_from_fd 3 True \<lparr>f_rest = [], f_answers = [TRY_AGAIN, FAILED]\<rparr> = Some rd \<and>
      bson_reader_read (\<lambda>_. 0) handle_fd_read rd = Some (None, True, rd)) \<and>
   (\<exists>rd rd1 rd2. bson_reader_new_from_fd 3 True \<lparr>f_rest = enc_doc [] @ [9], f_answers = [GIVES 1]\<rparr> = Some rd \<and>
      read_docs (\<lambda>_. 0) handle_fd_read (Suc (length [[] :: elems])) rd = Some ([(Some (enc_doc []), False), (None, True)], rd1) \<and>
      read_docs (\<lambda>_. 0) handle_fd_read (Suc (length [[] :: elems])) (bson_reader_new_from_data (enc_doc [] @ [9]) 6) = Some ([(Some (enc_doc []), False), (None, False)], rd2))"
proof
  show "\<exists>rd. bson_reader_new_from_fd 3 True \<lparr>f_rest = [], f_answers = [TRY_AGAIN, FAILED]\<rparr> = Some rd \<and>
      bson_reader_read (\<lambda>_. 0) handle_fd_read rd = Some (None, True, rd)"
    using eof_misreported [of 3 "\<lparr>f_rest = [], f_answers = [TRY_AGAIN, FAILED]\<rparr>" 1 "[]" True "\<lambda>_. 0" "[]" "[]"] by simp
  show "\<exists>rd rd1 rd2. bson_reader_new_from_fd 3 True \<lparr>f_rest = enc_doc [] @ [9], f_answers = [GIVES 1]\<rparr> = Some rd \<and>
      read_docs (\<lambda>_. 0) handle_fd_read (Suc (length [[] :: elems])) rd = Some ([(Some (enc_doc []), False), (None, True)], rd1) \<and>
      read_docs (\<lambda>_. 0) handle_fd_read (Suc (length [[] :: elems])) (bson_reader_new_from_data (enc_doc [] @ [9]) 6) = Some ([(Some (enc_doc []), False), (None, False)], rd2)"
    using eof_misreported [of 3 "\<lparr>f_rest = enc_doc [] @ [9], f_answers = [GIVES 1]\<rparr>" 0 "[]" True "\<lambda>_. 0" "[[]]" "[9]"]
    by (simp add: enc_simps del: read_docs.simps)
qed

end
