(* ===== verification/Writer.thy ===== *)
theory Writer
  imports Reader_Stream
begin

text \<open>
  \<^verbatim>\<open>src/bson/bson-writer.c\<close>: documents are written one behind the other into one growing buffer. The buffer is a block of
  the store (\<^verbatim>\<open>*buf\<close> and \<^verbatim>\<open>*buflen\<close>), the document being written is the structure at \<open>w_b\<close>.
\<close>

record bson_writer =
  w_ready :: bool
  w_buf :: nat
  w_offset :: nat
  w_realloc :: bool
  w_b :: addr

definition bson_writer_new :: "heap \<Rightarrow> nat \<Rightarrow> nat \<Rightarrow> bool \<Rightarrow> addr \<Rightarrow> heap \<times> bson_writer" where
  "bson_writer_new H buf off rea b =
     (set_doc H b (alloc_doc b {} 0 False),
      \<lparr>w_ready = True, w_buf = buf, w_offset = off, w_realloc = rea, w_b = b\<rparr>)"

definition bson_writer_get_length :: "heap \<Rightarrow> bson_writer \<Rightarrow> nat option" where
  "bson_writer_get_length H w = do { d \<leftarrow> h_docs H (w_b w); Some (w_offset w + b_len d) }"

function writer_grow :: "nat \<Rightarrow> nat \<Rightarrow> nat" where
  "writer_grow need n = (if need > n then writer_grow need (if n = 0 then 64 else n * 2) else n)"
  by pat_completeness auto
termination
  by (relation "measure (\<lambda>(need, n). need - n)") auto

declare writer_grow.simps [simp del]

definition bson_writer_begin :: "heap \<Rightarrow> bson_writer \<Rightarrow> (bool \<times> heap \<times> bson_writer) option" where
  "bson_writer_begin H w =
     (if \<not> w_ready w then None
      else do {
        mem \<leftarrow> h_cells H (Ext (w_buf w));
        let d = (alloc_doc (w_b w) {BSON_FLAG_STATIC, BSON_FLAG_NO_FREE} 5 (w_realloc w))
          \<lparr>b_buf := Ext (w_buf w), b_offset := w_offset w\<rparr>;
        (if w_offset w + 5 > length mem \<and> \<not> w_realloc w
         then Some (False, set_doc H (w_b w) (alloc_doc (w_b w) {} 0 False), w)
         else do {
           let len = writer_grow (w_offset w + 5) (length mem);
           let mem = (if w_offset w + 5 > length mem then bson_realloc (h_junk H) mem len else mem);
           mem \<leftarrow> mem_write mem (w_offset w + 1) (replicate 5 0);
           mem \<leftarrow> mem_write mem (w_offset w) [5];
           Some (True, set_cell (set_doc H (w_b w) d) (Ext (w_buf w)) mem, w\<lparr>w_ready := False\<rparr>) }) })"

definition bson_writer_end :: "heap \<Rightarrow> bson_writer \<Rightarrow> (heap \<times> bson_writer) option" where
  "bson_writer_end H w =
     (if w_ready w then None
      else do {
        d \<leftarrow> h_docs H (w_b w);
        Some (set_doc H (w_b w) (alloc_doc (w_b w) {} 0 False), w\<lparr>w_offset := w_offset w + b_len d, w_ready := True\<rparr>) })"

definition bson_writer_rollback :: "heap \<Rightarrow> bson_writer \<Rightarrow> (heap \<times> bson_writer) option" where
  "bson_writer_rollback H w = do {
     d \<leftarrow> h_docs H (w_b w);
     Some (if b_len d \<noteq> 0 then set_doc H (w_b w) (alloc_doc (w_b w) {} 0 False) else H, w\<lparr>w_ready := True\<rparr>) }"


subsection \<open>One document\<close>

text \<open>A writer between two documents, with the bytes \<open>xs\<close> written so far.\<close>

definition writer_at :: "heap \<Rightarrow> bson_writer \<Rightarrow> bytes \<Rightarrow> nat \<Rightarrow> bool" where
  "writer_at H w xs cap \<longleftrightarrow> w_ready w \<and> w_offset w = length xs \<and>
     (\<exists>mem. h_cells H (Ext (w_buf w)) = Some mem \<and> length mem = cap \<and> length xs \<le> cap \<and> take (length xs) mem = xs)"

text \<open>The calls for one document: begin, the appends of its elements, end.\<close>

definition write_document :: "heap \<Rightarrow> bson_writer \<Rightarrow> elems \<Rightarrow> (bool \<times> heap \<times> bson_writer) option" where
  "write_document H w es = do {
     (ok, H, w) \<leftarrow> bson_writer_begin H w;
     (if \<not> ok then Some (False, H, w)
      else do {
        H \<leftarrow> build H (w_b w) es;
        (H, w) \<leftarrow> bson_writer_end H w;
        Some (True, H, w) }) }"

lemma writer_grow_ge: "need \<le> writer_grow need n \<and> n \<le> writer_grow need n"
proof (induction need n rule: writer_grow.induct)
  case (1 need n)
  show ?case
  proof (cases "need > n")
    case True
    then show ?thesis using 1 by (subst (1 2) writer_grow.simps) (auto split: if_split_asm)
  qed (simp add: writer_grow.simps)
qed

lemma writer_grow_same: "need \<le> n \<Longrightarrow> writer_grow need n = n"
  by (simp add: writer_grow.simps)

text \<open>
  Beginning a document writes six bytes, the length with its three upper bytes, the terminator and one more, where five
  were asked for.
\<close>

lemma writer_begin_cases:
  assumes w: "writer_at H w xs cap" and r: "w_realloc w \<or> length xs + 5 \<le> cap"
  defines "new \<equiv> writer_grow (length xs + 5) cap"
  shows "new = length xs + 5 \<Longrightarrow> bson_writer_begin H w = None"
    "new \<noteq> length xs + 5 \<Longrightarrow> \<exists>H1. bson_writer_begin H w = Some (True, H1, w\<lparr>w_ready := False\<rparr>) \<and> rep H1 (w_b w) [] \<and>
       buf_below H1 (w_b w) \<and> (\<forall>n. w_realloc w \<and> length xs + n \<le> 2 ^ 30 \<longrightarrow> room H1 (w_b w) n) \<and>
       (\<exists>d mem. h_docs H1 (w_b w) = Some d \<and> \<not> is_inline d \<and> b_buf d = Ext (w_buf w) \<and> b_offset d = length xs \<and> b_depth d = 0 \<and>
          h_cells H1 (Ext (w_buf w)) = Some mem \<and> length mem = new \<and> take (length xs) mem = xs)"
proof -
  obtain mem where m: "w_ready w" "w_offset w = length xs" "h_cells H (Ext (w_buf w)) = Some mem" "length mem = cap" "length xs \<le> cap"
      "take (length xs) mem = xs"
    using w by (auto simp: writer_at_def)
  let ?o = "length xs"
  define mem1 where "mem1 = (if ?o + 5 > cap then bson_realloc (h_junk H) mem new else mem)"
  have ge: "?o + 5 \<le> new" "cap \<le> new" using writer_grow_ge [of "?o + 5" cap] by (simp_all add: new_def)
  have m1: "length mem1 = new" "take ?o mem1 = xs"
    using m ge writer_grow_same [of "?o + 5" cap] by (auto simp: mem1_def bson_realloc_def new_def)
  have b: "bson_writer_begin H w = do {
      mem \<leftarrow> mem_write mem1 (?o + 1) (replicate 5 0);
      mem \<leftarrow> mem_write mem ?o [5];
      Some (True, set_cell (set_doc H (w_b w) ((alloc_doc (w_b w) {BSON_FLAG_STATIC, BSON_FLAG_NO_FREE} 5 (w_realloc w))
          \<lparr>b_buf := Ext (w_buf w), b_offset := ?o\<rparr>)) (Ext (w_buf w)) mem, w\<lparr>w_ready := False\<rparr>) }"
    using m r by (auto simp: bson_writer_begin_def Let_def mem1_def new_def)
  show "bson_writer_begin H w = None" if "new = ?o + 5"
    using b m1(1) that by (simp add: mem_write_def)
  assume "new \<noteq> ?o + 5"
  then have n6: "?o + 6 \<le> new" using ge(1) by simp
  let ?m = "xs @ [5, 0, 0, 0, 0, 0] @ drop (?o + 6) mem1"
  have w1: "mem_write mem1 (?o + 1) (replicate 5 0) = Some (take (?o + 1) mem1 @ replicate 5 0 @ drop (?o + 6) mem1)"
    using n6 m1(1) by (simp add: mem_write_def add.commute [of 6])
  have "take ?o (take (?o + 1) mem1 @ replicate 5 0 @ drop (?o + 6) mem1) = xs" using m1 n6 by simp
  moreover have "drop (?o + 1) (take (?o + 1) mem1 @ replicate 5 0 @ drop (?o + 6) mem1) = replicate 5 0 @ drop (?o + 6) mem1"
    using m1(1) n6 by simp
  moreover have "replicate 5 (0 :: u8) = [0, 0, 0, 0, 0]" by (simp add: eval_nat_numeral)
  ultimately have w2: "mem_write (take (?o + 1) mem1 @ replicate 5 0 @ drop (?o + 6) mem1) ?o [5] = Some ?m"
    using m1(1) n6 by (simp add: mem_write_def)
  let ?d = "(alloc_doc (w_b w) {BSON_FLAG_STATIC, BSON_FLAG_NO_FREE} 5 (w_realloc w))\<lparr>b_buf := Ext (w_buf w), b_offset := ?o\<rparr>"
  let ?H = "set_cell (set_doc H (w_b w) ?d) (Ext (w_buf w)) ?m"
  have e: "bson_writer_begin H w = Some (True, ?H, w\<lparr>w_ready := False\<rparr>)" unfolding b w1 using w2 by simp
  have len: "length ?m = new" using m1(1) n6 by simp
  have "rep ?H (w_b w) []"
    by (auto simp: rep_def holds_def writable_def alloc_doc_def doc_mem_def doc_off_def set_cell_def enc_doc_Nil)
  moreover have "buf_below ?H (w_b w)" by (simp add: buf_below_def alloc_doc_def set_cell_def)
  moreover have "room ?H (w_b w) n" if "w_realloc w" "?o + n \<le> 2 ^ 30" for n
    using that by (simp add: room_def alloc_doc_def doc_off_def set_cell_def)
  moreover have "h_docs ?H (w_b w) = Some ?d" "h_cells ?H (Ext (w_buf w)) = Some ?m" by (simp_all add: set_cell_def)
  moreover have "\<not> is_inline ?d" "b_buf ?d = Ext (w_buf w)" "b_offset ?d = ?o" "b_depth ?d = 0" by (simp_all add: alloc_doc_def)
  moreover have "take ?o ?m = xs" by simp
  ultimately show "\<exists>H1. bson_writer_begin H w = Some (True, H1, w\<lparr>w_ready := False\<rparr>) \<and> rep H1 (w_b w) [] \<and>
       buf_below H1 (w_b w) \<and> (\<forall>n. w_realloc w \<and> length xs + n \<le> 2 ^ 30 \<longrightarrow> room H1 (w_b w) n) \<and>
       (\<exists>d mem. h_docs H1 (w_b w) = Some d \<and> \<not> is_inline d \<and> b_buf d = Ext (w_buf w) \<and> b_offset d = length xs \<and> b_depth d = 0 \<and>
          h_cells H1 (Ext (w_buf w)) = Some mem \<and> length mem = new \<and> take (length xs) mem = xs)"
    using e len by blast
qed


lemma write_document_ok:
  assumes w: "writer_at H w xs cap" "w_realloc w" and new: "writer_grow (length xs + 5) cap \<noteq> length xs + 5"
    and es: "wf_elems es" "no_regexes es" "length xs + length (enc_doc es) \<le> 2 ^ 30"
  shows "\<exists>H' w' cap'. write_document H w es = Some (True, H', w') \<and> writer_at H' w' (xs @ enc_doc es) cap' \<and> cap \<le> cap' \<and>
    w_buf w' = w_buf w \<and> w_realloc w' \<and> bson_writer_get_length H' w' = Some (length xs + length (enc_doc es))"
proof -
  obtain H1 d mem where 1: "bson_writer_begin H w = Some (True, H1, w\<lparr>w_ready := False\<rparr>)" "rep H1 (w_b w) []" "buf_below H1 (w_b w)"
    "room H1 (w_b w) (length (enc_doc es))" "h_docs H1 (w_b w) = Some d" "\<not> is_inline d" "b_buf d = Ext (w_buf w)"
    "b_offset d = length xs" "b_depth d = 0" "h_cells H1 (Ext (w_buf w)) = Some mem" "length mem = writer_grow (length xs + 5) cap"
    "take (length xs) mem = xs"
    using writer_begin_cases(2) [OF w(1) _ new] w(2) es(3) by blast
  obtain H2 where 2: "build H1 (w_b w) es = Some H2" "rep H2 (w_b w) es" "local_change {x. w_b w \<le> x} H1 (w_b w) H2"
    using build_ok(1) [OF 1(2,4,3) es(1,2)] by auto
  obtain d' m m' where d': "h_docs H2 (w_b w) = Some d'" "stays (w_b w) d d'" "h_cells H1 (b_buf d) = Some m" "h_cells H2 (b_buf d) = Some m'"
      "length m \<le> length m'" "take (b_offset d) m' = take (b_offset d) m"
    using 2(3) 1(5,6) by (auto simp: local_change_def same_prefix_def)
  have pos: "\<not> is_inline d'" "b_buf d' = Ext (w_buf w)" "b_offset d' = length xs" using d'(2) 1(6-8) by (auto simp: stays_def)
  have h: "b_len d' = length (enc_doc es)" "take (length (enc_doc es)) (drop (length xs) m') = enc_doc es"
      "length xs + length (enc_doc es) \<le> length m'"
    using 2(2) d'(1,4) pos 1(7) by (auto simp: rep_def holds_def doc_mem_def doc_off_def)
  let ?H = "set_doc H2 (w_b w) (alloc_doc (w_b w) {} 0 False)"
  let ?w = "w\<lparr>w_offset := length xs + length (enc_doc es), w_ready := True\<rparr>"
  have o: "w_offset w = length xs" using w(1) by (simp add: writer_at_def)
  have "write_document H w es = Some (True, ?H, ?w)"
    using 1(1) 2(1) d'(1) h(1) o by (simp add: write_document_def bson_writer_end_def)
  moreover have "take (length xs) m' = xs" using d'(3,6) 1(7,8,10,12) by simp
  then have "take (length (xs @ enc_doc es)) m' = xs @ enc_doc es" using h(2) by (simp add: take_add)
  then have "writer_at ?H ?w (xs @ enc_doc es) (length m')" using d'(4) 1(7) h(3) by (simp add: writer_at_def)
  moreover have "cap \<le> length m'" using d'(3,5) 1(7,10,11) writer_grow_ge [of "length xs + 5" cap] by auto
  moreover have "bson_writer_get_length ?H ?w = Some (length xs + length (enc_doc es))" by (simp add: bson_writer_get_length_def alloc_doc_def)
  ultimately show ?thesis using w(2) by (intro exI [of _ ?H] exI [of _ ?w] exI [of _ "length m'"]) simp
qed

lemma write_document_overflow:
  assumes "writer_at H w xs cap" "w_realloc w" "writer_grow (length xs + 5) cap = length xs + 5"
  shows "write_document H w es = None"
  using writer_begin_cases(1) [OF assms(1)] assms(2,3) by (simp add: write_document_def)

text \<open>
  C14. Writing one document without regular expressions into a buffer that may grow, with \<open>bson_writer_begin\<close>, the appends and \<open>bson_writer_end\<close> puts exactly its encoding behind
  what was written before, whatever growth happens on the way, with one exception: when the buffer (after the doubling) ends
  exactly five bytes behind the offset, \<open>bson_writer_begin\<close> writes one byte behind the buffer.
\<close>
theorem writer_appends_document:
  assumes "writer_at H w xs cap" "w_realloc w" "wf_elems es" "no_regexes es" "length xs + length (enc_doc es) \<le> 2 ^ 30"
  shows "if writer_grow (length xs + 5) cap = length xs + 5 then write_document H w es = None
    else \<exists>H' w' cap'. write_document H w es = Some (True, H', w') \<and> writer_at H' w' (xs @ enc_doc es) cap' \<and> cap \<le> cap' \<and>
      w_buf w' = w_buf w \<and> w_realloc w' \<and> bson_writer_get_length H' w' = Some (length xs + length (enc_doc es))"
proof (cases "writer_grow (length xs + 5) cap = length xs + 5")
  case True
  then show ?thesis using write_document_overflow [OF assms(1,2)] by simp
next
  case False
  show ?thesis unfolding if_not_P [OF False] by (rule write_document_ok [OF assms(1,2) False assms(3-5)])
qed

definition writer_heap :: "bytes \<Rightarrow> heap" where
  "writer_heap mem = set_cell empty_heap (Ext 0) mem"

definition sample_writer :: "nat \<Rightarrow> heap \<times> bson_writer" where
  "sample_writer n = bson_writer_new (writer_heap (replicate n 0)) 0 0 True 0"

lemma new_writer_at: "writer_at (fst (sample_writer n)) (snd (sample_writer n)) [] n" "w_realloc (snd (sample_writer n))"
  by (simp_all add: sample_writer_def bson_writer_new_def writer_at_def writer_heap_def set_cell_def)

text \<open>A new writer over a buffer of five bytes runs into the exception, one over an empty buffer does not.\<close>

lemma writer_appends_document_witness:
  "write_document (fst (sample_writer 5)) (snd (sample_writer 5)) [] = None \<and>
   (\<exists>H' w' cap'. write_document (fst (sample_writer 0)) (snd (sample_writer 0)) [([0x61], VInt32 7)] = Some (True, H', w') \<and>
      writer_at H' w' (enc_doc [([0x61], VInt32 7)]) cap')"
proof
  show "write_document (fst (sample_writer 5)) (snd (sample_writer 5)) [] = None"
    using writer_appends_document [OF new_writer_at, of "[]" 5] by (simp add: enc_simps writer_grow.simps)
  show "\<exists>H' w' cap'. write_document (fst (sample_writer 0)) (snd (sample_writer 0)) [([0x61], VInt32 7)] = Some (True, H', w') \<and>
      writer_at H' w' (enc_doc [([0x61], VInt32 7)]) cap'"
    using writer_appends_document [OF new_writer_at, of "[([0x61], VInt32 7)]" 0] by (simp add: enc_simps writer_grow.simps) blast
qed


subsection \<open>A stream of documents\<close>

fun write_documents :: "heap \<Rightarrow> bson_writer \<Rightarrow> elems list \<Rightarrow> (bool \<times> heap \<times> bson_writer) option" where
  "write_documents H w [] = Some (True, H, w)"
| "write_documents H w (es # ds) = do {
     (ok, H, w) \<leftarrow> write_document H w es;
     (if ok then write_documents H w ds else Some (False, H, w)) }"

lemma write_documents_ok:
  assumes "writer_at H w xs cap" "w_realloc w" "\<forall>es \<in> set ds. wf_elems es \<and> no_regexes es"
    "length xs + length (concat (map enc_doc ds)) \<le> 2 ^ 30" "length xs + length (concat (map enc_doc ds)) < cap"
    "bson_writer_get_length H w = Some (length xs)"
  shows "\<exists>H' w' cap'. write_documents H w ds = Some (True, H', w') \<and> writer_at H' w' (xs @ concat (map enc_doc ds)) cap' \<and> w_buf w' = w_buf w \<and>
    bson_writer_get_length H' w' = Some (length xs + length (concat (map enc_doc ds)))"
  using assms
proof (induction ds arbitrary: H w xs cap)
  case (Cons es ds)
  have "length xs + 5 < cap" using Cons.prems(5) length_enc_doc_ge [of es] by simp
  then have "writer_grow (length xs + 5) cap \<noteq> length xs + 5" by (simp add: writer_grow_same)
  then obtain H1 w1 cap1 where 1: "write_document H w es = Some (True, H1, w1)" "writer_at H1 w1 (xs @ enc_doc es) cap1" "cap \<le> cap1"
      "w_buf w1 = w_buf w" "w_realloc w1" "bson_writer_get_length H1 w1 = Some (length (xs @ enc_doc es))"
    using write_document_ok [OF Cons.prems(1,2)] Cons.prems(3,4) by force
  show ?case using Cons.IH [OF 1(2,5)] Cons.prems(3-5) 1(1,3,4,6) by (auto simp: add.assoc)
qed auto

text \<open>
  C23. What a writer writes, a reader reads: writing any documents without regular expressions into a buffer that has more than
  enough room and reading the bytes
  that were written gives the documents back, in order, followed by the end of the stream.
\<close>
theorem writer_reader_roundtrip:
  assumes "h_cells H (Ext buf) = Some mem" "length (concat (map enc_doc ds)) < length mem" "length (concat (map enc_doc ds)) \<le> 2 ^ 30"
    "\<forall>es \<in> set ds. wf_elems es \<and> no_regexes es"
  shows "\<exists>H' w' mem' n rd. (case bson_writer_new H buf 0 True b of (H1, w) \<Rightarrow> write_documents H1 w ds) = Some (True, H', w') \<and>
    h_cells H' (Ext buf) = Some mem' \<and> bson_writer_get_length H' w' = Some n \<and> take n mem' = concat (map enc_doc ds) \<and>
    read_docs junk handle_fd_read (Suc (length ds)) (bson_reader_new_from_data mem' n) = Some (stream_results ds, rd)"
proof -
  obtain H1 w where new: "bson_writer_new H buf 0 True b = (H1, w)" by fastforce
  have w: "writer_at H1 w [] (length mem)" "w_realloc w" "bson_writer_get_length H1 w = Some (length ([] :: bytes))" "w_buf w = buf"
    using new assms(1) by (auto simp: bson_writer_new_def writer_at_def bson_writer_get_length_def alloc_doc_def)
  let ?xs = "concat (map enc_doc ds)"
  obtain H' w' cap where 1: "write_documents H1 w ds = Some (True, H', w')" "writer_at H' w' ?xs cap" "w_buf w' = buf"
      "bson_writer_get_length H' w' = Some (length ?xs)"
    using write_documents_ok [OF w(1,2) assms(4)] assms(2,3) w(3,4) by auto
  obtain mem' where m: "h_cells H' (Ext buf) = Some mem'" "length ?xs \<le> length mem'" "take (length ?xs) mem' = ?xs"
    using 1(2,3) by (auto simp: writer_at_def)
  have "streams (\<lambda>h. f_rest (fd_file h)) fd_works (bson_reader_new_from_data mem' (length ?xs)) ?xs"
    using m(2,3) assms(3) by (simp add: streams_def bson_reader_new_from_data_def)
  moreover have "\<forall>es \<in> set ds. length (enc_doc es) \<le> 2 ^ 30"
  proof
    fix es
    assume "es \<in> set ds"
    then have "length (enc_doc es) \<le> length ?xs" by (induction ds) auto
    then show "length (enc_doc es) \<le> 2 ^ 30" using assms(3) by simp
  qed
  ultimately obtain rd where "read_docs junk handle_fd_read (Suc (length ds)) (bson_reader_new_from_data mem' (length ?xs)) = Some (stream_results ds, rd)"
    using fd.read_stream by blast
  then show ?thesis using new 1(1,4) m(1,3) by auto
qed

lemma writer_reader_roundtrip_witness:
  "\<exists>H' w' mem' n rd. (case bson_writer_new (writer_heap (replicate 64 0)) 0 0 True 0 of (H1, w) \<Rightarrow>
       write_documents H1 w [[([0x61], VInt32 7)], []]) = Some (True, H', w') \<and>
    h_cells H' (Ext 0) = Some mem' \<and> bson_writer_get_length H' w' = Some n \<and> take n mem' = concat (map enc_doc [[([0x61], VInt32 7)], []]) \<and>
    read_docs (\<lambda>_. 0) handle_fd_read (Suc (length [[([0x61 :: u8], VInt32 7)], []])) (bson_reader_new_from_data mem' n) =
      Some (stream_results [[([0x61], VInt32 7)], []], rd)"
  by (rule writer_reader_roundtrip [of _ _ "replicate 64 0"]) (simp_all add: writer_heap_def set_cell_def enc_simps)

end
