(* ===== verification/Bson_Copying.thy ===== *)
theory Bson_Copying
  imports Writer
begin

text \<open>
  Copying elements from one document to another in \<^verbatim>\<open>src/bson/bson.c\<close>: \<^verbatim>\<open>bson_append_iter\<close>, \<^verbatim>\<open>bson_copy_to_excluding\<close> and
  its variants, \<^verbatim>\<open>bson_concat\<close>, and the queries \<^verbatim>\<open>bson_count_keys\<close> and \<^verbatim>\<open>bson_has_field\<close>. The iterator of the model
  carries the memory it was started on, so the source of a copy must not be the destination or one of its open children.
\<close>

subsection \<open>The code\<close>

definition bson_append_iter :: "heap \<Rightarrow> addr \<Rightarrow> bytes option \<Rightarrow> int \<Rightarrow> bson_iter \<Rightarrow> addr \<Rightarrow> (bool \<times> heap) option" where
  "bson_append_iter H a key kl it loc = do {
     (key, kl) \<leftarrow> (case key of Some k \<Rightarrow> Some (k, kl) | None \<Rightarrow> map_option (\<lambda>k. (k, -1)) (bson_iter_key it));
     t \<leftarrow> ITER_TYPE it;
     (if t = BSON_TYPE_EOD then Some (False, H)
      else if t = BSON_TYPE_DOUBLE then do { x \<leftarrow> bson_iter_double it; bson_append_double H a key kl x }
      else if t = BSON_TYPE_UTF8 then do {
        r \<leftarrow> bson_iter_utf8 it; (str, len) \<leftarrow> r; bson_append_utf8 H a key kl (Some str) (to_int len) }
      else if t = BSON_TYPE_DOCUMENT then do {
        (len, r) \<leftarrow> bson_iter_document it; buf \<leftarrow> r;
        with_static H loc buf len (\<lambda>H1. bson_append_document H1 a key kl loc) }
      else if t = BSON_TYPE_ARRAY then do {
        (len, r) \<leftarrow> bson_iter_array it; buf \<leftarrow> r;
        with_static H loc buf len (\<lambda>H1. bson_append_array H1 a key kl loc) }
      else if t = BSON_TYPE_BINARY then do {
        (subtype, r, len) \<leftarrow> bson_iter_binary it; binary \<leftarrow> r; bson_append_binary H a key kl subtype binary len }
      else if t = BSON_TYPE_UNDEFINED then bson_append_undefined H a key kl
      else if t = BSON_TYPE_OID then do { r \<leftarrow> bson_iter_oid it; oid \<leftarrow> r; bson_append_oid H a key kl oid }
      else if t = BSON_TYPE_BOOL then do { x \<leftarrow> bson_iter_bool it; bson_append_bool H a key kl x }
      else if t = BSON_TYPE_DATE_TIME then do { x \<leftarrow> bson_iter_date_time it; bson_append_date_time H a key kl x }
      else if t = BSON_TYPE_NULL then bson_append_null H a key kl
      else if t = BSON_TYPE_REGEX then do {
        r \<leftarrow> bson_iter_regex it; (regex, options) \<leftarrow> r; bson_append_regex H a key kl (Some regex) (Some options) }
      else if t = BSON_TYPE_DBPOINTER then do {
        r \<leftarrow> bson_iter_dbpointer it; (collection, len, oid) \<leftarrow> r; bson_append_dbpointer H a key kl collection oid }
      else if t = BSON_TYPE_CODE then do { r \<leftarrow> bson_iter_code it; (code, len) \<leftarrow> r; bson_append_code H a key kl code }
      else if t = BSON_TYPE_SYMBOL then do {
        r \<leftarrow> bson_iter_symbol it; (symbol, len) \<leftarrow> r; bson_append_symbol H a key kl (Some symbol) (to_int len) }
      else if t = BSON_TYPE_CODEWSCOPE then do {
        r \<leftarrow> bson_iter_codewscope it; (javascript, len, scope, scope_len) \<leftarrow> r;
        with_static H loc scope scope_len (\<lambda>H1. bson_append_code_with_scope H1 a key kl javascript (Some loc)) }
      else if t = BSON_TYPE_INT32 then do { x \<leftarrow> bson_iter_int32 it; bson_append_int32 H a key kl x }
      else if t = BSON_TYPE_TIMESTAMP then do {
        (ts, inc) \<leftarrow> bson_iter_timestamp it; bson_append_timestamp H a key kl ts inc }
      else if t = BSON_TYPE_INT64 then do { x \<leftarrow> bson_iter_int64 it; bson_append_int64 H a key kl x }
      else if t = BSON_TYPE_DECIMAL128 then do {
        r \<leftarrow> bson_iter_decimal128 it;
        (case r of None \<Rightarrow> Some (False, H) | Some dec \<Rightarrow> bson_append_decimal128 H a key kl dec) }
      else if t = BSON_TYPE_MAXKEY then bson_append_maxkey H a key kl
      else if t = BSON_TYPE_MINKEY then bson_append_minkey H a key kl
      else Some (False, H)) }"

text \<open>The excluded names are the first argument and the variable ones up to the \<^verbatim>\<open>NULL\<close>.\<close>

fun should_ignore :: "bytes list \<Rightarrow> bytes \<Rightarrow> bool" where
  "should_ignore [] name = False"
| "should_ignore (exclude # args) name = (if name = exclude then True else should_ignore args name)"

partial_function (option) copy_excluding :: "bytes list \<Rightarrow> addr \<Rightarrow> addr \<Rightarrow> bson_iter \<Rightarrow> heap \<Rightarrow> heap option" where
  "copy_excluding args dst loc it H =
     (case bson_iter_next it of
        None \<Rightarrow> None
      | Some (ok, it1) \<Rightarrow>
          if \<not> ok then Some H
          else (case Option.bind (bson_iter_key it1) (\<lambda>k. c_string k 0) of
                  None \<Rightarrow> None
                | Some name \<Rightarrow>
                    if should_ignore args name then copy_excluding args dst loc it1 H
                    else (case bson_append_iter H dst None 0 it1 loc of
                            None \<Rightarrow> None
                          | Some (ret, H1) \<Rightarrow> if ret then copy_excluding args dst loc it1 H1 else None)))"

definition bson_copy_to_excluding_noinit :: "heap \<Rightarrow> addr \<Rightarrow> addr \<Rightarrow> bytes list \<Rightarrow> addr \<Rightarrow> heap option" where
  "bson_copy_to_excluding_noinit H src dst args loc = do {
     (ok, it) \<leftarrow> bson_iter_init H src;
     (if ok then copy_excluding args dst loc it H else Some H) }"

definition bson_copy_to_excluding :: "heap \<Rightarrow> addr \<Rightarrow> addr \<Rightarrow> bytes list \<Rightarrow> addr \<Rightarrow> heap option" where
  "bson_copy_to_excluding H src dst args loc = bson_copy_to_excluding_noinit (bson_init H dst) src dst args loc"

text \<open>The macro \<^verbatim>\<open>bson_empty\<close>: the length is five, or the first type byte is zero.\<close>

definition bson_empty :: "heap \<Rightarrow> addr \<Rightarrow> bool option" where
  "bson_empty H a = do {
     d \<leftarrow> h_docs H a;
     (if b_len d = 5 then Some True else do { x \<leftarrow> bson_data_read H a 4 1; Some (x = [0]) }) }"

definition bson_concat :: "heap \<Rightarrow> addr \<Rightarrow> addr \<Rightarrow> (bool \<times> heap) option" where
  "bson_concat H dst src = do {
     s \<leftarrow> h_docs H src;
     empty \<leftarrow> bson_empty H src;
     (if \<not> empty then do {
        data \<leftarrow> bson_data_read H src 4 (sub32 (b_len s) 5);
        bson_append_pairs H dst (sub32 (b_len s) 5) [data] }
      else Some (True, H)) }"

text \<open>\<^verbatim>\<open>count\<close> is an \<^verbatim>\<open>uint32_t\<close>.\<close>

partial_function (option) count_loop :: "bson_iter \<Rightarrow> nat \<Rightarrow> nat option" where
  "count_loop it count =
     (case bson_iter_next it of
        None \<Rightarrow> None
      | Some (ok, it1) \<Rightarrow> if ok then count_loop it1 (add32 count 1) else Some count)"

definition bson_count_keys :: "heap \<Rightarrow> addr \<Rightarrow> nat option" where
  "bson_count_keys H a = do {
     (ok, it) \<leftarrow> bson_iter_init H a;
     (if ok then count_loop it 0 else Some 0) }"

definition bson_has_field :: "heap \<Rightarrow> addr \<Rightarrow> bytes \<Rightarrow> bool option" where
  "bson_has_field H a key = do {
     k \<leftarrow> c_string key 0;
     (if 0x2E \<in> set k then do {
        (ok, it) \<leftarrow> bson_iter_init H a;
        (if ok then map_option (\<lambda>r. r \<noteq> None) (bson_iter_find_descendant it k) else Some False) }
      else map_option fst (bson_iter_init_find H a key)) }"

subsection \<open>Appending the element of an iterator\<close>

text \<open>
  \<^verbatim>\<open>bson_append_iter\<close> is \<^verbatim>\<open>bson_append_value\<close> on the value the iterator reads.
\<close>

lemma append_iter_value:
  assumes t: "ITER_TYPE it = Some (vtype v)" and bv: "bson_iter_value it = Some (Some bv)" and k: "bson_iter_key it = Some key"
  shows "bson_append_iter H a None kl0 it loc = bson_append_value H a key (-1) bv loc"
proof -
  have o: "bson_append_oid H a key kl (take 12 x) = bson_append_oid H a key kl x" if "12 \<le> length x" for x kl
    using that by (simp add: bson_append_oid_def mem_read_def)
  have d: "bson_append_dbpointer H a key kl c (take 12 x) = bson_append_dbpointer H a key kl c x" if "12 \<le> length x" for x c kl
    using that by (simp add: bson_append_dbpointer_def mem_read_def)
  show ?thesis
  proof (cases v)
    case (VOid x)
    then show ?thesis using t bv k o by (auto simp: bson_append_iter_def iter_value_simps bind_Some_iff mem_read_def split: if_splits)
  next
    case (VDBPointer c x)
    then show ?thesis using t bv k d by (auto simp: bson_append_iter_def iter_value_simps bind_Some_iff mem_read_def split: if_splits)
  qed (use t bv k in \<open>auto simp: bson_append_iter_def iter_value_simps bind_Some_iff split: option.splits\<close>)
qed

text \<open>Appending a value depends on the memory behind its pointers only as far as it denotes the value.\<close>

lemma with_static_take: "n \<le> length x \<Longrightarrow> with_static H loc x n f = with_static H loc (take n x) n f"
  by (simp add: with_static_def init_static_ok)

lemma c_string_int: "c_string x 0 = Some s \<Longrightarrow> length s \<le> INT_MAX \<Longrightarrow> int_string x (-1) = Some s"
  by (simp add: int_string_def)

lemma take_all_le: "take (length s) x = s \<Longrightarrow> length s \<le> length x"
  by (metis length_take min.cobounded1)

lemma prefix_int:
  assumes "take (length s + 1) x = s @ [0]" "length s \<le> INT_MAX"
  shows "int_string x (to_int (length s)) = Some s"
proof -
  have "take (length s) x = s" "length s \<le> length x"
    using arg_cong [OF assms(1), of "take (length s)"] arg_cong [OF assms(1), of length] by auto
  then show ?thesis using assms(2) by (simp add: int_string_def to_int_def mem_read_def)
qed

lemma append_denoted:
  assumes rep: "rep H a es" and key: "int_string key kl = Some k" and fits: "elem_fits H a k v"
    and v: "wf_val v" "vtype v \<noteq> BSON_TYPE_REGEX" and loc: "local_free H a loc" and bv: "denotes v bv"
  shows "appends H a es k v (bson_append_value H a key kl bv loc)"
proof -
  note len = elem_fits_length [OF fits] and ok = append_value_ok [OF rep key fits v(1) _ loc]
  have vok: "value_ok H a k v" using v(2) by (cases v) auto
  have static: "with_static H loc x (length (enc_doc sub)) f = with_static H loc (enc_doc sub) (length (enc_doc sub)) f"
    if "take (length (enc_doc sub)) x = enc_doc sub" for x sub f
  proof -
    have "length (enc_doc sub) \<le> length x" by (rule take_all_le [OF that])
    then show ?thesis using with_static_take [of "length (enc_doc sub)" x] that by simp
  qed
  show ?thesis
  proof (cases v)
    case (VUtf8 s)
    then obtain x where x: "bv = BV_Utf8 x (length s)" "take (length s + 1) x = s @ [0]" using bv by (cases bv) auto
    have "int_string x (to_int (length s)) = Some s" by (rule prefix_int [OF x(2)]) (use len VUtf8 in \<open>simp add: enc_string_def\<close>)
    then show ?thesis using append_strings(1) [OF rep key] fits x(1) VUtf8 by simp
  next
    case (VSymbol s)
    then obtain x where x: "bv = BV_Symbol x (length s)" "take (length s + 1) x = s @ [0]" using bv by (cases bv) auto
    have "int_string x (to_int (length s)) = Some s" by (rule prefix_int [OF x(2)]) (use len VSymbol in \<open>simp add: enc_string_def\<close>)
    then show ?thesis using append_strings(2) [OF rep key] fits x(1) VSymbol by simp
  next
    case (VDocument sub)
    then obtain x where x: "bv = BV_Document x (length (enc_doc sub))" "take (length (enc_doc sub)) x = enc_doc sub" using bv by (cases bv) auto
    then show ?thesis using ok [OF vok] VDocument static [OF x(2)] by simp
  next
    case (VArray sub)
    then obtain x where x: "bv = BV_Array x (length (enc_doc sub))" "take (length (enc_doc sub)) x = enc_doc sub" using bv by (cases bv) auto
    then show ?thesis using ok [OF vok] VArray static [OF x(2)] by simp
  next
    case (VCodeWScope c sub)
    then obtain y x where x: "bv = BV_CodeWScope y (length c) x (length (enc_doc sub))" "take (length (enc_doc sub)) x = enc_doc sub" "c_string y 0 = Some c"
      using bv by (cases bv) auto
    have c: "int_string y (-1) = Some c" by (rule c_string_int [OF x(3)]) (use len VCodeWScope in \<open>simp add: enc_string_def Let_def\<close>)
    have "appends H a es k v (with_static H loc (enc_doc sub) (length (enc_doc sub)) (\<lambda>H1. bson_append_code_with_scope H1 a key kl y (Some loc)))"
      by (rule with_static_ok [OF loc rep fits])
        (use VCodeWScope len append_code_with_scope [OF _ key _ c] in \<open>auto simp: enc_doc_def Let_def\<close>)
    then show ?thesis using x(1) static [OF x(2)] by simp
  next
    case (VBinary st b)
    then obtain x where x: "bv = BV_Binary st x (length b)" "take (length b) x = b" using bv by (cases bv) auto
    have "mem_read x 0 (length b) = Some b" using x(2) take_all_le [OF x(2)] by (simp add: mem_read_def)
    then show ?thesis using append_binary [OF rep key] fits x(1) VBinary by simp
  next
    case (VDBPointer c i)
    then obtain x where x: "bv = BV_DBPointer x (length c) i" "c_string x 0 = Some c" using bv by (cases bv) auto
    have "int_string x (-1) = Some c" by (rule c_string_int [OF x(2)]) (use len VDBPointer in \<open>simp add: enc_string_def\<close>)
    moreover have "mem_read i 0 12 = Some i" using v(1) VDBPointer by (simp add: mem_read_def)
    ultimately show ?thesis using append_dbpointer [OF rep key] fits x(1) VDBPointer by simp
  next
    case (VCode c)
    then obtain x where x: "bv = BV_Code x (length c)" "c_string x 0 = Some c" using bv by (cases bv) auto
    have "int_string x (-1) = Some c" by (rule c_string_int [OF x(2)]) (use len VCode in \<open>simp add: enc_string_def\<close>)
    then show ?thesis using append_code [OF rep key] fits x(1) VCode by simp
  qed (use ok [OF vok] bv v(2) in auto)
qed

lemma append_iter_ok:
  assumes el: "elem_at it k v" and rep: "rep H a es" and fits: "elem_fits H a k v"
    and v: "vtype v \<noteq> BSON_TYPE_REGEX" and loc: "local_free H a loc"
  shows "appends H a es k v (bson_append_iter H a None kl it loc)"
proof -
  obtain bv where bv: "bson_iter_value it = Some (Some bv)" "denotes v bv" using elem_at_value [OF el] by blast
  obtain x where x: "bson_iter_key it = Some x" "c_string x 0 = Some k" using elem_at_key(1) [OF el] by blast
  obtain raw where t: "on_element raw (i_len it) (vtype v) it" and w: "wf_val v" using el unfolding elem_at_def by blast
  have "length k \<le> INT_MAX" using doc_fits_small fits by (fastforce simp: elem_fits_def enc_elem_def)
  then have "int_string x (-1) = Some k" by (rule c_string_int [OF x(2)])
  from append_denoted [OF rep this fits w v loc bv(2)] show ?thesis
    unfolding append_iter_value [OF on_element_type [OF t] bv(1) x(1)] .
qed

subsection \<open>Copying all elements but some\<close>

lemma should_ignore_set: "should_ignore args name \<longleftrightarrow> name \<in> set args"
  by (induction args) auto

lemma local_free_change: "local_free H a loc \<Longrightarrow> local_change A H a H' \<Longrightarrow> local_free H' a loc"
  unfolding local_free_def local_change_def stays_def by (auto split: if_splits)

definition kept :: "bytes list \<Rightarrow> elems \<Rightarrow> elems" where
  "kept args es = filter (\<lambda>(k, v). k \<notin> set args) es"

definition plain :: "elems \<Rightarrow> bool" where
  "plain es \<longleftrightarrow> list_all (\<lambda>(k, v). vtype v \<noteq> BSON_TYPE_REGEX) es"

lemma kept_simps [simp]:
  "kept args [] = []"
  "k \<in> set args \<Longrightarrow> kept args ((k, v) # es) = kept args es"
  "k \<notin> set args \<Longrightarrow> kept args ((k, v) # es) = (k, v) # kept args es"
  by (simp_all add: kept_def)

lemma plain_simps [simp]: "plain []" "plain ((k, v) # es) \<longleftrightarrow> vtype v \<noteq> BSON_TYPE_REGEX \<and> plain es"
  by (simp_all add: plain_def)

lemma length_enc_doc_append: "length (enc_doc (xs @ ys)) = length (enc_elems xs) + length (enc_elems ys) + 5"
  by (simp add: enc_doc_def)

lemma copy_excluding_ok:
  "reads_at it es \<Longrightarrow> rep H dst es0 \<Longrightarrow> room H dst n \<Longrightarrow> local_free H dst loc \<Longrightarrow> plain es \<Longrightarrow>
   length (enc_doc (es0 @ kept args es)) \<le> n \<Longrightarrow>
   \<exists>H'. copy_excluding args dst loc it H = Some H' \<and> rep H' dst (es0 @ kept args es) \<and> (H' = H \<or> local_change {dst} H dst H')"
proof (induction es arbitrary: it H es0)
  case Nil
  obtain it1 where "bson_iter_next_internal it = Some (False, BSON_TYPE_EOD, False, it1)" using next_end [OF Nil(1)] by blast
  then have "bson_iter_next it = Some (False, it1)" by (simp add: bson_iter_next_def)
  then show ?case using Nil by (simp add: copy_excluding.simps)
next
  case (Cons e es)
  obtain k v where e: "e = (k, v)" by (cases e)
  obtain it1 where n: "bson_iter_next_internal it = Some (True, vtype v, False, it1)" "elem_at it1 k v" "reads_at it1 es"
    using next_elem [OF Cons.prems(1) [unfolded e]] by blast
  have nx: "bson_iter_next it = Some (True, it1)" using n(1) by (simp add: bson_iter_next_def)
  obtain x where x: "bson_iter_key it1 = Some x" "c_string x 0 = Some k" using elem_at_key(1) [OF n(2)] by blast
  note step = copy_excluding.simps [of args dst loc it H]
  show ?case
  proof (cases "k \<in> set args")
    case True
    then have "copy_excluding args dst loc it H = copy_excluding args dst loc it1 H"
      by (subst step) (simp add: nx x should_ignore_set)
    then show ?thesis using Cons.IH [OF n(3) Cons.prems(2-4)] Cons.prems(5,6) True by (simp add: e)
  next
    case False
    have small: "length (enc_doc (es0 @ [(k, v)])) \<le> n" using Cons.prems(6) False by (simp add: e length_enc_doc_append)
    have fits: "elem_fits H dst k v" by (rule room_fits [OF Cons.prems(3,2) small])
    have r: "vtype v \<noteq> BSON_TYPE_REGEX" "plain es" using Cons.prems(5) by (simp_all add: e)
    obtain H1 where H1: "bson_append_iter H dst None 0 it1 loc = Some (True, H1)" "rep H1 dst (es0 @ [(k, v)])" "frame {dst} H dst H1"
      using append_iter_ok [OF n(2) Cons.prems(2) fits r(1) Cons.prems(4)] unfolding appends_def by blast
    have ch: "local_change {dst} H dst H1" by (rule frame_local_change [OF H1(3)]) simp
    have "\<exists>H'. copy_excluding args dst loc it1 H1 = Some H' \<and> rep H' dst ((es0 @ [(k, v)]) @ kept args es) \<and>
        (H' = H1 \<or> local_change {dst} H1 dst H')"
      by (rule Cons.IH [OF n(3) H1(2) room_change [OF Cons.prems(3) ch H1(2)] local_free_change [OF Cons.prems(4) ch] r(2)])
        (use Cons.prems(6) False in \<open>simp add: e\<close>)
    moreover have "copy_excluding args dst loc it H = copy_excluding args dst loc it1 H1"
      by (subst step) (simp add: nx x should_ignore_set False H1(1))
    ultimately show ?thesis using False ch local_change_trans [OF ch] by (auto simp: e)
  qed
qed

subsection \<open>Counting and asking\<close>

lemma count_loop_ok: "reads_at it es \<Longrightarrow> m + length es < 2 ^ 32 \<Longrightarrow> count_loop it m = Some (m + length es)"
proof (induction es arbitrary: it m)
  case Nil
  obtain it1 where "bson_iter_next_internal it = Some (False, BSON_TYPE_EOD, False, it1)" using next_end [OF Nil(1)] by blast
  then show ?case by (simp add: count_loop.simps bson_iter_next_def)
next
  case (Cons e es)
  obtain k v where e: "e = (k, v)" by (cases e)
  obtain it1 where n: "bson_iter_next_internal it = Some (True, vtype v, False, it1)" "reads_at it1 es"
    using next_elem [OF Cons.prems(1) [unfolded e]] by blast
  have "add32 m 1 = m + 1" using Cons.prems(2) by (simp add: add32_def)
  then show ?case using Cons.IH [OF n(2), of "m + 1"] Cons.prems(2) n(1) by (simp add: count_loop.simps [of it] bson_iter_next_def)
qed

lemma length_elems_le: "length es \<le> length (enc_elems es)"
  by (induction es) (auto simp: enc_elem_def)

lemma has_dot: "(0x2E \<in> set (dotted ks)) = (2 \<le> length ks)" if "\<forall>k \<in> set ks. 0x2E \<notin> set k"
  using that by (induction ks rule: dotted.induct) auto

text \<open>
  \<^verbatim>\<open>bson_count_keys\<close> is the number of elements of the document, and \<^verbatim>\<open>bson_has_field\<close> tells whether there is an element
  with the key or, for a key with dots, at the end of the path.
\<close>

theorem fields_counted_and_found:
  assumes "holds H a (enc_doc es)" "wf_elems es" "length (enc_doc es) \<le> INT_MAX"
    and "ks \<noteq> []" "\<forall>k \<in> set ks. no_nul k \<and> 0x2E \<notin> set k" "c_string key 0 = Some (dotted ks)"
  shows "bson_count_keys H a = Some (length es) \<and>
    bson_has_field H a key = Some (if length ks = 1 then map_of es (hd ks) \<noteq> None else lookup_path es ks \<noteq> None)"
proof
  obtain it where it: "bson_iter_init H a = Some (True, it)" "reads_at it es" using init_reads_holds [OF assms(1-3)] by blast
  have "length es < 2 ^ 32" using length_elems_le [of es] assms(3) by (simp add: enc_doc_def)
  then show "bson_count_keys H a = Some (length es)" using count_loop_ok [OF it(2), of 0] it(1) by (simp add: bson_count_keys_def)
  have dots: "0x2E \<in> set (dotted ks) \<longleftrightarrow> 2 \<le> length ks" by (rule has_dot) (use assms(5) in blast)
  show "bson_has_field H a key = Some (if length ks = 1 then map_of es (hd ks) \<noteq> None else lookup_path es ks \<noteq> None)"
  proof (cases "length ks = 1")
    case True
    then obtain k where ks: "ks = [k]" by (cases ks) auto
    have "case map_of es k of
        None \<Rightarrow> \<exists>it1. bson_iter_find it key = Some (False, it1) \<and> i_raw it1 = None
      | Some v \<Rightarrow> \<exists>it1. bson_iter_find it key = Some (True, it1) \<and> elem_at it1 k v"
      using find_any [OF it(2), of key k] assms(6) ks by simp
    then have "map_option fst (bson_iter_find it key) = Some (map_of es k \<noteq> None)" by (auto split: option.splits)
    then show ?thesis using dots it(1) assms(6) ks by (simp add: bson_has_field_def bson_iter_init_find_def)
  next
    case False
    then have two: "0x2E \<in> set (dotted ks)" using dots assms(4) by (cases ks) (auto simp: Suc_le_eq)
    have "map_option (\<lambda>r. r \<noteq> None) (bson_iter_find_descendant it (dotted ks)) = Some (lookup_path es ks \<noteq> None)"
      using find_descendant_ok [OF assms(5,4) it(2)] by (auto split: option.splits)
    then show ?thesis using two it(1) assms(6) False by (simp add: bson_has_field_def)
  qed
qed

lemma fields_counted_and_found_witness:
  "bson_count_keys (set_doc empty_heap 0 (inline_sample nested_sample)) 0 = Some 1 \<and>
   bson_has_field (set_doc empty_heap 0 (inline_sample nested_sample)) 0 [0x61, 0x2E, 0x62, 0] = Some True"
proof -
  have l: "length (enc_doc nested_sample) \<le> 120" by (simp add: nested_sample_def enc_simps)
  have "holds (set_doc empty_heap 0 (inline_sample nested_sample)) 0 (enc_doc nested_sample)"
    using inline_sample_rep [OF l] by (simp add: rep_def)
  from fields_counted_and_found [OF this, of "[[0x61], [0x62]]" "[0x61, 0x2E, 0x62, 0]"] show ?thesis
    using l by (simp add: nested_sample_def c_string_def)
qed

subsection \<open>Joining two documents\<close>

lemma enc_elems_data:
  assumes "holds H a (enc_doc es)"
  shows "bson_data_read H a 4 (length (enc_elems es)) = Some (enc_elems es)"
proof -
  obtain d mem where d: "h_docs H a = Some d" "doc_mem H d = Some mem" "take (length (enc_doc es)) (drop (doc_off d) mem) = enc_doc es"
      "doc_off d + length (enc_doc es) \<le> length mem"
    using assms by (auto elim!: holdsE)
  have "at mem (doc_off d) (le32 (length (enc_elems es) + 5) @ enc_elems es @ [0])"
    using d(3,4) by (simp add: at_def enc_doc_def frame_doc_def)
  then have "at mem (doc_off d + 4) (enc_elems es)" by simp
  then show ?thesis using d(1,2) at_take [of mem _ "enc_elems es", OF _ refl] at_length [of mem _ "enc_elems es"] by (simp add: bson_data_read_def mem_read_def)
qed

lemma empty_doc:
  assumes "holds H a (enc_doc es)"
  shows "bson_empty H a = Some (es = [])"
proof -
  obtain d where d: "h_docs H a = Some d" "b_len d = length (enc_doc es)" using assms by (auto elim!: holdsE)
  show ?thesis
  proof (cases es)
    case (Cons e r)
    obtain k v where e: "e = (k, v)" by (cases e)
    have "bson_data_read H a 4 (length (enc_elems es)) = Some (enc_elems es)" by (rule enc_elems_data [OF assms])
    then have "bson_data_read H a 4 1 = Some [vtype v]"
      using Cons e by (auto simp: bson_data_read_def bind_Some_iff mem_read_def enc_elem_def take_Suc_Cons take_Suc split: if_splits)
    moreover have "vtype v \<noteq> 0" by (cases v) simp_all
    ultimately show ?thesis using d Cons e by (simp add: bson_empty_def enc_doc_def enc_elem_def)
  qed (use d in \<open>simp add: bson_empty_def enc_doc_def\<close>)
qed

text \<open>
  C31. \<^verbatim>\<open>bson_concat\<close> puts the elements of the source behind those of the destination if they fit, and otherwise returns false
  and changes nothing.
\<close>

theorem concat_joins:
  assumes "dst \<noteq> src" "rep H dst es1" "holds H src (enc_doc es2)" "length (enc_doc es1) \<le> INT_MAX" "length (enc_doc es2) \<le> INT_MAX"
    and "h_docs H dst = Some d" "doc_off d + b_depth d \<le> 2 ^ 62"
  shows "if es2 = [] \<or> doc_fits H dst (length (enc_elems es2))
    then \<exists>H'. bson_concat H dst src = Some (True, H') \<and> bson_get_data H' dst = Some (enc_doc (es1 @ es2)) \<and> (H' = H \<or> frame {dst} H dst H')
    else bson_concat H dst src = Some (False, H)"
proof -
  have h: "holds H dst (enc_doc es1)" "writable H dst" using assms(2) by (simp_all add: rep_def)
  obtain sd where s: "h_docs H src = Some sd" "b_len sd = length (enc_doc es2)" using assms(3) by (auto elim!: holdsE)
  have n: "sub32 (b_len sd) 5 = length (enc_elems es2)" using s(2) assms(5) by (simp add: enc_doc_def)
  show ?thesis
  proof (cases "es2 = []")
    case True
    then show ?thesis using s(1) empty_doc [OF assms(3)] holds_get_data [OF h(1)] by (simp add: bson_concat_def)
  next
    case False
    let ?x = "enc_elems es2"
    have c: "bson_concat H dst src = bson_append_pairs H dst (length ?x) [?x]"
      using s(1) n empty_doc [OF assms(3)] enc_elems_data [OF assms(3)] False by (simp add: bson_concat_def)
    have ne: "[?x] \<noteq> []" "hd [?x] \<noteq> []" using False by (cases es2; auto simp: enc_elem_def)+
    have j: "append_bytes (enc_doc es1) (concat [?x]) = enc_doc (es1 @ es2)"
    proof -
      have "butlast (enc_doc es1) = le32 (length (enc_elems es1) + 5) @ enc_elems es1"
        by (simp add: enc_doc_def frame_doc_def butlast_append)
      then show ?thesis by (simp add: append_bytes_def set_len_def enc_doc_def frame_doc_def le32_def add.commute add.left_commute)
    qed
    have l: "5 \<le> length (enc_doc es1)" by (rule length_enc_doc_ge)
    show ?thesis
    proof (cases "doc_fits H dst (length ?x)")
      case True
      have "\<exists>H'. bson_append_pairs H dst (length ?x) [?x] = Some (True, H') \<and> holds H' dst (append_bytes (enc_doc es1) (concat [?x])) \<and>
          writable H' dst \<and> frame {dst} H dst H'"
        by (rule append_pairs_ok [OF h(1) l h(2) ne _ True]) simp
      then show ?thesis unfolding c j using True holds_get_data by fastforce
    next
      case no: False
      have "bson_append_pairs H dst (length ?x) [?x] = Some (False, H)"
        by (rule append_pairs_refused [OF h(1) l h(2) ne no assms(6)]) (use assms(4,5,7) in \<open>simp_all add: enc_doc_def\<close>)
      then show ?thesis unfolding c using no False by simp
    qed
  qed
qed

lemma concat_joins_witness:
  "\<exists>H'. bson_concat (set_doc (set_doc empty_heap 0 (inline_sample [([0x61], VInt32 7)])) 1 (inline_sample [([0x62], VNull)])) 0 1 = Some (True, H') \<and>
     bson_get_data H' 0 = Some (enc_doc [([0x61], VInt32 7), ([0x62], VNull)])"
proof -
  let ?e1 = "[([0x61 :: u8], VInt32 7)]" and ?e2 = "[([0x62 :: u8], VNull)]"
  let ?H = "set_doc (set_doc empty_heap 0 (inline_sample ?e1)) 1 (inline_sample ?e2)"
  have l: "length (enc_doc ?e1) = 12" "length (enc_doc ?e2) = 8" by (simp_all add: enc_simps)
  have r: "rep ?H 0 ?e1" "holds ?H 1 (enc_doc ?e2)" and d: "h_docs ?H 0 = Some (inline_sample ?e1)"
    using l by (simp_all add: rep_def holds_def writable_def set_doc_def inline_sample_def inline_doc_def doc_mem_def doc_off_def)
  have "doc_fits ?H 0 (length (enc_elems ?e2))"
    using l d by (simp add: doc_fits_def inline_sample_def inline_doc_def doc_mem_def enc_elem_def)
  have "if ?e2 = [] \<or> doc_fits ?H 0 (length (enc_elems ?e2))
    then \<exists>H'. bson_concat ?H 0 1 = Some (True, H') \<and> bson_get_data H' 0 = Some (enc_doc (?e1 @ ?e2)) \<and> (H' = ?H \<or> frame {0} ?H 0 H')
    else bson_concat ?H 0 1 = Some (False, ?H)"
    by (intro concat_joins [OF _ r _ _ d]) (simp_all add: l inline_sample_def inline_doc_def doc_off_def)
  with \<open>doc_fits ?H 0 (length (enc_elems ?e2))\<close> show ?thesis by (simp only: if_True simp_thms append.simps) blast
qed

subsection \<open>The copies\<close>

lemma src_kept:
  assumes "holds H src xs" "h_docs H src = Some d" "src \<noteq> dst" "b_buf d \<noteq> Own dst" "local_change {dst} H dst H'"
    and "\<exists>e. h_docs H dst = Some e \<and> is_inline e"
  shows "bson_get_data H' src = Some xs"
proof -
  obtain e e' where e: "h_docs H dst = Some e" "h_docs H' dst = Some e'" "stays dst e e'"
      "\<forall>b. is_inline e' \<or> b \<noteq> b_buf e' \<longrightarrow> h_cells H' b = h_cells H b"
    using assms(5) unfolding local_change_def by (elim conjE exE)
  have o: "h_docs H' src = Some d" using assms(2,3,5) unfolding local_change_def by simp
  have "is_inline e' \<or> b_buf e' = Own dst" using assms(6) e(1,3) by (auto simp: stays_def split: if_splits)
  then have "h_cells H' (b_buf d) = h_cells H (b_buf d)" using e(4) assms(4) by auto
  then have "holds H' src xs" using assms(1,2) o by (auto simp: holds_def doc_mem_def)
  then show ?thesis by (rule holds_get_data)
qed

text \<open>
  C17. \<^verbatim>\<open>bson_copy_to_excluding\<close> of a document without regular expressions at its top level leaves in the destination exactly
  the elements of the source whose keys are not excluded, in their order, and the source as it was.
\<close>

theorem copy_excluding_keeps:
  assumes src: "holds H src (enc_doc es)" "wf_elems es" "plain es" "length (enc_doc es) \<le> 2 ^ 30"
    and d: "h_docs H src = Some d" "b_buf d \<noteq> Own dst" and ne: "src \<noteq> dst" "loc \<noteq> dst"
  shows "\<exists>H'. bson_copy_to_excluding H src dst args loc = Some H' \<and> bson_get_data H' dst = Some (enc_doc (kept args es)) \<and>
    bson_get_data H' src = Some (enc_doc es)"
proof -
  let ?H = "bson_init H dst"
  have i: "rep ?H dst []" using init_holds [of H dst] by (simp add: rep_def enc_doc_Nil)
  have o: "h_docs ?H src = Some d" "h_cells ?H = h_cells H" using d(1) ne(1) by (simp_all add: bson_init_def)
  then have s: "holds ?H src (enc_doc es)" using src(1) d(1) by (auto simp: holds_def doc_mem_def)
  have r: "room ?H dst (2 ^ 30)" by (simp add: room_def bson_init_def inline_doc_def doc_off_def)
  have l: "local_free ?H dst loc" using ne(2) by (simp add: local_free_def bson_init_def inline_doc_def)
  have inl: "\<exists>e. h_docs ?H dst = Some e \<and> is_inline e" by (simp add: bson_init_def inline_doc_def)
  obtain it where it: "bson_iter_init ?H src = Some (True, it)" "reads_at it es" using init_reads_holds [OF s src(2)] src(4) by auto
  have "length (enc_elems (kept args es)) \<le> length (enc_elems es)" by (induction es) (auto simp: kept_def)
  then have "length (enc_doc ([] @ kept args es)) \<le> 2 ^ 30" using src(4) by (simp add: enc_doc_def)
  from copy_excluding_ok [OF it(2) i r l src(3) this] obtain H' where H':
    "copy_excluding args dst loc it ?H = Some H'" "rep H' dst (kept args es)" "H' = ?H \<or> local_change {dst} ?H dst H'" by auto
  have "bson_get_data H' src = Some (enc_doc es)"
    using H'(3) src_kept [OF s o(1) ne(1) d(2) _ inl] holds_get_data [OF s] by auto
  moreover have "bson_get_data H' dst = Some (enc_doc (kept args es))" using H'(2) holds_get_data by (simp add: rep_def)
  ultimately show ?thesis using H'(1) it(1) by (simp add: bson_copy_to_excluding_def bson_copy_to_excluding_noinit_def)
qed

lemma copy_excluding_keeps_witness:
  "\<exists>H'. bson_copy_to_excluding (set_doc empty_heap 0 (inline_sample [([0x61], VInt32 7), ([0x62], VNull)])) 0 1 [[0x61]] 2 = Some H' \<and>
     bson_get_data H' 1 = Some (enc_doc [([0x62], VNull)])"
proof -
  let ?es = "[([0x61 :: u8], VInt32 7), ([0x62], VNull)]"
  let ?H = "set_doc empty_heap 0 (inline_sample ?es)"
  have l: "length (enc_doc ?es) = 15" by (simp add: enc_simps)
  have "rep ?H 0 ?es" by (rule inline_sample_rep) (simp add: l)
  then have "holds ?H 0 (enc_doc ?es)" by (simp add: rep_def)
  moreover have "h_docs ?H 0 = Some (inline_sample ?es)" by (simp add: set_doc_def)
  moreover have "b_buf (inline_sample ?es) \<noteq> Own 1" by (simp add: inline_sample_def inline_doc_def)
  ultimately have "\<exists>H'. bson_copy_to_excluding ?H 0 1 [[0x61]] 2 = Some H' \<and> bson_get_data H' 1 = Some (enc_doc (kept [[0x61]] ?es)) \<and>
      bson_get_data H' 0 = Some (enc_doc ?es)"
    by (intro copy_excluding_keeps) (simp_all add: l)
  moreover have "kept [[0x61]] ?es = [([0x62], VNull)]" by (simp add: kept_def)
  ultimately show ?thesis by (elim exE conjE) (intro exI conjI, simp_all)
qed

end
