(* ===== verification/Md5.thy ===== *)
theory Md5
  imports Bson_Value
begin

text \<open>
  \<^verbatim>\<open>src/bson/bson-md5.c\<close>: the MD5 digest of a message that arrives in pieces. The theorem compares the incremental code with
  the digest of the whole message, padded as RFC 1321 lays down and hashed block by block.
\<close>

subsection \<open>One block\<close>

type_synonym md5_abcd = "u32 \<times> u32 \<times> u32 \<times> u32"

definition ROTATE_LEFT :: "u32 \<Rightarrow> nat \<Rightarrow> u32" where
  "ROTATE_LEFT x n = push_bit n x OR drop_bit (32 - n) x"

definition md5_F :: "u32 \<Rightarrow> u32 \<Rightarrow> u32 \<Rightarrow> u32" where "md5_F x y z = (x AND y) OR (NOT x AND z)"
definition md5_G :: "u32 \<Rightarrow> u32 \<Rightarrow> u32 \<Rightarrow> u32" where "md5_G x y z = (x AND z) OR (y AND NOT z)"
definition md5_H :: "u32 \<Rightarrow> u32 \<Rightarrow> u32 \<Rightarrow> u32" where "md5_H x y z = x XOR y XOR z"
definition md5_I :: "u32 \<Rightarrow> u32 \<Rightarrow> u32 \<Rightarrow> u32" where "md5_I x y z = y XOR (x OR NOT z)"

text \<open>
  The macro \<^verbatim>\<open>SET (a, b, c, d, k, s, Ti)\<close> assigns to the first of its four variables. The calls name the variables in the
  orders \<open>a b c d\<close>, \<open>d a b c\<close>, \<open>c d a b\<close>, \<open>b c d a\<close>, over and over: the step turns the tuple so that the next
  call has the names in the same places. Each list is the calls of a round, with \<open>k\<close>, \<open>s\<close> and the constant.
\<close>

definition md5_set :: "(u32 \<Rightarrow> u32 \<Rightarrow> u32 \<Rightarrow> u32) \<Rightarrow> (nat \<Rightarrow> u32) \<Rightarrow> nat \<times> nat \<times> u32 \<Rightarrow> md5_abcd \<Rightarrow> md5_abcd" where
  "md5_set f X kst abcd =
     (let (k, s, Ti) = kst; (a, b, c, d) = abcd; t = a + f b c d + X k + Ti
      in (d, ROTATE_LEFT t s + b, b, c))"

definition ROUND1 :: "(nat \<times> nat \<times> u32) list" where
  "ROUND1 = [
     (0, 7, 0xD76AA478), (1, 12, 0xE8C7B756), (2, 17, 0x242070DB), (3, 22, 0xC1BDCEEE), (4, 7, 0xF57C0FAF),
     (5, 12, 0x4787C62A), (6, 17, 0xA8304613), (7, 22, 0xFD469501), (8, 7, 0x698098D8), (9, 12, 0x8B44F7AF),
     (10, 17, 0xFFFF5BB1), (11, 22, 0x895CD7BE), (12, 7, 0x6B901122), (13, 12, 0xFD987193), (14, 17, 0xA679438E),
     (15, 22, 0x49B40821)]"

definition ROUND2 :: "(nat \<times> nat \<times> u32) list" where
  "ROUND2 = [
     (1, 5, 0xF61E2562), (6, 9, 0xC040B340), (11, 14, 0x265E5A51), (0, 20, 0xE9B6C7AA), (5, 5, 0xD62F105D),
     (10, 9, 0x2441453), (15, 14, 0xD8A1E681), (4, 20, 0xE7D3FBC8), (9, 5, 0x21E1CDE6), (14, 9, 0xC33707D6),
     (3, 14, 0xF4D50D87), (8, 20, 0x455A14ED), (13, 5, 0xA9E3E905), (2, 9, 0xFCEFA3F8), (7, 14, 0x676F02D9),
     (12, 20, 0x8D2A4C8A)]"

definition ROUND3 :: "(nat \<times> nat \<times> u32) list" where
  "ROUND3 = [
     (5, 4, 0xFFFA3942), (8, 11, 0x8771F681), (11, 16, 0x6D9D6122), (14, 23, 0xFDE5380C), (1, 4, 0xA4BEEA44),
     (4, 11, 0x4BDECFA9), (7, 16, 0xF6BB4B60), (10, 23, 0xBEBFBC70), (13, 4, 0x289B7EC6), (0, 11, 0xEAA127FA),
     (3, 16, 0xD4EF3085), (6, 23, 0x4881D05), (9, 4, 0xD9D4D039), (12, 11, 0xE6DB99E5), (15, 16, 0x1FA27CF8),
     (2, 23, 0xC4AC5665)]"

definition ROUND4 :: "(nat \<times> nat \<times> u32) list" where
  "ROUND4 = [
     (0, 6, 0xF4292244), (7, 10, 0x432AFF97), (14, 15, 0xAB9423A7), (5, 21, 0xFC93A039), (12, 6, 0x655B59C3),
     (3, 10, 0x8F0CCC92), (10, 15, 0xFFEFF47D), (1, 21, 0x85845DD1), (8, 6, 0x6FA87E4F), (15, 10, 0xFE2CE6E0),
     (6, 15, 0xA3014314), (13, 21, 0x4E0811A1), (4, 6, 0xF7537E82), (11, 10, 0xBD3AF235), (2, 15, 0x2AD7D2BB),
     (9, 21, 0xEB86D391)]"

text \<open>\<^verbatim>\<open>X\<close> as both the little-endian and the big-endian branch fill it.\<close>

definition md5_X :: "bytes \<Rightarrow> nat \<Rightarrow> u32" where
  "md5_X data k = word_of_nat (le_nat (take 4 (drop (4 * k) data)))"

definition bson_md5_process :: "md5_abcd \<Rightarrow> bytes \<Rightarrow> md5_abcd" where
  "bson_md5_process abcd data =
     (let (a0, b0, c0, d0) = abcd;
          (a, b, c, d) = fold (md5_set md5_I (md5_X data)) ROUND4 (fold (md5_set md5_H (md5_X data)) ROUND3
             (fold (md5_set md5_G (md5_X data)) ROUND2 (fold (md5_set md5_F (md5_X data)) ROUND1 abcd)))
      in (a0 + a, b0 + b, c0 + c, d0 + d))"

subsection \<open>The incremental interface\<close>

record bson_md5 =
  md_count0 :: u32
  md_count1 :: u32
  md_abcd :: md5_abcd
  md_buf :: bytes

definition md5_start :: md5_abcd where
  "md5_start = (0x67452301, 0xefcdab89, 0x98badcfe, 0x10325476)"

text \<open>\<open>junk\<close> is what the 64 bytes of the buffer hold before.\<close>

definition bson_md5_init :: "bytes \<Rightarrow> bson_md5" where
  "bson_md5_init junk = \<lparr>md_count0 = 0, md_count1 = 0, md_abcd = md5_start, md_buf = junk\<rparr>"

text \<open>
  The two last loops of \<^verbatim>\<open>bson_md5_append\<close>. \<^verbatim>\<open>left\<close> is an \<^verbatim>\<open>int\<close>; a negative one would be the size of the last \<^verbatim>\<open>memcpy\<close>.
\<close>

function md5_blocks :: "bson_md5 \<Rightarrow> bytes \<Rightarrow> nat \<Rightarrow> int \<Rightarrow> bson_md5 option" where
  "md5_blocks m data p left =
     (if left \<ge> 64 then
        (case mem_read data p 64 of
           None \<Rightarrow> None
         | Some block \<Rightarrow> md5_blocks (m\<lparr>md_abcd := bson_md5_process (md_abcd m) block\<rparr>) data (p + 64) (left - 64))
      else if left < 0 then None
      else if left \<noteq> 0 then
        do { x \<leftarrow> mem_read data p (nat left); buf \<leftarrow> mem_write (md_buf m) 0 x; Some (m\<lparr>md_buf := buf\<rparr>) }
      else Some m)"
  by pat_completeness auto
termination
  by (relation "measure (\<lambda>(m, data, p, left). nat left)") auto

declare md5_blocks.simps [simp del]

text \<open>The update of the message length.\<close>

definition md5_count :: "bson_md5 \<Rightarrow> nat \<Rightarrow> bson_md5" where
  "md5_count m nbytes =
     (let nbits = (word_of_nat (nbytes * 8) :: u32);
          m = m\<lparr>md_count1 := md_count1 m + word_of_nat (nbytes div 2 ^ 29)\<rparr>;
          m = m\<lparr>md_count0 := md_count0 m + nbits\<rparr>
      in if md_count0 m < nbits then m\<lparr>md_count1 := md_count1 m + 1\<rparr> else m)"

definition bson_md5_append :: "bson_md5 \<Rightarrow> bytes \<Rightarrow> nat \<Rightarrow> bson_md5 option" where
  "bson_md5_append m data nbytes =
     (if nbytes = 0 then Some m
      else do {
        let offset = unat (drop_bit 3 (md_count0 m) AND 63);
        let left = (if nbytes < 2 ^ 31 then int nbytes else int nbytes - 2 ^ 32);
        let m = md5_count m nbytes;
        (if offset \<noteq> 0 then do {
           let copy = (if add32 offset nbytes > 64 then 64 - offset else nbytes);
           x \<leftarrow> mem_read data 0 copy;
           buf \<leftarrow> mem_write (md_buf m) offset x;
           let m = m\<lparr>md_buf := buf\<rparr>;
           (if offset + copy < 64 then Some m
            else md5_blocks (m\<lparr>md_abcd := bson_md5_process (md_abcd m) buf\<rparr>) data copy (left - int copy)) }
         else md5_blocks m data 0 left) })"

definition md5_pad :: bytes where
  "md5_pad = 0x80 # replicate 63 0"

text \<open>\<^verbatim>\<open>(uint8_t) (x >> ((i & 3) << 3))\<close> for \<open>i < 4\<close>: the bytes of a word.\<close>

definition word_bytes :: "u32 \<Rightarrow> bytes" where
  "word_bytes x = map (\<lambda>i. ucast (drop_bit (i * 8) x)) [0, 1, 2, 3]"

definition bson_md5_finish :: "bson_md5 \<Rightarrow> (bson_md5 \<times> bytes) option" where
  "bson_md5_finish m = do {
     let data = word_bytes (md_count0 m) @ word_bytes (md_count1 m);
     m \<leftarrow> bson_md5_append m md5_pad (unat (((55 - drop_bit 3 (md_count0 m)) AND 63) + 1));
     m \<leftarrow> bson_md5_append m data 8;
     let (a, b, c, d) = md_abcd m;
     Some (m, word_bytes a @ word_bytes b @ word_bytes c @ word_bytes d) }"

subsection \<open>The digest of a whole message\<close>

function md5_fold :: "md5_abcd \<Rightarrow> bytes \<Rightarrow> md5_abcd \<times> bytes" where
  "md5_fold st xs = (if length xs < 64 then (st, xs) else md5_fold (bson_md5_process st (take 64 xs)) (drop 64 xs))"
  by pat_completeness auto
termination
  by (relation "measure (\<lambda>(st, xs). length xs)") auto

declare md5_fold.simps [simp del]

definition md5_padding :: "nat \<Rightarrow> bytes" where
  "md5_padding n = 0x80 # replicate (nat ((55 - int n) mod 64)) 0 @ le64 (8 * n)"

definition digest_bytes :: "md5_abcd \<Rightarrow> bytes" where
  "digest_bytes abcd = (let (a, b, c, d) = abcd in word_bytes a @ word_bytes b @ word_bytes c @ word_bytes d)"

definition md5_digest :: "bytes \<Rightarrow> bytes" where
  "md5_digest msg = digest_bytes (fst (md5_fold md5_start (msg @ md5_padding (length msg))))"

lemma md5_fold_short: "length xs < 64 \<Longrightarrow> md5_fold st xs = (st, xs)"
  by (simp add: md5_fold.simps)

lemma md5_fold_block: "length b = 64 \<Longrightarrow> md5_fold st (b @ xs) = md5_fold (bson_md5_process st b) xs"
  by (subst md5_fold.simps) simp

lemma md5_fold_append: "md5_fold st (xs @ ys) = (case md5_fold st xs of (st', r) \<Rightarrow> md5_fold st' (r @ ys))"
proof (induction st xs rule: md5_fold.induct)
  case (1 st xs)
  show ?case
  proof (cases "length xs < 64")
    case False
    then have "md5_fold st (xs @ ys) = md5_fold (bson_md5_process st (take 64 xs)) (drop 64 xs @ ys)"
      using md5_fold_block [of "take 64 xs" st "drop 64 xs @ ys"] by (simp flip: append_assoc)
    then show ?thesis using 1 [OF False] False by (simp add: md5_fold.simps [of st xs])
  qed (simp add: md5_fold_short)
qed

lemma md5_fold_rest: "length (snd (md5_fold st xs)) = length xs mod 64"
proof (induction st xs rule: md5_fold.induct)
  case (1 st xs)
  show ?case using 1 by (cases "length xs < 64") (simp_all add: md5_fold.simps [of st xs] le_mod_geq)
qed

subsection \<open>A message in pieces\<close>

text \<open>The state holds the message read so far: its length in bits, the hash of its full blocks, and its last bytes.\<close>

definition md5_counts :: "bson_md5 \<Rightarrow> nat \<Rightarrow> bool" where
  "md5_counts m l \<longleftrightarrow> md_count0 m = word_of_nat (8 * l) \<and> md_count1 m = word_of_nat (8 * l div 2 ^ 32)"

lemma md5_counts_upd [simp]:
  "md5_counts (m\<lparr>md_buf := b\<rparr>) l = md5_counts m l" "md5_counts (m\<lparr>md_abcd := x\<rparr>) l = md5_counts m l"
  by (simp_all add: md5_counts_def)

definition md5_holds :: "bson_md5 \<Rightarrow> bytes \<Rightarrow> bool" where
  "md5_holds m msg \<longleftrightarrow> length (md_buf m) = 64 \<and> md5_counts m (length msg) \<and>
     md_abcd m = fst (md5_fold md5_start msg) \<and> take (length msg mod 64) (md_buf m) = snd (md5_fold md5_start msg)"

lemma md5_blocks_ok:
  "p + n = length data \<Longrightarrow> length (md_buf m) = 64 \<Longrightarrow>
   md5_blocks m data p (int n) = Some (m\<lparr>md_abcd := fst (md5_fold (md_abcd m) (drop p data)),
     md_buf := snd (md5_fold (md_abcd m) (drop p data)) @ drop (n mod 64) (md_buf m)\<rparr>)"
proof (induction n arbitrary: m p rule: less_induct)
  case (less n)
  show ?case
  proof (cases "64 \<le> n")
    case True
    let ?b = "take 64 (drop p data)"
    let ?m = "m\<lparr>md_abcd := bson_md5_process (md_abcd m) ?b\<rparr>"
    have b: "mem_read data p 64 = Some ?b" "length ?b = 64" using True less.prems(1) by (simp_all add: mem_read_def)
    have "drop p data = ?b @ drop (p + 64) data" by (metis append_take_drop_id drop_drop add.commute)
    then have f: "md5_fold (md_abcd m) (drop p data) = md5_fold (md_abcd ?m) (drop (p + 64) data)"
      using md5_fold_block [OF b(2), of "md_abcd m" "drop (p + 64) data"] by simp
    have "md5_blocks m data p (int n) = md5_blocks ?m data (p + 64) (int (n - 64))"
      using True b(1) by (subst md5_blocks.simps) (simp add: of_nat_diff)
    also have "\<dots> = Some (?m\<lparr>md_abcd := fst (md5_fold (md_abcd ?m) (drop (p + 64) data)),
        md_buf := snd (md5_fold (md_abcd ?m) (drop (p + 64) data)) @ drop ((n - 64) mod 64) (md_buf ?m)\<rparr>)"
      by (rule less.IH) (use True less.prems in simp_all)
    finally show ?thesis using True by (simp add: f le_mod_geq)
  next
    case False
    then have "md5_fold (md_abcd m) (drop p data) = (md_abcd m, drop p data)" using less.prems(1) by (intro md5_fold_short) simp
    moreover have "mem_read data p n = Some (drop p data)" using less.prems(1) by (simp add: mem_read_def)
    moreover have "length data - p = n" using less.prems(1) by simp
    ultimately show ?thesis using False less.prems by (subst md5_blocks.simps) (auto simp: mem_write_def)
  qed
qed

lemma word_carry:
  "(word_of_nat (x div 2 ^ 32) + word_of_nat (y div 2 ^ 32) +
      (if (word_of_nat x + word_of_nat y :: u32) < word_of_nat y then 1 else 0) :: u32) = word_of_nat ((x + y) div 2 ^ 32)"
proof -
  let ?p = "x mod 2 ^ 32" and ?q = "y mod 2 ^ 32"
  have c: "(word_of_nat x + word_of_nat y :: u32) < word_of_nat y \<longleftrightarrow> 2 ^ 32 \<le> ?p + ?q"
  proof -
    have "unat (word_of_nat x + word_of_nat y :: u32) = (?p + ?q) mod 2 ^ 32" "unat (word_of_nat y :: u32) = ?q"
      by (simp_all only: unat_word_ariths unat_of_nat) simp_all
    moreover have "?p < 2 ^ 32" "?q < 2 ^ 32" by simp_all
    then have "(?p + ?q) mod 2 ^ 32 < ?q \<longleftrightarrow> 2 ^ 32 \<le> ?p + ?q"
      by (cases "?p + ?q < 2 ^ 32") (auto simp: le_mod_geq)
    ultimately show ?thesis by (simp only: word_less_nat_alt)
  qed
  have d: "(x + y) div 2 ^ 32 = x div 2 ^ 32 + y div 2 ^ 32 + (?p + ?q) div 2 ^ 32" by (rule div_add1_eq)
  have e: "(?p + ?q) div 2 ^ 32 = (if 2 ^ 32 \<le> ?p + ?q then 1 else 0)"
    by (cases "?p + ?q < 2 ^ 32") (auto simp: div_nat_eqI)
  show ?thesis unfolding c d e by simp
qed

lemma md5_count_ok:
  assumes "md5_counts m l"
  shows "md5_counts (md5_count m n) (l + n)" "md_abcd (md5_count m n) = md_abcd m" "md_buf (md5_count m n) = md_buf m"
proof -
  have x: "8 * (l + n) = 8 * l + n * 8" "n div 2 ^ 29 = n * 8 div 2 ^ 32" by simp_all
  have c: "word_of_nat (8 * l) + word_of_nat (n * 8) = (word_of_nat (8 * l + n * 8) :: u32)" by (simp only: of_nat_add)
  have w: "word_of_nat (8 * l div 2 ^ 32) + word_of_nat (n * 8 div 2 ^ 32) +
      (if (word_of_nat (8 * l + n * 8) :: u32) < word_of_nat (n * 8) then 1 else 0) = (word_of_nat ((8 * l + n * 8) div 2 ^ 32) :: u32)"
    using word_carry [of "8 * l" "n * 8"] unfolding c .
  have m: "md_count0 m = word_of_nat (8 * l)" "md_count1 m = word_of_nat (8 * l div 2 ^ 32)" using assms by (simp_all only: md5_counts_def)
  have d: "md5_count m n = m\<lparr>md_count1 := word_of_nat ((8 * l + n * 8) div 2 ^ 32), md_count0 := word_of_nat (8 * l + n * 8)\<rparr>"
  proof (cases "(word_of_nat (8 * l + n * 8) :: u32) < word_of_nat (n * 8)")
    case True
    from w [unfolded if_P [OF True]] True show ?thesis
      by (cases m) (use m in \<open>simp only: md5_count_def Let_def bson_md5.simps c x if_True\<close>)
  next
    case False
    from w [unfolded if_not_P [OF False]] False show ?thesis
      by (cases m) (use m in \<open>simp only: md5_count_def Let_def bson_md5.simps c x if_False add_0_right\<close>)
  qed
  show "md5_counts (md5_count m n) (l + n)" by (simp only: d md5_counts_def bson_md5.simps x) simp
  show "md_abcd (md5_count m n) = md_abcd m" "md_buf (md5_count m n) = md_buf m" unfolding d by simp_all
qed

lemma count_offset:
  assumes "md5_counts m n"
  shows "unat (drop_bit 3 (md_count0 m) AND 63) = n mod 64"
proof -
  have "unat (drop_bit 3 (word_of_nat (8 * n) :: u32)) = 8 * n mod 2 ^ 32 div 8"
    by (simp only: unsigned_drop_bit_eq unat_of_nat) (simp add: drop_bit_eq_div take_bit_eq_mod)
  then have "unat (drop_bit 3 (word_of_nat (8 * n) :: u32) AND 63) = 8 * n mod 2 ^ 32 div 8 mod 2 ^ 6"
    by (simp add: unat_and_mask [of 6 63] mask_eq_exp_minus_1)
  also have "8 * n mod 2 ^ 32 div 8 = n mod 2 ^ 29"
  proof -
    have "8 * n mod (8 * 2 ^ 29) = 8 * (n mod 2 ^ 29)" by (simp only: mult_mod_right)
    then show ?thesis by simp
  qed
  also have "n mod 2 ^ 29 mod 2 ^ 6 = n mod 64" using mod_mod_cancel [of "2 ^ 6" "2 ^ 29" n] by (simp add: le_imp_power_dvd)
  finally show ?thesis using assms by (simp only: md5_counts_def)
qed

lemma take_over: "length r = n \<Longrightarrow> take n (r @ x) = r"
  by simp

lemma md5_append_ok:
  assumes m: "md5_holds m msg" and n: "length data < 2 ^ 31"
  shows "\<exists>m'. bson_md5_append m data (length data) = Some m' \<and> md5_holds m' (msg @ data)"
proof (cases "data = []")
  case True
  then show ?thesis using m by (simp add: bson_md5_append_def)
next
  case False
  let ?o = "length msg mod 64" and ?n = "length data" and ?m1 = "md5_count m (length data)"
  obtain st r where f: "md5_fold md5_start msg = (st, r)" by (cases "md5_fold md5_start msg")
  have h: "length (md_buf m) = 64" "md5_counts m (length msg)" "md_abcd m = st" "take ?o (md_buf m) = r"
    using m f by (simp_all add: md5_holds_def)
  have r: "length r = ?o" using md5_fold_rest [of md5_start msg] f by simp
  have fd: "md5_fold md5_start (msg @ data) = md5_fold st (r @ data)" by (subst md5_fold_append) (simp add: f)
  note m1 = md5_count_ok [OF h(2), of ?n]
  have left: "(if ?n < 2 ^ 31 then int ?n else int ?n - 2 ^ 32) = int ?n" using n by simp
  note code = bson_md5_append_def [of m data ?n, unfolded Let_def count_offset [OF h(2)] left]
  show ?thesis
  proof (cases "?o = 0")
    case True
    let ?f = "md5_fold st data"
    let ?m' = "?m1\<lparr>md_abcd := fst ?f, md_buf := snd ?f @ drop (?n mod 64) (md_buf m)\<rparr>"
    have "md5_blocks ?m1 data 0 (int ?n) = Some ?m'" using md5_blocks_ok [of 0 ?n data ?m1] h(1,3) m1 by simp
    then have "bson_md5_append m data ?n = Some ?m'" unfolding code using False True by simp
    moreover have "md5_fold md5_start (msg @ data) = ?f" using fd r True by simp
    moreover have "length (snd ?f) = ?n mod 64" by (rule md5_fold_rest)
    moreover have "(length msg + ?n) mod 64 = ?n mod 64" using True by (metis add_0 mod_add_left_eq)
    ultimately show ?thesis using h(1) m1(1) by (simp add: md5_holds_def take_over)
  next
    case off: False
    define c where "c = (if 64 < ?o + ?n then 64 - ?o else ?n)"
    have o64: "?o < 64" by simp
    have copy: "(if 64 < add32 ?o ?n then 64 - ?o else ?n) = c" "c \<le> ?n" "?o + c \<le> 64"
      using n o64 by (auto simp: c_def)
    let ?buf = "r @ take c data @ drop (?o + c) (md_buf m)"
    have rd: "mem_read data 0 c = Some (take c data)" using copy(2) by (simp add: mem_read_def)
    have wr: "mem_write (md_buf m) ?o (take c data) = Some ?buf"
      using copy h(1) h(4) by (simp add: mem_write_def min_absorb2)
    have step: "bson_md5_append m data ?n = (if ?o + c < 64 then Some (?m1\<lparr>md_buf := ?buf\<rparr>)
        else md5_blocks (?m1\<lparr>md_buf := ?buf, md_abcd := bson_md5_process (md_abcd m) ?buf\<rparr>) data c (int ?n - int c))"
      unfolding code copy(1) using False off by (simp add: rd wr m1)
    show ?thesis
    proof (cases "?o + c < 64")
      case True
      then have all: "c = ?n" "?o + ?n < 64" by (auto simp: c_def split: if_splits)
      then have "md5_fold md5_start (msg @ data) = (st, r @ data)" unfolding fd using r by (intro md5_fold_short) simp
      moreover have "(length msg + ?n) mod 64 = ?o + ?n" using all(2) by (metis mod_add_left_eq mod_less)
      moreover have "length ?buf = 64" using all h(1) r by simp
      ultimately show ?thesis using True step all m1 h(1,3) r by (simp add: md5_holds_def)
    next
      case full: False
      let ?b = "r @ take c data"
      have b: "length ?b = 64" "?buf = ?b" using full copy r h(1) by (simp_all add: min_absorb2)
      let ?f = "md5_fold (bson_md5_process st ?b) (drop c data)"
      have "md5_fold st (?b @ drop c data) = ?f" by (rule md5_fold_block [OF b(1)])
      then have fo: "md5_fold md5_start (msg @ data) = ?f" unfolding fd by simp
      have "md5_blocks (?m1\<lparr>md_buf := ?buf, md_abcd := bson_md5_process (md_abcd m) ?buf\<rparr>) data c (int (?n - c)) =
          Some (?m1\<lparr>md_abcd := fst ?f, md_buf := snd ?f @ drop ((?n - c) mod 64) ?b\<rparr>)"
        by (subst md5_blocks_ok) (use copy(2) b h(3) in simp_all)
      then have "bson_md5_append m data ?n = Some (?m1\<lparr>md_abcd := fst ?f, md_buf := snd ?f @ drop ((?n - c) mod 64) ?b\<rparr>)"
        using step full copy(2) by (simp add: of_nat_diff)
      moreover have "length (snd ?f) = (?n - c) mod 64" using md5_fold_rest [of _ "drop c data"] by simp
      moreover have "(length msg + ?n) mod 64 = (?n - c) mod 64"
      proof -
        have "length msg + ?n = 64 * (length msg div 64) + (?o + c + (?n - c))" using copy(2) by simp
        also have "?o + c = 64" using full copy(3) by simp
        finally show ?thesis by (metis add.left_commute mod_add_self1 mod_mult_self4)
      qed
      moreover from \<open>length (snd ?f) = (?n - c) mod 64\<close> have "length (snd ?f @ drop ((?n - c) mod 64) ?b) = 64"
        using mod_less_divisor [of 64 "?n - c"] by (simp only: length_append [of "snd ?f"] length_drop b(1))
      ultimately show ?thesis using m1 fo by (simp add: md5_holds_def take_over length_append [of msg data] del: length_append length_drop drop_append take_append)
    qed
  qed
qed

lemma word_bytes_le: "word_bytes x = le_bytes 4 (unat x)"
proof -
  have d: "unat (drop_bit n x) = unat x div 2 ^ n" for n
    using unat_u32_less [of x] by (simp only: unsigned_drop_bit_eq) (simp add: drop_bit_eq_div take_bit_nat_eq_self)
  have b: "(ucast (drop_bit n x) :: u8) = word_of_nat (unat x div 2 ^ n)" for n
    by (simp only: word_unat_eq_iff unat_of_nat_u8 unsigned_ucast_eq d) (simp add: take_bit_eq_mod)
  show ?thesis by (simp only: word_bytes_def b) (simp add: le_bytes_num div_mult2_eq [symmetric])
qed

text \<open>Feeding a message in pieces of fewer than \<open>2 ^ 31\<close> bytes.\<close>

fun md5_feed :: "bson_md5 \<Rightarrow> bytes list \<Rightarrow> bson_md5 option" where
  "md5_feed m [] = Some m"
| "md5_feed m (x # xs) = (case bson_md5_append m x (length x) of None \<Rightarrow> None | Some m1 \<Rightarrow> md5_feed m1 xs)"

lemma md5_feed_ok:
  "md5_holds m msg \<Longrightarrow> list_all (\<lambda>x. length x < 2 ^ 31) xs \<Longrightarrow> \<exists>m'. md5_feed m xs = Some m' \<and> md5_holds m' (msg @ concat xs)"
proof (induction xs arbitrary: m msg)
  case (Cons x xs)
  obtain m1 where m1: "bson_md5_append m x (length x) = Some m1" "md5_holds m1 (msg @ x)"
    using md5_append_ok [OF Cons.prems(1)] Cons.prems(2) by auto
  show ?case using Cons.IH [OF m1(2)] Cons.prems(2) m1(1) by simp
qed simp

lemma pad_count:
  assumes "md5_counts m n"
  shows "unat (((55 - drop_bit 3 (md_count0 m)) AND 63) + 1) = nat ((55 - int n) mod 64) + 1"
proof -
  let ?y = "drop_bit 3 (md_count0 m)" and ?w = "(55 - drop_bit 3 (md_count0 m)) AND 63"
  have m64: "int (unat (x AND 63)) = uint x mod 64" for x :: u32
    using unat_and_mask [of 6 63 x] by (simp add: mask_eq_exp_minus_1 zmod_int)
  have "uint ?y mod 64 = int n mod 64" using m64 [of ?y] count_offset [OF assms] by (simp add: zmod_int)
  moreover have "uint (55 - ?y) mod 64 = (55 - uint ?y) mod 64"
    by (simp only: uint_word_arith_bintrs) (simp add: take_bit_eq_mod mod_mod_cancel)
  ultimately have w: "int (unat ?w) = (55 - int n) mod 64" unfolding m64 by (metis mod_diff_right_eq)
  then have "int (unat ?w) < 64" by (simp only: pos_mod_bound zero_less_numeral)
  then have "unat ?w < 64" by (simp only: of_nat_less_numeral_iff)
  then have "unat (?w + 1) = unat ?w + 1" by (simp add: unat_word_ariths)
  moreover have "unat ?w = nat ((55 - int n) mod 64)" using w by (metis nat_int)
  ultimately show ?thesis by simp
qed

text \<open>Only the announced bytes are read.\<close>

lemma mem_read_take: "p + n \<le> N \<Longrightarrow> mem_read (take N data) p n = mem_read data p n"
  by (auto simp: mem_read_def min_def drop_take)

lemma md5_blocks_take:
  "p + n \<le> N \<Longrightarrow> md5_blocks m (take N data) p (int n) = md5_blocks m data p (int n)"
proof (induction n arbitrary: m p rule: less_induct)
  case (less n)
  show ?case
  proof (cases "64 \<le> n")
    case True
    have r: "mem_read (take N data) p 64 = mem_read data p 64" using True less.prems by (intro mem_read_take) simp
    have i: "int n - 64 = int (n - 64)" using True by simp
    have "md5_blocks x (take N data) (p + 64) (int (n - 64)) = md5_blocks x data (p + 64) (int (n - 64))" for x
      by (rule less.IH) (use True less.prems in simp_all)
    then show ?thesis using True
      by (simp only: md5_blocks.simps [of m "take N data" p "int n"] md5_blocks.simps [of m data p "int n"] r i) simp
  next
    case False
    then show ?thesis using less.prems by (simp add: md5_blocks.simps [of m _ p "int n"] mem_read_take)
  qed
qed

lemma md5_append_take:
  assumes "n < 2 ^ 31"
  shows "bson_md5_append m (take n data) n = bson_md5_append m data n"
proof (cases "n = 0")
  case False
  define off where "off = unat (drop_bit 3 (md_count0 m) AND 63)"
  define c where "c = (if add32 off n > 64 then 64 - off else n)"
  have "off < 64" using unat_and_mask [of 6 63 "drop_bit 3 (md_count0 m)"] by (simp add: off_def mask_eq_exp_minus_1)
  then have c: "c \<le> n" using assms by (auto simp: c_def)
  have left: "(if n < 2 ^ 31 then int n else int n - 2 ^ 32) = int n" using assms by simp
  have i: "int n - int c = int (n - c)" using c by simp
  have b: "md5_blocks x (take n data) c (int (n - c)) = md5_blocks x data c (int (n - c))"
    "md5_blocks x (take n data) 0 (int n) = md5_blocks x data 0 (int n)" for x
    by (rule md5_blocks_take; use c in simp)+
  show ?thesis
    by (simp only: bson_md5_append_def Let_def off_def [symmetric] c_def [symmetric] left i b mem_read_take [of 0 c n data, simplified, OF c])
qed (simp add: bson_md5_append_def)

lemma le_bytes_add: "le_bytes (j + k) n = le_bytes j n @ le_bytes k (n div 256 ^ j)"
  by (induction j arbitrary: n) (simp_all add: div_mult2_eq)

lemma count_bytes:
  assumes "md5_counts m n"
  shows "word_bytes (md_count0 m) @ word_bytes (md_count1 m) = le64 (8 * n)"
proof -
  have u: "unat (md_count0 m) = 8 * n mod 2 ^ 32" "unat (md_count1 m) = 8 * n div 2 ^ 32 mod 2 ^ 32"
    using assms by (simp_all only: md5_counts_def unat_of_nat) simp_all
  have "le_bytes 4 (x mod 2 ^ 32) = le_bytes 4 x" for x using le_bytes_mod [of 4 x] by simp
  then show ?thesis using le_bytes_add [of 4 4 "8 * n"] by (simp only: word_bytes_le u le64_def) simp
qed

text \<open>
  C13. The incremental MD5 is the digest of the whole message: for a message fed in any pieces of fewer than \<open>2 ^ 31\<close>
  bytes, no call reads or writes outside its buffers, and the result is that of padding the message to whole blocks
  (a one bit, zeroes, the length in bits) and hashing these. However it is cut, the digest is the same.
\<close>

theorem md5_of_pieces:
  assumes "length junk = 64" "list_all (\<lambda>x. length x < 2 ^ 31) xs"
  shows "\<exists>m m'. md5_feed (bson_md5_init junk) xs = Some m \<and> bson_md5_finish m = Some (m', md5_digest (concat xs))"
proof -
  let ?msg = "concat xs"
  have "md5_holds (bson_md5_init junk) []" using assms(1) by (simp add: md5_holds_def md5_counts_def bson_md5_init_def md5_fold_short)
  then obtain m where m: "md5_feed (bson_md5_init junk) xs = Some m" "md5_holds m ?msg"
    using md5_feed_ok [of _ "[]" xs] assms(2) by auto
  have c: "md5_counts m (length ?msg)" using m(2) by (simp add: md5_holds_def)
  let ?k = "nat ((55 - int (length ?msg)) mod 64)" and ?d = "word_bytes (md_count0 m) @ word_bytes (md_count1 m)"
  have k: "?k < 64" by (simp add: nat_less_iff)
  have pad: "bson_md5_append m md5_pad (?k + 1) = bson_md5_append m (0x80 # replicate ?k 0) (?k + 1)"
    using md5_append_take [of "?k + 1" m md5_pad] k by (simp add: md5_pad_def)
  obtain m1 where m1: "bson_md5_append m (0x80 # replicate ?k 0) (?k + 1) = Some m1" "md5_holds m1 (?msg @ 0x80 # replicate ?k 0)"
    using md5_append_ok [OF m(2), of "0x80 # replicate ?k 0"] k by auto
  have d: "?d = le64 (8 * length ?msg)" by (rule count_bytes [OF c])
  obtain m2 where m2: "bson_md5_append m1 ?d 8 = Some m2" "md5_holds m2 ((?msg @ 0x80 # replicate ?k 0) @ ?d)"
    using md5_append_ok [OF m1(2), of ?d] d by auto
  have "(?msg @ 0x80 # replicate ?k 0) @ ?d = ?msg @ md5_padding (length ?msg)" by (simp add: md5_padding_def d)
  then have "digest_bytes (md_abcd m2) = md5_digest ?msg" using m2(2) by (simp add: md5_holds_def md5_digest_def)
  then have "bson_md5_finish m = Some (m2, md5_digest ?msg)"
    using m1(1) m2(1) pad by (simp add: bson_md5_finish_def pad_count [OF c] digest_bytes_def split: prod.splits)
  with m(1) show ?thesis by blast
qed

lemma md5_of_pieces_witness:
  "\<exists>m m'. md5_feed (bson_md5_init (replicate 64 0)) [str_of ''ab'', [], str_of ''c''] = Some m \<and>
     bson_md5_finish m = Some (m', md5_digest (concat [str_of ''ab'', [], str_of ''c'']))"
  by (rule md5_of_pieces) (simp_all add: str_of_def)

text \<open>
  A piece of \<open>2 ^ 31\<close> bytes or more makes \<^verbatim>\<open>left\<close> negative: no block is hashed and the last \<^verbatim>\<open>memcpy\<close> runs out of both buffers.
\<close>

lemma md5_big_piece: "2 ^ 31 \<le> n \<Longrightarrow> n < 2 ^ 32 \<Longrightarrow> bson_md5_append (bson_md5_init junk) data n = None"
  by (simp add: bson_md5_append_def bson_md5_init_def Let_def md5_blocks.simps)

end
