(* ===== verification/Timegm.thy ===== *)
theory Timegm
  imports Bson_Types "HOL-Library.Signed_Division"
begin

text \<open>
  \<^verbatim>\<open>src/bson/bson-timegm.c\<close>: the seconds since 1970 of a broken-down date in UTC. The code normalizes the date and then looks
  for the seconds by bisection over all 64-bit numbers, breaking every candidate down with \<^verbatim>\<open>timesub\<close>. The C types
  \<^verbatim>\<open>int64_t\<close>, \<^verbatim>\<open>int_fast32_t\<close> and \<^verbatim>\<open>int_fast64_t\<close> have 64 bits, as in glibc on 64-bit machines; the one place where the
  sum of arbitrary inputs could leave that range is an explicit failure. The time zone is the one that \<^verbatim>\<open>gmtload\<close> sets up: a single type, no
  daylight saving, no leap seconds, so the loops over \<^verbatim>\<open>leapcnt\<close> and \<^verbatim>\<open>timecnt\<close> of the state run zero times.
\<close>

subsection \<open>The code\<close>

record bson_tm =
  tm_sec :: int
  tm_min :: int
  tm_hour :: int
  tm_mday :: int
  tm_mon :: int
  tm_year :: int
  tm_wday :: int
  tm_yday :: int
  tm_isdst :: int

definition isleap :: "int \<Rightarrow> bool" where
  "isleap y \<longleftrightarrow> y smod 4 = 0 \<and> (y smod 100 \<noteq> 0 \<or> y smod 400 = 0)"

definition year_lengths :: "int \<Rightarrow> int" where
  "year_lengths y = (if isleap y then 366 else 365)"

definition mon_lengths :: "int \<Rightarrow> int list" where
  "mon_lengths y = [31, if isleap y then 29 else 28, 31, 30, 31, 30, 31, 31, 30, 31, 30, 31]"

text \<open>The overflow is that of an \<^verbatim>\<open>int\<close>, although the number has 64 bits. \<open>None\<close> is the answer true.\<close>

definition increment_overflow :: "int \<Rightarrow> int \<Rightarrow> int option" where
  "increment_overflow i j =
     (if (if i \<ge> 0 then j > 2147483647 - i else j < -2147483648 - i) then None else Some (i + j))"

definition increment_overflow32 :: "int \<Rightarrow> int \<Rightarrow> int option" where
  "increment_overflow32 l m =
     (if (if l \<ge> 0 then m > (2 ^ 63 - 1) - l else m < -(2 ^ 63) - l) then None else Some (l + m))"

definition normalize_overflow :: "int \<Rightarrow> int \<Rightarrow> int \<Rightarrow> (int \<times> int) option" where
  "normalize_overflow tens units base =
     (let tensdelta = (if units \<ge> 0 then units sdiv base else -1 - (-1 - units) sdiv base)
      in map_option (\<lambda>tens. (tens, units - tensdelta * base)) (increment_overflow tens tensdelta))"

definition normalize_overflow32 :: "int \<Rightarrow> int \<Rightarrow> int \<Rightarrow> (int \<times> int) option" where
  "normalize_overflow32 tens units base =
     (let tensdelta = (if units \<ge> 0 then units sdiv base else -1 - (-1 - units) sdiv base)
      in map_option (\<lambda>tens. (tens, units - tensdelta * base)) (increment_overflow32 tens tensdelta))"

function leaps_thru_end_of :: "int \<Rightarrow> int" where
  "leaps_thru_end_of y =
     (if y \<ge> 0 then y sdiv 4 - y sdiv 100 + y sdiv 400 else - (leaps_thru_end_of (- (y + 1)) + 1))"
  by pat_completeness auto
termination
  by (relation "measure (\<lambda>y. if y \<ge> 0 then 0 else 1)") auto

declare leaps_thru_end_of.simps [simp del]

subsection \<open>Days of the years\<close>

lemma sdiv_nonneg: "0 \<le> a \<Longrightarrow> 0 < b \<Longrightarrow> a sdiv b = a div b" for a b :: int
  by (simp add: signed_divide_int_def sgn_if)

lemma smod_dvd: "0 < b \<Longrightarrow> y smod b = 0 \<longleftrightarrow> b dvd y" for y b :: int
proof -
  assume b: "0 < b"
  have "y smod b = sgn y * (\<bar>y\<bar> mod b)" using b by (simp add: signed_modulo_int_def)
  then have "y smod b = 0 \<longleftrightarrow> y = 0 \<or> \<bar>y\<bar> mod b = 0" by (simp add: sgn_0_0)
  then show ?thesis by (auto simp flip: dvd_eq_mod_eq_0)
qed

lemma leaps_eq: "leaps_thru_end_of y = y div 4 - y div 100 + y div 400"
proof -
  have nonneg: "leaps_thru_end_of y = y div 4 - y div 100 + y div 400" if "0 \<le> y" for y
    using that by (simp add: leaps_thru_end_of.simps sdiv_nonneg)
  have neg: "(- (y + 1)) div k = - (y div k) - 1" if k: "0 < k" for k :: int
  proof (rule int_div_pos_eq [where r = "k - 1 - y mod k"])
    show "- (y + 1) = k * (- (y div k) - 1) + (k - 1 - y mod k)"
      using mult_div_mod_eq [of k y] by (simp add: algebra_simps)
    show "0 \<le> k - 1 - y mod k" using pos_mod_bound [OF k, of y] by linarith
    show "k - 1 - y mod k < k" using pos_mod_sign [OF k, of y] by linarith
  qed
  show ?thesis
  proof (cases "0 \<le> y")
    case False
    then have "leaps_thru_end_of y = - (leaps_thru_end_of (- (y + 1)) + 1)" by (subst leaps_thru_end_of.simps) simp
    also have "\<dots> = y div 4 - y div 100 + y div 400" using False neg [of 4] neg [of 100] neg [of 400] by (simp add: nonneg)
    finally show ?thesis .
  qed (rule nonneg)
qed

text \<open>The days from the start of the year 0 (of the calendar extended backwards) to that of the year \<open>y\<close>.\<close>

definition year_start :: "int \<Rightarrow> int" where
  "year_start y = 365 * y + (y - 1) div 4 - (y - 1) div 100 + (y - 1) div 400"

lemma leap_iff: "isleap y \<longleftrightarrow> 4 dvd y \<and> (\<not> 100 dvd y \<or> 400 dvd y)"
  by (simp add: isleap_def smod_dvd)

lemma div_step: "0 < k \<Longrightarrow> y div k - (y - 1) div k = (if k dvd y then 1 else 0)" for y k :: int
proof -
  assume k: "0 < k"
  show ?thesis
  proof (cases "k dvd y")
    case True
    then obtain q where q: "y = k * q" by (rule dvdE)
    have "(y - 1) div k = q - 1" by (rule int_div_pos_eq [where r = "k - 1"]) (use k in \<open>simp_all add: q algebra_simps\<close>)
    then show ?thesis using True q k by simp
  next
    case False
    then have "y mod k \<noteq> 0" by (simp add: dvd_eq_mod_eq_0)
    then have m: "0 < y mod k" "y mod k < k" using pos_mod_sign [OF k, of y] pos_mod_bound [OF k, of y] by linarith+
    have "(y - 1) div k = y div k"
      by (rule int_div_pos_eq [where r = "y mod k - 1"]) (use m mult_div_mod_eq [of k y] in linarith)+
    then show ?thesis using False by simp
  qed
qed

lemma year_start_next: "year_start (y + 1) = year_start y + year_lengths y"
proof -
  have d: "400 dvd y \<Longrightarrow> 100 dvd y" "100 dvd y \<Longrightarrow> 4 dvd y" by (auto intro: dvd_trans [of _ 400] dvd_trans [of _ 100])
  have "year_start (y + 1) - year_start y = 365 + (y div 4 - (y - 1) div 4) - (y div 100 - (y - 1) div 100) + (y div 400 - (y - 1) div 400)"
    by (simp add: year_start_def)
  also have "\<dots> = 365 + (if 4 dvd y then 1 else 0) - (if 100 dvd y then 1 else 0) + (if 400 dvd y then 1 else 0)"
    by (simp only: div_step zero_less_numeral)
  also have "\<dots> = year_lengths y"
    unfolding year_lengths_def leap_iff using d by (cases "400 dvd y"; cases "100 dvd y"; cases "4 dvd y") simp_all
  finally show ?thesis by simp
qed

lemma year_lengths_range: "year_lengths y = 365 \<or> year_lengths y = 366"
  by (simp add: year_lengths_def)

lemma year_start_grows:
  fixes n :: nat
  shows "year_start y + 365 * int n \<le> year_start (y + int n) \<and> year_start (y + int n) \<le> year_start y + 366 * int n"
proof (induction n)
  case (Suc n)
  have "year_start (y + int (Suc n)) = year_start (y + int n) + year_lengths (y + int n)"
    using year_start_next [of "y + int n"] by (simp add: ac_simps)
  then show ?case using Suc year_lengths_range [of "y + int n"] by auto
qed simp

lemma year_start_between:
  assumes "y \<le> z"
  shows "365 * (z - y) \<le> year_start z - year_start y" "year_start z - year_start y \<le> 366 * (z - y)"
  using year_start_grows [of y "nat (z - y)"] assms by auto

text \<open>What the loop of \<^verbatim>\<open>timesub\<close> takes off the days is the days between the years.\<close>

lemma year_change:
  "(newy - y) * 365 + (leaps_thru_end_of (newy - 1) - leaps_thru_end_of (y - 1)) = year_start newy - year_start y"
  by (simp add: leaps_eq year_start_def algebra_simps)

subsection \<open>Breaking down the seconds\<close>

text \<open>The code loops until the days lie in the year; the jumps are estimates by the length of a leap year.\<close>

function year_loop :: "int \<Rightarrow> int \<Rightarrow> (int \<times> int) option" where
  "year_loop y tdays =
     (if tdays < 0 \<or> tdays \<ge> year_lengths y then
        let tdelta = tdays sdiv 366;
            idelta = (if tdelta = 0 then (if tdays < 0 then -1 else 1) else tdelta)
        in (case increment_overflow y idelta of
              None \<Rightarrow> None
            | Some newy \<Rightarrow>
                let leapdays = leaps_thru_end_of (newy - 1) - leaps_thru_end_of (y - 1)
                in year_loop newy (tdays - (newy - y) * 365 - leapdays))
      else Some (y, tdays))"
  by pat_completeness auto

lemma year_jump:
  assumes "tdays < 0 \<or> year_lengths y \<le> tdays" and i: "i = (if tdays sdiv 366 = 0 then (if tdays < 0 then -1 else 1) else tdays sdiv 366)"
  defines "rest \<equiv> tdays - (year_start (y + i) - year_start y)"
  shows "if tdays < 0 then (tdays < rest \<and> rest \<le> 0) \<or> (0 \<le> rest \<and> rest < year_lengths (y + i)) else 0 \<le> rest \<and> rest < tdays"
proof (cases "tdays < 0")
  case True
  let ?n = "(- tdays) div 366"
  have q: "tdays sdiv 366 = - ?n" using True by (simp add: signed_divide_int_def sgn_if)
  show ?thesis
  proof (cases "?n = 0")
    case True
    then have "i = -1" "- tdays < 366" using i q \<open>tdays < 0\<close> by auto
    moreover have "year_start y - year_start (y - 1) = year_lengths (y - 1)" using year_start_next [of "y - 1"] by simp
    ultimately show ?thesis using \<open>tdays < 0\<close> year_lengths_range [of "y - 1"] by (auto simp: rest_def)
  next
    case False
    then have n: "0 < ?n" "i = - ?n" using \<open>tdays < 0\<close> i q by (auto simp: order_less_le pos_imp_zdiv_nonneg_iff)
    then have "365 * ?n \<le> year_start y - year_start (y + i)" "year_start y - year_start (y + i) \<le> 366 * ?n"
      using year_start_between [of "y + i" y] by simp_all
    moreover have "366 * ?n \<le> - tdays" by (metis mult.commute minus_mult_div_eq_mod diff_ge_0_iff_ge pos_mod_sign zero_less_numeral)
    ultimately show ?thesis using \<open>tdays < 0\<close> n(1) by (auto simp: rest_def)
  qed
next
  case False
  let ?n = "tdays div 366"
  have q: "tdays sdiv 366 = ?n" using False by (simp add: sdiv_nonneg)
  have t: "year_lengths y \<le> tdays" using assms(1) False by simp
  show ?thesis
  proof (cases "?n = 0")
    case True
    then have "i = 1" "tdays < 366" using i q False by auto
    moreover have "year_start (y + 1) - year_start y = year_lengths y" using year_start_next [of y] by simp
    ultimately show ?thesis using False t year_lengths_range [of y] by (auto simp: rest_def)
  next
    case nz: False
    then have n: "0 < ?n" "i = ?n" using False i q by (auto simp: order_less_le pos_imp_zdiv_nonneg_iff)
    then have "365 * ?n \<le> year_start (y + i) - year_start y" "year_start (y + i) - year_start y \<le> 366 * ?n"
      using year_start_between [of y "y + i"] by simp_all
    moreover have "366 * ?n \<le> tdays" by (metis mult.commute minus_mult_div_eq_mod diff_ge_0_iff_ge pos_mod_sign zero_less_numeral)
    ultimately show ?thesis using False n(1) by (auto simp: rest_def)
  qed
qed

termination year_loop
proof (relation "measure (\<lambda>(y, tdays). nat (if tdays < 0 then 1000 - tdays else tdays))")
  fix y tdays x i newy l
  assume a: "tdays < 0 \<or> year_lengths y \<le> tdays" "x = tdays sdiv 366" "i = (if x = 0 then if tdays < 0 then - 1 else 1 else x)"
    "increment_overflow y i = Some newy" "l = leaps_thru_end_of (newy - 1) - leaps_thru_end_of (y - 1)"
  have n: "newy = y + i" using a(4) by (simp add: increment_overflow_def split: if_splits)
  have r: "tdays - (newy - y) * 365 - l = tdays - (year_start (y + i) - year_start y)" using year_change [of newy y] a(5) n by simp
  have i: "i = (if tdays sdiv 366 = 0 then (if tdays < 0 then -1 else 1) else tdays sdiv 366)" using a(2,3) by simp
  note j = year_jump [OF a(1) i, folded r]
  define r1 where "r1 = tdays - (newy - y) * 365 - l"
  have "nat (if r1 < 0 then 1000 - r1 else r1) < nat (if tdays < 0 then 1000 - tdays else tdays)"
    using j [folded r1_def] a(1) year_lengths_range [of y] year_lengths_range [of "y + i"] by (auto split: if_split_asm)
  then have "((newy, r1), y, tdays) \<in> measure (\<lambda>(y, tdays). nat (if tdays < 0 then 1000 - tdays else tdays))"
    by (simp only: in_measure prod.case)
  then show "((newy, tdays - (newy - y) * 365 - l), y, tdays) \<in> measure (\<lambda>(y, tdays). nat (if tdays < 0 then 1000 - tdays else tdays))"
    unfolding r1_def .
qed simp

declare year_loop.simps [simp del]

function rem_up :: "int \<Rightarrow> int \<Rightarrow> int \<times> int" where
  "rem_up rem idays = (if rem < 0 then rem_up (rem + 86400) (idays - 1) else (rem, idays))"
  by pat_completeness auto
termination by (relation "measure (\<lambda>(rem, idays). nat (- rem))") auto

function rem_down :: "int \<Rightarrow> int \<Rightarrow> int \<times> int" where
  "rem_down rem idays = (if rem \<ge> 86400 then rem_down (rem - 86400) (idays + 1) else (rem, idays))"
  by pat_completeness auto
termination by (relation "measure (\<lambda>(rem, idays). nat rem)") auto

function idays_up :: "int \<Rightarrow> int \<Rightarrow> (int \<times> int) option" where
  "idays_up y idays =
     (if idays < 0 then
        (case increment_overflow y (-1) of None \<Rightarrow> None | Some y1 \<Rightarrow> idays_up y1 (idays + year_lengths y1))
      else Some (y, idays))"
  by pat_completeness auto
termination by (relation "measure (\<lambda>(y, idays). nat (- idays))") (auto simp: year_lengths_def)

function idays_down :: "int \<Rightarrow> int \<Rightarrow> (int \<times> int) option" where
  "idays_down y idays =
     (if idays \<ge> year_lengths y then
        (case increment_overflow y 1 of None \<Rightarrow> None | Some y1 \<Rightarrow> idays_down y1 (idays - year_lengths y))
      else Some (y, idays))"
  by pat_completeness auto
termination by (relation "measure (\<lambda>(y, idays). nat idays)") (auto simp: year_lengths_def split: if_splits)

declare rem_up.simps [simp del] rem_down.simps [simp del] idays_up.simps [simp del] idays_down.simps [simp del]

text \<open>The month; running off the table of lengths would be a read outside of it.\<close>

fun mon_loop :: "int list \<Rightarrow> int \<Rightarrow> int \<Rightarrow> (int \<times> int) option" where
  "mon_loop [] mon idays = None"
| "mon_loop (l # ls) mon idays = (if idays \<ge> l then mon_loop ls (mon + 1) (idays - l) else Some (mon, idays))"

text \<open>\<^verbatim>\<open>timesub\<close> for \<^verbatim>\<open>gmtsub\<close> and the offset zero; \<open>None\<close> is \<^verbatim>\<open>NULL\<close>.\<close>

definition gmtsub :: "int \<Rightarrow> bson_tm option" where
  "gmtsub t = do {
     let tdays = t sdiv 86400;
     let rem = t - tdays * 86400;
     (y, tdays) \<leftarrow> year_loop 1970 tdays;
     let seconds = tdays * 86400;
     let tdays = seconds sdiv 86400;
     let rem = rem + (seconds - tdays * 86400);
     let (rem, idays) = rem_up rem tdays;
     let (rem, idays) = rem_down rem idays;
     (y, idays) \<leftarrow> idays_up y idays;
     (y, idays) \<leftarrow> idays_down y idays;
     year \<leftarrow> increment_overflow y (-1900);
     let wday = (4 + ((y - 1970) smod 7) * (365 smod 7) + leaps_thru_end_of (y - 1) - leaps_thru_end_of (1970 - 1) + idays) smod 7;
     let wday = (if wday < 0 then wday + 7 else wday);
     (mon, mdays) \<leftarrow> mon_loop (mon_lengths y) 0 idays;
     Some \<lparr>tm_sec = rem smod 3600 smod 60, tm_min = rem smod 3600 sdiv 60, tm_hour = rem sdiv 3600, tm_mday = mdays + 1, tm_mon = mon,
       tm_year = year, tm_wday = wday, tm_yday = idays, tm_isdst = 0\<rparr> }"

subsection \<open>The broken-down date is the date\<close>

definition month_start :: "int \<Rightarrow> int \<Rightarrow> int" where
  "month_start y mon = sum_list (take (nat mon) (mon_lengths y))"

definition secs_of :: "bson_tm \<Rightarrow> int" where
  "secs_of tm = (((year_start (tm_year tm + 1900) - year_start 1970 + month_start (tm_year tm + 1900) (tm_mon tm) + tm_mday tm - 1) * 24 +
     tm_hour tm) * 60 + tm_min tm) * 60 + tm_sec tm"

text \<open>A date as the calendar has it.\<close>

definition normal :: "bson_tm \<Rightarrow> bool" where
  "normal tm \<longleftrightarrow> 0 \<le> tm_mon tm \<and> tm_mon tm < 12 \<and> 1 \<le> tm_mday tm \<and> tm_mday tm \<le> mon_lengths (tm_year tm + 1900) ! nat (tm_mon tm) \<and>
     0 \<le> tm_hour tm \<and> tm_hour tm < 24 \<and> 0 \<le> tm_min tm \<and> tm_min tm < 60 \<and> 0 \<le> tm_sec tm \<and> tm_sec tm < 60"

lemma increment_Some: "increment_overflow i j = Some k \<Longrightarrow> k = i + j"
  by (simp add: increment_overflow_def split: if_splits)

lemma increment_small: "\<bar>i\<bar> \<le> 2 ^ 30 \<Longrightarrow> \<bar>i + j\<bar> \<le> 2 ^ 31 - 1 \<Longrightarrow> increment_overflow i j = Some (i + j)"
  by (auto simp: increment_overflow_def abs_le_iff)

lemma year_loop_sound: "year_loop y d = Some (y1, d1) \<Longrightarrow> year_start y1 + d1 = year_start y + d \<and> 0 \<le> d1 \<and> d1 < year_lengths y1"
proof (induction y d rule: year_loop.induct)
  case (1 y d)
  show ?case
  proof (cases "d < 0 \<or> year_lengths y \<le> d")
    case True
    let ?i = "if d sdiv 366 = 0 then (if d < 0 then -1 else 1) else d sdiv 366"
    let ?l = "leaps_thru_end_of (y + ?i - 1) - leaps_thru_end_of (y - 1)"
    from True 1(2) obtain z where z: "increment_overflow y ?i = Some z"
      by (subst (asm) year_loop.simps) (auto simp: Let_def split: option.splits)
    then have zi: "z = y + ?i" by (rule increment_Some)
    have "year_loop z (d - (z - y) * 365 - ?l) = Some (y1, d1)"
      using 1(2) True z unfolding zi by (subst (asm) year_loop.simps) (simp add: Let_def)
    then have "year_start y1 + d1 = year_start z + (d - (z - y) * 365 - ?l) \<and> 0 \<le> d1 \<and> d1 < year_lengths y1"
      using 1(1) [OF True refl refl z refl] unfolding zi by simp
    then show ?thesis using year_change [of z y] unfolding zi by linarith
  next
    case False
    then show ?thesis using 1(2) by (auto simp: year_loop.simps)
  qed
qed

lemma rem_up_sound: "rem_up r d = (r1, d1) \<Longrightarrow> r1 + 86400 * d1 = r + 86400 * d \<and> 0 \<le> r1 \<and> (r < 86400 \<longrightarrow> r1 < 86400) \<and> d1 \<le> d"
proof (induction r d rule: rem_up.induct)
  case (1 r d)
  then show ?case by (cases "r < 0") (auto simp: rem_up.simps [of r d])
qed

lemma rem_down_sound: "rem_down r d = (r1, d1) \<Longrightarrow> 0 \<le> r \<Longrightarrow> r1 + 86400 * d1 = r + 86400 * d \<and> 0 \<le> r1 \<and> r1 < 86400"
proof (induction r d rule: rem_down.induct)
  case (1 r d)
  then show ?case by (cases "r \<ge> 86400") (auto simp: rem_down.simps [of r d])
qed

lemma idays_up_sound: "idays_up y d = Some (y1, d1) \<Longrightarrow> year_start y1 + d1 = year_start y + d \<and> 0 \<le> d1"
proof (induction y d rule: idays_up.induct)
  case (1 y d)
  show ?case
  proof (cases "d < 0")
    case True
    with 1(2) obtain z where z: "increment_overflow y (-1) = Some z" "idays_up z (d + year_lengths z) = Some (y1, d1)"
      by (auto simp: idays_up.simps [of y d] split: option.splits)
    then have "z = y - 1" using increment_Some by force
    then show ?thesis using 1(1) [OF True z] year_start_next [of z] by simp
  qed (use 1(2) in \<open>simp add: idays_up.simps\<close>)
qed

lemma idays_down_sound: "idays_down y d = Some (y1, d1) \<Longrightarrow> 0 \<le> d \<Longrightarrow> year_start y1 + d1 = year_start y + d \<and> 0 \<le> d1 \<and> d1 < year_lengths y1"
proof (induction y d rule: idays_down.induct)
  case (1 y d)
  show ?case
  proof (cases "d \<ge> year_lengths y")
    case True
    with 1(2) obtain z where z: "increment_overflow y 1 = Some z" "idays_down z (d - year_lengths y) = Some (y1, d1)"
      by (auto simp: idays_down.simps [of y d] split: option.splits)
    then have "z = y + 1" using increment_Some by force
    then show ?thesis using 1(1) [OF True z] year_start_next [of y] True by simp
  qed (use 1(2,3) in \<open>simp add: idays_down.simps\<close>)
qed

lemma mon_loop_sound:
  "mon_loop ls m d = Some (m1, d1) \<Longrightarrow> 0 \<le> d \<Longrightarrow>
   \<exists>k < length ls. m1 = m + int k \<and> sum_list (take k ls) + d1 = d \<and> 0 \<le> d1 \<and> d1 < ls ! k"
proof (induction ls m d rule: mon_loop.induct)
  case (2 l ls m d)
  show ?case
  proof (cases "d \<ge> l")
    case True
    obtain k where "k < length ls" "m1 = m + 1 + int k" "sum_list (take k ls) + d1 = d - l" "0 \<le> d1" "d1 < ls ! k"
      using 2 True by auto
    then show ?thesis by (intro exI [of _ "Suc k"]) simp
  next
    case False
    then show ?thesis using 2 by (intro exI [of _ 0]) simp
  qed
qed simp

lemma mon_loop_total: "0 \<le> d \<Longrightarrow> d < sum_list ls \<Longrightarrow> mon_loop ls m d \<noteq> None"
proof (induction ls m d rule: mon_loop.induct)
  case (2 l ls m d)
  then show ?case by (cases "d \<ge> l") auto
qed (simp add: mon_loop.simps)

lemma mon_lengths_sum: "sum_list (mon_lengths y) = year_lengths y" "length (mon_lengths y) = 12"
  by (simp_all add: mon_lengths_def year_lengths_def)

text \<open>The years the loop passes stay between the year of the date and the one it starts with.\<close>

lemma year_start_bounds: "0 \<le> z \<Longrightarrow> 365 * z \<le> year_start z + 1" "z \<le> 0 \<Longrightarrow> year_start z + 1 \<le> 365 * z"
  using year_start_between(1) [of 0 z] year_start_between(1) [of z 0] by (auto simp: year_start_def)

lemma year_bound:
  assumes "\<bar>N\<bar> \<le> 365 * 2 ^ 30 - 800" "\<bar>y\<bar> \<le> 2 ^ 30" "year_start z + r = N" "(z < y \<and> r \<le> 366) \<or> (y < z \<and> 0 \<le> r)"
  shows "\<bar>z\<bar> \<le> 2 ^ 30"
proof (cases "0 \<le> z")
  case True
  then show ?thesis using year_start_bounds(1) [OF True] assms by auto
next
  case False
  then have "year_start z + 1 \<le> 365 * z" by (intro year_start_bounds(2)) simp
  then show ?thesis using False assms by auto
qed

lemma year_loop_total:
  "\<bar>year_start y + d\<bar> \<le> 365 * 2 ^ 30 - 800 \<Longrightarrow> \<bar>y\<bar> \<le> 2 ^ 30 \<Longrightarrow> year_loop y d \<noteq> None"
proof (induction y d rule: year_loop.induct)
  case (1 y d)
  show ?case
  proof (cases "d < 0 \<or> year_lengths y \<le> d")
    case True
    let ?i = "if d sdiv 366 = 0 then (if d < 0 then -1 else 1) else d sdiv 366"
    let ?l = "leaps_thru_end_of (y + ?i - 1) - leaps_thru_end_of (y - 1)"
    define r where "r = d - (year_start (y + ?i) - year_start y)"
    have r: "year_start (y + ?i) + r = year_start y + d" by (simp add: r_def)
    have j: "if d < 0 then (d < r \<and> r \<le> 0) \<or> (0 \<le> r \<and> r < year_lengths (y + ?i)) else 0 \<le> r \<and> r < d"
      unfolding r_def by (rule year_jump [OF True refl])
    have i: "if d < 0 then ?i < 0 else 0 < ?i"
      by (auto simp: signed_divide_int_def sgn_if order_less_le pos_imp_zdiv_nonneg_iff)
    have "(y + ?i < y \<and> r \<le> 366) \<or> (y < y + ?i \<and> 0 \<le> r)"
      using i j year_lengths_range [of "y + ?i"] by (cases "d < 0") auto
    then have B: "\<bar>y + ?i\<bar> \<le> 2 ^ 30" by (rule year_bound [OF 1(2,3) r])
    then have z: "increment_overflow y ?i = Some (y + ?i)" using 1(3) B by (intro increment_small) auto
    have e: "d - (y + ?i - y) * 365 - ?l = r" using year_change [of "y + ?i" y] by (simp add: r_def)
    have "year_loop (y + ?i) (d - (y + ?i - y) * 365 - ?l) \<noteq> None"
      by (rule 1(1) [OF True refl refl z refl]) (use 1(2) r B in \<open>simp_all only: e\<close>)
    then show ?thesis using True z by (subst year_loop.simps) (simp add: Let_def)
  next
    case False
    then show ?thesis by (auto simp: year_loop.simps)
  qed
qed

lemma trunc_rest: "\<bar>t - (t sdiv 86400) * 86400\<bar> < 86400" "\<bar>t sdiv 86400\<bar> \<le> \<bar>t\<bar> div 86400" for t :: int
proof -
  have m: "\<bar>t\<bar> - (\<bar>t\<bar> div 86400) * 86400 = \<bar>t\<bar> mod 86400" by (simp add: minus_div_mult_eq_mod)
  have d: "t sdiv 86400 = sgn t * (\<bar>t\<bar> div 86400)" by (simp add: signed_divide_int_def)
  have "t - (t sdiv 86400) * 86400 = sgn t * (\<bar>t\<bar> mod 86400)"
  proof -
    have "t = sgn t * \<bar>t\<bar>" by (simp add: sgn_mult_abs)
    then have "t - (t sdiv 86400) * 86400 = sgn t * (\<bar>t\<bar> - (\<bar>t\<bar> div 86400) * 86400)" by (simp add: d algebra_simps)
    then show ?thesis unfolding m .
  qed
  then show "\<bar>t - (t sdiv 86400) * 86400\<bar> < 86400" by (simp add: abs_mult sgn_if)
  show "\<bar>t sdiv 86400\<bar> \<le> \<bar>t\<bar> div 86400" unfolding d by (simp add: abs_mult sgn_if)
qed

lemma clock_parts:
  fixes r :: int
  assumes "0 \<le> r" "r < 86400"
  shows "0 \<le> r sdiv 3600" "r sdiv 3600 < 24" "0 \<le> r smod 3600 sdiv 60" "r smod 3600 sdiv 60 < 60"
    "0 \<le> r smod 3600 smod 60" "r smod 3600 smod 60 < 60"
    "(r sdiv 3600 * 60 + r smod 3600 sdiv 60) * 60 + r smod 3600 smod 60 = r"
proof -
  have sm: "a smod b = a mod b" if "0 \<le> a" "0 < b" for a b :: int using that by (simp add: signed_modulo_int_def sgn_if)
  have m: "0 \<le> r mod 3600" "r mod 3600 < 3600" by simp_all
  have e: "r sdiv 3600 = r div 3600" "r smod 3600 = r mod 3600" "r mod 3600 sdiv 60 = r mod 3600 div 60" "r mod 3600 smod 60 = r mod 3600 mod 60"
    using assms(1) m by (simp_all add: sdiv_nonneg sm)
  show "0 \<le> r sdiv 3600" "r sdiv 3600 < 24" "0 \<le> r smod 3600 sdiv 60" "r smod 3600 sdiv 60 < 60"
    "0 \<le> r smod 3600 smod 60" "r smod 3600 smod 60 < 60" unfolding e using assms m
    by (simp_all add: pos_imp_zdiv_nonneg_iff div_less_iff_less_mult)
  show "(r sdiv 3600 * 60 + r smod 3600 sdiv 60) * 60 + r smod 3600 smod 60 = r" unfolding e by presburger
qed

text \<open>What \<open>gmtsub\<close> passes on its way: the year with the day in it, and the seconds of the day.\<close>

lemma gmtsubE:
  assumes "gmtsub t = Some tm"
  obtains y d r mon mday where "year_start y + d - year_start 1970 = (t - r) div 86400" "86400 dvd (t - r)" "0 \<le> r" "r < 86400"
    "0 \<le> d" "d < year_lengths y" "mon_loop (mon_lengths y) 0 d = Some (mon, mday)" "tm_year tm = y - 1900" "tm_mon tm = mon"
    "tm_mday tm = mday + 1" "tm_hour tm = r sdiv 3600" "tm_min tm = r smod 3600 sdiv 60" "tm_sec tm = r smod 3600 smod 60" "tm_isdst tm = 0"
proof -
  let ?d0 = "t sdiv 86400" and ?r0 = "t - t sdiv 86400 * 86400"
  obtain y1 d1 where 1: "year_loop 1970 ?d0 = Some (y1, d1)" using assms by (auto simp: gmtsub_def Let_def bind_Some_iff)
  have d1: "d * 86400 sdiv 86400 = d" for d :: int by (simp add: signed_divide_int_def sgn_mult abs_mult sgn_mult_abs)
  obtain r2 d2 where 2: "rem_up ?r0 d1 = (r2, d2)" by (cases "rem_up ?r0 d1")
  obtain r3 d3 where 3: "rem_down r2 d2 = (r3, d3)" by (cases "rem_down r2 d2")
  obtain y4 d4 y5 d5 year mon mday where
    4: "idays_up y1 d3 = Some (y4, d4)" "idays_down y4 d4 = Some (y5, d5)" "increment_overflow y5 (-1900) = Some year"
      "mon_loop (mon_lengths y5) 0 d5 = Some (mon, mday)"
    and tm: "tm_year tm = year" "tm_mon tm = mon" "tm_mday tm = mday + 1" "tm_hour tm = r3 sdiv 3600" "tm_min tm = r3 smod 3600 sdiv 60"
      "tm_sec tm = r3 smod 3600 smod 60" "tm_isdst tm = 0"
    using assms 1 2 3 by (auto simp: gmtsub_def Let_def bind_Some_iff d1 split: prod.splits)
  note s1 = year_loop_sound [OF 1] and s2 = rem_up_sound [OF 2]
  have s3: "r3 + 86400 * d3 = r2 + 86400 * d2 \<and> 0 \<le> r3 \<and> r3 < 86400" by (rule rem_down_sound [OF 3]) (use s2 in simp)
  note s4 = idays_up_sound [OF 4(1)]
  have s5: "year_start y5 + d5 = year_start y4 + d4 \<and> 0 \<le> d5 \<and> d5 < year_lengths y5" by (rule idays_down_sound [OF 4(2)]) (use s4 in simp)
  have e: "t - r3 = 86400 * (year_start y5 + d5 - year_start 1970)" using s1 s2 s3 s4 s5 by (simp add: algebra_simps)
  show ?thesis
    by (rule that [of y5 d5 r3 mon mday]) (use s3 s5 4 tm e increment_Some [OF 4(3)] in simp_all)
qed

lemma gmtsub_sound:
  assumes "gmtsub t = Some tm"
  shows "normal tm \<and> secs_of tm = t \<and> tm_isdst tm = 0"
  using assms
proof (rule gmtsubE)
  fix y d r mon mday
  assume a: "year_start y + d - year_start 1970 = (t - r) div 86400" "86400 dvd (t - r)" "0 \<le> r" "r < 86400"
    "0 \<le> d" "d < year_lengths y" "mon_loop (mon_lengths y) 0 d = Some (mon, mday)" "tm_year tm = y - 1900" "tm_mon tm = mon"
    "tm_mday tm = mday + 1" "tm_hour tm = r sdiv 3600" "tm_min tm = r smod 3600 sdiv 60" "tm_sec tm = r smod 3600 smod 60" "tm_isdst tm = 0"
  obtain k where k: "k < 12" "mon = int k" "sum_list (take k (mon_lengths y)) + mday = d" "0 \<le> mday" "mday < mon_lengths y ! k"
    using mon_loop_sound [OF a(7,5)] mon_lengths_sum(2) by auto
  note c = clock_parts [OF a(3,4)]
  have "normal tm" using k c a by (simp add: normal_def)
  moreover have "secs_of tm = t"
  proof -
    have "(year_start y + d - year_start 1970) * 86400 = t - r" using a(1,2) by simp
    moreover have "secs_of tm = (year_start y + d - year_start 1970) * 86400 + ((r sdiv 3600 * 60 + r smod 3600 sdiv 60) * 60 + r smod 3600 smod 60)"
      using k(2,3) a by (simp add: secs_of_def month_start_def algebra_simps)
    ultimately show ?thesis unfolding c(7) by simp
  qed
  ultimately show ?thesis using a(14) by simp
qed

lemma gmtsub_total:
  assumes "\<bar>t\<bar> < 2 ^ 50"
  shows "gmtsub t \<noteq> None"
proof -
  let ?d0 = "t sdiv 86400" and ?r0 = "t - t sdiv 86400 * 86400"
  have "\<bar>t\<bar> div 86400 \<le> 2 ^ 50 div 86400" by (rule zdiv_mono1) (use assms in simp_all)
  then have "\<bar>?d0\<bar> \<le> 2 ^ 34" using trunc_rest(2) [of t] by simp
  moreover have y0: "year_start 1970 = 719527" by (simp add: year_start_def)
  ultimately have b: "\<bar>year_start 1970 + ?d0\<bar> \<le> 365 * 2 ^ 30 - 800" by simp
  then obtain y1 d1 where 1: "year_loop 1970 ?d0 = Some (y1, d1)" using year_loop_total [of 1970 ?d0] by auto
  have s1: "year_start y1 + d1 = year_start 1970 + ?d0" "0 \<le> d1" "d1 < year_lengths y1" using year_loop_sound [OF 1] by simp_all
  have y1: "\<bar>y1\<bar> \<le> 2 ^ 30 - 2"
  proof (cases "0 \<le> y1")
    case True
    then show ?thesis using year_start_bounds(1) [OF True] b s1 \<open>\<bar>?d0\<bar> \<le> 2 ^ 34\<close> y0 by auto
  next
    case False
    then have "year_start y1 + 1 \<le> 365 * y1" by (intro year_start_bounds(2)) simp
    then show ?thesis using False s1 year_lengths_range [of y1] \<open>\<bar>?d0\<bar> \<le> 2 ^ 34\<close> y0 by auto
  qed
  have d1e: "d * 86400 sdiv 86400 = d" for d :: int by (simp add: signed_divide_int_def sgn_mult abs_mult sgn_mult_abs)
  obtain r2 d2 where 2: "rem_up ?r0 d1 = (r2, d2)" by (cases "rem_up ?r0 d1")
  have s2: "r2 + 86400 * d2 = ?r0 + 86400 * d1" "0 \<le> r2" "r2 < 86400" "d2 \<le> d1"
    using rem_up_sound [OF 2] trunc_rest(1) [of t] by auto
  have d2: "-1 \<le> d2" using s2 s1(2) trunc_rest(1) [of t] by linarith
  have 3: "rem_down r2 d2 = (r2, d2)" using s2(3) by (simp add: rem_down.simps)
  obtain y4 d4 where 4: "idays_up y1 d2 = Some (y4, d4)" "\<bar>y4\<bar> \<le> 2 ^ 30 - 1" "0 \<le> d4" "d4 < year_lengths y4"
  proof (cases "d2 < 0")
    case True
    then have "d2 = -1" using d2 by simp
    moreover have "increment_overflow y1 (-1) = Some (y1 + -1)" using y1 by (intro increment_small) auto
    moreover have "0 \<le> -1 + year_lengths (y1 - 1)" using year_lengths_range [of "y1 - 1"] by auto
    ultimately have "idays_up y1 d2 = Some (y1 - 1, year_lengths (y1 - 1) - 1)" by (simp add: idays_up.simps)
    then show ?thesis by (rule that) (use y1 year_lengths_range [of "y1 - 1"] in auto)
  next
    case False
    then have "idays_up y1 d2 = Some (y1, d2)" by (simp add: idays_up.simps)
    then show ?thesis by (rule that) (use y1 s1 s2(4) False in auto)
  qed
  have 5: "idays_down y4 d4 = Some (y4, d4)" using 4(4) by (simp add: idays_down.simps)
  have 6: "increment_overflow y4 (-1900) = Some (y4 + -1900)" using 4(2) by (intro increment_small) auto
  obtain m where 7: "mon_loop (mon_lengths y4) 0 d4 = Some m"
    using mon_loop_total [OF 4(3), of "mon_lengths y4" 0] 4(4) mon_lengths_sum(1) by auto
  show ?thesis using 1 2 3 4(1) 5 6 7 by (simp add: gmtsub_def Let_def d1e split: prod.split)
qed

subsection \<open>The order of the dates\<close>

definition tmcomp :: "bson_tm \<Rightarrow> bson_tm \<Rightarrow> int" where
  "tmcomp a b =
     (if tm_year a \<noteq> tm_year b then (if tm_year a < tm_year b then -1 else 1)
      else let result = tm_mon a - tm_mon b in if result \<noteq> 0 then result
      else let result = tm_mday a - tm_mday b in if result \<noteq> 0 then result
      else let result = tm_hour a - tm_hour b in if result \<noteq> 0 then result
      else let result = tm_min a - tm_min b in if result \<noteq> 0 then result
      else tm_sec a - tm_sec b)"

lemma month_start_next: "0 \<le> m \<Longrightarrow> m < 12 \<Longrightarrow> month_start y (m + 1) = month_start y m + mon_lengths y ! nat m"
proof -
  assume m: "0 \<le> m" "m < 12"
  then have "nat (m + 1) = Suc (nat m)" "nat m < length (mon_lengths y)" by (simp_all add: mon_lengths_def)
  then show ?thesis by (simp add: month_start_def take_Suc_conv_app_nth)
qed

lemma mon_lengths_pos: "0 \<le> m \<Longrightarrow> m < 12 \<Longrightarrow> 28 \<le> mon_lengths y ! nat m"
proof -
  assume "0 \<le> m" "m < 12"
  then have "mon_lengths y ! nat m \<in> set (mon_lengths y)" by (intro nth_mem) (simp add: mon_lengths_def)
  then show ?thesis by (auto simp: mon_lengths_def split: if_splits)
qed

lemma month_start_mono:
  fixes k :: nat
  shows "0 \<le> m \<Longrightarrow> m + int k \<le> 12 \<Longrightarrow> month_start y m + 28 * int k \<le> month_start y (m + int k)"
proof (induction k)
  case (Suc k)
  then show ?case using month_start_next [of "m + int k" y] mon_lengths_pos [of "m + int k" y] by (simp add: ac_simps)
qed simp

text \<open>Where a date of the calendar lies: in its year, in its month, in its day, in its hour, in its minute.\<close>

definition day_of :: "bson_tm \<Rightarrow> int" where
  "day_of tm = year_start (tm_year tm + 1900) + month_start (tm_year tm + 1900) (tm_mon tm) + tm_mday tm - 1"

lemma secs_of_day: "secs_of tm = (((day_of tm - year_start 1970) * 24 + tm_hour tm) * 60 + tm_min tm) * 60 + tm_sec tm"
  by (simp add: secs_of_def day_of_def algebra_simps)

lemma day_in_year:
  assumes "normal tm"
  shows "year_start (tm_year tm + 1900) \<le> day_of tm" "day_of tm < year_start (tm_year tm + 1901)"
proof -
  let ?y = "tm_year tm + 1900" and ?m = "tm_mon tm"
  have m: "0 \<le> ?m" "?m < 12" "1 \<le> tm_mday tm" "tm_mday tm \<le> mon_lengths ?y ! nat ?m" using assms by (simp_all add: normal_def)
  have "month_start ?y 0 + 28 * int (nat ?m) \<le> month_start ?y (0 + int (nat ?m))" by (rule month_start_mono) (use m in simp_all)
  then have "0 \<le> month_start ?y ?m" using m(1) by (simp add: month_start_def)
  then show "year_start ?y \<le> day_of tm" using m(3) by (simp add: day_of_def)
  have "month_start ?y (?m + 1) + 28 * int (nat (11 - ?m)) \<le> month_start ?y ((?m + 1) + int (nat (11 - ?m)))"
    by (rule month_start_mono) (use m in simp_all)
  then have "month_start ?y (?m + 1) \<le> month_start ?y 12" using m(2) by simp
  also have "\<dots> = year_lengths ?y" using mon_lengths_sum by (simp add: month_start_def)
  finally have "month_start ?y ?m + tm_mday tm \<le> year_lengths ?y" using month_start_next [OF m(1,2), of ?y] m(4) by simp
  then show "day_of tm < year_start (tm_year tm + 1901)" using year_start_next [of ?y] by (simp add: day_of_def add.assoc)
qed

lemma day_less:
  assumes "normal a" "normal b" "tm_year a < tm_year b \<or> (tm_year a = tm_year b \<and> (tm_mon a < tm_mon b \<or> (tm_mon a = tm_mon b \<and> tm_mday a < tm_mday b)))"
  shows "day_of a < day_of b"
proof -
  consider "tm_year a < tm_year b" | "tm_year a = tm_year b" "tm_mon a < tm_mon b" | "tm_year a = tm_year b" "tm_mon a = tm_mon b" "tm_mday a < tm_mday b"
    using assms(3) by blast
  then show ?thesis
  proof cases
    case 1
    have "year_start (tm_year a + 1901) \<le> year_start (tm_year b + 1900)" using year_start_between(1) [of "tm_year a + 1901" "tm_year b + 1900"] 1 by simp
    then show ?thesis using day_in_year [OF assms(1)] day_in_year [OF assms(2)] by simp
  next
    case 2
    let ?y = "tm_year a + 1900"
    have m: "0 \<le> tm_mon a" "tm_mon b < 12" "tm_mon a < 12" "tm_mday a \<le> mon_lengths ?y ! nat (tm_mon a)" "1 \<le> tm_mday b"
      using assms(1,2) 2 by (simp_all add: normal_def)
    have "month_start ?y (tm_mon a + 1) + 28 * int (nat (tm_mon b - tm_mon a - 1)) \<le> month_start ?y ((tm_mon a + 1) + int (nat (tm_mon b - tm_mon a - 1)))"
      by (rule month_start_mono) (use m 2 in simp_all)
    then have "month_start ?y (tm_mon a + 1) \<le> month_start ?y (tm_mon b)" using 2 by simp
    then show ?thesis using month_start_next [OF m(1,3), of ?y] m 2 by (simp add: day_of_def)
  next
    case 3
    then show ?thesis by (simp add: day_of_def)
  qed
qed

lemma mixed_less:
  fixes d d' h h' m m' s s' :: int
  assumes "0 \<le> h" "h < 24" "0 \<le> m" "m < 60" "0 \<le> s" "s < 60" "0 \<le> h'" "h' < 24" "0 \<le> m'" "m' < 60" "0 \<le> s'" "s' < 60"
  shows "d < d' \<Longrightarrow> ((d * 24 + h) * 60 + m) * 60 + s < ((d' * 24 + h') * 60 + m') * 60 + s'"
    "d = d' \<Longrightarrow> h < h' \<Longrightarrow> ((d * 24 + h) * 60 + m) * 60 + s < ((d' * 24 + h') * 60 + m') * 60 + s'"
    "d = d' \<Longrightarrow> h = h' \<Longrightarrow> m < m' \<Longrightarrow> ((d * 24 + h) * 60 + m) * 60 + s < ((d' * 24 + h') * 60 + m') * 60 + s'"
  using assms by simp_all

lemma secs_less:
  assumes "normal a" "normal b"
    and "day_of a < day_of b \<or> (day_of a = day_of b \<and> (tm_hour a < tm_hour b \<or> (tm_hour a = tm_hour b \<and>
      (tm_min a < tm_min b \<or> (tm_min a = tm_min b \<and> tm_sec a < tm_sec b)))))"
  shows "secs_of a < secs_of b"
proof -
  have n: "0 \<le> tm_hour a" "tm_hour a < 24" "0 \<le> tm_min a" "tm_min a < 60" "0 \<le> tm_sec a" "tm_sec a < 60"
    "0 \<le> tm_hour b" "tm_hour b < 24" "0 \<le> tm_min b" "tm_min b < 60" "0 \<le> tm_sec b" "tm_sec b < 60"
    using assms(1,2) by (simp_all add: normal_def)
  from assms(3) consider "day_of a < day_of b" | "day_of a = day_of b" "tm_hour a < tm_hour b" |
    "day_of a = day_of b" "tm_hour a = tm_hour b" "tm_min a < tm_min b" |
    "day_of a = day_of b" "tm_hour a = tm_hour b" "tm_min a = tm_min b" "tm_sec a < tm_sec b" by blast
  then show ?thesis unfolding secs_of_day
    by cases (rule mixed_less(1) [OF n], simp, rule mixed_less(2) [OF n], simp, simp, rule mixed_less(3) [OF n], simp_all)
qed

text \<open>The comparison of two dates has the sign of the difference of their seconds.\<close>

lemma tmcomp_cases:
  "tmcomp a b = 0 \<longleftrightarrow> tm_year a = tm_year b \<and> tm_mon a = tm_mon b \<and> tm_mday a = tm_mday b \<and> tm_hour a = tm_hour b \<and> tm_min a = tm_min b \<and> tm_sec a = tm_sec b"
  "tmcomp a b < 0 \<longleftrightarrow> tm_year a < tm_year b \<or> tm_year a = tm_year b \<and> (tm_mon a < tm_mon b \<or> tm_mon a = tm_mon b \<and> (tm_mday a < tm_mday b \<or>
     tm_mday a = tm_mday b \<and> (tm_hour a < tm_hour b \<or> tm_hour a = tm_hour b \<and> (tm_min a < tm_min b \<or> tm_min a = tm_min b \<and> tm_sec a < tm_sec b))))"
  by (auto simp: tmcomp_def Let_def)

lemma tmcomp_secs:
  assumes "normal a" "normal b"
  shows "tmcomp a b = 0 \<longleftrightarrow> secs_of a = secs_of b" "tmcomp a b < 0 \<longleftrightarrow> secs_of a < secs_of b"
proof -
  have less: "tmcomp x y < 0 \<Longrightarrow> secs_of x < secs_of y" if n: "normal x" "normal y" for x y
  proof -
    assume "tmcomp x y < 0"
    then consider "day_of x < day_of y" | "day_of x = day_of y" "tm_hour x < tm_hour y \<or> (tm_hour x = tm_hour y \<and>
        (tm_min x < tm_min y \<or> (tm_min x = tm_min y \<and> tm_sec x < tm_sec y)))"
      unfolding tmcomp_cases using day_less [OF n] by (auto simp: day_of_def)
    then show "secs_of x < secs_of y" using secs_less [OF n] by cases blast+
  qed
  have eq: "tmcomp a b = 0 \<Longrightarrow> secs_of a = secs_of b" by (simp add: tmcomp_cases(1) secs_of_def)
  have tri: "tmcomp a b = 0 \<or> tmcomp a b < 0 \<or> tmcomp b a < 0" unfolding tmcomp_cases by auto
  show "tmcomp a b = 0 \<longleftrightarrow> secs_of a = secs_of b" using eq tri less [OF assms] less [OF assms(2,1)] by (metis less_irrefl)
  show "tmcomp a b < 0 \<longleftrightarrow> secs_of a < secs_of b" using eq tri less [OF assms] less [OF assms(2,1)] by (metis less_asym less_irrefl)
qed

subsection \<open>Normalizing a date\<close>

function mday_low :: "int \<Rightarrow> int \<Rightarrow> int \<Rightarrow> (int \<times> int) option" where
  "mday_low y mon mday =
     (if mday \<le> 0 then
        (case increment_overflow32 y (-1) of
           None \<Rightarrow> None
         | Some y1 \<Rightarrow> mday_low y1 mon (mday + year_lengths (y1 + (if 1 < mon then 1 else 0))))
      else Some (y, mday))"
  by pat_completeness auto
termination by (relation "measure (\<lambda>(y, mon, mday). nat (1 - mday))") (auto simp: year_lengths_def)

function mday_high :: "int \<Rightarrow> int \<Rightarrow> int \<Rightarrow> (int \<times> int) option" where
  "mday_high y mon mday =
     (if mday > 366 then
        (case increment_overflow32 y 1 of
           None \<Rightarrow> None
         | Some y1 \<Rightarrow> mday_high y1 mon (mday - year_lengths (y + (if 1 < mon then 1 else 0))))
      else Some (y, mday))"
  by pat_completeness auto
termination by (relation "measure (\<lambda>(y, mon, mday). nat mday)") (auto simp: year_lengths_def)

text \<open>The loop over the months; a month outside of the table would be a read outside of it.\<close>

definition mon_length :: "int \<Rightarrow> int \<Rightarrow> int option" where
  "mon_length y mon = (if 0 \<le> mon \<and> mon < 12 then Some (mon_lengths y ! nat mon) else None)"

function mon_norm :: "int \<Rightarrow> int \<Rightarrow> int \<Rightarrow> (int \<times> int \<times> int) option" where
  "mon_norm y mon mday =
     (case mon_length y mon of
        None \<Rightarrow> None
      | Some i \<Rightarrow>
          if mday \<le> i then Some (y, mon, mday)
          else if mon + 1 \<ge> 12 then
            (case increment_overflow32 y 1 of None \<Rightarrow> None | Some y1 \<Rightarrow> mon_norm y1 0 (mday - i))
          else mon_norm y (mon + 1) (mday - i))"
  by pat_completeness auto
termination
proof (relation "measure (\<lambda>(y, mon, mday). nat mday)")
  have pos: "0 < i" if "mon_length y mon = Some i" for y mon i
    using that mon_lengths_pos [of mon y] by (auto simp: mon_length_def split: if_splits)
  show "\<And>y mon mday i y1. mon_length y mon = Some i \<Longrightarrow> \<not> mday \<le> i \<Longrightarrow> 12 \<le> mon + 1 \<Longrightarrow> increment_overflow32 y 1 = Some y1 \<Longrightarrow>
      ((y1, 0, mday - i), y, mon, mday) \<in> measure (\<lambda>(y, mon, mday). nat mday)" using pos by fastforce
  show "\<And>y mon mday i. mon_length y mon = Some i \<Longrightarrow> \<not> mday \<le> i \<Longrightarrow> \<not> 12 \<le> mon + 1 \<Longrightarrow>
      ((y, mon + 1, mday - i), y, mon, mday) \<in> measure (\<lambda>(y, mon, mday). nat mday)" using pos by fastforce
qed simp

declare mday_low.simps [simp del] mday_high.simps [simp del] mon_norm.simps [simp del]

definition normalize_date :: "bool \<Rightarrow> bson_tm \<Rightarrow> bson_tm option" where
  "normalize_date do_norm_secs tm = do {
     (mins, sec) \<leftarrow> (if do_norm_secs then normalize_overflow (tm_min tm) (tm_sec tm) 60 else Some (tm_min tm, tm_sec tm));
     (hour, mins) \<leftarrow> normalize_overflow (tm_hour tm) mins 60;
     (mday, hour) \<leftarrow> normalize_overflow (tm_mday tm) hour 24;
     (y, mon) \<leftarrow> normalize_overflow32 (tm_year tm) (tm_mon tm) 12;
     y \<leftarrow> increment_overflow32 y 1900;
     (y, mday) \<leftarrow> mday_low y mon mday;
     (y, mday) \<leftarrow> mday_high y mon mday;
     (y, mon, mday) \<leftarrow> mon_norm y mon mday;
     y \<leftarrow> increment_overflow32 y (-1900);
     Some (tm\<lparr>tm_sec := sec, tm_min := mins, tm_hour := hour, tm_mday := mday, tm_mon := mon, tm_year := y\<rparr>) }"

text \<open>Seconds outside of the minute are taken off and added to the result.\<close>

definition save_seconds :: "bson_tm \<Rightarrow> (bson_tm \<times> int) option" where
  "save_seconds tm =
     (if tm_sec tm \<ge> 0 \<and> tm_sec tm < 60 then Some (tm, 0)
      else if tm_year tm + 1900 < 1970 then do {
        sec \<leftarrow> increment_overflow (tm_sec tm) (1 - 60);
        Some (tm\<lparr>tm_sec := 60 - 1\<rparr>, sec) }
      else Some (tm\<lparr>tm_sec := 0\<rparr>, tm_sec tm))"

text \<open>The bisection, for the answers \<open>dirf t\<close> of the comparison; \<open>None\<close> is \<^verbatim>\<open>WRONG\<close>.\<close>

definition search_step :: "int \<Rightarrow> int \<Rightarrow> int \<Rightarrow> (int \<times> int \<times> int) option" where
  "search_step t lo hi =
     (if t = lo then (if t = 2 ^ 63 - 1 then None else Some (t + 1, lo + 1, hi))
      else if t = hi then (if t = -(2 ^ 63) then None else Some (t - 1, lo, hi - 1))
      else Some (t, lo, hi))"

function time_search :: "(int \<Rightarrow> int) \<Rightarrow> int \<Rightarrow> int \<Rightarrow> int option" where
  "time_search dirf lo hi =
     (let t = lo sdiv 2 + hi sdiv 2; t = (if t < lo then lo else if t > hi then hi else t); dir = dirf t
      in if dir \<noteq> 0 then
           (case search_step t lo hi of
              None \<Rightarrow> None
            | Some (t, lo, hi) \<Rightarrow>
                if lo > hi then None
                else if dir > 0 then time_search dirf lo t
                else time_search dirf t hi)
         else Some t)"
  by pat_completeness auto
termination
proof (relation "measure (\<lambda>(dirf, lo, hi). nat (hi - lo))")
  fix dirf :: "int \<Rightarrow> int" and lo hi x t dir y t1 z lo1 hi1
  assume a: "x = lo sdiv 2 + hi sdiv 2" "t = (if x < lo then lo else if hi < x then hi else x)" "search_step t lo hi = Some y"
    "(t1, z) = y" "(lo1, hi1) = z" "\<not> hi1 < lo1"
  then have "lo1 \<le> t1 \<and> t1 \<le> hi1 \<and> hi1 - t1 < hi - lo \<and> t1 - lo1 < hi - lo"
    by (auto simp: search_step_def split: if_splits)
  then show "((dirf, lo1, t1), dirf, lo, hi) \<in> measure (\<lambda>(dirf, lo, hi). nat (hi - lo))"
    "((dirf, t1, hi1), dirf, lo, hi) \<in> measure (\<lambda>(dirf, lo, hi). nat (hi - lo))" by auto
qed simp

declare time_search.simps [simp del]

definition time2sub :: "bool \<Rightarrow> bson_tm \<Rightarrow> int \<times> bool \<times> bson_tm" where
  "time2sub do_norm_secs tm =
     (case Option.bind (normalize_date do_norm_secs tm) save_seconds of
        None \<Rightarrow> (-1, False, tm)
      | Some (yourtm, saved_seconds) \<Rightarrow>
          (case time_search (\<lambda>t. case gmtsub t of None \<Rightarrow> if t > 0 then 1 else -1 | Some mytm \<Rightarrow> tmcomp mytm yourtm)
                  (-(2 ^ 63)) (2 ^ 63 - 1) of
             None \<Rightarrow> (-1, False, tm)
           | Some t \<Rightarrow>
               if \<not> (tm_isdst yourtm < 0 \<or> 0 = tm_isdst yourtm) then (-1, False, tm)
               else let newt = t + saved_seconds in
                 if newt > 2 ^ 63 - 1 \<or> newt < -(2 ^ 63) \<or> (newt < t) \<noteq> (saved_seconds < 0) then (-1, False, tm)
                 else (case gmtsub newt of None \<Rightarrow> (newt, False, tm) | Some tm \<Rightarrow> (newt, True, tm))))"

definition time2 :: "bson_tm \<Rightarrow> int \<times> bool \<times> bson_tm" where
  "time2 tm = (let (t, okay, tm1) = time2sub False tm in if okay then (t, okay, tm1) else time2sub True tm)"

definition time1 :: "bson_tm \<Rightarrow> int \<times> bson_tm" where
  "time1 tm =
     (let tm = (if tm_isdst tm > 1 then tm\<lparr>tm_isdst := 1\<rparr> else tm); (t, okay, tm1) = time2 tm
      in if okay then (t, tm1) else if tm_isdst tm1 < 0 then (t, tm1) else (-1, tm1))"

definition bson_timegm :: "bson_tm \<Rightarrow> int \<times> bson_tm" where
  "bson_timegm tm = time1 (tm\<lparr>tm_isdst := 0\<rparr>)"

subsection \<open>Normalizing keeps the date\<close>

lemma floor_delta: "0 < b \<Longrightarrow> (if u \<ge> 0 then u sdiv b else -1 - (-1 - u) sdiv b) = u div b" for u b :: int
proof (cases "0 \<le> u")
  case False
  assume b: "0 < b"
  have "(-1 - u) sdiv b = (-1 - u) div b" using False b by (intro sdiv_nonneg) simp_all
  also have "\<dots> = - (u div b) - 1"
  proof (rule int_div_pos_eq [where r = "b - 1 - u mod b"])
    show "- 1 - u = b * (- (u div b) - 1) + (b - 1 - u mod b)" using mult_div_mod_eq [of b u] by (simp add: algebra_simps)
    show "0 \<le> b - 1 - u mod b" using pos_mod_bound [OF b, of u] by linarith
    show "b - 1 - u mod b < b" using pos_mod_sign [OF b, of u] by linarith
  qed
  finally show ?thesis using False by simp
qed (simp add: sdiv_nonneg)

lemma normalize_ok:
  assumes "0 < b" "\<bar>a\<bar> \<le> 2 ^ 30" "\<bar>a + u div b\<bar> \<le> 2 ^ 31 - 1"
  shows "normalize_overflow a u b = Some (a + u div b, u mod b)"
  using increment_small [OF assms(2,3)] by (simp add: normalize_overflow_def floor_delta [OF assms(1)] minus_div_mult_eq_mod)

lemma increment32_small: "\<bar>i\<bar> \<le> 2 ^ 60 \<Longrightarrow> \<bar>j\<bar> \<le> 2 ^ 60 \<Longrightarrow> increment_overflow32 i j = Some (i + j)"
  by (auto simp: increment_overflow32_def abs_le_iff)

lemma normalize32_ok:
  assumes "0 < b" "\<bar>a\<bar> \<le> 2 ^ 60" "\<bar>u div b\<bar> \<le> 2 ^ 60"
  shows "normalize_overflow32 a u b = Some (a + u div b, u mod b)"
  using increment32_small [OF assms(2,3)] by (simp add: normalize_overflow32_def floor_delta [OF assms(1)] minus_div_mult_eq_mod)

text \<open>The day a month and a day of the month name in the year \<open>y\<close>.\<close>

definition day_number :: "int \<Rightarrow> int \<Rightarrow> int \<Rightarrow> int" where
  "day_number y mon mday = year_start y + month_start y mon + mday"

lemma day_number_year:
  assumes "0 \<le> mon" "mon < 12"
  shows "day_number (y + 1) mon mday = day_number y mon (mday + year_lengths (y + (if 1 < mon then 1 else 0)))"
proof -
  have l: "month_start y mon = month_start z mon + (if 1 < mon then year_lengths y - year_lengths z else 0)" for y z
  proof -
    have "mon = 0 \<or> mon = 1 \<or> mon = 2 \<or> mon = 3 \<or> mon = 4 \<or> mon = 5 \<or> mon = 6 \<or> mon = 7 \<or> mon = 8 \<or> mon = 9 \<or> mon = 10 \<or> mon = 11"
      using assms by presburger
    then show ?thesis by (elim disjE) (simp_all add: month_start_def mon_lengths_def year_lengths_def)
  qed
  show ?thesis using year_start_next [of y] l [of "y + 1" y] by (simp add: day_number_def)
qed

lemma mday_low_ok:
  "0 \<le> mon \<Longrightarrow> mon < 12 \<Longrightarrow> - (2 ^ 59) \<le> y + mday \<Longrightarrow> y \<le> 2 ^ 59 \<Longrightarrow>
   \<exists>y1 mday1. mday_low y mon mday = Some (y1, mday1) \<and> day_number y1 mon mday1 = day_number y mon mday \<and> 1 \<le> mday1 \<and>
     y1 \<le> y \<and> y + mday \<le> y1 + mday1 \<and> (mday1 = mday \<or> mday1 \<le> 366)"
proof (induction y mon mday rule: mday_low.induct)
  case (1 y mon mday)
  show ?case
  proof (cases "mday \<le> 0")
    case True
    let ?n = "mday + year_lengths (y - 1 + (if 1 < mon then 1 else 0))"
    have y1: "increment_overflow32 y (-1) = Some (y - 1)" using increment32_small [of y "-1"] True 1(4,5) by auto
    have l: "365 \<le> ?n - mday" "?n \<le> 366" using True year_lengths_range [of "y - 1 + (if 1 < mon then 1 else 0)"] by auto
    have "\<exists>y1 mday1. mday_low (y - 1) mon ?n = Some (y1, mday1) \<and> day_number y1 mon mday1 = day_number (y - 1) mon ?n \<and> 1 \<le> mday1 \<and>
        y1 \<le> y - 1 \<and> y - 1 + ?n \<le> y1 + mday1 \<and> (mday1 = ?n \<or> mday1 \<le> 366)"
      by (rule 1(1) [OF True y1 1(2,3)]) (use 1(4,5) l in auto)
    moreover have "day_number (y - 1) mon ?n = day_number y mon mday" using day_number_year [OF 1(2,3), of "y - 1" mday] by simp
    moreover have "mday_low y mon mday = mday_low (y - 1) mon ?n" using True y1 by (subst mday_low.simps) simp
    ultimately show ?thesis using l by fastforce
  next
    case False
    then show ?thesis by (intro exI [of _ y] exI [of _ mday]) (simp add: mday_low.simps)
  qed
qed

lemma mday_high_ok:
  "0 \<le> mon \<Longrightarrow> mon < 12 \<Longrightarrow> - (2 ^ 59) \<le> y \<Longrightarrow> y + mday \<le> 2 ^ 59 \<Longrightarrow> 1 \<le> mday \<Longrightarrow>
   \<exists>y1 mday1. mday_high y mon mday = Some (y1, mday1) \<and> day_number y1 mon mday1 = day_number y mon mday \<and> 1 \<le> mday1 \<and> mday1 \<le> 366 \<and>
     y \<le> y1 \<and> y1 + mday1 \<le> y + mday"
proof (induction y mon mday rule: mday_high.induct)
  case (1 y mon mday)
  show ?case
  proof (cases "mday > 366")
    case True
    let ?n = "mday - year_lengths (y + (if 1 < mon then 1 else 0))"
    have y1: "increment_overflow32 y 1 = Some (y + 1)" using increment32_small [of y 1] True 1(4,5) by auto
    have l: "365 \<le> mday - ?n" "1 \<le> ?n" using True year_lengths_range [of "y + (if 1 < mon then 1 else 0)"] by auto
    have "\<exists>y1 mday1. mday_high (y + 1) mon ?n = Some (y1, mday1) \<and> day_number y1 mon mday1 = day_number (y + 1) mon ?n \<and> 1 \<le> mday1 \<and> mday1 \<le> 366 \<and>
        y + 1 \<le> y1 \<and> y1 + mday1 \<le> y + 1 + ?n"
      by (rule 1(1) [OF True y1 1(2,3)]) (use 1(4,5) l in auto)
    moreover have "day_number (y + 1) mon ?n = day_number y mon mday" using day_number_year [OF 1(2,3), of y ?n] by simp
    moreover have "mday_high y mon mday = mday_high (y + 1) mon ?n" using True y1 by (subst mday_high.simps) simp
    ultimately show ?thesis using l by fastforce
  next
    case False
    then show ?thesis using 1(6) by (intro exI [of _ y] exI [of _ mday]) (simp add: mday_high.simps)
  qed
qed

lemma mon_norm_ok:
  "0 \<le> mon \<Longrightarrow> mon < 12 \<Longrightarrow> - (2 ^ 59) \<le> y \<Longrightarrow> y + mday \<le> 2 ^ 59 \<Longrightarrow> 1 \<le> mday \<Longrightarrow>
   \<exists>y1 mon1 mday1. mon_norm y mon mday = Some (y1, mon1, mday1) \<and> day_number y1 mon1 mday1 = day_number y mon mday \<and>
     0 \<le> mon1 \<and> mon1 < 12 \<and> 1 \<le> mday1 \<and> mday1 \<le> mon_lengths y1 ! nat mon1 \<and> y \<le> y1 \<and> y1 \<le> y + mday"
proof (induction y mon mday rule: mon_norm.induct)
  case (1 y mon mday)
  let ?i = "mon_lengths y ! nat mon"
  have i: "mon_length y mon = Some ?i" using 1(3,4) by (simp add: mon_length_def)
  have i28: "28 \<le> ?i" by (rule mon_lengths_pos [OF 1(3,4)])
  have next_month: "month_start y (mon + 1) = month_start y mon + ?i" by (rule month_start_next [OF 1(3,4)])
  show ?case
  proof (cases "mday \<le> ?i")
    case True
    then show ?thesis using 1(3,4,7) i by (intro exI [of _ y] exI [of _ mon] exI [of _ mday]) (simp add: mon_norm.simps)
  next
    case False
    show ?thesis
    proof (cases "mon + 1 \<ge> 12")
      case True
      then have m: "mon = 11" using 1(4) by simp
      have y1: "increment_overflow32 y 1 = Some (y + 1)" using increment32_small [of y 1] 1(5-7) by auto
      have "month_start y 12 = year_lengths y" using mon_lengths_sum by (simp add: month_start_def)
      then have d: "day_number (y + 1) 0 (mday - ?i) = day_number y mon mday"
        using next_month year_start_next [of y] m by (simp add: day_number_def month_start_def)
      have "\<exists>y1 mon1 mday1. mon_norm (y + 1) 0 (mday - ?i) = Some (y1, mon1, mday1) \<and> day_number y1 mon1 mday1 = day_number (y + 1) 0 (mday - ?i) \<and>
          0 \<le> mon1 \<and> mon1 < 12 \<and> 1 \<le> mday1 \<and> mday1 \<le> mon_lengths y1 ! nat mon1 \<and> y + 1 \<le> y1 \<and> y1 \<le> y + 1 + (mday - ?i)"
        by (rule 1(1) [OF i False True y1]) (use 1(5-7) i28 False in auto)
      moreover have "mon_norm y mon mday = mon_norm (y + 1) 0 (mday - ?i)" using False True i y1 by (subst mon_norm.simps) simp
      ultimately show ?thesis using d i28 by fastforce
    next
      case small: False
      have d: "day_number y (mon + 1) (mday - ?i) = day_number y mon mday" using next_month by (simp add: day_number_def)
      have "\<exists>y1 mon1 mday1. mon_norm y (mon + 1) (mday - ?i) = Some (y1, mon1, mday1) \<and> day_number y1 mon1 mday1 = day_number y (mon + 1) (mday - ?i) \<and>
          0 \<le> mon1 \<and> mon1 < 12 \<and> 1 \<le> mday1 \<and> mday1 \<le> mon_lengths y1 ! nat mon1 \<and> y \<le> y1 \<and> y1 \<le> y + (mday - ?i)"
        by (rule 1(2) [OF i False small]) (use 1(3-7) i28 False small in auto)
      moreover have "mon_norm y mon mday = mon_norm y (mon + 1) (mday - ?i)" using False small i by (subst mon_norm.simps) simp
      ultimately show ?thesis using d i28 by fastforce
    qed
  qed
qed

subsection \<open>The bisection finds the date\<close>

lemma time_search_ok:
  "lo \<le> t0 \<Longrightarrow> t0 \<le> hi \<Longrightarrow> - (2 ^ 63) \<le> lo \<Longrightarrow> hi \<le> 2 ^ 63 - 1 \<Longrightarrow> \<forall>t. dirf t = 0 \<longleftrightarrow> t = t0 \<Longrightarrow>
   \<forall>t. dirf t < 0 \<longleftrightarrow> t < t0 \<Longrightarrow> time_search dirf lo hi = Some t0"
proof (induction dirf lo hi rule: time_search.induct)
  case (1 dirf lo hi)
  note r = 1(3-6) and d = 1(7,8)
  define x where "x = lo sdiv 2 + hi sdiv 2"
  define t where "t = (if x < lo then lo else if x > hi then hi else x)"
  have t: "lo \<le> t" "t \<le> hi" using r by (auto simp: t_def)
  note step = time_search.simps [of dirf lo hi, folded x_def, unfolded Let_def, folded t_def]
  consider "dirf t = 0" | "dirf t < 0" | "0 < dirf t" by linarith
  then show ?case
  proof cases
    case 1
    then show ?thesis unfolding step using d by simp
  next
    case 2
    then have lt: "t < t0" using d by blast
    obtain t1 lo1 where s: "search_step t lo hi = Some (t1, lo1, hi)" "t1 \<le> t0" "lo1 \<le> hi" "- (2 ^ 63) \<le> t1"
    proof (cases "t = lo")
      case True
      then have "search_step t lo hi = Some (t + 1, lo + 1, hi)" using lt r by (simp add: search_step_def)
      then show ?thesis by (rule that) (use True lt r in auto)
    next
      case False
      then have "search_step t lo hi = Some (t, lo, hi)" using lt r by (simp add: search_step_def)
      then show ?thesis by (rule that) (use lt t r in auto)
    qed
    have "dirf t \<noteq> 0" "\<not> hi < lo1" "\<not> 0 < dirf t" using 2 s(3) by simp_all
    then have "time_search dirf t1 hi = Some t0"
      by (intro "1.IH"(2) [OF x_def t_def refl _ s(1) refl refl]) (use s r d in simp_all)
    then show ?thesis unfolding step using s 2 by simp
  next
    case 3
    then have "dirf t \<noteq> 0" "\<not> dirf t < 0" by simp_all
    then have "t \<noteq> t0" "\<not> t < t0" using d by blast+
    then have gt: "t0 < t" by simp
    obtain t1 hi1 where s: "search_step t lo hi = Some (t1, lo, hi1)" "t0 \<le> t1" "lo \<le> hi1" "t1 \<le> 2 ^ 63 - 1"
    proof (cases "t = hi")
      case True
      then have "search_step t lo hi = Some (t - 1, lo, hi - 1)" using gt r by (simp add: search_step_def)
      then show ?thesis by (rule that) (use True gt r in auto)
    next
      case False
      then have "search_step t lo hi = Some (t, lo, hi)" using gt r by (simp add: search_step_def)
      then show ?thesis by (rule that) (use gt t r in auto)
    qed
    have "dirf t \<noteq> 0" "\<not> hi1 < lo" using 3 s(3) by simp_all
    with 3 have "time_search dirf lo t1 = Some t0"
      by (intro "1.IH"(1) [OF x_def t_def refl _ s(1) refl refl]) (use s r d in simp_all)
    then show ?thesis unfolding step using s 3 by simp
  qed
qed

lemma day_number_bound:
  assumes "0 \<le> mon" "mon < 12" "1 \<le> mday" "mday \<le> mon_lengths y ! nat mon"
  shows "\<bar>day_number y mon mday\<bar> \<le> 366 * \<bar>y\<bar> + 400"
proof -
  have m: "0 \<le> month_start y mon" "month_start y mon + mday \<le> year_lengths y"
  proof -
    have "month_start y 0 + 28 * int (nat mon) \<le> month_start y (0 + int (nat mon))" by (rule month_start_mono) (use assms in simp_all)
    then show "0 \<le> month_start y mon" using assms(1) by (simp add: month_start_def)
    have "month_start y (mon + 1) + 28 * int (nat (11 - mon)) \<le> month_start y ((mon + 1) + int (nat (11 - mon)))"
      by (rule month_start_mono) (use assms in simp_all)
    then have "month_start y (mon + 1) \<le> month_start y 12" using assms(2) by simp
    also have "\<dots> = year_lengths y" using mon_lengths_sum by (simp add: month_start_def)
    finally show "month_start y mon + mday \<le> year_lengths y" using month_start_next [OF assms(1,2), of y] assms(4) by simp
  qed
  have z: "year_start 0 = -1" by (simp add: year_start_def)
  have "\<bar>year_start y\<bar> \<le> 366 * \<bar>y\<bar> + 1"
    using year_start_between [of 0 y] year_start_between [of y 0] z by (cases "0 \<le> y") auto
  then show ?thesis using m assms(3) year_lengths_range [of y] by (auto simp: day_number_def)
qed

text \<open>The seconds of a date whose fields may lie outside of their ranges.\<close>

definition calendar_secs :: "bson_tm \<Rightarrow> int" where
  "calendar_secs tm =
     (((day_number (tm_year tm + 1900 + tm_mon tm div 12) (tm_mon tm mod 12) (tm_mday tm) - 1 - year_start 1970) * 24 +
       tm_hour tm) * 60 + tm_min tm) * 60 + tm_sec tm"

lemma normalize_date_ok:
  assumes "\<bar>tm_year tm\<bar> \<le> 2 ^ 20" "\<bar>tm_mon tm\<bar> \<le> 2 ^ 20" "\<bar>tm_mday tm\<bar> \<le> 2 ^ 20" "\<bar>tm_hour tm\<bar> \<le> 2 ^ 20" "\<bar>tm_min tm\<bar> \<le> 2 ^ 20"
  obtains n where "normalize_date False tm = Some n" "tm_sec n = tm_sec tm" "tm_isdst n = tm_isdst tm" "normal (n\<lparr>tm_sec := 0\<rparr>)"
    "\<bar>tm_year n + 1900\<bar> \<le> 2 ^ 24" "secs_of n = calendar_secs tm"
proof -
  let ?h = "tm_hour tm + tm_min tm div 60" and ?y = "tm_year tm + tm_mon tm div 12 + 1900" and ?mon = "tm_mon tm mod 12"
  let ?d = "tm_mday tm + ?h div 24"
  have b: "\<bar>tm_min tm div 60\<bar> \<le> 2 ^ 20" "\<bar>tm_mon tm div 12\<bar> \<le> 2 ^ 20" using assms by auto
  then have h: "\<bar>?h\<bar> \<le> 2 ^ 21" and y: "\<bar>?y\<bar> \<le> 2 ^ 22" "\<bar>tm_year tm + tm_mon tm div 12\<bar> \<le> 2 ^ 22" using assms(1,4) by (simp_all add: abs_le_iff)
  then have hd: "\<bar>?h div 24\<bar> \<le> 2 ^ 21" by auto
  then have d: "\<bar>?d\<bar> \<le> 2 ^ 22" using assms(3) by (simp add: abs_le_iff)
  have 1: "normalize_overflow (tm_hour tm) (tm_min tm) 60 = Some (?h, tm_min tm mod 60)" by (rule normalize_ok) (use assms(4) h in simp_all)
  have 2: "normalize_overflow (tm_mday tm) ?h 24 = Some (?d, ?h mod 24)" by (rule normalize_ok) (use assms(3) d in simp_all)
  have 3: "normalize_overflow32 (tm_year tm) (tm_mon tm) 12 = Some (tm_year tm + tm_mon tm div 12, ?mon)"
    by (rule normalize32_ok) (use assms(1) b in simp_all)
  have 4: "increment_overflow32 (tm_year tm + tm_mon tm div 12) 1900 = Some ?y" by (rule increment32_small) (use y in simp_all)
  have m: "0 \<le> ?mon" "?mon < 12" by simp_all
  have yd: "- (2 ^ 59) \<le> ?y + ?d" "?y \<le> 2 ^ 59" using y d by (simp_all add: abs_le_iff)
  obtain y1 d1 where 5: "mday_low ?y ?mon ?d = Some (y1, d1)" "day_number y1 ?mon d1 = day_number ?y ?mon ?d" "1 \<le> d1" "y1 \<le> ?y"
      "?y + ?d \<le> y1 + d1" "d1 = ?d \<or> d1 \<le> 366"
    using mday_low_ok [OF m yd] by blast
  have d1: "d1 \<le> 2 ^ 22" using 5(6) d by (auto simp: abs_le_iff)
  have y1: "- (2 ^ 23) - 2 ^ 22 \<le> y1" "y1 \<le> 2 ^ 22" using 5(4,5) d1 y d by (simp_all add: abs_le_iff)
  obtain y2 d2 where 6: "mday_high y1 ?mon d1 = Some (y2, d2)" "day_number y2 ?mon d2 = day_number y1 ?mon d1" "1 \<le> d2" "d2 \<le> 366"
      "y1 \<le> y2" "y2 + d2 \<le> y1 + d1"
    using mday_high_ok [OF m _ _ 5(3), of y1] y1 d1 by auto
  have y2: "- (2 ^ 23) - 2 ^ 22 \<le> y2" "y2 + d2 \<le> 2 ^ 23" using 6(5,6) y1 d1 by simp_all
  obtain y3 mon3 d3 where 7: "mon_norm y2 ?mon d2 = Some (y3, mon3, d3)" "day_number y3 mon3 d3 = day_number y2 ?mon d2" "0 \<le> mon3" "mon3 < 12"
      "1 \<le> d3" "d3 \<le> mon_lengths y3 ! nat mon3" "y2 \<le> y3" "y3 \<le> y2 + d2"
    using mon_norm_ok [OF m _ _ 6(3), of y2] y2 by auto
  have y3: "\<bar>y3\<bar> \<le> 2 ^ 24" using 7(7,8) y2 by (simp add: abs_le_iff)
  have 8: "increment_overflow32 y3 (-1900) = Some (y3 - 1900)" using increment32_small [of y3 "-1900"] y3 by simp
  let ?n = "tm\<lparr>tm_sec := tm_sec tm, tm_min := tm_min tm mod 60, tm_hour := ?h mod 24, tm_mday := d3, tm_mon := mon3, tm_year := y3 - 1900\<rparr>"
  have "normalize_date False tm = Some ?n" by (simp add: normalize_date_def 1 2 3 4 5(1) 6(1) 7(1) 8)
  moreover have "normal (?n\<lparr>tm_sec := 0\<rparr>)" using 7 by (simp add: normal_def)
  moreover have "secs_of ?n = calendar_secs tm"
  proof -
    have d: "day_number y3 mon3 d3 = day_number ?y ?mon (tm_mday tm) + ?h div 24" using 5(2) 6(2) 7(2) by (simp add: day_number_def)
    have "secs_of ?n = (((day_number y3 mon3 d3 - 1 - year_start 1970) * 24 + ?h mod 24) * 60 + tm_min tm mod 60) * 60 + tm_sec tm"
      by (simp add: secs_of_def day_number_def)
    also have "(day_number y3 mon3 d3 - 1 - year_start 1970) * 24 + ?h mod 24 = (day_number ?y ?mon (tm_mday tm) - 1 - year_start 1970) * 24 + ?h"
      unfolding d using mult_div_mod_eq [of 24 ?h] by (simp add: algebra_simps)
    finally show ?thesis using mult_div_mod_eq [of 60 "tm_min tm"] by (simp add: calendar_secs_def algebra_simps)
  qed
  ultimately show ?thesis using y3 by (intro that [of ?n]) simp_all
qed

lemma save_seconds_ok:
  assumes "\<bar>tm_sec n\<bar> \<le> 2 ^ 20"
  obtains y s where "save_seconds n = Some (y, s)" "0 \<le> tm_sec y" "tm_sec y < 60" "tm_sec y + s = tm_sec n" "y = n\<lparr>tm_sec := tm_sec y\<rparr>"
    "\<bar>s\<bar> \<le> 2 ^ 21"
proof (cases "0 \<le> tm_sec n \<and> tm_sec n < 60")
  case True
  then show ?thesis by (intro that [of n 0]) (simp_all add: save_seconds_def)
next
  case False
  show ?thesis
  proof (cases "tm_year n + 1900 < 1970")
    case True
    have "increment_overflow (tm_sec n) (1 - 60) = Some (tm_sec n + (1 - 60))" by (rule increment_small) (use assms in \<open>simp_all add: abs_le_iff\<close>)
    then show ?thesis using False True assms
      by (intro that [of "n\<lparr>tm_sec := 59\<rparr>" "tm_sec n + (1 - 60)"]) (auto simp: save_seconds_def abs_le_iff)
  next
    case late: False
    then show ?thesis using False assms by (intro that [of "n\<lparr>tm_sec := 0\<rparr>" "tm_sec n"]) (auto simp: save_seconds_def)
  qed
qed

lemma secs_of_sec: "secs_of (n\<lparr>tm_sec := s\<rparr>) = secs_of n - tm_sec n + s"
  by (simp add: secs_of_def)

lemma secs_bound:
  assumes "normal n" "\<bar>tm_year n + 1900\<bar> \<le> 2 ^ 24"
  shows "\<bar>secs_of n\<bar> < 2 ^ 50 - 2 ^ 22"
proof -
  have n: "0 \<le> tm_hour n" "tm_hour n < 24" "0 \<le> tm_min n" "tm_min n < 60" "0 \<le> tm_sec n" "tm_sec n < 60"
    using assms(1) by (simp_all add: normal_def)
  have "\<bar>day_number (tm_year n + 1900) (tm_mon n) (tm_mday n)\<bar> \<le> 366 * \<bar>tm_year n + 1900\<bar> + 400"
    by (rule day_number_bound) (use assms(1) in \<open>simp_all add: normal_def\<close>)
  then have "\<bar>day_number (tm_year n + 1900) (tm_mon n) (tm_mday n)\<bar> \<le> 366 * 2 ^ 24 + 400" using assms(2) by simp
  moreover have "secs_of n = (((day_number (tm_year n + 1900) (tm_mon n) (tm_mday n) - 1 - year_start 1970) * 24 + tm_hour n) * 60 + tm_min n) * 60 + tm_sec n"
    by (simp add: secs_of_def day_number_def)
  moreover have "year_start 1970 = 719527" by (simp add: year_start_def)
  ultimately show ?thesis using n by (simp add: abs_le_iff abs_less_iff)
qed

lemma time2sub_ok:
  assumes "\<bar>tm_year tm\<bar> \<le> 2 ^ 20" "\<bar>tm_mon tm\<bar> \<le> 2 ^ 20" "\<bar>tm_mday tm\<bar> \<le> 2 ^ 20" "\<bar>tm_hour tm\<bar> \<le> 2 ^ 20" "\<bar>tm_min tm\<bar> \<le> 2 ^ 20"
    "\<bar>tm_sec tm\<bar> \<le> 2 ^ 20" "tm_isdst tm = 0"
  shows "\<exists>tm1. time2sub False tm = (calendar_secs tm, True, tm1) \<and> normal tm1 \<and> secs_of tm1 = calendar_secs tm"
proof -
  obtain n where n: "normalize_date False tm = Some n" "tm_sec n = tm_sec tm" "tm_isdst n = tm_isdst tm" "normal (n\<lparr>tm_sec := 0\<rparr>)"
      "\<bar>tm_year n + 1900\<bar> \<le> 2 ^ 24" "secs_of n = calendar_secs tm"
    using normalize_date_ok [OF assms(1-5)] by blast
  obtain y s where y: "save_seconds n = Some (y, s)" "0 \<le> tm_sec y" "tm_sec y < 60" "tm_sec y + s = tm_sec n" "y = n\<lparr>tm_sec := tm_sec y\<rparr>"
      "\<bar>s\<bar> \<le> 2 ^ 21"
    using save_seconds_ok [of n] assms(6) n(2) by metis
  let ?t = "secs_of y"
  let ?dirf = "\<lambda>t. case gmtsub t of None \<Rightarrow> if t > 0 then 1 else -1 | Some mytm \<Rightarrow> tmcomp mytm y"
  have yn: "normal y" by (subst y(5)) (use n(4) y(2,3) in \<open>simp add: normal_def\<close>)
  have fields: "tm_year y = tm_year n" "tm_isdst y = 0" by (subst y(5); use n(3) assms(7) in simp)+
  have t: "\<bar>?t\<bar> < 2 ^ 50 - 2 ^ 22" using secs_bound [OF yn] n(5) fields(1) by simp
  have cmp: "(?dirf u = 0 \<longleftrightarrow> u = ?t) \<and> (?dirf u < 0 \<longleftrightarrow> u < ?t)" for u
  proof (cases "gmtsub u")
    case None
    then have "\<not> \<bar>u\<bar> < 2 ^ 50" using gmtsub_total [of u] by blast
    then show ?thesis using None t by (auto simp: abs_less_iff)
  next
    case (Some m)
    then show ?thesis using tmcomp_secs [OF _ yn, of m] gmtsub_sound [OF Some] by simp
  qed
  have search: "time_search ?dirf (- (2 ^ 63)) (2 ^ 63 - 1) = Some ?t"
    by (rule time_search_ok) (use t cmp in \<open>simp_all add: abs_less_iff\<close>)
  have sum: "?t + s = calendar_secs tm" using n(6) y(4) secs_of_sec [of "tm_sec y" n] y(5) by simp
  have "\<bar>?t + s\<bar> < 2 ^ 50" using t y(6) by (simp add: abs_less_iff abs_le_iff)
  then obtain m where m: "gmtsub (?t + s) = Some m" using gmtsub_total by blast
  have r: "\<not> (?t + s > 2 ^ 63 - 1 \<or> ?t + s < - (2 ^ 63) \<or> (?t + s < ?t) \<noteq> (s < 0))"
    using \<open>\<bar>?t + s\<bar> < 2 ^ 50\<close> by (auto simp: abs_less_iff)
  have "time2sub False tm = (?t + s, True, m)"
    unfolding time2sub_def n(1) Option.bind.simps y(1) option.case prod.case search fields(2) Let_def if_not_P [OF r] m by simp
  then show ?thesis using gmtsub_sound [OF m] sum by simp
qed

text \<open>
  C4. \<^verbatim>\<open>_bson_timegm\<close> is the calendar. For every date whose fields are at most \<open>2 ^ 20\<close> in size, in their usual ranges or not (a month
  13, a day 0, a second 60 count on into the next or the previous unit), it ends and returns the seconds since 1970 of that date
  in the Gregorian calendar extended to all years, and it normalizes the date it was given to the one of these seconds.
\<close>

theorem timegm_is_calendar:
  assumes "\<bar>tm_year tm\<bar> \<le> 2 ^ 20" "\<bar>tm_mon tm\<bar> \<le> 2 ^ 20" "\<bar>tm_mday tm\<bar> \<le> 2 ^ 20" "\<bar>tm_hour tm\<bar> \<le> 2 ^ 20" "\<bar>tm_min tm\<bar> \<le> 2 ^ 20"
    "\<bar>tm_sec tm\<bar> \<le> 2 ^ 20"
  shows "fst (bson_timegm tm) = calendar_secs tm \<and> normal (snd (bson_timegm tm)) \<and> secs_of (snd (bson_timegm tm)) = calendar_secs tm"
proof -
  have "calendar_secs (tm\<lparr>tm_isdst := 0\<rparr>) = calendar_secs tm" by (simp add: calendar_secs_def)
  then obtain m where m: "time2sub False (tm\<lparr>tm_isdst := 0\<rparr>) = (calendar_secs tm, True, m)" "normal m" "secs_of m = calendar_secs tm"
    using time2sub_ok [of "tm\<lparr>tm_isdst := 0\<rparr>"] assms by auto
  then have "bson_timegm tm = (calendar_secs tm, m)" by (simp add: bson_timegm_def time1_def time2_def)
  then show ?thesis using m(2,3) by simp
qed

text \<open>Noon of 29 February 2024, written as day 60 of January and second 60 of the minute before.\<close>

definition leap_day :: bson_tm where
  "leap_day = \<lparr>tm_sec = 60, tm_min = 59, tm_hour = 11, tm_mday = 60, tm_mon = 0, tm_year = 124, tm_wday = 0, tm_yday = 0, tm_isdst = 0\<rparr>"

lemma timegm_is_calendar_witness: "fst (bson_timegm leap_day) = 1709208000"
  using timegm_is_calendar [of leap_day]
  by (simp add: leap_day_def calendar_secs_def day_number_def year_start_def month_start_def mon_lengths_def)

end
