(* ===== verification/B64.thy ===== *)
theory B64
  imports Bson_Prelude
begin

text \<open>
  \<^verbatim>\<open>src/bson/b64_ntop.h\<close> and \<^verbatim>\<open>src/bson/b64_pton.h\<close>: the base64 text of binary values. The encoder is compared with the
  24-bit groups of RFC 4648, the decoder with the encoder.
\<close>

subsection \<open>Encoding\<close>

definition Base64 :: bytes where
  "Base64 = str_of ''ABCDEFGHIJKLMNOPQRSTUVWXYZabcdefghijklmnopqrstuvwxyz0123456789+/''"

definition Pad64 :: u8 where "Pad64 = 0x3D"

text \<open>\<^verbatim>\<open>Assert (output < 64)\<close> and the look-up in the table.\<close>

definition base64_char :: "u8 \<Rightarrow> u8 option" where
  "base64_char out = (if out < 64 then Some (Base64 ! unat out) else None)"

text \<open>
  The end of the conversion: the terminator. The result is the target with the returned length or \<^verbatim>\<open>-1\<close>; \<open>None\<close> is an
  access outside source or target or a failed assertion.
\<close>

definition ntop_end :: "bytes \<Rightarrow> nat \<Rightarrow> nat \<Rightarrow> (bytes \<times> int) option" where
  "ntop_end target datalength targsize =
     (if datalength \<ge> targsize then Some (target, -1)
      else do { t \<leftarrow> mem_write target datalength [0]; Some (t, int datalength) })"

text \<open>One or two bytes are left: the group is filled with zero bits and the text with \<^verbatim>\<open>=\<close>.\<close>

definition ntop_padding :: "bytes \<Rightarrow> nat \<Rightarrow> bytes \<Rightarrow> nat \<Rightarrow> nat \<Rightarrow> (bytes \<times> int) option" where
  "ntop_padding src srclength target datalength targsize = do {
     rest \<leftarrow> mem_read src 0 srclength;
     let input0 = rest ! 0;
     let input1 = (if srclength = 1 then 0 else rest ! 1);
     let input2 = (0 :: u8);
     o0 \<leftarrow> base64_char (drop_bit 2 input0);
     o1 \<leftarrow> base64_char (push_bit 4 (input0 AND 0x03) + drop_bit 4 input1);
     o2 \<leftarrow> base64_char (push_bit 2 (input1 AND 0x0F) + drop_bit 6 input2);
     (if datalength + 4 > targsize then Some (target, -1)
      else do {
        t \<leftarrow> mem_write target datalength [o0, o1, if srclength = 1 then Pad64 else o2, Pad64];
        ntop_end t (datalength + 4) targsize }) }"

fun b64_ntop :: "bytes \<Rightarrow> nat \<Rightarrow> bytes \<Rightarrow> nat \<Rightarrow> nat \<Rightarrow> (bytes \<times> int) option" where
  "b64_ntop src srclength target datalength targsize =
     (if 2 < srclength then
        (case src of
           input0 # input1 # input2 # src' \<Rightarrow> do {
             o0 \<leftarrow> base64_char (drop_bit 2 input0);
             o1 \<leftarrow> base64_char (push_bit 4 (input0 AND 0x03) + drop_bit 4 input1);
             o2 \<leftarrow> base64_char (push_bit 2 (input1 AND 0x0F) + drop_bit 6 input2);
             o3 \<leftarrow> base64_char (input2 AND 0x3F);
             (if datalength + 4 > targsize then Some (target, -1)
              else do {
                t \<leftarrow> mem_write target datalength [o0, o1, o2, o3];
                b64_ntop src' (srclength - 3) t (datalength + 4) targsize }) }
         | _ \<Rightarrow> None)
      else if srclength \<noteq> 0 then ntop_padding src srclength target datalength targsize
      else ntop_end target datalength targsize)"

declare b64_ntop.simps [simp del]

subsection \<open>Decoding\<close>

definition b64rmap_special :: u8 where "b64rmap_special = 0xF0"
definition b64rmap_end :: u8 where "b64rmap_end = 0xFD"
definition b64rmap_space :: u8 where "b64rmap_space = 0xFE"
definition b64rmap_invalid :: u8 where "b64rmap_invalid = 0xFF"

definition isspace :: "u8 \<Rightarrow> bool" where
  "isspace c \<longleftrightarrow> c = 0x20 \<or> (0x09 \<le> c \<and> c \<le> 0x0D)"

definition b64_initialize_rmap :: bytes where
  "b64_initialize_rmap =
     (let m = b64rmap_end # map (\<lambda>i. let ch = word_of_nat i in
                if isspace ch then b64rmap_space else if ch = Pad64 then b64rmap_end else b64rmap_invalid) [1..<256]
      in foldl (\<lambda>m i. m[unat (Base64 ! i) := word_of_nat i]) m [0..<64])"

text \<open>
  \<^verbatim>\<open>b64rmap[ch]\<close> with the \<^verbatim>\<open>int ch = *src++\<close>: \<^verbatim>\<open>char\<close> is signed, so that a byte of \<open>0x80\<close> or more is a negative index.
\<close>

definition b64rmap :: "u8 \<Rightarrow> u8 option" where
  "b64rmap ch = (if ch < 0x80 then Some (b64_initialize_rmap ! unat ch) else None)"

text \<open>
  The first loop of \<^verbatim>\<open>b64_pton_do\<close>: for \<^verbatim>\<open>-1\<close> the target is all there is (\<open>Inl\<close>), at the end of the
  base64 characters there are the last character, the source behind it, the state, the index and the target. The index is
  an \<^verbatim>\<open>int\<close> in the code: the model is faithful for results below 2^31 bytes.
\<close>

definition pton_step :: "u8 \<Rightarrow> nat \<Rightarrow> nat \<Rightarrow> bytes \<Rightarrow> nat \<Rightarrow> (bytes + nat \<times> nat \<times> bytes) option" where
  "pton_step ofs state tarindex target targsize =
     (if state = 0 then
        (if tarindex \<ge> targsize then Some (Inl target)
         else do { t \<leftarrow> mem_write target tarindex [push_bit 2 ofs]; Some (Inr (1, tarindex, t)) })
      else if state = 1 then
        (if tarindex + 1 \<ge> targsize then Some (Inl target)
         else do {
           b \<leftarrow> rd8 target tarindex;
           t \<leftarrow> mem_write target tarindex [b OR drop_bit 4 ofs, push_bit 4 (ofs AND 0x0F)];
           Some (Inr (2, tarindex + 1, t)) })
      else if state = 2 then
        (if tarindex + 1 \<ge> targsize then Some (Inl target)
         else do {
           b \<leftarrow> rd8 target tarindex;
           t \<leftarrow> mem_write target tarindex [b OR drop_bit 2 ofs, push_bit 6 (ofs AND 0x03)];
           Some (Inr (3, tarindex + 1, t)) })
      else if state = 3 then
        (if tarindex \<ge> targsize then Some (Inl target)
         else do {
           b \<leftarrow> rd8 target tarindex;
           t \<leftarrow> mem_write target tarindex [b OR ofs];
           Some (Inr (0, tarindex + 1, t)) })
      else None)"

fun pton_loop :: "bytes \<Rightarrow> nat \<Rightarrow> nat \<Rightarrow> bytes \<Rightarrow> nat \<Rightarrow> (bytes + u8 \<times> bytes \<times> nat \<times> nat \<times> bytes) option" where
  "pton_loop [] state tarindex target targsize = None"
| "pton_loop (ch # src) state tarindex target targsize = do {
     ofs \<leftarrow> b64rmap ch;
     (if ofs \<ge> b64rmap_special then
        (if ofs = b64rmap_space then pton_loop src state tarindex target targsize
         else if ofs = b64rmap_end then Some (Inr (ch, src, state, tarindex, target))
         else Some (Inl target))
      else do {
        r \<leftarrow> pton_step ofs state tarindex target targsize;
        (case r of
           Inl t \<Rightarrow> Some (Inl t)
         | Inr (state', tarindex', target') \<Rightarrow> pton_loop src state' tarindex' target' targsize) }) }"

text \<open>
  The loops behind the padding: the first character that is not white space and the source behind it, and whether only
  white space is left.
\<close>

fun skip_spaces :: "u8 \<Rightarrow> bytes \<Rightarrow> (u8 \<times> bytes) option" where
  "skip_spaces ch src =
     (if ch = 0 then Some (ch, src)
      else do {
        m \<leftarrow> b64rmap ch;
        (if m \<noteq> b64rmap_space then Some (ch, src)
         else (case src of [] \<Rightarrow> None | c # src' \<Rightarrow> skip_spaces c src')) })"

fun only_spaces :: "u8 \<Rightarrow> bytes \<Rightarrow> bool option" where
  "only_spaces ch src =
     (if ch = 0 then Some True
      else do {
        m \<leftarrow> b64rmap ch;
        (if m \<noteq> b64rmap_space then Some False
         else (case src of [] \<Rightarrow> None | c # src' \<Rightarrow> only_spaces c src')) })"

declare skip_spaces.simps [simp del] only_spaces.simps [simp del]

text \<open>
  The checks at the end, the same in \<^verbatim>\<open>b64_pton_do\<close> and \<^verbatim>\<open>b64_pton_len\<close>: whether the text ends properly in this state.
\<close>

definition pton_tail :: "u8 \<Rightarrow> bytes \<Rightarrow> nat \<Rightarrow> bool option" where
  "pton_tail ch src state =
     (if ch = Pad64 then
        (case src of
           [] \<Rightarrow> None
         | ch # src \<Rightarrow>
             if state = 0 \<or> state = 1 then Some False
             else if state = 2 then do {
               (ch, src) \<leftarrow> skip_spaces ch src;
               (if ch \<noteq> Pad64 then Some False
                else (case src of [] \<Rightarrow> None | ch # src \<Rightarrow> only_spaces ch src)) }
             else only_spaces ch src)
      else Some (state = 0))"

definition b64_pton_do :: "bytes \<Rightarrow> bytes \<Rightarrow> nat \<Rightarrow> (bytes \<times> int) option" where
  "b64_pton_do src target targsize = do {
     r \<leftarrow> pton_loop src 0 0 target targsize;
     (case r of
        Inl t \<Rightarrow> Some (t, -1)
      | Inr (ch, src, state, tarindex, target) \<Rightarrow> do {
          ok \<leftarrow> pton_tail ch src state;
          (if \<not> ok then Some (target, -1)
           else if ch = Pad64 then do {
             b \<leftarrow> rd8 target tarindex;
             (if b \<noteq> 0 then Some (target, -1) else Some (target, int tarindex)) }
           else Some (target, int tarindex)) }) }"

text \<open>\<^verbatim>\<open>b64_pton_len\<close> counts without a target.\<close>

fun pton_len_loop :: "bytes \<Rightarrow> nat \<Rightarrow> nat \<Rightarrow> (u8 \<times> bytes \<times> nat \<times> nat) option option" where
  "pton_len_loop [] state tarindex = None"
| "pton_len_loop (ch # src) state tarindex = do {
     ofs \<leftarrow> b64rmap ch;
     (if ofs \<ge> b64rmap_special then
        (if ofs = b64rmap_space then pton_len_loop src state tarindex
         else if ofs = b64rmap_end then Some (Some (ch, src, state, tarindex))
         else Some None)
      else if state = 0 then pton_len_loop src 1 tarindex
      else if state = 1 then pton_len_loop src 2 (tarindex + 1)
      else if state = 2 then pton_len_loop src 3 (tarindex + 1)
      else if state = 3 then pton_len_loop src 0 (tarindex + 1)
      else None) }"

definition b64_pton_len :: "bytes \<Rightarrow> int option" where
  "b64_pton_len src = do {
     r \<leftarrow> pton_len_loop src 0 0;
     (case r of
        None \<Rightarrow> Some (-1)
      | Some (ch, src, state, tarindex) \<Rightarrow> do {
          ok \<leftarrow> pton_tail ch src state;
          Some (if ok then int tarindex else -1) }) }"

text \<open>\<^verbatim>\<open>b64_pton\<close>; a missing target is \<^verbatim>\<open>NULL\<close>.\<close>

definition b64_pton :: "bytes \<Rightarrow> bytes option \<Rightarrow> nat \<Rightarrow> (bytes option \<times> int) option" where
  "b64_pton src target targsize =
     (case target of
        Some t \<Rightarrow> map_option (\<lambda>(t, n). (Some t, n)) (b64_pton_do src t targsize)
      | None \<Rightarrow> do { n \<leftarrow> b64_pton_len src; Some (None, n) })"


subsection \<open>The text of RFC 4648\<close>

text \<open>Three bytes are a number of 24 bits, read as four digits to the base 64.\<close>

definition b64_digit :: "nat \<Rightarrow> u8" where
  "b64_digit d = Base64 ! (d mod 64)"

fun b64_text :: "bytes \<Rightarrow> bytes" where
  "b64_text [] = []"
| "b64_text [a] = (let n = unat a * 16 in [b64_digit (n div 64), b64_digit n, Pad64, Pad64])"
| "b64_text [a, b] = (let n = (unat a * 256 + unat b) * 4 in [b64_digit (n div 4096), b64_digit (n div 64), b64_digit n, Pad64])"
| "b64_text (a # b # c # r) =
     (let n = (unat a * 256 + unat b) * 256 + unat c
      in [b64_digit (n div 262144), b64_digit (n div 4096), b64_digit (n div 64), b64_digit n] @ b64_text r)"

lemma b64_text_length: "length (b64_text x) = (length x + 2) div 3 * 4"
proof (induction x rule: b64_text.induct)
  case (4 a b c x)
  have "(length (a # b # c # x) + 2) div 3 = (length x + 2) div 3 + 1" by (simp add: div_add_self1 [symmetric])
  with 4 show ?case by (simp only: b64_text.simps Let_def length_append list.size) simp
qed (simp_all add: Let_def b64_text.simps)

declare b64_text.simps(2-4) [simp del]

lemma drop_u8: "unat (drop_bit n (a :: u8)) = unat a div 2 ^ n"
  by (simp add: unat_drop_bit_eq flip: drop_bit_eq_div)

lemma sextet1: "unat (push_bit 4 (a AND 0x03) + drop_bit 4 b :: u8) = unat a mod 4 * 16 + unat b div 16"
proof -
  have "unat (push_bit 4 (a AND 0x03) :: u8) = unat a mod 4 * 16"
    by (rule all_bytes [where b = a]) (simp add: all_u8_eval)
  moreover have "unat a mod 4 * 16 + unat b div 16 < 256" using unat_u8_less [of b] mod_less_divisor [of 4 "unat a"] by linarith
  ultimately show ?thesis using unat_add_lem [of "push_bit 4 (a AND 0x03)" "drop_bit 4 b"] by (simp add: drop_u8)
qed

lemma sextet2: "unat (push_bit 2 (b AND 0x0F) + drop_bit 6 c :: u8) = unat b mod 16 * 4 + unat c div 64"
proof -
  have "unat (push_bit 2 (b AND 0x0F) :: u8) = unat b mod 16 * 4"
    by (rule all_bytes [where b = b]) (simp add: all_u8_eval)
  moreover have "unat b mod 16 * 4 + unat c div 64 < 256" using unat_u8_less [of c] mod_less_divisor [of 16 "unat b"] by linarith
  ultimately show ?thesis using unat_add_lem [of "push_bit 2 (b AND 0x0F)" "drop_bit 6 c"] by (simp add: drop_u8)
qed

lemma sextet3: "unat (c AND 0x3F :: u8) = unat c mod 64"
  using unat_and_mask [of 6 "0x3F" c] by (simp add: mask_eq_exp_minus_1)

lemma base64_char_digit: "unat w = d \<Longrightarrow> d < 64 \<Longrightarrow> base64_char w = Some (b64_digit d)"
  by (simp add: base64_char_def b64_digit_def word_less_nat_alt)

lemma group_digits:
  fixes a b c :: u8
  defines "n \<equiv> (unat a * 256 + unat b) * 256 + unat c"
  shows "base64_char (drop_bit 2 a) = Some (b64_digit (n div 262144))"
    "base64_char (push_bit 4 (a AND 0x03) + drop_bit 4 b) = Some (b64_digit (n div 4096))"
    "base64_char (push_bit 2 (b AND 0x0F) + drop_bit 6 c) = Some (b64_digit (n div 64))"
    "base64_char (c AND 0x3F) = Some (b64_digit n)"
proof -
  have l: "unat a < 256" "unat b < 256" "unat c < 256" by simp_all
  have e: "unat a div 4 = n div 262144" "(unat a mod 4 * 16 + unat b div 16) = n div 4096 mod 64"
    "unat b mod 16 * 4 + unat c div 64 = n div 64 mod 64" "unat c mod 64 = n mod 64" "unat a div 4 < 64"
  proof -
    define qa ra qb rb qc rc where d: "qa = unat a div 4" "ra = unat a mod 4" "qb = unat b div 16" "rb = unat b mod 16"
      "qc = unat c div 64" "rc = unat c mod 64"
    have e: "unat a = 4 * qa + ra" "unat b = 16 * qb + rb" "unat c = 64 * qc + rc" unfolding d by simp_all
    have b: "ra < 4" "rb < 16" "rc < 64" "qb < 16" "qc < 4" "qa < 64" unfolding d by (simp_all add: div_less_iff_less_mult)
    have e: "n div 262144 = qa" "n div 4096 = 64 * qa + (16 * ra + qb)" "n div 64 = 64 * (64 * qa + (16 * ra + qb)) + (4 * rb + qc)"
      "n = 64 * (64 * (64 * qa + (16 * ra + qb)) + (4 * rb + qc)) + rc"
      using b unfolding n_def e by (simp_all add: nat_div_eq_iff)
    have m: "(64 * x + y) mod 64 = y" if "y < 64" for x y :: nat using that by simp
    have "n div 4096 mod 64 = 16 * ra + qb" unfolding e(2) by (rule m) (use b in simp)
    moreover have "n div 64 mod 64 = 4 * rb + qc" unfolding e(3) by (rule m) (use b in simp)
    moreover have "n mod 64 = rc" unfolding e(4) by (rule m) (use b in simp)
    moreover note e(1)
    ultimately show "unat a div 4 = n div 262144" "(unat a mod 4 * 16 + unat b div 16) = n div 4096 mod 64"
      "unat b mod 16 * 4 + unat c div 64 = n div 64 mod 64" "unat c mod 64 = n mod 64" "unat a div 4 < 64"
      using b unfolding d(2,4,6) [symmetric] d(1,3,5) [symmetric] by (simp_all add: mult.commute)
  qed
  have m: "b64_digit (d mod 64) = b64_digit d" "d mod 64 < 64" for d by (simp_all add: b64_digit_def)
  show "base64_char (drop_bit 2 a) = Some (b64_digit (n div 262144))"
    by (rule base64_char_digit [OF _ e(5) [unfolded e(1)]]) (simp only: drop_u8 e(1) [symmetric], simp)
  show "base64_char (push_bit 4 (a AND 0x03) + drop_bit 4 b) = Some (b64_digit (n div 4096))"
    by (rule base64_char_digit [OF sextet1 [of a b, unfolded e(2)] m(2), unfolded m(1)])
  show "base64_char (push_bit 2 (b AND 0x0F) + drop_bit 6 c) = Some (b64_digit (n div 64))"
    by (rule base64_char_digit [OF sextet2 [of b c, unfolded e(3)] m(2), unfolded m(1)])
  show "base64_char (c AND 0x3F) = Some (b64_digit n)"
    by (rule base64_char_digit [OF sextet3 [of c, unfolded e(4)] m(2), unfolded m(1)])
qed

lemma ntop_end_ok: "length u < targsize \<Longrightarrow> ntop_end (u @ y0 # r) (length u) targsize = Some (u @ 0 # r, int (length u))"
  using mem_write_append [of "[y0]" "[0]" "length u" u r] by (simp add: ntop_end_def)

lemma write_block: "length ys = length y \<Longrightarrow> mem_write (t @ ys @ r) (length t) y = Some (t @ y @ r)"
  by (rule mem_write_append) simp_all

lemma suc4: "Suc (Suc (Suc (Suc n))) = n + 4"
  by simp

lemma ntop_group:
  assumes "base64_char (drop_bit 2 a) = Some g0" "base64_char (push_bit 4 (a AND 0x03) + drop_bit 4 b) = Some g1"
    "base64_char (push_bit 2 (b AND 0x0F) + drop_bit 6 c) = Some g2" "base64_char (c AND 0x3F) = Some g3"
    "length t + 4 \<le> targsize" "length ys = 4"
  shows "b64_ntop (a # b # c # src) (Suc (Suc (Suc n))) (t @ ys @ r) (length t) targsize =
    b64_ntop src n ((t @ [g0, g1, g2, g3]) @ r) (length (t @ [g0, g1, g2, g3])) targsize"
  using assms write_block [of ys "[g0, g1, g2, g3]" t r] by (subst b64_ntop.simps) (simp only: list.case, simp add: suc4)

lemma ntop_rest:
  assumes "rest = [a] \<and> b = 0 \<and> g2 = Pad64 \<or> rest = [a, b] \<and> base64_char (push_bit 2 (b AND 0x0F) + drop_bit 6 0) = Some g2"
    "base64_char (drop_bit 2 a) = Some g0" "base64_char (push_bit 4 (a AND 0x03) + drop_bit 4 b) = Some g1"
    "length t + 4 < targsize" "length ys = 4"
  shows "b64_ntop (rest @ z) (length rest) (t @ ys @ y0 # r) (length t) targsize =
    Some ((t @ [g0, g1, g2, Pad64]) @ 0 # r, int (length t + 4))"
proof -
  have "ntop_end ((t @ [g0, g1, g2, Pad64]) @ y0 # r) (length (t @ [g0, g1, g2, Pad64])) targsize =
      Some ((t @ [g0, g1, g2, Pad64]) @ 0 # r, int (length (t @ [g0, g1, g2, Pad64])))"
    by (rule ntop_end_ok) (use assms in simp)
  moreover have "base64_char 0 = Some 0x41" by (simp add: base64_char_def Base64_def str_of_def of_char_def)
  ultimately show ?thesis using assms write_block [of ys "[g0, g1, g2, Pad64]" t "y0 # r"]
    by (subst b64_ntop.simps) (auto simp: ntop_padding_def mem_read_def Let_def suc4 add.commute)
qed

lemma ntop_text:
  assumes "length ys = length (b64_text x)" "length t + length ys < targsize"
  shows "b64_ntop (x @ z) (length x) (t @ ys @ y0 # r) (length t) targsize =
    Some (t @ b64_text x @ 0 # r, int (length t + length (b64_text x)))"
  using assms
proof (induction x arbitrary: t ys rule: b64_text.induct)
  case 1
  then show ?case by (simp add: b64_ntop.simps ntop_end_def mem_write_def)
next
  case (2 a)
  have "base64_char (drop_bit 2 a) = Some (b64_digit (unat a * 16 div 64))"
    "base64_char (push_bit 4 (a AND 0x03) + drop_bit 4 0) = Some (b64_digit (unat a * 16))"
    using group_digits(1,2) [where a = a and b = 0 and c = 0] by (simp_all add: b64_digit_def mult.commute)
  note c = this
  have "b64_ntop ([a] @ z) (length [a]) (t @ ys @ y0 # r) (length t) targsize =
      Some ((t @ [b64_digit (unat a * 16 div 64), b64_digit (unat a * 16), Pad64, Pad64]) @ 0 # r, int (length t + 4))"
    by (rule ntop_rest [OF _ c]) (use 2 in \<open>simp_all add: b64_text.simps Let_def\<close>)
  moreover have "b64_text [a] = [b64_digit (unat a * 16 div 64), b64_digit (unat a * 16), Pad64, Pad64]"
    by (simp only: b64_text.simps Let_def)
  ultimately show ?case by (simp only: append_assoc) simp
next
  case (3 a b)
  define m where "m = unat a * 256 + unat b"
  have "m * 256 div 262144 = m * 4 div 4096" "m * 256 div 4096 = m * 4 div 64" "m * 256 div 64 = m * 4"
    using div_mult_mult2 [of 64 "m * 4" 4096] div_mult_mult2 [of 64 "m * 4" 64] div_mult_mult2 [of 64 "m * 4" 1] by simp_all
  then have "base64_char (drop_bit 2 a) = Some (b64_digit (m * 4 div 4096))"
    "base64_char (push_bit 4 (a AND 0x03) + drop_bit 4 b) = Some (b64_digit (m * 4 div 64))"
    "base64_char (push_bit 2 (b AND 0x0F) + drop_bit 6 0) = Some (b64_digit (m * 4))"
    using group_digits(1,2,3) [where a = a and b = b and c = 0] by (simp_all only: m_def [symmetric] unat_0 add_0_right)
  note c = this
  have "b64_ntop ([a, b] @ z) (length [a, b]) (t @ ys @ y0 # r) (length t) targsize =
      Some ((t @ [b64_digit (m * 4 div 4096), b64_digit (m * 4 div 64), b64_digit (m * 4), Pad64]) @ 0 # r, int (length t + 4))"
    by (rule ntop_rest [OF _ c(1,2)]) (use 3 c(3) in \<open>simp_all add: b64_text.simps Let_def\<close>)
  moreover have "b64_text [a, b] = [b64_digit (m * 4 div 4096), b64_digit (m * 4 div 64), b64_digit (m * 4), Pad64]"
    by (simp only: b64_text.simps Let_def m_def)
  ultimately show ?case by (simp only: append_assoc) simp
next
  case (4 a b c x)
  define n where "n = (unat a * 256 + unat b) * 256 + unat c"
  define g where "g = [b64_digit (n div 262144), b64_digit (n div 4096), b64_digit (n div 64), b64_digit n]"
  have lg: "length g = 4" by (simp add: g_def)
  have tx: "b64_text (a # b # c # x) = g @ b64_text x" by (simp only: b64_text.simps g_def n_def Let_def)
  have "length ys = 4 + length (b64_text x)" using 4(2) unfolding tx lg length_append .
  then obtain y1 y2 where y: "ys = y1 @ y2" "length y1 = 4" "length y2 = length (b64_text x)"
    by (intro that [of "take 4 ys" "drop 4 ys"]) simp_all
  have "b64_ntop (a # b # c # x @ z) (Suc (Suc (Suc (length x)))) (t @ y1 @ (y2 @ y0 # r)) (length t) targsize =
      b64_ntop (x @ z) (length x) ((t @ g) @ (y2 @ y0 # r)) (length (t @ g)) targsize"
    unfolding g_def by (rule ntop_group [OF group_digits [where a = a and b = b and c = c, folded n_def]]) (use 4(3) y in simp_all)
  also have "\<dots> = Some ((t @ g) @ b64_text x @ 0 # r, int (length (t @ g) + length (b64_text x)))"
    by (rule 4(1)) (use 4(3) y lg in simp_all)
  finally show ?case unfolding tx y(1) by (simp add: add.assoc)
qed

subsection \<open>The decoder stays inside its target\<close>

lemma rmap_table [code]: "b64_initialize_rmap =
   [253, 255, 255, 255, 255, 255, 255, 255, 255, 254, 254, 254, 254, 254, 255, 255, 255, 255, 255, 255, 255, 255,
    255, 255, 255, 255, 255, 255, 255, 255, 255, 255, 254, 255, 255, 255, 255, 255, 255, 255, 255, 255, 255, 62,
    255, 255, 255, 63, 52, 53, 54, 55, 56, 57, 58, 59, 60, 61, 255, 255, 255, 253, 255, 255, 255, 0, 1, 2, 3, 4,
    5, 6, 7, 8, 9, 10, 11, 12, 13, 14, 15, 16, 17, 18, 19, 20, 21, 22, 23, 24, 25, 255, 255, 255, 255, 255, 255,
    26, 27, 28, 29, 30, 31, 32, 33, 34, 35, 36, 37, 38, 39, 40, 41, 42, 43, 44, 45, 46, 47, 48, 49, 50, 51, 255,
    255, 255, 255, 255, 255, 255, 255, 255, 255, 255, 255, 255, 255, 255, 255, 255, 255, 255, 255, 255, 255, 255,
    255, 255, 255, 255, 255, 255, 255, 255, 255, 255, 255, 255, 255, 255, 255, 255, 255, 255, 255, 255, 255, 255,
    255, 255, 255, 255, 255, 255, 255, 255, 255, 255, 255, 255, 255, 255, 255, 255, 255, 255, 255, 255, 255, 255,
    255, 255, 255, 255, 255, 255, 255, 255, 255, 255, 255, 255, 255, 255, 255, 255, 255, 255, 255, 255, 255, 255,
    255, 255, 255, 255, 255, 255, 255, 255, 255, 255, 255, 255, 255, 255, 255, 255, 255, 255, 255, 255, 255, 255,
    255, 255, 255, 255, 255, 255, 255, 255, 255, 255, 255, 255, 255, 255, 255, 255, 255, 255, 255, 255, 255, 255]"
  by code_simp

lemma rmap_base64: "map b64rmap Base64 = map Some [0, 1, 2, 3, 4, 5, 6, 7, 8, 9, 10, 11, 12, 13, 14, 15, 16, 17, 18, 19, 20, 21, 22, 23, 24, 25, 26, 27, 28, 29, 30, 31, 32, 33, 34, 35, 36, 37, 38, 39, 40, 41, 42, 43, 44, 45, 46, 47, 48, 49, 50, 51, 52, 53, 54, 55, 56, 57, 58, 59, 60, 61, 62, 63]"
  unfolding b64rmap_def rmap_table Base64_def str_of_def by (simp add: of_char_def)

lemma rmap_char: "base64_char w = Some g \<Longrightarrow> b64rmap g = Some w \<and> w < 64"
proof -
  assume "base64_char w = Some g"
  then have g: "w < 64" "g = Base64 ! unat w" by (auto simp: base64_char_def split: if_splits)
  have "map b64rmap Base64 = map (\<lambda>i. Some (word_of_nat i)) [0..<64]"
    unfolding rmap_base64 by (simp add: upt_conv_Cons)
  moreover have w: "unat w < 64" using g(1) by (simp add: word_less_nat_alt)
  moreover have "length Base64 = 64" by (simp add: Base64_def str_of_def)
  ultimately have "b64rmap (Base64 ! unat w) = Some (word_of_nat (unat w))"
    by (metis (no_types, lifting) length_upt diff_zero nth_map nth_upt add_0)
  with g show ?thesis by simp
qed

lemma rmap_ends: "b64rmap 0 = Some b64rmap_end" "b64rmap Pad64 = Some b64rmap_end"
  by (simp_all add: b64rmap_def rmap_table Pad64_def b64rmap_end_def)

lemma masks: "(0x03 :: u8) = mask 2" "(0x0F :: u8) = mask 4" "(0x3F :: u8) = mask 6"
  by (simp_all add: mask_eq_exp_minus_1)

lemma or_sextets:
  "push_bit 4 (a AND 0x03) + drop_bit 4 b = push_bit 4 (a AND 0x03) OR drop_bit 4 (b :: u8)"
  "push_bit 2 (a AND 0x0F) + drop_bit 6 b = push_bit 2 (a AND 0x0F) OR drop_bit 6 (b :: u8)"
  unfolding masks by (rule disjunctive_add; auto simp: bit_simps dest: bit_imp_le_length)+

lemma sextets_byte:
  fixes a b c :: u8
  shows "push_bit 2 (drop_bit 2 a) OR drop_bit 4 (push_bit 4 (a AND 0x03) + drop_bit 4 b) = a"
    "push_bit 4 ((push_bit 4 (a AND 0x03) + drop_bit 4 b) AND 0x0F) OR drop_bit 2 (push_bit 2 (b AND 0x0F) + drop_bit 6 c) = b"
    "push_bit 6 ((push_bit 2 (b AND 0x0F) + drop_bit 6 c) AND 0x03) OR (c AND 0x3F) = c"
    "push_bit 4 ((push_bit 4 (a AND 0x03) + drop_bit 4 0) AND 0x0F) = (0 :: u8)"
    "push_bit 6 ((push_bit 2 (b AND 0x0F) + drop_bit 6 0) AND 0x03) = (0 :: u8)"
proof -
  have n2: "Suc (Suc (n - 2)) = (if 2 \<le> n then n else 2)" "4 + (n - 4) = (if 4 \<le> n then n else 4)"
    "6 + (n - 6) = (if 6 \<le> n then n else 6)" for n :: nat by auto
  show "push_bit 2 (drop_bit 2 a) OR drop_bit 4 (push_bit 4 (a AND 0x03) + drop_bit 4 b) = a"
    unfolding or_sextets unfolding masks by (rule bit_word_eqI) (auto simp: bit_simps n2)
  show "push_bit 4 ((push_bit 4 (a AND 0x03) + drop_bit 4 b) AND 0x0F) OR drop_bit 2 (push_bit 2 (b AND 0x0F) + drop_bit 6 c) = b"
    unfolding or_sextets unfolding masks by (rule bit_word_eqI) (auto simp: bit_simps n2)
  show "push_bit 6 ((push_bit 2 (b AND 0x0F) + drop_bit 6 c) AND 0x03) OR (c AND 0x3F) = c"
    unfolding or_sextets unfolding masks by (rule bit_word_eqI) (auto simp: bit_simps n2)
  show "push_bit 4 ((push_bit 4 (a AND 0x03) + drop_bit 4 0) AND 0x0F) = (0 :: u8)"
    unfolding or_sextets unfolding masks by (rule bit_word_eqI) (auto simp: bit_simps n2)
  show "push_bit 6 ((push_bit 2 (b AND 0x0F) + drop_bit 6 0) AND 0x03) = (0 :: u8)"
    unfolding or_sextets unfolding masks by (rule bit_word_eqI) (auto simp: bit_simps n2)
qed

lemma ends_special: "b64rmap_end \<ge> b64rmap_special" "b64rmap_end \<noteq> b64rmap_space"
  by (simp_all add: b64rmap_end_def b64rmap_special_def b64rmap_space_def)

lemma sextet_special: "w < 64 \<Longrightarrow> \<not> b64rmap_special \<le> w"
  by (simp add: b64rmap_special_def word_le_nat_alt word_less_nat_alt)

text \<open>Text of a C string in ASCII: no character is a negative index.\<close>

definition ascii_str :: "bytes \<Rightarrow> bool" where
  "ascii_str src \<longleftrightarrow> (\<exists>s r. src = s @ 0 # r \<and> (\<forall>b \<in> set s. b < 0x80))"

lemma ascii_str_Cons: "ascii_str (c # src) \<longleftrightarrow> c = 0 \<or> c < 0x80 \<and> ascii_str src"
  apply (auto simp: ascii_str_def Cons_eq_append_conv)
  apply (metis append_Cons set_ConsD)
  done

lemma ascii_str_Nil: "\<not> ascii_str []"
  by (simp add: ascii_str_def)

lemma rmap_ascii: "c < 0x80 \<Longrightarrow> \<exists>m. b64rmap c = Some m"
  by (simp add: b64rmap_def)

lemma skip_spaces_ends: "ascii_str (ch # src) \<Longrightarrow>
    \<exists>c s. skip_spaces ch src = Some (c, s) \<and> (c = 0 \<or> ascii_str s)"
proof (induction src arbitrary: ch)
  case Nil
  then show ?case by (subst skip_spaces.simps) (simp add: ascii_str_Cons ascii_str_Nil)
next
  case (Cons d src)
  show ?case
  proof (cases "ch = 0")
    case False
    then obtain m where "b64rmap ch = Some m" "ascii_str (d # src)" using Cons.prems rmap_ascii by (auto simp: ascii_str_Cons)
    then show ?thesis using Cons.IH [of d] False by (subst skip_spaces.simps) auto
  qed (subst skip_spaces.simps, simp)
qed

lemma only_spaces_ends: "ascii_str (ch # src) \<Longrightarrow> \<exists>b. only_spaces ch src = Some b"
proof (induction src arbitrary: ch)
  case Nil
  then show ?case by (subst only_spaces.simps) (auto simp: ascii_str_Cons ascii_str_Nil intro: exI [of _ True])
next
  case (Cons d src)
  show ?case
  proof (cases "ch = 0")
    case False
    then obtain m where "b64rmap ch = Some m" "ascii_str (d # src)" using Cons.prems rmap_ascii by (auto simp: ascii_str_Cons)
    then show ?thesis using Cons.IH [of d] False by (subst only_spaces.simps) auto
  qed (subst only_spaces.simps, auto intro: exI [of _ True])
qed

lemma pton_tail_ends:
  assumes "ch = 0 \<or> ascii_str src"
  shows "\<exists>b. pton_tail ch src state = Some b"
proof (cases "ch = Pad64")
  case True
  then have a: "ascii_str src" using assms by (simp add: Pad64_def)
  then obtain c s where s: "src = c # s" using ascii_str_Nil by (cases src) auto
  obtain c2 s2 where k: "skip_spaces c s = Some (c2, s2)" "c2 = 0 \<or> ascii_str s2" using skip_spaces_ends [of c s] a s by auto
  have "\<exists>b. only_spaces c s = Some b" using only_spaces_ends [of c s] a s by simp
  moreover have "c2 = Pad64 \<Longrightarrow> \<exists>d s3 b. s2 = d # s3 \<and> only_spaces d s3 = Some b"
    using k(2) ascii_str_Nil only_spaces_ends by (cases s2) (auto simp: Pad64_def)
  ultimately show ?thesis using True s k(1) by (auto simp: pton_tail_def)
qed (simp add: pton_tail_def)

lemma pton_len_loop_ends:
  "ascii_str src \<Longrightarrow> state < 4 \<Longrightarrow>
    \<exists>r. pton_len_loop src state k = Some r \<and> (\<forall>ch src' st k'. r = Some (ch, src', st, k') \<longrightarrow> ch = 0 \<or> ascii_str src')"
proof (induction src state k rule: pton_len_loop.induct)
  case (1 state k)
  then show ?case by (simp add: ascii_str_Nil)
next
  case (2 c src state k)
  show ?case
  proof (cases "c = 0")
    case True
    then show ?thesis by (simp add: rmap_ends ends_special)
  next
    case False
    then have a: "ascii_str src" "c < 0x80" using 2(6) by (simp_all add: ascii_str_Cons)
    then obtain m where m: "b64rmap c = Some m" using rmap_ascii by auto
    have "state = 0 \<or> state = 1 \<or> state = 2 \<or> state = 3" using 2(7) by auto
    then show ?thesis using 2(1-5) m a by auto
  qed
qed

subsection \<open>Decoding what was encoded\<close>

lemma write_at: "length ys = length y \<Longrightarrow> k = length t \<Longrightarrow> mem_write (t @ ys @ r) k y = Some (t @ y @ r)"
  using write_block by simp

lemma rd8_at: "k = length t \<Longrightarrow> rd8 (t @ b # r) k = Some b"
  by (simp add: rd8_def)

lemma loop_char:
  "base64_char w = Some g \<Longrightarrow> pton_step w state k target targsize = Some (Inr (st1, k1, t1)) \<Longrightarrow>
    pton_loop (g # src) state k target targsize = pton_loop src st1 k1 t1 targsize"
  using rmap_char [of w g] sextet_special [of w] by simp

lemma loop_first:
  assumes "base64_char w0 = Some g0" "base64_char w1 = Some g1" "length t + 2 \<le> targsize"
  shows "pton_loop (g0 # g1 # src) 0 (length t) (t @ x0 # x1 # r) targsize =
    pton_loop src 2 (length t + 1) (t @ (push_bit 2 w0 OR drop_bit 4 w1) # push_bit 4 (w1 AND 0x0F) # r) targsize"
proof -
  have "pton_step w0 0 (length t) (t @ x0 # x1 # r) targsize = Some (Inr (1, length t, t @ push_bit 2 w0 # x1 # r))"
    using assms(3) write_at [of "[x0]" "[push_bit 2 w0]" "length t" t "x1 # r"] by (simp add: pton_step_def)
  moreover have "pton_step w1 1 (length t) (t @ push_bit 2 w0 # x1 # r) targsize =
      Some (Inr (2, length t + 1, t @ (push_bit 2 w0 OR drop_bit 4 w1) # push_bit 4 (w1 AND 0x0F) # r))"
    using assms(3) write_at [of "[push_bit 2 w0, x1]" "[push_bit 2 w0 OR drop_bit 4 w1, push_bit 4 (w1 AND 0x0F)]" "length t" t r]
    by (simp add: pton_step_def rd8_at)
  ultimately show ?thesis using loop_char [OF assms(1)] loop_char [OF assms(2)] by metis
qed

lemma loop_third:
  assumes "base64_char w = Some g" "length t + 1 < targsize"
  shows "pton_loop (g # src) 2 (length t) (t @ b # x # r) targsize =
    pton_loop src 3 (length t + 1) (t @ (b OR drop_bit 2 w) # push_bit 6 (w AND 0x03) # r) targsize"
proof (rule loop_char [OF assms(1)])
  show "pton_step w 2 (length t) (t @ b # x # r) targsize =
      Some (Inr (3, length t + 1, t @ (b OR drop_bit 2 w) # push_bit 6 (w AND 0x03) # r))"
    using assms(2) write_at [of "[b, x]" "[b OR drop_bit 2 w, push_bit 6 (w AND 0x03)]" "length t" t r]
    by (simp add: pton_step_def rd8_at)
qed

lemma loop_fourth:
  assumes "base64_char w = Some g" "length t < targsize"
  shows "pton_loop (g # src) 3 (length t) (t @ b # r) targsize = pton_loop src 0 (length t + 1) (t @ (b OR w) # r) targsize"
proof (rule loop_char [OF assms(1)])
  show "pton_step w 3 (length t) (t @ b # r) targsize = Some (Inr (0, length t + 1, t @ (b OR w) # r))"
    using assms(2) write_at [of "[b]" "[b OR w]" "length t" t r] by (simp add: pton_step_def rd8_at)
qed

lemma loop_group:
  fixes a b c :: u8
  defines "n \<equiv> (unat a * 256 + unat b) * 256 + unat c"
  assumes "length t + 3 \<le> targsize"
  shows "pton_loop (b64_digit (n div 262144) # b64_digit (n div 4096) # src) 0 (length t) (t @ x0 # x1 # r) targsize =
      pton_loop src 2 (length (t @ [a])) ((t @ [a]) @ push_bit 4 ((push_bit 4 (a AND 0x03) + drop_bit 4 b) AND 0x0F) # r) targsize"
    "pton_loop (b64_digit (n div 64) # src) 2 (length (t @ [a])) ((t @ [a]) @ push_bit 4 ((push_bit 4 (a AND 0x03) + drop_bit 4 b) AND 0x0F) # x2 # r) targsize =
      pton_loop src 3 (length (t @ [a, b])) ((t @ [a, b]) @ push_bit 6 ((push_bit 2 (b AND 0x0F) + drop_bit 6 c) AND 0x03) # r) targsize"
    "pton_loop (b64_digit n # src) 3 (length (t @ [a, b])) ((t @ [a, b]) @ push_bit 6 ((push_bit 2 (b AND 0x0F) + drop_bit 6 c) AND 0x03) # r) targsize =
      pton_loop src 0 (length (t @ [a, b, c])) ((t @ [a, b, c]) @ r) targsize"
proof -
  note g = group_digits [where a = a and b = b and c = c, folded n_def]
  show "pton_loop (b64_digit (n div 262144) # b64_digit (n div 4096) # src) 0 (length t) (t @ x0 # x1 # r) targsize =
      pton_loop src 2 (length (t @ [a])) ((t @ [a]) @ push_bit 4 ((push_bit 4 (a AND 0x03) + drop_bit 4 b) AND 0x0F) # r) targsize"
    using loop_first [OF g(1,2), of t targsize src x0 x1 r, unfolded sextets_byte(1)] assms(2) by (simp only: length_append append_assoc) simp
  show "pton_loop (b64_digit (n div 64) # src) 2 (length (t @ [a])) ((t @ [a]) @ push_bit 4 ((push_bit 4 (a AND 0x03) + drop_bit 4 b) AND 0x0F) # x2 # r) targsize =
      pton_loop src 3 (length (t @ [a, b])) ((t @ [a, b]) @ push_bit 6 ((push_bit 2 (b AND 0x0F) + drop_bit 6 c) AND 0x03) # r) targsize"
    using loop_third [OF g(3), of "t @ [a]" targsize src "push_bit 4 ((push_bit 4 (a AND 0x03) + drop_bit 4 b) AND 0x0F)" x2 r,
        unfolded sextets_byte(2)] assms(2) by (simp only: length_append append_assoc) simp
  show "pton_loop (b64_digit n # src) 3 (length (t @ [a, b])) ((t @ [a, b]) @ push_bit 6 ((push_bit 2 (b AND 0x0F) + drop_bit 6 c) AND 0x03) # r) targsize =
      pton_loop src 0 (length (t @ [a, b, c])) ((t @ [a, b, c]) @ r) targsize"
    using loop_fourth [OF g(4), of "t @ [a, b]" targsize src "push_bit 6 ((push_bit 2 (b AND 0x0F) + drop_bit 6 c) AND 0x03)" r,
        unfolded sextets_byte(3)] assms(2) by (simp only: length_append append_assoc) simp
qed

lemma only_spaces_nul: "only_spaces 0 src = Some True"
  by (simp add: only_spaces.simps)

lemma skip_spaces_pad: "skip_spaces Pad64 src = Some (Pad64, src)"
  using rmap_ends ends_special by (subst skip_spaces.simps) (simp add: Pad64_def)

lemma loop_pad: "pton_loop (Pad64 # src) state k target targsize = Some (Inr (Pad64, src, state, k, target))"
  using rmap_ends ends_special by simp

lemma pton_text:
  assumes "length ys = length x" "length t + length x < targsize"
  shows "\<exists>ch src state target y r'. pton_loop (b64_text x @ 0 # z) 0 (length t) (t @ ys @ y0 # r) targsize =
      Some (Inr (ch, src, state, length (t @ x), target)) \<and> pton_tail ch src state = Some True \<and>
      target = t @ x @ y # r' \<and> length r' = length r \<and> (ch = Pad64 \<longrightarrow> y = 0)"
  using assms
proof (induction x arbitrary: t ys rule: b64_text.induct)
  case 1
  then show ?case using rmap_ends ends_special by (simp add: pton_tail_def Pad64_def)
next
  case (2 a)
  obtain y1 where y1: "ys = [y1]" using 2(1) by (cases ys) auto
  define n where "n = (unat a * 256 + unat (0 :: u8)) * 256 + unat (0 :: u8)"
  note g = group_digits [where a = a and b = 0 and c = 0, folded n_def]
  have "n = unat a * 16 * 4096" by (simp add: n_def)
  then have "unat a * 16 div 64 = n div 262144" "unat a * 16 = n div 4096"
    using div_mult_mult2 [of 4096 "unat a * 16" 64] by simp_all
  then have t: "b64_text [a] @ 0 # z = b64_digit (n div 262144) # b64_digit (n div 4096) # Pad64 # Pad64 # 0 # z"
    by (simp only: b64_text.simps Let_def append.simps)
  have "pton_loop (b64_text [a] @ 0 # z) 0 (length t) (t @ y1 # y0 # r) targsize =
      Some (Inr (Pad64, Pad64 # 0 # z, 2, length t + 1, t @ a # 0 # r))"
    unfolding t using loop_first [OF g(1,2), of t targsize "Pad64 # Pad64 # 0 # z" y1 y0 r, unfolded sextets_byte(1,4)] 2(2)
    by (simp only: loop_pad) simp
  moreover have "pton_tail Pad64 (Pad64 # 0 # z) 2 = Some True"
    by (simp add: pton_tail_def skip_spaces_pad only_spaces_nul)
  ultimately show ?case by (simp add: y1)
next
  case (3 a b)
  obtain y1 y2 where y: "ys = [y1, y2]" using 3(1) by (auto simp: length_Suc_conv)
  define n where "n = (unat a * 256 + unat b) * 256 + unat (0 :: u8)"
  define m where "m = unat a * 256 + unat b"
  note g = group_digits [where a = a and b = b and c = 0, folded n_def]
  have "n = m * 4 * 64" by (simp add: n_def m_def)
  then have "m * 4 div 4096 = n div 262144" "m * 4 div 64 = n div 4096" "m * 4 = n div 64"
    using div_mult_mult2 [of 64 "m * 4" 4096] div_mult_mult2 [of 64 "m * 4" 64] by simp_all
  then have tx: "b64_text [a, b] @ 0 # z =
      b64_digit (n div 262144) # b64_digit (n div 4096) # b64_digit (n div 64) # Pad64 # 0 # z"
    by (simp only: b64_text.simps Let_def append.simps m_def)
  have "pton_loop (b64_text [a, b] @ 0 # z) 0 (length t) (t @ y1 # y2 # y0 # r) targsize =
      pton_loop (b64_digit (n div 64) # Pad64 # 0 # z) 2 (length (t @ [a]))
        ((t @ [a]) @ push_bit 4 ((push_bit 4 (a AND 0x03) + drop_bit 4 b) AND 0x0F) # y0 # r) targsize"
    unfolding tx using loop_first [OF g(1,2), of t targsize _ y1 y2 "y0 # r", unfolded sextets_byte(1)] 3(2)
    by (simp only: length_append append_assoc) simp
  also have "\<dots> = Some (Inr (Pad64, 0 # z, 3, length t + 2, t @ a # b # 0 # r))"
    using loop_third [OF g(3), of "t @ [a]" targsize "Pad64 # 0 # z" "push_bit 4 ((push_bit 4 (a AND 0x03) + drop_bit 4 b) AND 0x0F)" y0 r,
        unfolded sextets_byte(2,5)] 3(2) by (simp only: loop_pad) simp
  finally have "pton_loop (b64_text [a, b] @ 0 # z) 0 (length t) (t @ y1 # y2 # y0 # r) targsize =
    Some (Inr (Pad64, 0 # z, 3, length t + 2, t @ a # b # 0 # r))" .
  moreover have "pton_tail Pad64 (0 # z) 3 = Some True" by (simp add: pton_tail_def only_spaces_nul)
  ultimately show ?case by (simp add: y)
next
  case (4 a b c x)
  obtain y1 y2 y3 y4 where y: "ys = y1 # y2 # y3 # y4" "length y4 = length x"
    using 4(2) by (auto simp: length_Suc_conv)
  define n where "n = (unat a * 256 + unat b) * 256 + unat c"
  have tx: "b64_text (a # b # c # x) @ 0 # z =
      b64_digit (n div 262144) # b64_digit (n div 4096) # b64_digit (n div 64) # b64_digit n # b64_text x @ 0 # z"
    by (simp only: b64_text.simps n_def Let_def append.simps)
  have l: "length t + 3 \<le> targsize" using 4(3) by simp
  note g = loop_group [OF l, where a = a and b = b and c = c, folded n_def]
  have "pton_loop (b64_text (a # b # c # x) @ 0 # z) 0 (length t) (t @ y1 # y2 # y3 # y4 @ y0 # r) targsize =
      pton_loop (b64_text x @ 0 # z) 0 (length (t @ [a, b, c])) ((t @ [a, b, c]) @ y4 @ y0 # r) targsize"
    unfolding tx g(1) g(2) g(3) ..
  moreover have "\<exists>ch src state target y r'. pton_loop (b64_text x @ 0 # z) 0 (length (t @ [a, b, c])) ((t @ [a, b, c]) @ y4 @ y0 # r) targsize =
      Some (Inr (ch, src, state, length ((t @ [a, b, c]) @ x), target)) \<and> pton_tail ch src state = Some True \<and>
      target = (t @ [a, b, c]) @ x @ y # r' \<and> length r' = length r \<and> (ch = Pad64 \<longrightarrow> y = 0)"
    by (rule 4(1)) (use 4(3) y in simp_all)
  ultimately show ?case by (simp add: y(1))
qed

lemma pton_loop_counts:
  "pton_loop src state k target targsize = Some (Inr (ch, src', state', k', t')) \<Longrightarrow>
    pton_len_loop src state k = Some (Some (ch, src', state', k'))"
proof (induction src state k target targsize rule: pton_loop.induct)
  case (1 state k target targsize)
  then show ?case by simp
next
  case (2 c src state k target targsize)
  obtain ofs where ofs: "b64rmap c = Some ofs" using 2(3) by (cases "b64rmap c") simp_all
  show ?case
  proof (cases "ofs \<ge> b64rmap_special")
    case True
    then show ?thesis using 2 ofs by (auto split: if_splits)
  next
    case False
    then obtain x where x: "pton_step ofs state k target targsize = Some x"
      using 2(3) ofs by (auto simp: bind_Some_iff)
    then obtain st1 k1 t1 where st: "pton_step ofs state k target targsize = Some (Inr (st1, k1, t1))"
      using 2(3) ofs False by (cases x) auto
    then have "pton_loop src st1 k1 t1 targsize = Some (Inr (ch, src', state', k', t'))" using 2(3) ofs False by simp
    from 2(2) [OF ofs False st refl refl refl this] have "pton_len_loop src st1 k1 = Some (Some (ch, src', state', k'))" .
    then show ?thesis using st ofs False
      by (auto simp: pton_step_def bind_Some_iff split: if_splits)
  qed
qed

lemma b64_text_no_nul: "no_nul (b64_text x)"
proof -
  have "list_all (\<lambda>b. b \<noteq> 0) Base64" by (simp add: Base64_def str_of_def of_char_def)
  then have "b64_digit d \<noteq> 0" for d by (simp add: b64_digit_def list_all_length Base64_def str_of_def)
  then show ?thesis by (induction x rule: b64_text.induct) (simp_all add: b64_text.simps Let_def Pad64_def)
qed

lemma c_string_first_nul:
  assumes "c_string src 0 = Some s"
  shows "take (length s) src = s \<and> length s < length src \<and> src ! length s = 0"
proof -
  have s: "s = takeWhile (\<lambda>b. b \<noteq> 0) src" "length s < length src" using assms by (auto simp: c_string_def Let_def split: if_splits)
  then show ?thesis using nth_length_takeWhile [of "\<lambda>b. b \<noteq> 0" src] by (metis takeWhile_eq_take)
qed

lemma rmap_in_base64: "c \<in> set Base64 \<Longrightarrow> \<exists>w. b64rmap c = Some w \<and> \<not> b64rmap_special \<le> w"
proof -
  assume "c \<in> set Base64"
  moreover have "length Base64 = 64" by (simp add: Base64_def str_of_def)
  ultimately obtain i where i: "i < 64" "c = Base64 ! i" by (auto simp: in_set_conv_nth)
  then have "base64_char (word_of_nat i) = Some c" by (simp add: base64_char_def word_less_nat_alt unat_of_nat)
  then show ?thesis using rmap_char sextet_special by blast
qed

text \<open>With a target of any size the loop stays inside it; only between two groups may the index stand behind its last byte.\<close>

definition inside :: "nat \<Rightarrow> nat \<Rightarrow> nat \<Rightarrow> bytes \<Rightarrow> bool" where
  "inside n state k t \<longleftrightarrow> length t = n \<and> state < 4 \<and> k \<le> n \<and> (state \<noteq> 0 \<longrightarrow> k < n)"

lemma pton_step_inside:
  assumes "inside n state k target"
  shows "\<exists>r. pton_step ofs state k target n = Some r \<and> (case r of Inl t \<Rightarrow> length t = n | Inr (st, k', t) \<Rightarrow> inside n st k' t)"
proof -
  have "state = 0 \<or> state = 1 \<or> state = 2 \<or> state = 3" using assms unfolding inside_def by linarith
  then show ?thesis using assms by (elim disjE) (auto simp: pton_step_def inside_def mem_write_def rd8_def)
qed

lemma pton_loop_inside:
  "ascii_str src \<Longrightarrow> inside n state k target \<Longrightarrow>
    \<exists>r. pton_loop src state k target n = Some r \<and> (case r of Inl t \<Rightarrow> length t = n
      | Inr (ch, src', st, k', t) \<Rightarrow> inside n st k' t \<and> (ch = 0 \<or> ascii_str src'))"
proof (induction src arbitrary: state k target)
  case (Cons c src)
  show ?case
  proof (cases "c = 0")
    case True
    then show ?thesis using Cons.prems(2) by (simp add: rmap_ends ends_special)
  next
    case False
    then have a: "ascii_str src" "c < 0x80" using Cons.prems(1) by (simp_all add: ascii_str_Cons)
    then obtain ofs where ofs: "b64rmap c = Some ofs" using rmap_ascii by auto
    show ?thesis
    proof (cases "ofs \<ge> b64rmap_special")
      case True
      then show ?thesis using Cons.IH [OF a(1) Cons.prems(2)] Cons.prems(2) a(1) ofs by (auto simp: inside_def)
    next
      case False
      obtain r where r: "pton_step ofs state k target n = Some r" "case r of Inl t \<Rightarrow> length t = n | Inr (st, k', t) \<Rightarrow> inside n st k' t"
        using pton_step_inside [OF Cons.prems(2)] by blast
      then show ?thesis using Cons.IH [OF a(1)] ofs False by (cases r) auto
    qed
  qed
qed (simp add: ascii_str_Nil)

lemma len_loop_negative:
  "set s \<subseteq> set Base64 \<Longrightarrow> b \<ge> 0x80 \<Longrightarrow> state < 4 \<Longrightarrow> pton_len_loop (s @ b # r) state k = None"
proof (induction s arbitrary: state k)
  case Nil
  then have "\<not> b < 0x80" by simp
  then show ?case by (simp add: b64rmap_def)
next
  case (Cons c s)
  then obtain w where "b64rmap c = Some w" "\<not> b64rmap_special \<le> w" using rmap_in_base64 [of c] by auto
  then show ?case using Cons by simp
qed

subsection \<open>The properties\<close>

text \<open>
  C8. Binary values survive base64. With the buffer that the JSON printer allocates (\<open>(length / 3 + 1) * 4 + 1\<close> bytes)
  \<^verbatim>\<open>b64_ntop\<close> stays inside its buffers and writes the terminated text of RFC 4648; \<^verbatim>\<open>b64_pton\<close> without a target counts
  the bytes of that text, and with a target of one byte more it restores them.
\<close>

theorem b64_roundtrip:
  assumes target: "length target = (length x div 3 + 1) * 4 + 1" and buf: "length buf = length x + 1"
  shows "\<exists>t. b64_ntop (x @ z) (length x) target 0 (length target) = Some (t, int (length (b64_text x))) \<and>
      c_string t 0 = Some (b64_text x) \<and>
      b64_pton t None 0 = Some (None, int (length x)) \<and>
      (\<exists>b. b64_pton t (Some buf) (length buf) = Some (Some (x @ [b]), int (length x)))"
proof -
  have "(length x + 2) div 3 \<le> length x div 3 + 1" by simp
  then have "length (b64_text x) < length target" using target by (simp add: b64_text_length)
  then obtain ys y0 r where y: "target = ys @ y0 # r" "length ys = length (b64_text x)"
    by (metis id_take_nth_drop length_take min.absorb4 less_imp_le_nat)
  have n: "b64_ntop (x @ z) (length x) target 0 (length target) = Some (b64_text x @ 0 # r, int (length (b64_text x)))"
    using ntop_text [of ys x "[]" "length target" z y0 r] y by simp
  obtain b1 b0 where b: "buf = b1 @ [b0]" "length b1 = length x"
    using buf by (intro that [of "butlast buf" "last buf"]) (auto simp: length_Suc_conv_rev)
  obtain ch src state y1 r' where l: "pton_loop (b64_text x @ 0 # r) 0 0 buf (length buf) = Some (Inr (ch, src, state, length x, x @ y1 # r'))"
      "pton_tail ch src state = Some True" "length r' = 0" "ch = Pad64 \<longrightarrow> y1 = 0"
    using pton_text [of b1 x "[]" "length buf" r b0 "[]"] b by auto
  have "b64_pton (b64_text x @ 0 # r) None 0 = Some (None, int (length x))"
    using pton_loop_counts [OF l(1)] l(2) by (simp add: b64_pton_def b64_pton_len_def)
  moreover have "b64_pton (b64_text x @ 0 # r) (Some buf) (length buf) = Some (Some (x @ [y1]), int (length x))"
    using l by (auto simp: b64_pton_def b64_pton_do_def rd8_def nth_append)
  moreover have "c_string (b64_text x @ 0 # r) 0 = Some (b64_text x)"
    using c_string_append [of 0 "[]" "b64_text x" r] b64_text_no_nul by simp
  ultimately show ?thesis using n by auto
qed

lemma b64_roundtrip_witness:
  "\<exists>t. b64_ntop [0x68, 0x69, 7] 2 (replicate 5 9) 0 5 = Some (t, 4) \<and> c_string t 0 = Some (str_of ''aGk='')"
proof -
  have "b64_text [0x68, 0x69] = str_of ''aGk=''"
    by (simp add: b64_text.simps Let_def b64_digit_def Base64_def str_of_def of_char_def Pad64_def)
  moreover have "length (b64_text [0x68, 0x69]) = 4" by (simp add: b64_text_length)
  ultimately show ?thesis using b64_roundtrip [of "replicate 5 9" "[0x68, 0x69]" "[1, 2, 3]" "[7]"] by (auto simp: numeral_2_eq_2)
qed

lemma c_string_ascii:
  assumes "c_string src 0 = Some s" "\<forall>b \<in> set s. b < 0x80"
  shows "ascii_str src"
proof -
  have "src = s @ drop (length s) src" using c_string_first_nul [OF assms(1)] by (metis append_take_drop_id)
  moreover have "drop (length s) src = 0 # drop (length s + 1) src"
    using c_string_first_nul [OF assms(1)] by (simp add: Cons_nth_drop_Suc [symmetric])
  ultimately show ?thesis using assms(2) unfolding ascii_str_def by metis
qed

text \<open>
  C35. Decoding text from elsewhere is safe when the text is ASCII: \<^verbatim>\<open>b64_pton\<close> without a target returns a length or \<^verbatim>\<open>-1\<close>, and
  with a target of any size it stays inside the target and returns the same length (which the target then has room for) or
  \<^verbatim>\<open>-1\<close>.
\<close>

theorem pton_ascii_safe:
  assumes src: "c_string src 0 = Some s" "\<forall>b \<in> set s. b < 0x80"
  shows "\<exists>m t r. b64_pton src None 0 = Some (None, m) \<and> b64_pton src (Some buf) (length buf) = Some (Some t, r) \<and>
    length t = length buf \<and> (r = -1 \<or> r = m \<and> r \<le> int (length buf))"
proof -
  have a: "ascii_str src" by (rule c_string_ascii [OF src])
  obtain l where l: "pton_len_loop src 0 0 = Some l" "\<And>ch src' st k'. l = Some (ch, src', st, k') \<Longrightarrow> ch = 0 \<or> ascii_str src'"
    using pton_len_loop_ends [OF a, of 0 0] by auto
  have "\<exists>m. b64_pton_len src = Some m"
  proof (cases l)
    case None
    then show ?thesis using l(1) by (simp add: b64_pton_len_def)
  next
    case (Some p)
    then obtain ch src' st k where p: "l = Some (ch, src', st, k)" by (cases p) auto
    obtain ok where "pton_tail ch src' st = Some ok" using pton_tail_ends [OF l(2) [OF p]] by blast
    then show ?thesis using l(1) p by (simp add: b64_pton_len_def)
  qed
  then obtain m where m: "b64_pton_len src = Some m" by blast
  have "inside (length buf) 0 0 buf" by (simp add: inside_def)
  from pton_loop_inside [OF a this] obtain x where
    x: "pton_loop src 0 0 buf (length buf) = Some x" "case x of Inl t \<Rightarrow> length t = length buf
      | Inr (ch, src', st, k', t) \<Rightarrow> inside (length buf) st k' t \<and> (ch = 0 \<or> ascii_str src')" by blast
  have "\<exists>t r. b64_pton_do src buf (length buf) = Some (t, r) \<and> length t = length buf \<and> (r = -1 \<or> r = m \<and> r \<le> int (length buf))"
  proof (cases x)
    case (Inl t)
    then show ?thesis using x by (simp add: b64_pton_do_def)
  next
    case (Inr y)
    then obtain ch src' st k t where y: "x = Inr (ch, src', st, k, t)" by (cases y) auto
    then have t: "inside (length buf) st k t" "ch = 0 \<or> ascii_str src'" using x(2) by simp_all
    obtain ok where ok: "pton_tail ch src' st = Some ok" using pton_tail_ends [OF t(2)] by blast
    have len: "m = (if ok then int k else -1)" using m ok pton_loop_counts [of src 0 0] x(1) y by (simp add: b64_pton_len_def)
    have "k < length t" if "ok" "ch = Pad64"
    proof -
      have "pton_tail ch src' 0 \<noteq> Some True" using that(2) by (cases src') (simp_all add: pton_tail_def)
      then have "st \<noteq> 0" using ok that(1) by (cases "st = 0") simp_all
      then show ?thesis using t(1) by (simp add: inside_def)
    qed
    then show ?thesis using x(1) y ok t(1) len by (auto simp: b64_pton_do_def rd8_def inside_def)
  qed
  then show ?thesis using m by (auto simp: b64_pton_def)
qed

text \<open>
  Text with a byte of 0x80 or more in the place of a base64 character makes \<^verbatim>\<open>b64_pton\<close> read in front of its table
  (\<open>None\<close>): the \<^verbatim>\<open>char\<close> is a negative index.
\<close>

theorem pton_negative_index:
  assumes "set s \<subseteq> set Base64" "b \<ge> 0x80"
  shows "b64_pton (s @ b # r) None 0 = None"
  using len_loop_negative [OF assms, of 0 r 0] by (simp add: b64_pton_def b64_pton_len_def)

lemma pton_negative_index_witness: "b64_pton (str_of ''aGkg'' @ [0]) None 0 = Some (None, 3) \<and> b64_pton (str_of ''aGkg'' @ [0xC3, 0xA9, 0]) None 0 = None"
proof -
  have "set (str_of ''aGkg'') \<subseteq> set Base64" by (simp add: Base64_def str_of_def of_char_def)
  then have "b64_pton (str_of ''aGkg'' @ [0xC3, 0xA9, 0]) None 0 = None" by (rule pton_negative_index) simp
  moreover have "b64_pton (str_of ''aGkg'' @ [0]) None 0 = Some (None, 3)" by code_simp
  ultimately show ?thesis by simp
qed

lemma pton_ascii_safe_witness:
  "\<exists>m t r. b64_pton (str_of ''a Gk='' @ [0]) None 0 = Some (None, m) \<and>
     b64_pton (str_of ''a Gk='' @ [0]) (Some [7, 7]) (length [7 :: u8, 7]) = Some (Some t, r) \<and>
     length t = length [7 :: u8, 7] \<and> (r = -1 \<or> r = m \<and> r \<le> int (length [7 :: u8, 7]))"
proof -
  have "c_string (str_of ''a Gk='' @ [0]) 0 = Some (str_of ''a Gk='')"
    by (simp add: c_string_def str_of_def of_char_def)
  moreover have "\<forall>b \<in> set (str_of ''a Gk=''). b < 0x80" by (simp add: str_of_def of_char_def)
  ultimately show ?thesis by (rule pton_ascii_safe)
qed

end
