(* ===== verification/Iso8601.thy ===== *)
theory Iso8601
  imports Timegm Keys
begin

text \<open>
  \<^verbatim>\<open>src/bson/bson-iso8601.c\<close>: dates as ISO 8601 text. The parser cuts the text into tokens and hands the fields to
  \<^verbatim>\<open>_bson_timegm\<close>; the printer takes the fields from the C library's \<^verbatim>\<open>gmtime_r\<close> and \<^verbatim>\<open>strftime\<close>.
\<close>

subsection \<open>Tokens and numbers\<close>

text \<open>
  The loop of \<^verbatim>\<open>get_tok\<close>, over the characters that remain: whether a terminal was found, \<^verbatim>\<open>*ptr\<close>, \<^verbatim>\<open>*remaining\<close> and
  \<^verbatim>\<open>*out_len\<close>, which starts at \<open>-1\<close>.
\<close>

primrec tok_loop :: "bytes \<Rightarrow> bytes \<Rightarrow> nat \<Rightarrow> int \<Rightarrow> nat \<Rightarrow> (bool \<times> nat \<times> nat \<times> int) option" where
  "tok_loop str terminals ptr out_len 0 = Some (False, ptr, 0, out_len)"
| "tok_loop str terminals ptr out_len (Suc n) = do {
     c \<leftarrow> rd8 str ptr;
     (if c \<in> set terminals then Some (True, ptr + 1, n, out_len + 1)
      else tok_loop str terminals (ptr + 1) (out_len + 1) n) }"

text \<open>The token begins where the pointer was; the answer is whether it ended, the pointer, what remains, its length.\<close>

definition get_tok :: "string \<Rightarrow> bytes \<Rightarrow> nat \<Rightarrow> nat \<Rightarrow> (bool \<times> nat \<times> nat \<times> nat) option" where
  "get_tok terminals str ptr remaining = do {
     (found, ptr', remaining', out_len) \<leftarrow> tok_loop str (str_of terminals) ptr (-1) remaining;
     Some (found, ptr', remaining', nat (if found then out_len else out_len + 1)) }"

primrec digits_only :: "bytes \<Rightarrow> nat \<Rightarrow> nat \<Rightarrow> bool option" where
  "digits_only str p 0 = Some True"
| "digits_only str p (Suc n) = do {
     c \<leftarrow> rd8 str p;
     (if \<not> c_isdigit c then Some False else digits_only str (p + 1) n) }"

text \<open>The sum over the digits from the last one on; \<open>n\<close> counts those that are left.\<close>

primrec num_loop :: "bytes \<Rightarrow> nat \<Rightarrow> nat \<Rightarrow> int \<Rightarrow> int \<Rightarrow> int option" where
  "num_loop str p 0 magnitude val = Some val"
| "num_loop str p (Suc n) magnitude val = do {
     c \<leftarrow> rd8 str (p + n);
     num_loop str p n (magnitude * 10) (val + (int (unat c) - 48) * magnitude) }"

definition parse_num :: "bytes \<Rightarrow> nat \<Rightarrow> nat \<Rightarrow> int \<Rightarrow> int \<Rightarrow> int \<Rightarrow> int option option" where
  "parse_num str p len digits lo hi =
     (if digits \<ge> 0 \<and> int len \<noteq> digits then Some None
      else do {
        ok \<leftarrow> digits_only str p len;
        (if \<not> ok then Some None
         else do {
           val \<leftarrow> num_loop str p len 1 0;
           Some (if val < lo \<or> val > hi then None else Some val) }) })"

text \<open>The early returns: the outer option is the access outside the text, the inner one \<^verbatim>\<open>return false\<close>.\<close>

definition parsed :: "'a option option \<Rightarrow> ('a \<Rightarrow> 'b option option) \<Rightarrow> 'b option option" where
  "parsed m f = (case m of None \<Rightarrow> None | Some None \<Rightarrow> Some None | Some (Some x) \<Rightarrow> f x)"

definition tok_must :: "string \<Rightarrow> bytes \<Rightarrow> nat \<Rightarrow> nat \<Rightarrow> (nat \<times> nat \<times> nat) option option" where
  "tok_must terminals str ptr remaining = do {
     (found, ptr', remaining', len) \<leftarrow> get_tok terminals str ptr remaining;
     Some (if found then Some (ptr', remaining', len) else None) }"

subsection \<open>The parser\<close>

text \<open>The seconds and the milliseconds, which are there only behind their separators: position and length of each.\<close>

definition iso_seconds :: "bytes \<Rightarrow> nat \<Rightarrow> nat \<Rightarrow> nat \<Rightarrow> nat \<Rightarrow> (nat \<times> nat \<times> nat \<times> nat) option option" where
  "iso_seconds str min_ptr min_len ptr remaining = do {
     c \<leftarrow> rd8 str (min_ptr + min_len);
     (if c = 0x3A then
        (if remaining < 2 then Some None
         else do {
           (_, ptr', remaining', sec_len) \<leftarrow> get_tok ''.+-Z'' str ptr remaining;
           Some (if sec_len = 0 then None else Some (ptr, sec_len, ptr', remaining')) })
      else Some (Some (0, 0, ptr, remaining))) }"

definition iso_millis :: "bytes \<Rightarrow> nat \<Rightarrow> nat \<Rightarrow> nat \<Rightarrow> nat \<Rightarrow> (nat \<times> nat \<times> nat \<times> nat) option option" where
  "iso_millis str sec_ptr sec_len ptr remaining = do {
     dot \<leftarrow> (if sec_len = 0 then Some False else do { c \<leftarrow> rd8 str (sec_ptr + sec_len); Some (c = 0x2E) });
     (if dot then
        (if remaining < 2 then Some None
         else do {
           (_, ptr', remaining', millis_len) \<leftarrow> get_tok ''+-Z'' str ptr remaining;
           Some (if millis_len = 0 then None else Some (ptr, millis_len, ptr', remaining')) })
      else Some (Some (0, 0, ptr, remaining))) }"

text \<open>The offset of the time zone in seconds, to be added.\<close>

definition iso_zone :: "bytes \<Rightarrow> nat \<Rightarrow> nat \<Rightarrow> int option option" where
  "iso_zone str tz_ptr tz_len =
     (if tz_len > 0 then do {
        c \<leftarrow> rd8 str tz_ptr;
        (if c = 0x5A \<and> tz_len = 1 then Some (Some 0)
         else if c = 0x2B \<or> c = 0x2D then
           (if tz_len \<noteq> 5 then Some None
            else do {
              ok \<leftarrow> digits_only str (tz_ptr + 1) 4;
              (if \<not> ok then Some None
               else parsed (parse_num str (tz_ptr + 1) 2 (-1) (-23) 23) (\<lambda>tz_hour.
                 parsed (parse_num str (tz_ptr + 3) 2 (-1) 0 59) (\<lambda>tz_min.
                   let tz_adjustment = (if c = 0x2D then 1 else -1) * (tz_min * 60 + tz_hour * 60 * 60)
                   in Some (if \<not> (tz_adjustment > -86400 \<and> tz_adjustment < 86400) then None else Some tz_adjustment)))) })
         else Some None) }
      else Some (Some 0))"

text \<open>The milliseconds from one to three digits.\<close>

definition iso_fraction :: "bytes \<Rightarrow> nat \<Rightarrow> nat \<Rightarrow> int option option" where
  "iso_fraction str millis_ptr millis_len =
     (if millis_len > 0 then
        (if millis_len > 3 then Some None
         else do {
           ok \<leftarrow> digits_only str millis_ptr millis_len;
           (if \<not> ok then Some None
            else do {
              millis \<leftarrow> num_loop str millis_ptr millis_len 1 0;
              let millis = (if millis_len = 1 then millis * 100 else if millis_len = 2 then millis * 10 else millis);
              Some (if millis < 0 \<or> millis > 1000 then None else Some millis) }) })
      else Some (Some 0))"

definition bson_iso8601_date_parse :: "bytes \<Rightarrow> nat \<Rightarrow> int option option" where
  "bson_iso8601_date_parse str len =
     parsed (tok_must ''-'' str 0 len) (\<lambda>(month_ptr, remaining, year_len).
     parsed (tok_must ''-'' str month_ptr remaining) (\<lambda>(day_ptr, remaining, month_len).
     parsed (tok_must ''T'' str day_ptr remaining) (\<lambda>(hour_ptr, remaining, day_len).
     parsed (tok_must '':'' str hour_ptr remaining) (\<lambda>(min_ptr, remaining, hour_len).
     parsed (tok_must '':+-Z'' str min_ptr remaining) (\<lambda>(ptr, remaining, min_len).
     parsed (iso_seconds str min_ptr min_len ptr remaining) (\<lambda>(sec_ptr, sec_len, ptr, remaining).
     parsed (iso_millis str sec_ptr sec_len ptr remaining) (\<lambda>(millis_ptr, millis_len, ptr, remaining).
       let tz_ptr = ptr - 1; remaining = remaining + 1 in
       do {
         (_, _, _, tz_len) \<leftarrow> get_tok '''' str tz_ptr remaining;
         parsed (parse_num str 0 year_len 4 (-9999) 9999) (\<lambda>year.
         parsed (parse_num str month_ptr month_len 2 1 12) (\<lambda>month.
         parsed (parse_num str day_ptr day_len 2 1 31) (\<lambda>day.
         parsed (parse_num str hour_ptr hour_len 2 0 23) (\<lambda>hour.
         parsed (parse_num str min_ptr min_len 2 0 59) (\<lambda>min.
         parsed (if sec_len = 0 then Some (Some 0) else parse_num str sec_ptr sec_len 2 0 60) (\<lambda>sec.
         parsed (iso_zone str tz_ptr tz_len) (\<lambda>tz_adjustment.
         parsed (iso_fraction str millis_ptr millis_len) (\<lambda>millis.
           let posix_date = \<lparr>tm_sec = sec, tm_min = min, tm_hour = hour, tm_mday = day, tm_mon = month - 1, tm_year = year - 1900,
                 tm_wday = 0, tm_yday = 0, tm_isdst = 0\<rparr>
           in Some (Some (1000 * fst (bson_timegm posix_date) + millis + tz_adjustment * 1000)))))))))) })))))))"

subsection \<open>The printer\<close>

text \<open>
  \<^verbatim>\<open>gmtime_r\<close> of the C library gives the date in the Gregorian calendar; \<open>gmtsub\<close>, the function that \<^verbatim>\<open>bson-timegm.c\<close> takes
  from the same source, computes it. \<^verbatim>\<open>strftime\<close> prints two digits per field, and the year as it is. \<^verbatim>\<open>%3\<close> fills with blanks.
\<close>

definition digit_char :: "nat \<Rightarrow> u8" where
  "digit_char n = word_of_nat (48 + n mod 10)"

definition two_digits :: "int \<Rightarrow> bytes" where
  "two_digits n = [digit_char (nat n div 10), digit_char (nat n)]"

definition signed_decimal :: "int \<Rightarrow> bytes" where
  "signed_decimal n = (if n < 0 then 0x2D # decimal (nat (- n)) else decimal (nat n))"

definition strftime_iso :: "bson_tm \<Rightarrow> bytes" where
  "strftime_iso tm = signed_decimal (tm_year tm + 1900) @ [0x2D] @ two_digits (tm_mon tm + 1) @ [0x2D] @ two_digits (tm_mday tm) @ [0x54] @
     two_digits (tm_hour tm) @ [0x3A] @ two_digits (tm_min tm) @ [0x3A] @ two_digits (tm_sec tm)"

definition printf_width :: "nat \<Rightarrow> int \<Rightarrow> bytes" where
  "printf_width w n = (let s = signed_decimal n in replicate (w - length s) 0x20 @ s)"

text \<open>The time is the number of milliseconds; division truncates.\<close>

definition bson_iso8601_date_format :: "(nat \<Rightarrow> u8) \<Rightarrow> int \<Rightarrow> bson_string \<Rightarrow> bson_string option" where
  "bson_iso8601_date_format junk msec_since_epoch str = do {
     let msecs_part = msec_since_epoch smod 1000;
     let t = msec_since_epoch sdiv 1000;
     posix_date \<leftarrow> gmtsub t;
     let buf = strftime_iso posix_date;
     (if msecs_part \<noteq> 0 then bson_string_append_printf junk str (buf @ [0x2E] @ printf_width 3 msecs_part @ [0x5A])
      else do {
        s \<leftarrow> bson_string_append junk str (buf @ [0]);
        bson_string_append_c junk s 0x5A }) }"


subsection \<open>Reading tokens and numbers\<close>

lemma drop_Cons_nth: "drop p str = c # r \<Longrightarrow> p < length str \<and> str ! p = c \<and> drop (p + 1) str = r"
  by (metis Cons_nth_drop_Suc Suc_eq_plus1 drop_eq_Nil2 leI list.discI list.inject)

lemma rd8_drop: "drop p str = c # r \<Longrightarrow> rd8 str p = Some c"
  using drop_Cons_nth [of p str c r] by (simp add: rd8_def)

lemma drop_step: "drop p str = c # r \<Longrightarrow> drop (p + 1) str = r"
  using drop_Cons_nth [of p str c r] by simp

lemma drop_at: "drop p str = s @ r \<Longrightarrow> drop (p + length s) str = r"
  using drop_drop [of "length s" p str] by (simp add: add.commute)

lemma rd8_drop_at: "drop p str = s @ c # r \<Longrightarrow> rd8 str (p + length s) = Some c"
  using rd8_drop [OF drop_at] .

lemma tok_loop_found:
  assumes "drop p str = s @ t # r" "set s \<inter> set terminals = {}" "t \<in> set terminals"
  shows "tok_loop str terminals p k (length s + 1 + m) = Some (True, p + length s + 1, m, k + int (length s) + 1)"
  using assms
proof (induction s arbitrary: p k)
  case Nil
  then show ?case by (simp add: rd8_drop)
next
  case (Cons c s)
  then have "drop (p + 1) str = s @ t # r" using drop_step [of p str c] by simp
  with Cons show ?case by (simp add: rd8_drop)
qed

lemma tok_loop_none:
  assumes "drop p str = s @ r" "set s \<inter> set terminals = {}"
  shows "tok_loop str terminals p k (length s) = Some (False, p + length s, 0, k + int (length s))"
  using assms
proof (induction s arbitrary: p k)
  case (Cons c s)
  then have "drop (p + 1) str = s @ r" using drop_step [of p str c] by simp
  with Cons show ?case by (simp add: rd8_drop)
qed simp

lemma get_tok_found:
  assumes "drop p str = s @ t # r" "set s \<inter> set (str_of terminals) = {}" "t \<in> set (str_of terminals)" "n = length s + 1 + m"
  shows "get_tok terminals str p n = Some (True, p + length s + 1, m, length s)"
    "tok_must terminals str p n = Some (Some (p + length s + 1, m, length s))"
  using tok_loop_found [OF assms(1-3), of "-1" m] assms(4) by (simp_all add: get_tok_def tok_must_def)

lemma get_tok_rest: "drop p str = s @ r \<Longrightarrow> n = length s \<Longrightarrow> get_tok '''' str p n = Some (False, p + length s, 0, length s)"
  using tok_loop_none [of p str s r "str_of ''''" "-1"] by (simp add: get_tok_def str_of_def)

lemma digits_only_at: "drop p str = s @ r \<Longrightarrow> digits_only str p (length s) = Some (list_all c_isdigit s)"
proof (induction s arbitrary: p)
  case (Cons c s)
  then have "drop (p + 1) str = s @ r" using drop_step [of p str c] by simp
  with Cons show ?case by (simp add: rd8_drop)
qed simp

definition digits_val :: "bytes \<Rightarrow> int" where
  "digits_val s = foldl (\<lambda>v c. 10 * v + (int (unat c) - 48)) 0 s"

lemma num_loop_at:
  assumes "drop p str = s @ r" "n \<le> length s"
  shows "num_loop str p n magnitude v = Some (v + magnitude * digits_val (take n s))"
  using assms(2)
proof (induction n arbitrary: magnitude v)
  case 0
  then show ?case by (simp add: digits_val_def)
next
  case (Suc n)
  then have "s = take n s @ s ! n # drop (Suc n) s" by (simp add: Cons_nth_drop_Suc)
  then have "drop p str = take n s @ s ! n # (drop (Suc n) s @ r)" using assms(1) by (metis append.assoc append_Cons)
  then have "rd8 str (p + n) = Some (s ! n)" using rd8_drop_at [of p str "take n s"] Suc.prems by simp
  with Suc show ?case by (simp add: digits_val_def take_Suc_conv_app_nth algebra_simps)
qed

primrec num_text :: "nat \<Rightarrow> nat \<Rightarrow> bytes" where
  "num_text 0 n = []"
| "num_text (Suc k) n = digit_char (n div 10 ^ k) # num_text k n"

lemma length_num_text [simp]: "length (num_text k n) = k"
  by (induction k) auto

lemma digit_byte: "unat (digit_char n) = 48 + n mod 10"
proof -
  have "48 + n mod 10 < 256" using mod_less_divisor [of 10 n] by linarith
  then show ?thesis unfolding digit_char_def by (simp only: unat_of_nat_u8) simp
qed

lemma num_text_digits: "list_all c_isdigit (num_text k n)"
proof (induction k)
  case (Suc k)
  have "c_isdigit (digit_char m)" for m using mod_less_divisor [of 10 m] by (simp add: c_isdigit_def word_le_nat_alt digit_byte)
  with Suc show ?case by simp
qed simp

lemma digits_val_Cons: "digits_val (c # s) = (int (unat c) - 48) * 10 ^ length s + digits_val s"
proof -
  have "foldl (\<lambda>v c. 10 * v + (int (unat c) - 48)) v s = v * 10 ^ length s + foldl (\<lambda>v c. 10 * v + (int (unat c) - 48)) 0 s" for v :: int
  proof (induction s arbitrary: v)
    case (Cons d s)
    show ?case unfolding foldl_Cons Cons [of "10 * v + _"] Cons [of "10 * 0 + _"] by (simp add: algebra_simps)
  qed simp
  from this [of "int (unat c) - 48"] show ?thesis by (simp add: digits_val_def)
qed

lemma digits_val_num: "digits_val (num_text k n) = int (n mod 10 ^ k)"
proof (induction k)
  case (Suc k)
  have "n mod (10 ^ k * 10) = 10 ^ k * (n div 10 ^ k mod 10) + n mod 10 ^ k" by (rule mod_mult2_eq)
  moreover have "int (unat (digit_char (n div 10 ^ k))) - 48 = int (n div 10 ^ k mod 10)" by (simp add: digit_byte)
  ultimately show ?case using Suc by (simp only: num_text.simps digits_val_Cons length_num_text power_Suc mult.commute of_nat_add of_nat_mult of_nat_power of_nat_numeral)
qed (simp add: digits_val_def)

lemma parse_num_at:
  assumes "drop p str = num_text k n @ r" "n < 10 ^ k" "digits < 0 \<or> digits = int k"
  shows "parse_num str p k digits lo hi = Some (if int n < lo \<or> int n > hi then None else Some (int n))"
proof -
  have "digits_only str p k = Some True" using digits_only_at [OF assms(1)] num_text_digits [of k n] by simp
  moreover have "num_loop str p k 1 0 = Some (int n)" using num_loop_at [OF assms(1), of k 1 0] assms(2) by (simp add: digits_val_num)
  ultimately show ?thesis using assms(3) by (auto simp: parse_num_def)
qed

lemma digit_no_terminal:
  assumes "list_all c_isdigit s"
  shows "set s \<inter> set (str_of '':+-Z'') = {}" "set s \<inter> set (str_of ''.+-Z'') = {}" "set s \<inter> set (str_of ''+-Z'') = {}"
    "set s \<inter> set (str_of ''-'') = {}" "set s \<inter> set (str_of ''T'') = {}" "set s \<inter> set (str_of '':'') = {}"
proof -
  have d: "c_isdigit c" if "c \<in> set s" for c using assms that by (simp add: list_all_iff)
  have n: "\<not> c_isdigit 0x2E" "\<not> c_isdigit 0x2B" "\<not> c_isdigit 0x2D" "\<not> c_isdigit 0x5A" "\<not> c_isdigit 0x54" "\<not> c_isdigit 0x3A"
    by (simp_all add: c_isdigit_def)
  show "set s \<inter> set (str_of '':+-Z'') = {}" "set s \<inter> set (str_of ''.+-Z'') = {}" "set s \<inter> set (str_of ''+-Z'') = {}"
    "set s \<inter> set (str_of ''-'') = {}" "set s \<inter> set (str_of ''T'') = {}" "set s \<inter> set (str_of '':'') = {}"
    using d n by (auto simp: str_of_def of_char_def)
qed

lemmas num_no_terminal = digit_no_terminal [OF num_text_digits]

subsection \<open>The text of a date\<close>

text \<open>
  Seconds may be missing, and then the fraction (a number of one to three digits); the zone is \<open>Z\<close> or a sign with hours and
  minutes.
\<close>

definition zone_text :: "(bool \<times> nat \<times> nat) option \<Rightarrow> bytes" where
  "zone_text z = (case z of None \<Rightarrow> [0x5A] | Some (neg, h, m) \<Rightarrow> (if neg then 0x2D else 0x2B) # num_text 2 h @ num_text 2 m)"

definition zone_secs :: "(bool \<times> nat \<times> nat) option \<Rightarrow> int" where
  "zone_secs z = (case z of None \<Rightarrow> 0 | Some (neg, h, m) \<Rightarrow> (if neg then 1 else -1) * (int m * 60 + int h * 3600))"

definition zone_ok :: "(bool \<times> nat \<times> nat) option \<Rightarrow> bool" where
  "zone_ok z = (case z of None \<Rightarrow> True | Some (neg, h, m) \<Rightarrow> h \<le> 23 \<and> m \<le> 59)"

definition secs_text :: "(nat \<times> (nat \<times> nat) option) option \<Rightarrow> bytes" where
  "secs_text s = (case s of None \<Rightarrow> [] | Some (n, fr) \<Rightarrow>
     0x3A # num_text 2 n @ (case fr of None \<Rightarrow> [] | Some (k, f) \<Rightarrow> 0x2E # num_text k f))"

definition secs_ok :: "(nat \<times> (nat \<times> nat) option) option \<Rightarrow> bool" where
  "secs_ok s = (case s of None \<Rightarrow> True | Some (n, fr) \<Rightarrow> n \<le> 60 \<and>
     (case fr of None \<Rightarrow> True | Some (k, f) \<Rightarrow> (k = 1 \<or> k = 2 \<or> k = 3) \<and> f < 10 ^ k))"

definition secs_ms :: "(nat \<times> (nat \<times> nat) option) option \<Rightarrow> int" where
  "secs_ms s = (case s of None \<Rightarrow> 0 | Some (n, fr) \<Rightarrow> (case fr of None \<Rightarrow> 0 | Some (k, f) \<Rightarrow> int f * 10 ^ (3 - k)))"

definition date_text :: "nat \<Rightarrow> nat \<Rightarrow> nat \<Rightarrow> nat \<Rightarrow> nat \<Rightarrow> bytes" where
  "date_text y mo dy h mi = num_text 4 y @ 0x2D # num_text 2 mo @ 0x2D # num_text 2 dy @ 0x54 # num_text 2 h @ 0x3A # num_text 2 mi"

definition date_fields :: "nat \<Rightarrow> nat \<Rightarrow> nat \<Rightarrow> nat \<Rightarrow> nat \<Rightarrow> (nat \<times> 'a) option \<Rightarrow> bson_tm" where
  "date_fields y mo dy h mi s = \<lparr>tm_sec = (case s of None \<Rightarrow> 0 | Some (n, fr) \<Rightarrow> int n), tm_min = int mi, tm_hour = int h,
     tm_mday = int dy, tm_mon = int mo - 1, tm_year = int y - 1900, tm_wday = 0, tm_yday = 0, tm_isdst = 0\<rparr>"

lemma zone_head: "\<exists>c r. zone_text z = c # r \<and> (c = 0x5A \<or> c = 0x2B \<or> c = 0x2D)"
  by (cases z) (auto simp: zone_text_def split: prod.splits)

lemma iso_zone_at:
  assumes "drop p str = zone_text z @ r" "zone_ok z"
  shows "iso_zone str p (length (zone_text z)) = Some (Some (zone_secs z))"
proof (cases z)
  case None
  then show ?thesis using assms(1) rd8_drop [of p str "0x5A"] by (simp add: iso_zone_def zone_text_def zone_secs_def)
next
  case (Some q)
  obtain mi h m where z: "z = Some (mi, h, m)" using Some by (cases q) auto
  define c where "c = (if mi then 0x2D else 0x2B :: u8)"
  have zt: "zone_text z = c # num_text 2 h @ num_text 2 m" by (simp add: zone_text_def z c_def)
  have b: "h \<le> 23" "m \<le> 59" using assms(2) by (simp_all add: zone_ok_def z)
  have d1: "drop (p + 1) str = num_text 2 h @ num_text 2 m @ r" using drop_step [of p str c] assms(1) zt by simp
  have d3: "drop (p + 3) str = num_text 2 m @ r" using drop_at [OF d1] by (simp add: numeral_3_eq_3)
  have "drop (p + 1) str = (num_text 2 h @ num_text 2 m) @ r" using d1 by simp
  from digits_only_at [OF this] have dg: "digits_only str (p + 1) 4 = Some True" using num_text_digits by simp
  have n: "parse_num str (p + 1) 2 (-1) (-23) 23 = Some (Some (int h))" "parse_num str (p + 3) 2 (-1) 0 59 = Some (Some (int m))"
    using parse_num_at [OF d1, of "-1" "-23" 23] parse_num_at [OF d3, of "-1" 0 59] b by simp_all
  have "rd8 str p = Some c" using rd8_drop [of p str c] assms(1) zt by simp
  moreover have "c \<noteq> 0x5A" "c = 0x2B \<or> c = 0x2D" "c = 0x2D \<longleftrightarrow> mi" by (simp_all add: c_def)
  moreover have "length (zone_text z) = 5" by (simp add: zt)
  moreover have "zone_secs z = (if mi then 1 else -1) * (int m * 60 + int h * 3600)" by (simp add: zone_secs_def z)
  ultimately show ?thesis using dg n b by (auto simp: iso_zone_def parsed_def Let_def)
qed

text \<open>What follows the minutes: the position of the time zone, the seconds and the fraction.\<close>

lemma iso_tail_fraction:
  assumes at: "drop mp str = num_text 2 mi @ 0x3A # num_text 2 n @ 0x2E # fx @ zone_text z @ r" and n: "n \<le> 60"
    and fx: "set fx \<inter> set (str_of ''+-Z'') = {}" "fx \<noteq> []" and rem: "remaining = 6 + length fx + length (zone_text z)"
  obtains p1 m1 m2 m3 where
    "tok_must '':+-Z'' str mp remaining = Some (Some (p1, m1, 2))"
    "iso_seconds str mp 2 p1 m1 = Some (Some (mp + 3, 2, mp + 6, m2))"
    "iso_millis str (mp + 3) 2 (mp + 6) m2 = Some (Some (mp + 6, length fx, mp + 6 + length fx + 1, m3))"
    "drop (mp + 6 + length fx) str = zone_text z @ r" "m3 + 1 = length (zone_text z)"
    "parse_num str (mp + 3) 2 2 0 60 = Some (Some (int n))" "drop (mp + 6) str = fx @ zone_text z @ r"
proof -
  obtain c zr where z: "zone_text z = c # zr" "c = 0x5A \<or> c = 0x2B \<or> c = 0x2D" using zone_head by blast
  then have zt: "c \<in> set (str_of ''+-Z'')" by (auto simp: str_of_def of_char_def)
  define m1 where "m1 = 3 + length fx + length (zone_text z)"
  define m2 where "m2 = length fx + length (zone_text z)"
  have colon: "0x3A \<in> set (str_of '':+-Z'')" and dot: "0x2E \<in> set (str_of ''.+-Z'')" by (simp_all add: str_of_def of_char_def)
  have t1: "tok_must '':+-Z'' str mp remaining = Some (Some (mp + 3, m1, 2))"
    using get_tok_found(2) [OF at num_no_terminal(1) colon, of remaining m1] rem by (simp add: m1_def numeral_3_eq_3)
  have c1: "rd8 str (mp + 2) = Some 0x3A" using rd8_drop_at [OF at] by simp
  have e: "mp + length (num_text 2 mi) + 1 = mp + 3" "mp + 3 + length (num_text 2 n) + 1 = mp + 6" by simp_all
  have b: "drop (mp + 3) str = num_text 2 n @ 0x2E # fx @ zone_text z @ r" using drop_step [OF drop_at [OF at]] unfolding e .
  have pn: "parse_num str (mp + 3) 2 2 0 60 = Some (Some (int n))" using parse_num_at [OF b, of 2 0 60] n by simp
  have "get_tok ''.+-Z'' str (mp + 3) m1 = Some (True, mp + 6, m2, 2)"
    using get_tok_found(1) [OF b num_no_terminal(2) dot, of m1 m2] by (simp add: m1_def m2_def)
  then have s1: "iso_seconds str mp 2 (mp + 3) m1 = Some (Some (mp + 3, 2, mp + 6, m2))"
    using c1 by (simp add: iso_seconds_def m1_def)
  have d0: "drop (mp + 6) str = fx @ zone_text z @ r" using drop_step [OF drop_at [OF b]] unfolding e .
  then have d: "drop (mp + 6) str = fx @ c # zr @ r" by (simp add: z)
  have "get_tok ''+-Z'' str (mp + 6) m2 = Some (True, mp + 6 + length fx + 1, length zr, length fx)"
    using get_tok_found(1) [OF d fx(1) zt, of m2 "length zr"] by (simp add: z m2_def)
  moreover have "rd8 str (mp + 3 + 2) = Some 0x2E" using rd8_drop_at [OF b] by simp
  moreover have "\<not> m2 < 2" using fx(2) by (cases fx) (simp_all add: m2_def z)
  ultimately have s2: "iso_millis str (mp + 3) 2 (mp + 6) m2 = Some (Some (mp + 6, length fx, mp + 6 + length fx + 1, length zr))"
    using fx(2) by (auto simp: iso_millis_def)
  have "drop (mp + 6 + length fx) str = zone_text z @ r" by (rule drop_at [OF d0])
  then show ?thesis using that [OF t1 s1 s2 _ _ pn d0] by (simp add: z)
qed

lemma iso_tail:
  assumes at: "drop mp str = num_text 2 mi @ secs_text s @ zone_text z @ r" and ok: "secs_ok s"
    and rem: "remaining = 2 + length (secs_text s) + length (zone_text z)"
  obtains p1 m1 sp sl p2 m2 fp fl p3 m3 where
    "tok_must '':+-Z'' str mp remaining = Some (Some (p1, m1, 2))"
    "iso_seconds str mp 2 p1 m1 = Some (Some (sp, sl, p2, m2))"
    "iso_millis str sp sl p2 m2 = Some (Some (fp, fl, p3, m3))"
    "drop (p3 - 1) str = zone_text z @ r" "m3 + 1 = length (zone_text z)"
    "(if sl = 0 then Some (Some 0) else parse_num str sp sl 2 0 60) = Some (Some (case s of None \<Rightarrow> 0 | Some (n, fr) \<Rightarrow> int n))"
    "iso_fraction str fp fl = Some (Some (secs_ms s))"
proof -
  obtain c zr where z: "zone_text z = c # zr" "c = 0x5A \<or> c = 0x2B \<or> c = 0x2D" using zone_head by blast
  then have zt: "c \<in> set (str_of '':+-Z'')" "c \<in> set (str_of ''.+-Z'')" "c \<in> set (str_of ''+-Z'')" "c \<noteq> 0x3A" "c \<noteq> 0x2E"
    by (auto simp: str_of_def of_char_def)
  show ?thesis
  proof (cases s)
    case None
    have a: "drop mp str = num_text 2 mi @ c # zr @ r" using at by (simp add: None secs_text_def z)
    have "tok_must '':+-Z'' str mp remaining = Some (Some (mp + 3, length zr, 2))"
      using get_tok_found(2) [OF a num_no_terminal(1) zt(1), of remaining "length zr"] rem by (simp add: None secs_text_def z numeral_3_eq_3)
    moreover have "rd8 str (mp + 2) = Some c" using rd8_drop_at [OF a] by simp
    moreover have "drop (mp + 2) str = zone_text z @ r" using drop_at [OF a] by (simp add: z)
    ultimately show ?thesis using zt
      by (intro that [of "mp + 3" "length zr" 0 0 "mp + 3" "length zr" 0 0 "mp + 3" "length zr"])
        (simp_all add: iso_seconds_def iso_millis_def iso_fraction_def None secs_ms_def z)
  next
    case (Some q)
    obtain n fr where s: "s = Some (n, fr)" using Some by (cases q) auto
    define ft where "ft = (case fr of None \<Rightarrow> [] | Some (k, f) \<Rightarrow> 0x2E # num_text k f)"
    have st: "secs_text s = 0x3A # num_text 2 n @ ft" by (simp add: s secs_text_def ft_def)
    have a: "drop mp str = num_text 2 mi @ 0x3A # num_text 2 n @ ft @ zone_text z @ r" using at by (simp add: st)
    have n: "n \<le> 60" using ok by (simp add: s secs_ok_def)
    define m1 where "m1 = 2 + length ft + length (zone_text z)"
    have colon: "0x3A \<in> set (str_of '':+-Z'')" by (simp add: str_of_def of_char_def)
    have t1: "tok_must '':+-Z'' str mp remaining = Some (Some (mp + 3, m1, 2))"
      using get_tok_found(2) [OF a num_no_terminal(1) colon, of remaining m1] rem by (simp add: st m1_def numeral_3_eq_3)
    have c1: "rd8 str (mp + 2) = Some 0x3A" using rd8_drop_at [OF a] by simp
    have b: "drop (mp + 3) str = num_text 2 n @ ft @ zone_text z @ r" using drop_step [OF drop_at [OF a]] by (simp add: numeral_3_eq_3)
    have pn: "parse_num str (mp + 3) 2 2 0 60 = Some (Some (int n))" using parse_num_at [OF b, of 2 0 60] n by simp
    show ?thesis
    proof (cases fr)
      case None
      have b': "drop (mp + 3) str = num_text 2 n @ c # zr @ r" using b by (simp add: ft_def None z)
      have "get_tok ''.+-Z'' str (mp + 3) m1 = Some (True, mp + 6, length zr, 2)"
        using get_tok_found(1) [OF b' num_no_terminal(2) zt(2), of m1 "length zr"] by (simp add: m1_def ft_def None z)
      then have "iso_seconds str mp 2 (mp + 3) m1 = Some (Some (mp + 3, 2, mp + 6, length zr))"
        using c1 by (simp add: iso_seconds_def m1_def)
      moreover have "rd8 str (mp + 3 + 2) = Some c" using rd8_drop_at [OF b'] by simp
      then have "iso_millis str (mp + 3) 2 (mp + 6) (length zr) = Some (Some (0, 0, mp + 6, length zr))"
        using zt by (simp add: iso_millis_def)
      moreover have "drop (mp + 6 - 1) str = zone_text z @ r" using drop_at [OF b'] by (simp add: z)
      ultimately show ?thesis using t1 pn
        by (intro that [of "mp + 3" m1 "mp + 3" 2 "mp + 6" "length zr" 0 0 "mp + 6" "length zr"])
          (simp_all add: iso_fraction_def s None secs_ms_def z)
    next
      case (Some q)
      obtain k f where fr: "fr = Some (k, f)" using Some by (cases q) auto
      have k: "k = 1 \<or> k = 2 \<or> k = 3" "f < 10 ^ k" using ok by (auto simp: s secs_ok_def fr)
      have b': "drop mp str = num_text 2 mi @ 0x3A # num_text 2 n @ 0x2E # num_text k f @ zone_text z @ r" using a by (simp add: ft_def fr)
      have rm: "remaining = 6 + length (num_text k f) + length (zone_text z)" using rem by (simp add: st ft_def fr)
      have ne: "num_text k f \<noteq> []" using k(1) by (metis length_num_text list.size(3) zero_neq_one zero_neq_numeral)
      obtain p1 m1 m2 m3 where tl: "tok_must '':+-Z'' str mp remaining = Some (Some (p1, m1, 2))"
        "iso_seconds str mp 2 p1 m1 = Some (Some (mp + 3, 2, mp + 6, m2))"
        "iso_millis str (mp + 3) 2 (mp + 6) m2 = Some (Some (mp + 6, k, mp + 6 + k + 1, m3))"
        "drop (mp + 6 + k) str = zone_text z @ r" "m3 + 1 = length (zone_text z)"
        "drop (mp + 6) str = num_text k f @ zone_text z @ r"
        using iso_tail_fraction [OF b' n num_no_terminal(3) ne rm] unfolding length_num_text by metis
      note d = tl(6)
      have "iso_fraction str (mp + 6) k = Some (Some (secs_ms s))"
      proof -
        have "digits_only str (mp + 6) k = Some True" using digits_only_at [OF d] num_text_digits [of k f] by simp
        moreover have "num_loop str (mp + 6) k 1 0 = Some (int f)" using num_loop_at [OF d, of k 1 0] k(2) by (simp add: digits_val_num)
        ultimately show ?thesis using k by (auto simp: iso_fraction_def secs_ms_def s fr)
      qed
      note fr_ok = this
      have e: "mp + 6 + k + 1 - 1 = mp + 6 + k" by simp
      show ?thesis
        by (rule that [OF tl(1-3) _ tl(5) _ fr_ok]) (use tl(4) pn in \<open>simp_all only: e, simp_all add: s\<close>)
    qed
  qed
qed

lemma timegm_fields:
  assumes "y < 10000" "mo \<le> 12" "dy \<le> 31" "h \<le> 23" "mi \<le> 59" "secs_ok s"
  shows "fst (bson_timegm (date_fields y mo dy h mi s)) = calendar_secs (date_fields y mo dy h mi s)"
proof -
  have "0 \<le> tm_sec (date_fields y mo dy h mi s) \<and> tm_sec (date_fields y mo dy h mi s) \<le> 60"
    using assms(6) by (auto simp: date_fields_def secs_ok_def split: option.splits)
  moreover define x where "x = date_fields y mo dy h mi s"
  ultimately obtain tm1 where t: "time2sub False x = (calendar_secs x, True, tm1)"
    using time2sub_ok [of "date_fields y mo dy h mi s"] assms by (auto simp: date_fields_def abs_le_iff)
  have e: "x\<lparr>tm_isdst := 0\<rparr> = x" "\<not> 1 < tm_isdst x" by (simp_all add: x_def date_fields_def)
  have "bson_timegm x = (calendar_secs x, tm1)"
    unfolding bson_timegm_def e(1) time1_def time2_def by (simp add: t e(2))
  then show ?thesis by (simp add: x_def)
qed

text \<open>The parser with the first five fields read.\<close>

lemma parse_chain:
  assumes "y < 10000" "1 \<le> mo" "mo \<le> 12" "1 \<le> dy" "dy \<le> 31" "h \<le> 23" "mi \<le> 59" "zone_ok z"
    and tl: "tok_must '':+-Z'' (date_text y mo dy h mi @ rs) 14 (n + 2) = Some (Some (p1, m1, 2))"
    "iso_seconds (date_text y mo dy h mi @ rs) 14 2 p1 m1 = Some (Some (sp, sl, p2, m2))"
    "iso_millis (date_text y mo dy h mi @ rs) sp sl p2 m2 = Some (Some (fp, fl, p3, m3))"
    "drop (p3 - 1) (date_text y mo dy h mi @ rs) = zone_text z @ r" "m3 + 1 = length (zone_text z)"
    "(if sl = 0 then Some (Some 0) else parse_num (date_text y mo dy h mi @ rs) sp sl 2 0 60) =
      Some (Some (case s of None \<Rightarrow> 0 | Some (n, fr) \<Rightarrow> int n))"
  shows "bson_iso8601_date_parse (date_text y mo dy h mi @ rs) (n + 16) =
    parsed (iso_fraction (date_text y mo dy h mi @ rs) fp fl)
      (\<lambda>millis. Some (Some (1000 * fst (bson_timegm (date_fields y mo dy h mi s)) + millis + zone_secs z * 1000)))"
proof -
  define str where "str = date_text y mo dy h mi @ rs"
  have at0: "drop 0 str = num_text 4 y @ 0x2D # num_text 2 mo @ 0x2D # num_text 2 dy @ 0x54 # num_text 2 h @ 0x3A # num_text 2 mi @ rs"
    by (simp add: str_def date_text_def)
  have at5: "drop 5 str = num_text 2 mo @ 0x2D # num_text 2 dy @ 0x54 # num_text 2 h @ 0x3A # num_text 2 mi @ rs"
    using drop_step [OF drop_at [OF at0]] by simp
  have at8: "drop 8 str = num_text 2 dy @ 0x54 # num_text 2 h @ 0x3A # num_text 2 mi @ rs"
    using drop_step [OF drop_at [OF at5]] by simp
  have at11: "drop 11 str = num_text 2 h @ 0x3A # num_text 2 mi @ rs"
    using drop_step [OF drop_at [OF at8]] by simp
  have at14: "drop 14 str = num_text 2 mi @ rs" using drop_step [OF drop_at [OF at11]] by simp
  have t: "tok_must ''-'' str 0 (n + 16) = Some (Some (5, n + 11, 4))" "tok_must ''-'' str 5 (n + 11) = Some (Some (8, n + 8, 2))"
    "tok_must ''T'' str 8 (n + 8) = Some (Some (11, n + 5, 2))" "tok_must '':'' str 11 (n + 5) = Some (Some (14, n + 2, 2))"
    using get_tok_found(2) [OF at0 num_no_terminal(4), of "n + 16" "n + 11"] get_tok_found(2) [OF at5 num_no_terminal(4), of "n + 11" "n + 8"]
      get_tok_found(2) [OF at8 num_no_terminal(5), of "n + 8" "n + 5"] get_tok_found(2) [OF at11 num_no_terminal(6), of "n + 5" "n + 2"]
    by (simp_all add: str_of_def of_char_def)
  have nums: "parse_num str 0 4 4 (-9999) 9999 = Some (Some (int y))" "parse_num str 5 2 2 1 12 = Some (Some (int mo))"
    "parse_num str 8 2 2 1 31 = Some (Some (int dy))" "parse_num str 11 2 2 0 23 = Some (Some (int h))"
    "parse_num str 14 2 2 0 59 = Some (Some (int mi))"
    using assms(1-7) parse_num_at [OF at0, of 4 "-9999" 9999] parse_num_at [OF at5, of 2 1 12] parse_num_at [OF at8, of 2 1 31]
      parse_num_at [OF at11, of 2 0 23] parse_num_at [OF at14, of 2 0 59] by simp_all
  have z: "get_tok '''' str (p3 - 1) (m3 + 1) = Some (False, p3 - 1 + length (zone_text z), 0, length (zone_text z))"
    using get_tok_rest [OF tl(4) tl(5)] by (simp add: str_def)
  show ?thesis using t tl(1-3,6) nums z iso_zone_at [OF tl(4) assms(8)] unfolding str_def [symmetric]
    by (simp add: bson_iso8601_date_parse_def parsed_def Let_def date_fields_def)
qed

lemma parse_text:
  assumes "y < 10000" "1 \<le> mo" "mo \<le> 12" "1 \<le> dy" "dy \<le> 31" "h \<le> 23" "mi \<le> 59" "secs_ok s" "zone_ok z"
  shows "bson_iso8601_date_parse (date_text y mo dy h mi @ secs_text s @ zone_text z @ r)
      (length (date_text y mo dy h mi @ secs_text s @ zone_text z)) =
    Some (Some (1000 * (calendar_secs (date_fields y mo dy h mi s) + zone_secs z) + secs_ms s))"
proof -
  define rs where "rs = secs_text s @ zone_text z @ r"
  have at14: "drop 14 (date_text y mo dy h mi @ rs) = num_text 2 mi @ secs_text s @ zone_text z @ r"
    by (simp add: date_text_def rs_def)
  define n where "n = length (secs_text s) + length (zone_text z)"
  have len: "length (date_text y mo dy h mi @ secs_text s @ zone_text z) = n + 16" by (simp add: date_text_def n_def)
  have rm: "n + 2 = 2 + length (secs_text s) + length (zone_text z)" by (simp add: n_def)
  obtain p1 m1 sp sl p2 m2 fp fl p3 m3 where t:
    "tok_must '':+-Z'' (date_text y mo dy h mi @ rs) 14 (n + 2) = Some (Some (p1, m1, 2))"
    "iso_seconds (date_text y mo dy h mi @ rs) 14 2 p1 m1 = Some (Some (sp, sl, p2, m2))"
    "iso_millis (date_text y mo dy h mi @ rs) sp sl p2 m2 = Some (Some (fp, fl, p3, m3))"
    "drop (p3 - 1) (date_text y mo dy h mi @ rs) = zone_text z @ r" "m3 + 1 = length (zone_text z)"
    "(if sl = 0 then Some (Some 0) else parse_num (date_text y mo dy h mi @ rs) sp sl 2 0 60) =
      Some (Some (case s of None \<Rightarrow> 0 | Some (n, fr) \<Rightarrow> int n))"
    "iso_fraction (date_text y mo dy h mi @ rs) fp fl = Some (Some (secs_ms s))"
    by (rule iso_tail [OF at14 assms(8) rm])
  show ?thesis using parse_chain [OF assms(1-7,9) t(1-6)] t(7) timegm_fields [of y mo dy h mi s] assms
    unfolding len rs_def [symmetric] by (simp add: parsed_def algebra_simps)
qed

text \<open>
  C9. \<^verbatim>\<open>_bson_iso8601_date_parse\<close> reads every date from year 0 to 9999 that is written out with two digits per field, with or
  without seconds, with a fraction of one to three digits, in UTC or with an offset: it gives the milliseconds of that date in
  the calendar, the 31st of a shorter month being a day of the next.
\<close>

theorem iso_parse:
  assumes "y < 10000" "1 \<le> mo" "mo \<le> 12" "1 \<le> dy" "dy \<le> 31" "h \<le> 23" "mi \<le> 59" "secs_ok s" "zone_ok z"
  shows "bson_iso8601_date_parse (date_text y mo dy h mi @ secs_text s @ zone_text z @ r)
      (length (date_text y mo dy h mi @ secs_text s @ zone_text z)) =
    Some (Some (1000 * (calendar_secs (date_fields y mo dy h mi s) + zone_secs z) + secs_ms s))"
  by (rule parse_text) (fact assms)+

lemma num_text_eval: "num_text 1 n = [digit_char n]" "num_text 2 n = [digit_char (n div 10), digit_char n]"
    "num_text 3 n = [digit_char (n div 100), digit_char (n div 10), digit_char n]"
    "num_text 4 n = [digit_char (n div 1000), digit_char (n div 100), digit_char (n div 10), digit_char n]"
proof -
  have e: "2 = Suc (Suc 0)" "3 = Suc (Suc (Suc 0))" "4 = Suc (Suc (Suc (Suc 0)))" by simp_all
  show "num_text 1 n = [digit_char n]" "num_text 2 n = [digit_char (n div 10), digit_char n]" by (simp_all add: e(1))
  show "num_text 3 n = [digit_char (n div 100), digit_char (n div 10), digit_char n]" unfolding e(2) by simp
  show "num_text 4 n = [digit_char (n div 1000), digit_char (n div 100), digit_char (n div 10), digit_char n]" unfolding e(3) by simp
qed

lemma iso_parse_witness:
  "bson_iso8601_date_parse (str_of ''2017-03-05T10:11:12.3+0130'' @ [0]) 26 = Some (Some 1488703272300)"
proof -
  let ?s = "Some (12, Some (1, 3)) :: (nat \<times> (nat \<times> nat) option) option" and ?z = "Some (False, 1, 30) :: (bool \<times> nat \<times> nat) option"
  have "date_text 2017 3 5 10 11 = str_of ''2017-03-05T10:11''"
    unfolding date_text_def num_text_eval by (simp add: str_of_def of_char_def digit_char_def)
  moreover have "secs_text ?s = str_of '':12.3''"
    unfolding secs_text_def option.case prod.case num_text_eval by (simp add: str_of_def of_char_def digit_char_def)
  moreover have "zone_text ?z = str_of ''+0130''"
    unfolding zone_text_def option.case prod.case num_text_eval by (simp add: str_of_def of_char_def digit_char_def)
  ultimately have t: "date_text 2017 3 5 10 11 @ secs_text ?s @ zone_text ?z @ [0] = str_of ''2017-03-05T10:11:12.3+0130'' @ [0]"
    "length (date_text 2017 3 5 10 11 @ secs_text ?s @ zone_text ?z) = 26"
    by (simp_all add: str_of_def)
  have "month_start 2017 2 = 59" by (simp add: month_start_def mon_lengths_def leap_iff)
  then have "calendar_secs (date_fields 2017 3 5 10 11 ?s) = 1488708672"
    by (simp add: calendar_secs_def date_fields_def day_number_def year_start_def)
  then show ?thesis
    using iso_parse [of 2017 3 5 10 11 ?s ?z "[0]", unfolded t]
    by (simp add: secs_ok_def zone_ok_def zone_secs_def secs_ms_def)
qed

subsection \<open>Printing and parsing\<close>

lemma two_digits_num: "two_digits (int n) = num_text 2 n"
  by (simp add: two_digits_def num_text_eval)

lemma num_text_snoc: "num_text (Suc k) n = num_text k (n div 10) @ [digit_char n]"
  by (induction k) (simp_all add: div_mult2_eq)

lemma decimal_num_text: "10 ^ k \<le> n \<Longrightarrow> n < 10 ^ Suc k \<Longrightarrow> decimal n = num_text (Suc k) n"
proof (induction k arbitrary: n)
  case 0
  then show ?case by (subst decimal.simps) (simp add: digit_char_def)
next
  case (Suc k)
  have b: "10 ^ k \<le> n div 10" "n div 10 < 10 ^ Suc k" "\<not> n < 10"
  proof -
    show "10 ^ k \<le> n div 10" using Suc.prems(1) by (simp add: less_eq_div_iff_mult_less_eq mult.commute)
    show "n div 10 < 10 ^ Suc k" using Suc.prems(2) by (simp add: less_mult_imp_div_less mult.commute)
    have "10 * 1 \<le> 10 * (10 :: nat) ^ k" by (intro mult_left_mono) simp_all
    then have "10 * 1 \<le> n" using Suc.prems(1) unfolding power_Suc by (rule order_trans)
    then show "\<not> n < 10" by simp
  qed
  then have "decimal n = decimal (n div 10) @ [digit_char n]" by (subst decimal.simps) (simp add: digit_char_def)
  then show ?case using Suc.IH [OF b(1,2)] num_text_snoc [of "Suc k" n] by simp
qed

lemma year_range:
  assumes "normal tm" "0 \<le> secs_of tm" "secs_of tm < 253402300800"
  shows "1970 \<le> tm_year tm + 1900" "tm_year tm + 1900 < 10000"
proof -
  define Y where "Y = tm_year tm + 1900"
  have d: "year_start Y \<le> day_of tm" "day_of tm < year_start (Y + 1)" using day_in_year [OF assms(1)] by (simp_all add: Y_def add.commute)
  have c: "0 \<le> tm_hour tm" "tm_hour tm < 24" "0 \<le> tm_min tm" "tm_min tm < 60" "0 \<le> tm_sec tm" "tm_sec tm < 60"
    using assms(1) by (simp_all add: normal_def)
  define D where "D = day_of tm - year_start 1970"
  define R where "R = tm_hour tm * 3600 + tm_min tm * 60 + tm_sec tm"
  have "secs_of tm = 86400 * D + R" by (simp add: secs_of_day D_def R_def algebra_simps)
  moreover have "0 \<le> R" "R < 86400" using c by (simp_all add: R_def)
  ultimately have s: "0 \<le> day_of tm - year_start 1970" "day_of tm - year_start 1970 < 2932897"
    using assms(2,3) unfolding D_def [symmetric] by simp_all
  have y0: "year_start 10000 - year_start 1970 = 2932897" by (simp add: year_start_def)
  have "\<not> Y + 1 \<le> 1970"
  proof
    assume a: "Y + 1 \<le> 1970"
    then have "year_start (Y + 1) + 365 * int (nat (1970 - (Y + 1))) \<le> year_start (Y + 1 + int (nat (1970 - (Y + 1))))"
      using year_start_grows [of "Y + 1" "nat (1970 - (Y + 1))"] by simp
    then show False using a d(2) s(1) by simp
  qed
  then show "1970 \<le> tm_year tm + 1900" by (simp add: Y_def)
  have "\<not> 10000 \<le> Y"
  proof
    assume a: "10000 \<le> Y"
    then have "year_start 10000 + 365 * int (nat (Y - 10000)) \<le> year_start (10000 + int (nat (Y - 10000)))"
      using year_start_grows [of 10000 "nat (Y - 10000)"] by simp
    then show False using a d(1) s(2) y0 by simp
  qed
  then show "tm_year tm + 1900 < 10000" by (simp add: Y_def)
qed

lemma gmt_text:
  assumes "0 \<le> t" "t < 253402300800"
  obtains tm y mo dy h mi s where "gmtsub t = Some tm" "strftime_iso tm = date_text y mo dy h mi @ 0x3A # num_text 2 s"
    "y < 10000" "1 \<le> mo" "mo \<le> 12" "1 \<le> dy" "dy \<le> 31" "h \<le> 23" "mi \<le> 59" "s \<le> 59"
    "\<And>fr :: (nat \<times> nat) option. calendar_secs (date_fields y mo dy h mi (Some (s, fr))) = t"
proof -
  obtain tm where tm: "gmtsub t = Some tm" using gmtsub_total [of t] assms by (cases "gmtsub t") auto
  then have n: "normal tm" "secs_of tm = t" using gmtsub_sound by blast+
  define y mo dy h mi s where "y = nat (tm_year tm + 1900)" "mo = nat (tm_mon tm + 1)" "dy = nat (tm_mday tm)" "h = nat (tm_hour tm)"
    "mi = nat (tm_min tm)" "s = nat (tm_sec tm)"
  note f = this
  have yr: "1970 \<le> tm_year tm + 1900" "tm_year tm + 1900 < 10000" using year_range [OF n(1)] n(2) assms by simp_all
  have r: "0 \<le> tm_mon tm" "tm_mon tm < 12" "1 \<le> tm_mday tm" "tm_mday tm \<le> mon_lengths (tm_year tm + 1900) ! nat (tm_mon tm)"
    "0 \<le> tm_hour tm" "tm_hour tm < 24" "0 \<le> tm_min tm" "tm_min tm < 60" "0 \<le> tm_sec tm" "tm_sec tm < 60"
    using n(1) by (simp_all add: normal_def)
  have "list_all (\<lambda>l. l \<le> 31) (mon_lengths (tm_year tm + 1900))" by (simp add: mon_lengths_def)
  then have "mon_lengths (tm_year tm + 1900) ! nat (tm_mon tm) \<le> 31"
    using r(1,2) mon_lengths_sum(2) [of "tm_year tm + 1900"] by (simp add: list_all_length)
  then have "tm_mday tm \<le> 31" using r(4) by simp
  have i: "tm_year tm + 1900 = int y" "tm_mon tm + 1 = int mo" "tm_mday tm = int dy" "tm_hour tm = int h" "tm_min tm = int mi" "tm_sec tm = int s"
    using r yr by (simp_all add: f)
  have "decimal y = num_text 4 y" using decimal_num_text [of 3 y] yr by (simp add: f)
  then have st: "strftime_iso tm = date_text y mo dy h mi @ 0x3A # num_text 2 s"
    unfolding strftime_iso_def i two_digits_num by (simp add: signed_decimal_def date_text_def)
  have "calendar_secs (date_fields y mo dy h mi (Some (s, fr))) = t" for fr :: "(nat \<times> nat) option"
  proof -
    have "date_fields y mo dy h mi (Some (s, fr)) = tm\<lparr>tm_wday := 0, tm_yday := 0, tm_isdst := 0\<rparr>"
      using i by (simp add: date_fields_def)
    then have "calendar_secs (date_fields y mo dy h mi (Some (s, fr))) = calendar_secs tm" by (simp add: calendar_secs_def)
    also have "\<dots> = secs_of tm" using r(1,2) by (simp add: calendar_secs_def secs_of_def day_number_def)
    finally show ?thesis using n(2) by simp
  qed
  then show ?thesis using that [OF tm st] i r yr \<open>tm_mday tm \<le> 31\<close> by simp
qed

lemma num_no_nul: "no_nul (num_text k n)"
proof (induction k)
  case (Suc k)
  have "digit_char m \<noteq> 0" for m using digit_byte [of m] by (metis add_eq_0_iff_both_eq_0 unat_0 zero_neq_numeral)
  with Suc show ?case by simp
qed simp

text \<open>The printer, with the text of the date and the milliseconds.\<close>

lemma format_text:
  assumes "str_ok st" "s_len st \<le> 2 ^ 30" "0 \<le> ms" "gmtsub (ms div 1000) = Some tm" "strftime_iso tm = buf" "no_nul buf" "length buf = 19"
  shows "\<exists>st'. bson_iso8601_date_format junk ms st = Some st' \<and> str_ok st' \<and> str_text st' =
    str_text st @ buf @ (if ms mod 1000 = 0 then [] else 0x2E # printf_width 3 (ms mod 1000)) @ [0x5A]"
proof -
  have q: "ms sdiv 1000 = ms div 1000" "ms smod 1000 = ms mod 1000"
    using assms(3) sdiv_nonneg [of ms 1000]
    by (cases "ms = 0"; simp add: signed_modulo_int_def minus_div_mult_eq_mod [symmetric] mult.commute)+
  show ?thesis
  proof (cases "ms mod 1000 = 0")
    case True
    have "c_string (buf @ [0]) 0 = Some buf" using c_string_append [of 0 "[]" buf "[]"] assms(6) by simp
    then obtain s1 where s1: "bson_string_append junk st (buf @ [0]) = Some s1" "str_ok s1" "str_text s1 = str_text st @ buf"
      using string_append_ok [OF assms(1), of "buf @ [0]" buf] assms(2,7) by auto
    then have "s_len s1 = s_len st + 19" using string_append_len [OF s1(2)] string_append_len [OF assms(1)] assms(7) by simp
    then obtain s2 where "bson_string_append_c junk s1 0x5A = Some s2" "str_ok s2" "str_text s2 = str_text s1 @ [0x5A]"
      using string_append_c_ok [OF s1(2), of "0x5A"] assms(2) by auto
    then show ?thesis using q True s1 assms(4,5) by (simp add: bson_iso8601_date_format_def)
  next
    case False
    define msg where "msg = buf @ [0x2E] @ printf_width 3 (ms mod 1000) @ [0x5A]"
    have m: "0 \<le> ms mod 1000" "ms mod 1000 < 1000" by simp_all
    have dl: "length (decimal (nat (ms mod 1000))) \<le> 3" using decimal_length [of "nat (ms mod 1000)" 3] m by (simp add: nat_less_iff)
    have m0: "\<not> ms mod 1000 < 0" using m(1) by simp
    have "length (printf_width 3 (ms mod 1000)) \<le> 3" using m0 dl by (simp add: printf_width_def signed_decimal_def Let_def)
    moreover have "no_nul (printf_width 3 (ms mod 1000))"
      using m0 decimal_no_nul [of "nat (ms mod 1000)"] by (auto simp: printf_width_def signed_decimal_def Let_def no_nul_def list_all_iff)
    ultimately have "no_nul msg" "length msg \<le> 24" using assms(6,7) by (simp_all add: msg_def)
    then obtain s2 where "bson_string_append_printf junk st msg = Some s2" "str_ok s2" "str_text s2 = str_text st @ msg"
      using string_append_printf_ok [OF assms(1), of msg] assms(2) by auto
    then show ?thesis using q False assms(4,5) by (simp add: bson_iso8601_date_format_def msg_def)
  qed
qed

text \<open>A fraction that is not made of digits.\<close>

lemma parse_bad_fraction:
  assumes "y < 10000" "1 \<le> mo" "mo \<le> 12" "1 \<le> dy" "dy \<le> 31" "h \<le> 23" "mi \<le> 59" "s \<le> 59"
    and fx: "set fx \<inter> set (str_of ''+-Z'') = {}" "length fx = 3" "\<not> list_all c_isdigit fx"
  shows "bson_iso8601_date_parse (date_text y mo dy h mi @ 0x3A # num_text 2 s @ 0x2E # fx @ zone_text None @ r) 24 = Some None"
proof -
  define rs where "rs = 0x3A # num_text 2 s @ 0x2E # fx @ zone_text None @ r"
  have at14: "drop 14 (date_text y mo dy h mi @ rs) = num_text 2 mi @ 0x3A # num_text 2 s @ 0x2E # fx @ zone_text None @ r"
    by (simp add: date_text_def rs_def)
  have s: "s \<le> 60" "fx \<noteq> []" "8 + 2 = 6 + length fx + length (zone_text None)" using assms(8) fx(2) by (auto simp: zone_text_def)
  obtain p1 m1 m2 m3 where t: "tok_must '':+-Z'' (date_text y mo dy h mi @ rs) 14 (8 + 2) = Some (Some (p1, m1, 2))"
    "iso_seconds (date_text y mo dy h mi @ rs) 14 2 p1 m1 = Some (Some (14 + 3, 2, 14 + 6, m2))"
    "iso_millis (date_text y mo dy h mi @ rs) (14 + 3) 2 (14 + 6) m2 = Some (Some (14 + 6, length fx, 14 + 6 + length fx + 1, m3))"
    "drop (14 + 6 + length fx) (date_text y mo dy h mi @ rs) = zone_text None @ r" "m3 + 1 = length (zone_text None)"
    "parse_num (date_text y mo dy h mi @ rs) (14 + 3) 2 2 0 60 = Some (Some (int s))"
    "drop (14 + 6) (date_text y mo dy h mi @ rs) = fx @ zone_text None @ r"
    by (rule iso_tail_fraction [OF at14 s(1) fx(1) s(2,3)])
  have z: "zone_ok None" by (simp add: zone_ok_def)
  have t4: "drop (14 + 6 + length fx + 1 - 1) (date_text y mo dy h mi @ rs) = zone_text None @ r"
    using t(4) unfolding add_diff_cancel_right' .
  have t6: "(if (2 :: nat) = 0 then Some (Some 0) else parse_num (date_text y mo dy h mi @ rs) (14 + 3) 2 2 0 60) =
      Some (Some (case Some (s, None :: (nat \<times> nat) option) of None \<Rightarrow> 0 | Some (n, fr) \<Rightarrow> int n))" using t(6) by simp
  have "iso_fraction (date_text y mo dy h mi @ rs) (14 + 6) (length fx) = Some None"
    using digits_only_at [OF t(7)] fx(2,3) by (simp add: iso_fraction_def)
  then show ?thesis using parse_chain [OF assms(1-7) z t(1-3) t4 t(5) t6] unfolding rs_def [symmetric] by (simp add: parsed_def)
qed

text \<open>
  C40. Dates of the years 1970 to 9999 survive printing and parsing exactly when their milliseconds are zero or have three
  digits: \<^verbatim>\<open>_bson_iso8601_date_format\<close> fills one or two digits with blanks (\<^verbatim>\<open>"%3"\<close>), and \<^verbatim>\<open>_bson_iso8601_date_parse\<close>
  rejects the text.
\<close>

theorem iso_format_parse:
  assumes st: "str_ok st" "s_len st \<le> 2 ^ 30" and ms: "0 \<le> ms" "ms < 253402300800000"
  shows "\<exists>st' tx. bson_iso8601_date_format junk ms st = Some st' \<and> str_ok st' \<and> str_text st' = str_text st @ tx \<and>
      bson_iso8601_date_parse (tx @ r) (length tx) = Some (if 1 \<le> ms mod 1000 \<and> ms mod 1000 < 100 then None else Some ms)"
proof -
  have "0 \<le> ms div 1000" "ms div 1000 < 253402300800" using ms by auto
  then obtain tm y mo dy h mi s where g: "gmtsub (ms div 1000) = Some tm" "strftime_iso tm = date_text y mo dy h mi @ 0x3A # num_text 2 s"
    and f: "y < 10000" "1 \<le> mo" "mo \<le> 12" "1 \<le> dy" "dy \<le> 31" "h \<le> 23" "mi \<le> 59" and s: "s \<le> 59"
    and c: "\<And>fr :: (nat \<times> nat) option. calendar_secs (date_fields y mo dy h mi (Some (s, fr))) = ms div 1000"
    using gmt_text by metis
  let ?d = "date_text y mo dy h mi" and ?p = "nat (ms mod 1000)"
  have p: "int ?p = ms mod 1000" "?p < 1000" by (simp_all add: nat_less_iff)
  have nn: "no_nul (?d @ 0x3A # num_text 2 s)" "length (?d @ 0x3A # num_text 2 s) = 19"
    by (simp_all add: date_text_def num_no_nul)
  from format_text [OF st ms(1) g nn] obtain st' where st': "bson_iso8601_date_format junk ms st = Some st'" "str_ok st'"
    "str_text st' = str_text st @ (?d @ 0x3A # num_text 2 s) @ (if ms mod 1000 = 0 then [] else 0x2E # printf_width 3 (ms mod 1000)) @ [0x5A]"
    by blast
  define tx where "tx = (?d @ 0x3A # num_text 2 s) @ (if ms mod 1000 = 0 then [] else 0x2E # printf_width 3 (ms mod 1000)) @ [0x5A]"
  have good: "bson_iso8601_date_parse (tx @ r) (length tx) = Some (Some ms)"
    if "tx = ?d @ secs_text (Some (s, fr)) @ zone_text None" "secs_ok (Some (s, fr))" "secs_ms (Some (s, fr)) = ms mod 1000" for fr
    using parse_text [OF f that(2), of None r] that(1,3) c [of fr] by (simp add: zone_ok_def zone_secs_def)
  have "bson_iso8601_date_parse (tx @ r) (length tx) = Some (if 1 \<le> ms mod 1000 \<and> ms mod 1000 < 100 then None else Some ms)"
  proof -
    consider "ms mod 1000 = 0" | "100 \<le> ms mod 1000" | "1 \<le> ms mod 1000" "ms mod 1000 < 100"
      using pos_mod_sign [of 1000 ms] by linarith
    then show ?thesis
    proof cases
      case 1
      then show ?thesis using good [of None] s by (simp add: tx_def secs_text_def zone_text_def secs_ok_def secs_ms_def)
    next
      case 2
      then have dec: "decimal ?p = num_text 3 ?p" using decimal_num_text [of 2 ?p] p by (simp add: nat_less_iff)
      then have "printf_width 3 (ms mod 1000) = num_text 3 ?p" using 2 by (simp add: printf_width_def signed_decimal_def)
      then show ?thesis using good [of "Some (3, ?p)"] s p 2
        by (simp add: tx_def secs_text_def zone_text_def secs_ok_def secs_ms_def)
    next
      case 3
      define fx where "fx = printf_width 3 (ms mod 1000)"
      have l: "length (decimal ?p) \<le> 2" using decimal_length [of ?p 2] 3 p by (simp add: nat_less_iff)
      then have fx: "fx = 0x20 # replicate (2 - length (decimal ?p)) 0x20 @ decimal ?p"
      proof -
        have "3 - length (decimal ?p) = Suc (2 - length (decimal ?p))" using l by simp
        moreover have "\<not> ms mod 1000 < 0" using 3 by simp
        ultimately show ?thesis by (simp add: fx_def printf_width_def signed_decimal_def Let_def)
      qed
      have "set fx \<inter> set (str_of ''+-Z'') = {}"
        using digit_no_terminal(3) [OF decimal_digits, of ?p] by (auto simp: fx str_of_def of_char_def)
      moreover have "length fx = 3" "\<not> list_all c_isdigit fx" using l by (simp_all add: fx c_isdigit_def)
      moreover have t: "tx = ?d @ 0x3A # num_text 2 s @ 0x2E # fx @ zone_text None" "length tx = 24"
        using 3 \<open>length fx = 3\<close> by (simp_all add: tx_def fx_def zone_text_def date_text_def)
      ultimately show ?thesis using parse_bad_fraction [OF f s, of fx r] 3 unfolding t(2) unfolding t(1) by simp
    qed
  qed
  then show ?thesis using st' unfolding tx_def by blast
qed

lemma iso_format_parse_witness:
  "\<exists>st' tx. bson_iso8601_date_format (\<lambda>_. 9) 1488708672045 \<lparr>s_str = [0], s_len = 0, s_alloc = 1\<rparr> = Some st' \<and> str_text st' = tx \<and>
    bson_iso8601_date_parse (tx @ [0]) (length tx) = Some None"
  using iso_format_parse [of "\<lparr>s_str = [0], s_len = 0, s_alloc = 1\<rparr>" 1488708672045 "\<lambda>_. 9" "[0]"]
  by (auto simp: str_ok_def str_text_def)

end
