(* ===== verification/Decimal128.thy ===== *)
theory Decimal128
  imports Iso8601
begin

text \<open>
  \<^verbatim>\<open>bson_decimal128_to_string\<close> of \<^verbatim>\<open>src/bson/bson-decimal128.c\<close>: the 128 bits of a decimal number as text. The theorems compare
  it with the text that the IEEE format and the BSON specification prescribe, and find the one kind of number that does not
  fit the buffer of 43 bytes.
\<close>

subsection \<open>The significand\<close>

text \<open>
  A 128-bit integer is the list of its four 32-bit words, high to low, as natural numbers. The loop of
  \<^verbatim>\<open>_bson_uint128_divide1B\<close> computes with 64 bits.
\<close>

fun divide_loop :: "nat \<Rightarrow> nat list \<Rightarrow> nat list \<times> nat" where
  "divide_loop r [] = ([], r)"
| "divide_loop r (part # parts) =
     (let r = (r * 2 ^ 32 + part) mod 2 ^ 64;
          (qs, r') = divide_loop (r mod 1000000000) parts
      in ((r div 1000000000) mod 2 ^ 32 # qs, r'))"

definition bson_uint128_divide1B :: "nat list \<Rightarrow> nat list \<times> nat" where
  "bson_uint128_divide1B val = (if list_all (\<lambda>p. p = 0) val then (val, 0) else divide_loop 0 val)"

text \<open>Nine digits are written behind \<open>base\<close>, the last one first.\<close>

primrec write_digits :: "nat list \<Rightarrow> nat \<Rightarrow> nat \<Rightarrow> nat \<Rightarrow> nat list" where
  "write_digits significand base 0 least_digits = significand"
| "write_digits significand base (Suc j) least_digits =
     write_digits (significand[base + j := least_digits mod 10]) base j (least_digits div 10)"

primrec significand_loop :: "nat \<Rightarrow> nat list \<Rightarrow> nat list \<Rightarrow> nat list" where
  "significand_loop 0 significand128 significand = significand"
| "significand_loop (Suc k) significand128 significand =
     (let (q, least_digits) = bson_uint128_divide1B significand128
      in significand_loop k q (if least_digits = 0 then significand else write_digits significand (k * 9) 9 least_digits))"

subsection \<open>Writing the text\<close>

text \<open>\<^verbatim>\<open>*(str_out++) = c\<close> in the memory \<open>str\<close>, and \<^verbatim>\<open>strcpy\<close> of a literal.\<close>

definition put_char :: "bytes \<times> nat \<Rightarrow> u8 \<Rightarrow> (bytes \<times> nat) option" where
  "put_char so c = do { m \<leftarrow> mem_write (fst so) (snd so) [c]; Some (m, snd so + 1) }"

definition strcpy_lit :: "bytes \<Rightarrow> nat \<Rightarrow> string \<Rightarrow> bytes option" where
  "strcpy_lit str out s = mem_write str out (str_of s @ [0])"

text \<open>
  \<^verbatim>\<open>for (i = 0; i < n && (str_out - str) < limit; i++) *(str_out++) = *(significand_read++) + '0'\<close>: the memory, the output
  position and the digits that are left.
\<close>

primrec put_digits :: "nat \<Rightarrow> nat \<Rightarrow> bytes \<times> nat \<Rightarrow> nat list \<Rightarrow> ((bytes \<times> nat) \<times> nat list) option" where
  "put_digits limit 0 so ds = Some (so, ds)"
| "put_digits limit (Suc n) so ds =
     (if snd so < limit then
        (case ds of
           [] \<Rightarrow> None
         | d # ds' \<Rightarrow> do { so' \<leftarrow> put_char so (word_of_nat (d + 48)); put_digits limit n so' ds' })
      else Some (so, ds))"

primrec put_zeros :: "nat \<Rightarrow> bytes \<times> nat \<Rightarrow> (bytes \<times> nat) option" where
  "put_zeros 0 so = Some so"
| "put_zeros (Suc n) so = do { so' \<leftarrow> put_char so 0x30; put_zeros n so' }"

text \<open>\<^verbatim>\<open>"%+d"\<close>\<close>

definition plus_decimal :: "int \<Rightarrow> bytes" where
  "plus_decimal n = (if n < 0 then 0x2D # decimal (nat (- n)) else 0x2B # decimal (nat n))"

definition scientific_format :: "bytes \<times> nat \<Rightarrow> nat list \<Rightarrow> nat \<Rightarrow> int \<Rightarrow> bytes option" where
  "scientific_format so ds significand_digits scientific_exponent =
     (case ds of
        [] \<Rightarrow> None
      | d # ds' \<Rightarrow> do {
          so \<leftarrow> put_char so (word_of_nat (d + 48));
          let n = significand_digits - 1;
          so \<leftarrow> (if n \<noteq> 0 then put_char so 0x2E else Some so);
          (so, _) \<leftarrow> put_digits 36 n so ds';
          (str, out) \<leftarrow> put_char so 0x45;
          tl \<leftarrow> bson_vsnprintf (drop out str) 6 (plus_decimal scientific_exponent);
          Some (take out str @ tl) })"

definition regular_format :: "bytes \<times> nat \<Rightarrow> nat list \<Rightarrow> nat \<Rightarrow> int \<Rightarrow> bytes option" where
  "regular_format so ds significand_digits exponent =
     (if exponent \<ge> 0 then do {
        ((str, out), _) \<leftarrow> put_digits 36 significand_digits so ds;
        mem_write str out [0] }
      else do {
        let radix_position = int significand_digits + exponent;
        (so, ds) \<leftarrow> (if radix_position > 0 then put_digits 43 (nat radix_position) so ds
                     else do { so' \<leftarrow> put_char so 0x30; Some (so', ds) });
        so \<leftarrow> put_char so 0x2E;
        so \<leftarrow> put_zeros (nat (- radix_position)) so;
        ((str, out), _) \<leftarrow> put_digits 43 (significand_digits - nat (max radix_position 0)) so ds;
        mem_write str out [0] })"

text \<open>The text behind the sign, for the fields of the number.\<close>

definition finite_to_string :: "bytes \<times> nat \<Rightarrow> int \<Rightarrow> nat list \<Rightarrow> bytes option" where
  "finite_to_string so exponent parts = do {
     let is_zero = (list_all (\<lambda>p. p = 0) parts \<or> parts ! 0 \<ge> 2 ^ 17);
     let significand = (if is_zero then replicate 36 0 else significand_loop 4 parts (replicate 36 0));
     let significand_read = (if is_zero then significand else dropWhile (\<lambda>d. d = 0) significand);
     let significand_digits = (if is_zero then 1 else length significand_read);
     let scientific_exponent = int significand_digits - 1 + exponent;
     (if scientific_exponent < -6 \<or> exponent > 0
      then scientific_format so significand_read significand_digits scientific_exponent
      else regular_format so significand_read significand_digits exponent) }"

definition bson_decimal128_to_string :: "u64 \<Rightarrow> u64 \<Rightarrow> bytes \<Rightarrow> bytes option" where
  "bson_decimal128_to_string dec_high dec_low str = do {
     so \<leftarrow> (if sint dec_high < 0 then put_char (str, 0) 0x2D else Some (str, 0));
     let low = (ucast dec_low :: u32);
     let midl = (ucast (drop_bit 32 dec_low) :: u32);
     let midh = (ucast dec_high :: u32);
     let high = (ucast (drop_bit 32 dec_high) :: u32);
     let combination = drop_bit 26 high AND 0x1F;
     (if drop_bit 3 combination = 3 \<and> combination = 30 then strcpy_lit (fst so) (snd so) ''Infinity''
      else if drop_bit 3 combination = 3 \<and> combination = 31 then strcpy_lit (fst so) 0 ''NaN''
      else (let special = (drop_bit 3 combination = 3);
                biased_exponent = (if special then drop_bit 15 high AND 0x3FFF else drop_bit 17 high AND 0x3FFF);
                significand_msb = (if special then 0x8 + (drop_bit 14 high AND 0x1) else drop_bit 14 high AND 0x7);
                part0 = (high AND 0x3FFF) + push_bit 14 (significand_msb AND 0xF)
            in finite_to_string so (int (unat biased_exponent) - 6176) [unat part0, unat midh, unat midl, unat low])) }"


subsection \<open>The digits of the significand\<close>

definition parts_val :: "nat \<Rightarrow> nat list \<Rightarrow> nat" where
  "parts_val v parts = foldl (\<lambda>v p. v * 2 ^ 32 + p) v parts"

lemma parts_val_Cons: "parts_val v (p # ps) = parts_val (v * 2 ^ 32 + p) ps"
  by (simp add: parts_val_def)

lemma parts_val_split: "parts_val v ps = v * 2 ^ (32 * length ps) + parts_val 0 ps"
proof (induction ps arbitrary: v)
  case (Cons p ps)
  show ?case unfolding parts_val_Cons Cons [of "v * 2 ^ 32 + p"] Cons [of "0 * 2 ^ 32 + p"] by (simp add: algebra_simps power_add)
qed (simp add: parts_val_def)

lemma divide_loop_ok:
  assumes "list_all (\<lambda>p. p < 2 ^ 32) parts" "r < 1000000000" "divide_loop r parts = (qs, r')"
  shows "parts_val r parts = 1000000000 * parts_val 0 qs + r' \<and> r' < 1000000000 \<and> list_all (\<lambda>p. p < 2 ^ 32) qs \<and> length qs = length parts"
  using assms
proof (induction parts arbitrary: r qs)
  case Nil
  then show ?case by (simp add: parts_val_def)
next
  case (Cons p ps)
  have b: "r * 2 ^ 32 + p < 1000000000 * 2 ^ 32" using Cons.prems(1,2) by simp
  then have m: "(r * 2 ^ 32 + p) mod 2 ^ 64 = r * 2 ^ 32 + p" by simp
  define q where "q = (r * 2 ^ 32 + p) div 1000000000"
  define s where "s = (r * 2 ^ 32 + p) mod 1000000000"
  have q: "q < 2 ^ 32" using b unfolding q_def by (simp add: less_mult_imp_div_less mult.commute)
  then have q': "q mod 2 ^ 32 = q" by simp
  obtain qs' where d: "divide_loop s ps = (qs', r')" "qs = q # qs'"
    using Cons.prems(3) unfolding divide_loop.simps Let_def m q_def [symmetric] s_def [symmetric] q' by (auto split: prod.splits)
  have "s < 1000000000" by (simp add: s_def)
  from Cons.IH [OF _ this d(1)] Cons.prems(1) have ih: "parts_val s ps = 1000000000 * parts_val 0 qs' + r'" "r' < 1000000000"
    "list_all (\<lambda>p. p < 2 ^ 32) qs'" "length qs' = length ps" by simp_all
  have "r * 2 ^ 32 + p = 1000000000 * q + s" by (simp add: q_def s_def)
  then have "parts_val r (p # ps) = (1000000000 * q + s) * 2 ^ (32 * length ps) + parts_val 0 ps"
    unfolding parts_val_Cons by (simp add: parts_val_split [of "_ + _"])
  also have "\<dots> = 1000000000 * (q * 2 ^ (32 * length ps)) + parts_val s ps"
    unfolding parts_val_split [of s] by (simp add: algebra_simps)
  also have "\<dots> = 1000000000 * parts_val 0 qs + r'"
    unfolding ih(1) d(2) parts_val_Cons parts_val_split [of "0 * 2 ^ 32 + q"] ih(4) by (simp add: algebra_simps)
  finally show ?case using ih q d(2) by simp
qed

lemma divide1B_ok:
  assumes "list_all (\<lambda>p. p < 2 ^ 32) parts" "bson_uint128_divide1B parts = (qs, r)"
  shows "parts_val 0 qs = parts_val 0 parts div 1000000000 \<and> r = parts_val 0 parts mod 1000000000 \<and> list_all (\<lambda>p. p < 2 ^ 32) qs"
proof (cases "list_all (\<lambda>p. p = 0) parts")
  case True
  then have "parts_val 0 parts = 0" by (induction parts) (simp_all add: parts_val_def)
  then show ?thesis using True assms by (simp add: bson_uint128_divide1B_def)
next
  case False
  then have "parts_val 0 parts = 1000000000 * parts_val 0 qs + r \<and> r < 1000000000 \<and> list_all (\<lambda>p. p < 2 ^ 32) qs"
    using divide_loop_ok [of parts 0 qs r] assms by (simp add: bson_uint128_divide1B_def)
  then show ?thesis by simp
qed

text \<open>The last \<open>k\<close> decimal digits.\<close>

primrec digit_list :: "nat \<Rightarrow> nat \<Rightarrow> nat list" where
  "digit_list 0 v = []"
| "digit_list (Suc k) v = digit_list k (v div 10) @ [v mod 10]"

lemma length_digit_list [simp]: "length (digit_list k v) = k"
  by (induction k arbitrary: v) auto

lemma digit_list_split: "digit_list (m + n) v = digit_list m (v div 10 ^ n) @ digit_list n v"
  by (induction n arbitrary: v) (simp_all add: div_mult2_eq)

lemma digit_list_zero: "digit_list k 0 = replicate k 0"
  by (induction k) (simp_all add: replicate_append_same)

lemma digit_list_mod: "digit_list k (v mod 10 ^ k) = digit_list k v"
proof (induction k arbitrary: v)
  case (Suc k)
  have "v mod (10 * 10 ^ k) div 10 = v div 10 mod 10 ^ k" by (simp add: mod_mult2_eq)
  moreover have "v mod (10 * 10 ^ k) mod 10 = v mod 10" by (simp add: mod_mod_cancel)
  ultimately show ?case using Suc [of "v div 10"] by simp
qed simp

lemma write_digits_at:
  "length xs = base \<Longrightarrow> length ys = n \<Longrightarrow> write_digits (xs @ ys @ zs) base n v = xs @ digit_list n v @ zs"
proof (induction n arbitrary: ys zs v)
  case (Suc n)
  obtain ys' y where ys: "ys = ys' @ [y]" "length ys' = n" using Suc.prems(2) by (auto simp: length_Suc_conv_rev)
  have "(xs @ ys @ zs)[base + n := v mod 10] = xs @ ys' @ (v mod 10 # zs)"
    using Suc.prems(1) ys by (simp add: list_update_append)
  then show ?case using Suc.IH [OF Suc.prems(1) ys(2), of "v mod 10 # zs" "v div 10"] by simp
qed simp

lemma significand_loop_ok:
  assumes "list_all (\<lambda>p. p < 2 ^ 32) parts"
  shows "significand_loop k parts (replicate (9 * k) 0 @ zs) = digit_list (9 * k) (parts_val 0 parts) @ zs"
  using assms
proof (induction k arbitrary: parts zs)
  case (Suc k)
  obtain q r where qr: "bson_uint128_divide1B parts = (q, r)" by fastforce
  have d: "parts_val 0 q = parts_val 0 parts div 10 ^ 9" "r = parts_val 0 parts mod 10 ^ 9" "list_all (\<lambda>p. p < 2 ^ 32) q"
    using divide1B_ok [OF Suc.prems qr] by simp_all
  have e: "replicate (9 * Suc k) (0 :: nat) @ zs = replicate (9 * k) 0 @ replicate 9 0 @ zs"
    by (simp add: replicate_add [symmetric] flip: append_assoc)
  have "(if r = 0 then replicate (9 * Suc k) 0 @ zs else write_digits (replicate (9 * Suc k) 0 @ zs) (k * 9) 9 r) =
      replicate (9 * k) 0 @ digit_list 9 r @ zs"
    unfolding e using write_digits_at [of "replicate (9 * k) 0" "k * 9" "replicate 9 0" 9 zs r] by (simp add: digit_list_zero)
  then have "significand_loop (Suc k) parts (replicate (9 * Suc k) 0 @ zs) = significand_loop k q (replicate (9 * k) 0 @ digit_list 9 r @ zs)"
    by (simp only: significand_loop.simps qr Let_def prod.case)
  also have "\<dots> = digit_list (9 * k) (parts_val 0 q) @ digit_list 9 r @ zs" by (rule Suc.IH [OF d(3)])
  also have "digit_list 9 r = digit_list 9 (parts_val 0 parts)" unfolding d(2) by (rule digit_list_mod)
  also have "digit_list (9 * k) (parts_val 0 q) @ digit_list 9 (parts_val 0 parts) @ zs = digit_list (9 * Suc k) (parts_val 0 parts) @ zs"
    using digit_list_split [of "9 * k" 9 "parts_val 0 parts"] by (simp add: d(1) add.commute)
  finally show ?case .
qed simp

definition digit_chars :: "nat list \<Rightarrow> bytes" where
  "digit_chars ds = map (\<lambda>d. word_of_nat (d + 48)) ds"

lemma digit_chars_simps [simp]: "digit_chars [] = []" "digit_chars (d # ds) = word_of_nat (d + 48) # digit_chars ds" "length (digit_chars ds) = length ds"
  by (simp_all add: digit_chars_def)

lemma dropWhile_zeros: "0 < v \<Longrightarrow> dropWhile (\<lambda>d. d = 0) (replicate k 0 @ [v]) = [v :: nat]"
  by (induction k) auto

lemma digits_decimal:
  "v < 10 ^ k \<Longrightarrow> 0 < v \<Longrightarrow> digit_chars (dropWhile (\<lambda>d. d = 0) (digit_list k v)) = decimal v"
proof (induction k arbitrary: v)
  case (Suc k)
  show ?case
  proof (cases "v < 10")
    case True
    then show ?thesis using Suc.prems
      by (subst decimal.simps) (simp add: digit_list_zero dropWhile_zeros digit_chars_def add.commute)
  next
    case False
    then have v: "v div 10 < 10 ^ k" "0 < v div 10" using Suc.prems by (simp_all add: less_mult_imp_div_less mult.commute)
    have "digit_chars (dropWhile (\<lambda>d. d = 0) (digit_list k (v div 10))) \<noteq> []" using Suc.IH [OF v] by simp
    then have "dropWhile (\<lambda>d. d = 0) (digit_list k (v div 10)) \<noteq> []" by (metis digit_chars_def list.simps(8))
    then have "dropWhile (\<lambda>d. d = 0) (digit_list (Suc k) v) = dropWhile (\<lambda>d. d = 0) (digit_list k (v div 10)) @ [v mod 10]"
      by (auto simp: dropWhile_append dropWhile_eq_Nil_conv)
    then show ?thesis using Suc.IH [OF v] False by (subst decimal.simps) (simp add: digit_chars_def add.commute)
  qed
qed simp

subsection \<open>Writing into the buffer\<close>

lemma put_char_at: "x \<noteq> [] \<Longrightarrow> put_char (p @ x, length p) c = Some ((p @ [c]) @ tl x, length (p @ [c]))"
  by (cases x) (simp_all add: put_char_def mem_write_def)

lemma put_digits_at:
  "n \<le> length ds \<Longrightarrow> n \<le> length x \<Longrightarrow> length p + n \<le> limit \<Longrightarrow>
    put_digits limit n (p @ x, length p) ds =
      Some (((p @ digit_chars (take n ds)) @ drop n x, length (p @ digit_chars (take n ds))), drop n ds)"
proof (induction n arbitrary: p x ds)
  case (Suc n)
  obtain d ds' where ds: "ds = d # ds'" using Suc.prems(1) by (cases ds) auto
  obtain c x' where x: "x = c # x'" using Suc.prems(2) by (cases x) auto
  have "put_char (p @ x, length p) (word_of_nat (d + 48)) = Some ((p @ [word_of_nat (d + 48)]) @ x', length (p @ [word_of_nat (d + 48)]))"
    using put_char_at [of x p] by (simp add: x)
  moreover have "put_digits limit n ((p @ [word_of_nat (d + 48)]) @ x', length (p @ [word_of_nat (d + 48)])) ds' =
      Some ((((p @ [word_of_nat (d + 48)]) @ digit_chars (take n ds')) @ drop n x', length ((p @ [word_of_nat (d + 48)]) @ digit_chars (take n ds'))), drop n ds')"
    by (rule Suc.IH) (use Suc.prems in \<open>simp_all add: ds x\<close>)
  ultimately show ?case using Suc.prems(3) by (simp add: ds x digit_chars_def)
qed (simp add: digit_chars_def)

lemma put_zeros_at:
  "n \<le> length x \<Longrightarrow> put_zeros n (p @ x, length p) = Some ((p @ replicate n 0x30) @ drop n x, length (p @ replicate n 0x30))"
proof (induction n arbitrary: p x)
  case (Suc n)
  obtain c x' where x: "x = c # x'" using Suc.prems by (cases x) auto
  have "put_char (p @ x, length p) 0x30 = Some ((p @ [0x30]) @ x', length (p @ [0x30]))" using put_char_at [of x p] by (simp add: x)
  moreover have "put_zeros n ((p @ [0x30]) @ x', length (p @ [0x30])) = Some (((p @ [0x30]) @ replicate n 0x30) @ drop n x', length ((p @ [0x30]) @ replicate n 0x30))"
    by (rule Suc.IH) (use Suc.prems in \<open>simp add: x\<close>)
  ultimately show ?case by (simp add: x)
qed simp

subsection \<open>The text of a decimal number\<close>

text \<open>A coefficient with its exponent, as the BSON specification prints it.\<close>

definition d128_text :: "nat \<Rightarrow> int \<Rightarrow> bytes" where
  "d128_text c e =
     (let ds = decimal c; n = int (length ds); adjusted = n - 1 + e in
      if adjusted < -6 \<or> e > 0 then hd ds # (if tl ds = [] then [] else 0x2E # tl ds) @ 0x45 # plus_decimal adjusted
      else if e = 0 then ds
      else if n + e > 0 then take (nat (n + e)) ds @ 0x2E # drop (nat (n + e)) ds
      else 0x30 # 0x2E # replicate (nat (- (n + e))) 0x30 @ ds)"

lemma plus_decimal_short: "\<bar>n\<bar> < 10000 \<Longrightarrow> length (plus_decimal n) \<le> 5 \<and> no_nul (plus_decimal n)"
  using decimal_length [of "nat (- n)" 4] decimal_length [of "nat n" 4] decimal_no_nul by (auto simp: plus_decimal_def nat_less_iff)

lemma scientific_at:
  assumes ds: "n \<le> length ds" "0 < n" "n \<le> 34" and x: "length p \<le> 1" "length (p @ x) = 43" and e: "\<bar>e\<bar> < 10000"
  shows "\<exists>r. scientific_format (p @ x, length p) ds n e =
    Some (p @ (word_of_nat (hd ds + 48) # (if n = 1 then [] else 0x2E # digit_chars (take (n - 1) (tl ds))) @ 0x45 # plus_decimal e) @ 0 # r)"
proof -
  obtain d ds' where d: "ds = d # ds'" using ds(1,2) by (cases ds) auto
  define p1 where "p1 = p @ [word_of_nat (d + 48)]"
  define p2 where "p2 = p1 @ (if n = 1 then [] else [0x2E])"
  define p3 where "p3 = p2 @ digit_chars (take (n - 1) ds')"
  define p4 where "p4 = p3 @ [0x45]"
  define x2 where "x2 = drop (if n = 1 then 1 else 2) x"
  have lx: "42 \<le> length x" using x by simp
  then have xn: "x \<noteq> []" by auto
  have l2: "length p2 \<le> (if n = 1 then 2 else 3)" "length (p2 @ x2) = 43" using x by (auto simp: p2_def p1_def x2_def)
  have dn: "n - 1 \<le> length ds'" using ds(1) d by simp
  have lp3: "length p3 = length p2 + (n - 1)" using dn by (simp add: p3_def digit_chars_def)
  have l3: "length p3 \<le> 36" using ds(3) l2(1) lp3 by (auto split: if_splits)
  have s1: "put_char (p @ x, length p) (word_of_nat (d + 48)) = Some (p1 @ tl x, length p1)"
    unfolding p1_def by (rule put_char_at [OF xn])
  have s2: "(if n - 1 \<noteq> 0 then put_char (p1 @ tl x, length p1) 0x2E else Some (p1 @ tl x, length p1)) = Some (p2 @ x2, length p2)"
  proof (cases "n = 1")
    case True
    then show ?thesis by (simp add: p2_def x2_def drop_Suc)
  next
    case False
    have "tl x \<noteq> []" using lx by (cases x; cases "tl x") auto
    then show ?thesis using put_char_at [of "tl x" p1] False ds(2) by (simp add: p2_def x2_def drop_Suc numeral_2_eq_2)
  qed
  have s3: "put_digits 36 (n - 1) (p2 @ x2, length p2) ds' = Some ((p3 @ drop (n - 1) x2, length p3), drop (n - 1) ds')"
    unfolding p3_def by (rule put_digits_at) (use dn l2 l3 lp3 in simp_all)
  have lx3: "length (drop (n - 1) x2) = 43 - length p3" using l2(2) lp3 by simp
  then have "drop (n - 1) x2 \<noteq> []" using l3 by auto
  then have s4: "put_char (p3 @ drop (n - 1) x2, length p3) 0x45 = Some (p4 @ tl (drop (n - 1) x2), length p4)"
    unfolding p4_def by (rule put_char_at)
  have "6 \<le> length (tl (drop (n - 1) x2))" using lx3 l3 by simp
  moreover have "length (plus_decimal e) < 6" using plus_decimal_short [OF e] by simp
  ultimately obtain r where "bson_vsnprintf (tl (drop (n - 1) x2)) 6 (plus_decimal e) = Some (plus_decimal e @ 0 # r)"
    using vsnprintf_fits [of "plus_decimal e" 6 "tl (drop (n - 1) x2)"] by auto
  then have "scientific_format (p @ x, length p) ds n e = Some (p4 @ plus_decimal e @ 0 # r)"
    unfolding scientific_format_def d list.case s1 Let_def Option.bind.bind_lunit s2 using s3 s4 by simp
  then show ?thesis by (auto simp: p4_def p3_def p2_def p1_def d)
qed

lemma regular_at:
  assumes ds: "n \<le> length ds" "0 < n" "n \<le> 34" and x: "length p \<le> 1" "length (p @ x) = 43" and e: "e \<le> 0" "-6 \<le> int n - 1 + e"
  shows "\<exists>r. regular_format (p @ x, length p) ds n e = Some (p @
    (if e = 0 then digit_chars (take n ds)
     else if int n + e > 0 then digit_chars (take (nat (int n + e)) ds) @ 0x2E # digit_chars (take (n - nat (int n + e)) (drop (nat (int n + e)) ds))
     else 0x30 # 0x2E # replicate (nat (- (int n + e))) 0x30 @ digit_chars (take n ds)) @ 0 # r)"
proof -
  have lx: "42 \<le> length x" using x by simp
  have nul: "\<exists>r. mem_write (q @ y) (length q) [0] = Some (q @ 0 # r)" if "y \<noteq> []" for q y :: bytes
    using that by (cases y) (simp_all add: mem_write_def)
  show ?thesis
  proof (cases "e = 0")
    case True
    define q where "q = p @ digit_chars (take n ds)"
    have "put_digits 36 n (p @ x, length p) ds = Some ((q @ drop n x, length q), drop n ds)"
      unfolding q_def by (rule put_digits_at) (use ds x lx in simp_all)
    moreover obtain r where "mem_write (q @ drop n x) (length q) [0] = Some (q @ 0 # r)" using nul [of "drop n x" q] ds lx by auto
    ultimately show ?thesis using True by (auto simp: regular_format_def q_def)
  next
    case False
    then have e0: "\<not> 0 \<le> e" using e(1) by simp
    show ?thesis
    proof (cases "int n + e > 0")
      case True
      define k where "k = nat (int n + e)"
      have k: "k < n" "0 < k" "int n + e = int k" using True e0 by (simp_all add: k_def)
      define q1 where "q1 = p @ digit_chars (take k ds)"
      define q2 where "q2 = q1 @ [0x2E]"
      define q3 where "q3 = q2 @ digit_chars (take (n - k) (drop k ds))"
      have l1: "length q1 = length p + k" using ds(1) k(1) by (simp add: q1_def digit_chars_def)
      have s1: "put_digits 43 k (p @ x, length p) ds = Some ((q1 @ drop k x, length q1), drop k ds)"
        unfolding q1_def by (rule put_digits_at) (use ds x lx k in simp_all)
      have s2: "put_char (q1 @ drop k x, length q1) 0x2E = Some (q2 @ tl (drop k x), length q2)"
        unfolding q2_def by (rule put_char_at) (use ds lx k in auto)
      have s3: "put_digits 43 (n - k) (q2 @ tl (drop k x), length q2) (drop k ds) =
          Some ((q3 @ drop (n - k) (tl (drop k x)), length q3), drop (n - k) (drop k ds))"
        unfolding q3_def by (rule put_digits_at) (use ds x lx k l1 in \<open>simp_all add: q2_def\<close>)
      have "drop (n - k) (tl (drop k x)) \<noteq> []" using ds lx k by simp
      then obtain r where "mem_write (q3 @ drop (n - k) (tl (drop k x))) (length q3) [0] = Some (q3 @ 0 # r)" using nul by blast
      then have "regular_format (p @ x, length p) ds n e = Some (q3 @ 0 # r)"
        using s1 s2 s3 e0 k by (simp add: regular_format_def Let_def)
      then show ?thesis using k e0 False by (auto simp: q3_def q2_def q1_def)
    next
      case neg: False
      define k where "k = nat (- (int n + e))"
      have k: "k \<le> 5" "int n + e = - int k" using neg e(2) by (simp_all add: k_def)
      define q1 where "q1 = p @ [0x30]"
      define q2 where "q2 = q1 @ [0x2E]"
      define q3 where "q3 = q2 @ replicate k 0x30"
      define q4 where "q4 = q3 @ digit_chars (take n ds)"
      have s1: "put_char (p @ x, length p) 0x30 = Some (q1 @ tl x, length q1)"
        unfolding q1_def by (rule put_char_at) (use lx in auto)
      have s2: "put_char (q1 @ tl x, length q1) 0x2E = Some (q2 @ tl (tl x), length q2)"
        unfolding q2_def by (rule put_char_at) (use lx in \<open>cases x; cases "tl x"; auto\<close>)
      have s3: "put_zeros k (q2 @ tl (tl x), length q2) = Some (q3 @ drop k (tl (tl x)), length q3)"
        unfolding q3_def by (rule put_zeros_at) (use lx k in simp)
      have s4: "put_digits 43 n (q3 @ drop k (tl (tl x)), length q3) ds = Some ((q4 @ drop n (drop k (tl (tl x))), length q4), drop n ds)"
        unfolding q4_def by (rule put_digits_at) (use ds x lx k in \<open>simp_all add: q3_def q2_def q1_def\<close>)
      have "drop n (drop k (tl (tl x))) \<noteq> []" using ds lx k by simp
      then obtain r where "mem_write (q4 @ drop n (drop k (tl (tl x)))) (length q4) [0] = Some (q4 @ 0 # r)" using nul by blast
      then have "regular_format (p @ x, length p) ds n e = Some (q4 @ 0 # r)"
        using s1 s2 s3 s4 e0 k by (simp add: regular_format_def Let_def)
      then show ?thesis using k e0 False by (auto simp: q4_def q3_def q2_def q1_def)
    qed
  qed
qed

lemma digit_chars_take_drop: "digit_chars (take k ds) = take k (digit_chars ds)" "digit_chars (drop k ds) = drop k (digit_chars ds)"
    "digit_chars (tl ds) = tl (digit_chars ds)" "ds \<noteq> [] \<Longrightarrow> hd (digit_chars ds) = word_of_nat (hd ds + 48)"
  by (simp_all add: digit_chars_def take_map drop_map map_tl hd_map)

lemma format_at:
  assumes ds: "digit_chars (take n ds) = decimal c" "n = length (decimal c)" "n \<le> 34" "n \<le> length ds"
    and x: "length p \<le> 1" "length (p @ x) = 43" and e: "\<bar>e\<bar> \<le> 6176"
  shows "\<exists>r. (if int n - 1 + e < -6 \<or> e > 0 then scientific_format (p @ x, length p) ds n (int n - 1 + e)
      else regular_format (p @ x, length p) ds n e) = Some (p @ d128_text c e @ 0 # r)"
proof -
  have n: "0 < n" using ds(2) by simp
  have dne: "ds \<noteq> []" using n ds(4) by auto
  obtain d ds' m where dm: "ds = d # ds'" "n = Suc m" using n dne by (cases ds; cases n) auto
  have dc: "decimal c = word_of_nat (d + 48) # digit_chars (take m ds')" using ds(1) by (simp add: dm)
  have hn: "digit_chars (take m ds') = [] \<longleftrightarrow> n = 1" using ds(2) dm by (cases "digit_chars (take m ds')") (auto simp: dc)
  show ?thesis
  proof (cases "int n - 1 + e < -6 \<or> e > 0")
    case True
    have b: "\<bar>int n - 1 + e\<bar> < 10000" using e ds(3) by simp
    have "d128_text c e = word_of_nat (hd ds + 48) # (if n = 1 then [] else 0x2E # digit_chars (take (n - 1) (tl ds))) @ 0x45 # plus_decimal (int n - 1 + e)"
      unfolding d128_text_def Let_def ds(2) [symmetric] unfolding if_P [OF True] dc list.sel hn by (simp add: dm)
    with scientific_at [OF ds(4) n ds(3) x b] show ?thesis unfolding if_P [OF True] by simp
  next
    case False
    then have f: "e \<le> 0" "-6 \<le> int n - 1 + e" by simp_all
    define k where "k = nat (int n + e)"
    have k: "k \<le> n" using f(1) by (simp add: k_def)
    have td: "take k (decimal c) = digit_chars (take k ds)" "drop k (decimal c) = digit_chars (take (n - k) (drop k ds))"
      unfolding ds(1) [symmetric] digit_chars_take_drop(1,2) [symmetric] take_take min_absorb1 [OF k] drop_take by (rule refl)+
    have "d128_text c e = (if e = 0 then digit_chars (take n ds)
       else if int n + e > 0 then digit_chars (take k ds) @ 0x2E # digit_chars (take (n - k) (drop k ds))
       else 0x30 # 0x2E # replicate (nat (- (int n + e))) 0x30 @ digit_chars (take n ds))"
      unfolding d128_text_def Let_def ds(2) [symmetric] unfolding if_not_P [OF False] k_def [symmetric] td ds(1) ..
    with regular_at [OF ds(4) n ds(3) x f] show ?thesis unfolding if_not_P [OF False] k_def [symmetric] by simp
  qed
qed

lemma finite_text:
  assumes parts: "list_all (\<lambda>p. p < 2 ^ 32) parts" "length parts = 4" "parts ! 0 < 2 ^ 17 \<Longrightarrow> parts_val 0 parts < 10 ^ 34"
    and x: "length p \<le> 1" "length (p @ x) = 43" and e: "\<bar>e\<bar> \<le> 6176"
  shows "\<exists>r. finite_to_string (p @ x, length p) e parts =
    Some (p @ d128_text (if parts ! 0 < 2 ^ 17 then parts_val 0 parts else 0) e @ 0 # r)"
proof -
  have z: "list_all (\<lambda>p. p = 0) parts \<longleftrightarrow> parts_val 0 parts = 0"
  proof
    show "list_all (\<lambda>p. p = 0) parts \<Longrightarrow> parts_val 0 parts = 0" by (induction parts) (simp_all add: parts_val_def)
    obtain a b c d where "parts = [a, b, c, d]" using parts(2) by (auto simp: length_Suc_conv numeral_eq_Suc)
    then show "parts_val 0 parts = 0 \<Longrightarrow> list_all (\<lambda>p. p = 0) parts" by (simp add: parts_val_def)
  qed
  show ?thesis
  proof (cases "parts_val 0 parts = 0 \<or> 2 ^ 17 \<le> parts ! 0")
    case True
    have d0: "decimal 0 = [0x30]" by (subst decimal.simps) simp
    have "digit_chars (take 1 (replicate 36 0)) = decimal 0" by (simp add: d0)
    from format_at [OF this _ _ _ x e] True show ?thesis
      by (auto simp: finite_to_string_def Let_def z d0)
  next
    case False
    define v where "v = parts_val 0 parts"
    define ds where "ds = dropWhile (\<lambda>d. d = 0) (digit_list 36 v)"
    have v: "0 < v" "v < 10 ^ 34" using False parts(3) by (simp_all add: v_def)
    then have dd: "digit_chars ds = decimal v" unfolding ds_def by (intro digits_decimal) simp_all
    then have l: "length ds = length (decimal v)" by (metis digit_chars_simps(3))
    have l34: "length (decimal v) \<le> 34" using decimal_length [OF v(2)] by simp
    have "significand_loop 4 parts (replicate 36 0) = digit_list 36 v" using significand_loop_ok [OF parts(1), of 4 "[]"] by (simp add: v_def)
    then have f: "finite_to_string (p @ x, length p) e parts =
      (if int (length ds) - 1 + e < -6 \<or> e > 0 then scientific_format (p @ x, length p) ds (length ds) (int (length ds) - 1 + e)
       else regular_format (p @ x, length p) ds (length ds) e)"
      using False by (simp add: finite_to_string_def Let_def z ds_def)
    have "digit_chars (take (length ds) ds) = decimal v" using dd by simp
    from format_at [OF this l _ _ x e] l l34 False show ?thesis unfolding f v_def [symmetric] by auto
  qed
qed

subsection \<open>The fields of the 128 bits\<close>

text \<open>The number of 128 bits and what it stands for: \<open>None\<close> in the middle is an infinity or not a number.\<close>

definition d128_bits :: "u64 \<Rightarrow> u64 \<Rightarrow> nat" where
  "d128_bits hi lo = unat hi * 2 ^ 64 + unat lo"

definition d128_coefficient :: "nat \<Rightarrow> nat" where
  "d128_coefficient n = (if n div 2 ^ 125 mod 4 = 3 then 0 else n mod 2 ^ 113)"

definition d128_exponent :: "nat \<Rightarrow> int" where
  "d128_exponent n = int (n div (if n div 2 ^ 125 mod 4 = 3 then 2 ^ 111 else 2 ^ 113) mod 2 ^ 14) - 6176"

definition d128_spec :: "u64 \<Rightarrow> u64 \<Rightarrow> bytes" where
  "d128_spec hi lo =
     (let n = d128_bits hi lo; sign = (if n div 2 ^ 127 mod 2 = 1 then [0x2D] else []) in
      if n div 2 ^ 122 mod 32 = 30 then sign @ str_of ''Infinity''
      else if n div 2 ^ 122 mod 32 = 31 then str_of ''NaN''
      else sign @ d128_text (d128_coefficient n) (d128_exponent n))"

lemma d128_high:
  assumes "64 \<le> k"
  shows "d128_bits hi lo div 2 ^ k = unat hi div 2 ^ (k - 64)"
proof -
  have "unat lo < 2 ^ 64" using unsigned_less [of lo] by simp
  then have "d128_bits hi lo div 2 ^ 64 = unat hi" by (simp add: d128_bits_def)
  moreover have "k = 64 + (k - 64)" using assms by simp
  then have "(2 :: nat) ^ k = 2 ^ 64 * 2 ^ (k - 64)" using power_add [of "2 :: nat" 64 "k - 64"] by metis
  ultimately show ?thesis by (simp only: div_mult2_eq)
qed

lemma d128_low: "d128_bits hi lo mod 2 ^ 113 = unat hi mod 2 ^ 49 * 2 ^ 64 + unat lo"
proof -
  have l: "unat lo < 2 ^ 64" using unsigned_less [of lo] by simp
  have "d128_bits hi lo mod (2 ^ 64 * 2 ^ 49) = 2 ^ 64 * (d128_bits hi lo div 2 ^ 64 mod 2 ^ 49) + d128_bits hi lo mod 2 ^ 64"
    by (rule mod_mult2_eq)
  moreover have "d128_bits hi lo mod 2 ^ 64 = unat lo" using l by (simp add: d128_bits_def)
  ultimately show ?thesis using d128_high [of 64 hi lo] by (simp add: mult.commute)
qed

lemma drop_u64: "unat (drop_bit k (w :: 'a :: len word)) = unat w div 2 ^ k"
  by (subst unat_drop_bit_eq, simp only: drop_bit_eq_div)

text \<open>The words of the code as numbers.\<close>

lemma word_fields:
  fixes hi :: u64
  defines "high \<equiv> (ucast (drop_bit 32 hi) :: u32)"
  shows "unat high = unat hi div 2 ^ 32" "unat (ucast hi :: u32) = unat hi mod 2 ^ 32"
    "unat (drop_bit 26 high AND 0x1F) = unat hi div 2 ^ 58 mod 32"
    "unat (drop_bit 15 high AND 0x3FFF) = unat hi div 2 ^ 47 mod 2 ^ 14" "unat (drop_bit 17 high AND 0x3FFF) = unat hi div 2 ^ 49 mod 2 ^ 14"
    "unat (drop_bit 14 high AND 0x7) = unat hi div 2 ^ 46 mod 8" "unat (drop_bit 14 high AND 0x1) = unat hi div 2 ^ 46 mod 2"
    "unat (high AND 0x3FFF) = unat hi div 2 ^ 32 mod 2 ^ 14"
proof -
  have l: "unat hi < 2 ^ 64" using unsigned_less [of hi] by simp
  have c: "unat (ucast w :: u32) = unat w mod 2 ^ 32" for w :: u64
    by (simp add: unsigned_ucast_eq take_bit_eq_mod)
  have d0: "unat (drop_bit 32 hi) = unat hi div 2 ^ 32" by (rule drop_u64)
  have "unat hi div 2 ^ 32 < 2 ^ 32" using l by (simp add: less_mult_imp_div_less)
  then show h: "unat high = unat hi div 2 ^ 32" unfolding high_def c d0 by simp
  show "unat (ucast hi :: u32) = unat hi mod 2 ^ 32" by (rule c)
  have d: "unat (drop_bit k high) = unat hi div 2 ^ (32 + k)" for k
    unfolding drop_u64 h by (simp add: div_mult2_eq power_add)
  have m: "mask 5 = (0x1F :: u32)" "mask 14 = (0x3FFF :: u32)" "mask 3 = (0x7 :: u32)" "mask 1 = (0x1 :: u32)"
    by (simp_all add: mask_eq_exp_minus_1)
  show "unat (drop_bit 26 high AND 0x1F) = unat hi div 2 ^ 58 mod 32"
    "unat (drop_bit 15 high AND 0x3FFF) = unat hi div 2 ^ 47 mod 2 ^ 14" "unat (drop_bit 17 high AND 0x3FFF) = unat hi div 2 ^ 49 mod 2 ^ 14"
    "unat (drop_bit 14 high AND 0x7) = unat hi div 2 ^ 46 mod 8" "unat (drop_bit 14 high AND 0x1) = unat hi div 2 ^ 46 mod 2"
    "unat (high AND 0x3FFF) = unat hi div 2 ^ 32 mod 2 ^ 14"
    unfolding unat_and_mask [OF m(1)] unat_and_mask [OF m(2)] unat_and_mask [OF m(3)] unat_and_mask [OF m(4)] d h by simp_all
qed

lemma word_sum14:
  fixes x y :: u32
  assumes "unat x < 2 ^ 14" "unat y < 2 ^ 4"
  shows "unat (x + push_bit 14 (y AND 0xF)) = unat x + unat y * 2 ^ 14"
proof -
  have "mask 4 = (0xF :: u32)" by (simp add: mask_eq_exp_minus_1)
  then have "unat (y AND 0xF) = unat y" using unat_and_mask [of 4 "0xF" y] assms(2) by simp
  then have "y AND 0xF = y" by (simp only: word_unat_eq_iff)
  then have "x + push_bit 14 (y AND 0xF) = word_of_nat (unat x + unat y * 2 ^ 14)" by (simp add: push_bit_eq_mult)
  moreover have "unat x + unat y * 2 ^ 14 < 2 ^ 32" using assms by simp
  ultimately show ?thesis by (simp only: unat_of_nat) simp
qed

lemma part0_regular:
  fixes hi :: u64
  defines "high \<equiv> (ucast (drop_bit 32 hi) :: u32)"
  shows "unat ((high AND 0x3FFF) + push_bit 14 ((drop_bit 14 high AND 0x7) AND 0xF)) = unat hi div 2 ^ 32 mod 2 ^ 17"
proof -
  have "unat hi div 2 ^ 32 mod (2 ^ 14 * 2 ^ 3) = 2 ^ 14 * (unat hi div 2 ^ 32 div 2 ^ 14 mod 2 ^ 3) + unat hi div 2 ^ 32 mod 2 ^ 14"
    by (rule mod_mult2_eq)
  moreover have "unat hi div 2 ^ 32 div 2 ^ 14 = unat hi div 2 ^ 46" by (simp flip: div_mult2_eq)
  moreover have "unat hi div 2 ^ 46 mod 8 < 2 ^ 4" using mod_less_divisor [of 8 "unat hi div 2 ^ 46"] by simp
  moreover have "unat hi div 2 ^ 32 mod 2 ^ 14 < 2 ^ 14" by simp
  ultimately show ?thesis using word_sum14 [of "high AND 0x3FFF" "drop_bit 14 high AND 0x7"]
    unfolding high_def word_fields(6,8) by simp
qed

lemma part0_special:
  fixes hi :: u64
  defines "high \<equiv> (ucast (drop_bit 32 hi) :: u32)"
  shows "2 ^ 17 \<le> unat ((high AND 0x3FFF) + push_bit 14 ((0x8 + (drop_bit 14 high AND 0x1)) AND 0xF))"
proof -
  have b: "unat (drop_bit 14 high AND 0x1) < 2" unfolding high_def word_fields(7) by simp
  then have "unat (0x8 + (drop_bit 14 high AND 0x1)) = 8 + unat (drop_bit 14 high AND 0x1)"
    using unat_add_lem [of "0x8" "drop_bit 14 high AND 0x1"] by simp
  moreover have "unat (high AND 0x3FFF) < 2 ^ 14" unfolding high_def word_fields(8) by simp
  ultimately show ?thesis using word_sum14 [of "high AND 0x3FFF" "0x8 + (drop_bit 14 high AND 0x1)"] b by simp
qed

lemma d128_parts:
  "parts_val 0 [unat hi div 2 ^ 32 mod 2 ^ 17, unat (ucast hi :: u32), unat (ucast (drop_bit 32 lo) :: u32), unat (ucast lo :: u32)] =
    d128_bits hi lo mod 2 ^ 113"
proof -
  have h: "unat hi mod (2 ^ 32 * 2 ^ 17) = 2 ^ 32 * (unat hi div 2 ^ 32 mod 2 ^ 17) + unat hi mod 2 ^ 32" by (rule mod_mult2_eq)
  have l: "unat lo = 2 ^ 32 * (unat lo div 2 ^ 32) + unat lo mod 2 ^ 32" by simp
  have "unat lo < 2 ^ 32 * 2 ^ 32" using unsigned_less [of lo] by simp
  then have "unat lo div 2 ^ 32 < 2 ^ 32" by (rule less_mult_imp_div_less)
  then have w: "unat (ucast (drop_bit 32 lo) :: u32) = unat lo div 2 ^ 32" unfolding word_fields(2) drop_u64 by simp
  show ?thesis unfolding w unfolding word_fields(2) d128_low parts_val_def using h l by (simp add: algebra_simps)
qed

lemma negative_bit: "sint (hi :: u64) < 0 \<longleftrightarrow> unat hi div 2 ^ 63 mod 2 = 1"
proof -
  have l: "unat hi < 2 ^ 63 * 2" using unsigned_less [of hi] by simp
  then have "unat hi div 2 ^ 63 < 2" by (simp add: less_mult_imp_div_less mult.commute)
  then have a: "unat hi div 2 ^ 63 mod 2 = 1 \<longleftrightarrow> \<not> unat hi < 2 ^ 63" by (auto simp: div_less_iff_less_mult less_Suc_eq)
  have b: "- (2 ^ 63) \<le> sint hi" "sint hi < 2 ^ 63" using sint_ge [of hi] sint_lt [of hi] by simp_all
  have u: "int (unat hi) = sint hi mod 2 ^ 64" by (simp add: uint_sint take_bit_eq_mod)
  have "int (unat hi) < int (2 ^ 63) \<longleftrightarrow> unat hi < 2 ^ 63" by (rule of_nat_less_iff)
  then have i: "int (unat hi) < 2 ^ 63 \<longleftrightarrow> unat hi < 2 ^ 63" unfolding of_nat_power of_nat_numeral .
  have "sint hi < 0 \<longleftrightarrow> \<not> unat hi < 2 ^ 63"
  proof (cases "sint hi < 0")
    case True
    have "sint hi mod 2 ^ 64 = (sint hi + 2 ^ 64) mod 2 ^ 64" by (rule mod_add_self2 [symmetric])
    also have "\<dots> = sint hi + 2 ^ 64" using True b by (intro mod_pos_pos_trivial) simp_all
    finally have "int (unat hi) = sint hi + 2 ^ 64" using u by simp
    then have "\<not> int (unat hi) < 2 ^ 63" using b by simp
    then show ?thesis using True i by simp
  next
    case False
    then have "sint hi mod 2 ^ 64 = sint hi" using b by (intro mod_pos_pos_trivial) simp_all
    then have "int (unat hi) < 2 ^ 63" using u b by simp
    then show ?thesis using False i by simp
  qed
  with a show ?thesis by simp
qed

lemma exponent_range:
  assumes "n div 2 ^ 122 mod 32 \<noteq> 30" "n div 2 ^ 122 mod 32 \<noteq> 31"
  shows "\<bar>d128_exponent n\<bar> \<le> 6176"
proof -
  define E where "E = n div (if n div 2 ^ 125 mod 4 = 3 then 2 ^ 111 else 2 ^ 113) mod 2 ^ 14"
  have "E < 12288"
  proof (cases "n div 2 ^ 125 mod 4 = 3")
    case True
    define t where "t = n div 2 ^ 122 mod 32"
    have t: "t div 8 = 3" "t < 32" "t \<noteq> 30" "t \<noteq> 31"
    proof -
      have "m mod 32 div 8 = m div 8 mod 4" for m :: nat using mod_mult2_eq [of m 8 4] by simp
      moreover have "n div 2 ^ 122 div 8 = n div 2 ^ 125" by (simp flip: div_mult2_eq)
      ultimately show "t div 8 = 3" using True by (simp add: t_def)
    qed (use assms in \<open>simp_all add: t_def\<close>)
    have "m mod 2 ^ 14 div 2 ^ 11 = m div 2 ^ 11 mod 8" for m :: nat using mod_mult2_eq [of m "2 ^ 11" 8] by simp
    then have "E div 2 ^ 11 = n div 2 ^ 111 div 2 ^ 11 mod 8" using True by (simp add: E_def)
    also have "n div 2 ^ 111 div 2 ^ 11 = n div 2 ^ 122" by (simp flip: div_mult2_eq)
    also have "n div 2 ^ 122 mod 8 = t mod 8" unfolding t_def by (simp add: mod_mod_cancel)
    also have "t mod 8 < 6"
    proof -
      have "t = 8 * 3 + t mod 8" using mult_div_mod_eq [of 8 t] t(1) by simp
      moreover have "t mod 8 < 8" by simp
      ultimately show ?thesis using t(3,4) by linarith
    qed
    finally have "E div 2048 < 6" by simp
    then show ?thesis by (simp add: div_less_iff_less_mult)
  next
    case False
    have "m mod 2 ^ 14 div 2 ^ 12 = m div 2 ^ 12 mod 4" for m :: nat using mod_mult2_eq [of m "2 ^ 12" 4] by simp
    then have "E div 2 ^ 12 = n div 2 ^ 113 div 2 ^ 12 mod 4" using False by (simp add: E_def)
    also have "n div 2 ^ 113 div 2 ^ 12 = n div 2 ^ 125" by (simp flip: div_mult2_eq)
    also have "n div 2 ^ 125 mod 4 \<le> 2" using False mod_less_divisor [of 4 "n div 2 ^ 125"] by linarith
    finally show ?thesis by simp
  qed
  then show ?thesis unfolding d128_exponent_def E_def [symmetric] by simp
qed

lemma no_nul_parts:
  assumes "no_nul s"
  shows "no_nul (take k s)" "no_nul (drop k s)" "no_nul (tl s)" "s \<noteq> [] \<Longrightarrow> hd s \<noteq> 0"
proof -
  show "no_nul (take k s)" "no_nul (drop k s)" using assms by (metis append_take_drop_id no_nul_simps(3))+
  show "no_nul (tl s)" "s \<noteq> [] \<Longrightarrow> hd s \<noteq> 0" using assms by (cases s; simp)+
qed

lemma d128_text_no_nul: "no_nul (d128_text c e)"
proof -
  note d = no_nul_parts [OF decimal_no_nul [of c]]
  have "no_nul (plus_decimal m)" for m using decimal_no_nul by (simp add: plus_decimal_def)
  moreover have "no_nul (replicate k 0x30)" for k by (simp add: no_nul_def list_all_iff)
  ultimately show ?thesis using d decimal_no_nul [of c] by (simp add: d128_text_def Let_def)
qed

lemma to_string_fields:
  fixes hi lo :: u64
  assumes str: "length str = 43"
  defines "n \<equiv> d128_bits hi lo"
  obtains x where "length ((if n div 2 ^ 127 mod 2 = 1 then [0x2D] else []) @ x) = 43"
    "(if sint hi < 0 then put_char (str, 0) 0x2D else Some (str, 0)) =
      Some ((if n div 2 ^ 127 mod 2 = 1 then [0x2D] else []) @ x, length (if n div 2 ^ 127 mod 2 = 1 then [0x2D :: u8] else []))"
    "drop_bit 26 (ucast (drop_bit 32 hi) :: u32) AND 0x1F = 30 \<longleftrightarrow> n div 2 ^ 122 mod 32 = 30"
    "drop_bit 26 (ucast (drop_bit 32 hi) :: u32) AND 0x1F = 31 \<longleftrightarrow> n div 2 ^ 122 mod 32 = 31"
    "n div 2 ^ 122 mod 32 \<noteq> 30 \<Longrightarrow> n div 2 ^ 122 mod 32 \<noteq> 31 \<Longrightarrow> \<exists>parts. list_all (\<lambda>p. p < 2 ^ 32) parts \<and> length parts = 4 \<and>
      (if parts ! 0 < 2 ^ 17 then parts_val 0 parts else 0) = d128_coefficient n \<and>
      bson_decimal128_to_string hi lo str =
        finite_to_string ((if n div 2 ^ 127 mod 2 = 1 then [0x2D] else []) @ x, length (if n div 2 ^ 127 mod 2 = 1 then [0x2D :: u8] else [])) (d128_exponent n) parts"
proof -
  define high where "high = (ucast (drop_bit 32 hi) :: u32)"
  define comb where "comb = drop_bit 26 high AND 0x1F"
  define sign where "sign = (if n div 2 ^ 127 mod 2 = 1 then [0x2D] else ([] :: bytes))"
  note wf = word_fields [of hi, folded high_def]
  have d: "n div 2 ^ 127 = unat hi div 2 ^ 63" "n div 2 ^ 122 = unat hi div 2 ^ 58" "n div 2 ^ 125 = unat hi div 2 ^ 61"
    "n div 2 ^ 111 = unat hi div 2 ^ 47" "n div 2 ^ 113 = unat hi div 2 ^ 49"
    unfolding n_def by (subst d128_high; simp)+
  have uc: "unat comb = n div 2 ^ 122 mod 32" unfolding comb_def wf(3) d(2) ..
  have us: "unat (drop_bit 3 comb) = n div 2 ^ 125 mod 4"
  proof -
    have "m mod 32 div 8 = m div 8 mod 4" for m :: nat using mod_mult2_eq [of m 8 4] by simp
    then have "n div 2 ^ 122 mod 32 div 8 = n div 2 ^ 122 div 8 mod 4" .
    moreover have "n div 2 ^ 122 div 8 = n div 2 ^ 125" by (simp flip: div_mult2_eq)
    moreover have "unat (drop_bit 3 comb) = unat comb div 8" by (simp add: drop_u64)
    ultimately show ?thesis using uc by simp
  qed
  have cc: "comb = 30 \<longleftrightarrow> n div 2 ^ 122 mod 32 = 30" "comb = 31 \<longleftrightarrow> n div 2 ^ 122 mod 32 = 31" "drop_bit 3 comb = 3 \<longleftrightarrow> n div 2 ^ 125 mod 4 = 3"
    unfolding word_unat_eq_iff uc us by simp_all
  obtain x where x: "length (sign @ x) = 43" "length sign \<le> 1"
    "(if sint hi < 0 then put_char (str, 0) 0x2D else Some (str, 0)) = Some (sign @ x, length sign)"
  proof (cases "sint hi < 0")
    case True
    then have "sign = [0x2D]" unfolding sign_def d(1) negative_bit by simp
    then show ?thesis using that [of "tl str"] put_char_at [of str "[]" "0x2D"] str True by (cases str) simp_all
  next
    case False
    then have "sign = []" unfolding sign_def d(1) negative_bit by simp
    then show ?thesis using that [of str] str False by simp
  qed
  have "\<exists>parts. list_all (\<lambda>p. p < 2 ^ 32) parts \<and> length parts = 4 \<and> (if parts ! 0 < 2 ^ 17 then parts_val 0 parts else 0) = d128_coefficient n \<and>
      bson_decimal128_to_string hi lo str = finite_to_string (sign @ x, length sign) (d128_exponent n) parts"
    if "n div 2 ^ 122 mod 32 \<noteq> 30" "n div 2 ^ 122 mod 32 \<noteq> 31"
  proof -
    have False: "\<not> (comb = 30 \<or> comb = 31)" using that cc by simp
    define special where "special = (drop_bit 3 comb = 3)"
    define be where "be = (if special then drop_bit 15 high AND 0x3FFF else drop_bit 17 high AND 0x3FFF)"
    define p0 where "p0 = (high AND 0x3FFF) + push_bit 14 ((if special then 0x8 + (drop_bit 14 high AND 0x1) else drop_bit 14 high AND 0x7) AND 0xF)"
    define parts where "parts = [unat p0, unat (ucast hi :: u32), unat (ucast (drop_bit 32 lo) :: u32), unat (ucast lo :: u32)]"
    have code: "bson_decimal128_to_string hi lo str = finite_to_string (sign @ x, length sign) (int (unat be) - 6176) parts"
      unfolding bson_decimal128_to_string_def Let_def high_def [symmetric] comb_def [symmetric] x(3) Option.bind.bind_lunit
        special_def [symmetric] be_def [symmetric] p0_def [symmetric] parts_def using False by simp
    have sp: "special \<longleftrightarrow> n div 2 ^ 125 mod 4 = 3" unfolding special_def cc(3) ..
    have ex: "int (unat be) - 6176 = d128_exponent n" 
      unfolding d128_exponent_def sp [symmetric] be_def by (cases special) (simp_all only: if_True if_False wf(4,5) d(4,5))
    have p0: "unat p0 < 2 ^ 17 \<longleftrightarrow> \<not> special" "\<not> special \<Longrightarrow> unat p0 = unat hi div 2 ^ 32 mod 2 ^ 17"
      using part0_regular [of hi] part0_special [of hi] unfolding p0_def high_def by auto
    have co: "(if parts ! 0 < 2 ^ 17 then parts_val 0 parts else 0) = d128_coefficient n"
    proof (cases special)
      case True
      then show ?thesis using p0(1) sp by (simp add: parts_def d128_coefficient_def)
    next
      case False
      have "parts_val 0 parts = n mod 2 ^ 113" unfolding parts_def p0(2) [OF False] n_def by (rule d128_parts)
      then show ?thesis using False p0(1) sp by (simp add: parts_def d128_coefficient_def)
    qed
    have l4: "list_all (\<lambda>p. p < 2 ^ 32) parts" unfolding parts_def by (simp add: unat_u32_less [simplified])
    show ?thesis using l4 co code ex by (intro exI [of _ parts]) (simp add: parts_def)
  qed
  then show ?thesis using that [of x] x cc unfolding sign_def comb_def high_def by blast
qed

lemma to_string_spec:
  assumes str: "length str = 43" and c: "d128_coefficient (d128_bits hi lo) < 10 ^ 34"
  shows "\<exists>r. bson_decimal128_to_string hi lo str = Some r \<and> c_string r 0 = Some (d128_spec hi lo)"
proof -
  define n where "n = d128_bits hi lo"
  define sign where "sign = (if n div 2 ^ 127 mod 2 = 1 then [0x2D] else ([] :: bytes))"
  define high where "high = (ucast (drop_bit 32 hi) :: u32)"
  define comb where "comb = drop_bit 26 high AND 0x1F"
  obtain x where x: "length (sign @ x) = 43"
      "(if sint hi < 0 then put_char (str, 0) 0x2D else Some (str, 0)) = Some (sign @ x, length sign)"
    and cc: "comb = 30 \<longleftrightarrow> n div 2 ^ 122 mod 32 = 30" "comb = 31 \<longleftrightarrow> n div 2 ^ 122 mod 32 = 31"
    and fin: "n div 2 ^ 122 mod 32 \<noteq> 30 \<Longrightarrow> n div 2 ^ 122 mod 32 \<noteq> 31 \<Longrightarrow> \<exists>parts. list_all (\<lambda>p. p < 2 ^ 32) parts \<and> length parts = 4 \<and>
      (if parts ! 0 < 2 ^ 17 then parts_val 0 parts else 0) = d128_coefficient n \<and>
      bson_decimal128_to_string hi lo str = finite_to_string (sign @ x, length sign) (d128_exponent n) parts"
    using to_string_fields [OF str, of hi lo] unfolding n_def [symmetric] sign_def [symmetric] high_def [symmetric] comb_def [symmetric] by blast
  have ls: "length sign \<le> 1" by (simp add: sign_def)
  have lit: "\<exists>r. strcpy_lit (p @ y) (length p) s = Some (p @ str_of s @ 0 # r)" if "length s < length y" for p y s
    using that by (auto simp: strcpy_lit_def mem_write_def str_of_def)
  show ?thesis
  proof (cases "comb = 30 \<or> comb = 31")
    case True
    show ?thesis
    proof (cases "comb = 30")
      case True
      obtain r where "strcpy_lit (sign @ x) (length sign) ''Infinity'' = Some (sign @ str_of ''Infinity'' @ 0 # r)"
        using lit [of "''Infinity''" x sign] x(1) ls by auto
      then have "bson_decimal128_to_string hi lo str = Some ((sign @ str_of ''Infinity'') @ 0 # r)"
        unfolding bson_decimal128_to_string_def Let_def high_def [symmetric] comb_def [symmetric] x(2) Option.bind.bind_lunit using True by simp
      moreover have "d128_spec hi lo = sign @ str_of ''Infinity''"
        using True cc(1) by (simp add: d128_spec_def Let_def n_def [symmetric] sign_def)
      moreover have "no_nul (sign @ str_of ''Infinity'')" by (simp add: sign_def str_of_def of_char_def)
      ultimately show ?thesis using c_string_append [of 0 "[]" "sign @ str_of ''Infinity''" r] by simp
    next
      case False
      then have c31: "comb = 31" using True by simp
      obtain r where "strcpy_lit (sign @ x) 0 ''NaN'' = Some (str_of ''NaN'' @ 0 # r)"
        using lit [of "''NaN''" "sign @ x" "[]"] x(1) by auto
      then have "bson_decimal128_to_string hi lo str = Some (str_of ''NaN'' @ 0 # r)"
        unfolding bson_decimal128_to_string_def Let_def high_def [symmetric] comb_def [symmetric] x(2) Option.bind.bind_lunit using c31 by simp
      moreover have "d128_spec hi lo = str_of ''NaN''"
        using c31 cc(2) False cc(1) by (simp add: d128_spec_def Let_def n_def [symmetric])
      moreover have "no_nul (str_of ''NaN'')" by (simp add: str_of_def of_char_def)
      ultimately show ?thesis using c_string_append [of 0 "[]" "str_of ''NaN''" r] by simp
    qed
  next
    case False
    then have nn: "n div 2 ^ 122 mod 32 \<noteq> 30" "n div 2 ^ 122 mod 32 \<noteq> 31" using cc by simp_all
    obtain parts where p: "list_all (\<lambda>p. p < 2 ^ 32) parts" "length parts = 4"
      "(if parts ! 0 < 2 ^ 17 then parts_val 0 parts else 0) = d128_coefficient n"
      "bson_decimal128_to_string hi lo str = finite_to_string (sign @ x, length sign) (d128_exponent n) parts" using fin [OF nn] by blast
    have "parts_val 0 parts < 10 ^ 34" if "parts ! 0 < 2 ^ 17" using p(3) that c by (simp add: n_def)
    from finite_text [OF p(1,2) this ls x(1) exponent_range [OF nn]] obtain r where
      "finite_to_string (sign @ x, length sign) (d128_exponent n) parts = Some ((sign @ d128_text (d128_coefficient n) (d128_exponent n)) @ 0 # r)"
      unfolding p(3) by auto
    moreover have "d128_spec hi lo = sign @ d128_text (d128_coefficient n) (d128_exponent n)"
      using False cc(1,2) by (simp add: d128_spec_def Let_def n_def [symmetric] sign_def)
    moreover have "no_nul (sign @ d128_text (d128_coefficient n) (d128_exponent n))" by (simp add: sign_def d128_text_no_nul)
    ultimately show ?thesis using p(4) c_string_append [of 0 "[]" "sign @ d128_text (d128_coefficient n) (d128_exponent n)" r] by simp
  qed
qed

text \<open>
  C7. \<^verbatim>\<open>bson_decimal128_to_string\<close> writes every number whose coefficient has at most 34 digits, the infinities and NaN into a
  buffer of 43 bytes, as the text that the specification prescribes.
\<close>

theorem decimal128_to_string_spec:
  assumes "length str = 43" "d128_coefficient (d128_bits hi lo) < 10 ^ 34"
  shows "\<exists>r. bson_decimal128_to_string hi lo str = Some r \<and> c_string r 0 = Some (d128_spec hi lo)"
  using to_string_spec [OF assms] .

lemma decimal128_to_string_spec_witness:
  "\<exists>r. bson_decimal128_to_string 0x303C000000000000 12345 (replicate 43 9) = Some r \<and> c_string r 0 = Some (str_of ''123.45'')"
proof -
  have b: "d128_bits 0x303C000000000000 12345 = 0x303C000000000000 * 2 ^ 64 + 12345" by (simp add: d128_bits_def)
  have c: "d128_coefficient (d128_bits 0x303C000000000000 12345) = 12345" unfolding b d128_coefficient_def by simp
  have e: "d128_exponent (d128_bits 0x303C000000000000 12345) = -2" unfolding b d128_exponent_def by simp
  have "decimal 12345 = str_of ''12345''" by (simp add: decimal.simps str_of_def of_char_def)
  then have "d128_spec 0x303C000000000000 12345 = str_of ''123.45''"
    unfolding d128_spec_def Let_def c e by (simp add: b d128_text_def str_of_def Let_def)
  then show ?thesis using decimal128_to_string_spec [of "replicate 43 9" "0x303C000000000000" 12345] c by simp
qed

lemma regular_overflow:
  assumes "length ds = 35" "length x = 42"
  shows "regular_format ([c] @ x, length [c]) ds 35 (-40) = None"
proof -
  define q1 where "q1 = [c] @ [0x30]"
  define q2 where "q2 = q1 @ [0x2E]"
  define q3 where "q3 = q2 @ replicate 5 0x30"
  define q4 where "q4 = q3 @ digit_chars (take 35 ds)"
  have xn: "x \<noteq> []" "tl x \<noteq> []" using assms(2) by (cases x; cases "tl x"; auto)+
  have "put_char ([c] @ x, length [c]) 0x30 = Some (q1 @ tl x, length q1)"
    unfolding q1_def by (rule put_char_at [OF xn(1)])
  moreover have "put_char (q1 @ tl x, length q1) 0x2E = Some (q2 @ tl (tl x), length q2)"
    unfolding q2_def by (rule put_char_at [OF xn(2)])
  moreover have "put_zeros 5 (q2 @ tl (tl x), length q2) = Some (q3 @ drop 5 (tl (tl x)), length q3)"
    unfolding q3_def by (rule put_zeros_at) (use assms in simp)
  moreover have "put_digits 43 35 (q3 @ drop 5 (tl (tl x)), length q3) ds = Some ((q4 @ drop 35 (drop 5 (tl (tl x))), length q4), drop 35 ds)"
    unfolding q4_def by (rule put_digits_at) (use assms in \<open>simp_all add: q3_def q2_def q1_def\<close>)
  moreover have "drop 35 (drop 5 (tl (tl x))) = []" using assms by simp
  ultimately show ?thesis by (simp add: regular_format_def mem_write_def)
qed

text \<open>
  The coefficient \<open>10 ^ 34\<close>, which has 35 digits and is not canonical, is not taken for zero as the comment in
  \<^verbatim>\<open>bson_decimal128_to_string\<close> says (only the bits above \<open>2 ^ 113\<close> are looked at), and with the exponent -40 and a minus sign the
  terminator is written behind the 43 bytes of the buffer.
\<close>

theorem decimal128_overflows_buffer:
  assumes "length str = 43" "d128_bits hi lo div 2 ^ 127 mod 2 = 1" "d128_exponent (d128_bits hi lo) = -40"
    "10 ^ 34 \<le> d128_coefficient (d128_bits hi lo)"
  shows "bson_decimal128_to_string hi lo str = None"
proof -
  define n where "n = d128_bits hi lo"
  define v where "v = d128_coefficient n"
  have v: "10 ^ 34 \<le> v" using assms(4) by (simp add: v_def n_def)
  then have s3: "n div 2 ^ 125 mod 4 \<noteq> 3" unfolding v_def d128_coefficient_def by (auto split: if_splits)
  then have "v = n mod 2 ^ 113" by (simp add: v_def d128_coefficient_def)
  then have v2: "v < 10 ^ 35" using mod_less_divisor [of "2 ^ 113" n] by simp
  have nn: "n div 2 ^ 122 mod 32 \<noteq> 30" "n div 2 ^ 122 mod 32 \<noteq> 31"
  proof -
    have "m mod 32 div 8 = m div 8 mod 4" for m :: nat using mod_mult2_eq [of m 8 4] by simp
    moreover have "n div 2 ^ 122 div 8 = n div 2 ^ 125" by (simp flip: div_mult2_eq)
    ultimately have "n div 2 ^ 122 mod 32 div 8 \<noteq> 3" using s3 by simp
    then show "n div 2 ^ 122 mod 32 \<noteq> 30" "n div 2 ^ 122 mod 32 \<noteq> 31" by auto
  qed
  have sg: "(if n div 2 ^ 127 mod 2 = 1 then [0x2D] else []) = [0x2D :: u8]" using assms(2) by (simp add: n_def)
  have ex: "d128_exponent n = -40" using assms(3) by (simp add: n_def)
  obtain x where x: "length ([0x2D :: u8] @ x) = 43" and fin: "\<exists>parts. list_all (\<lambda>p. p < 2 ^ 32) parts \<and> length parts = 4 \<and>
      (if parts ! 0 < 2 ^ 17 then parts_val 0 parts else 0) = d128_coefficient n \<and>
      bson_decimal128_to_string hi lo str = finite_to_string ([0x2D] @ x, length [0x2D :: u8]) (-40) parts"
    using to_string_fields [OF assms(1), of hi lo] nn unfolding n_def [symmetric] sg ex by metis
  then obtain parts where p: "list_all (\<lambda>p. p < 2 ^ 32) parts" "length parts = 4"
    "(if parts ! 0 < 2 ^ 17 then parts_val 0 parts else 0) = v"
    "bson_decimal128_to_string hi lo str = finite_to_string ([0x2D] @ x, length [0x2D :: u8]) (-40) parts"
    unfolding v_def by blast
  have p0: "parts ! 0 < 2 ^ 17" "parts_val 0 parts = v" using p(3) v by (auto split: if_splits)
  have z: "\<not> list_all (\<lambda>p. p = 0) parts"
  proof
    assume "list_all (\<lambda>p. p = 0) parts"
    then have "parts_val 0 parts = 0" by (induction parts) (simp_all add: parts_val_def)
    then show False using p0(2) v by simp
  qed
  define ds where "ds = dropWhile (\<lambda>d. d = 0) (digit_list 36 v)"
  have "digit_chars ds = decimal v" unfolding ds_def by (rule digits_decimal) (use v v2 in simp_all)
  then have "length ds = length (decimal v)" by (metis digit_chars_simps(3))
  then have l: "length ds = 35" using decimal_length [OF v2] decimal_length_ge [OF v] by simp
  have "significand_loop 4 parts (replicate 36 0) = digit_list 36 v" using significand_loop_ok [OF p(1), of 4 "[]"] p0(2) by simp
  then have "finite_to_string ([0x2D] @ x, length [0x2D :: u8]) (-40) parts = regular_format ([0x2D] @ x, length [0x2D :: u8]) ds 35 (-40)"
    using p0(1) z l by (simp add: finite_to_string_def Let_def ds_def)
  then show ?thesis using p(4) regular_overflow [OF l, of x "0x2D"] x by simp
qed

lemma decimal128_overflows_buffer_witness:
  "bson_decimal128_to_string 0xAFF1ED09BEAD87C0 0x378D8E6400000000 (replicate 43 9) = None"
proof -
  have b: "d128_bits 0xAFF1ED09BEAD87C0 0x378D8E6400000000 = 0xAFF1ED09BEAD87C0378D8E6400000000" by (simp add: d128_bits_def)
  show ?thesis
    by (rule decimal128_overflows_buffer) (simp_all add: b d128_coefficient_def d128_exponent_def)
qed
end
