(* ===== verification/Json.thy ===== *)
theory Json
  imports Bson_String
begin

text \<open>
  JSON as RFC 8259 defines it: values as trees, and the relation between a value and the texts that denote it. A number is
  kept as its text, a string as the bytes of its UTF-8 text after the escapes are resolved, an object as the list of its
  members in order. This is the measure of the printers of \<^verbatim>\<open>src/bson/bson.c\<close>; it models no code.
\<close>

datatype json =
    JNull
  | JBool bool
  | JNum bytes
  | JStr bytes
  | JArr "json list"
  | JObj "(bytes \<times> json) list"

definition json_ws :: "bytes \<Rightarrow> bool" where
  "json_ws s \<longleftrightarrow> set s \<subseteq> {0x20, 0x09, 0x0A, 0x0D}"

definition json_digits :: "bytes \<Rightarrow> bool" where
  "json_digits s \<longleftrightarrow> s \<noteq> [] \<and> list_all (\<lambda>c. 0x30 \<le> c \<and> c \<le> 0x39) s"

text \<open>\<^verbatim>\<open>number = [ minus ] int [ frac ] [ exp ]\<close>\<close>

definition json_int :: "bytes \<Rightarrow> bool" where
  "json_int s \<longleftrightarrow> s = [0x30] \<or> (json_digits s \<and> hd s \<noteq> 0x30)"

definition json_frac :: "bytes \<Rightarrow> bool" where
  "json_frac s \<longleftrightarrow> s = [] \<or> (hd s = 0x2E \<and> json_digits (tl s))"

definition json_exp :: "bytes \<Rightarrow> bool" where
  "json_exp s \<longleftrightarrow> s = [] \<or> (hd s \<in> {0x65, 0x45} \<and> (json_digits (tl s) \<or> (hd (tl s) \<in> {0x2B, 0x2D} \<and> json_digits (tl (tl s)))))"

definition json_number :: "bytes \<Rightarrow> bool" where
  "json_number s \<longleftrightarrow> (\<exists>m i f e. s = m @ i @ f @ e \<and> m \<in> {[], [0x2D]} \<and> json_int i \<and> json_frac f \<and> json_exp e)"

text \<open>The text of a string is UTF-8 without raw quotes and control characters; \<open>json_unescape\<close> resolves the escapes.\<close>

definition json_string :: "bytes \<Rightarrow> bytes \<Rightarrow> bool" where
  "json_string t s \<longleftrightarrow> (\<exists>c. s = [0x22] @ c @ [0x22] \<and> json_unescape c = Some t \<and> utf8_text False c)"

inductive json_text :: "json \<Rightarrow> bytes \<Rightarrow> bool"
  and json_elements :: "json list \<Rightarrow> bytes \<Rightarrow> bool"
  and json_members :: "(bytes \<times> json) list \<Rightarrow> bytes \<Rightarrow> bool" where
  text_null: "json_text JNull (str_of ''null'')"
| text_bool: "json_text (JBool b) (str_of (if b then ''true'' else ''false''))"
| text_num: "json_number s \<Longrightarrow> json_text (JNum s) s"
| text_str: "json_string t s \<Longrightarrow> json_text (JStr t) s"
| text_arr: "json_elements js s \<Longrightarrow> json_text (JArr js) ([0x5B] @ s @ [0x5D])"
| text_obj: "json_members ms s \<Longrightarrow> json_text (JObj ms) ([0x7B] @ s @ [0x7D])"
| elements_none: "json_ws s \<Longrightarrow> json_elements [] s"
| elements_one: "json_ws a \<Longrightarrow> json_text j s \<Longrightarrow> json_ws b \<Longrightarrow> json_elements [j] (a @ s @ b)"
| elements_more: "json_elements js s \<Longrightarrow> js \<noteq> [] \<Longrightarrow> json_elements ks t \<Longrightarrow> ks \<noteq> [] \<Longrightarrow> json_elements (js @ ks) (s @ [0x2C] @ t)"
| members_none: "json_ws s \<Longrightarrow> json_members [] s"
| members_one: "json_ws a \<Longrightarrow> json_string k ks \<Longrightarrow> json_ws b \<Longrightarrow> json_ws c \<Longrightarrow> json_text j s \<Longrightarrow> json_ws d \<Longrightarrow>
    json_members [(k, j)] (a @ ks @ b @ [0x3A] @ c @ s @ d)"
| members_more: "json_members ms s \<Longrightarrow> ms \<noteq> [] \<Longrightarrow> json_members ns t \<Longrightarrow> ns \<noteq> [] \<Longrightarrow> json_members (ms @ ns) (s @ [0x2C] @ t)"

end
