(* ===== verification/Double_Text.thy ===== *)
theory Double_Text
  imports Iso8601 Json
begin

text \<open>
  \<^verbatim>\<open>printf ("%.20g", x)\<close> of the C library for a double given by its bits: twenty significant digits of the exact binary
  value, rounded half to even, in the style of \<^verbatim>\<open>%f\<close> or \<^verbatim>\<open>%e\<close> and without trailing zeros. The printer of JSON in
  \<^verbatim>\<open>src/bson/bson.c\<close> is built on it; what is shown of it is that the text is a JSON number.
\<close>

subsection \<open>The fields of a double\<close>

definition dbl_negative :: "u64 \<Rightarrow> bool" where
  "dbl_negative x \<longleftrightarrow> 2 ^ 63 \<le> unat x"

definition dbl_exponent :: "u64 \<Rightarrow> nat" where
  "dbl_exponent x = unat x div 2 ^ 52 mod 2 ^ 11"

definition dbl_mantissa :: "u64 \<Rightarrow> nat" where
  "dbl_mantissa x = unat x mod 2 ^ 52"

definition dbl_isnan :: "u64 \<Rightarrow> bool" where
  "dbl_isnan x \<longleftrightarrow> dbl_exponent x = 2047 \<and> dbl_mantissa x \<noteq> 0"

definition dbl_isinf :: "u64 \<Rightarrow> bool" where
  "dbl_isinf x \<longleftrightarrow> dbl_exponent x = 2047 \<and> dbl_mantissa x = 0"

definition dbl_finite :: "u64 \<Rightarrow> bool" where
  "dbl_finite x \<longleftrightarrow> dbl_exponent x \<noteq> 2047"

text \<open>The magnitude of a finite double as a fraction; subnormal numbers have the exponent of the smallest normal ones.\<close>

definition dbl_num :: "u64 \<Rightarrow> nat" where
  "dbl_num x = (if dbl_exponent x = 0 then dbl_mantissa x else (2 ^ 52 + dbl_mantissa x) * 2 ^ (dbl_exponent x - 1075))"

definition dbl_den :: "u64 \<Rightarrow> nat" where
  "dbl_den x = 2 ^ (1075 - max 1 (dbl_exponent x))"

subsection \<open>Twenty digits\<close>

text \<open>How often a fraction below one is to be multiplied by ten to reach one.\<close>

function scale_up :: "nat \<Rightarrow> nat \<Rightarrow> nat" where
  "scale_up n d = (if n = 0 \<or> d \<le> n then 0 else Suc (scale_up (10 * n) d))"
  by pat_completeness auto
termination by (relation "measure (\<lambda>(n, d). d - n)") auto

declare scale_up.simps [simp del]

definition decimal_exponent :: "nat \<Rightarrow> nat \<Rightarrow> int" where
  "decimal_exponent n d = (if d \<le> n then int (length (decimal (n div d))) - 1 else - int (scale_up n d))"

definition round_half_even :: "nat \<Rightarrow> nat \<Rightarrow> nat" where
  "round_half_even n d =
     (let q = n div d; r = n mod d in if d < 2 * r \<or> (d = 2 * r \<and> odd q) then q + 1 else q)"

text \<open>The digits as a number \<open>q\<close> and the exponent of the first of them; the number is about \<open>q * 10 ^ (e - 19)\<close>.\<close>

definition digits20 :: "nat \<Rightarrow> nat \<Rightarrow> nat \<times> int" where
  "digits20 n d =
     (let e = decimal_exponent n d;
          q = (if e \<le> 19 then round_half_even (n * 10 ^ nat (19 - e)) d else round_half_even n (d * 10 ^ nat (e - 19)))
      in if q = 10 ^ 20 then (10 ^ 19, e + 1) else (q, e))"

definition strip_zeros :: "bytes \<Rightarrow> bytes" where
  "strip_zeros s = rev (dropWhile (\<lambda>c. c = 0x30) (rev s))"

definition with_fraction :: "bytes \<Rightarrow> bytes \<Rightarrow> bytes" where
  "with_fraction i f = (if f = [] then i else i @ 0x2E # f)"

definition printf_exponent :: "int \<Rightarrow> bytes" where
  "printf_exponent e = 0x65 # (if e < 0 then 0x2D else 0x2B) # (if \<bar>e\<bar> < 10 then [0x30] else []) @ decimal (nat \<bar>e\<bar>)"

definition fraction_text :: "nat \<Rightarrow> nat \<Rightarrow> bytes" where
  "fraction_text n d =
     (if n = 0 then [0x30]
      else let (q, e) = digits20 n d; ds = decimal q in
        if 0 \<le> e \<and> e < 20 then with_fraction (take (nat e + 1) ds) (strip_zeros (drop (nat e + 1) ds))
        else if -4 \<le> e \<and> e < 0 then with_fraction [0x30] (replicate (nat (- e - 1)) 0x30 @ strip_zeros ds)
        else with_fraction (take 1 ds) (strip_zeros (drop 1 ds)) @ printf_exponent e)"

definition printf_20g :: "u64 \<Rightarrow> bytes" where
  "printf_20g x = (if dbl_negative x then [0x2D] else []) @
     (if dbl_isnan x then str_of ''nan'' else if dbl_isinf x then str_of ''inf'' else fraction_text (dbl_num x) (dbl_den x))"


subsection \<open>The digits\<close>

lemma decimal_bounds:
  assumes "0 < n"
  shows "10 ^ (length (decimal n) - 1) \<le> n" "n < 10 ^ length (decimal n)"
proof -
  define k where "k = length (decimal n)"
  have k0: "0 < k" by (simp add: k_def)
  show "n < 10 ^ length (decimal n)"
    using decimal_length_ge [of "length (decimal n)" n] by (meson linorder_not_less order_less_irrefl)
  show "10 ^ (length (decimal n) - 1) \<le> n"
  proof (rule ccontr)
    assume "\<not> 10 ^ (length (decimal n) - 1) \<le> n"
    then have l: "n < 10 ^ (k - 1)" by (simp add: k_def)
    show False
    proof (cases "k = 1")
      case True
      then show False using l assms by simp
    next
      case False
      then have "length (decimal n) \<le> k - 1" using decimal_length [OF l] k0 by simp
      then show False using k0 unfolding k_def by linarith
    qed
  qed
qed

lemma scale_up_bounds: "0 < n \<Longrightarrow> n < d \<Longrightarrow> d \<le> n * 10 ^ scale_up n d \<and> n * 10 ^ scale_up n d < 10 * d"
proof (induction n d rule: scale_up.induct)
  case (1 n d)
  then have s: "scale_up n d = Suc (scale_up (10 * n) d)" by (simp add: scale_up.simps)
  show ?case
  proof (cases "10 * n < d")
    case True
    then show ?thesis using 1 s by (simp add: ac_simps)
  next
    case False
    then have "scale_up (10 * n) d = 0" by (simp add: scale_up.simps)
    then show ?thesis using 1(3) False s by simp
  qed
qed

text \<open>The exponent scales the number to twenty digits before the point.\<close>

lemma scaled_digits:
  assumes "0 < n" "0 < d"
  obtains a b where "0 < b" "10 ^ 19 * b \<le> a" "a < 10 ^ 20 * b"
    "digits20 n d = (let e = decimal_exponent n d; q = round_half_even a b in if q = 10 ^ 20 then (10 ^ 19, e + 1) else (q, e))"
    "a * d * 10 ^ nat (decimal_exponent n d - 19) = n * 10 ^ nat (19 - decimal_exponent n d) * b"
proof -
  define e where "e = decimal_exponent n d"
  have lohi: "d * 10 ^ nat e \<le> n * 10 ^ nat (- e) \<and> n * 10 ^ nat (- e) < 10 * (d * 10 ^ nat e)"
  proof (cases "d \<le> n")
    case True
    define m where "m = n div d"
    have m: "0 < m" using True assms(2) by (simp add: m_def div_greater_zero_iff)
    obtain j where j: "length (decimal m) = Suc j" by (cases "length (decimal m)") auto
    have e: "nat e = j" "nat (- e) = 0" using True j by (auto simp: e_def decimal_exponent_def m_def)
    have mn: "m * d \<le> n" "n < (m + 1) * d"
      using div_times_less_eq_dividend [of n d] dividend_less_div_times [OF assms(2), of n] by (simp_all add: m_def)
    have "10 ^ nat e * d \<le> m * d" using decimal_bounds(1) [OF m] by (simp add: e j)
    then have "d * 10 ^ nat e \<le> n" using mn(1) by (metis order_trans mult.commute)
    moreover have "m + 1 \<le> 10 * 10 ^ nat e" using decimal_bounds(2) [OF m] by (simp add: e j)
    then have "(m + 1) * d \<le> 10 * 10 ^ nat e * d" by (rule mult_right_mono) simp
    then have "n < 10 * 10 ^ nat e * d" using mn(2) by (rule less_le_trans [rotated])
    ultimately show ?thesis by (simp add: e(2) mult.commute mult.left_commute)
  next
    case False
    then show ?thesis using scale_up_bounds [of n d] assms by (simp add: e_def decimal_exponent_def)
  qed
  show ?thesis
  proof (cases "e \<le> 19")
    case True
    have p: "(10 :: nat) ^ nat (19 - e) * 10 ^ nat e = 10 ^ 19 * 10 ^ nat (- e)"
    proof (cases "0 \<le> e")
      case True
      then have "nat (19 - e) + nat e = 19" using \<open>e \<le> 19\<close> by simp
      then show ?thesis using True by (metis nat_zero_as_int power_add power_0 mult_1_right neg_le_0_iff_le nat_0_iff)
    next
      case False
      then have "nat (19 - e) = 19 + nat (- e)" by simp
      then show ?thesis using False by (simp add: power_add)
    qed
    let ?A = "10 ^ nat (- e) :: nat" and ?E = "10 ^ nat e :: nat" and ?S = "10 ^ nat (19 - e) :: nat"
    have A: "0 < ?A" "0 < ?E" "0 < ?S" by simp_all
    have lo: "(10 ^ 19 * d) * ?A \<le> (n * ?S) * ?A"
    proof -
      have "(10 ^ 19 * d) * ?A = (d * ?E) * ?S" using p by (simp add: ac_simps)
      also have "\<dots> \<le> (n * ?A) * ?S" using lohi by simp
      finally show ?thesis by (simp add: ac_simps)
    qed
    have hi: "(n * ?S) * ?A < (10 ^ 20 * d) * ?A"
    proof -
      have "(n * ?S) * ?A = (n * ?A) * ?S" by (simp add: ac_simps)
      also have "\<dots> < (10 * (d * ?E)) * ?S" using lohi A(3) by simp
      also have "\<dots> = 10 * (10 ^ 19 * ?A) * d" using p by (simp add: ac_simps)
      finally show ?thesis by (simp add: ac_simps)
    qed
    show ?thesis
      by (rule that [of d "n * ?S"]) (use assms lo hi True A in \<open>simp_all add: digits20_def Let_def e_def\<close>)
  next
    case False
    let ?D = "10 ^ nat (e - 19) :: nat"
    have "nat e = nat (e - 19) + 19" "nat (- e) = 0" using False by simp_all
    then have "(10 :: nat) ^ nat e = 10 ^ 19 * ?D" "(10 :: nat) ^ nat (- e) = 1" by (simp_all add: power_add)
    then have "10 ^ 19 * (d * ?D) \<le> n" "n < 10 ^ 20 * (d * ?D)" using lohi by (simp_all add: ac_simps)
    then show ?thesis
      by (intro that [of "d * ?D" n]) (use assms False in \<open>simp_all add: digits20_def Let_def e_def ac_simps\<close>)
  qed
qed

lemma digits20_bounds:
  assumes "0 < n" "0 < d"
  shows "10 ^ 19 \<le> fst (digits20 n d)" "fst (digits20 n d) < 10 ^ 20"
proof -
  obtain a b where ab: "0 < b" "10 ^ 19 * b \<le> a" "a < 10 ^ 20 * b"
    "digits20 n d = (let e = decimal_exponent n d; q = round_half_even a b in if q = 10 ^ 20 then (10 ^ 19, e + 1) else (q, e))"
    using scaled_digits [OF assms] by metis
  define q where "q = a div b"
  have "10 ^ 19 \<le> q" using ab(1,2) unfolding q_def by (subst less_eq_div_iff_mult_less_eq) simp_all
  moreover have "q < 10 ^ 20" using ab(1,3) by (simp add: q_def div_less_iff_less_mult)
  moreover have "round_half_even a b = q \<or> round_half_even a b = q + 1" by (simp add: round_half_even_def q_def Let_def)
  ultimately show "10 ^ 19 \<le> fst (digits20 n d)" "fst (digits20 n d) < 10 ^ 20" unfolding ab(4) Let_def by auto
qed

subsection \<open>The text is a number of JSON\<close>

lemma digit_json: "list_all c_isdigit s \<Longrightarrow> s \<noteq> [] \<Longrightarrow> json_digits s"
  by (simp add: json_digits_def c_isdigit_def [abs_def])

lemma decimal_hd: "0 < n \<Longrightarrow> hd (decimal n) \<noteq> 0x30"
proof (induction n rule: decimal.induct)
  case (1 n)
  show ?case
  proof (cases "n < 10")
    case True
    then have "unat (word_of_nat (48 + n) :: u8) = 48 + n" by (simp add: unat_of_nat_u8 del: of_nat_add of_nat_numeral)
    moreover have "unat (0x30 :: u8) = 48" by simp
    ultimately have "(word_of_nat (48 + n) :: u8) \<noteq> 0x30" using 1(2) by (metis add_cancel_right_right less_numeral_extra(3))
    then show ?thesis using True by (subst decimal.simps) simp
  next
    case False
    then show ?thesis using 1 by (subst decimal.simps) simp
  qed
qed

lemma set_strip_zeros: "set (strip_zeros s) \<subseteq> set s"
  using set_dropWhileD [of _ "\<lambda>c. c = 0x30" "rev s"] by (auto simp: strip_zeros_def)

lemma strip_digits: "list_all c_isdigit s \<Longrightarrow> list_all c_isdigit (strip_zeros s)"
  using set_strip_zeros [of s] by (auto simp: list_all_iff)

lemma number_fraction:
  assumes "json_int i" "list_all c_isdigit f" "json_exp e" "m \<in> {[], [0x2D]}"
  shows "json_number (m @ with_fraction i f @ e)"
proof -
  define fr where "fr = (if f = [] then [] else 0x2E # f)"
  have "json_frac fr" using digit_json [OF assms(2)] by (simp add: fr_def json_frac_def)
  moreover have "m @ with_fraction i f @ e = m @ i @ fr @ e" by (simp add: fr_def with_fraction_def)
  ultimately show ?thesis using assms unfolding json_number_def by blast
qed

lemma exponent_number: "json_exp (printf_exponent e)"
proof -
  have "c_isdigit 0x30" by (simp add: c_isdigit_def)
  then have "list_all c_isdigit ((if \<bar>e\<bar> < 10 then [0x30] else []) @ decimal (nat \<bar>e\<bar>))" using decimal_digits by simp
  then have "json_digits ((if \<bar>e\<bar> < 10 then [0x30] else []) @ decimal (nat \<bar>e\<bar>))" by (rule digit_json) simp
  then show ?thesis by (simp add: json_exp_def printf_exponent_def)
qed

lemma fraction_number:
  assumes "0 < d" "m \<in> {[], [0x2D]}"
  shows "json_number (m @ fraction_text n d)"
proof (cases "n = 0")
  case True
  have "json_number (m @ with_fraction [0x30] [] @ [])"
    by (rule number_fraction) (use assms in \<open>simp_all add: json_int_def json_exp_def\<close>)
  then show ?thesis using True by (simp add: fraction_text_def with_fraction_def)
next
  case False
  obtain q e where qe: "digits20 n d = (q, e)" by fastforce
  have q: "10 ^ 19 \<le> q" using digits20_bounds(1) [of n d] False assms(1) qe by simp
  then have q0: "0 < q" by simp
  define ds where "ds = decimal q"
  have ds: "list_all c_isdigit ds" "ds \<noteq> []" "hd ds \<noteq> 0x30" using decimal_digits decimal_hd [OF q0] by (simp_all add: ds_def)
  have tk: "json_int (take k ds)" if "0 < k" for k
    using ds that digit_json [of "take k ds"] by (cases ds; cases k) (auto simp: json_int_def list_all_iff dest: in_set_takeD)
  have dr: "list_all c_isdigit (strip_zeros (drop k ds))" for k
    by (rule strip_digits) (use ds(1) in \<open>auto simp: list_all_iff dest: in_set_dropD\<close>)
  have e0: "json_exp []" "json_int [0x30]" "c_isdigit 0x30" by (simp_all add: json_exp_def json_int_def c_isdigit_def)
  have "list_all c_isdigit (replicate k 0x30 @ strip_zeros ds)" for k using strip_digits [OF ds(1)] e0(3) by (auto simp: list_all_iff)
  note small = number_fraction [OF e0(2) this e0(1) assms(2)]
  consider "0 \<le> e \<and> e < 20" | "-4 \<le> e \<and> e < 0" | "\<not> (0 \<le> e \<and> e < 20)" "\<not> (-4 \<le> e \<and> e < 0)" by blast
  then show ?thesis
  proof cases
    case 1
    then show ?thesis using number_fraction [OF tk dr e0(1) assms(2), of "nat e + 1" "nat e + 1"] False qe
      by (simp add: fraction_text_def ds_def Let_def)
  next
    case 2
    then show ?thesis using small False qe by (simp add: fraction_text_def ds_def Let_def)
  next
    case 3
    then have t: "fraction_text n d = with_fraction (take 1 ds) (strip_zeros (drop 1 ds)) @ printf_exponent e"
      using False qe by (simp only: fraction_text_def ds_def Let_def prod.case if_False)
    show ?thesis unfolding t by (rule number_fraction [OF tk dr exponent_number assms(2)]) simp
  qed
qed

lemma printf_20g_number: "dbl_finite x \<Longrightarrow> json_number (printf_20g x)"
  using fraction_number [of "dbl_den x" "if dbl_negative x then [0x2D] else []" "dbl_num x"]
  by (simp add: printf_20g_def dbl_finite_def dbl_isnan_def dbl_isinf_def dbl_den_def)

lemma number_point_zero:
  assumes "json_number s" "set s \<subseteq> set (str_of ''0123456789-'')"
  shows "json_number (s @ str_of ''.0'')"
proof -
  obtain m i f e where s: "s = m @ i @ f @ e" "m \<in> {[], [0x2D]}" "json_int i" "json_frac f" "json_exp e"
    using assms(1) unfolding json_number_def by blast
  have n: "0x2E \<notin> set s" "0x65 \<notin> set s" "0x45 \<notin> set s" using assms(2) by (auto simp: str_of_def of_char_def)
  have "f = []" using s(1,4) n(1) by (cases f) (auto simp: json_frac_def)
  moreover have "e = []" using s(1,5) n(2,3) by (cases e) (auto simp: json_exp_def)
  moreover have "json_frac (str_of ''.0'')" by (simp add: json_frac_def json_digits_def str_of_def of_char_def)
  ultimately show ?thesis using s unfolding json_number_def by (metis append.assoc append_Nil2)
qed

end
