(* ===== verification/As_Json.thy ===== *)
theory As_Json
  imports Decimal128 B64 Validate_Exact Oid Bson_Append Double_Text
begin

text \<open>
  The printers of \<^verbatim>\<open>src/bson/bson.c\<close>: \<^verbatim>\<open>bson_as_json\<close>, \<^verbatim>\<open>bson_as_canonical_extended_json\<close>,
  \<^verbatim>\<open>bson_as_relaxed_extended_json\<close> and \<^verbatim>\<open>bson_array_as_json\<close>, which visit the document with the callbacks of
  \<^verbatim>\<open>bson_as_json_visitors\<close>. \<^verbatim>\<open>*err_offset\<close>, shared by the states of a document and its children, is a field that a child
  hands back.
\<close>

subsection \<open>The state\<close>

datatype json_mode = BSON_JSON_MODE_LEGACY | BSON_JSON_MODE_CANONICAL | BSON_JSON_MODE_RELAXED

record json_state =
  js_count :: nat
  js_keys :: bool
  js_err_offset :: int
  js_depth :: nat
  js_str :: bson_string
  js_mode :: json_mode

definition BSON_MAX_RECURSION :: nat where "BSON_MAX_RECURSION = 200"

text \<open>\<^verbatim>\<open>bson_string_append (state->str, x)\<close> for a literal, for a C string in memory, and for formatted text.\<close>

definition js_lit :: "(nat \<Rightarrow> u8) \<Rightarrow> string \<Rightarrow> json_state \<Rightarrow> json_state option" where
  "js_lit junk s st = do { b \<leftarrow> bson_string_append junk (js_str st) (str_of s @ [0]); Some (st\<lparr>js_str := b\<rparr>) }"

definition js_append :: "(nat \<Rightarrow> u8) \<Rightarrow> bytes \<Rightarrow> json_state \<Rightarrow> json_state option" where
  "js_append junk mem st = do { b \<leftarrow> bson_string_append junk (js_str st) mem; Some (st\<lparr>js_str := b\<rparr>) }"

definition js_printf :: "(nat \<Rightarrow> u8) \<Rightarrow> bytes \<Rightarrow> json_state \<Rightarrow> json_state option" where
  "js_printf junk s st = do { b \<leftarrow> bson_string_append_printf junk (js_str st) s; Some (st\<lparr>js_str := b\<rparr>) }"

text \<open>\<^verbatim>\<open>%02x\<close> of a byte.\<close>

definition printf_02x :: "u8 \<Rightarrow> bytes" where
  "printf_02x b = [hex_lower (unat b div 16), hex_lower (unat b mod 16)]"

definition extended :: "json_state \<Rightarrow> bool" where
  "extended st \<longleftrightarrow> js_mode st = BSON_JSON_MODE_CANONICAL \<or> js_mode st = BSON_JSON_MODE_RELAXED"

subsection \<open>The callbacks\<close>

definition as_json_visit_utf8 :: "(nat \<Rightarrow> u8) \<Rightarrow> bson_iter \<Rightarrow> bytes \<Rightarrow> bytes \<times> nat \<Rightarrow> json_state \<Rightarrow> (bool \<times> json_state) option" where
  "as_json_visit_utf8 junk it key v st = do {
     escaped \<leftarrow> bson_utf8_escape_for_json junk (fst v) (int (snd v));
     (case escaped of
        Some e \<Rightarrow> do {
          st \<leftarrow> js_lit junk ''\"'' st;
          st \<leftarrow> js_append junk e st;
          st \<leftarrow> js_lit junk ''\"'' st;
          Some (False, st) }
      | None \<Rightarrow> Some (True, st)) }"

definition as_json_visit_int32 :: "(nat \<Rightarrow> u8) \<Rightarrow> bson_iter \<Rightarrow> bytes \<Rightarrow> u32 \<Rightarrow> json_state \<Rightarrow> (bool \<times> json_state) option" where
  "as_json_visit_int32 junk it key v st = do {
     st \<leftarrow> (if js_mode st = BSON_JSON_MODE_CANONICAL
            then js_printf junk (str_of ''{ \"$numberInt\" : \"'' @ signed_decimal (sint v) @ str_of ''\" }'') st
            else js_printf junk (signed_decimal (sint v)) st);
     Some (False, st) }"

definition as_json_visit_int64 :: "(nat \<Rightarrow> u8) \<Rightarrow> bson_iter \<Rightarrow> bytes \<Rightarrow> u64 \<Rightarrow> json_state \<Rightarrow> (bool \<times> json_state) option" where
  "as_json_visit_int64 junk it key v st = do {
     st \<leftarrow> (if js_mode st = BSON_JSON_MODE_CANONICAL
            then js_printf junk (str_of ''{ \"$numberLong\" : \"'' @ signed_decimal (sint v) @ str_of ''\"}'') st
            else js_printf junk (signed_decimal (sint v)) st);
     Some (False, st) }"

definition as_json_visit_decimal128 ::
  "(nat \<Rightarrow> u8) \<Rightarrow> bson_iter \<Rightarrow> bytes \<Rightarrow> u64 \<times> u64 \<Rightarrow> json_state \<Rightarrow> (bool \<times> json_state) option" where
  "as_json_visit_decimal128 junk it key v st = do {
     decimal128_string \<leftarrow> bson_decimal128_to_string (fst v) (snd v) (bson_malloc junk 43);
     st \<leftarrow> js_lit junk ''{ \"$numberDecimal\" : \"'' st;
     st \<leftarrow> js_append junk decimal128_string st;
     st \<leftarrow> js_lit junk ''\" }'' st;
     Some (False, st) }"

text \<open>\<^verbatim>\<open>v != v\<close> holds for NaN, and \<^verbatim>\<open>v * 0 != 0\<close> for NaN and the infinities.\<close>

definition dbl_wild :: "u64 \<Rightarrow> bool" where
  "dbl_wild v \<longleftrightarrow> dbl_isnan v \<or> dbl_isinf v"

text \<open>\<^verbatim>\<open>strspn (s, "0123456789-")\<close>: the number of leading characters from the set.\<close>

definition strspn_number :: "bytes \<Rightarrow> nat" where
  "strspn_number s = length (takeWhile (\<lambda>c. c \<in> set (str_of ''0123456789-'')) s)"

definition double_digits :: "(nat \<Rightarrow> u8) \<Rightarrow> u64 \<Rightarrow> json_state \<Rightarrow> json_state option" where
  "double_digits junk v st = do {
     let start_len = s_len (js_str st);
     st \<leftarrow> js_printf junk (printf_20g v) st;
     s \<leftarrow> c_string (s_str (js_str st)) start_len;
     (if strspn_number s = sub32 (s_len (js_str st)) start_len then js_lit junk ''.0'' st else Some st) }"

definition as_json_visit_double :: "(nat \<Rightarrow> u8) \<Rightarrow> bson_iter \<Rightarrow> bytes \<Rightarrow> u64 \<Rightarrow> json_state \<Rightarrow> (bool \<times> json_state) option" where
  "as_json_visit_double junk it key v st = do {
     let legacy = (js_mode st = BSON_JSON_MODE_LEGACY \<or> (js_mode st = BSON_JSON_MODE_RELAXED \<and> \<not> dbl_wild v));
     st \<leftarrow> (if \<not> legacy then js_lit junk ''{ \"$numberDouble\" : \"'' st else Some st);
     st \<leftarrow> (if \<not> legacy \<and> dbl_isnan v then js_lit junk ''NaN'' st
            else if \<not> legacy \<and> dbl_wild v then js_lit junk (if \<not> dbl_negative v then ''Infinity'' else ''-Infinity'') st
            else double_digits junk v st);
     st \<leftarrow> (if \<not> legacy then js_lit junk ''\" }'' st else Some st);
     Some (False, st) }"

definition as_json_visit_undefined :: "(nat \<Rightarrow> u8) \<Rightarrow> bson_iter \<Rightarrow> bytes \<Rightarrow> unit \<Rightarrow> json_state \<Rightarrow> (bool \<times> json_state) option" where
  "as_json_visit_undefined junk it key u st = do { st \<leftarrow> js_lit junk ''{ \"$undefined\" : true }'' st; Some (False, st) }"

definition as_json_visit_null :: "(nat \<Rightarrow> u8) \<Rightarrow> bson_iter \<Rightarrow> bytes \<Rightarrow> unit \<Rightarrow> json_state \<Rightarrow> (bool \<times> json_state) option" where
  "as_json_visit_null junk it key u st = do { st \<leftarrow> js_lit junk ''null'' st; Some (False, st) }"

definition as_json_visit_oid :: "(nat \<Rightarrow> u8) \<Rightarrow> bson_iter \<Rightarrow> bytes \<Rightarrow> bytes \<Rightarrow> json_state \<Rightarrow> (bool \<times> json_state) option" where
  "as_json_visit_oid junk it key oid st = do {
     o12 \<leftarrow> mem_read oid 0 12;
     st \<leftarrow> js_lit junk ''{ \"$oid\" : \"'' st;
     st \<leftarrow> js_append junk (bson_oid_to_string o12) st;
     st \<leftarrow> js_lit junk ''\" }'' st;
     Some (False, st) }"

definition as_json_visit_binary ::
  "(nat \<Rightarrow> u8) \<Rightarrow> bson_iter \<Rightarrow> bytes \<Rightarrow> u8 \<times> bytes \<times> nat \<Rightarrow> json_state \<Rightarrow> (bool \<times> json_state) option" where
  "as_json_visit_binary junk it key v st = do {
     let b64_len = (snd (snd v) div 3 + 1) * 4 + 1;
     (b64, _) \<leftarrow> b64_ntop (fst (snd v)) (snd (snd v)) (bson_malloc0 b64_len) 0 b64_len;
     st \<leftarrow> (if extended st then do {
        st \<leftarrow> js_lit junk ''{ \"$binary\" : { \"base64\": \"'' st;
        st \<leftarrow> js_append junk b64 st;
        st \<leftarrow> js_lit junk ''\", \"subType\" : \"'' st;
        st \<leftarrow> js_printf junk (printf_02x (fst v)) st;
        js_lit junk ''\" } }'' st }
      else do {
        st \<leftarrow> js_lit junk ''{ \"$binary\" : \"'' st;
        st \<leftarrow> js_append junk b64 st;
        st \<leftarrow> js_lit junk ''\", \"$type\" : \"'' st;
        st \<leftarrow> js_printf junk (printf_02x (fst v)) st;
        js_lit junk ''\" }'' st });
     Some (False, st) }"

definition as_json_visit_bool :: "(nat \<Rightarrow> u8) \<Rightarrow> bson_iter \<Rightarrow> bytes \<Rightarrow> bool \<Rightarrow> json_state \<Rightarrow> (bool \<times> json_state) option" where
  "as_json_visit_bool junk it key v st = do { st \<leftarrow> js_lit junk (if v then ''true'' else ''false'') st; Some (False, st) }"

definition as_json_visit_date_time :: "(nat \<Rightarrow> u8) \<Rightarrow> bson_iter \<Rightarrow> bytes \<Rightarrow> u64 \<Rightarrow> json_state \<Rightarrow> (bool \<times> json_state) option" where
  "as_json_visit_date_time junk it key v st = do {
     let msec_since_epoch = sint v;
     st \<leftarrow> (if js_mode st = BSON_JSON_MODE_CANONICAL \<or> (js_mode st = BSON_JSON_MODE_RELAXED \<and> msec_since_epoch < 0) then do {
        st \<leftarrow> js_lit junk ''{ \"$date\" : { \"$numberLong\" : \"'' st;
        st \<leftarrow> js_printf junk (signed_decimal msec_since_epoch) st;
        js_lit junk ''\" } }'' st }
      else if js_mode st = BSON_JSON_MODE_RELAXED then do {
        st \<leftarrow> js_lit junk ''{ \"$date\" : \"'' st;
        b \<leftarrow> bson_iso8601_date_format junk msec_since_epoch (js_str st);
        js_lit junk ''\" }'' (st\<lparr>js_str := b\<rparr>) }
      else do {
        st \<leftarrow> js_lit junk ''{ \"$date\" : '' st;
        st \<leftarrow> js_printf junk (signed_decimal msec_since_epoch) st;
        js_lit junk '' }'' st });
     Some (False, st) }"

definition as_json_visit_regex ::
  "(nat \<Rightarrow> u8) \<Rightarrow> bson_iter \<Rightarrow> bytes \<Rightarrow> bytes \<times> bytes \<Rightarrow> json_state \<Rightarrow> (bool \<times> json_state) option" where
  "as_json_visit_regex junk it key v st = do {
     escaped \<leftarrow> bson_utf8_escape_for_json junk (fst v) (- 1);
     (case escaped of
        None \<Rightarrow> Some (True, st)
      | Some e \<Rightarrow> do {
          let ext = extended st;
          st \<leftarrow> js_lit junk (if ext then ''{ \"$regularExpression\" : { \"pattern\" : \"'' else ''{ \"$regex\" : \"'') st;
          st \<leftarrow> js_append junk e st;
          st \<leftarrow> js_lit junk (if ext then ''\", \"options\" : \"'' else ''\", \"$options\" : \"'') st;
          options \<leftarrow> c_string (snd v) 0;
          b \<leftarrow> append_regex_options_sorted junk (js_str st) options BSON_REGEX_OPTIONS_SORTED;
          st \<leftarrow> js_lit junk (if ext then ''\" } }'' else ''\" }'') (st\<lparr>js_str := b\<rparr>);
          Some (False, st) }) }"

definition as_json_visit_timestamp :: "(nat \<Rightarrow> u8) \<Rightarrow> bson_iter \<Rightarrow> bytes \<Rightarrow> u32 \<times> u32 \<Rightarrow> json_state \<Rightarrow> (bool \<times> json_state) option" where
  "as_json_visit_timestamp junk it key v st = do {
     st \<leftarrow> js_lit junk ''{ \"$timestamp\" : { \"t\" : '' st;
     st \<leftarrow> js_printf junk (decimal (unat (fst v))) st;
     st \<leftarrow> js_lit junk '', \"i\" : '' st;
     st \<leftarrow> js_printf junk (decimal (unat (snd v))) st;
     st \<leftarrow> js_lit junk '' } }'' st;
     Some (False, st) }"

text \<open>The object id is never \<^verbatim>\<open>NULL\<close>: the visit passes a pointer into the document.\<close>

definition as_json_visit_dbpointer ::
  "(nat \<Rightarrow> u8) \<Rightarrow> bson_iter \<Rightarrow> bytes \<Rightarrow> bytes \<times> nat \<times> bytes \<Rightarrow> json_state \<Rightarrow> (bool \<times> json_state) option" where
  "as_json_visit_dbpointer junk it key v st = do {
     escaped \<leftarrow> bson_utf8_escape_for_json junk (fst v) (- 1);
     (case escaped of
        None \<Rightarrow> Some (True, st)
      | Some e \<Rightarrow> do {
          o12 \<leftarrow> mem_read (snd (snd v)) 0 12;
          st \<leftarrow> (if extended st then do {
             st \<leftarrow> js_lit junk ''{ \"$dbPointer\" : { \"$ref\" : \"'' st;
             st \<leftarrow> js_append junk e st;
             st \<leftarrow> js_lit junk ''\"'' st;
             st \<leftarrow> js_lit junk '', \"$id\" : { \"$oid\" : \"'' st;
             st \<leftarrow> js_append junk (bson_oid_to_string o12) st;
             st \<leftarrow> js_lit junk ''\" }'' st;
             js_lit junk '' } }'' st }
           else do {
             st \<leftarrow> js_lit junk ''{ \"$ref\" : \"'' st;
             st \<leftarrow> js_append junk e st;
             st \<leftarrow> js_lit junk ''\"'' st;
             st \<leftarrow> js_lit junk '', \"$id\" : \"'' st;
             st \<leftarrow> js_append junk (bson_oid_to_string o12) st;
             st \<leftarrow> js_lit junk ''\"'' st;
             js_lit junk '' }'' st });
          Some (False, st) }) }"

definition as_json_visit_minkey :: "(nat \<Rightarrow> u8) \<Rightarrow> bson_iter \<Rightarrow> bytes \<Rightarrow> unit \<Rightarrow> json_state \<Rightarrow> (bool \<times> json_state) option" where
  "as_json_visit_minkey junk it key u st = do { st \<leftarrow> js_lit junk ''{ \"$minKey\" : 1 }'' st; Some (False, st) }"

definition as_json_visit_maxkey :: "(nat \<Rightarrow> u8) \<Rightarrow> bson_iter \<Rightarrow> bytes \<Rightarrow> unit \<Rightarrow> json_state \<Rightarrow> (bool \<times> json_state) option" where
  "as_json_visit_maxkey junk it key u st = do { st \<leftarrow> js_lit junk ''{ \"$maxKey\" : 1 }'' st; Some (False, st) }"

definition as_json_visit_before :: "(nat \<Rightarrow> u8) \<Rightarrow> bson_iter \<Rightarrow> bytes \<Rightarrow> unit \<Rightarrow> json_state \<Rightarrow> (bool \<times> json_state) option" where
  "as_json_visit_before junk it key u st = do {
     st \<leftarrow> (if js_count st \<noteq> 0 then js_lit junk '', '' st else Some st);
     (if js_keys st then do {
        escaped \<leftarrow> bson_utf8_escape_for_json junk key (- 1);
        (case escaped of
           None \<Rightarrow> Some (True, st)
         | Some e \<Rightarrow> do {
             st \<leftarrow> js_lit junk ''\"'' st;
             st \<leftarrow> js_append junk e st;
             st \<leftarrow> js_lit junk ''\" : '' st;
             Some (False, st\<lparr>js_count := add32 (js_count st) 1\<rparr>) }) }
      else Some (False, st\<lparr>js_count := add32 (js_count st) 1\<rparr>)) }"

definition as_json_visit_corrupt :: "bson_iter \<Rightarrow> json_state \<Rightarrow> json_state option" where
  "as_json_visit_corrupt it st = Some (st\<lparr>js_err_offset := int (i_off it)\<rparr>)"

definition as_json_visit_code :: "(nat \<Rightarrow> u8) \<Rightarrow> bson_iter \<Rightarrow> bytes \<Rightarrow> bytes \<times> nat \<Rightarrow> json_state \<Rightarrow> (bool \<times> json_state) option" where
  "as_json_visit_code junk it key v st = do {
     escaped \<leftarrow> bson_utf8_escape_for_json junk (fst v) (int (snd v));
     (case escaped of
        None \<Rightarrow> Some (True, st)
      | Some e \<Rightarrow> do {
          st \<leftarrow> js_lit junk ''{ \"$code\" : \"'' st;
          st \<leftarrow> js_append junk e st;
          st \<leftarrow> js_lit junk ''\" }'' st;
          Some (False, st) }) }"

definition as_json_visit_symbol :: "(nat \<Rightarrow> u8) \<Rightarrow> bson_iter \<Rightarrow> bytes \<Rightarrow> bytes \<times> nat \<Rightarrow> json_state \<Rightarrow> (bool \<times> json_state) option" where
  "as_json_visit_symbol junk it key v st = do {
     escaped \<leftarrow> bson_utf8_escape_for_json junk (fst v) (int (snd v));
     (case escaped of
        None \<Rightarrow> Some (True, st)
      | Some e \<Rightarrow> do {
          let ext = extended st;
          st \<leftarrow> js_lit junk (if ext then ''{ \"$symbol\" : \"'' else ''\"'') st;
          st \<leftarrow> js_append junk e st;
          st \<leftarrow> js_lit junk (if ext then ''\" }'' else ''\"'') st;
          Some (False, st) }) }"

subsection \<open>Nested documents and the visit of a whole document\<close>

text \<open>
  \<^verbatim>\<open>_bson_as_json_visit_document\<close> and \<^verbatim>\<open>_bson_as_json_visit_array\<close>, with the visitor of the children as an argument. They
  differ in the brackets and in \<^verbatim>\<open>keys\<close>.
\<close>

definition as_json_visit_nested ::
  "(nat \<Rightarrow> u8) \<Rightarrow> json_state bson_visitor \<Rightarrow> bool \<Rightarrow> string \<Rightarrow> string \<Rightarrow> doc_view \<Rightarrow> json_state \<Rightarrow> (bool \<times> json_state) option" where
  "as_json_visit_nested junk V keys opening closing doc st =
     (if js_depth st \<ge> BSON_MAX_RECURSION then do { st \<leftarrow> js_lit junk ''{ ... }'' st; Some (False, st) }
      else if snd doc < 5 then Some (False, st)
      else do {
        str \<leftarrow> bson_string_new junk (Some (str_of opening @ [0]));
        (stop, _, child_state) \<leftarrow> bson_iter_visit_all V (start_iter (fst doc) (snd doc))
          \<lparr>js_count = 0, js_keys = keys, js_err_offset = js_err_offset st, js_depth = js_depth st + 1, js_str = str, js_mode = js_mode st\<rparr>;
        let st = st\<lparr>js_err_offset := js_err_offset child_state\<rparr>;
        (if stop then Some (True, st)
         else do {
           child_state \<leftarrow> js_lit junk closing child_state;
           st \<leftarrow> js_append junk (s_str (js_str child_state)) st;
           Some (False, st) }) })"

definition as_json_visit_document ::
  "(nat \<Rightarrow> u8) \<Rightarrow> json_state bson_visitor \<Rightarrow> bson_iter \<Rightarrow> bytes \<Rightarrow> doc_view \<Rightarrow> json_state \<Rightarrow> (bool \<times> json_state) option" where
  "as_json_visit_document junk V it key doc st = as_json_visit_nested junk V True ''{ '' '' }'' doc st"

definition as_json_visit_array ::
  "(nat \<Rightarrow> u8) \<Rightarrow> json_state bson_visitor \<Rightarrow> bson_iter \<Rightarrow> bytes \<Rightarrow> doc_view \<Rightarrow> json_state \<Rightarrow> (bool \<times> json_state) option" where
  "as_json_visit_array junk V it key doc st = as_json_visit_nested junk V False ''[ '' '' ]'' doc st"

text \<open>\<^verbatim>\<open>bson_empty\<close> of a view, and \<^verbatim>\<open>_bson_as_json_visit_all\<close>: the text with its length, or \<^verbatim>\<open>NULL\<close> (\<open>Some None\<close>).\<close>

definition view_empty :: "doc_view \<Rightarrow> bool option" where
  "view_empty doc = (if snd doc = 5 then Some True else do { t \<leftarrow> rd8 (fst doc) 4; Some (t = 0) })"

definition as_json_visit_all ::
  "(nat \<Rightarrow> u8) \<Rightarrow> json_state bson_visitor \<Rightarrow> doc_view \<Rightarrow> json_mode \<Rightarrow> (bytes \<times> nat) option option" where
  "as_json_visit_all junk V doc mode = do {
     empty \<leftarrow> view_empty doc;
     (if empty then do { s \<leftarrow> bson_strdup (str_of ''{ }'' @ [0]); Some (Some (s, 3)) }
      else if snd doc < 5 then Some None
      else do {
        str \<leftarrow> bson_string_new junk (Some (str_of ''{ '' @ [0]));
        (stop, _, state) \<leftarrow> bson_iter_visit_all V (start_iter (fst doc) (snd doc))
          \<lparr>js_count = 0, js_keys = True, js_err_offset = -1, js_depth = 0, js_str = str, js_mode = mode\<rparr>;
        (if stop \<or> js_err_offset state \<noteq> -1 then Some None
         else do {
           state \<leftarrow> js_lit junk '' }'' state;
           let len = s_len (js_str state);
           Some (map_option (\<lambda>s. (s, len)) (bson_string_free (js_str state) False)) }) }) }"

definition as_json_visit_codewscope ::
  "(nat \<Rightarrow> u8) \<Rightarrow> json_state bson_visitor \<Rightarrow> bson_iter \<Rightarrow> bytes \<Rightarrow> bytes \<times> nat \<times> doc_view \<Rightarrow> json_state \<Rightarrow> (bool \<times> json_state) option" where
  "as_json_visit_codewscope junk V it key v st = do {
     code_escaped \<leftarrow> bson_utf8_escape_for_json junk (fst v) (int (fst (snd v)));
     (case code_escaped of
        None \<Rightarrow> Some (True, st)
      | Some e \<Rightarrow> do {
          scope \<leftarrow> as_json_visit_all junk V (snd (snd v)) (js_mode st);
          (case scope of
             None \<Rightarrow> Some (True, st)
           | Some s \<Rightarrow> do {
               st \<leftarrow> js_lit junk ''{ \"$code\" : \"'' st;
               st \<leftarrow> js_append junk e st;
               st \<leftarrow> js_lit junk ''\", \"$scope\" : '' st;
               st \<leftarrow> js_append junk (fst s) st;
               st \<leftarrow> js_lit junk '' }'' st;
               Some (False, st) }) }) }"

definition as_json_visitor ::
  "(nat \<Rightarrow> u8) \<Rightarrow> (doc_view, json_state) visit \<Rightarrow> (doc_view, json_state) visit \<Rightarrow> (bytes \<times> nat \<times> doc_view, json_state) visit \<Rightarrow>
   json_state bson_visitor" where
  "as_json_visitor junk document arr codewscope =
     \<lparr>visit_before = Some (as_json_visit_before junk), visit_after = None, visit_corrupt = Some as_json_visit_corrupt,
      visit_double = Some (as_json_visit_double junk), visit_utf8 = Some (as_json_visit_utf8 junk), visit_document = document,
      visit_array = arr, visit_binary = Some (as_json_visit_binary junk), visit_undefined = Some (as_json_visit_undefined junk),
      visit_oid = Some (as_json_visit_oid junk), visit_bool = Some (as_json_visit_bool junk),
      visit_date_time = Some (as_json_visit_date_time junk), visit_null = Some (as_json_visit_null junk),
      visit_regex = Some (as_json_visit_regex junk), visit_dbpointer = Some (as_json_visit_dbpointer junk),
      visit_code = Some (as_json_visit_code junk), visit_symbol = Some (as_json_visit_symbol junk), visit_codewscope = codewscope,
      visit_int32 = Some (as_json_visit_int32 junk), visit_timestamp = Some (as_json_visit_timestamp junk),
      visit_int64 = Some (as_json_visit_int64 junk), visit_maxkey = Some (as_json_visit_maxkey junk),
      visit_minkey = Some (as_json_visit_minkey junk), visit_unsupported_type = None,
      visit_decimal128 = Some (as_json_visit_decimal128 junk)\<rparr>"

text \<open>\<^verbatim>\<open>bson_as_json_visitors\<close> refers to itself in the callbacks for nested documents: the number bounds the nesting.\<close>

primrec bson_as_json_visitors :: "(nat \<Rightarrow> u8) \<Rightarrow> nat \<Rightarrow> json_state bson_visitor" where
  "bson_as_json_visitors junk 0 = as_json_visitor junk (Some (\<lambda>_ _ _ _. None)) (Some (\<lambda>_ _ _ _. None)) (Some (\<lambda>_ _ _ _. None))"
| "bson_as_json_visitors junk (Suc n) = as_json_visitor junk
     (Some (as_json_visit_document junk (bson_as_json_visitors junk n)))
     (Some (as_json_visit_array junk (bson_as_json_visitors junk n)))
     (Some (as_json_visit_codewscope junk (bson_as_json_visitors junk n)))"

text \<open>Nested documents are shorter than the document that holds them, so its length bounds the nesting.\<close>

definition as_json_view :: "(nat \<Rightarrow> u8) \<Rightarrow> doc_view \<Rightarrow> json_mode \<Rightarrow> (bytes \<times> nat) option option" where
  "as_json_view junk doc mode = as_json_visit_all junk (bson_as_json_visitors junk (snd doc)) doc mode"

definition doc_view_of :: "heap \<Rightarrow> addr \<Rightarrow> doc_view option" where
  "doc_view_of H a = do { d \<leftarrow> h_docs H a; mem \<leftarrow> doc_mem H d; Some (drop (doc_off d) mem, b_len d) }"

definition bson_as_canonical_extended_json :: "heap \<Rightarrow> addr \<Rightarrow> (bytes \<times> nat) option option" where
  "bson_as_canonical_extended_json H a = do { doc \<leftarrow> doc_view_of H a; as_json_view (h_junk H) doc BSON_JSON_MODE_CANONICAL }"

definition bson_as_json :: "heap \<Rightarrow> addr \<Rightarrow> (bytes \<times> nat) option option" where
  "bson_as_json H a = do { doc \<leftarrow> doc_view_of H a; as_json_view (h_junk H) doc BSON_JSON_MODE_LEGACY }"

definition bson_as_relaxed_extended_json :: "heap \<Rightarrow> addr \<Rightarrow> (bytes \<times> nat) option option" where
  "bson_as_relaxed_extended_json H a = do { doc \<leftarrow> doc_view_of H a; as_json_view (h_junk H) doc BSON_JSON_MODE_RELAXED }"

text \<open>\<^verbatim>\<open>bson_array_as_json\<close> visits twice: the second visit goes on with the iterator and the state that the first one left.\<close>

definition array_as_json_view :: "(nat \<Rightarrow> u8) \<Rightarrow> doc_view \<Rightarrow> (bytes \<times> nat) option option" where
  "array_as_json_view junk doc = do {
     empty \<leftarrow> view_empty doc;
     (if empty then do { s \<leftarrow> bson_strdup (str_of ''[ ]'' @ [0]); Some (Some (s, 3)) }
      else if snd doc < 5 then Some None
      else do {
        let V = bson_as_json_visitors junk (snd doc);
        str \<leftarrow> bson_string_new junk (Some (str_of ''[ '' @ [0]));
        (_, it, state) \<leftarrow> bson_iter_visit_all V (start_iter (fst doc) (snd doc))
          \<lparr>js_count = 0, js_keys = False, js_err_offset = -1, js_depth = 0, js_str = str, js_mode = BSON_JSON_MODE_LEGACY\<rparr>;
        (stop, _, state) \<leftarrow> bson_iter_visit_all V it state;
        (if stop \<or> js_err_offset state \<noteq> -1 then Some None
         else do {
           state \<leftarrow> js_lit junk '' ]'' state;
           let len = s_len (js_str state);
           Some (map_option (\<lambda>s. (s, len)) (bson_string_free (js_str state) False)) }) }) }"

definition bson_array_as_json :: "heap \<Rightarrow> addr \<Rightarrow> (bytes \<times> nat) option option" where
  "bson_array_as_json H a = do { doc \<leftarrow> doc_view_of H a; array_as_json_view (h_junk H) doc }"

end
