(* ===== verification/Json_Print.thy ===== *)
theory Json_Print
  imports As_Json
begin

text \<open>
  What the printers print: a text for every document, written without the code, and the proof that each callback appends
  the text of its value. The texts hold for documents whose strings are Unicode text, whose decimals have at most 34
  digits and whose dates, in relaxed mode, lie before the year 10000.
\<close>

subsection \<open>The text of a value\<close>

definition plain_text :: "bytes \<Rightarrow> bool" where
  "plain_text s \<longleftrightarrow> (\<exists>cs. list_all scalar_value cs \<and> s = concat (map utf8_enc cs))"

definition json_escape :: "bytes \<Rightarrow> bytes" where
  "json_escape s = concat (map (\<lambda>b. if b < 0x80 then json_esc (unat b) else [b]) s)"

definition in_quotes :: "bytes \<Rightarrow> bytes" where
  "in_quotes s = [0x22] @ s @ [0x22]"

text \<open>An object with one member, in the spacing of the code.\<close>

definition wrap :: "string \<Rightarrow> bytes \<Rightarrow> string \<Rightarrow> bytes" where
  "wrap a x b = str_of a @ x @ str_of b"

definition json_double :: "json_mode \<Rightarrow> u64 \<Rightarrow> bytes" where
  "json_double m x =
     (let d = printf_20g x; number = (if set d \<subseteq> set (str_of ''0123456789-'') then d @ str_of ''.0'' else d) in
      if m = BSON_JSON_MODE_LEGACY \<or> (m = BSON_JSON_MODE_RELAXED \<and> dbl_finite x) then number
      else wrap ''{ \"$numberDouble\" : \"''
        (if dbl_isnan x then str_of ''NaN'' else if dbl_isinf x then (if dbl_negative x then str_of ''-Infinity'' else str_of ''Infinity'')
         else number) ''\" }'')"

definition hex_text :: "bytes \<Rightarrow> bytes" where
  "hex_text i = concat (map printf_02x i)"

definition iso_text :: "int \<Rightarrow> bytes" where
  "iso_text ms = strftime_iso (the (gmtsub (ms div 1000))) @
     (if ms mod 1000 = 0 then [] else 0x2E # printf_width 3 (ms mod 1000)) @ [0x5A]"

definition json_date :: "json_mode \<Rightarrow> int \<Rightarrow> bytes" where
  "json_date m ms =
     (if m = BSON_JSON_MODE_LEGACY then wrap ''{ \"$date\" : '' (signed_decimal ms) '' }''
      else if m = BSON_JSON_MODE_RELAXED \<and> 0 \<le> ms then wrap ''{ \"$date\" : \"'' (iso_text ms) ''\" }''
      else wrap ''{ \"$date\" : { \"$numberLong\" : \"'' (signed_decimal ms) ''\" } }'')"

definition json_binary :: "json_mode \<Rightarrow> u8 \<Rightarrow> bytes \<Rightarrow> bytes" where
  "json_binary m st b =
     (if m = BSON_JSON_MODE_LEGACY then wrap ''{ \"$binary\" : \"'' (b64_text b @ wrap ''\", \"$type\" : \"'' (printf_02x st) ''\" }'') ''''
      else wrap ''{ \"$binary\" : { \"base64\": \"'' (b64_text b @ wrap ''\", \"subType\" : \"'' (printf_02x st) ''\" } }'') '''')"

definition json_regex :: "json_mode \<Rightarrow> bytes \<Rightarrow> bytes \<Rightarrow> bytes" where
  "json_regex m r opt =
     (if m = BSON_JSON_MODE_LEGACY then wrap ''{ \"$regex\" : \"'' (json_escape r @ wrap ''\", \"$options\" : \"'' (sort_opts opt) ''\" }'') ''''
      else wrap ''{ \"$regularExpression\" : { \"pattern\" : \"'' (json_escape r @ wrap ''\", \"options\" : \"'' (sort_opts opt) ''\" } }'') '''')"

definition json_dbpointer :: "json_mode \<Rightarrow> bytes \<Rightarrow> bytes \<Rightarrow> bytes" where
  "json_dbpointer m c i =
     (if m = BSON_JSON_MODE_LEGACY then wrap ''{ \"$ref\" : \"'' (json_escape c @ wrap ''\", \"$id\" : \"'' (hex_text i) ''\" }'') ''''
      else wrap ''{ \"$dbPointer\" : { \"$ref\" : \"'' (json_escape c @ wrap ''\", \"$id\" : { \"$oid\" : \"'' (hex_text i) ''\" } } }'') '''')"

fun json_val :: "json_mode \<Rightarrow> nat \<Rightarrow> bval \<Rightarrow> bytes" and json_items :: "json_mode \<Rightarrow> nat \<Rightarrow> bool \<Rightarrow> bool \<Rightarrow> elems \<Rightarrow> bytes" where
  "json_val m n (VDouble x) = json_double m x"
| "json_val m n (VUtf8 s) = in_quotes (json_escape s)"
| "json_val m n (VDocument es) =
     (if n \<ge> BSON_MAX_RECURSION then str_of ''{ ... }'' else wrap ''{ '' (json_items m (n + 1) True True es) '' }'')"
| "json_val m n (VArray es) =
     (if n \<ge> BSON_MAX_RECURSION then str_of ''{ ... }'' else wrap ''[ '' (json_items m (n + 1) False True es) '' ]'')"
| "json_val m n (VBinary st b) = json_binary m st b"
| "json_val m n VUndefined = str_of ''{ \"$undefined\" : true }''"
| "json_val m n (VOid i) = wrap ''{ \"$oid\" : \"'' (hex_text i) ''\" }''"
| "json_val m n (VBool b) = str_of (if b then ''true'' else ''false'')"
| "json_val m n (VDateTime x) = json_date m (sint x)"
| "json_val m n VNull = str_of ''null''"
| "json_val m n (VRegex r opt) = json_regex m r opt"
| "json_val m n (VDBPointer c i) = json_dbpointer m c i"
| "json_val m n (VCode c) = wrap ''{ \"$code\" : \"'' (json_escape c) ''\" }''"
| "json_val m n (VSymbol s) =
     (if m = BSON_JSON_MODE_LEGACY then in_quotes (json_escape s) else wrap ''{ \"$symbol\" : \"'' (json_escape s) ''\" }'')"
| "json_val m n (VCodeWScope c es) = wrap ''{ \"$code\" : \"'' (json_escape c @ str_of ''\", \"$scope\" : '' @
     (if es = [] then str_of ''{ }'' else wrap ''{ '' (json_items m 0 True True es) '' }'')) '' }''"
| "json_val m n (VInt32 x) =
     (if m = BSON_JSON_MODE_CANONICAL then wrap ''{ \"$numberInt\" : \"'' (signed_decimal (sint x)) ''\" }'' else signed_decimal (sint x))"
| "json_val m n (VTimestamp ts inc) =
     wrap ''{ \"$timestamp\" : { \"t\" : '' (decimal (unat ts) @ wrap '', \"i\" : '' (decimal (unat inc)) '' } }'') ''''"
| "json_val m n (VInt64 x) =
     (if m = BSON_JSON_MODE_CANONICAL then wrap ''{ \"$numberLong\" : \"'' (signed_decimal (sint x)) ''\"}'' else signed_decimal (sint x))"
| "json_val m n (VDecimal128 hi lo) = wrap ''{ \"$numberDecimal\" : \"'' (d128_spec hi lo) ''\" }''"
| "json_val m n VMaxKey = str_of ''{ \"$maxKey\" : 1 }''"
| "json_val m n VMinKey = str_of ''{ \"$minKey\" : 1 }''"
| "json_items m n keys first [] = []"
| "json_items m n keys first ((k, v) # es) =
     (if first then [] else str_of '', '') @ (if keys then in_quotes (json_escape k) @ str_of '' : '' else []) @ json_val m n v @
     json_items m n keys False es"

definition json_doc :: "json_mode \<Rightarrow> elems \<Rightarrow> bytes" where
  "json_doc m es = (if es = [] then str_of ''{ }'' else wrap ''{ '' (json_items m 0 True True es) '' }'')"

text \<open>The documents that are printed whole.\<close>

fun printable :: "json_mode \<Rightarrow> bval \<Rightarrow> bool" and printables :: "json_mode \<Rightarrow> elems \<Rightarrow> bool" where
  "printable m (VUtf8 s) \<longleftrightarrow> plain_text s"
| "printable m (VDocument es) \<longleftrightarrow> printables m es"
| "printable m (VArray es) \<longleftrightarrow> printables m es"
| "printable m (VDateTime x) \<longleftrightarrow> m = BSON_JSON_MODE_RELAXED \<longrightarrow> sint x < 253402300800000"
| "printable m (VRegex r opt) \<longleftrightarrow> plain_text r"
| "printable m (VDBPointer c i) \<longleftrightarrow> plain_text c"
| "printable m (VCode c) \<longleftrightarrow> plain_text c"
| "printable m (VSymbol s) \<longleftrightarrow> plain_text s"
| "printable m (VCodeWScope c es) \<longleftrightarrow> plain_text c \<and> printables m es"
| "printable m (VDecimal128 hi lo) \<longleftrightarrow> d128_coefficient (d128_bits hi lo) < 10 ^ 34"
| "printable m _ \<longleftrightarrow> True"
| "printables m [] \<longleftrightarrow> True"
| "printables m ((k, v) # es) \<longleftrightarrow> plain_text k \<and> printable m v \<and> printables m es"

subsection \<open>Steps that append a text\<close>

text \<open>
  \<open>prints m n g t\<close>: in mode \<open>m\<close> and at depth \<open>n\<close> the step \<open>g\<close> appends \<open>t\<close> to the string of the state and changes nothing
  else, if the string has room for twice the text (it doubles when it grows). \<open>emits\<close> says the same of a callback that
  lets the visit go on.
\<close>

definition roomy :: "json_mode \<Rightarrow> nat \<Rightarrow> bytes \<Rightarrow> json_state \<Rightarrow> bool" where
  "roomy m n t st \<longleftrightarrow> js_mode st = m \<and> js_depth st = n \<and> str_ok (js_str st) \<and> length (str_text (js_str st)) + 2 * length t \<le> 2 ^ 30"

definition adds :: "bytes \<Rightarrow> json_state \<Rightarrow> bson_string \<Rightarrow> bool" where
  "adds t st b \<longleftrightarrow> str_ok b \<and> str_text b = str_text (js_str st) @ t"

definition prints :: "json_mode \<Rightarrow> nat \<Rightarrow> (json_state \<Rightarrow> json_state option) \<Rightarrow> bytes \<Rightarrow> bool" where
  "prints m n g t \<longleftrightarrow> (\<forall>st. roomy m n t st \<longrightarrow> (\<exists>b. g st = Some (st\<lparr>js_str := b\<rparr>) \<and> adds t st b))"

definition emits :: "json_mode \<Rightarrow> nat \<Rightarrow> (json_state \<Rightarrow> (bool \<times> json_state) option) \<Rightarrow> bytes \<Rightarrow> bool" where
  "emits m n g t \<longleftrightarrow> (\<forall>st. roomy m n t st \<longrightarrow> (\<exists>b. g st = Some (False, st\<lparr>js_str := b\<rparr>) \<and> adds t st b))"

lemma roomy_parts:
  assumes "roomy m n (t @ u) st"
  shows "roomy m n t st" "adds t st b \<Longrightarrow> roomy m n u (st\<lparr>js_str := b\<rparr>)"
  using assms by (auto simp: roomy_def adds_def)

lemma adds_append: "adds t st b \<Longrightarrow> adds u (st\<lparr>js_str := b\<rparr>) c \<Longrightarrow> adds (t @ u) st c"
  by (simp add: adds_def)

lemma roomy_mode: "roomy m n t st \<Longrightarrow> js_mode st = m" "roomy m n t st \<Longrightarrow> js_depth st = n"
  by (simp_all add: roomy_def)

lemma roomy_len: "roomy m n t st \<Longrightarrow> s_len (js_str st) + 2 * length t \<le> 2 ^ 30" "roomy m n t st \<Longrightarrow> str_ok (js_str st)"
  using string_append_len [of "js_str st"] by (auto simp: roomy_def)

lemma printsE:
  assumes "prints m n g t" "roomy m n t st"
  obtains b where "g st = Some (st\<lparr>js_str := b\<rparr>)" "adds t st b"
  using assms unfolding prints_def by blast

lemma prints_bind:
  assumes "prints m n g t" "prints m n h u"
  shows "prints m n (\<lambda>st. g st \<bind> h) (t @ u)"
  unfolding prints_def
proof (intro allI impI)
  fix st
  assume r: "roomy m n (t @ u) st"
  from assms(1) roomy_parts(1) [OF r] obtain b where b: "g st = Some (st\<lparr>js_str := b\<rparr>)" "adds t st b" by (rule printsE)
  from assms(2) roomy_parts(2) [OF r b(2)] obtain c where "h (st\<lparr>js_str := b\<rparr>) = Some (st\<lparr>js_str := b\<rparr>\<lparr>js_str := c\<rparr>)" "adds u (st\<lparr>js_str := b\<rparr>) c"
    by (rule printsE)
  then show "\<exists>b. g st \<bind> h = Some (st\<lparr>js_str := b\<rparr>) \<and> adds (t @ u) st b" using b adds_append [OF b(2)] by auto
qed

lemma emits_bind:
  assumes "prints m n g t" "emits m n h u"
  shows "emits m n (\<lambda>st. g st \<bind> h) (t @ u)"
  unfolding emits_def
proof (intro allI impI)
  fix st
  assume r: "roomy m n (t @ u) st"
  from assms(1) roomy_parts(1) [OF r] obtain b where b: "g st = Some (st\<lparr>js_str := b\<rparr>)" "adds t st b" by (rule printsE)
  from assms(2) roomy_parts(2) [OF r b(2)] obtain c where "h (st\<lparr>js_str := b\<rparr>) = Some (False, st\<lparr>js_str := b\<rparr>\<lparr>js_str := c\<rparr>)" "adds u (st\<lparr>js_str := b\<rparr>) c"
    unfolding emits_def by blast
  then show "\<exists>b. g st \<bind> h = Some (False, st\<lparr>js_str := b\<rparr>) \<and> adds (t @ u) st b" using b adds_append [OF b(2)] by auto
qed

lemma emits_last: "prints m n g t \<Longrightarrow> emits m n (\<lambda>st. g st \<bind> (\<lambda>st. Some (False, st))) t"
  unfolding prints_def emits_def by fastforce

lemma prints_none: "prints m n Some []"
  unfolding prints_def adds_def roomy_def
proof (intro allI impI)
  fix st
  assume "js_mode st = m \<and> js_depth st = n \<and> str_ok (js_str st) \<and> length (str_text (js_str st)) + 2 * length ([] :: bytes) \<le> 2 ^ 30"
  then show "\<exists>b. Some st = Some (st\<lparr>js_str := b\<rparr>) \<and> str_ok b \<and> str_text b = str_text (js_str st) @ []"
    by (intro exI [of _ "js_str st"]) simp
qed

lemma prints_cong: "(\<And>st. js_mode st = m \<Longrightarrow> g st = h st) \<Longrightarrow> prints m n h t \<Longrightarrow> prints m n g t"
  by (simp add: prints_def roomy_mode)

lemma emits_cong: "(\<And>st. js_mode st = m \<Longrightarrow> g st = h st) \<Longrightarrow> emits m n h t \<Longrightarrow> emits m n g t"
  by (simp add: emits_def roomy_mode)

lemma emits_room: "(length t \<le> 2 ^ 29 \<Longrightarrow> emits m n g t) \<Longrightarrow> emits m n g t"
  unfolding emits_def roomy_def by auto

lemma prints_append:
  assumes "c_string mem 0 = Some t"
  shows "prints m n (js_append junk mem) t"
  unfolding prints_def
proof (intro allI impI)
  fix st
  assume r: "roomy m n t st"
  have "s_len (js_str st) + 2 * length t \<le> 2 ^ 31" using roomy_len(1) [OF r] by simp
  from string_append_ok [OF roomy_len(2) [OF r] assms this, of junk]
  show "\<exists>b. js_append junk mem st = Some (st\<lparr>js_str := b\<rparr>) \<and> adds t st b" by (auto simp: js_append_def adds_def)
qed

lemma prints_lit: "no_nul (str_of s) \<Longrightarrow> prints m n (js_lit junk s) (str_of s)"
  using prints_append [of "str_of s @ [0]" "str_of s" m n junk] c_string_append [of 0 "[]" "str_of s" "[]"]
  by (simp add: js_lit_def [abs_def] js_append_def [abs_def])

lemma prints_printf:
  assumes "no_nul t"
  shows "prints m n (js_printf junk t) t"
  unfolding prints_def
proof (intro allI impI)
  fix st
  assume r: "roomy m n t st"
  have "s_len (js_str st) + 2 * length t \<le> 2 ^ 31" "length t < INT_MAX" using roomy_len(1) [OF r] by simp_all
  from string_append_printf_ok [OF roomy_len(2) [OF r] assms this(2,1), of junk]
  show "\<exists>b. js_printf junk t st = Some (st\<lparr>js_str := b\<rparr>) \<and> adds t st b" by (auto simp: js_printf_def adds_def)
qed

text \<open>An append to the string of the state, in the style of \<^verbatim>\<open>bson_string_append_c\<close> and the others.\<close>

lemma prints_string:
  assumes "\<And>s. str_ok s \<Longrightarrow> s_len s + 2 * length t \<le> 2 ^ 30 \<Longrightarrow> \<exists>s'. f s = Some s' \<and> str_ok s' \<and> str_text s' = str_text s @ t"
  shows "prints m n (\<lambda>st. f (js_str st) \<bind> (\<lambda>b. Some (st\<lparr>js_str := b\<rparr>))) t"
  unfolding prints_def adds_def using assms roomy_len by fastforce

lemmas lit_simps = str_of_def of_char_def

subsection \<open>Escaped text\<close>

lemma json_escape_append [simp]: "json_escape (s @ t) = json_escape s @ json_escape t"
  by (simp add: json_escape_def)

lemma utf8_enc_high: "0x80 \<le> c \<Longrightarrow> c < 0x110000 \<Longrightarrow> list_all (\<lambda>b. 0x80 \<le> b) (utf8_enc c)"
  by (auto simp: utf8_enc_def word_le_nat_alt unat_of_nat_u8 simp del: of_nat_add of_nat_numeral)

lemma json_escape_char:
  assumes "scalar_value c"
  shows "json_escape (utf8_enc c) = json_esc c"
proof (cases "c < 0x80")
  case True
  have "unat (word_of_nat c :: u8) = c" using True by (simp add: unat_of_nat_u8)
  moreover from this have "(word_of_nat c :: u8) < 0x80" using True by (simp add: word_less_nat_alt)
  ultimately show ?thesis using True by (simp add: json_escape_def utf8_enc_1)
next
  case False
  have c: "c < 0x110000" using assms unfolding scalar_value_def by linarith
  have h: "list_all (\<lambda>b. 0x80 \<le> b) (utf8_enc c)" by (rule utf8_enc_high) (use False c in simp_all)
  have "concat (map (\<lambda>b. if b < 0x80 then json_esc (unat b) else [b]) s) = s" if "list_all (\<lambda>b. 0x80 \<le> b) s" for s :: bytes
    using that by (induction s) auto
  then have "json_escape (utf8_enc c) = utf8_enc c" using h by (simp add: json_escape_def)
  moreover have "json_esc c = utf8_enc c" using False by (simp add: json_esc_def)
  ultimately show ?thesis by simp
qed

lemma plain_chars:
  assumes "plain_text s"
  obtains us where "list_all (\<lambda>u. unat u < 0x110000) us" "s = concat (map bson_utf8_from_unichar us)"
    "json_escape s = concat (map (\<lambda>u. json_esc (unat u)) us)" "list_all (\<lambda>u. scalar_value (unat u)) us"
proof -
  obtain cs where cs: "list_all scalar_value cs" "s = concat (map utf8_enc cs)" using assms by (auto simp: plain_text_def)
  let ?us = "map word_of_nat cs :: u32 list"
  have sv: "scalar_value c" "c < 0x110000" if "c \<in> set cs" for c using cs(1) that by (auto simp: list_all_iff scalar_value_def)
  have u: "unat (word_of_nat c :: u32) = c" if "c \<in> set cs" for c using sv(2) [OF that] by (simp add: unat_of_nat)
  have e: "map bson_utf8_from_unichar ?us = map utf8_enc cs" using u sv(2) from_unichar_eq_enc by simp
  have "json_escape (concat (map utf8_enc cs)) = concat (map (\<lambda>u. json_esc (unat u)) ?us)" using sv(1) u
    by (induction cs) (simp_all add: json_escape_char, simp add: json_escape_def)
  moreover have "s = concat (map bson_utf8_from_unichar ?us)" unfolding e by (rule cs(2))
  ultimately show ?thesis using cs(2) u sv by (intro that [of ?us]) (auto simp: list_all_iff)
qed

lemma escape_text:
  assumes "plain_text s" "length (json_escape s) \<le> 2 ^ 29"
  shows "\<exists>e. c_string e 0 = Some (json_escape s) \<and>
    (\<forall>post. bson_utf8_escape_for_json junk (s @ post) (int (length s)) = Some (Some e)) \<and>
    (\<forall>post. no_nul s \<and> c_string (s @ post) 0 = Some s \<longrightarrow> bson_utf8_escape_for_json junk (s @ post) (- 1) = Some (Some e))"
proof -
  from assms(1) obtain us where us: "list_all (\<lambda>u. unat u < 0x110000) us" "s = concat (map bson_utf8_from_unichar us)"
    "json_escape s = concat (map (\<lambda>u. json_esc (unat u)) us)" by (rule plain_chars)
  obtain s0 where s0: "bson_string_new junk None = Some s0" "str_ok s0" "str_text s0 = []" using string_new_empty by blast
  have "length (str_text s0) + 2 * length (concat (map (\<lambda>u. json_esc (unat u)) us)) \<le> 2 ^ 31"
    using assms(2) unfolding s0(3) us(3) by simp
  then obtain s1 where s1: "put_all (escape_put junk) s0 us = Some s1" "str_ok s1" "str_text s1 = json_escape s"
    using esc.put_all_ok [OF s0(2) us(1), of junk] unfolding s0(3) us(3) by auto
  have c: "c_string (s_str s1) 0 = Some (json_escape s)"
    using str_text_c_string [OF s1(2)] escs_no_nul [OF us(1)] us(3) s1(3) by simp
  have l: "escape_loop junk (s @ post) (length s) lp 0 s0 = Some (Some (s_str s1))" if "lp \<or> 0 \<notin> set us" for lp post
    using escape_loop_put_all [OF us(1) that s1(1), of "[]" post] us(2) by simp
  have nz: "0 \<notin> set us" if "no_nul s"
  proof
    assume "0 \<in> set us"
    moreover have "0 \<in> set (bson_utf8_from_unichar 0)" by (simp add: bson_utf8_from_unichar_def)
    ultimately have "0 \<in> set s" unfolding us(2) by auto
    then show False using that by (auto simp: no_nul_def list_all_iff)
  qed
  show ?thesis
    by (rule exI [of _ "s_str s1"]) (use c l nz in \<open>simp add: bson_utf8_escape_for_json_def s0(1)\<close>)
qed

text \<open>The same on a pointer to the text: with its length, or terminated.\<close>

lemma escape_at:
  assumes "plain_text s" "length (json_escape s) \<le> 2 ^ 29"
  shows "take (length s) x = s \<Longrightarrow>
      \<exists>e. bson_utf8_escape_for_json junk x (int (length s)) = Some (Some e) \<and> c_string e 0 = Some (json_escape s)"
    "c_string x 0 = Some s \<Longrightarrow> \<exists>e. bson_utf8_escape_for_json junk x (- 1) = Some (Some e) \<and> c_string e 0 = Some (json_escape s)"
proof -
  obtain e where e: "c_string e 0 = Some (json_escape s)"
    "\<forall>post. bson_utf8_escape_for_json junk (s @ post) (int (length s)) = Some (Some e)"
    "\<forall>post. no_nul s \<and> c_string (s @ post) 0 = Some s \<longrightarrow> bson_utf8_escape_for_json junk (s @ post) (- 1) = Some (Some e)"
    using escape_text [OF assms, of junk] by blast
  have x: "x = s @ drop (length s) x" if "take (length s) x = s" using that append_take_drop_id [of "length s" x] by simp
  show "take (length s) x = s \<Longrightarrow>
      \<exists>e. bson_utf8_escape_for_json junk x (int (length s)) = Some (Some e) \<and> c_string e 0 = Some (json_escape s)"
    using x e(1,2) by metis
  assume c: "c_string x 0 = Some s"
  then have n: "no_nul s" "take (length s + 1) x = s @ [0]" using c_string_no_nul c_string_text by blast+
  have "take (length s) x = take (length s) (take (length s + 1) x)" by (simp add: min_absorb1)
  then have "take (length s) x = s" unfolding n(2) by simp
  then show "\<exists>e. bson_utf8_escape_for_json junk x (- 1) = Some (Some e) \<and> c_string e 0 = Some (json_escape s)"
    using x e(1,3) n(1) c by metis
qed

end
