(* ===== verification/Json_Emit.thy ===== *)
theory Json_Emit
  imports Json_Print
begin

text \<open>Each callback of \<^verbatim>\<open>bson_as_json_visitors\<close> appends the text of its value.\<close>

lemma emits_let: "emits m n (\<lambda>st. f (c :: 'x) st) t \<Longrightarrow> emits m n (\<lambda>st. let x = c in f x st) t"
  by simp

lemmas emit_steps = emits_bind emits_last prints_bind prints_lit prints_append prints_printf prints_none

lemma signed_no_nul: "no_nul (signed_decimal i)"
  using decimal_no_nul by (simp add: signed_decimal_def)

lemma quote_lit: "str_of ''\"'' = [0x22]"
  by (simp add: lit_simps)

lemma take_text: "take (length s + 1) x = s @ [0] \<Longrightarrow> take (length s) x = s"
proof -
  assume t: "take (length s + 1) x = s @ [0]"
  have "take (length s) x = take (length s) (take (length s + 1) x)" by (simp add: min_absorb1)
  then show ?thesis unfolding t by simp
qed

lemma emits_utf8:
  assumes "plain_text s" "take (length s + 1) x = s @ [0]"
  shows "emits m n (as_json_visit_utf8 junk it kp (x, length s)) (in_quotes (json_escape s))"
proof (rule emits_room)
  assume "length (in_quotes (json_escape s)) \<le> 2 ^ 29"
  then have l: "length (json_escape s) \<le> 2 ^ 29" by (simp add: in_quotes_def)
  obtain e where e: "bson_utf8_escape_for_json junk x (int (length s)) = Some (Some e)" "c_string e 0 = Some (json_escape s)"
    using escape_at(1) [OF assms(1) l] take_text [OF assms(2)] by blast
  have "emits m n (\<lambda>st. js_lit junk ''\"'' st \<bind> (\<lambda>st. js_append junk e st \<bind> (\<lambda>st. js_lit junk ''\"'' st \<bind> (\<lambda>st. Some (False, st)))))
      (str_of ''\"'' @ json_escape s @ str_of ''\"'')"
    by (intro emit_steps e(2)) (simp_all add: lit_simps)
  then show "emits m n (as_json_visit_utf8 junk it kp (x, length s)) (in_quotes (json_escape s))"
    by (simp add: as_json_visit_utf8_def [abs_def] e(1) in_quotes_def quote_lit)
qed

lemma emits_int32: "emits m n (as_json_visit_int32 junk it kp x) (json_val m n (VInt32 x))"
  unfolding as_json_visit_int32_def [abs_def]
  by (rule emits_last, rule prints_cong) (auto simp: wrap_def intro!: prints_printf signed_no_nul split: if_split simp: lit_simps)


lemma prints_ext:
  "(m \<noteq> BSON_JSON_MODE_LEGACY \<Longrightarrow> prints m n g t) \<Longrightarrow> (m = BSON_JSON_MODE_LEGACY \<Longrightarrow> prints m n h t) \<Longrightarrow>
   prints m n (\<lambda>st. if extended st then g st else h st) t"
  unfolding prints_def extended_def by (cases m) (auto dest: roomy_mode)

lemma emits_int64: "emits m n (as_json_visit_int64 junk it kp x) (json_val m n (VInt64 x))"
  unfolding as_json_visit_int64_def [abs_def]
  by (rule emits_last, rule prints_cong) (auto simp: wrap_def intro!: prints_printf signed_no_nul split: if_split simp: lit_simps)

lemma emits_decimal128:
  assumes "d128_coefficient (d128_bits hi lo) < 10 ^ 34"
  shows "emits m n (as_json_visit_decimal128 junk it kp (hi, lo)) (json_val m n (VDecimal128 hi lo))"
proof -
  obtain r where r: "bson_decimal128_to_string hi lo (bson_malloc junk 43) = Some r" "c_string r 0 = Some (d128_spec hi lo)"
    using to_string_spec [OF _ assms, of "bson_malloc junk 43"] by auto
  have "emits m n (\<lambda>st. js_lit junk ''{ \"$numberDecimal\" : \"'' st \<bind> (\<lambda>st. js_append junk r st \<bind> (\<lambda>st.
      js_lit junk ''\" }'' st \<bind> (\<lambda>st. Some (False, st))))) (str_of ''{ \"$numberDecimal\" : \"'' @ d128_spec hi lo @ str_of ''\" }'')"
    by (intro emit_steps r(2)) (simp_all add: lit_simps)
  then show ?thesis by (simp add: as_json_visit_decimal128_def [abs_def] r(1) wrap_def)
qed

lemma emits_constant:
  "emits m n (as_json_visit_undefined junk it kp u) (json_val m n VUndefined)"
  "emits m n (as_json_visit_null junk it kp u) (json_val m n VNull)"
  "emits m n (as_json_visit_minkey junk it kp u) (json_val m n VMinKey)"
  "emits m n (as_json_visit_maxkey junk it kp u) (json_val m n VMaxKey)"
  "emits m n (as_json_visit_bool junk it kp b) (json_val m n (VBool b))"
  unfolding as_json_visit_undefined_def [abs_def] as_json_visit_null_def [abs_def] as_json_visit_minkey_def [abs_def]
    as_json_visit_maxkey_def [abs_def] as_json_visit_bool_def [abs_def] json_val.simps
  by ((rule emits_last, rule prints_lit, simp add: lit_simps)+)

lemma emits_timestamp: "emits m n (as_json_visit_timestamp junk it kp (ts, inc)) (json_val m n (VTimestamp ts inc))"
proof -
  have "emits m n (as_json_visit_timestamp junk it kp (ts, inc)) (str_of ''{ \"$timestamp\" : { \"t\" : '' @ decimal (unat ts) @
      str_of '', \"i\" : '' @ decimal (unat inc) @ str_of '' } }'')"
    unfolding as_json_visit_timestamp_def [abs_def] fst_conv snd_conv
    by (intro emit_steps decimal_no_nul) (simp_all add: lit_simps)
  then show ?thesis by (simp add: wrap_def lit_simps)
qed

subsection \<open>Object ids and binary data\<close>

lemma hex_byte: "no_nul (printf_02x b)" "le_bytes 2 (gHexCharPairs ! unat b) = printf_02x b"
proof -
  have "unat b div 16 < 16" using unat_u8_less [of b] by (simp add: div_less_iff_less_mult)
  then show "no_nul (printf_02x b)" using hex_lower_nz by (simp add: printf_02x_def)
  show "le_bytes 2 (gHexCharPairs ! unat b) = printf_02x b"
    unfolding hex_pair printf_02x_def by (simp add: hex_digit_def hex_lower_def del: of_nat_add of_nat_numeral)
qed

lemma oid_text: "bson_oid_to_string i = hex_text i @ [0]" "no_nul (hex_text i)"
proof -
  show "bson_oid_to_string i = hex_text i @ [0]" by (simp add: bson_oid_to_string_def hex_text_def hex_byte(2))
  show "no_nul (hex_text i)" unfolding hex_text_def by (induction i) (simp_all add: hex_byte(1))
qed

lemma oid_c_string: "c_string (bson_oid_to_string i) 0 = Some (hex_text i)"
  using c_string_append [of 0 "[]" "hex_text i" "[]"] oid_text(2) by (simp add: oid_text(1))

lemma emits_oid:
  assumes "mem_read x 0 12 = Some i"
  shows "emits m n (as_json_visit_oid junk it kp x) (json_val m n (VOid i))"
proof -
  have "emits m n (\<lambda>st. js_lit junk ''{ \"$oid\" : \"'' st \<bind> (\<lambda>st. js_append junk (bson_oid_to_string i) st \<bind> (\<lambda>st.
      js_lit junk ''\" }'' st \<bind> (\<lambda>st. Some (False, st))))) (str_of ''{ \"$oid\" : \"'' @ hex_text i @ str_of ''\" }'')"
    by (intro emit_steps oid_c_string) (simp_all add: lit_simps)
  then show ?thesis by (simp add: as_json_visit_oid_def [abs_def] assms wrap_def)
qed

lemma ntop_whole:
  "\<exists>t k. b64_ntop (b @ z) (length b) (bson_malloc0 ((length b div 3 + 1) * 4 + 1)) 0 ((length b div 3 + 1) * 4 + 1) = Some (t, k) \<and>
     c_string t 0 = Some (b64_text b)"
proof -
  let ?L = "(length b div 3 + 1) * 4 + 1" and ?k = "length (b64_text b)"
  have "(length b + 2) div 3 \<le> length b div 3 + 1" by simp
  then have l: "?k < ?L" by (simp add: b64_text_length)
  have m: "bson_malloc0 ?L = replicate ?k 0 @ 0 # replicate (?L - ?k - 1) 0"
    using l by (simp add: bson_malloc0_def replicate_add [symmetric] replicate_Suc [symmetric] del: replicate_Suc)
  have "b64_ntop (b @ z) (length b) ([] @ replicate ?k 0 @ 0 # replicate (?L - ?k - 1) 0) (length ([] :: bytes)) ?L =
      Some ([] @ b64_text b @ 0 # replicate (?L - ?k - 1) 0, int (length ([] :: bytes) + ?k))"
    by (rule ntop_text) (use l in simp_all)
  moreover have "c_string (b64_text b @ 0 # replicate (?L - ?k - 1) 0) 0 = Some (b64_text b)"
    using c_string_append [of 0 "[]" "b64_text b"] b64_text_no_nul by simp
  ultimately show ?thesis unfolding m by simp
qed

lemma emits_binary:
  assumes "take (length b) x = b"
  shows "emits m n (as_json_visit_binary junk it kp (ty, x, length b)) (json_val m n (VBinary ty b))"
proof -
  have "x = b @ drop (length b) x" using append_take_drop_id [of "length b" x] assms by simp
  then obtain t k where t: "b64_ntop x (length b) (bson_malloc0 ((length b div 3 + 1) * 4 + 1)) 0 ((length b div 3 + 1) * 4 + 1) = Some (t, k)"
    "c_string t 0 = Some (b64_text b)" using ntop_whole [of b "drop (length b) x"] by metis
  have "emits m n (\<lambda>st. (if extended st then js_lit junk ''{ \"$binary\" : { \"base64\": \"'' st \<bind> (\<lambda>st. js_append junk t st \<bind> (\<lambda>st.
        js_lit junk ''\", \"subType\" : \"'' st \<bind> (\<lambda>st. js_printf junk (printf_02x ty) st \<bind> js_lit junk ''\" } }'')))
      else js_lit junk ''{ \"$binary\" : \"'' st \<bind> (\<lambda>st. js_append junk t st \<bind> (\<lambda>st.
        js_lit junk ''\", \"$type\" : \"'' st \<bind> (\<lambda>st. js_printf junk (printf_02x ty) st \<bind> js_lit junk ''\" }'')))) \<bind>
      (\<lambda>st. Some (False, st))) (json_val m n (VBinary ty b))"
  proof (rule emits_last, rule prints_ext)
    assume "m \<noteq> BSON_JSON_MODE_LEGACY"
    then have j: "json_val m n (VBinary ty b) = str_of ''{ \"$binary\" : { \"base64\": \"'' @ b64_text b @ str_of ''\", \"subType\" : \"'' @
        printf_02x ty @ str_of ''\" } }''" by (simp add: json_binary_def wrap_def, simp add: str_of_def)
    show "prints m n (\<lambda>st. js_lit junk ''{ \"$binary\" : { \"base64\": \"'' st \<bind> (\<lambda>st. js_append junk t st \<bind> (\<lambda>st.
        js_lit junk ''\", \"subType\" : \"'' st \<bind> (\<lambda>st. js_printf junk (printf_02x ty) st \<bind> js_lit junk ''\" } }''))))
        (json_val m n (VBinary ty b))"
      unfolding j by (intro emit_steps t(2) hex_byte(1)) (simp_all add: lit_simps)
  next
    assume "m = BSON_JSON_MODE_LEGACY"
    then have j: "json_val m n (VBinary ty b) = str_of ''{ \"$binary\" : \"'' @ b64_text b @ str_of ''\", \"$type\" : \"'' @
        printf_02x ty @ str_of ''\" }''" by (simp add: json_binary_def wrap_def, simp add: str_of_def)
    show "prints m n (\<lambda>st. js_lit junk ''{ \"$binary\" : \"'' st \<bind> (\<lambda>st. js_append junk t st \<bind> (\<lambda>st.
        js_lit junk ''\", \"$type\" : \"'' st \<bind> (\<lambda>st. js_printf junk (printf_02x ty) st \<bind> js_lit junk ''\" }''))))
        (json_val m n (VBinary ty b))"
      unfolding j by (intro emit_steps t(2) hex_byte(1)) (simp_all add: lit_simps)
  qed
  then show ?thesis
    by (simp only: as_json_visit_binary_def [abs_def] Let_def fst_conv snd_conv t(1) Option.bind.bind_lunit prod.case)
qed


subsection \<open>Dates and doubles\<close>

lemma digits_char_nz: "digit_char k \<noteq> 0"
  using digit_byte [of k] by (metis add_eq_0_iff_both_eq_0 unat_0 zero_neq_numeral)

lemma strftime_no_nul: "no_nul (strftime_iso tm)"
  by (simp add: strftime_iso_def two_digits_def digits_char_nz signed_no_nul)

lemma prints_iso:
  assumes "0 \<le> ms" "ms < 253402300800000"
  shows "prints m n (\<lambda>st. bson_iso8601_date_format junk ms (js_str st) \<bind> (\<lambda>b. Some (st\<lparr>js_str := b\<rparr>))) (iso_text ms)"
proof (rule prints_string)
  fix s
  assume s: "str_ok s" "s_len s + 2 * length (iso_text ms) \<le> 2 ^ 30"
  have "0 \<le> ms div 1000" "ms div 1000 < 253402300800" using assms by auto
  then obtain tm y mo dy h mi sc where g: "gmtsub (ms div 1000) = Some tm" "strftime_iso tm = date_text y mo dy h mi @ 0x3A # num_text 2 sc"
    using gmt_text by metis
  have "length (strftime_iso tm) = 19" unfolding g(2) by (simp add: date_text_def)
  then show "\<exists>s'. bson_iso8601_date_format junk ms s = Some s' \<and> str_ok s' \<and> str_text s' = str_text s @ iso_text ms"
    using format_text [OF s(1) _ assms(1) g(1) refl strftime_no_nul] s(2) by (simp add: iso_text_def g(1))
qed

lemma emits_date:
  assumes "m = BSON_JSON_MODE_RELAXED \<Longrightarrow> sint x < 253402300800000"
  shows "emits m n (as_json_visit_date_time junk it kp x) (json_val m n (VDateTime x))"
proof -
  let ?ms = "sint x"
  have num: "emits m n (\<lambda>st. (js_lit junk a st \<bind> (\<lambda>st. js_printf junk (signed_decimal ?ms) st \<bind> js_lit junk c)) \<bind> (\<lambda>st. Some (False, st)))
      (wrap a (signed_decimal ?ms) c)" if "no_nul (str_of a)" "no_nul (str_of c)" for a c
    unfolding wrap_def by (rule emits_last) (intro emit_steps signed_no_nul that)
  consider (leg) "m = BSON_JSON_MODE_LEGACY" | (iso) "m = BSON_JSON_MODE_RELAXED" "0 \<le> ?ms"
    | (long) "m = BSON_JSON_MODE_CANONICAL \<or> (m = BSON_JSON_MODE_RELAXED \<and> ?ms < 0)"
    by (cases m; cases "?ms < 0") auto
  then show ?thesis
  proof cases
    case leg
    have "emits m n (\<lambda>st. (js_lit junk ''{ \"$date\" : '' st \<bind> (\<lambda>st. js_printf junk (signed_decimal ?ms) st \<bind> js_lit junk '' }'')) \<bind>
        (\<lambda>st. Some (False, st))) (json_val m n (VDateTime x))"
      using num [of "''{ \"$date\" : ''" "'' }''"] leg by (simp add: json_date_def lit_simps)
    then show ?thesis by (rule emits_cong [rotated]) (simp add: as_json_visit_date_time_def leg Let_def)
  next
    case long
    have "emits m n (\<lambda>st. (js_lit junk ''{ \"$date\" : { \"$numberLong\" : \"'' st \<bind> (\<lambda>st. js_printf junk (signed_decimal ?ms) st \<bind>
        js_lit junk ''\" } }'')) \<bind> (\<lambda>st. Some (False, st))) (json_val m n (VDateTime x))"
      using num [of "''{ \"$date\" : { \"$numberLong\" : \"''" "''\" } }''"] long by (auto simp: json_date_def lit_simps)
    then show ?thesis by (rule emits_cong [rotated]) (use long in \<open>auto simp: as_json_visit_date_time_def Let_def\<close>)
  next
    case iso
    note d = prints_iso [OF iso(2) assms [OF iso(1)], of m n junk]
    have "emits m n (\<lambda>st. js_lit junk ''{ \"$date\" : \"'' st \<bind> (\<lambda>st. (bson_iso8601_date_format junk ?ms (js_str st) \<bind> (\<lambda>b. Some (st\<lparr>js_str := b\<rparr>))) \<bind>
        (\<lambda>st. js_lit junk ''\" }'' st \<bind> (\<lambda>st. Some (False, st))))) (str_of ''{ \"$date\" : \"'' @ iso_text ?ms @ str_of ''\" }'')"
      by (intro emit_steps d) (simp_all add: lit_simps)
    then have "emits m n (\<lambda>st. js_lit junk ''{ \"$date\" : \"'' st \<bind> (\<lambda>st. (bson_iso8601_date_format junk ?ms (js_str st) \<bind> (\<lambda>b. Some (st\<lparr>js_str := b\<rparr>))) \<bind>
        (\<lambda>st. js_lit junk ''\" }'' st \<bind> (\<lambda>st. Some (False, st))))) (json_val m n (VDateTime x))"
      using iso by (simp add: json_date_def wrap_def)
    then show ?thesis by (rule emits_cong [rotated]) (use iso in \<open>simp add: as_json_visit_date_time_def Let_def\<close>)
  qed
qed

text \<open>The text of a double; the check of its characters decides whether a fraction is added.\<close>

lemma strspn_all: "strspn_number s = length s \<longleftrightarrow> set s \<subseteq> set (str_of ''0123456789-'')"
proof -
  have "length (takeWhile P s) = length s \<longleftrightarrow> (\<forall>c \<in> set s. P c)" for P :: "u8 \<Rightarrow> bool"
    by (induction s) auto
  then show ?thesis by (auto simp: strspn_number_def)
qed

lemma number_no_nul:
  assumes "json_number s"
  shows "no_nul s"
proof -
  have d: "no_nul x" if "json_digits x" for x using that by (auto simp: json_digits_def no_nul_def list_all_iff)
  obtain m i f e where s: "s = m @ i @ f @ e" "m \<in> {[], [0x2D]}" "json_int i" "json_frac f" "json_exp e"
    using assms unfolding json_number_def by blast
  have "no_nul m" "no_nul i" using s(2,3) d by (auto simp: json_int_def)
  moreover have "no_nul f" using s(4) d by (cases f) (auto simp: json_frac_def)
  moreover have "no_nul e"
  proof (cases "e = []")
    case False
    then obtain c r where e: "e = c # r" by (cases e) auto
    show ?thesis using s(5) d [of r] d [of "tl r"] unfolding e by (cases r) (auto simp: json_exp_def json_digits_def)
  qed simp
  ultimately show ?thesis by (simp add: s(1))
qed

lemma printf_no_nul: "no_nul (printf_20g x)"
proof (cases "dbl_finite x")
  case True
  then show ?thesis by (rule number_no_nul [OF printf_20g_number])
next
  case False
  then show ?thesis by (auto simp: printf_20g_def dbl_finite_def dbl_isnan_def dbl_isinf_def lit_simps)
qed

definition json_float :: "u64 \<Rightarrow> bytes" where
  "json_float x = (let d = printf_20g x in if set d \<subseteq> set (str_of ''0123456789-'') then d @ str_of ''.0'' else d)"

lemma prints_digits: "prints m n (double_digits junk x) (json_float x)"
  unfolding prints_def
proof (intro allI impI)
  fix st
  let ?d = "printf_20g x"
  assume r: "roomy m n (json_float x) st"
  have r1: "roomy m n ?d st" using r by (auto simp: roomy_def json_float_def Let_def split: if_splits)
  obtain b where b: "js_printf junk ?d st = Some (st\<lparr>js_str := b\<rparr>)" "adds ?d st b"
    using prints_printf [OF printf_no_nul] r1 by (rule printsE)
  let ?k = "s_len (js_str st)"
  have k: "length (str_text (js_str st)) = ?k" "s_len b = ?k + length ?d" "?k + length ?d < 2 ^ 32"
    using string_append_len [of b] string_append_len [of "js_str st"] b(2) roomy_len [OF r1] by (auto simp: adds_def)
  have sb: "s_len b < length (s_str b)" "s_str b ! s_len b = 0" "str_text b = take (s_len b) (s_str b)"
    using b(2) by (auto simp: adds_def str_ok_def str_text_def)
  have "s_str b = str_text b @ 0 # drop (Suc (s_len b)) (s_str b)" using id_take_nth_drop [OF sb(1)] sb(2,3) by simp
  then have "s_str b = str_text (js_str st) @ ?d @ 0 # drop (Suc (s_len b)) (s_str b)" using b(2) by (simp add: adds_def)
  then have c: "c_string (s_str b) ?k = Some ?d" using c_string_append [of ?k "str_text (js_str st)" ?d] printf_no_nul k(1) by metis
  have s: "sub32 (s_len b) ?k = length ?d" using k by simp
  show "\<exists>b. double_digits junk x st = Some (st\<lparr>js_str := b\<rparr>) \<and> adds (json_float x) st b"
  proof (cases "set ?d \<subseteq> set (str_of ''0123456789-'')")
    case False
    then show ?thesis using b c s by (auto simp: double_digits_def json_float_def strspn_all)
  next
    case True
    then have f: "json_float x = ?d @ str_of ''.0''" by (simp add: json_float_def)
    have l: "prints m n (js_lit junk ''.0'') (str_of ''.0'')" by (rule prints_lit) (simp add: lit_simps)
    obtain b2 where b2: "js_lit junk ''.0'' (st\<lparr>js_str := b\<rparr>) = Some (st\<lparr>js_str := b\<rparr>\<lparr>js_str := b2\<rparr>)" "adds (str_of ''.0'') (st\<lparr>js_str := b\<rparr>) b2"
      using l roomy_parts(2) [OF r [unfolded f] b(2)] by (rule printsE)
    have "double_digits junk x st = Some (st\<lparr>js_str := b2\<rparr>)" using b(1) c s True b2(1) by (simp add: double_digits_def strspn_all)
    then show ?thesis using adds_append [OF b(2) b2(2)] unfolding f by blast
  qed
qed

lemma emits_double: "emits m n (as_json_visit_double junk it kp x) (json_val m n (VDouble x))"
proof -
  have w: "dbl_wild x \<longleftrightarrow> \<not> dbl_finite x" by (auto simp: dbl_wild_def dbl_finite_def dbl_isnan_def dbl_isinf_def)
  have j: "json_val m n (VDouble x) = (if m = BSON_JSON_MODE_LEGACY \<or> (m = BSON_JSON_MODE_RELAXED \<and> dbl_finite x) then json_float x
      else str_of ''{ \"$numberDouble\" : \"'' @ (if dbl_isnan x then str_of ''NaN'' else if dbl_wild x
        then str_of (if \<not> dbl_negative x then ''Infinity'' else ''-Infinity'') else json_float x) @ str_of ''\" }'')"
    by (simp add: json_double_def json_float_def wrap_def dbl_wild_def Let_def)
  show ?thesis
  proof (cases "m = BSON_JSON_MODE_LEGACY \<or> (m = BSON_JSON_MODE_RELAXED \<and> dbl_finite x)")
    case True
    have "emits m n (\<lambda>st. double_digits junk x st \<bind> (\<lambda>st. Some (False, st))) (json_val m n (VDouble x))"
      unfolding j using True prints_digits by (simp add: emits_last)
    then show ?thesis by (rule emits_cong [rotated]) (use True w in \<open>auto simp: as_json_visit_double_def Let_def\<close>)
  next
    case False
    have mid: "prints m n (\<lambda>st. if dbl_isnan x then js_lit junk ''NaN'' st
         else if dbl_wild x then js_lit junk (if \<not> dbl_negative x then ''Infinity'' else ''-Infinity'') st else double_digits junk x st)
        (if dbl_isnan x then str_of ''NaN'' else if dbl_wild x
        then str_of (if \<not> dbl_negative x then ''Infinity'' else ''-Infinity'') else json_float x)"
    proof -
      have "prints m n (js_lit junk ''NaN'') (str_of ''NaN'')" "prints m n (js_lit junk ''Infinity'') (str_of ''Infinity'')"
        "prints m n (js_lit junk ''-Infinity'') (str_of ''-Infinity'')" by (rule prints_lit, simp add: lit_simps)+
      then show ?thesis using prints_digits by auto
    qed
    have "emits m n (\<lambda>st. js_lit junk ''{ \"$numberDouble\" : \"'' st \<bind> (\<lambda>st. (if dbl_isnan x then js_lit junk ''NaN'' st
         else if dbl_wild x then js_lit junk (if \<not> dbl_negative x then ''Infinity'' else ''-Infinity'') st else double_digits junk x st) \<bind>
         (\<lambda>st. js_lit junk ''\" }'' st \<bind> (\<lambda>st. Some (False, st))))) (json_val m n (VDouble x))"
      unfolding j if_not_P [OF False] by (intro emit_steps mid) (simp_all add: lit_simps)
    then show ?thesis
    proof (rule emits_cong [rotated])
      fix st :: json_state
      assume "js_mode st = m"
      then have l: "(js_mode st = BSON_JSON_MODE_LEGACY \<or> (js_mode st = BSON_JSON_MODE_RELAXED \<and> \<not> dbl_wild x)) = False"
        using False w by simp
      show "as_json_visit_double junk it kp x st = js_lit junk ''{ \"$numberDouble\" : \"'' st \<bind> (\<lambda>st. (if dbl_isnan x then js_lit junk ''NaN'' st
         else if dbl_wild x then js_lit junk (if \<not> dbl_negative x then ''Infinity'' else ''-Infinity'') st else double_digits junk x st) \<bind>
         (\<lambda>st. js_lit junk ''\" }'' st \<bind> (\<lambda>st. Some (False, st))))"
        by (simp only: as_json_visit_double_def Let_def l not_False_eq_True if_True simp_thms)
    qed
  qed
qed


subsection \<open>Regular expressions, code, symbols and references\<close>

lemma sort_opts_no_nul: "no_nul BSON_REGEX_OPTIONS_SORTED"
  by (simp add: BSON_REGEX_OPTIONS_SORTED_def)

lemma prints_options:
  "prints m n (\<lambda>st. append_regex_options_sorted junk (js_str st) opt BSON_REGEX_OPTIONS_SORTED \<bind> (\<lambda>b. Some (st\<lparr>js_str := b\<rparr>))) (sort_opts opt)"
proof (rule prints_string)
  fix s
  assume s: "str_ok s" "s_len s + 2 * length (sort_opts opt) \<le> 2 ^ 30"
  then have "s_len s + 2 * length BSON_REGEX_OPTIONS_SORTED \<le> 2 ^ 31" by (simp add: BSON_REGEX_OPTIONS_SORTED_def)
  then show "\<exists>s'. append_regex_options_sorted junk s opt BSON_REGEX_OPTIONS_SORTED = Some s' \<and> str_ok s' \<and> str_text s' = str_text s @ sort_opts opt"
    using regex_options_sorted [OF s(1) sort_opts_no_nul, of junk opt] by (simp add: sort_opts_def)
qed

lemma legacy_or_ext: "(m = BSON_JSON_MODE_LEGACY) \<longleftrightarrow> \<not> (m = BSON_JSON_MODE_CANONICAL \<or> m = BSON_JSON_MODE_RELAXED)"
  by (cases m) simp_all

lemma emits_regex:
  assumes "plain_text r" "c_string x 0 = Some r" "c_string y 0 = Some opt"
  shows "emits m n (as_json_visit_regex junk it kp (x, y)) (json_val m n (VRegex r opt))"
proof (rule emits_room)
  assume "length (json_val m n (VRegex r opt)) \<le> 2 ^ 29"
  then have "length (json_escape r) \<le> 2 ^ 29" by (auto simp: json_regex_def wrap_def split: if_splits)
  then obtain e where e: "bson_utf8_escape_for_json junk x (- 1) = Some (Some e)" "c_string e 0 = Some (json_escape r)"
    using escape_at(2) [OF assms(1)] assms(2) by blast
  have go: "emits m n (\<lambda>st. js_lit junk a st \<bind> (\<lambda>st. js_append junk e st \<bind> (\<lambda>st. js_lit junk b st \<bind> (\<lambda>st.
      (append_regex_options_sorted junk (js_str st) opt BSON_REGEX_OPTIONS_SORTED \<bind> (\<lambda>b. Some (st\<lparr>js_str := b\<rparr>))) \<bind> (\<lambda>st.
      js_lit junk c st \<bind> (\<lambda>st. Some (False, st))))))) (str_of a @ json_escape r @ str_of b @ sort_opts opt @ str_of c)"
    if "no_nul (str_of a)" "no_nul (str_of b)" "no_nul (str_of c)" for a b c
    by (intro emit_steps e(2) prints_options that)
  define ext where "ext = (m = BSON_JSON_MODE_CANONICAL \<or> m = BSON_JSON_MODE_RELAXED)"
  define A B C where "A = (if ext then ''{ \"$regularExpression\" : { \"pattern\" : \"'' else ''{ \"$regex\" : \"'')"
    and "B = (if ext then ''\", \"options\" : \"'' else ''\", \"$options\" : \"'')" and "C = (if ext then ''\" } }'' else ''\" }'')"
  have nn: "no_nul (str_of A)" "no_nul (str_of B)" "no_nul (str_of C)" by (simp_all add: A_def B_def C_def lit_simps)
  have j: "json_val m n (VRegex r opt) = str_of A @ json_escape r @ str_of B @ sort_opts opt @ str_of C"
    by (cases ext) (simp_all add: json_regex_def legacy_or_ext ext_def [symmetric] wrap_def A_def B_def C_def, simp_all add: str_of_def)
  show "emits m n (as_json_visit_regex junk it kp (x, y)) (json_val m n (VRegex r opt))"
    unfolding j using go [OF nn]
  proof (rule emits_cong [rotated])
    fix st :: json_state
    assume "js_mode st = m"
    then have x: "extended st = ext" by (simp add: extended_def ext_def)
    show "as_json_visit_regex junk it kp (x, y) st = js_lit junk A st \<bind> (\<lambda>st. js_append junk e st \<bind> (\<lambda>st. js_lit junk B st \<bind> (\<lambda>st.
      (append_regex_options_sorted junk (js_str st) opt BSON_REGEX_OPTIONS_SORTED \<bind> (\<lambda>b. Some (st\<lparr>js_str := b\<rparr>))) \<bind> (\<lambda>st.
      js_lit junk C st \<bind> (\<lambda>st. Some (False, st))))))"
      unfolding as_json_visit_regex_def fst_conv snd_conv e(1) Option.bind.bind_lunit option.case Let_def x assms(3) A_def B_def C_def
      by (simp only: Option.bind_assoc Option.bind.bind_lunit)
  qed
qed

lemma emits_code:
  assumes "plain_text s" "take (length s + 1) x = s @ [0]"
  shows "emits m n (as_json_visit_code junk it kp (x, length s)) (json_val m n (VCode s))"
proof (rule emits_room)
  assume "length (json_val m n (VCode s)) \<le> 2 ^ 29"
  then have l: "length (json_escape s) \<le> 2 ^ 29" by (simp add: wrap_def)
  obtain e where e: "bson_utf8_escape_for_json junk x (int (length s)) = Some (Some e)" "c_string e 0 = Some (json_escape s)"
    using escape_at(1) [OF assms(1) l] take_text [OF assms(2)] by blast
  have "emits m n (\<lambda>st. js_lit junk ''{ \"$code\" : \"'' st \<bind> (\<lambda>st. js_append junk e st \<bind> (\<lambda>st. js_lit junk ''\" }'' st \<bind> (\<lambda>st. Some (False, st)))))
      (str_of ''{ \"$code\" : \"'' @ json_escape s @ str_of ''\" }'')"
    by (intro emit_steps e(2)) (simp_all add: lit_simps)
  then show "emits m n (as_json_visit_code junk it kp (x, length s)) (json_val m n (VCode s))"
    by (simp add: as_json_visit_code_def [abs_def] e(1) wrap_def)
qed

lemma emits_symbol:
  assumes "plain_text s" "take (length s + 1) x = s @ [0]"
  shows "emits m n (as_json_visit_symbol junk it kp (x, length s)) (json_val m n (VSymbol s))"
proof (rule emits_room)
  assume "length (json_val m n (VSymbol s)) \<le> 2 ^ 29"
  then have l: "length (json_escape s) \<le> 2 ^ 29" by (auto simp: wrap_def in_quotes_def split: if_splits)
  obtain e where e: "bson_utf8_escape_for_json junk x (int (length s)) = Some (Some e)" "c_string e 0 = Some (json_escape s)"
    using escape_at(1) [OF assms(1) l] take_text [OF assms(2)] by blast
  define ext where "ext = (m = BSON_JSON_MODE_CANONICAL \<or> m = BSON_JSON_MODE_RELAXED)"
  define A C where "A = (if ext then ''{ \"$symbol\" : \"'' else ''\"'')" and "C = (if ext then ''\" }'' else ''\"'')"
  have j: "json_val m n (VSymbol s) = str_of A @ json_escape s @ str_of C"
    by (cases ext) (simp_all add: legacy_or_ext ext_def [symmetric] wrap_def in_quotes_def A_def C_def quote_lit)
  have go: "emits m n (\<lambda>st. js_lit junk A st \<bind> (\<lambda>st. js_append junk e st \<bind> (\<lambda>st. js_lit junk C st \<bind> (\<lambda>st. Some (False, st)))))
      (str_of A @ json_escape s @ str_of C)"
    by (intro emit_steps e(2)) (simp_all add: A_def C_def lit_simps)
  show "emits m n (as_json_visit_symbol junk it kp (x, length s)) (json_val m n (VSymbol s))"
    unfolding j using go
  proof (rule emits_cong [rotated])
    fix st :: json_state
    assume "js_mode st = m"
    then have x: "extended st = ext" by (simp add: extended_def ext_def)
    show "as_json_visit_symbol junk it kp (x, length s) st = js_lit junk A st \<bind> (\<lambda>st. js_append junk e st \<bind> (\<lambda>st. js_lit junk C st \<bind>
        (\<lambda>st. Some (False, st))))"
      unfolding as_json_visit_symbol_def fst_conv snd_conv e(1) Option.bind.bind_lunit option.case Let_def x A_def C_def ..
  qed
qed

lemma emits_dbpointer:
  assumes "plain_text c" "c_string x 0 = Some c" "mem_read y 0 12 = Some i"
  shows "emits m n (as_json_visit_dbpointer junk it kp (x, k, y)) (json_val m n (VDBPointer c i))"
proof (rule emits_room)
  assume "length (json_val m n (VDBPointer c i)) \<le> 2 ^ 29"
  then have "length (json_escape c) \<le> 2 ^ 29" by (auto simp: json_dbpointer_def wrap_def split: if_splits)
  then obtain e where e: "bson_utf8_escape_for_json junk x (- 1) = Some (Some e)" "c_string e 0 = Some (json_escape c)"
    using escape_at(2) [OF assms(1)] assms(2) by blast
  let ?go = "\<lambda>a b c d. (\<lambda>st. js_lit junk a st \<bind> (\<lambda>st. js_append junk e st \<bind> (\<lambda>st. js_lit junk ''\"'' st \<bind> (\<lambda>st. js_lit junk b st \<bind> (\<lambda>st.
      js_append junk (bson_oid_to_string i) st \<bind> (\<lambda>st. js_lit junk c st \<bind> js_lit junk d))))))"
  have go: "prints m n (?go a b c' d) (str_of a @ json_escape c @ str_of ''\"'' @ str_of b @ hex_text i @ str_of c' @ str_of d)"
    if "no_nul (str_of a)" "no_nul (str_of b)" "no_nul (str_of c')" "no_nul (str_of d)" for a b c' d
    by (intro emit_steps e(2) oid_c_string that) (simp_all add: lit_simps)
  have "emits m n (\<lambda>st. (if extended st then ?go ''{ \"$dbPointer\" : { \"$ref\" : \"'' '', \"$id\" : { \"$oid\" : \"'' ''\" }'' '' } }'' st
      else ?go ''{ \"$ref\" : \"'' '', \"$id\" : \"'' ''\"'' '' }'' st) \<bind> (\<lambda>st. Some (False, st))) (json_val m n (VDBPointer c i))"
  proof (rule emits_last, rule prints_ext)
    assume "m \<noteq> BSON_JSON_MODE_LEGACY"
    then have j: "json_val m n (VDBPointer c i) = str_of ''{ \"$dbPointer\" : { \"$ref\" : \"'' @ json_escape c @ str_of ''\"'' @
        str_of '', \"$id\" : { \"$oid\" : \"'' @ hex_text i @ str_of ''\" }'' @ str_of '' } }''"
      by (simp add: json_dbpointer_def wrap_def, simp add: str_of_def)
    show "prints m n (?go ''{ \"$dbPointer\" : { \"$ref\" : \"'' '', \"$id\" : { \"$oid\" : \"'' ''\" }'' '' } }'') (json_val m n (VDBPointer c i))"
      unfolding j by (rule go) (simp_all add: lit_simps)
  next
    assume "m = BSON_JSON_MODE_LEGACY"
    then have j: "json_val m n (VDBPointer c i) = str_of ''{ \"$ref\" : \"'' @ json_escape c @ str_of ''\"'' @
        str_of '', \"$id\" : \"'' @ hex_text i @ str_of ''\"'' @ str_of '' }''"
      by (simp add: json_dbpointer_def wrap_def, simp add: str_of_def)
    show "prints m n (?go ''{ \"$ref\" : \"'' '', \"$id\" : \"'' ''\"'' '' }'') (json_val m n (VDBPointer c i))"
      unfolding j by (rule go) (simp_all add: lit_simps)
  qed
  then show "emits m n (as_json_visit_dbpointer junk it kp (x, k, y)) (json_val m n (VDBPointer c i))"
    by (simp only: as_json_visit_dbpointer_def [abs_def] fst_conv snd_conv e(1) assms(3) Option.bind.bind_lunit option.case)
qed

end
