(* ===== verification/Json_Exact.thy ===== *)
theory Json_Exact
  imports Json_Emit
begin

text \<open>The visit of an encoded document prints exactly its text.\<close>

subsection \<open>The fields\<close>

definition field_prints :: "json_mode \<Rightarrow> nat \<Rightarrow> bson_iter \<Rightarrow> (json_state \<Rightarrow> (bool \<times> bson_iter \<times> json_state) option) \<Rightarrow> bytes \<Rightarrow> bool" where
  "field_prints m n it r t \<longleftrightarrow> (\<forall>st. roomy m n t st \<longrightarrow> (\<exists>b. r st = Some (False, it, st\<lparr>js_str := b\<rparr>) \<and> adds t st b))"

lemma field_call: "emits m n (f it kp x) t \<Longrightarrow> field_prints m n it (\<lambda>st. call_visit (Some f) it kp (Some x) st) t"
  unfolding emits_def field_prints_def call_visit_def by fastforce

lemma json_visitor_fields:
  "visit_before (as_json_visitor junk D A C) = Some (as_json_visit_before junk)" "visit_after (as_json_visitor junk D A C) = None"
  "visit_double (as_json_visitor junk D A C) = Some (as_json_visit_double junk)" "visit_utf8 (as_json_visitor junk D A C) = Some (as_json_visit_utf8 junk)"
  "visit_document (as_json_visitor junk D A C) = D" "visit_array (as_json_visitor junk D A C) = A"
  "visit_binary (as_json_visitor junk D A C) = Some (as_json_visit_binary junk)"
  "visit_undefined (as_json_visitor junk D A C) = Some (as_json_visit_undefined junk)"
  "visit_oid (as_json_visitor junk D A C) = Some (as_json_visit_oid junk)" "visit_bool (as_json_visitor junk D A C) = Some (as_json_visit_bool junk)"
  "visit_date_time (as_json_visitor junk D A C) = Some (as_json_visit_date_time junk)"
  "visit_null (as_json_visitor junk D A C) = Some (as_json_visit_null junk)" "visit_regex (as_json_visitor junk D A C) = Some (as_json_visit_regex junk)"
  "visit_dbpointer (as_json_visitor junk D A C) = Some (as_json_visit_dbpointer junk)"
  "visit_code (as_json_visitor junk D A C) = Some (as_json_visit_code junk)" "visit_symbol (as_json_visitor junk D A C) = Some (as_json_visit_symbol junk)"
  "visit_codewscope (as_json_visitor junk D A C) = C" "visit_int32 (as_json_visitor junk D A C) = Some (as_json_visit_int32 junk)"
  "visit_timestamp (as_json_visitor junk D A C) = Some (as_json_visit_timestamp junk)"
  "visit_int64 (as_json_visitor junk D A C) = Some (as_json_visit_int64 junk)"
  "visit_maxkey (as_json_visitor junk D A C) = Some (as_json_visit_maxkey junk)" "visit_minkey (as_json_visitor junk D A C) = Some (as_json_visit_minkey junk)"
  "visit_decimal128 (as_json_visitor junk D A C) = Some (as_json_visit_decimal128 junk)"
  "visit_corrupt (as_json_visitor junk D A C) = Some as_json_visit_corrupt"
  by (simp_all add: as_json_visitor_def)

lemma plain_utf8: "plain_text s \<Longrightarrow> utf8_text True s"
proof -
  assume "plain_text s"
  then obtain cs where cs: "list_all scalar_value cs" "s = concat (map utf8_enc cs)" by (auto simp: plain_text_def)
  have "utf8_text True (concat (map utf8_enc cs))" using cs(1)
    by (induction cs) (auto intro!: utf8_end utf8_text.utf8_unit simp: utf8_unit_def)
  then show ?thesis by (simp add: cs(2))
qed

lemma plain_utf8_key: "plain_text s \<Longrightarrow> no_nul s \<Longrightarrow> utf8_text False s"
proof -
  assume "plain_text s" and n: "no_nul s"
  then obtain cs where cs: "list_all scalar_value cs" "s = concat (map utf8_enc cs)" by (auto simp: plain_text_def)
  have "no_nul (concat (map utf8_enc cs)) \<Longrightarrow> utf8_text False (concat (map utf8_enc cs))" using cs(1)
  proof (induction cs)
    case (Cons c cs)
    have "c \<noteq> 0"
    proof
      assume "c = 0"
      then show False using Cons.prems(1) by (simp add: utf8_enc_def)
    qed
    then show ?case using Cons by (auto intro!: utf8_text.utf8_unit simp: utf8_unit_def)
  qed (simp add: utf8_end)
  then show ?thesis using n by (simp add: cs(2))
qed

text \<open>What nested documents must do: the callbacks of the visitor print the text of the document.\<close>

definition nested_ok :: "json_mode \<Rightarrow> nat \<Rightarrow> (nat \<Rightarrow> u8) \<Rightarrow> (doc_view, json_state) visit \<Rightarrow> (doc_view, json_state) visit \<Rightarrow>
    (bytes \<times> nat \<times> doc_view, json_state) visit \<Rightarrow> bval \<Rightarrow> bool" where
  "nested_ok m n junk D A C v \<longleftrightarrow> (case v of
     VDocument es \<Rightarrow> (\<exists>f. D = Some f \<and> (\<forall>it kp x. at x 0 (enc_doc es) \<longrightarrow> emits m n (f it kp (x, length (enc_doc es))) (json_val m n v)))
   | VArray es \<Rightarrow> (\<exists>f. A = Some f \<and> (\<forall>it kp x. at x 0 (enc_doc es) \<longrightarrow> emits m n (f it kp (x, length (enc_doc es))) (json_val m n v)))
   | VCodeWScope c es \<Rightarrow> (\<exists>f. C = Some f \<and> (\<forall>it kp x y. take (length c + 1) x = c @ [0] \<and> at y 0 (enc_doc es) \<longrightarrow>
        emits m n (f it kp (x, length c, y, length (enc_doc es))) (json_val m n v)))
   | _ \<Rightarrow> True)"

lemma field_texts:
  assumes e: "elem_at it k v" and p: "printable m v"
    and v: "v = VUtf8 s \<or> v = VCode s \<or> v = VSymbol s"
  shows "field_prints m n it (visit_field (as_json_visitor junk D A C) it kp (vtype v)) (json_val m n v)"
proof -
  have pl: "plain_text s" using p v by auto
  have "\<exists>x. take (length s + 1) x = s @ [0] \<and> visit_field (as_json_visitor junk D A C) it kp (vtype v) = (\<lambda>st. call_visit
      (if vtype v = BSON_TYPE_UTF8 then visit_utf8 (as_json_visitor junk D A C) else if vtype v = BSON_TYPE_CODE
       then visit_code (as_json_visitor junk D A C) else visit_symbol (as_json_visitor junk D A C)) it kp (Some (x, length s)) st)"
  proof -
    obtain x where x: "iter_string (vtype v) it = Some (Some (x, length s))" "take (length s + 1) x = s @ [0]" "length s < 2 ^ 32"
      using elem_string [OF e v] by blast
    show ?thesis
      by (intro exI [of _ x] conjI x(2) ext) (use v x(1) visit_text_ok [OF x(2) refl x(3) plain_utf8 [OF pl]] in
        \<open>auto simp: visit_field_def bson_iter_utf8_def bson_iter_code_def bson_iter_symbol_def\<close>)
  qed
  then obtain x where x: "take (length s + 1) x = s @ [0]" and f: "visit_field (as_json_visitor junk D A C) it kp (vtype v) = (\<lambda>st. call_visit
      (if vtype v = BSON_TYPE_UTF8 then Some (as_json_visit_utf8 junk) else if vtype v = BSON_TYPE_CODE
       then Some (as_json_visit_code junk) else Some (as_json_visit_symbol junk)) it kp (Some (x, length s)) st)"
    unfolding json_visitor_fields by blast
  have u: "emits m n (as_json_visit_utf8 junk it kp (x, length s)) (json_val m n (VUtf8 s))"
    using emits_utf8 [OF pl x] by simp
  show ?thesis unfolding f using v
    by (auto intro!: field_call u emits_code emits_symbol pl x simp del: json_val.simps)
qed

lemma field_scalars:
  assumes e: "elem_at it k v" and p: "printable m v"
    and v: "vtype v \<notin> {BSON_TYPE_UTF8, BSON_TYPE_CODE, BSON_TYPE_SYMBOL, BSON_TYPE_DOCUMENT, BSON_TYPE_ARRAY, BSON_TYPE_CODEWSCOPE}"
  shows "field_prints m n it (visit_field (as_json_visitor junk D A C) it kp (vtype v)) (json_val m n v)"
proof -
  obtain bv where bv: "bson_iter_value it = Some (Some bv)" "denotes v bv" using elem_at_value [OF e] by blast
  have t: "ITER_TYPE it = Some (vtype v)" by (rule elem_at_type [OF e])
  note field = visit_field_types [of "as_json_visitor junk D A C" it kp, unfolded json_visitor_fields]
  show ?thesis
  proof (cases v)
    case (VDouble x)
    have "bson_iter_double it = Some x" using bv iter_value_simps(1) [of it] t VDouble by auto
    then show ?thesis unfolding VDouble vtype.simps field by (simp only:) (intro field_call emits_double)
  next
    case (VBinary ty b)
    then obtain x where x: "bv = BV_Binary ty x (length b)" "take (length b) x = b" using bv(2) denotes_binary by blast
    have "bson_iter_binary it = Some (ty, Some x, length b)" using bv(1) x(1) iter_value_simps(5) [of it] t VBinary by (auto simp: bind_Some_iff)
    then show ?thesis unfolding VBinary vtype.simps field
      by (simp only: Option.bind.bind_lunit prod.case) (intro field_call emits_binary x(2))
  next
    case VUndefined
    then show ?thesis unfolding VUndefined vtype.simps field by (intro field_call emits_constant)
  next
    case (VOid i)
    then obtain x where x: "bson_iter_oid it = Some (Some x)" "mem_read x 0 12 = Some i"
      using bv iter_value_simps(6) [of it] t by (auto simp: bind_Some_iff)
    then show ?thesis unfolding VOid vtype.simps field by (simp only: x(1) Option.bind.bind_lunit) (intro field_call emits_oid x(2))
  next
    case (VBool b)
    have "bson_iter_bool it = Some b" using bv iter_value_simps(7) [of it] t VBool by auto
    then show ?thesis unfolding VBool vtype.simps field by (simp only:) (intro field_call emits_constant)
  next
    case (VDateTime x)
    have "bson_iter_date_time it = Some x" using bv iter_value_simps(8) [of it] t VDateTime by auto
    then show ?thesis unfolding VDateTime vtype.simps field
      by (simp only:) (intro field_call emits_date, use p VDateTime in simp)
  next
    case VNull
    then show ?thesis unfolding VNull vtype.simps field by (intro field_call emits_constant)
  next
    case (VRegex r opt)
    then obtain x y where x: "bv = BV_Regex x y" "c_string x 0 = Some r" "c_string y 0 = Some opt" using bv(2) denotes_regex by blast
    have r: "bson_iter_regex it = Some (Some (x, y))" using bv(1) x(1) iter_value_simps(9) [of it] t VRegex by (auto simp: bind_Some_iff)
    have pl: "plain_text r" using p VRegex by simp
    obtain raw q where el: "on_element raw (i_len it) (vtype v) it" "q + length (enc_val v) < i_len it" using e unfolding elem_at_def by blast
    then have l: "length r < 2 ^ 32" using VRegex by (simp add: on_element_def)
    have "visit_text x (length r) (Some (as_json_visit_regex junk)) it kp (Some (x, y)) =
        (\<lambda>st. call_visit (Some (as_json_visit_regex junk)) it kp (Some (x, y)) st)"
      by (intro ext visit_text_ok [OF c_string_text [OF x(2)] refl l plain_utf8 [OF pl]])
    then show ?thesis unfolding VRegex vtype.simps field
      by (simp only: r x(2) Option.bind.bind_lunit prod.case) (intro field_call emits_regex pl x(2,3))
  next
    case (VDBPointer c i)
    then obtain x y where x: "bson_iter_dbpointer it = Some (Some (x, length c, y))" "take (length c + 1) x = c @ [0]" "take 12 y = i"
        "length c < 2 ^ 32" using elem_dbpointer e by blast
    have wf: "no_nul c" "length i = 12" using e VDBPointer unfolding elem_at_def by auto
    have pl: "plain_text c" using p VDBPointer by simp
    have "x = c @ 0 # drop (length c + 1) x" using append_take_drop_id [of "length c + 1" x] unfolding x(2) by simp
    then have cx: "c_string x 0 = Some c" using c_string_append [of 0 "[]" c] wf(1) by (metis append_Nil list.size(3))
    have "12 \<le> length y" using arg_cong [OF x(3), of length] wf(2) by simp
    then have my: "mem_read y 0 12 = Some i" using x(3) by (simp add: mem_read_def)
    have "visit_text x (length c) (Some (as_json_visit_dbpointer junk)) it kp (Some (x, length c, y)) =
        (\<lambda>st. call_visit (Some (as_json_visit_dbpointer junk)) it kp (Some (x, length c, y)) st)"
      by (intro ext visit_text_ok [OF x(2) refl x(4) plain_utf8 [OF pl]])
    then show ?thesis unfolding VDBPointer vtype.simps field
      by (simp only: x(1) Option.bind.bind_lunit prod.case) (intro field_call emits_dbpointer pl cx my)
  next
    case (VInt32 x)
    have "bson_iter_int32 it = Some x" using bv iter_value_simps(14) [of it] t VInt32 by auto
    then show ?thesis unfolding VInt32 vtype.simps field by (simp only:) (intro field_call emits_int32)
  next
    case (VTimestamp ts inc)
    have "bson_iter_timestamp it = Some (ts, inc)" using bv iter_value_simps(15) [of it] t VTimestamp by auto
    then show ?thesis unfolding VTimestamp vtype.simps field by (simp only:) (intro field_call emits_timestamp)
  next
    case (VInt64 x)
    have "bson_iter_int64 it = Some x" using bv iter_value_simps(16) [of it] t VInt64 by auto
    then show ?thesis unfolding VInt64 vtype.simps field by (simp only:) (intro field_call emits_int64)
  next
    case (VDecimal128 hi lo)
    have "bson_iter_decimal128 it = Some (Some (hi, lo))" using bv iter_value_simps(17) [of it] t VDecimal128 by (auto simp: bind_Some_iff)
    then show ?thesis unfolding VDecimal128 vtype.simps field
      by (simp only: Option.bind.bind_lunit) (intro field_call emits_decimal128, use p VDecimal128 in simp)
  next
    case VMaxKey
    then show ?thesis unfolding VMaxKey vtype.simps field by (intro field_call emits_constant)
  next
    case VMinKey
    then show ?thesis unfolding VMinKey vtype.simps field by (intro field_call emits_constant)
  qed (use v in simp_all)
qed


lemma field_nested:
  assumes e: "elem_at it k v" and p: "printable m v" and v: "v = VDocument es \<or> v = VArray es \<or> v = VCodeWScope c es"
    and N: "nested_ok m n junk D A C v"
  shows "field_prints m n it (visit_field (as_json_visitor junk D A C) it kp (vtype v)) (json_val m n v)"
proof (cases "v = VCodeWScope c es")
  case True
  then obtain x y where x: "bson_iter_codewscope it = Some (Some (x, length c, y, length (enc_doc es)))" "take (length c + 1) x = c @ [0]"
    "take (length (enc_doc es)) y = enc_doc es" "length c < 2 ^ 32" using elem_codewscope e by blast
  have pl: "utf8_text True c" using p True plain_utf8 by simp
  have tc: "take (length c) x = c" "length c \<le> length x" using take_text [OF x(2)] arg_cong [OF x(2), of length] by auto
  have u: "bson_utf8_validate x (length c) True = Some True" using utf8_validate_in [OF tc(2) x(4), of True] tc(1) pl by simp
  obtain raw p where "on_element raw (i_len it) (vtype v) it" "p + length (enc_val v) < i_len it" using e unfolding elem_at_def by blast
  then have "length (enc_doc es) \<le> INT_MAX" using True by (simp add: on_element_def enc_doc_def)
  note sv = static_view_doc [OF x(3) this]
  obtain f where f: "C = Some f" "\<forall>it kp x y. take (length c + 1) x = c @ [0] \<and> at y 0 (enc_doc es) \<longrightarrow>
        emits m n (f it kp (x, length c, y, length (enc_doc es))) (json_val m n v)" using N True by (auto simp: nested_ok_def)
  have "visit_field (as_json_visitor junk D A C) it kp (vtype v) =
      (\<lambda>st. call_visit (Some f) it kp (Some (x, length c, y, length (enc_doc es))) st)"
    by (intro ext) (simp add: True visit_field_types x(1) u visit_nested_def sv(1) json_visitor_fields f(1))
  then show ?thesis using f(2) x(2) sv(2) by (simp only:) (intro field_call, blast)
next
  case False
  then have d: "v = VDocument es \<or> v = VArray es" using v by blast
  from elem_document [OF e d] obtain x where
    x: "(if vtype v = BSON_TYPE_DOCUMENT then bson_iter_document it else bson_iter_array it) = Some (length (enc_doc es), Some x)"
      "static_view x (length (enc_doc es)) = Some True" "at x 0 (enc_doc es)" .
  obtain f where f: "(if vtype v = BSON_TYPE_DOCUMENT then D else A) = Some f"
      "\<forall>it kp x. at x 0 (enc_doc es) \<longrightarrow> emits m n (f it kp (x, length (enc_doc es))) (json_val m n v)"
    using N d by (auto simp: nested_ok_def)
  have "visit_field (as_json_visitor junk D A C) it kp (vtype v) = (\<lambda>st. call_visit (Some f) it kp (Some (x, length (enc_doc es))) st)"
    by (intro ext) (use d x(1,2) f(1) in \<open>auto simp: visit_field_def visit_nested_def json_visitor_fields\<close>)
  then show ?thesis using f(2) x(3) by (simp only:) (intro field_call, blast)
qed

lemma field_ok:
  assumes "elem_at it k v" "printable m v" "nested_ok m n junk D A C v"
  shows "field_prints m n it (visit_field (as_json_visitor junk D A C) it kp (vtype v)) (json_val m n v)"
proof -
  consider (t) s where "v = VUtf8 s \<or> v = VCode s \<or> v = VSymbol s" | (d) c es where "v = VDocument es \<or> v = VArray es \<or> v = VCodeWScope c es"
    | (s) "vtype v \<notin> {BSON_TYPE_UTF8, BSON_TYPE_CODE, BSON_TYPE_SYMBOL, BSON_TYPE_DOCUMENT, BSON_TYPE_ARRAY, BSON_TYPE_CODEWSCOPE}"
    by (cases v) simp_all
  then show ?thesis
    using field_texts [OF assms(1,2)] field_nested [OF assms(1,2) _ assms(3)] field_scalars [OF assms(1,2)] by cases blast+
qed

subsection \<open>The loop\<close>

lemma before_prints:
  assumes "plain_text k" "c_string kp 0 = Some k" "roomy m n ((if js_count st = 0 then [] else str_of '', '') @
      (if js_keys st then in_quotes (json_escape k) @ str_of '' : '' else []) @ u) st"
  obtains b where "as_json_visit_before junk it kp () st = Some (False, st\<lparr>js_str := b, js_count := add32 (js_count st) 1\<rparr>)"
    "adds ((if js_count st = 0 then [] else str_of '', '') @ (if js_keys st then in_quotes (json_escape k) @ str_of '' : '' else [])) st b"
proof -
  let ?a = "if js_count st = 0 then [] else str_of '', ''" and ?k = "if js_keys st then in_quotes (json_escape k) @ str_of '' : '' else []"
  have r: "roomy m n (?a @ ?k) st" using assms(3) roomy_parts(1) [of m n "?a @ ?k" u st] by simp
  have "prints m n (if js_count st \<noteq> 0 then js_lit junk '', '' else Some) ?a"
    using prints_lit [of "'', ''" m n junk] prints_none by (simp add: lit_simps)
  from printsE [OF this roomy_parts(1) [OF r]] obtain a where
    a1: "(if js_count st \<noteq> 0 then js_lit junk '', '' else Some) st = Some (st\<lparr>js_str := a\<rparr>)" and a2: "adds ?a st a" by blast
  have "(if js_count st \<noteq> 0 then js_lit junk '', '' st else Some st) = (if js_count st \<noteq> 0 then js_lit junk '', '' else Some) st" by simp
  note a = trans [OF this a1] a2
  have r2: "roomy m n ?k (st\<lparr>js_str := a\<rparr>)" by (rule roomy_parts(2) [OF r a(2)])
  show ?thesis
  proof (cases "js_keys st")
    case False
    have "as_json_visit_before junk it kp () st = Some (False, st\<lparr>js_str := a, js_count := add32 (js_count st) 1\<rparr>)"
      unfolding as_json_visit_before_def a(1) Option.bind.bind_lunit using False by simp
    then show ?thesis by (rule that) (use a(2) False in simp)
  next
    case True
    have "length ?k \<le> 2 ^ 29" using roomy_len(1) [OF r2] by simp
    then have "length (json_escape k) \<le> 2 ^ 29" using True by (simp add: in_quotes_def)
    then obtain e where e: "bson_utf8_escape_for_json junk kp (- 1) = Some (Some e)" "c_string e 0 = Some (json_escape k)"
      using escape_at(2) [OF assms(1)] assms(2) by blast
    have "prints m n (\<lambda>st. js_lit junk ''\"'' st \<bind> (\<lambda>st. js_append junk e st \<bind> js_lit junk ''\" : '')) (str_of ''\"'' @ json_escape k @ str_of ''\" : '')"
      by (intro emit_steps e(2)) (simp_all add: lit_simps)
    moreover have "str_of ''\"'' @ json_escape k @ str_of ''\" : '' = ?k" using True by (simp add: in_quotes_def lit_simps)
    ultimately have "prints m n (\<lambda>st. js_lit junk ''\"'' st \<bind> (\<lambda>st. js_append junk e st \<bind> js_lit junk ''\" : '')) ?k" by simp
    from printsE [OF this r2] obtain b where b: "js_lit junk ''\"'' (st\<lparr>js_str := a\<rparr>) \<bind> (\<lambda>st. js_append junk e st \<bind> js_lit junk ''\" : '') =
        Some (st\<lparr>js_str := a\<rparr>\<lparr>js_str := b\<rparr>)" "adds ?k (st\<lparr>js_str := a\<rparr>) b" by blast
    have "js_lit junk ''\"'' (st\<lparr>js_str := a\<rparr>) \<bind> (\<lambda>st. js_append junk e st \<bind> (\<lambda>st. js_lit junk ''\" : '' st \<bind> (\<lambda>st.
        Some (False, st\<lparr>js_count := add32 (js_count st) 1\<rparr>)))) =
      (js_lit junk ''\"'' (st\<lparr>js_str := a\<rparr>) \<bind> (\<lambda>st. js_append junk e st \<bind> js_lit junk ''\" : '')) \<bind> (\<lambda>st. Some (False, st\<lparr>js_count := add32 (js_count st) 1\<rparr>))"
      by (simp only: Option.bind_assoc)
    also have "\<dots> = Some (False, st\<lparr>js_str := b, js_count := add32 (js_count st) 1\<rparr>)" unfolding b(1) by simp
    finally have "as_json_visit_before junk it kp () st = Some (False, st\<lparr>js_str := b, js_count := add32 (js_count st) 1\<rparr>)"
      unfolding as_json_visit_before_def a(1) Option.bind.bind_lunit using True e(1) by simp
    then show ?thesis by (rule that) (rule adds_append [OF a(2) b(2)])
  qed
qed

text \<open>Where a visit ends: the iterator is used up without an error, and a further visit does nothing.\<close>

definition ended :: "bson_iter \<Rightarrow> bool" where
  "ended it \<longleftrightarrow> i_raw it = None \<and> i_err_off it = 0"

lemma visit_ended: "ended it \<Longrightarrow> bson_iter_visit_all V it d = Some (False, it, d)"
  by (simp add: bson_iter_visit_all.simps [of V it] ended_def bson_iter_next_internal_def visit_end_def)

lemma visit_none: "reads_at it [] \<Longrightarrow> \<exists>it'. bson_iter_visit_all V it d = Some (False, it', d) \<and> ended it'"
proof -
  assume "reads_at it []"
  then obtain it1 where n: "bson_iter_next_internal it = Some (False, BSON_TYPE_EOD, False, it1)" "ended it1"
    using next_end unfolding ended_def by blast
  then show ?thesis by (simp add: bson_iter_visit_all.simps [of V it] Let_def visit_end_def ended_def)
qed

definition view_prints :: "json_mode \<Rightarrow> json_state bson_visitor \<Rightarrow> elems \<Rightarrow> bool" where
  "view_prints m V es \<longleftrightarrow> (\<forall>it st. reads_at it es \<and> roomy m (js_depth st) (json_items m (js_depth st) (js_keys st) (js_count st = 0) es) st \<and>
       js_count st + length es < 2 ^ 32 \<longrightarrow>
     (\<exists>it' b. bson_iter_visit_all V it st = Some (False, it', st\<lparr>js_str := b, js_count := js_count st + length es\<rparr>) \<and> ended it' \<and>
       adds (json_items m (js_depth st) (js_keys st) (js_count st = 0) es) st b))"

lemma view_prints_Nil: "view_prints m V []"
  unfolding view_prints_def
proof (intro allI impI, elim conjE)
  fix it and st :: json_state
  assume rd: "reads_at it []" and r: "roomy m (js_depth st) (json_items m (js_depth st) (js_keys st) (js_count st = 0) []) st"
  from visit_none [OF rd, of V st] obtain it' where "bson_iter_visit_all V it st = Some (False, it', st)" "ended it'" by (elim exE conjE)
  moreover have "st\<lparr>js_str := js_str st, js_count := js_count st + length ([] :: elems)\<rparr> = st" by simp
  ultimately show "\<exists>it' b. bson_iter_visit_all V it st = Some (False, it', st\<lparr>js_str := b, js_count := js_count st + length ([] :: elems)\<rparr>) \<and> ended it' \<and>
       adds (json_items m (js_depth st) (js_keys st) (js_count st = 0) []) st b"
    using r by (intro exI [of _ it'] exI [of _ "js_str st"]) (simp add: adds_def roomy_def)
qed

lemma view_prints_Cons:
  assumes V: "V = as_json_visitor junk D A C" and rest: "view_prints m V es" and p: "plain_text k" "no_nul k" "printable m v"
    and N: "\<And>n. nested_ok m n junk D A C v"
  shows "view_prints m V ((k, v) # es)"
  unfolding view_prints_def
proof (intro allI impI, elim conjE)
  fix it and st :: json_state
  let ?n = "js_depth st"
  let ?a = "if js_count st = 0 then [] else str_of '', ''" and ?k = "if js_keys st then in_quotes (json_escape k) @ str_of '' : '' else []"
  let ?v = "json_val m ?n v" and ?r = "json_items m ?n (js_keys st) False es"
  let ?items = "json_items m ?n (js_keys st) (js_count st = 0) ((k, v) # es)"
  assume rd: "reads_at it ((k, v) # es)" and room: "roomy m ?n ?items st" and count: "js_count st + length ((k, v) # es) < 2 ^ 32"
  from visit_all_Cons [OF rd, of V] obtain it1 kp where it1: "elem_at it1 k v" "reads_at it1 es" "c_string kp 0 = Some k"
    "\<And>d. bson_iter_visit_all V it d = visit_one V it1 kp k (vtype v) d
       (visit_end V (it1\<lparr>i_err_off := i_off it1\<rparr>) (Some kp) (vtype v) False d) (bson_iter_visit_all V it1)" by metis
  have items: "?items = ((?a @ ?k) @ ?v) @ ?r" by simp
  have room1: "roomy m ?n (?a @ ?k @ (?v @ ?r)) st" using room by simp
  from before_prints [OF p(1) it1(3) room1, of junk it1] obtain b1 where
    b1: "as_json_visit_before junk it1 kp () st = Some (False, st\<lparr>js_str := b1, js_count := add32 (js_count st) 1\<rparr>)" "adds (?a @ ?k) st b1" .
  have c1: "add32 (js_count st) 1 = js_count st + 1" using count by simp
  let ?st1 = "st\<lparr>js_str := b1, js_count := js_count st + 1\<rparr>"
  have "roomy m ?n (?v @ ?r) (st\<lparr>js_str := b1\<rparr>)" by (rule roomy_parts(2) [OF _ b1(2)]) (use room1 in simp)
  then have room2: "roomy m ?n (?v @ ?r) ?st1" by (simp add: roomy_def)
  obtain b2 where b2: "visit_field V it1 kp (vtype v) ?st1 = Some (False, it1, ?st1\<lparr>js_str := b2\<rparr>)" "adds ?v ?st1 b2"
    using field_ok [OF it1(1) p(3) N] roomy_parts(1) [OF room2] unfolding field_prints_def V by blast
  let ?st2 = "?st1\<lparr>js_str := b2\<rparr>"
  have room3: "roomy m (js_depth ?st2) (json_items m (js_depth ?st2) (js_keys ?st2) (js_count ?st2 = 0) es) ?st2"
    using roomy_parts(2) [OF room2 b2(2)] by simp
  have "js_count ?st2 + length es < 2 ^ 32" using count by simp
  then obtain it' b3 where b3: "bson_iter_visit_all V it1 ?st2 = Some (False, it', ?st2\<lparr>js_str := b3, js_count := js_count ?st2 + length es\<rparr>)"
      "ended it'" "adds (json_items m (js_depth ?st2) (js_keys ?st2) (js_count ?st2 = 0) es) ?st2 b3"
    using rest [unfolded view_prints_def, THEN spec, THEN spec, THEN mp, of it1 ?st2] it1(2) room3 by blast
  have u: "utf8_text False k" by (rule plain_utf8_key [OF p(1,2)])
  have "bson_iter_visit_all V it st = Some (False, it', st\<lparr>js_str := b3, js_count := js_count st + length ((k, v) # es)\<rparr>)"
    using b1(1) b2(1) b3(1) u c1 unfolding it1(4) visit_one_def by (simp add: V json_visitor_fields call_visit_def)
  moreover have "adds ?items st b3"
  proof -
    have "adds ?v (st\<lparr>js_str := b1\<rparr>) b2" "adds ?r (st\<lparr>js_str := b2\<rparr>) b3" using b2(2) b3(3) by (simp_all add: adds_def)
    then show ?thesis unfolding items using adds_append [OF adds_append [OF b1(2)]] by blast
  qed
  ultimately show "\<exists>it' b. bson_iter_visit_all V it st = Some (False, it', st\<lparr>js_str := b, js_count := js_count st + length ((k, v) # es)\<rparr>) \<and> ended it' \<and>
       adds ?items st b" using b3(2) by blast
qed


end
