(* ===== verification/Json_Doc.thy ===== *)
theory Json_Doc
  imports Json_Exact
begin

text \<open>
  The printers as a whole: on every printable document the three of them return its text, with its length, and every
  string of the text is the escaped string of the document.
\<close>

subsection \<open>The text has no NUL\<close>

lemma json_escape_no_nul: "no_nul (json_escape s)"
proof -
  have "no_nul (if b < 0x80 then json_esc (unat b) else [b])" for b :: u8
    using json_esc_no_nul [of "unat b"] unat_u8_less [of b] by auto
  then show ?thesis unfolding json_escape_def by (induction s) simp_all
qed

lemma iso_no_nul: "no_nul (iso_text ms)"
proof -
  have "no_nul (printf_width 3 k)" for k
    using signed_no_nul [of k] by (auto simp: printf_width_def Let_def no_nul_def list_all_iff)
  then show ?thesis by (simp add: iso_text_def strftime_no_nul)
qed

lemma sorted_no_nul: "no_nul (sort_opts opt)"
  using sort_opts_no_nul by (simp add: sort_opts_def no_nul_def list_all_iff)

lemma d128_no_nul: "d128_coefficient (d128_bits hi lo) < 10 ^ 34 \<Longrightarrow> no_nul (d128_spec hi lo)"
  using to_string_spec [of "replicate 43 0" hi lo] c_string_no_nul by fastforce

lemmas text_no_nul = json_escape_no_nul iso_no_nul sorted_no_nul d128_no_nul printf_no_nul signed_no_nul decimal_no_nul
  hex_byte(1) oid_text(2) b64_text_no_nul

lemma val_no_nul:
  shows "printable m v \<Longrightarrow> no_nul (json_val m n v)"
    and "printables m es \<Longrightarrow> no_nul (json_items m n keys first es)"
proof (induction m n v and m n keys first es rule: json_val_json_items.induct)
qed (simp_all add: text_no_nul wrap_def in_quotes_def lit_simps json_double_def json_date_def json_binary_def json_regex_def json_dbpointer_def Let_def)

subsection \<open>Nested documents\<close>

lemma view_empty_doc:
  assumes "at x 0 (enc_doc es)"
  shows "view_empty (x, length (enc_doc es)) = Some (es = [])"
proof (cases es)
  case (Cons e r)
  obtain k v where e: "e = (k, v)" by fastforce
  have n: "length (enc_doc es) \<noteq> 5" unfolding Cons e by (simp add: length_enc_doc enc_elems_Cons length_enc_elem)
  have "at x 4 (enc_elems es @ [0])" using assms by (simp add: enc_doc_def frame_doc_def)
  then have "4 < length x" "x ! 4 = vtype v" unfolding Cons e by (simp_all add: enc_elems_Cons enc_elem_def)
  moreover have "vtype v \<noteq> 0" by (cases v) simp_all
  ultimately show ?thesis using n Cons by (simp add: view_empty_def rd8_def)
qed (simp add: view_empty_def enc_doc_def frame_doc_def)

lemma new_string_text:
  "no_nul (str_of s) \<Longrightarrow> length s < 2 ^ 31 \<Longrightarrow> \<exists>b. bson_string_new junk (Some (str_of s @ [0])) = Some b \<and> str_ok b \<and> str_text b = str_of s"
  using string_new_ok [OF c_string_whole, of "str_of s" junk] by (simp add: str_of_def)

lemma elems_count: "length es \<le> length (enc_elems es)"
proof (induction es)
  case (Cons e es)
  then show ?case by (cases e) (simp add: enc_elems_Cons length_enc_elem)
qed simp

text \<open>The visit of a document from an initial state whose string is the opening bracket.\<close>

lemma visit_text_doc:
  assumes V: "view_prints m V es" and x: "at x 0 (enc_doc es)" "length (enc_doc es) \<le> INT_MAX" "wf_elems es"
    and st: "js_mode st = m" "js_count st = 0" "str_ok (js_str st)" "str_text (js_str st) = str_of a"
    and cl: "no_nul (str_of c)" and room: "length (wrap a (json_items m (js_depth st) (js_keys st) True es) c) \<le> 2 ^ 29"
  shows "\<exists>it b b'. bson_iter_visit_all V (start_iter x (length (enc_doc es))) st = Some (False, it, st\<lparr>js_str := b, js_count := length es\<rparr>) \<and> ended it \<and>
     js_lit junk c (st\<lparr>js_str := b, js_count := length es\<rparr>) = Some (st\<lparr>js_str := b', js_count := length es\<rparr>) \<and>
     str_ok b' \<and> str_text b' = wrap a (json_items m (js_depth st) (js_keys st) True es) c"
proof -
  let ?n = "js_depth st" and ?t = "json_items m (js_depth st) (js_keys st) True es"
  have r: "roomy m ?n (?t @ str_of c) st" using st room by (simp add: roomy_def wrap_def)
  have "js_count st + length es < 2 ^ 32" using elems_count [of es] x(2) st(2) by (simp add: length_enc_doc)
  then obtain it b where v: "bson_iter_visit_all V (start_iter x (length (enc_doc es))) st = Some (False, it, st\<lparr>js_str := b, js_count := length es\<rparr>)"
      "adds ?t st b" "ended it"
    using V [unfolded view_prints_def, THEN spec, THEN spec, THEN mp, of "start_iter x (length (enc_doc es))" st]
      start_reads [OF x(3,2,1)] roomy_parts(1) [OF r] st(2) by auto
  have "roomy m ?n (str_of c) (st\<lparr>js_str := b, js_count := length es\<rparr>)" using roomy_parts(2) [OF r v(2)] by (simp add: roomy_def)
  from printsE [OF prints_lit [OF cl] this, of junk] obtain b' where
    l: "js_lit junk c (st\<lparr>js_str := b, js_count := length es\<rparr>) = Some (st\<lparr>js_str := b, js_count := length es\<rparr>\<lparr>js_str := b'\<rparr>)" and
    b2: "adds (str_of c) (st\<lparr>js_str := b, js_count := length es\<rparr>) b'" .
  have "js_lit junk c (st\<lparr>js_str := b, js_count := length es\<rparr>) = Some (st\<lparr>js_str := b', js_count := length es\<rparr>)" unfolding l by simp
  note b' = this b2
  have "str_ok b'" "str_text b' = wrap a ?t c" using b'(2) v(2) st(4) by (simp_all add: adds_def wrap_def)
  then show ?thesis using v(1,3) b'(1) by blast
qed

lemma nested_emits:
  assumes V: "view_prints m V es" and x: "at x 0 (enc_doc es)" "length (enc_doc es) \<le> INT_MAX" "wf_elems es" and p: "printables m es"
    and br: "no_nul (str_of a)" "no_nul (str_of c)" "length a \<le> 2"
  shows "emits m n (as_json_visit_nested junk V keys a c (x, length (enc_doc es)))
    (if BSON_MAX_RECURSION \<le> n then str_of ''{ ... }'' else wrap a (json_items m (n + 1) keys True es) c)"
proof (cases "BSON_MAX_RECURSION \<le> n")
  case True
  have "emits m n (\<lambda>st. js_lit junk ''{ ... }'' st \<bind> (\<lambda>st. Some (False, st))) (str_of ''{ ... }'')"
    by (intro emit_steps) (simp add: lit_simps)
  then have "emits m n (as_json_visit_nested junk V keys a c (x, length (enc_doc es))) (str_of ''{ ... }'')"
    unfolding emits_def by (simp add: as_json_visit_nested_def roomy_mode(2) True)
  then show ?thesis using True by simp
next
  case False
  let ?t = "wrap a (json_items m (n + 1) keys True es) c"
  have "emits m n (as_json_visit_nested junk V keys a c (x, length (enc_doc es))) ?t"
    unfolding emits_def
  proof (intro allI impI)
    fix st
    assume r: "roomy m n ?t st"
    obtain s where s: "bson_string_new junk (Some (str_of a @ [0])) = Some s" "str_ok s" "str_text s = str_of a"
      using new_string_text [OF br(1), of junk] br(3) by auto
    let ?c = "\<lparr>js_count = 0, js_keys = keys, js_err_offset = js_err_offset st, js_depth = js_depth st + 1, js_str = s, js_mode = js_mode st\<rparr>"
    have d: "js_depth st = n" "js_mode st = m" using r by (simp_all add: roomy_def)
    have "length ?t \<le> 2 ^ 29" using r by (simp add: roomy_def)
    then obtain it b b' where v: "bson_iter_visit_all V (start_iter x (length (enc_doc es))) ?c = Some (False, it, ?c\<lparr>js_str := b, js_count := length es\<rparr>)"
      "js_lit junk c (?c\<lparr>js_str := b, js_count := length es\<rparr>) = Some (?c\<lparr>js_str := b', js_count := length es\<rparr>)" "str_ok b'" "str_text b' = ?t"
      using visit_text_doc [OF V x, of ?c a c junk] s br(2) d by auto
    have "no_nul (str_text b')" unfolding v(4) using br(1,2) val_no_nul(2) [OF p] by (simp add: wrap_def)
    then have "c_string (s_str b') 0 = Some ?t" using str_text_c_string [OF v(3)] v(4) by simp
    from printsE [OF prints_append [OF this] r, of junk] obtain e where
      e: "js_append junk (s_str b') st = Some (st\<lparr>js_str := e\<rparr>)" "adds ?t st e" .
    have "as_json_visit_nested junk V keys a c (x, length (enc_doc es)) st = Some (False, st\<lparr>js_str := e\<rparr>)"
      using False length_enc_doc_ge [of es] v(1,2) e(1) by (simp add: as_json_visit_nested_def s(1) d)
    then show "\<exists>b. as_json_visit_nested junk V keys a c (x, length (enc_doc es)) st = Some (False, st\<lparr>js_str := b\<rparr>) \<and> adds ?t st b"
      using e(2) by blast
  qed
  then show ?thesis using False by simp
qed

text \<open>The whole of a document: the text with its length.\<close>

lemma visit_all_text:
  assumes V: "view_prints m V es" and x: "at x 0 (enc_doc es)" "length (enc_doc es) \<le> INT_MAX" "wf_elems es" and p: "printables m es"
    and room: "length (json_doc m es) \<le> 2 ^ 29"
  shows "\<exists>s. as_json_visit_all junk V (x, length (enc_doc es)) m = Some (Some (s, length (json_doc m es))) \<and> c_string s 0 = Some (json_doc m es)"
proof (cases "es = []")
  case True
  have "c_string (str_of ''{ }'' @ [0]) 0 = Some (str_of ''{ }'')" by (rule c_string_whole) (simp add: lit_simps)
  moreover have "length (str_of ''{ }'') = 3" by (simp add: str_of_def)
  moreover have "view_empty (x, length (enc_doc es)) = Some True" using view_empty_doc [OF x(1)] True by simp
  ultimately show ?thesis using True by (simp only: as_json_visit_all_def Option.bind.bind_lunit if_True json_doc_def bson_strdup_def) simp
next
  case False
  then have j: "json_doc m es = wrap ''{ '' (json_items m 0 True True es) '' }''" by (simp add: json_doc_def)
  have br: "no_nul (str_of ''{ '')" "no_nul (str_of '' }'')" by (simp_all add: lit_simps)
  obtain s where s: "bson_string_new junk (Some (str_of ''{ '' @ [0])) = Some s" "str_ok s" "str_text s = str_of ''{ ''"
    using new_string_text [OF br(1), of junk] by auto
  let ?c = "\<lparr>js_count = 0, js_keys = True, js_err_offset = -1, js_depth = 0, js_str = s, js_mode = m\<rparr>"
  obtain it b b' where v: "bson_iter_visit_all V (start_iter x (length (enc_doc es))) ?c = Some (False, it, ?c\<lparr>js_str := b, js_count := length es\<rparr>)"
    "js_lit junk '' }'' (?c\<lparr>js_str := b, js_count := length es\<rparr>) = Some (?c\<lparr>js_str := b', js_count := length es\<rparr>)" "str_ok b'"
    "str_text b' = json_doc m es"
    using visit_text_doc [OF V x, of ?c "''{ ''" "'' }''" junk] s br(2) room unfolding j by auto
  have "no_nul (str_text b')" unfolding v(4) j using br val_no_nul(2) [OF p] by (simp add: wrap_def)
  then have "c_string (s_str b') 0 = Some (json_doc m es)" using str_text_c_string [OF v(3)] v(4) by simp
  moreover have "s_len b' = length (json_doc m es)" using string_append_len [of b'] v(3,4) by simp
  ultimately show ?thesis using False length_enc_doc_ge [of es] v(1,2)
    by (simp add: as_json_visit_all_def view_empty_doc [OF x(1)] s(1) bson_string_free_def)
qed

lemma codewscope_emits:
  assumes V: "view_prints m V es" and y: "at y 0 (enc_doc es)" "length (enc_doc es) \<le> INT_MAX" "wf_elems es" and p: "printables m es"
    and c: "plain_text c" "take (length c + 1) x = c @ [0]"
  shows "emits m n (as_json_visit_codewscope junk V it kp (x, length c, y, length (enc_doc es))) (json_val m n (VCodeWScope c es))"
proof (rule emits_room)
  have j: "json_val m n (VCodeWScope c es) = str_of ''{ \"$code\" : \"'' @ json_escape c @ str_of ''\", \"$scope\" : '' @ json_doc m es @ str_of '' }''"
    by (simp add: wrap_def json_doc_def)
  assume "length (json_val m n (VCodeWScope c es)) \<le> 2 ^ 29"
  then have l: "length (json_escape c) \<le> 2 ^ 29" "length (json_doc m es) \<le> 2 ^ 29" unfolding j by simp_all
  obtain e where e: "bson_utf8_escape_for_json junk x (int (length c)) = Some (Some e)" "c_string e 0 = Some (json_escape c)"
    using escape_at(1) [OF c(1) l(1)] take_text [OF c(2)] by blast
  obtain s where s: "as_json_visit_all junk V (y, length (enc_doc es)) m = Some (Some (s, length (json_doc m es)))" "c_string s 0 = Some (json_doc m es)"
    using visit_all_text [OF V y p l(2)] by blast
  have "emits m n (\<lambda>st. js_lit junk ''{ \"$code\" : \"'' st \<bind> (\<lambda>st. js_append junk e st \<bind> (\<lambda>st. js_lit junk ''\", \"$scope\" : '' st \<bind>
      (\<lambda>st. js_append junk s st \<bind> (\<lambda>st. js_lit junk '' }'' st \<bind> (\<lambda>st. Some (False, st))))))) (json_val m n (VCodeWScope c es))"
    unfolding j by (intro emit_steps e(2) s(2)) (simp_all add: lit_simps)
  then show "emits m n (as_json_visit_codewscope junk V it kp (x, length c, y, length (enc_doc es))) (json_val m n (VCodeWScope c es))"
    by (rule emits_cong [rotated]) (simp add: as_json_visit_codewscope_def e(1) s(1))
qed

subsection \<open>The visitor of every depth\<close>

lemma visitors_print: "wf_elems es \<Longrightarrow> printables m es \<Longrightarrow> length (enc_elems es) \<le> n \<Longrightarrow> length (enc_elems es) + 5 \<le> INT_MAX \<Longrightarrow>
    view_prints m (bson_as_json_visitors junk n) es"
proof (induction n arbitrary: es)
  case 0
  then have "es = []" by (cases es) (auto simp: enc_elem_def)
  then show ?case using view_prints_Nil by simp
next
  case (Suc n)
  note fuel = Suc.IH
  let ?V = "bson_as_json_visitors junk n"
  from Suc.prems show ?case
  proof (induction es)
    case (Cons e es)
    obtain k v where e: "e = (k, v)" by fastforce
    have kv: "no_nul k" "wf_val v" "wf_elems es" "plain_text k" "printable m v" "printables m es" using Cons.prems(1,2) e by simp_all
    have len: "length (enc_val v) + 2 \<le> Suc n" "length (enc_val v) + 5 \<le> INT_MAX" "length (enc_elems es) \<le> Suc n" "length (enc_elems es) + 5 \<le> INT_MAX"
      using Cons.prems(3,4) e by (simp_all add: enc_elems_Cons length_enc_elem)
    have sub: "view_prints m ?V s \<and> length (enc_doc s) \<le> INT_MAX \<and> wf_elems s \<and> printables m s"
      if "v = VDocument s \<or> v = VArray s \<or> v = VCodeWScope c s" for s c
    proof -
      have w: "wf_elems s" "printables m s" "length (enc_doc s) \<le> length (enc_val v)" using that kv(2,5) by (auto simp: enc_doc_def)
      then have "length (enc_elems s) \<le> n" "length (enc_elems s) + 5 \<le> INT_MAX" "length (enc_doc s) \<le> INT_MAX" using len(1,2) by (simp_all add: length_enc_doc)
      then show ?thesis using fuel w by blast
    qed
    have br: "no_nul (str_of ''{ '')" "no_nul (str_of '' }'')" "no_nul (str_of ''[ '')" "no_nul (str_of '' ]'')" by (simp_all add: lit_simps)
    have nested: "nested_ok m d junk (Some (as_json_visit_document junk ?V)) (Some (as_json_visit_array junk ?V))
        (Some (as_json_visit_codewscope junk ?V)) v" for d
    proof -
      consider (doc) s where "v = VDocument s" | (arr) s where "v = VArray s" | (code) c s where "v = VCodeWScope c s"
        | (other) "\<nexists>s. v = VDocument s" "\<nexists>s. v = VArray s" "\<nexists>c s. v = VCodeWScope c s" by blast
      then show ?thesis
      proof cases
        case doc
        with nested_emits [of m ?V s _ "''{ ''" "'' }''" d junk True] sub [of s] br show ?thesis
          by (simp add: nested_ok_def as_json_visit_document_def [abs_def])
      next
        case arr
        with nested_emits [of m ?V s _ "''[ ''" "'' ]''" d junk False] sub [of s] br show ?thesis
          by (simp add: nested_ok_def as_json_visit_array_def [abs_def])
      next
        case code
        have "plain_text c" using kv(5) code by simp
        with codewscope_emits [of m ?V s _ c _ d junk] sub [of s c] code show ?thesis
          by (simp add: nested_ok_def del: json_val.simps)
      next
        case other
        then show ?thesis by (cases v) (simp_all add: nested_ok_def)
      qed
    qed
    have "view_prints m (bson_as_json_visitors junk (Suc n)) es" using Cons.IH kv(3,6) len(3,4) by blast
    from view_prints_Cons [OF bson_as_json_visitors.simps(2) this kv(4,1,5) nested] show ?case unfolding e .
  qed (rule view_prints_Nil)
qed

subsection \<open>The printers\<close>

lemma doc_view_text:
  assumes "rep H a es"
  obtains x where "doc_view_of H a = Some (x, length (enc_doc es))" "at x 0 (enc_doc es)"
proof -
  have "holds H a (enc_doc es)" using assms by (simp add: rep_def)
  then obtain d mem where d: "h_docs H a = Some d" "doc_mem H d = Some mem" "b_len d = length (enc_doc es)"
      "doc_off d + length (enc_doc es) \<le> length mem" "take (length (enc_doc es)) (drop (doc_off d) mem) = enc_doc es"
    by (auto elim!: holdsE)
  then have "at (drop (doc_off d) mem) 0 (enc_doc es)" by (simp add: at_def)
  then show ?thesis using d by (intro that) (simp_all add: doc_view_of_def)
qed

lemma view_text:
  assumes "at x 0 (enc_doc es)" "wf_elems es" "length (enc_doc es) \<le> INT_MAX" "printables m es" "length (json_doc m es) \<le> 2 ^ 29"
  shows "\<exists>s. as_json_view junk (x, length (enc_doc es)) m = Some (Some (s, length (json_doc m es))) \<and> c_string s 0 = Some (json_doc m es)"
proof -
  have "view_prints m (bson_as_json_visitors junk (length (enc_doc es))) es"
    by (rule visitors_print [OF assms(2,4)]) (use assms(3) in \<open>simp_all add: length_enc_doc\<close>)
  from visit_all_text [OF this assms(1,3,2,4,5)] show ?thesis by (simp add: as_json_view_def)
qed

text \<open>The printer of each mode: which entry point the properties speak of.\<close>

fun json_printer :: "json_mode \<Rightarrow> heap \<Rightarrow> addr \<Rightarrow> (bytes \<times> nat) option option" where
  "json_printer BSON_JSON_MODE_LEGACY = bson_as_json"
| "json_printer BSON_JSON_MODE_CANONICAL = bson_as_canonical_extended_json"
| "json_printer BSON_JSON_MODE_RELAXED = bson_as_relaxed_extended_json"

lemma json_printer_view: "json_printer m H a = do { doc \<leftarrow> doc_view_of H a; as_json_view (h_junk H) doc m }"
  by (cases m) (simp_all add: bson_as_json_def bson_as_canonical_extended_json_def bson_as_relaxed_extended_json_def)

text \<open>
  C5. \<open>bson_as_json\<close>, \<open>bson_as_canonical_extended_json\<close> and \<open>bson_as_relaxed_extended_json\<close> return, for every
  document whose strings are Unicode text, whose decimals have at most 34 digits and, in the relaxed mode, whose dates lie before
  the year 10000, what \<open>json_doc\<close> prescribes for their mode, with its length and NUL-terminated: nested
  documents, arrays and scopes included, with \<open>{ ... }\<close> in place of what lies deeper than 200 levels.
\<close>
theorem json_printers_exact:
  assumes "rep H a es" "wf_elems es" "length (enc_doc es) \<le> INT_MAX" "printables m es" "length (json_doc m es) \<le> 2 ^ 29"
  shows "\<exists>s. json_printer m H a = Some (Some (s, length (json_doc m es))) \<and> c_string s 0 = Some (json_doc m es)"
proof -
  obtain x where "doc_view_of H a = Some (x, length (enc_doc es))" "at x 0 (enc_doc es)" by (rule doc_view_text [OF assms(1)])
  then show ?thesis using view_text [OF _ assms(2,3,4,5)] by (simp add: json_printer_view)
qed

subsection \<open>Arrays\<close>

text \<open>\<^verbatim>\<open>bson_array_as_json\<close> prints the elements in brackets, without the keys.\<close>

definition json_array :: "elems \<Rightarrow> bytes" where
  "json_array es = (if es = [] then str_of ''[ ]'' else wrap ''[ '' (json_items BSON_JSON_MODE_LEGACY 0 False True es) '' ]'')"

lemma array_view_text:
  assumes x: "at x 0 (enc_doc es)" "wf_elems es" "length (enc_doc es) \<le> INT_MAX" and p: "printables BSON_JSON_MODE_LEGACY es"
    and room: "length (json_array es) \<le> 2 ^ 29"
  shows "\<exists>s. array_as_json_view junk (x, length (enc_doc es)) = Some (Some (s, length (json_array es))) \<and> c_string s 0 = Some (json_array es)"
proof (cases "es = []")
  case True
  have "c_string (str_of ''[ ]'' @ [0]) 0 = Some (str_of ''[ ]'')" by (rule c_string_whole) (simp add: lit_simps)
  moreover have "length (str_of ''[ ]'') = 3" by (simp add: str_of_def)
  moreover have "view_empty (x, length (enc_doc es)) = Some True" using view_empty_doc [OF x(1)] True by simp
  ultimately show ?thesis using True by (simp only: array_as_json_view_def Option.bind.bind_lunit if_True json_array_def bson_strdup_def) simp
next
  case False
  let ?V = "bson_as_json_visitors junk (length (enc_doc es))" and ?m = BSON_JSON_MODE_LEGACY
  from False have j: "json_array es = wrap ''[ '' (json_items ?m 0 False True es) '' ]''" by (simp add: json_array_def)
  have V: "view_prints ?m ?V es" by (rule visitors_print [OF x(2) p]) (use x(3) in \<open>simp_all add: length_enc_doc\<close>)
  have br: "no_nul (str_of ''[ '')" "no_nul (str_of '' ]'')" by (simp_all add: lit_simps)
  obtain s where s: "bson_string_new junk (Some (str_of ''[ '' @ [0])) = Some s" "str_ok s" "str_text s = str_of ''[ ''"
    using new_string_text [OF br(1), of junk] by auto
  let ?c = "\<lparr>js_count = 0, js_keys = False, js_err_offset = -1, js_depth = 0, js_str = s, js_mode = ?m\<rparr>"
  obtain it b b' where v: "bson_iter_visit_all ?V (start_iter x (length (enc_doc es))) ?c = Some (False, it, ?c\<lparr>js_str := b, js_count := length es\<rparr>)"
    "js_lit junk '' ]'' (?c\<lparr>js_str := b, js_count := length es\<rparr>) = Some (?c\<lparr>js_str := b', js_count := length es\<rparr>)" "str_ok b'"
    "str_text b' = json_array es" and e: "ended it"
    using visit_text_doc [OF V x(1,3,2), of ?c "''[ ''" "'' ]''" junk] s br(2) room unfolding j by auto
  have "no_nul (str_text b')" unfolding v(4) j using br val_no_nul(2) [OF p] by (simp add: wrap_def)
  then have "c_string (s_str b') 0 = Some (json_array es)" using str_text_c_string [OF v(3)] v(4) by simp
  moreover have "s_len b' = length (json_array es)" using string_append_len [of b'] v(3,4) by simp
  ultimately show ?thesis using False length_enc_doc_ge [of es] v(1,2)
    by (simp add: array_as_json_view_def view_empty_doc [OF x(1)] visit_ended [OF e] s(1) bson_string_free_def Let_def)
qed

subsection \<open>A sample\<close>

lemma plain_ascii: "list_all (\<lambda>b. unat b < 128) s \<Longrightarrow> plain_text s"
proof -
  assume s: "list_all (\<lambda>b. unat b < 128) s"
  then have "list_all scalar_value (map unat s)" by (auto simp: list_all_iff scalar_value_def)
  moreover have "s = concat (map utf8_enc (map unat s))" using s by (induction s) (simp_all add: utf8_enc_def)
  ultimately show ?thesis unfolding plain_text_def by blast
qed

definition print_sample :: elems where
  "print_sample = [(str_of ''n'', VInt32 7), (str_of ''s'', VUtf8 [0x22, 0x0A]), (str_of ''l'', VArray [([0x30], VBool True), ([0x31], VMinKey)])]"

lemma print_sample_facts:
  "length (enc_doc print_sample) \<le> 120" "wf_elems print_sample" "printables m print_sample"
  by (simp_all add: print_sample_def enc_simps enc_string_def enc_elem_def enc_doc_def frame_doc_def lit_simps plain_ascii)

lemma print_sample_doc:
  "json_doc BSON_JSON_MODE_CANONICAL print_sample =
     str_of (''{ \"n\" : { \"$numberInt\" : \"7\" }, \"s\" : \"'' @ CHR 0x5C # ''\"'' @ CHR 0x5C # ''n\", \"l\" : [ true, { \"$minKey\" : 1 } ] }'')"
  by (simp add: print_sample_def json_doc_def wrap_def in_quotes_def json_escape_def json_esc_def utf8_enc_def signed_decimal_def
      decimal.simps [of 7] lit_simps BSON_MAX_RECURSION_def)

lemma json_printers_exact_witness:
  "\<exists>s. bson_as_canonical_extended_json (set_doc empty_heap 0 (inline_sample print_sample)) 0 = Some (Some (s, 81)) \<and>
     c_string s 0 = Some (str_of (''{ \"n\" : { \"$numberInt\" : \"7\" }, \"s\" : \"'' @ CHR 0x5C # ''\"'' @ CHR 0x5C # ''n\", \"l\" : [ true, { \"$minKey\" : 1 } ] }''))"
proof -
  have l: "length (json_doc BSON_JSON_MODE_CANONICAL print_sample) = 81" unfolding print_sample_doc by (simp add: str_of_def)
  have "length (enc_doc print_sample) \<le> INT_MAX" using print_sample_facts(1) by simp
  from json_printers_exact [OF inline_sample_rep [OF print_sample_facts(1)] print_sample_facts(2) this print_sample_facts(3), of BSON_JSON_MODE_CANONICAL]
  show ?thesis unfolding l unfolding print_sample_doc by simp
qed

end
