(* ===== verification/Json_Valid.thy ===== *)
theory Json_Valid
  imports Json_Doc
begin

text \<open>
  The printed text is JSON. The tree it stands for is given by \<open>json_tree\<close>, after the tables of the MongoDB Extended JSON
  format: keys and strings are the bytes of the document, numbers their decimal texts.
\<close>

subsection \<open>The tree of a value\<close>

definition member1 :: "string \<Rightarrow> json \<Rightarrow> json" where
  "member1 k j = JObj [(str_of k, j)]"

definition member2 :: "string \<Rightarrow> json \<Rightarrow> string \<Rightarrow> json \<Rightarrow> json" where
  "member2 k j k' j' = JObj [(str_of k, j), (str_of k', j')]"

fun json_tree :: "json_mode \<Rightarrow> bval \<Rightarrow> json" and json_nodes :: "json_mode \<Rightarrow> elems \<Rightarrow> (bytes \<times> json) list" where
  "json_tree m (VDouble x) =
     (if m = BSON_JSON_MODE_LEGACY \<or> (m = BSON_JSON_MODE_RELAXED \<and> dbl_finite x) then JNum (json_float x)
      else member1 ''$numberDouble'' (JStr (if dbl_isnan x then str_of ''NaN''
        else if dbl_isinf x then str_of (if dbl_negative x then ''-Infinity'' else ''Infinity'') else json_float x)))"
| "json_tree m (VUtf8 s) = JStr s"
| "json_tree m (VDocument es) = JObj (json_nodes m es)"
| "json_tree m (VArray es) = JArr (map snd (json_nodes m es))"
| "json_tree m (VBinary st b) =
     (if m = BSON_JSON_MODE_LEGACY then member2 ''$binary'' (JStr (b64_text b)) ''$type'' (JStr (printf_02x st))
      else member1 ''$binary'' (member2 ''base64'' (JStr (b64_text b)) ''subType'' (JStr (printf_02x st))))"
| "json_tree m VUndefined = member1 ''$undefined'' (JBool True)"
| "json_tree m (VOid i) = member1 ''$oid'' (JStr (hex_text i))"
| "json_tree m (VBool b) = JBool b"
| "json_tree m (VDateTime x) = member1 ''$date''
     (if m = BSON_JSON_MODE_LEGACY then JNum (signed_decimal (sint x))
      else if m = BSON_JSON_MODE_RELAXED \<and> 0 \<le> sint x then JStr (iso_text (sint x))
      else member1 ''$numberLong'' (JStr (signed_decimal (sint x))))"
| "json_tree m VNull = JNull"
| "json_tree m (VRegex r opt) =
     (if m = BSON_JSON_MODE_LEGACY then member2 ''$regex'' (JStr r) ''$options'' (JStr (sort_opts opt))
      else member1 ''$regularExpression'' (member2 ''pattern'' (JStr r) ''options'' (JStr (sort_opts opt))))"
| "json_tree m (VDBPointer c i) =
     (if m = BSON_JSON_MODE_LEGACY then member2 ''$ref'' (JStr c) ''$id'' (JStr (hex_text i))
      else member1 ''$dbPointer'' (member2 ''$ref'' (JStr c) ''$id'' (member1 ''$oid'' (JStr (hex_text i)))))"
| "json_tree m (VCode c) = member1 ''$code'' (JStr c)"
| "json_tree m (VSymbol s) = (if m = BSON_JSON_MODE_LEGACY then JStr s else member1 ''$symbol'' (JStr s))"
| "json_tree m (VCodeWScope c es) = member2 ''$code'' (JStr c) ''$scope'' (JObj (json_nodes m es))"
| "json_tree m (VInt32 x) =
     (if m = BSON_JSON_MODE_CANONICAL then member1 ''$numberInt'' (JStr (signed_decimal (sint x))) else JNum (signed_decimal (sint x)))"
| "json_tree m (VTimestamp ts inc) = member1 ''$timestamp'' (member2 ''t'' (JNum (decimal (unat ts))) ''i'' (JNum (decimal (unat inc))))"
| "json_tree m (VInt64 x) =
     (if m = BSON_JSON_MODE_CANONICAL then member1 ''$numberLong'' (JStr (signed_decimal (sint x))) else JNum (signed_decimal (sint x)))"
| "json_tree m (VDecimal128 hi lo) = member1 ''$numberDecimal'' (JStr (d128_spec hi lo))"
| "json_tree m VMaxKey = member1 ''$maxKey'' (JNum (str_of ''1''))"
| "json_tree m VMinKey = member1 ''$minKey'' (JNum (str_of ''1''))"
| "json_nodes m [] = []"
| "json_nodes m ((k, v) # es) = (k, json_tree m v) # json_nodes m es"

text \<open>
  The limits: documents are nested at most \<^verbatim>\<open>BSON_MAX_RECURSION\<close> levels deep (the scope of a code begins anew), and in
  the legacy mode, which writes \<^verbatim>\<open>nan\<close> and \<^verbatim>\<open>inf\<close>, the doubles are finite.
\<close>

fun json_able :: "json_mode \<Rightarrow> nat \<Rightarrow> bval \<Rightarrow> bool" and json_ables :: "json_mode \<Rightarrow> nat \<Rightarrow> elems \<Rightarrow> bool" where
  "json_able m n (VDouble x) \<longleftrightarrow> m = BSON_JSON_MODE_LEGACY \<longrightarrow> dbl_finite x"
| "json_able m n (VDocument es) \<longleftrightarrow> n < BSON_MAX_RECURSION \<and> json_ables m (n + 1) es"
| "json_able m n (VArray es) \<longleftrightarrow> n < BSON_MAX_RECURSION \<and> json_ables m (n + 1) es"
| "json_able m n (VCodeWScope c es) \<longleftrightarrow> json_ables m 0 es"
| "json_able m n _ \<longleftrightarrow> True"
| "json_ables m n [] \<longleftrightarrow> True"
| "json_ables m n ((k, v) # es) \<longleftrightarrow> json_able m n v \<and> json_ables m n es"

subsection \<open>Strings\<close>

definition bare :: "bytes \<Rightarrow> bool" where
  "bare s \<longleftrightarrow> list_all (\<lambda>b. 32 \<le> unat b \<and> unat b < 128 \<and> b \<noteq> 0x22 \<and> b \<noteq> 0x5C) s"

lemma bare_simps [simp]:
  "bare []" "bare (b # s) \<longleftrightarrow> 32 \<le> unat b \<and> unat b < 128 \<and> b \<noteq> 0x22 \<and> b \<noteq> 0x5C \<and> bare s" "bare (s @ t) \<longleftrightarrow> bare s \<and> bare t"
  by (auto simp: bare_def)

lemma bare_subset: "bare s \<Longrightarrow> set t \<subseteq> set s \<Longrightarrow> bare t"
  by (auto simp: bare_def list_all_iff)

lemma utf8_units: "list_all (\<lambda>b. 0 < unat b \<and> unat b < 128) xs \<Longrightarrow> utf8_text an r \<Longrightarrow> utf8_text an (xs @ r)"
proof (induction xs)
  case (Cons b xs)
  have "utf8_unit an [b]" using Cons.prems by (auto simp: utf8_unit_def scalar_value_def utf8_enc_def intro!: exI [of _ "unat b"])
  from utf8_text.utf8_unit [OF this Cons.IH] Cons.prems show ?case by simp
qed simp

lemma bare_string: "bare s \<Longrightarrow> json_string s (in_quotes s)"
proof -
  assume b: "bare s"
  have "json_unescape (s @ []) = map_option ((@) s) (json_unescape [])"
    by (rule json_unescape_plain) (use b in \<open>auto simp: bare_def list_all_iff\<close>)
  moreover have "utf8_text False (s @ [])" by (rule utf8_units) (use b in \<open>auto simp: bare_def list_all_iff utf8_end\<close>)
  ultimately show ?thesis by (auto simp: json_string_def in_quotes_def)
qed

lemma json_esc_utf8:
  assumes "scalar_value c" "utf8_text False r"
  shows "utf8_text False (json_esc c @ r)"
proof (cases "c < 32 \<or> c = 0x22 \<or> c = 0x5C")
  case True
  have h: "hex_lower (c div 16) \<noteq> 0 \<and> unat (hex_lower (c div 16)) < 128 \<and> hex_lower (c mod 16) \<noteq> 0 \<and> unat (hex_lower (c mod 16)) < 128" if "c < 32"
    using that hex_lower_u8 [of "c div 16"] hex_lower_u8 [of "c mod 16"] hex_lower_nz [of "c div 16"] hex_lower_nz [of "c mod 16"] by auto
  show ?thesis
  proof (rule utf8_units [OF _ assms(2)])
    show "list_all (\<lambda>b. 0 < unat b \<and> unat b < 128) (json_esc c)" using True h by (auto simp: json_esc_def unat_gt_0)
  qed
next
  case False
  then have "utf8_unit False (json_esc c)" using assms(1) by (auto simp: json_esc_def utf8_unit_def)
  then show ?thesis by (rule utf8_text.utf8_unit [OF _ assms(2)])
qed

lemma plain_string: "plain_text s \<Longrightarrow> json_string s (in_quotes (json_escape s))"
proof -
  assume "plain_text s"
  then obtain cs where cs: "list_all scalar_value cs" "s = concat (map utf8_enc cs)" by (auto simp: plain_text_def)
  have "json_unescape (json_escape (concat (map utf8_enc cs))) = Some (concat (map utf8_enc cs)) \<and>
      utf8_text False (json_escape (concat (map utf8_enc cs)))" using cs(1)
  proof (induction cs)
    case Nil
    then show ?case by (simp add: json_escape_def utf8_end)
  next
    case (Cons c cs)
    then have c: "scalar_value c" "c < 0x110000" by (auto simp: scalar_value_def)
    show ?case using Cons json_unescape_esc [OF c(2)] json_esc_utf8 [OF c(1)] by (simp add: json_escape_char [OF c(1)])
  qed
  then show ?thesis unfolding json_string_def in_quotes_def cs(2) by blast
qed

subsection \<open>Numbers and other texts\<close>

lemma decimal_int: "json_int (decimal n)"
proof (cases "n = 0")
  case True
  then show ?thesis by (simp add: json_int_def decimal.simps [of 0])
next
  case False
  have "decimal n \<noteq> []" by (subst decimal.simps) simp
  then show ?thesis using digit_json [OF decimal_digits] decimal_hd [of n] False by (simp add: json_int_def)
qed

lemma signed_number: "json_number (signed_decimal i)"
proof -
  have "json_number (s @ decimal k @ [] @ [])" if "s \<in> {[], [0x2D]}" for s k
    unfolding json_number_def
    by (intro exI [of _ s] exI [of _ "decimal k"] exI [of _ "[]"]) (use that decimal_int in \<open>simp add: json_frac_def json_exp_def\<close>)
  from this [of "[]"] this [of "[0x2D]"] show ?thesis by (auto simp: signed_decimal_def)
qed

lemma decimal_number: "json_number (decimal n)"
  using signed_number [of "int n"] by (simp add: signed_decimal_def)

lemma one_number: "json_number (str_of ''1'')"
proof -
  have "decimal 1 = str_of ''1''" by (subst decimal.simps) (simp add: lit_simps)
  then show ?thesis using decimal_number [of 1] by simp
qed

lemma float_number: "dbl_finite x \<Longrightarrow> json_number (json_float x)"
  using number_point_zero [OF printf_20g_number] printf_20g_number by (simp add: json_float_def Let_def)

lemma digits_bare: "list_all c_isdigit s \<Longrightarrow> bare s"
proof -
  have "32 \<le> unat b \<and> unat b < 128 \<and> b \<noteq> 0x22 \<and> b \<noteq> 0x5C" if "c_isdigit b" for b
    using that by (auto simp: c_isdigit_def word_le_nat_alt)
  then show "list_all c_isdigit s \<Longrightarrow> bare s" by (auto simp: bare_def list_all_iff)
qed

lemma decimal_bare: "bare (decimal n)" "bare (signed_decimal i)"
  using digits_bare [OF decimal_digits] by (simp_all add: signed_decimal_def)

lemma number_bare: "json_number s \<Longrightarrow> bare s"
proof -
  assume "json_number s"
  then obtain m i f e where s: "s = m @ i @ f @ e" "m \<in> {[], [0x2D]}" "json_int i" "json_frac f" "json_exp e"
    unfolding json_number_def by blast
  have d: "bare x" if "json_digits x" for x
    using that digits_bare [of x] by (simp add: json_digits_def c_isdigit_def [abs_def])
  have "bare m" "bare i" using s(2,3) d by (auto simp: json_int_def)
  moreover have "bare f" using s(4) d by (cases f) (auto simp: json_frac_def)
  moreover have "bare e"
  proof (cases "e = []")
    case False
    then obtain c r where e: "e = c # r" by (cases e) auto
    show ?thesis using s(5) d [of r] d [of "tl r"] unfolding e by (cases r) (auto simp: json_exp_def json_digits_def)
  qed simp
  ultimately show ?thesis by (simp add: s(1))
qed

lemma float_bare: "bare (json_float x)"
proof (cases "dbl_finite x")
  case True
  then show ?thesis by (rule number_bare [OF float_number])
next
  case False
  then have "bare (printf_20g x)" by (auto simp: printf_20g_def dbl_finite_def dbl_isnan_def dbl_isinf_def lit_simps)
  then show ?thesis by (simp add: json_float_def Let_def lit_simps)
qed

lemma digit_bare: "bare [digit_char n]"
proof -
  have "unat (digit_char n) \<noteq> unat (0x22 :: u8)" "unat (digit_char n) \<noteq> unat (0x5C :: u8)" using digit_byte [of n] by auto
  moreover have "n mod 10 < 10" by simp
  ultimately show ?thesis using digit_byte [of n] by (auto simp del: unsigned_numeral)
qed

lemma iso_bare: "bare (iso_text ms)"
proof -
  have "bare (two_digits n)" for n using digit_bare by (simp add: two_digits_def)
  moreover have "bare (replicate n 0x20)" for n by (simp add: bare_def list_all_iff)
  ultimately show ?thesis using decimal_bare(2) by (simp add: iso_text_def strftime_iso_def printf_width_def Let_def)
qed

lemma hex_bare: "bare (printf_02x b)" "bare (hex_text i)"
proof -
  have h: "bare [hex_lower n]" if "n < 16" for n
    using hex_lower_u8 [OF that] that by (auto simp: word_unat_eq_iff)
  have "unat b div 16 < 16" for b :: u8 using unat_u8_less [of b] by (simp add: div_less_iff_less_mult)
  then have "bare (printf_02x b)" for b using h [of "unat b div 16"] h [of "unat b mod 16"] by (simp add: printf_02x_def)
  then show "bare (printf_02x b)" "bare (hex_text i)" by - (assumption, induction i, simp_all add: hex_text_def)
qed

lemma b64_bare: "bare (b64_text x)"
proof -
  have "bare Base64" by (simp add: Base64_def str_of_def of_char_def)
  moreover have l: "d mod 64 < length Base64" for d :: nat by (simp add: Base64_def str_of_def)
  ultimately have "bare [b64_digit d]" for d
    using nth_mem [OF l [of d]] by (auto simp: b64_digit_def bare_def list_all_iff simp del: nth_mem)
  then show ?thesis by (induction x rule: b64_text.induct) (simp_all add: b64_text.simps Let_def Pad64_def)
qed

lemma opts_bare: "bare (sort_opts opt)"
  by (rule bare_subset [of BSON_REGEX_OPTIONS_SORTED]) (auto simp: sort_opts_def BSON_REGEX_OPTIONS_SORTED_def)

lemma d128_bare: "bare (d128_spec hi lo)"
proof -
  have p: "bare (take k (decimal c))" "bare (drop k (decimal c))" "bare (tl (decimal c))" "bare [hd (decimal c)]" for k c
  proof -
    have "decimal c \<noteq> []" by (subst decimal.simps) simp
    then have "set [hd (decimal c)] \<subseteq> set (decimal c)" "set (tl (decimal c)) \<subseteq> set (decimal c)" by (cases "decimal c"; auto)+
    from bare_subset [OF decimal_bare(1) this(1)] bare_subset [OF decimal_bare(1) this(2)]
    show "bare [hd (decimal c)]" "bare (tl (decimal c))" .
    show "bare (take k (decimal c))" "bare (drop k (decimal c))"
      by (rule bare_subset [OF decimal_bare(1) set_take_subset], rule bare_subset [OF decimal_bare(1) set_drop_subset])
  qed
  have "bare (plus_decimal k)" for k using decimal_bare(1) by (simp add: plus_decimal_def)
  moreover have "bare (replicate k 0x30)" for k by (simp add: bare_def list_all_iff)
  ultimately have "bare (d128_text c e)" for c e using p decimal_bare(1) by (simp add: d128_text_def Let_def)
  then show ?thesis by (simp add: d128_spec_def Let_def lit_simps)
qed

lemmas bare_texts = decimal_bare float_bare iso_bare hex_bare b64_bare opts_bare d128_bare

subsection \<open>Objects\<close>

lemma ws_simps: "json_ws []" "json_ws [0x20]"
  by (simp_all add: json_ws_def)

definition object1 :: "string \<Rightarrow> bytes \<Rightarrow> bytes" where
  "object1 k s = str_of ''{ '' @ in_quotes (str_of k) @ str_of '' : '' @ s @ str_of '' }''"

definition object2 :: "string \<Rightarrow> bytes \<Rightarrow> string \<Rightarrow> bytes \<Rightarrow> bytes" where
  "object2 k s k' s' = str_of ''{ '' @ in_quotes (str_of k) @ str_of '' : '' @ s @ str_of '', '' @ in_quotes (str_of k') @ str_of '' : '' @ s' @ str_of '' }''"

lemma member_text: "json_string k ks \<Longrightarrow> json_text j s \<Longrightarrow> json_ws d \<Longrightarrow> json_members [(k, j)] (str_of '' '' @ ks @ str_of '' : '' @ s @ d)"
  using members_one [OF ws_simps(2) _ ws_simps(2) ws_simps(2), of k ks j s d] by (simp add: lit_simps)

lemma object1_text: "bare (str_of k) \<Longrightarrow> json_text j s \<Longrightarrow> json_text (member1 k j) (object1 k s)"
  using text_obj [OF member_text [OF bare_string _ ws_simps(2)], of "str_of k" j s] by (simp add: member1_def object1_def lit_simps)

lemma object2_text:
  assumes "bare (str_of k)" "bare (str_of k')" "json_text j s" "json_text j' s'"
  shows "json_text (member2 k j k' j') (object2 k s k' s')"
proof -
  have "json_members [(str_of k, j)] (str_of '' '' @ in_quotes (str_of k) @ str_of '' : '' @ s @ [])"
    by (rule member_text [OF bare_string [OF assms(1)] assms(3) ws_simps(1)])
  moreover have "json_members [(str_of k', j')] (str_of '' '' @ in_quotes (str_of k') @ str_of '' : '' @ s' @ [0x20])"
    by (rule member_text [OF bare_string [OF assms(2)] assms(4) ws_simps(2)])
  ultimately have "json_members ([(str_of k, j)] @ [(str_of k', j')]) ((str_of '' '' @ in_quotes (str_of k) @ str_of '' : '' @ s @ []) @ [0x2C] @
      (str_of '' '' @ in_quotes (str_of k') @ str_of '' : '' @ s' @ [0x20]))" by (intro members_more) simp_all
  from text_obj [OF this] show ?thesis by (simp add: member2_def object2_def lit_simps)
qed

text \<open>Two places are spaced in another way: \<^verbatim>\<open>"base64":\<close>, and the end of a canonical \<^verbatim>\<open>$numberLong\<close>.\<close>

lemma base64_text:
  "json_text j s \<Longrightarrow> json_text j' s' \<Longrightarrow> json_text (member2 ''base64'' j ''subType'' j')
     (str_of ''{ \"base64\": '' @ s @ str_of '', \"subType\" : '' @ s' @ str_of '' }'')"
proof -
  assume j: "json_text j s" "json_text j' s'"
  have k: "bare (str_of ''base64'')" "bare (str_of ''subType'')" by (simp_all add: lit_simps)
  have "json_members [(str_of ''base64'', j)] ([0x20] @ in_quotes (str_of ''base64'') @ [] @ [0x3A] @ [0x20] @ s @ [])"
    by (intro members_one ws_simps bare_string k j)
  moreover have "json_members [(str_of ''subType'', j')] (str_of '' '' @ in_quotes (str_of ''subType'') @ str_of '' : '' @ s' @ [0x20])"
    by (rule member_text [OF bare_string [OF k(2)] j(2) ws_simps(2)])
  ultimately have "json_members ([(str_of ''base64'', j)] @ [(str_of ''subType'', j')]) (([0x20] @ in_quotes (str_of ''base64'') @ [] @ [0x3A] @ [0x20] @ s @ []) @
      [0x2C] @ (str_of '' '' @ in_quotes (str_of ''subType'') @ str_of '' : '' @ s' @ [0x20]))" by (intro members_more) simp_all
  from text_obj [OF this] show ?thesis by (simp add: member2_def in_quotes_def lit_simps)
qed

lemma number_long_text:
  "json_text j s \<Longrightarrow> json_text (member1 ''$numberLong'' j) (str_of ''{ \"$numberLong\" : '' @ s @ str_of ''}'')"
  using text_obj [OF member_text [OF bare_string _ ws_simps(1)], of "str_of ''$numberLong''" j s]
  by (simp add: member1_def in_quotes_def lit_simps)

lemmas object_texts = object1_text object2_text base64_text number_long_text
lemmas object_defs = object1_def object2_def in_quotes_def wrap_def lit_simps

subsection \<open>Values and documents\<close>

lemma bare_text: "bare s \<Longrightarrow> json_text (JStr s) (in_quotes s)"
  by (rule text_str [OF bare_string])

lemma plain_text_json: "plain_text s \<Longrightarrow> json_text (JStr s) (in_quotes (json_escape s))"
  by (rule text_str [OF plain_string])

lemma items_rest: "es \<noteq> [] \<Longrightarrow> json_items m n keys False es = str_of '', '' @ json_items m n keys True es"
  by (cases es) auto

lemma items_members:
  assumes k: "plain_text k" and v: "json_text j s" and r: "json_members ms (str_of '' '' @ json_items m n True True es @ [0x20])"
    and e: "es = [] \<longleftrightarrow> ms = []"
  shows "json_members ((k, j) # ms) (str_of '' '' @ (in_quotes (json_escape k) @ str_of '' : '' @ s @ json_items m n True False es) @ [0x20])"
proof (cases "es = []")
  case True
  then show ?thesis using member_text [OF plain_string [OF k] v ws_simps(2)] e by simp
next
  case False
  have "json_members [(k, j)] (str_of '' '' @ in_quotes (json_escape k) @ str_of '' : '' @ s @ [])"
    by (rule member_text [OF plain_string [OF k] v ws_simps(1)])
  from members_more [OF this _ r] False e
  have "json_members ([(k, j)] @ ms) ((str_of '' '' @ in_quotes (json_escape k) @ str_of '' : '' @ s @ []) @ [0x2C] @
      (str_of '' '' @ json_items m n True True es @ [0x20]))" by simp
  then show ?thesis by (simp add: items_rest [OF False] lit_simps)
qed

lemma items_elements:
  assumes v: "json_text j s" and r: "json_elements js (str_of '' '' @ json_items m n False True es @ [0x20])" and e: "es = [] \<longleftrightarrow> js = []"
  shows "json_elements (j # js) (str_of '' '' @ (s @ json_items m n False False es) @ [0x20])"
proof (cases "es = []")
  case True
  then show ?thesis using elements_one [OF ws_simps(2) v ws_simps(2)] e by (simp add: lit_simps)
next
  case False
  have "json_elements [j] ([0x20] @ s @ [])" by (rule elements_one [OF ws_simps(2) v ws_simps(1)])
  from elements_more [OF this _ r] False e
  have "json_elements ([j] @ js) (([0x20] @ s @ []) @ [0x2C] @ (str_of '' '' @ json_items m n False True es @ [0x20]))" by simp
  then show ?thesis by (simp add: items_rest [OF False] lit_simps)
qed


lemma nodes_empty: "json_nodes m es = [] \<longleftrightarrow> es = []"
  by (cases es) auto

lemma bare_keys:
  "bare (str_of ''$numberDouble'')" "bare (str_of ''$binary'')" "bare (str_of ''$type'')" "bare (str_of ''$undefined'')" "bare (str_of ''$oid'')"
  "bare (str_of ''$date'')" "bare (str_of ''$regex'')" "bare (str_of ''$options'')" "bare (str_of ''$regularExpression'')" "bare (str_of ''pattern'')"
  "bare (str_of ''options'')" "bare (str_of ''$ref'')" "bare (str_of ''$id'')" "bare (str_of ''$dbPointer'')" "bare (str_of ''$code'')"
  "bare (str_of ''$symbol'')" "bare (str_of ''$scope'')" "bare (str_of ''$numberInt'')" "bare (str_of ''$timestamp'')" "bare (str_of ''t'')"
  "bare (str_of ''i'')" "bare (str_of ''$numberDecimal'')" "bare (str_of ''$maxKey'')" "bare (str_of ''$minKey'')"
  "bare (str_of ''NaN'')" "bare (str_of ''Infinity'')" "bare (str_of ''-Infinity'')"
  by (simp_all add: lit_simps)

lemmas text_steps = object_texts bare_keys bare_text plain_text_json text_num signed_number decimal_number one_number bare_texts text_bool text_null

lemma text_eq: "json_text j s \<Longrightarrow> s = t \<Longrightarrow> json_text j t"
  by simp

lemma double_text:
  assumes "m = BSON_JSON_MODE_LEGACY \<Longrightarrow> dbl_finite x"
  shows "json_text (json_tree m (VDouble x)) (json_val m n (VDouble x))"
proof (cases "m = BSON_JSON_MODE_LEGACY \<or> (m = BSON_JSON_MODE_RELAXED \<and> dbl_finite x)")
  case True
  then have "json_text (JNum (json_float x)) (json_float x)" by (intro text_num float_number) (use assms in auto)
  then show ?thesis using True by (simp add: json_double_def json_float_def Let_def)
next
  case False
  let ?t = "if dbl_isnan x then str_of ''NaN'' else if dbl_isinf x then str_of (if dbl_negative x then ''-Infinity'' else ''Infinity'') else json_float x"
  have "bare ?t" using bare_keys float_bare by simp
  then have "json_text (member1 ''$numberDouble'' (JStr ?t)) (object1 ''$numberDouble'' (in_quotes ?t))" by (intro text_steps)
  moreover have "json_val m n (VDouble x) = object1 ''$numberDouble'' (in_quotes ?t)"
    using False unfolding json_val.simps json_double_def Let_def json_float_def object1_def in_quotes_def wrap_def
    by (simp only: if_False) (simp add: lit_simps)
  ultimately show ?thesis unfolding json_tree.simps if_not_P [OF False] by simp
qed

lemma date_text_json:
  assumes "printable m (VDateTime x)"
  shows "json_text (json_tree m (VDateTime x)) (json_val m n (VDateTime x))"
proof -
  let ?d = "signed_decimal (sint x)"
  have a: "json_text (member1 ''$date'' (JNum ?d)) (object1 ''$date'' ?d)" by (intro text_steps)
  have b: "json_text (member1 ''$date'' (JStr (iso_text (sint x)))) (object1 ''$date'' (in_quotes (iso_text (sint x))))" by (intro text_steps)
  have c: "json_text (member1 ''$date'' (member1 ''$numberLong'' (JStr ?d))) (object1 ''$date'' (object1 ''$numberLong'' (in_quotes ?d)))"
    by (intro object1_text bare_keys bare_text bare_texts) (simp add: lit_simps)
  show ?thesis using a b c by (simp add: json_date_def object_defs)
qed

lemma scalar_text:
  assumes "printable m v" "json_able m n v" "vtype v \<notin> {BSON_TYPE_DOCUMENT, BSON_TYPE_ARRAY, BSON_TYPE_CODEWSCOPE}"
  shows "json_text (json_tree m v) (json_val m n v)"
proof (cases v)
  case (VDouble x)
  then show ?thesis using double_text assms(2) by simp
next
  case (VBinary st b)
  have "json_text (member2 ''$binary'' (JStr (b64_text b)) ''$type'' (JStr (printf_02x st)))
      (object2 ''$binary'' (in_quotes (b64_text b)) ''$type'' (in_quotes (printf_02x st)))"
    by (intro text_steps)
  moreover have "json_text (member1 ''$binary'' (member2 ''base64'' (JStr (b64_text b)) ''subType'' (JStr (printf_02x st))))
      (object1 ''$binary'' (str_of ''{ \"base64\": '' @ in_quotes (b64_text b) @ str_of '', \"subType\" : '' @ in_quotes (printf_02x st) @ str_of '' }''))"
    by (intro object1_text base64_text bare_keys bare_text bare_texts)
  ultimately show ?thesis using VBinary by (simp add: json_binary_def object_defs)
next
  case VUndefined
  have "json_text (member1 ''$undefined'' (JBool True)) (object1 ''$undefined'' (str_of (if True then ''true'' else ''false'')))" by (intro text_steps)
  then show ?thesis using VUndefined by (simp add: object_defs)
next
  case (VOid i)
  have "json_text (member1 ''$oid'' (JStr (hex_text i))) (object1 ''$oid'' (in_quotes (hex_text i)))" by (intro text_steps)
  then show ?thesis using VOid by (simp add: object_defs)
next
  case (VBool b)
  then show ?thesis using text_bool [of b] by simp
next
  case (VDateTime x)
  then show ?thesis using date_text_json assms(1) by blast
next
  case VNull
  then show ?thesis using text_null by simp
next
  case (VRegex r opt)
  have p: "plain_text r" using assms(1) VRegex by simp
  have "json_text (member2 ''$regex'' (JStr r) ''$options'' (JStr (sort_opts opt)))
      (object2 ''$regex'' (in_quotes (json_escape r)) ''$options'' (in_quotes (sort_opts opt)))"
    by (intro text_steps p)
  moreover have "json_text (member1 ''$regularExpression'' (member2 ''pattern'' (JStr r) ''options'' (JStr (sort_opts opt))))
      (object1 ''$regularExpression'' (object2 ''pattern'' (in_quotes (json_escape r)) ''options'' (in_quotes (sort_opts opt))))"
    by (intro object1_text object2_text bare_keys bare_text plain_text_json p bare_texts)
  ultimately show ?thesis using VRegex by (simp add: json_regex_def object_defs)
next
  case (VDBPointer c i)
  have p: "plain_text c" using assms(1) VDBPointer by simp
  have "json_text (member2 ''$ref'' (JStr c) ''$id'' (JStr (hex_text i))) (object2 ''$ref'' (in_quotes (json_escape c)) ''$id'' (in_quotes (hex_text i)))"
    by (intro text_steps p)
  moreover have "json_text (member1 ''$dbPointer'' (member2 ''$ref'' (JStr c) ''$id'' (member1 ''$oid'' (JStr (hex_text i)))))
      (object1 ''$dbPointer'' (object2 ''$ref'' (in_quotes (json_escape c)) ''$id'' (object1 ''$oid'' (in_quotes (hex_text i)))))"
    by (intro object1_text object2_text bare_keys bare_text plain_text_json p bare_texts)
  ultimately show ?thesis using VDBPointer by (simp add: json_dbpointer_def object_defs)
next
  case (VCode c)
  have p: "plain_text c" using assms(1) VCode by simp
  have "json_text (member1 ''$code'' (JStr c)) (object1 ''$code'' (in_quotes (json_escape c)))" by (intro text_steps p)
  then show ?thesis using VCode by (simp add: object_defs)
next
  case (VSymbol c)
  have p: "plain_text c" using assms(1) VSymbol by simp
  have "json_text (member1 ''$symbol'' (JStr c)) (object1 ''$symbol'' (in_quotes (json_escape c)))" by (intro text_steps p)
  then show ?thesis using VSymbol plain_text_json [OF p] by (simp add: object_defs)
next
  case (VInt32 x)
  have "json_text (member1 ''$numberInt'' (JStr (signed_decimal (sint x)))) (object1 ''$numberInt'' (in_quotes (signed_decimal (sint x))))"
    by (intro text_steps)
  then show ?thesis using VInt32 text_num [OF signed_number] by (simp add: object_defs)
next
  case (VTimestamp ts inc)
  have "json_text (member1 ''$timestamp'' (member2 ''t'' (JNum (decimal (unat ts))) ''i'' (JNum (decimal (unat inc)))))
      (object1 ''$timestamp'' (object2 ''t'' (decimal (unat ts)) ''i'' (decimal (unat inc))))"
    by (intro object1_text object2_text bare_keys text_num decimal_number)
  then show ?thesis using VTimestamp by (simp add: object_defs)
next
  case (VInt64 x)
  have "json_text (member1 ''$numberLong'' (JStr (signed_decimal (sint x)))) (str_of ''{ \"$numberLong\" : '' @ in_quotes (signed_decimal (sint x)) @ str_of ''}'')"
    by (intro number_long_text bare_text bare_texts)
  then show ?thesis using VInt64 text_num [OF signed_number] by (simp add: object_defs)
next
  case (VDecimal128 hi lo)
  have "json_text (member1 ''$numberDecimal'' (JStr (d128_spec hi lo))) (object1 ''$numberDecimal'' (in_quotes (d128_spec hi lo)))" by (intro text_steps)
  then show ?thesis using VDecimal128 by (simp add: object_defs)
next
  case VMaxKey
  have "json_text (member1 ''$maxKey'' (JNum (str_of ''1''))) (object1 ''$maxKey'' (str_of ''1''))" by (intro text_steps)
  then show ?thesis using VMaxKey by (simp add: object_defs)
next
  case VMinKey
  have "json_text (member1 ''$minKey'' (JNum (str_of ''1''))) (object1 ''$minKey'' (str_of ''1''))" by (intro text_steps)
  then show ?thesis using VMinKey by (simp add: object_defs)
qed (use assms plain_text_json in simp_all)

lemma tree_text:
  shows "printable m v \<Longrightarrow> json_able m n v \<Longrightarrow> json_text (json_tree m v) (json_val m n v)"
    and "printables m es \<Longrightarrow> json_ables m n es \<Longrightarrow>
      json_members (json_nodes m es) (str_of '' '' @ json_items m n True True es @ [0x20]) \<and>
      json_elements (map snd (json_nodes m es)) (str_of '' '' @ json_items m n False True es @ [0x20])"
proof (induction m n v and m n "keys :: bool" "first :: bool" es rule: json_val_json_items.induct)
  case (3 m n es)
  then have "json_text (JObj (json_nodes m es)) ([0x7B] @ (str_of '' '' @ json_items m (n + 1) True True es @ [0x20]) @ [0x7D])"
    by (intro text_obj) simp
  then show ?case using 3 by (simp add: wrap_def lit_simps)
next
  case (4 m n es)
  then have "json_text (JArr (map snd (json_nodes m es))) ([0x5B] @ (str_of '' '' @ json_items m (n + 1) False True es @ [0x20]) @ [0x5D])"
    by (intro text_arr) simp
  then show ?case using 4 by (simp add: wrap_def lit_simps)
next
  case (15 m n c es)
  have "json_text (JObj (json_nodes m es)) (if es = [] then str_of ''{ }'' else wrap ''{ '' (json_items m 0 True True es) '' }'')"
  proof (cases "es = []")
    case True
    then show ?thesis using text_obj [OF members_none [OF ws_simps(2)]] by (simp add: lit_simps)
  next
    case False
    then have "json_text (JObj (json_nodes m es)) ([0x7B] @ (str_of '' '' @ json_items m 0 True True es @ [0x20]) @ [0x7D])"
      using 15 by (intro text_obj) simp
    then show ?thesis using False by (simp add: wrap_def lit_simps)
  qed
  from object2_text [OF bare_keys(15,17) plain_text_json this, of c] 15
  show ?case by (simp add: object_defs)
next
  case (22 m n keys first)
  then show ?case using members_none [of "[0x20, 0x20]"] elements_none [of "[0x20, 0x20]"] by (simp add: lit_simps json_ws_def)
next
  case (23 m n keys first k v es)
  then have v: "json_text (json_tree m v) (json_val m n v)" and p: "plain_text k" by simp_all
  have r: "json_members (json_nodes m es) (str_of '' '' @ json_items m n True True es @ [0x20])"
    "json_elements (map snd (json_nodes m es)) (str_of '' '' @ json_items m n False True es @ [0x20])" using 23 by simp_all
  have e: "es = [] \<longleftrightarrow> json_nodes m es = []" "es = [] \<longleftrightarrow> map snd (json_nodes m es) = []" by (simp_all add: nodes_empty)
  show ?case using items_members [OF p v r(1) e(1)] items_elements [OF v r(2) e(2)] by simp
qed (rule scalar_text, assumption, assumption, simp)+

lemma doc_text: "printables m es \<Longrightarrow> json_ables m 0 es \<Longrightarrow> json_text (JObj (json_nodes m es)) (json_doc m es)"
proof (cases "es = []")
  case True
  then show ?thesis using text_obj [OF members_none [OF ws_simps(2)]] by (simp add: json_doc_def lit_simps)
next
  case False
  assume "printables m es" "json_ables m 0 es"
  from text_obj [OF conjunct1 [OF tree_text(2) [OF this]]] show ?thesis using False by (simp add: json_doc_def wrap_def lit_simps)
qed

subsection \<open>The printers\<close>

text \<open>
  C6. What the printers return is JSON in the sense of RFC 8259, and it stands for the tree that the tables of Extended
  JSON give: keys and strings are read back byte for byte. The document satisfies the conditions under which
  the text is exact, is nested at most 200 levels deep, and has only finite doubles in the legacy mode.
\<close>
theorem json_printers_valid:
  assumes "rep H a es" "wf_elems es" "length (enc_doc es) \<le> INT_MAX" "printables m es" "json_ables m 0 es" "length (json_doc m es) \<le> 2 ^ 29"
  shows "\<exists>s t. json_printer m H a = Some (Some (s, length t)) \<and> c_string s 0 = Some t \<and> json_text (JObj (json_nodes m es)) t"
proof -
  obtain x where "doc_view_of H a = Some (x, length (enc_doc es))" "at x 0 (enc_doc es)" by (rule doc_view_text [OF assms(1)])
  then show ?thesis using view_text [OF _ assms(2,3,4,6)] doc_text [OF assms(4,5)] by (fastforce simp: json_printer_view)
qed

lemma json_printers_valid_witness:
  "\<exists>s t. bson_as_relaxed_extended_json (set_doc empty_heap 0 (inline_sample print_sample)) 0 = Some (Some (s, length t)) \<and> c_string s 0 = Some t \<and>
     json_text (JObj [(str_of ''n'', JNum (str_of ''7'')), (str_of ''s'', JStr [0x22, 0x0A]),
       (str_of ''l'', JArr [JBool True, JObj [(str_of ''$minKey'', JNum (str_of ''1''))]])]) t"
proof -
  let ?m = BSON_JSON_MODE_RELAXED
  have "length (json_doc ?m print_sample) \<le> 2 ^ 29"
    by (simp add: print_sample_def json_doc_def wrap_def in_quotes_def json_escape_def json_esc_def utf8_enc_def signed_decimal_def
      decimal.simps [of 7] lit_simps BSON_MAX_RECURSION_def)
  moreover have "length (enc_doc print_sample) \<le> INT_MAX" using print_sample_facts(1) by simp
  moreover have "json_ables ?m 0 print_sample" by (simp add: print_sample_def BSON_MAX_RECURSION_def)
  moreover have "json_nodes ?m print_sample = [(str_of ''n'', JNum (str_of ''7'')), (str_of ''s'', JStr [0x22, 0x0A]),
       (str_of ''l'', JArr [JBool True, JObj [(str_of ''$minKey'', JNum (str_of ''1''))]])]"
    by (simp add: print_sample_def member1_def signed_decimal_def decimal.simps [of 7] lit_simps)
  ultimately show ?thesis
    using json_printers_valid [OF inline_sample_rep [OF print_sample_facts(1)] print_sample_facts(2) _ print_sample_facts(3), of ?m] by simp
qed

end
