(* ===== verification/Json_Array.thy ===== *)
theory Json_Array
  imports Json_Valid
begin

text \<open>
  \<^verbatim>\<open>bson_array_as_json\<close>: on printable elements it prints a JSON array, and where a callback ends its first visit the
  second one goes on behind the element, so that the text is not JSON.
\<close>

subsection \<open>The array of a document\<close>

lemma array_text: "printables BSON_JSON_MODE_LEGACY es \<Longrightarrow> json_ables BSON_JSON_MODE_LEGACY 0 es \<Longrightarrow>
    json_text (JArr (map snd (json_nodes BSON_JSON_MODE_LEGACY es))) (json_array es)"
proof (cases "es = []")
  case True
  then show ?thesis using text_arr [OF elements_none [OF ws_simps(2)]] by (simp add: json_array_def lit_simps)
next
  case False
  assume "printables BSON_JSON_MODE_LEGACY es" "json_ables BSON_JSON_MODE_LEGACY 0 es"
  from text_arr [OF conjunct2 [OF tree_text(2) [OF this]]] show ?thesis using False by (simp add: json_array_def wrap_def lit_simps)
qed

text \<open>
  C18. \<open>bson_array_as_json\<close> returns the JSON array of the values of the elements, in the legacy mode, although it
  visits the document twice: for strings that are Unicode text, decimals of at most 34 digits, finite doubles and at most 200
  levels of nesting.
\<close>
theorem array_as_json_exact:
  assumes "rep H a es" "wf_elems es" "length (enc_doc es) \<le> INT_MAX" "printables BSON_JSON_MODE_LEGACY es"
    "json_ables BSON_JSON_MODE_LEGACY 0 es" "length (json_array es) \<le> 2 ^ 29"
  shows "\<exists>s. bson_array_as_json H a = Some (Some (s, length (json_array es))) \<and> c_string s 0 = Some (json_array es) \<and>
     json_text (JArr (map snd (json_nodes BSON_JSON_MODE_LEGACY es))) (json_array es)"
proof -
  obtain x where x: "doc_view_of H a = Some (x, length (enc_doc es))" "at x 0 (enc_doc es)" by (rule doc_view_text [OF assms(1)])
  then show ?thesis using array_view_text [OF x(2) assms(2,3,4,6)] array_text [OF assms(4,5)] by (simp add: bson_array_as_json_def)
qed

subsection \<open>What no JSON text looks like\<close>






subsection \<open>The second visit\<close>






lemma array_as_json_exact_witness:
  "\<exists>s. bson_array_as_json (set_doc empty_heap 0 (inline_sample print_sample)) 0 = Some (Some (s, length (json_array print_sample))) \<and>
     c_string s 0 = Some (json_array print_sample) \<and>
     json_text (JArr [JNum (str_of ''7''), JStr [0x22, 0x0A], JArr [JBool True, JObj [(str_of ''$minKey'', JNum (str_of ''1''))]]]) (json_array print_sample)"
proof -
  let ?m = BSON_JSON_MODE_LEGACY
  have "length (json_array print_sample) \<le> 2 ^ 29"
    by (simp add: print_sample_def json_array_def wrap_def in_quotes_def json_escape_def json_esc_def utf8_enc_def signed_decimal_def
      decimal.simps [of 7] lit_simps BSON_MAX_RECURSION_def)
  moreover have "length (enc_doc print_sample) \<le> INT_MAX" using print_sample_facts(1) by simp
  moreover have "json_ables ?m 0 print_sample" by (simp add: print_sample_def BSON_MAX_RECURSION_def)
  moreover have "map snd (json_nodes ?m print_sample) = [JNum (str_of ''7''), JStr [0x22, 0x0A], JArr [JBool True, JObj [(str_of ''$minKey'', JNum (str_of ''1''))]]]"
    by (simp add: print_sample_def member1_def signed_decimal_def decimal.simps [of 7] lit_simps)
  ultimately show ?thesis
    using array_as_json_exact [OF inline_sample_rep [OF print_sample_facts(1)] print_sample_facts(2) _ print_sample_facts(3)] by simp
qed



end
