(* ===== verification/Spec2Isabelle.thy ===== *)
theory Spec2Isabelle
  imports Utf8 Oid Bson_Types Bson_String Strtoll Bson_Doc Bson_Value Bson_Append Bson_Life Bson_Build Iter Iter_Safe Iter_Find Value_Copy Visit_Loop Validate_Safe Validate_Exact Keys Writer Bson_Copying Md5 Timegm B64 Iso8601 Decimal128 Json_Array
begin

text \<open>
  A verification library for libbson (\<^verbatim>\<open>src/src/bson\<close>): the C library that builds, parses, validates, copies and
  streams BSON documents. The functions of the library are translated one by one into executable HOL functions that read
  like the code; the theorems compare them with specifications that are written independently of the code.

  \<^bold>\<open>The program.\<close> A document is a \<^verbatim>\<open>bson_t\<close> (\<^verbatim>\<open>bson.c\<close>): a length and a block of bytes, inline in the structure or
  allocated, that grows while elements are appended; a subdocument under construction shares the block of its parent. A
  \<^verbatim>\<open>bson_iter_t\<close> (\<^verbatim>\<open>bson-iter.c\<close>) is a cursor over the bytes of a document that comes from anywhere; the searches, the
  visitors and \<^verbatim>\<open>bson_validate\<close> run on it. Readers and writers (\<^verbatim>\<open>bson-reader.c\<close>, \<^verbatim>\<open>bson-writer.c\<close>) move sequences of
  documents through buffers, files and callbacks. Around them stand the helpers: UTF-8, strings, object ids, keys of
  arrays, dates, MD5.

  \<^bold>\<open>Conventions.\<close> \<open>Bson_Prelude\<close> fixes them for all theories. A block of memory is a list of bytes, a pointer is a block
  and an index, and every access is checked: a function of type \<open>'a option\<close> answers \<open>None\<close> exactly where the C code would
  leave a block, abort on an assertion or not return, so that \<open>f x = Some y\<close> says that the code returns and stays in its
  memory. What the code itself reports (\<^verbatim>\<open>false\<close>, \<^verbatim>\<open>NULL\<close>, an error code) is a value inside. Sums of
  \<^verbatim>\<open>uint32_t\<close> and \<^verbatim>\<open>size_t\<close> values are taken modulo their width where they can wrap (\<open>add32\<close>, \<open>sub32\<close>, words); overflow
  of signed arithmetic is checked or excluded by the hypothesis on the size. Doubles, dates and decimals are their bits;
  arithmetic on doubles is an argument of the functions that use it. Loops are structural, have a measure, or are
  \<open>partial_function (option)\<close>; that a loop ends is proved, as \<open>f x = Some y\<close>. The tables of callbacks that refer to themselves
  (\<^verbatim>\<open>bson_validate_funcs\<close>, \<^verbatim>\<open>bson_as_json_visitors\<close>) are indexed by a number that bounds the nesting; the entry points take
  the length of the document, and the theorems show that it is enough.

  \<^bold>\<open>The theories\<close>, in the order of the imports:

  \<^item> \<open>Utf8\<close> (\<^verbatim>\<open>bson-utf8.c\<close>): \<open>bson_utf8_validate\<close>, \<open>bson_utf8_get_char\<close>, \<open>bson_utf8_from_unichar\<close>. The validator answers
    exactly the text of the Unicode standard (\<open>utf8_text\<close>); encoding and decoding are inverse up to five bytes.
  \<^item> \<open>Oid\<close> (\<^verbatim>\<open>bson-oid.c\<close>): comparison, hashing, printing and parsing of the twelve bytes.
  \<^item> \<open>Bson_Types\<close> (\<^verbatim>\<open>bson-types.h\<close>, \<^verbatim>\<open>bson-private.h\<close>): type codes, limits, \<open>bson_next_power_of_two\<close>, \<open>bson_value\<close>.
  \<^item> \<open>Bson_String\<close> (\<^verbatim>\<open>bson-string.c\<close>, \<^verbatim>\<open>bson-memory.c\<close>, and \<open>bson_utf8_escape_for_json\<close>): the growable \<open>bson_string\<close> with its
    invariant \<open>str_ok\<close>, string helpers, and the JSON escaper with a reader that inverts it.
  \<^item> \<open>Strtoll\<close>: \<open>bson_ascii_strtoll\<close>, exact or saturated with \<^verbatim>\<open>ERANGE\<close>.
  \<^item> \<open>Bson_Doc\<close> (\<^verbatim>\<open>bson.c\<close>): the store of \<^verbatim>\<open>bson_t\<close> structures (\<open>heap\<close>, addresses to inline and allocated layouts,
    children pointing to parents), growth and the append primitive \<open>bson_append_pairs\<close>.
  \<^item> \<open>Bson_Value\<close>: the abstract documents (\<open>bval\<close>, \<open>elems\<close>) and their encoding \<open>enc_doc\<close>, the contract of everything
    that follows; it models no code.
  \<^item> \<open>Bson_Append\<close>, \<open>Bson_Build\<close>: one function per \<^verbatim>\<open>bson_append_*\<close>, \<open>bson_append_value\<close>, and the nested documents between begin
    and end. Appends refine the encoding and change all or nothing; a whole tree built by nested calls is its
    encoding (regular expressions aside, whose options the code sorts and whose last byte it may put behind the buffer).
  \<^item> \<open>Bson_Life\<close>: constructors, copies, \<open>bson_steal\<close>, \<open>bson_destroy\<close>, comparison.
  \<^item> \<open>Iter\<close>, \<open>Iter_Next\<close>, \<open>Iter_Safe\<close>, \<open>Iter_Read\<close>, \<open>Iter_Find\<close> (\<^verbatim>\<open>bson-iter.c\<close>, \<^verbatim>\<open>bson-iter.h\<close>): every branch of
    \<open>iter_next\<close> and the accessors; memory safety on arbitrary bytes; reading back an encoded document; the searches and
    the overwriting functions. \<open>Value_Copy\<close> (\<^verbatim>\<open>bson-value.c\<close>): copies of the values handed out.
  \<^item> \<open>Visit\<close>, \<open>Visit_Elem\<close>, \<open>Visit_Safe\<close>, \<open>Visit_Loop\<close>: \<open>bson_iter_visit_all\<close> over a record of optional callbacks.
  \<^item> \<open>Validate\<close>, \<open>Validate_Safe\<close>, \<open>Validate_Exact\<close>: \<open>bson_validate\<close> with its phases; it returns on every content (given
    four more bytes of memory behind the document), and on
    encoded documents it decides the predicate \<open>elems_valid\<close> of the flags.
  \<^item> \<open>Keys\<close> (\<^verbatim>\<open>bson-keys.c\<close>), \<open>Bson_Copying\<close> (filtered copies, joining, counting), \<open>Md5\<close> (\<^verbatim>\<open>bson-md5.c\<close>), \<open>Timegm\<close>
    (\<^verbatim>\<open>bson-timegm.c\<close>, against the Gregorian calendar).
  \<^item> \<open>Reader\<close>, \<open>Reader_Stream\<close> (\<^verbatim>\<open>bson-reader.c\<close>): the reader over memory and over a read function; the laws of read
    functions are a locale, interpreted on the file descriptor's; where reads fail or the file is cut, the end is misreported. \<open>Writer\<close> (\<^verbatim>\<open>bson-writer.c\<close>): the writer over the store.
  \<^item> \<open>B64\<close> (\<^verbatim>\<open>b64_ntop.h\<close>, \<^verbatim>\<open>b64_pton.h\<close>): Base64 in both directions, inside the buffers. \<open>Iso8601\<close>
    (\<^verbatim>\<open>bson-iso8601.c\<close>): the parser and the printer of dates. \<open>Decimal128\<close> (\<^verbatim>\<open>bson-decimal128.c\<close>): the printer of decimals,
    against the text the standard prescribes.
  \<^item> \<open>As_Json\<close> (\<^verbatim>\<open>bson.c\<close>): the callbacks of \<^verbatim>\<open>bson_as_json_visitors\<close>, \<^verbatim>\<open>bson_as_json\<close>, its canonical and relaxed
    forms and \<^verbatim>\<open>bson_array_as_json\<close>. \<open>Double_Text\<close> writes out \<^verbatim>\<open>printf ("%.20g")\<close>. \<open>Json\<close> is the grammar of RFC 8259. \<open>Json_Print\<close> states the
    text of every document and the laws of steps that append; \<open>Json_Emit\<close> shows them for each callback, \<open>Json_Exact\<close> and
    \<open>Json_Doc\<close> for the visit and the entry points, \<open>Json_Valid\<close> that the text is JSON and which tree it stands for, \<open>Json_Array\<close> the
    array and its double visit. The fuel of the visitor is the length of the document, more than its nesting.

  \<^bold>\<open>Bounds.\<close> A document holds at most \<open>BSON_MAX_SIZE\<close> = \<open>2 ^ 31 - 1\<close> bytes, and the buffer that carries it at most
  \<open>2 ^ 30\<close> (the size is rounded up to a power of two below \<^verbatim>\<open>INT32_MAX\<close>); the theorems about building carry that bound.
  Iterators are studied on blocks of at most \<^verbatim>\<open>INT32_MAX\<close> bytes, strings up to \<open>2 ^ 30\<close>.

  \<^bold>\<open>Not modelled.\<close> The JSON reader (\<^verbatim>\<open>bson-json.c\<close>) is a set of callbacks driven by the vendored tokenizer
  \<^verbatim>\<open>jsonsl\<close>, and BCON (\<^verbatim>\<open>bcon.c\<close>) walks a C argument list whose types are only known at run time; neither is translated.
  Contexts, clocks, threads and atomics (\<^verbatim>\<open>bson-context.c\<close>, \<^verbatim>\<open>bson-clock.c\<close>, \<^verbatim>\<open>bson-atomic.c\<close>) are calls of the operating
  system around one counter. \<^verbatim>\<open>bson_decimal128_from_string\<close> is not translated. Allocation never fails, as the code aborts when it does. Text on \<^verbatim>\<open>stderr\<close>, the error
  messages of \<^verbatim>\<open>bson_error_t\<close> and the version functions carry no logic.
\<close>

end
